(* ===== verification/Prelude.thy ===== *)
theory Prelude
  imports Main "HOL-Library.Word"
begin

text \<open>
  Shared vocabulary of the development: the kernel's scalar types and constants
  (\<open>include/t_stddef.h\<close>, \<open>include/kernel.h\<close>, \<open>kernel/kernel_impl.h\<close> under
  \<open>src/DeviceCode/Targets/OS/Toppers/fmp/\<close>), the result type of a service call, the
  collections the component theories add their facts to, and generic lemmas on lists and
  function update.
\<close>

unbundle bit_operations_syntax

named_theorems kdefs "definitions of the small kernel operations, unfolded together"
named_theorems kframe "which fields of the kernel state an operation leaves alone"

section \<open>Scalar types and constants\<close>

type_synonym tskix = nat      \<comment> \<open>a \<open>TCB *\<close>: the index \<open>INDEX_TSK(tskid)\<close> of the task\<close>
type_synonym prcix = nat      \<comment> \<open>a \<open>PCB *\<close>: the index \<open>INDEX_PRC(prcid)\<close> of the processor\<close>
type_synonym ident = int      \<comment> \<open>\<open>ID\<close>\<close>
type_synonym pri = int        \<comment> \<open>\<open>PRI\<close>, the external priority\<close>
type_synonym atr = "32 word"  \<comment> \<open>\<open>ATR\<close>\<close>
type_synonym tmo = int        \<comment> \<open>\<open>TMO\<close>\<close>
type_synonym reltim = "32 word"
type_synonym evttim = "32 word"
type_synonym flgptn = "32 word"
type_synonym texptn = "32 word"
type_synonym intptr = "32 word"

datatype ercd =
    E_OK | E_SYS | E_NOSPT | E_PAR | E_ID | E_CTX | E_ILUSE | E_OBJ | E_QOVR
  | E_RLWAI | E_TMOUT | E_DLT

definition TMIN_TPRI :: int where "TMIN_TPRI = 1"
definition TMAX_TPRI :: int where "TMAX_TPRI = 16"
definition TNUM_TPRI :: nat where "TNUM_TPRI = nat (TMAX_TPRI - TMIN_TPRI + 1)"
definition TMO_POL :: tmo where "TMO_POL = 0"
definition TMO_FEVR :: tmo where "TMO_FEVR = - 1"
definition TSK_SELF :: ident where "TSK_SELF = 0"
definition TSK_NONE :: ident where "TSK_NONE = 0"
definition TPRI_INI :: pri where "TPRI_INI = 0"
definition TPRI_SELF :: pri where "TPRI_SELF = 0"
definition TPRC_INI :: ident where "TPRC_INI = 0"
definition TPRC_NONE :: ident where "TPRC_NONE = 0"
definition TA_TPRI :: atr where "TA_TPRI = 1"
definition TA_ACT :: atr where "TA_ACT = 2"
definition TA_MPRI :: atr where "TA_MPRI = 2"
definition TA_WMUL :: atr where "TA_WMUL = 2"
definition TA_CLR :: atr where "TA_CLR = 4"
definition TA_STA :: atr where "TA_STA = 2"
definition TMIN_MPRI :: pri where "TMIN_MPRI = 1"
definition TMIN_DPRI :: pri where "TMIN_DPRI = 1"
definition TWF_ORW :: "32 word" where "TWF_ORW = 1"
definition TWF_ANDW :: "32 word" where "TWF_ANDW = 2"
definition TMAX_RELTIM :: reltim where "TMAX_RELTIM = 0x7FFFFFFF"

lemma TNUM_TPRI_eq [simp]: "TNUM_TPRI = 16"
  by (simp add: TNUM_TPRI_def TMAX_TPRI_def TMIN_TPRI_def)

section \<open>Results of a service call\<close>

text \<open>
  \<open>Ret r\<close>: the call returns \<open>r\<close>. \<open>Blocks t\<close>: the calling task \<open>t\<close> went to sleep inside
  the call; the call returns when the task is dispatched again, with the task's \<open>wercd\<close>.
  \<open>Again\<close>: the call found its own task not runnable and loops with the CPU unlocked, so
  that a pending interprocessor interrupt is taken first; nothing has changed.  \<open>Exits\<close>: the
  calling task ended inside the call, which does not return.
\<close>

datatype 'a svc = Ret 'a | Blocks tskix | Again | Exits

section \<open>Generic lemmas\<close>

lemma remove1_append_Cons [simp]:
  "x \<notin> set xs \<Longrightarrow> remove1 x (xs @ x # ys) = xs @ ys"
  by (induction xs) auto

lemma remove1_eq_Nil_iff:
  "distinct xs \<Longrightarrow> x \<in> set xs \<Longrightarrow> remove1 x xs = [] \<longleftrightarrow> xs = [x]"
  by (cases xs; cases "tl xs") (auto split: if_splits)

lemma hd_remove1_neq:
  "xs \<noteq> [] \<Longrightarrow> hd xs \<noteq> x \<Longrightarrow> hd (remove1 x xs) = hd xs"
  by (cases xs) auto

lemma remove1_neq_Nil_if_hd:
  "xs \<noteq> [] \<Longrightarrow> hd xs \<noteq> x \<Longrightarrow> remove1 x xs \<noteq> []"
  by (cases xs) auto

lemma split_list_distinct:
  assumes "x \<in> set xs" and "distinct xs"
  obtains ys zs where "xs = ys @ x # zs" and "x \<notin> set ys" and "x \<notin> set zs"
  using assms by (metis distinct.simps(2) distinct_append not_distinct_conv_prefix split_list split_list_first)

end
