(* ===== verification/Queue.thy ===== *)
theory Queue
  imports Prelude
begin

text \<open>
  The ring-shaped doubly linked queues of \<open>include/queue.h\<close>. Every \<open>QUEUE\<close> cell of the
  kernel (the headers and the \<open>task_queue\<close> member of each TCB) is a node of one explicit
  pointer store, and each operation performs the pointer writes of the C code in order.
  \<open>qrep st Q\<close> says that the store represents the lists \<open>Q h\<close>, one for each header \<open>h\<close>.
\<close>

section \<open>The store and the operations\<close>

datatype ('h, 'e) qnode = Hdr 'h | Ent 'e

record ('h, 'e) qstore =
  p_next :: "('h, 'e) qnode \<Rightarrow> ('h, 'e) qnode"
  p_prev :: "('h, 'e) qnode \<Rightarrow> ('h, 'e) qnode"

definition queue_initialize ::
  "('h, 'e) qnode \<Rightarrow> ('h, 'e) qstore \<Rightarrow> ('h, 'e) qstore" where
  "queue_initialize q st =
     (let st = st\<lparr>p_prev := (p_prev st)(q := q)\<rparr>
      in st\<lparr>p_next := (p_next st)(q := q)\<rparr>)"

definition queue_insert_prev ::
  "('h, 'e) qnode \<Rightarrow> ('h, 'e) qnode \<Rightarrow> ('h, 'e) qstore \<Rightarrow> ('h, 'e) qstore" where
  "queue_insert_prev q e st =
     (let st = st\<lparr>p_prev := (p_prev st)(e := p_prev st q)\<rparr>;
          st = st\<lparr>p_next := (p_next st)(e := q)\<rparr>;
          st = st\<lparr>p_next := (p_next st)(p_prev st q := e)\<rparr>
      in st\<lparr>p_prev := (p_prev st)(q := e)\<rparr>)"

definition queue_delete ::
  "('h, 'e) qnode \<Rightarrow> ('h, 'e) qstore \<Rightarrow> ('h, 'e) qstore" where
  "queue_delete e st =
     (let st = st\<lparr>p_next := (p_next st)(p_prev st e := p_next st e)\<rparr>
      in st\<lparr>p_prev := (p_prev st)(p_next st e := p_prev st e)\<rparr>)"

definition queue_delete_next ::
  "('h, 'e) qnode \<Rightarrow> ('h, 'e) qstore \<Rightarrow> ('h, 'e) qnode \<times> ('h, 'e) qstore" where
  "queue_delete_next q st =
     (let e = p_next st q;
          st = st\<lparr>p_next := (p_next st)(q := p_next st e)\<rparr>;
          st = st\<lparr>p_prev := (p_prev st)(p_next st e := q)\<rparr>
      in (e, st))"

definition queue_empty :: "('h, 'e) qnode \<Rightarrow> ('h, 'e) qstore \<Rightarrow> bool" where
  "queue_empty q st \<longleftrightarrow> p_next st q = q"

section \<open>Segments of a ring\<close>

text \<open>
  \<open>qseg st a xs b\<close>: following \<open>p_next\<close> from \<open>a\<close> one meets exactly the nodes \<open>xs\<close> and then
  \<open>b\<close>, and \<open>p_prev\<close> leads back.
\<close>

fun qseg :: "('h, 'e) qstore \<Rightarrow> ('h, 'e) qnode \<Rightarrow> ('h, 'e) qnode list \<Rightarrow> ('h, 'e) qnode \<Rightarrow> bool" where
  "qseg st a [] b \<longleftrightarrow> p_next st a = b \<and> p_prev st b = a"
| "qseg st a (x # xs) b \<longleftrightarrow> p_next st a = x \<and> p_prev st x = a \<and> qseg st x xs b"

lemma qseg_append:
  "qseg st a (xs @ x # ys) b \<longleftrightarrow> qseg st a xs x \<and> qseg st x ys b"
  by (induction xs arbitrary: a) auto

lemma qseg_prev: "qseg st a xs b \<Longrightarrow> p_prev st b = last (a # xs)"
  by (induction xs arbitrary: a) auto

lemma qseg_next: "qseg st a xs b \<Longrightarrow> p_next st a = hd (xs @ [b])"
  by (cases xs) auto

lemma qseg_frame:
  assumes "\<And>n. n \<in> set (a # xs) \<Longrightarrow> p_next st' n = p_next st n"
    and "\<And>n. n \<in> set (xs @ [b]) \<Longrightarrow> p_prev st' n = p_prev st n"
  shows "qseg st' a xs b = qseg st a xs b"
  using assms by (induction xs arbitrary: a) auto

lemma qseg_retarget:
  assumes "qseg st a xs e" and "distinct (a # xs)" and "c \<notin> set xs"
    and nx: "\<And>n. n \<in> set (a # xs) \<Longrightarrow>
      p_next st' n = (if n = last (a # xs) then c else p_next st n)"
    and pv: "\<And>n. n \<in> set xs \<Longrightarrow> p_prev st' n = p_prev st n"
    and pc: "p_prev st' c = last (a # xs)"
  shows "qseg st' a xs c"
  using assms
proof (induction xs arbitrary: a)
  case Nil
  then show ?case by simp
next
  case (Cons x xs)
  then have "a \<noteq> last (x # xs)" by (metis distinct.simps(2) last_in_set list.distinct(1))
  moreover have "qseg st' x xs c"
    using Cons.prems by (intro Cons.IH) auto
  ultimately show ?case using Cons.prems by auto
qed

lemma qseg_insert_prev:
  assumes "qseg st a xs q" and "e \<noteq> a" "e \<noteq> q" "e \<notin> set xs"
    and "distinct (a # xs)" and "q \<notin> set xs"
  shows "qseg (queue_insert_prev q e st) a (xs @ [e]) q"
proof -
  have l: "last (a # xs) \<noteq> e"
    using assms(2,4) by (metis last_in_set list.distinct(1) set_ConsD)
  have pq: "p_prev st q = last (a # xs)" using assms(1) by (rule qseg_prev)
  have "qseg (queue_insert_prev q e st) a xs e"
    by (rule qseg_retarget [OF assms(1,5,4)])
       (use assms l pq in \<open>auto simp: queue_insert_prev_def Let_def\<close>)
  moreover have "p_next (queue_insert_prev q e st) e = q"
    using assms l pq by (simp add: queue_insert_prev_def Let_def)
  moreover have "p_prev (queue_insert_prev q e st) q = e"
    by (simp add: queue_insert_prev_def Let_def)
  ultimately show ?thesis by (simp add: qseg_append)
qed

lemma qseg_insert_prev_frame:
  assumes "e \<notin> set (b # ys)" "p_prev st q \<notin> set (b # ys)"
    and "e \<notin> set (ys @ [c])" "q \<notin> set (ys @ [c])" and "e \<noteq> q"
  shows "qseg (queue_insert_prev q e st) b ys c = qseg st b ys c"
  by (rule qseg_frame) (use assms in \<open>auto simp: queue_insert_prev_def Let_def\<close>)

lemma qseg_delete:
  assumes "qseg st a (xs @ e # ys) b" and "distinct (a # xs @ e # ys)"
    and "b \<notin> set (xs @ e # ys)"
  shows "qseg (queue_delete e st) a (xs @ ys) b"
proof -
  let ?st = "queue_delete e st"
  have s1: "qseg st a xs e" and s2: "qseg st e ys b"
    using assms(1) by (auto simp: qseg_append)
  have pe: "p_prev st e = last (a # xs)" using s1 by (rule qseg_prev)
  have ne: "p_next st e = hd (ys @ [b])" using s2 by (rule qseg_next)
  have l: "last (a # xs) \<noteq> e"
    using assms(2) by (metis Un_iff distinct.simps(2) distinct_append disjoint_insert(2)
        last_ConsL last_ConsR last_in_set list.set_intros(1) list.simps(15) set_append)
  show ?thesis
  proof (cases ys)
    case Nil
    have "qseg ?st a xs b"
      by (rule qseg_retarget [OF s1])
         (use assms(2,3) l pe ne Nil in \<open>auto simp: queue_delete_def Let_def\<close>)
    then show ?thesis using Nil by simp
  next
    case (Cons y zs)
    have "qseg ?st a xs y"
      by (rule qseg_retarget [OF s1])
         (use assms(2,3) l pe ne Cons in \<open>auto simp: queue_delete_def Let_def\<close>)
    moreover have "qseg ?st y zs b = qseg st y zs b"
    proof (rule qseg_frame)
      have "last (a # xs) \<notin> set ys"
        using assms(2) by (metis Un_iff distinct.simps(2) distinct_append disjoint_iff
            last_ConsL last_ConsR last_in_set list.set_intros(2) set_append)
      then show "n \<in> set (y # zs) \<Longrightarrow> p_next ?st n = p_next st n" for n
        using Cons pe l by (auto simp: queue_delete_def Let_def)
      show "n \<in> set (zs @ [b]) \<Longrightarrow> p_prev ?st n = p_prev st n" for n
        using assms(2,3) Cons pe ne l by (auto simp: queue_delete_def Let_def)
    qed
    ultimately show ?thesis using s2 Cons by (simp add: qseg_append)
  qed
qed

lemma qseg_delete_frame:
  assumes "p_prev st e \<notin> set (b # ys)" and "p_next st e \<notin> set (ys @ [c])"
    and "p_prev st e \<noteq> e"
  shows "qseg (queue_delete e st) b ys c = qseg st b ys c"
  by (rule qseg_frame) (use assms in \<open>auto simp: queue_delete_def Let_def\<close>)

section \<open>A store that represents lists\<close>

definition qrep :: "('h, 'e) qstore \<Rightarrow> ('h \<Rightarrow> 'e list) \<Rightarrow> bool" where
  "qrep st Q \<longleftrightarrow>
     (\<forall>h. qseg st (Hdr h) (map Ent (Q h)) (Hdr h)) \<and>
     (\<forall>h. distinct (Q h)) \<and>
     (\<forall>h h'. h \<noteq> h' \<longrightarrow> set (Q h) \<inter> set (Q h') = {})"

text \<open>\<open>queued Q e\<close>: the element is linked into some queue.\<close>

definition queued :: "('h \<Rightarrow> 'e list) \<Rightarrow> 'e \<Rightarrow> bool" where
  "queued Q e \<longleftrightarrow> (\<exists>h. e \<in> set (Q h))"

lemma qrep_seg: "qrep st Q \<Longrightarrow> qseg st (Hdr h) (map Ent (Q h)) (Hdr h)"
  and qrep_distinct: "qrep st Q \<Longrightarrow> distinct (Q h)"
  by (auto simp: qrep_def)

lemma qrep_disjoint: "qrep st Q \<Longrightarrow> e \<in> set (Q h) \<Longrightarrow> e \<in> set (Q h') \<Longrightarrow> h = h'"
  unfolding qrep_def by (metis disjoint_iff)

lemma qrep_splitD:
  assumes "qrep st Q" and "Q h = xs @ x # ys"
  shows "qseg st (Hdr h) (map Ent xs) (Ent x)" and "qseg st (Ent x) (map Ent ys) (Hdr h)"
  using qrep_seg [OF assms(1), of h] assms(2) by (auto simp: qseg_append)

lemma last_Ent: "last (Hdr h # map Ent xs) = (if xs = [] then Hdr h else Ent (last xs))"
  by (simp add: last_map)

lemma qrep_prev_hdr:
  "qrep st Q \<Longrightarrow> p_prev st (Hdr h) = (if Q h = [] then Hdr h else Ent (last (Q h)))"
  using qseg_prev [OF qrep_seg, of st Q h] by (simp add: last_map)

lemma qrep_next_hdr:
  "qrep st Q \<Longrightarrow> p_next st (Hdr h) = (case Q h of [] \<Rightarrow> Hdr h | x # _ \<Rightarrow> Ent x)"
  using qseg_next [OF qrep_seg, of st Q h] by (cases "Q h") auto

lemma qrep_next_ent:
  "qrep st Q \<Longrightarrow> Q h = xs @ x # ys \<Longrightarrow>
   p_next st (Ent x) = (case ys of [] \<Rightarrow> Hdr h | y # _ \<Rightarrow> Ent y)"
  using qseg_next [OF qrep_splitD(2), of st Q h xs x ys] by (cases ys) auto

lemma qrep_prev_ent:
  "qrep st Q \<Longrightarrow> Q h = xs @ x # ys \<Longrightarrow>
   p_prev st (Ent x) = (if xs = [] then Hdr h else Ent (last xs))"
  using qseg_prev [OF qrep_splitD(1), of st Q h xs x ys] by (simp add: last_map)

lemma qrep_queue_empty [simp]:
  "qrep st Q \<Longrightarrow> queue_empty (Hdr h) st \<longleftrightarrow> Q h = []"
  by (auto simp: queue_empty_def qrep_next_hdr split: list.splits)

lemma map_Ent_mem [simp]: "Hdr h \<notin> Ent ` X" "Ent x \<in> Ent ` X \<longleftrightarrow> x \<in> X"
  by auto

lemma inj_Ent [simp]: "inj_on Ent X"
  by (auto intro: inj_onI)

lemma qrep_prev_cases:
  assumes "qrep st Q"
  shows "p_prev st (Hdr h) = Hdr h \<or> (\<exists>y \<in> set (Q h). p_prev st (Hdr h) = Ent y)"
  using assms by (auto simp: qrep_prev_hdr)

lemma qrep_insert_prev_hdr:
  assumes R: "qrep st Q" and e: "\<not> queued Q e"
  shows "qrep (queue_insert_prev (Hdr h) (Ent e) st) (Q(h := Q h @ [e]))"
proof -
  let ?st = "queue_insert_prev (Hdr h) (Ent e) st"
  have "qseg ?st (Hdr h) (map Ent (Q h) @ [Ent e]) (Hdr h)"
    by (rule qseg_insert_prev [OF qrep_seg [OF R]])
       (use e R in \<open>auto simp: queued_def distinct_map qrep_distinct\<close>)
  moreover have "qseg ?st (Hdr k) (map Ent (Q k)) (Hdr k)" if "k \<noteq> h" for k
  proof -
    have "qseg ?st (Hdr k) (map Ent (Q k)) (Hdr k) = qseg st (Hdr k) (map Ent (Q k)) (Hdr k)"
      by (rule qseg_insert_prev_frame)
         (use e that qrep_prev_cases [OF R, of h] qrep_disjoint [OF R] in
           \<open>auto simp: queued_def\<close>)
    then show ?thesis using qrep_seg [OF R] by simp
  qed
  ultimately show ?thesis
    using R e unfolding qrep_def queued_def by auto
qed

lemma qrep_insert_prev_ent:
  assumes R: "qrep st Q" and e: "\<not> queued Q e" and Qh: "Q h = xs @ x # ys"
  shows "qrep (queue_insert_prev (Ent x) (Ent e) st) (Q(h := xs @ e # x # ys))"
proof -
  let ?st = "queue_insert_prev (Ent x) (Ent e) st"
  have d: "distinct (xs @ x # ys)" using qrep_distinct [OF R, of h] Qh by simp
  have pv: "p_prev st (Ent x) = (if xs = [] then Hdr h else Ent (last xs))"
    by (rule qrep_prev_ent [OF R Qh])
  have ne: "e \<noteq> x" "e \<notin> set xs" "e \<notin> set ys"
    using e Qh unfolding queued_def by (metis Un_iff list.set_intros set_append)+
  have "qseg ?st (Hdr h) (map Ent xs @ [Ent e]) (Ent x)"
    by (rule qseg_insert_prev [OF qrep_splitD(1) [OF R Qh]])
       (use d ne in \<open>auto simp: distinct_map\<close>)
  moreover have "qseg ?st (Ent x) (map Ent ys) (Hdr h) = qseg st (Ent x) (map Ent ys) (Hdr h)"
  proof (rule qseg_insert_prev_frame)
    have "last xs \<noteq> x \<and> last xs \<notin> set ys" if "xs \<noteq> []"
      using d last_in_set [OF that] by auto
    then show "p_prev st (Ent x) \<notin> set (Ent x # map Ent ys)" using pv by auto
  qed (use d ne in auto)
  moreover have "qseg ?st (Hdr k) (map Ent (Q k)) (Hdr k)" if "k \<noteq> h" for k
  proof -
    have x: "x \<notin> set (Q k)" using that Qh qrep_disjoint [OF R, of x h k] by auto
    have "xs \<noteq> [] \<Longrightarrow> last xs \<in> set (Q h)" by (simp add: Qh)
    then have l: "xs \<noteq> [] \<Longrightarrow> last xs \<notin> set (Q k)"
      using that qrep_disjoint [OF R, of "last xs" h k] by auto
    have "qseg ?st (Hdr k) (map Ent (Q k)) (Hdr k) = qseg st (Hdr k) (map Ent (Q k)) (Hdr k)"
      by (rule qseg_insert_prev_frame)
         (use e ne(1) x l that pv in \<open>auto simp: queued_def\<close>)
    then show ?thesis using qrep_seg [OF R] by simp
  qed
  moreover have "qseg st (Ent x) (map Ent ys) (Hdr h)" by (rule qrep_splitD(2) [OF R Qh])
  ultimately have "qseg ?st (Hdr k) (map Ent ((Q(h := xs @ e # x # ys)) k)) (Hdr k)" for k
    by (simp add: qseg_append)
  moreover have "distinct ((Q(h := xs @ e # x # ys)) k)" for k
    using d ne qrep_distinct [OF R] by auto
  moreover have "set ((Q(h := xs @ e # x # ys)) k) \<inter> set ((Q(h := xs @ e # x # ys)) k') = {}"
    if "k \<noteq> k'" for k k'
  proof -
    have "set ((Q(h := xs @ e # x # ys)) j) = set (Q j) \<union> (if j = h then {e} else {})" for j
      using Qh by auto
    then show ?thesis using that e R unfolding qrep_def queued_def by auto
  qed
  ultimately show ?thesis unfolding qrep_def by blast
qed

lemma qrep_delete:
  assumes R: "qrep st Q" and e: "e \<in> set (Q h)"
  shows "qrep (queue_delete (Ent e) st) (Q(h := remove1 e (Q h)))"
proof -
  let ?st = "queue_delete (Ent e) st"
  from e qrep_distinct [OF R] obtain xs ys where Qh: "Q h = xs @ e # ys"
    and nx: "e \<notin> set xs" and ny: "e \<notin> set ys"
    by (rule split_list_distinct)
  have d: "distinct (xs @ e # ys)" using qrep_distinct [OF R, of h] Qh by simp
  have rm: "remove1 e (Q h) = xs @ ys" using Qh nx by simp
  have pv: "p_prev st (Ent e) = (if xs = [] then Hdr h else Ent (last xs))"
    by (rule qrep_prev_ent [OF R Qh])
  have nt: "p_next st (Ent e) = (case ys of [] \<Rightarrow> Hdr h | y # _ \<Rightarrow> Ent y)"
    by (rule qrep_next_ent [OF R Qh])
  have "qseg ?st (Hdr h) (map Ent xs @ map Ent ys) (Hdr h)"
    by (rule qseg_delete) (use qrep_seg [OF R, of h] Qh d in \<open>auto simp: distinct_map\<close>)
  moreover have "qseg ?st (Hdr k) (map Ent (Q k)) (Hdr k)" if "k \<noteq> h" for k
  proof -
    have "set (Q h) \<inter> set (Q k) = {}" using R that unfolding qrep_def by blast
    then have "xs \<noteq> [] \<Longrightarrow> last xs \<notin> set (Q k)" "ys \<noteq> [] \<Longrightarrow> hd ys \<notin> set (Q k)"
      using Qh by (auto simp: disjoint_iff)
    then have "qseg ?st (Hdr k) (map Ent (Q k)) (Hdr k) = qseg st (Hdr k) (map Ent (Q k)) (Hdr k)"
      by (intro qseg_delete_frame)
         (use that pv nt nx last_in_set [of xs] in \<open>auto split: list.splits if_splits\<close>)
    then show ?thesis using qrep_seg [OF R] by simp
  qed
  ultimately have "qseg ?st (Hdr k) (map Ent ((Q(h := remove1 e (Q h))) k)) (Hdr k)" for k
    using rm by simp
  moreover have "distinct ((Q(h := remove1 e (Q h))) k)" for k
    using qrep_distinct [OF R] by (auto simp: distinct_remove1)
  moreover have "set ((Q(h := remove1 e (Q h))) k) \<inter> set ((Q(h := remove1 e (Q h))) k') = {}"
    if "k \<noteq> k'" for k k'
  proof -
    have "set ((Q(h := remove1 e (Q h))) j) \<subseteq> set (Q j)" for j
      by (simp add: set_remove1_subset)
    moreover have "set (Q k) \<inter> set (Q k') = {}" using R that unfolding qrep_def by blast
    ultimately show ?thesis by blast
  qed
  ultimately show ?thesis unfolding qrep_def by blast
qed

lemma queue_delete_next_eq:
  assumes R: "qrep st Q" and Qh: "Q h = x # xs"
  shows "queue_delete_next (Hdr h) st = (Ent x, queue_delete (Ent x) st)"
  using qrep_next_hdr [OF R, of h] qrep_prev_ent [OF R, of h "[]" x xs] Qh
  by (simp add: queue_delete_next_def queue_delete_def Let_def)

lemma qseg_Ent_unique:
  "qseg st a (map Ent xs) (Hdr h) \<Longrightarrow> qseg st a (map Ent ys) (Hdr h) \<Longrightarrow> xs = ys"
proof (induction xs arbitrary: a ys)
  case Nil
  then show ?case by (cases ys) auto
next
  case (Cons x xs)
  then show ?case by (cases ys) auto
qed

lemma qrep_unique: "qrep st Q \<Longrightarrow> qrep st Q' \<Longrightarrow> Q = Q'"
  by (rule ext) (rule qseg_Ent_unique [OF qrep_seg qrep_seg])

lemma qrep_init: "qrep \<lparr>p_next = id, p_prev = id\<rparr> (\<lambda>_. [])"
  by (simp add: qrep_def)

lemma qrep_initialize:
  assumes R: "qrep st Q" and "Q h = []"
  shows "queue_initialize (Hdr h) st = st"
proof -
  have "p_next st (Hdr h) = Hdr h" "p_prev st (Hdr h) = Hdr h"
    using qrep_next_hdr [OF R, of h] qrep_prev_hdr [OF R, of h] assms(2) by auto
  then show ?thesis by (simp add: queue_initialize_def Let_def fun_upd_idem)
qed

section \<open>The queue interface\<close>

text \<open>
  What the scheduler and the wait-queue modules rely on: linking a task at the end of the
  queue with header \<open>h\<close>, unlinking a task from wherever it is, testing for emptiness and
  reading the first task.  The combinations the kernel uses are proved once here.
\<close>

locale ring_queue =
  fixes rep :: "'s \<Rightarrow> ('h \<Rightarrow> 'e list) \<Rightarrow> bool"
    and isempty :: "'h \<Rightarrow> 's \<Rightarrow> bool"
    and insert_last :: "'h \<Rightarrow> 'e \<Rightarrow> 's \<Rightarrow> 's"
    and unlink :: "'e \<Rightarrow> 's \<Rightarrow> 's"
  assumes isempty: "rep s Q \<Longrightarrow> isempty h s \<longleftrightarrow> Q h = []"
    and distinct_q: "rep s Q \<Longrightarrow> distinct (Q h)"
    and disjoint_q: "rep s Q \<Longrightarrow> e \<in> set (Q h) \<Longrightarrow> e \<in> set (Q h') \<Longrightarrow> h = h'"
    and insert_last: "rep s Q \<Longrightarrow> \<not> queued Q e \<Longrightarrow> rep (insert_last h e s) (Q(h := Q h @ [e]))"
    and unlink: "rep s Q \<Longrightarrow> e \<in> set (Q h) \<Longrightarrow> rep (unlink e s) (Q(h := remove1 e (Q h)))"
begin

lemma not_queued_unlink:
  assumes "rep s Q" and "e \<in> set (Q h)"
  shows "\<not> queued (Q(h := remove1 e (Q h))) e"
  using assms distinct_q [OF assms(1)] disjoint_q [OF assms(1)]
  by (auto simp: queued_def split: if_splits)

lemma relink:
  assumes "rep s Q" and "e \<in> set (Q h)"
  shows "rep (insert_last h' e (unlink e s))
           ((Q(h := remove1 e (Q h)))(h' := (Q(h := remove1 e (Q h))) h' @ [e]))"
  by (rule insert_last [OF unlink [OF assms] not_queued_unlink [OF assms]])

lemma relink_same:
  assumes "rep s Q" and "e \<in> set (Q h)"
  shows "rep (insert_last h e (unlink e s)) (Q(h := remove1 e (Q h) @ [e]))"
  using relink [OF assms, of h] by simp

lemma rotate:
  assumes "rep s Q" and "Q h = x # xs"
  shows "rep (insert_last h x (unlink x s)) (Q(h := xs @ [x]))"
  using relink_same [OF assms(1), of x h] assms(2) by simp

end

interpretation ring: ring_queue qrep "\<lambda>h. queue_empty (Hdr h)"
  "\<lambda>h e. queue_insert_prev (Hdr h) (Ent e)" "\<lambda>e. queue_delete (Ent e)"
  by unfold_locales
     (auto simp: qrep_distinct qrep_insert_prev_hdr qrep_delete dest: qrep_disjoint)

end
