(* ===== verification/Kernel_Data.thy ===== *)
theory Kernel_Data
  imports Queue
begin

text \<open>
  The control blocks of the kernel (\<open>task.h\<close>, \<open>pcb.h\<close>, \<open>winfo.h\<close>, \<open>time_event.h\<close> and the
  headers of the synchronization objects), the constants and macros over them, the checks of
  \<open>check.h\<close>, and the kernel state: one field for each table of control blocks.
  The configuration modelled is that of \<open>target/zynq_gcc\<close>: processor locks
  (\<open>TTYPE_KLOCK == P_KLOCK\<close>), a timer on each processor (\<open>TOPPERS_SYSTIM_LOCAL\<close>) and one
  tick per millisecond (\<open>TIC_NUME = TIC_DENO = 1\<close>).
\<close>

section \<open>Task status (\<open>task.h\<close>)\<close>

type_synonym tstat = "8 word"

definition TS_DORMANT :: tstat where "TS_DORMANT = 0x00"
definition TS_RUNNABLE :: tstat where "TS_RUNNABLE = 0x01"
definition TS_WAITING :: tstat where "TS_WAITING = 0x02"
definition TS_SUSPENDED :: tstat where "TS_SUSPENDED = 0x04"

definition TS_WAIT_DLY :: tstat where "TS_WAIT_DLY = push_bit 3 0x00"
definition TS_WAIT_SLP :: tstat where "TS_WAIT_SLP = push_bit 3 0x01"
definition TS_WAIT_RDTQ :: tstat where "TS_WAIT_RDTQ = push_bit 3 0x02"
definition TS_WAIT_RPDQ :: tstat where "TS_WAIT_RPDQ = push_bit 3 0x03"
definition TS_WAIT_SEM :: tstat where "TS_WAIT_SEM = push_bit 3 0x04"
definition TS_WAIT_FLG :: tstat where "TS_WAIT_FLG = push_bit 3 0x05"
definition TS_WAIT_SDTQ :: tstat where "TS_WAIT_SDTQ = push_bit 3 0x06"
definition TS_WAIT_SPDQ :: tstat where "TS_WAIT_SPDQ = push_bit 3 0x07"
definition TS_WAIT_MBX :: tstat where "TS_WAIT_MBX = push_bit 3 0x08"
definition TS_WAIT_MPF :: tstat where "TS_WAIT_MPF = push_bit 3 0x09"
definition TS_WAIT_MASK :: tstat where "TS_WAIT_MASK = push_bit 3 0x0f"

definition TSTAT_DORMANT :: "tstat \<Rightarrow> bool" where
  "TSTAT_DORMANT ts \<longleftrightarrow> ts = TS_DORMANT"
definition TSTAT_RUNNABLE :: "tstat \<Rightarrow> bool" where
  "TSTAT_RUNNABLE ts \<longleftrightarrow> (ts AND TS_RUNNABLE) \<noteq> 0"
definition TSTAT_WAITING :: "tstat \<Rightarrow> bool" where
  "TSTAT_WAITING ts \<longleftrightarrow> (ts AND TS_WAITING) \<noteq> 0"
definition TSTAT_SUSPENDED :: "tstat \<Rightarrow> bool" where
  "TSTAT_SUSPENDED ts \<longleftrightarrow> (ts AND TS_SUSPENDED) \<noteq> 0"
definition TSTAT_WAIT_SLP :: "tstat \<Rightarrow> bool" where
  "TSTAT_WAIT_SLP ts \<longleftrightarrow> (ts AND TS_WAIT_MASK) = TS_WAIT_SLP"
definition TSTAT_WAIT_WOBJ :: "tstat \<Rightarrow> bool" where
  "TSTAT_WAIT_WOBJ ts \<longleftrightarrow> TS_WAIT_RDTQ \<le> (ts AND TS_WAIT_MASK)"
definition TSTAT_WAIT_WOBJCB :: "tstat \<Rightarrow> bool" where
  "TSTAT_WAIT_WOBJCB ts \<longleftrightarrow> TS_WAIT_SEM \<le> (ts AND TS_WAIT_MASK)"

lemmas tstat_consts =
  TS_DORMANT_def TS_RUNNABLE_def TS_WAITING_def TS_SUSPENDED_def TS_WAIT_DLY_def
  TS_WAIT_SLP_def TS_WAIT_RDTQ_def TS_WAIT_RPDQ_def TS_WAIT_SEM_def TS_WAIT_FLG_def
  TS_WAIT_SDTQ_def TS_WAIT_SPDQ_def TS_WAIT_MBX_def TS_WAIT_MPF_def TS_WAIT_MASK_def

lemmas tstat_macros =
  TSTAT_DORMANT_def TSTAT_RUNNABLE_def TSTAT_WAITING_def TSTAT_SUSPENDED_def
  TSTAT_WAIT_SLP_def TSTAT_WAIT_WOBJ_def TSTAT_WAIT_WOBJCB_def

section \<open>Objects a task waits for (\<open>winfo.h\<close>)\<close>

text \<open>
  A \<open>WOBJCB *\<close> names a control block of one of the object tables; its index is the
  object's \<open>ID\<close> minus one.
\<close>

datatype wobj =
    SEM nat   \<comment> \<open>\<open>SEMCB\<close>\<close>
  | FLG nat   \<comment> \<open>\<open>FLGCB\<close>\<close>
  | DTQ nat   \<comment> \<open>\<open>DTQCB\<close>\<close>
  | PDQ nat   \<comment> \<open>\<open>PDQCB\<close>\<close>
  | MBX nat   \<comment> \<open>\<open>MBXCB\<close>\<close>
  | MPF nat   \<comment> \<open>\<open>MPFCB\<close>\<close>

text \<open>
  The queue headers: \<open>ready_queue[pri]\<close> of a processor, the \<open>wait_queue\<close> at the head of an
  object's control block (\<open>swait_queue\<close> of a data queue), and the \<open>rwait_queue\<close> of a data
  queue.
\<close>

datatype qhdr = RDY prcix nat | WAITQ wobj | RWAITQ wobj

type_synonym kqueue = "(qhdr, tskix) qstore"
type_synonym kqnode = "(qhdr, tskix) qnode"

text \<open>The union \<open>WINFO_OBJ\<close>: which member is live depends on what the task waits for.\<close>

datatype winfo =
    W_NONE
  | W_FLG (waiptn: flgptn) (wfmode: "32 word") (w_flgptn: flgptn)
  | W_DTQ (dtq_data: intptr)
  | W_PDQ (pdq_data: intptr) (datapri: pri)
  | W_MBX (pk_msg: "nat option")
  | W_MPF (w_blk: "nat option")

section \<open>Time events (\<open>time_event.h\<close>)\<close>

text \<open>A \<open>TMEVTB *\<close>: the \<open>tmevtb\<close> member of a TCB, of a cyclic or of an alarm handler.\<close>

datatype tmevtb = TM_TSK tskix | TM_CYC nat | TM_ALM nat

datatype cback = CB_wait_tmout | CB_wait_tmout_ok | CB_call_cychdr | CB_call_almhdr

record 'b tmevtn =
  time :: evttim
  p_tmevtb :: 'b

record 'b tevtcb =
  current_time :: evttim
  min_time :: evttim
  next_time :: evttim
  last_index :: nat
  tmevt_heap :: "nat \<Rightarrow> 'b tmevtn"

section \<open>Tasks and processors (\<open>task.h\<close>, \<open>pcb.h\<close>)\<close>

record tinib =
  tskatr :: atr
  exinf :: intptr
  ipriority :: nat
  iaffinity :: ident
  affinity_mask :: "32 word"
  texrtn :: bool   \<comment> \<open>whether a task exception routine is defined\<close>

record tcb =
  tstat :: tstat
  priority :: nat
  actque :: bool
  wupque :: bool
  enatex :: bool
  texptn :: texptn
  p_pcb :: prcix
  actprc :: ident
  pend_relwai :: bool
  pend_chgpri :: bool
  pend_newpri :: nat
  wercd :: ercd
  p_wobjcb :: "wobj option"
  winfo_obj :: winfo

text \<open>
  \<open>excpt_nest_count\<close> and \<open>lock_flag\<close> belong to the target-dependent part of the PCB: the
  nesting depth of handlers (\<open>sense_context\<close>) and the CPU lock (\<open>sense_lock\<close>).
\<close>

record pcb =
  p_runtsk :: "tskix option"
  p_schedtsk :: "tskix option"
  reqflg :: bool
  dspflg :: bool
  locspnid :: ident
  ready_primap :: "16 word"
  kerflg :: bool
  ipmflg :: bool
  disdsp :: bool
  excpt_nest_count :: nat
  lock_flag :: bool

section \<open>Objects (\<open>semaphore.h\<close> and the headers of the other objects)\<close>

text \<open>
  A member whose name several structures share carries the object's name in front.  The data
  area that a queue or a pool owns (\<open>p_dtqmb\<close>, \<open>p_pdqmb\<close>, \<open>p_mpfmb\<close>) is kept with its control
  block; a pointer into it is an index.
\<close>

record seminib = isemcnt :: nat  maxsem :: nat
record semcb = semcnt :: nat

record flginib = iflgptn :: flgptn
record flgcb = flgptn :: flgptn

record dtqinib = dtqcnt :: nat
record dtqcb =
  dtq_count :: nat
  head :: nat
  tail :: nat
  dtqmb :: "nat \<Rightarrow> intptr"

record pdqinib = pdqcnt :: nat  maxdpri :: pri
record pdqmb = pdqmb_next :: "nat option"  pdqmb_data :: intptr  pdqmb_datapri :: pri
record pdqcb =
  pdq_count :: nat
  p_head :: "nat option"
  pdq_unused :: nat
  p_freelist :: "nat option"
  pdqmb_of :: "nat \<Rightarrow> pdqmb"

record mbxinib = maxmpri :: pri
record mbxcb = pk_head :: "nat option"  pk_last :: "nat option"

text \<open>A \<open>T_MSG *\<close> is an index of the application's messages, with \<open>pk_next\<close> and \<open>msgpri\<close>.\<close>

record msg = pk_next :: "nat option"  msgpri :: pri

record mpfinib = blkcnt :: nat  blksz :: nat  mpf_base :: nat
record mpfcb =
  fblkcnt :: nat
  mpf_unused :: nat
  freelist :: nat
  mpfmb_next :: "nat \<Rightarrow> nat"

record cycinib =
  cycatr :: atr  cyctim :: reltim  cycphs :: reltim
  cyc_iaffinity :: ident  cyc_affinity_mask :: "32 word"
record cyccb = cycsta :: bool  evttim :: evttim  cyc_pcb :: prcix

record alminib = alm_iaffinity :: ident  alm_affinity_mask :: "32 word"
record almcb = almsta :: bool  alm_pcb :: prcix

text \<open>\<open>spn_lock\<close> is the lock word of the target (\<open>TTYPE_SPN == NATIVE_SPN\<close>): held or free.\<close>

record spncb = spn_lock :: bool  lock_flg :: bool

section \<open>Configuration and state\<close>

text \<open>
  \<open>kernel_cfg.c\<close> is generated by the configurator; its constant tables are a parameter.
  \<open>wobjatr\<close> is the attribute word at the head of every object's initialization block
  (\<open>WOBJINIB\<close>): \<open>sematr\<close>, \<open>flgatr\<close>, \<open>dtqatr\<close> and so on.
\<close>

record cfg =
  tmax_tskid :: ident
  tnum_prcid :: nat
  tinib_table :: "tskix \<Rightarrow> tinib"
  torder_table :: "ident list"
  wobjatr :: "wobj \<Rightarrow> atr"
  tmax_semid :: ident
  seminib_table :: "nat \<Rightarrow> seminib"
  tmax_flgid :: ident
  flginib_table :: "nat \<Rightarrow> flginib"
  tmax_dtqid :: ident
  dtqinib_table :: "nat \<Rightarrow> dtqinib"
  tmax_pdqid :: ident
  pdqinib_table :: "nat \<Rightarrow> pdqinib"
  tmax_mbxid :: ident
  mbxinib_table :: "nat \<Rightarrow> mbxinib"
  tmax_mpfid :: ident
  mpfinib_table :: "nat \<Rightarrow> mpfinib"
  tmax_cycid :: ident
  cycinib_table :: "nat \<Rightarrow> cycinib"
  tmax_almid :: ident
  alminib_table :: "nat \<Rightarrow> alminib"
  tmax_spnid :: ident

text \<open>\<open>kobjs\<close>: the control blocks other than tasks and processors.\<close>

record kobjs =
  semcb_of :: "nat \<Rightarrow> semcb"
  flgcb_of :: "nat \<Rightarrow> flgcb"
  dtqcb_of :: "nat \<Rightarrow> dtqcb"
  pdqcb_of :: "nat \<Rightarrow> pdqcb"
  mbxcb_of :: "nat \<Rightarrow> mbxcb"
  msg_of :: "nat \<Rightarrow> msg"
  mpfcb_of :: "nat \<Rightarrow> mpfcb"
  cyccb_of :: "nat \<Rightarrow> cyccb"
  almcb_of :: "nat \<Rightarrow> almcb"
  spncb_of :: "nat \<Rightarrow> spncb"

record kstate =
  tcb_of :: "tskix \<Rightarrow> tcb"
  pcb_of :: "prcix \<Rightarrow> pcb"
  kq :: kqueue
  tevt_of :: "prcix \<Rightarrow> tmevtb tevtcb"
  tm_index :: "tmevtb \<Rightarrow> nat"
  tm_callback :: "tmevtb \<Rightarrow> cback option"
  ipi :: "prcix \<Rightarrow> bool"
  ext_ker_reqflg :: bool
  objs :: kobjs

definition upd_tcb :: "tskix \<Rightarrow> (tcb \<Rightarrow> tcb) \<Rightarrow> kstate \<Rightarrow> kstate" where
  "upd_tcb t f s = s\<lparr>tcb_of := (tcb_of s)(t := f (tcb_of s t))\<rparr>"

definition upd_pcb :: "prcix \<Rightarrow> (pcb \<Rightarrow> pcb) \<Rightarrow> kstate \<Rightarrow> kstate" where
  "upd_pcb p f s = s\<lparr>pcb_of := (pcb_of s)(p := f (pcb_of s p))\<rparr>"

lemma upd_tcb_sel [simp]:
  "tcb_of (upd_tcb t f s) = (tcb_of s)(t := f (tcb_of s t))"
  "pcb_of (upd_tcb t f s) = pcb_of s" "kq (upd_tcb t f s) = kq s"
  "tevt_of (upd_tcb t f s) = tevt_of s" "tm_index (upd_tcb t f s) = tm_index s"
  "tm_callback (upd_tcb t f s) = tm_callback s" "ipi (upd_tcb t f s) = ipi s"
  "objs (upd_tcb t f s) = objs s" "ext_ker_reqflg (upd_tcb t f s) = ext_ker_reqflg s"
  by (simp_all add: upd_tcb_def)

lemma upd_pcb_sel [simp]:
  "pcb_of (upd_pcb p f s) = (pcb_of s)(p := f (pcb_of s p))"
  "tcb_of (upd_pcb p f s) = tcb_of s" "kq (upd_pcb p f s) = kq s"
  "tevt_of (upd_pcb p f s) = tevt_of s" "tm_index (upd_pcb p f s) = tm_index s"
  "tm_callback (upd_pcb p f s) = tm_callback s" "ipi (upd_pcb p f s) = ipi s"
  "objs (upd_pcb p f s) = objs s" "ext_ker_reqflg (upd_pcb p f s) = ext_ker_reqflg s"
  by (simp_all add: upd_pcb_def)

section \<open>Identifiers and priorities\<close>

text \<open>
  \<open>INT_PRIORITY\<close> and \<open>INDEX_TSK\<close> cast to \<open>uint_t\<close>, so a difference below zero wraps.
\<close>

definition uint_cast :: "int \<Rightarrow> nat" where "uint_cast x = nat (x mod 2 ^ 32)"

definition INT_PRIORITY :: "pri \<Rightarrow> nat" where "INT_PRIORITY x = uint_cast (x - TMIN_TPRI)"
definition EXT_TSKPRI :: "nat \<Rightarrow> pri" where "EXT_TSKPRI x = int x + TMIN_TPRI"
definition INDEX_TSK :: "ident \<Rightarrow> tskix" where "INDEX_TSK tskid = uint_cast (tskid - 1)"
definition TSKID :: "tskix \<Rightarrow> ident" where "TSKID t = int t + 1"
definition tnum_tsk :: "cfg \<Rightarrow> nat" where "tnum_tsk C = uint_cast (tmax_tskid C - 1 + 1)"
definition INDEX_PRC :: "ident \<Rightarrow> prcix" where "INDEX_PRC prcid = uint_cast (prcid - 1)"
definition ID_PRC :: "prcix \<Rightarrow> ident" where "ID_PRC p = int p + 1"
definition INDEX_OBJ :: "ident \<Rightarrow> nat" where "INDEX_OBJ i = uint_cast (i - 1)"

definition get_tcb :: "ident \<Rightarrow> tskix" where "get_tcb tskid = INDEX_TSK tskid"

text \<open>
  A service called in a task context runs on behalf of \<open>p_runtsk\<close> of its processor, which
  is then not \<open>NULL\<close>.
\<close>

definition runtsk :: "prcix \<Rightarrow> kstate \<Rightarrow> tskix" where
  "runtsk me s = the (p_runtsk (pcb_of s me))"

definition get_tcb_self :: "prcix \<Rightarrow> ident \<Rightarrow> kstate \<Rightarrow> tskix" where
  "get_tcb_self me tskid s = (if tskid = TSK_SELF then runtsk me s else get_tcb tskid)"

section \<open>Checks (\<open>check.h\<close>)\<close>

definition VALID_TPRI :: "pri \<Rightarrow> bool" where
  "VALID_TPRI p \<longleftrightarrow> TMIN_TPRI \<le> p \<and> p \<le> TMAX_TPRI"
definition VALID_TSKID :: "cfg \<Rightarrow> ident \<Rightarrow> bool" where
  "VALID_TSKID C i \<longleftrightarrow> 1 \<le> i \<and> i \<le> tmax_tskid C"
definition VALID_SEMID :: "cfg \<Rightarrow> ident \<Rightarrow> bool" where
  "VALID_SEMID C i \<longleftrightarrow> 1 \<le> i \<and> i \<le> tmax_semid C"
definition VALID_FLGID :: "cfg \<Rightarrow> ident \<Rightarrow> bool" where
  "VALID_FLGID C i \<longleftrightarrow> 1 \<le> i \<and> i \<le> tmax_flgid C"
definition VALID_DTQID :: "cfg \<Rightarrow> ident \<Rightarrow> bool" where
  "VALID_DTQID C i \<longleftrightarrow> 1 \<le> i \<and> i \<le> tmax_dtqid C"
definition VALID_PDQID :: "cfg \<Rightarrow> ident \<Rightarrow> bool" where
  "VALID_PDQID C i \<longleftrightarrow> 1 \<le> i \<and> i \<le> tmax_pdqid C"
definition VALID_MBXID :: "cfg \<Rightarrow> ident \<Rightarrow> bool" where
  "VALID_MBXID C i \<longleftrightarrow> 1 \<le> i \<and> i \<le> tmax_mbxid C"
definition VALID_MPFID :: "cfg \<Rightarrow> ident \<Rightarrow> bool" where
  "VALID_MPFID C i \<longleftrightarrow> 1 \<le> i \<and> i \<le> tmax_mpfid C"
definition VALID_CYCID :: "cfg \<Rightarrow> ident \<Rightarrow> bool" where
  "VALID_CYCID C i \<longleftrightarrow> 1 \<le> i \<and> i \<le> tmax_cycid C"
definition VALID_ALMID :: "cfg \<Rightarrow> ident \<Rightarrow> bool" where
  "VALID_ALMID C i \<longleftrightarrow> 1 \<le> i \<and> i \<le> tmax_almid C"
definition VALID_SPNID :: "cfg \<Rightarrow> ident \<Rightarrow> bool" where
  "VALID_SPNID C i \<longleftrightarrow> 1 \<le> i \<and> i \<le> tmax_spnid C"
definition VALID_PRCID :: "cfg \<Rightarrow> ident \<Rightarrow> bool" where
  "VALID_PRCID C i \<longleftrightarrow> 1 \<le> i \<and> i \<le> int (tnum_prcid C)"
definition VALID_TMOUT :: "tmo \<Rightarrow> bool" where
  "VALID_TMOUT t \<longleftrightarrow> TMO_FEVR \<le> t"
definition VALID_MIG :: "32 word \<Rightarrow> ident \<Rightarrow> bool" where
  "VALID_MIG msk prcid \<longleftrightarrow> (msk AND push_bit (nat (prcid - 1)) 1) \<noteq> 0"

definition sense_context :: "prcix \<Rightarrow> kstate \<Rightarrow> bool" where
  "sense_context me s \<longleftrightarrow> 0 < excpt_nest_count (pcb_of s me)"
definition sense_lock :: "prcix \<Rightarrow> kstate \<Rightarrow> bool" where
  "sense_lock me s \<longleftrightarrow> lock_flag (pcb_of s me)"
definition sense_tskctx_unl :: "prcix \<Rightarrow> kstate \<Rightarrow> bool" where
  "sense_tskctx_unl me s \<longleftrightarrow> \<not> sense_context me s \<and> \<not> sense_lock me s"
definition sense_intctx_unl :: "prcix \<Rightarrow> kstate \<Rightarrow> bool" where
  "sense_intctx_unl me s \<longleftrightarrow> sense_context me s \<and> \<not> sense_lock me s"

section \<open>Dispatching (\<open>mp.c\<close>, dispatcher)\<close>

text \<open>
  \<open>dispatch\<close> is called in a task context with the CPU locked: the dispatcher of
  \<open>core_support.S\<close> makes \<open>p_schedtsk\<close> the running task.  With no task to run the processor
  idles in a handler context until \<open>reqflg\<close> is raised.
\<close>

definition target_ipi_raise :: "prcix \<Rightarrow> kstate \<Rightarrow> kstate" where
  "target_ipi_raise p s = s\<lparr>ipi := (ipi s)(p := True)\<rparr>"

definition dispatch_request :: "prcix \<Rightarrow> prcix \<Rightarrow> kstate \<Rightarrow> bool \<times> kstate" where
  "dispatch_request me p s =
     (if p = me then (True, s) else (False, target_ipi_raise p s))"

definition dispatch :: "prcix \<Rightarrow> kstate \<Rightarrow> kstate" where
  "dispatch me s =
     upd_pcb me (\<lambda>b. b\<lparr>p_runtsk := p_schedtsk b,
       excpt_nest_count := (if p_schedtsk b = None then 1 else 0)\<rparr>) s"

definition set_reqflg :: "prcix \<Rightarrow> kstate \<Rightarrow> kstate" where
  "set_reqflg me s = upd_pcb me (\<lambda>b. b\<lparr>reqflg := True\<rparr>) s"

text \<open>
  The idioms with which a service acts on a true result of \<open>make_runnable\<close> and its kin.
  In a task context: \<open>if (b) dspreq = dispatch_request(p_pcb)\<close>, and at the end
  \<open>if (dspreq) dispatch()\<close>.  In a handler:
  \<open>if (b) if (dispatch_request(p_pcb)) get_my_p_pcb()->reqflg = true\<close>.
\<close>

definition t_request :: "prcix \<Rightarrow> prcix \<Rightarrow> bool \<Rightarrow> kstate \<Rightarrow> bool \<times> kstate" where
  "t_request me p b s = (if b then dispatch_request me p s else (False, s))"

definition t_dispatch_if :: "prcix \<Rightarrow> bool \<Rightarrow> kstate \<Rightarrow> kstate" where
  "t_dispatch_if me dspreq s = (if dspreq then dispatch me s else s)"

definition i_request :: "prcix \<Rightarrow> prcix \<Rightarrow> bool \<Rightarrow> kstate \<Rightarrow> kstate" where
  "i_request me p b s =
     (if b then (let (d, s) = dispatch_request me p s in if d then set_reqflg me s else s)
      else s)"

end
