(* ===== verification/Time_Event.thy ===== *)
theory Time_Event
  imports Kernel_Data
begin

text \<open>
  The time-event heap of \<open>kernel/time_event.c\<close>: an array of nodes (event time, block) that is
  a binary heap with root at index 1, where each registered block records its own position in
  its \<open>index\<close> member.  Times are compared relative to \<open>min_time\<close>, so that the 32-bit clock may
  wrap.  The operations work on one heap and on the \<open>index\<close> members of all blocks.
  \<open>heap_inv\<close> is the heap order and the index consistency; \<open>evset\<close> is the set of registered
  events, in terms of which the operations are specified.
\<close>

section \<open>Operations\<close>

definition PARENT :: "nat \<Rightarrow> nat" where "PARENT i = drop_bit 1 i"
definition LCHILD :: "nat \<Rightarrow> nat" where "LCHILD i = push_bit 1 i"

definition TMEVT_NODE :: "'b tevtcb \<Rightarrow> nat \<Rightarrow> 'b tmevtn" where
  "TMEVT_NODE te i = tmevt_heap te (i - 1)"

definition put_node :: "'b tevtcb \<Rightarrow> nat \<Rightarrow> 'b tmevtn \<Rightarrow> 'b tevtcb" where
  "put_node te i n = te\<lparr>tmevt_heap := (tmevt_heap te)(i - 1 := n)\<rparr>"

definition EVTTIM_LT :: "'b tevtcb \<Rightarrow> evttim \<Rightarrow> evttim \<Rightarrow> bool" where
  "EVTTIM_LT te t1 t2 \<longleftrightarrow> t1 - min_time te < t2 - min_time te"
definition EVTTIM_LE :: "'b tevtcb \<Rightarrow> evttim \<Rightarrow> evttim \<Rightarrow> bool" where
  "EVTTIM_LE te t1 t2 \<longleftrightarrow> t1 - min_time te \<le> t2 - min_time te"

lemma PARENT_eq [simp]: "PARENT i = i div 2"
  by (simp add: PARENT_def drop_bit_eq_div)

lemma LCHILD_eq [simp]: "LCHILD i = 2 * i"
  by (simp add: LCHILD_def push_bit_eq_mult)

function tmevt_up ::
  "'b tevtcb \<Rightarrow> ('b \<Rightarrow> nat) \<Rightarrow> nat \<Rightarrow> evttim \<Rightarrow> nat \<times> 'b tevtcb \<times> ('b \<Rightarrow> nat)" where
  "tmevt_up te ix index tm =
     (if 1 < index then
        (let parent = PARENT index in
         if EVTTIM_LE te (time (TMEVT_NODE te parent)) tm then (index, te, ix)
         else
           (let te = put_node te index (TMEVT_NODE te parent);
                ix = ix(p_tmevtb (TMEVT_NODE te index) := index)
            in tmevt_up te ix parent tm))
      else (index, te, ix))"
  by pat_completeness auto
termination
  by (relation "measure (\<lambda>(te, ix, index, tm). index)") auto

text \<open>
  The positions are one-based; the guard \<open>0 < index\<close> only makes the function total.
\<close>

function tmevt_down ::
  "'b tevtcb \<Rightarrow> ('b \<Rightarrow> nat) \<Rightarrow> nat \<Rightarrow> evttim \<Rightarrow> nat \<times> 'b tevtcb \<times> ('b \<Rightarrow> nat)" where
  "tmevt_down te ix index tm =
     (let child = LCHILD index in
      if 0 < index \<and> child \<le> last_index te then
        (let child =
               (if child + 1 \<le> last_index te
                   \<and> EVTTIM_LT te (time (TMEVT_NODE te (child + 1))) (time (TMEVT_NODE te child))
                then child + 1 else child)
         in if EVTTIM_LE te tm (time (TMEVT_NODE te child)) then (index, te, ix)
            else
              (let te = put_node te index (TMEVT_NODE te child);
                   ix = ix(p_tmevtb (TMEVT_NODE te index) := index)
               in tmevt_down te ix child tm))
      else (index, te, ix))"
  by pat_completeness auto
termination
  by (relation "measure (\<lambda>(te, ix, index, tm). last_index te - index)")
     (auto simp: put_node_def split: if_splits)

declare tmevt_up.simps [simp del] tmevt_down.simps [simp del]

definition tmevtb_insert ::
  "'b \<Rightarrow> evttim \<Rightarrow> 'b tevtcb \<times> ('b \<Rightarrow> nat) \<Rightarrow> 'b tevtcb \<times> ('b \<Rightarrow> nat)" where
  "tmevtb_insert b tm = (\<lambda>(te, ix).
     let te = te\<lparr>last_index := last_index te + 1\<rparr>;
         (index, te, ix) = tmevt_up te ix (last_index te) tm;
         te = put_node te index \<lparr>time = tm, p_tmevtb = b\<rparr>;
         ix = ix(b := index)
     in (te, ix))"

definition tmevtb_delete ::
  "'b \<Rightarrow> 'b tevtcb \<times> ('b \<Rightarrow> nat) \<Rightarrow> reltim \<times> 'b tevtcb \<times> ('b \<Rightarrow> nat)" where
  "tmevtb_delete b = (\<lambda>(te, ix).
     let index = ix b;
         event_time = time (TMEVT_NODE te (last_index te));
         left_time = time (TMEVT_NODE te (ix b)) - current_time te;
         te = te\<lparr>last_index := last_index te - 1\<rparr>
     in if last_index te = 0 then (left_time, te, ix)
        else
          (let (index, te, ix) =
             (if 1 < index
                 \<and> EVTTIM_LT te event_time (time (TMEVT_NODE te (PARENT index)))
              then
                (let parent = PARENT index;
                     te = put_node te index (TMEVT_NODE te parent);
                     ix = ix(p_tmevtb (TMEVT_NODE te index) := index)
                 in tmevt_up te ix parent event_time)
              else tmevt_down te ix index event_time);
               te = put_node te index (TMEVT_NODE te (last_index te + 1));
               ix = ix(p_tmevtb (TMEVT_NODE te index) := index)
           in (left_time, te, ix)))"

definition tmevtb_delete_top ::
  "'b tevtcb \<times> ('b \<Rightarrow> nat) \<Rightarrow> 'b tevtcb \<times> ('b \<Rightarrow> nat)" where
  "tmevtb_delete_top = (\<lambda>(te, ix).
     let event_time = time (TMEVT_NODE te (last_index te));
         te = te\<lparr>last_index := last_index te - 1\<rparr>
     in if last_index te = 0 then (te, ix)
        else
          (let (index, te, ix) = tmevt_down te ix 1 event_time;
               te = put_node te index (TMEVT_NODE te (last_index te + 1));
               ix = ix(p_tmevtb (TMEVT_NODE te index) := index)
           in (te, ix)))"

definition base_time :: "'b tevtcb \<Rightarrow> evttim" where
  "base_time te = next_time te"

definition tmevt_lefttim :: "'b \<Rightarrow> 'b tevtcb \<Rightarrow> ('b \<Rightarrow> nat) \<Rightarrow> reltim" where
  "tmevt_lefttim b te ix =
     (let tm = time (TMEVT_NODE te (ix b))
      in if EVTTIM_LE te tm (next_time te) then 0 else tm - base_time te)"

section \<open>Heap order, positions and the set of events\<close>

definition heap_inv :: "'b tevtcb \<Rightarrow> ('b \<Rightarrow> nat) \<Rightarrow> bool" where
  "heap_inv te ix \<longleftrightarrow>
     (\<forall>i \<in> {2..last_index te}.
        EVTTIM_LE te (time (TMEVT_NODE te (i div 2))) (time (TMEVT_NODE te i))) \<and>
     (\<forall>i \<in> {1..last_index te}. ix (p_tmevtb (TMEVT_NODE te i)) = i)"

definition evnode :: "'b tevtcb \<Rightarrow> nat \<Rightarrow> 'b \<times> evttim" where
  "evnode te i = (p_tmevtb (TMEVT_NODE te i), time (TMEVT_NODE te i))"

definition evset :: "'b tevtcb \<Rightarrow> ('b \<times> evttim) set" where
  "evset te = evnode te ` {1..last_index te}"

text \<open>The loops move a hole: a position whose node is about to be overwritten.\<close>

definition hole :: "'b tevtcb \<Rightarrow> ('b \<Rightarrow> nat) \<Rightarrow> nat \<Rightarrow> bool" where
  "hole te ix i \<longleftrightarrow>
     1 \<le> i \<and> i \<le> last_index te \<and>
     (\<forall>j \<in> {2..last_index te}. j \<noteq> i \<longrightarrow> j div 2 \<noteq> i \<longrightarrow>
        EVTTIM_LE te (time (TMEVT_NODE te (j div 2))) (time (TMEVT_NODE te j))) \<and>
     (2 \<le> i \<longrightarrow> (\<forall>j \<in> {2..last_index te}. j div 2 = i \<longrightarrow>
        EVTTIM_LE te (time (TMEVT_NODE te (i div 2))) (time (TMEVT_NODE te j)))) \<and>
     (\<forall>j \<in> {1..last_index te}. j \<noteq> i \<longrightarrow> ix (p_tmevtb (TMEVT_NODE te j)) = j)"

definition evset_but :: "'b tevtcb \<Rightarrow> nat \<Rightarrow> ('b \<times> evttim) set" where
  "evset_but te i = evnode te ` ({1..last_index te} - {i})"

text \<open>What may be put into the hole.\<close>

definition fits_up :: "'b tevtcb \<Rightarrow> nat \<Rightarrow> evttim \<Rightarrow> bool" where
  "fits_up te i tm \<longleftrightarrow> (2 \<le> i \<longrightarrow> EVTTIM_LE te (time (TMEVT_NODE te (i div 2))) tm)"

definition fits_down :: "'b tevtcb \<Rightarrow> nat \<Rightarrow> evttim \<Rightarrow> bool" where
  "fits_down te i tm \<longleftrightarrow>
     (\<forall>j \<in> {2..last_index te}. j div 2 = i \<longrightarrow> EVTTIM_LE te tm (time (TMEVT_NODE te j)))"

text \<open>The fields that moving nodes does not touch.\<close>

definition same_clock :: "'b tevtcb \<Rightarrow> 'b tevtcb \<Rightarrow> bool" where
  "same_clock te te' \<longleftrightarrow> last_index te' = last_index te \<and> min_time te' = min_time te \<and>
     current_time te' = current_time te \<and> next_time te' = next_time te"

lemma put_node_sel [simp]:
  "last_index (put_node te i n) = last_index te" "min_time (put_node te i n) = min_time te"
  "current_time (put_node te i n) = current_time te" "next_time (put_node te i n) = next_time te"
  by (simp_all add: put_node_def)

lemma TMEVT_NODE_put [simp]:
  "1 \<le> i \<Longrightarrow> 1 \<le> j \<Longrightarrow> TMEVT_NODE (put_node te i n) j = (if j = i then n else TMEVT_NODE te j)"
  by (auto simp: TMEVT_NODE_def put_node_def)

lemma EVTTIM_put [simp]:
  "EVTTIM_LE (put_node te i n) = EVTTIM_LE te" "EVTTIM_LT (put_node te i n) = EVTTIM_LT te"
  by (auto simp: EVTTIM_LE_def EVTTIM_LT_def fun_eq_iff)

lemma EVTTIM_LE_refl [simp]: "EVTTIM_LE te t t"
  by (simp add: EVTTIM_LE_def)

lemma EVTTIM_LE_trans: "EVTTIM_LE te a b \<Longrightarrow> EVTTIM_LE te b c \<Longrightarrow> EVTTIM_LE te a c"
  by (auto simp: EVTTIM_LE_def)

lemma EVTTIM_not_LE: "\<not> EVTTIM_LE te a b \<Longrightarrow> EVTTIM_LE te b a"
  by (auto simp: EVTTIM_LE_def)

lemma EVTTIM_LT_LE: "EVTTIM_LT te a b \<Longrightarrow> EVTTIM_LE te a b"
  by (auto simp: EVTTIM_LE_def EVTTIM_LT_def)

lemma EVTTIM_not_LT: "\<not> EVTTIM_LT te a b \<longleftrightarrow> EVTTIM_LE te b a"
  by (auto simp: EVTTIM_LE_def EVTTIM_LT_def)

lemma EVTTIM_last [simp]:
  "EVTTIM_LE (te\<lparr>last_index := n\<rparr>) = EVTTIM_LE te" "EVTTIM_LT (te\<lparr>last_index := n\<rparr>) = EVTTIM_LT te"
  "TMEVT_NODE (te\<lparr>last_index := n\<rparr>) = TMEVT_NODE te"
  by (auto simp: EVTTIM_LE_def EVTTIM_LT_def TMEVT_NODE_def fun_eq_iff)

lemma same_clock_trans: "same_clock a b \<Longrightarrow> same_clock b c \<Longrightarrow> same_clock a c"
  by (simp add: same_clock_def)

lemma same_clock_refl [simp]: "same_clock te te"
  by (simp add: same_clock_def)

lemma same_clock_put [simp]: "same_clock te (put_node te i n)"
  by (simp add: same_clock_def)

lemma same_clock_EVTTIM: "same_clock te te' \<Longrightarrow> EVTTIM_LE te' = EVTTIM_LE te"
  by (auto simp: same_clock_def EVTTIM_LE_def fun_eq_iff)

section \<open>Correctness of the two searches\<close>

lemma evset_but_frame:
  "j \<in> {1..last_index te} \<Longrightarrow> j \<noteq> i \<Longrightarrow> evnode te j \<in> evset_but te i"
  by (auto simp: evset_but_def)

lemma hole_range: "hole te ix i \<Longrightarrow> 1 \<le> i \<and> i \<le> last_index te"
  by (simp add: hole_def)

lemma hole_index:
  "hole te ix i \<Longrightarrow> j \<in> {1..last_index te} \<Longrightarrow> j \<noteq> i \<Longrightarrow> ix (p_tmevtb (TMEVT_NODE te j)) = j"
  by (simp add: hole_def)

lemma hole_order:
  "hole te ix i \<Longrightarrow> j \<in> {2..last_index te} \<Longrightarrow> j \<noteq> i \<Longrightarrow> j div 2 \<noteq> i \<Longrightarrow>
   EVTTIM_LE te (time (TMEVT_NODE te (j div 2))) (time (TMEVT_NODE te j))"
  by (simp add: hole_def)

lemma hole_skip:
  "hole te ix i \<Longrightarrow> 2 \<le> i \<Longrightarrow> j \<in> {2..last_index te} \<Longrightarrow> j div 2 = i \<Longrightarrow>
   EVTTIM_LE te (time (TMEVT_NODE te (i div 2))) (time (TMEVT_NODE te j))"
  by (simp add: hole_def)

text \<open>Moving the node at \<open>k\<close> into the hole at \<open>i\<close>, which leaves the hole at \<open>k\<close>.\<close>

lemma move_index:
  assumes "hole te ix i" and "k \<in> {1..last_index te}" and "k \<noteq> i"
    and "j \<in> {1..last_index te}" and "j \<noteq> k"
  shows "(ix(p_tmevtb (TMEVT_NODE te k) := i)) (p_tmevtb (TMEVT_NODE (put_node te i (TMEVT_NODE te k)) j)) = j"
proof (cases "j = i")
  case True
  then show ?thesis using assms hole_range [OF assms(1)] by simp
next
  case False
  then have "p_tmevtb (TMEVT_NODE te j) \<noteq> p_tmevtb (TMEVT_NODE te k)"
    using hole_index [OF assms(1)] assms by metis
  then show ?thesis using False assms hole_range [OF assms(1)] hole_index [OF assms(1)] by simp
qed

lemma move_evset:
  assumes "hole te ix i" and "k \<in> {1..last_index te}" and "k \<noteq> i"
  shows "evset_but (put_node te i (TMEVT_NODE te k)) k = evset_but te i"
proof -
  let ?te = "put_node te i (TMEVT_NODE te k)"
  have e: "evnode ?te j = (if j = i then evnode te k else evnode te j)" if "1 \<le> j" for j
    using that hole_range [OF assms(1)] by (simp add: evnode_def)
  have "{1..last_index te} - {k} = insert i ({1..last_index te} - {k, i})"
    using assms hole_range [OF assms(1)] by auto
  then have "evset_but ?te k = insert (evnode te k) (evnode te ` ({1..last_index te} - {k, i}))"
    unfolding evset_but_def using e hole_range [OF assms(1)] by (auto simp: image_iff)
  also have "\<dots> = evnode te ` (insert k ({1..last_index te} - {k, i}))" by simp
  also have "insert k ({1..last_index te} - {k, i}) = {1..last_index te} - {i}"
    using assms by auto
  finally show ?thesis by (simp add: evset_but_def)
qed

lemma hole_up:
  assumes h: "hole te ix i" and i: "1 < i"
    and nle: "\<not> EVTTIM_LE te (time (TMEVT_NODE te (i div 2))) tm"
    and fd: "fits_down te i tm"
  defines "te' \<equiv> put_node te i (TMEVT_NODE te (i div 2))"
    and "ix' \<equiv> ix(p_tmevtb (TMEVT_NODE te (i div 2)) := i)"
  shows "hole te' ix' (i div 2)" and "fits_down te' (i div 2) tm"
proof -
  let ?p = "i div 2"
  have p: "1 \<le> ?p" "?p \<noteq> i" "?p \<in> {1..last_index te}" and r: "1 \<le> i" "i \<le> last_index te"
    using i hole_range [OF h] by auto
  have nd: "TMEVT_NODE te' j = (if j = i then TMEVT_NODE te ?p else TMEVT_NODE te j)" if "1 \<le> j" for j
    using that r by (simp add: te'_def)
  have le: "EVTTIM_LE te' = EVTTIM_LE te" and la: "last_index te' = last_index te"
    by (simp_all add: te'_def)
  have ord: "EVTTIM_LE te (time (TMEVT_NODE te' (j div 2))) (time (TMEVT_NODE te' j))"
    if j: "j \<in> {2..last_index te}" "j \<noteq> ?p" "j div 2 \<noteq> ?p" for j
  proof -
    have "j \<noteq> i" using j by auto
    have j2: "1 \<le> j div 2" "1 \<le> j" using j by auto
    show ?thesis
    proof (cases "j div 2 = i")
      case True
      then show ?thesis using hole_skip [OF h _ j(1) True] nd [OF j2(1)] nd [OF j2(2)] \<open>j \<noteq> i\<close> i by simp
    next
      case False
      then show ?thesis using hole_order [OF h j(1) \<open>j \<noteq> i\<close>] nd [OF j2(1)] nd [OF j2(2)] \<open>j \<noteq> i\<close> by simp
    qed
  qed
  have pp: "EVTTIM_LE te (time (TMEVT_NODE te (?p div 2))) (time (TMEVT_NODE te ?p))" if "2 \<le> ?p"
    using hole_order [OF h, of ?p] that p i by auto
  have ch: "EVTTIM_LE te (time (TMEVT_NODE te ?p)) (time (TMEVT_NODE te j))"
    if "j \<in> {2..last_index te}" "j \<noteq> i" "j div 2 = ?p" for j
    using hole_order [OF h that(1,2)] that(3) p by simp
  have skip: "EVTTIM_LE te (time (TMEVT_NODE te' (?p div 2))) (time (TMEVT_NODE te' j))"
    if j: "2 \<le> ?p" "j \<in> {2..last_index te}" "j div 2 = ?p" for j
  proof -
    have q: "1 \<le> ?p div 2" "?p div 2 \<noteq> i" "1 \<le> j" using j i by auto
    note n = nd [OF q(1)] nd [OF q(3)]
    show ?thesis
    proof (cases "j = i")
      case True
      then show ?thesis using pp [OF j(1)] n q by simp
    next
      case False
      then show ?thesis using EVTTIM_LE_trans [OF pp [OF j(1)] ch [OF j(2) False j(3)]] n q by simp
    qed
  qed
  show "hole te' ix' ?p"
    unfolding hole_def le la
    using p ord skip move_index [OF h p(3,2)] unfolding te'_def ix'_def by auto
  have tp: "EVTTIM_LE te tm (time (TMEVT_NODE te ?p))" using nle by (rule EVTTIM_not_LE)
  show "fits_down te' ?p tm"
    unfolding fits_down_def le la
    using tp ch nd EVTTIM_LE_trans by (metis One_nat_def atLeastAtMost_iff numeral_2_eq_2 Suc_leD)
qed

lemma tmevt_up_correct:
  assumes "hole te ix i" and "fits_down te i tm"
    and "tmevt_up te ix i tm = (i', te', ix')"
  shows "hole te' ix' i' \<and> fits_down te' i' tm \<and> fits_up te' i' tm \<and>
    evset_but te' i' = evset_but te i \<and> same_clock te te' \<and>
    (\<forall>b. b \<notin> fst ` evset_but te i \<longrightarrow> ix' b = ix b)"
  using assms
proof (induction te ix i tm rule: tmevt_up.induct)
  case (1 te ix i tm)
  let ?p = "i div 2"
  let ?te = "put_node te i (TMEVT_NODE te ?p)"
  let ?ix = "ix(p_tmevtb (TMEVT_NODE te ?p) := i)"
  show ?case
  proof (cases "1 < i \<and> \<not> EVTTIM_LE te (time (TMEVT_NODE te ?p)) tm")
    case False
    then have "(i', te', ix') = (i, te, ix)"
      using 1(4) by (subst (asm) tmevt_up.simps) (auto simp: Let_def split: if_splits)
    then show ?thesis using False 1(2,3) by (auto simp: fits_up_def)
  next
    case True
    have r: "1 \<le> i" "i \<le> last_index te" using hole_range [OF 1(2)] by auto
    have eq: "tmevt_up te ix i tm = tmevt_up ?te ?ix ?p tm"
      using True r by (subst tmevt_up.simps) (simp add: Let_def)
    have hp: "hole ?te ?ix ?p" "fits_down ?te ?p tm"
      using hole_up [OF 1(2) _ _ 1(3)] True by auto
    have ev: "evset_but ?te ?p = evset_but te i"
      by (rule move_evset [OF 1(2)]) (use True r in auto)
    have "evnode te ?p \<in> evset_but te i" by (rule evset_but_frame) (use True r in auto)
    then have mem: "p_tmevtb (TMEVT_NODE te ?p) \<in> fst ` evset_but te i"
      by (force simp: evnode_def)
    have IH: "hole te' ix' i' \<and> fits_down te' i' tm \<and> fits_up te' i' tm \<and>
      evset_but te' i' = evset_but ?te ?p \<and> same_clock ?te te' \<and>
      (\<forall>b. b \<notin> fst ` evset_but ?te ?p \<longrightarrow> ix' b = ?ix b)"
      by (rule 1(1) [OF _ _ _ refl _ hp]) (use True r 1(4) eq in \<open>simp_all add: fun_upd_def\<close>)
    then show ?thesis using ev mem same_clock_trans [OF same_clock_put] by auto
  qed
qed

lemma hole_down:
  assumes h: "hole te ix i" and c: "c div 2 = i" "c \<in> {2..last_index te}"
    and least: "\<And>j. j \<in> {2..last_index te} \<Longrightarrow> j div 2 = i \<Longrightarrow>
      EVTTIM_LE te (time (TMEVT_NODE te c)) (time (TMEVT_NODE te j))"
    and nle: "\<not> EVTTIM_LE te tm (time (TMEVT_NODE te c))"
  defines "te' \<equiv> put_node te i (TMEVT_NODE te c)"
    and "ix' \<equiv> ix(p_tmevtb (TMEVT_NODE te c) := i)"
  shows "hole te' ix' c" and "fits_up te' c tm"
proof -
  have r: "1 \<le> i" "i \<le> last_index te" "c \<noteq> i" using hole_range [OF h] c by auto
  have nd: "TMEVT_NODE te' j = (if j = i then TMEVT_NODE te c else TMEVT_NODE te j)" if "1 \<le> j" for j
    using that r by (simp add: te'_def)
  have le: "EVTTIM_LE te' = EVTTIM_LE te" and la: "last_index te' = last_index te"
    by (simp_all add: te'_def)
  have ord: "EVTTIM_LE te (time (TMEVT_NODE te' (j div 2))) (time (TMEVT_NODE te' j))"
    if j: "j \<in> {2..last_index te}" "j \<noteq> c" "j div 2 \<noteq> c" for j
  proof -
    have j2: "1 \<le> j div 2" "1 \<le> j" using j by auto
    consider "j = i" | "j \<noteq> i" "j div 2 = i" | "j \<noteq> i" "j div 2 \<noteq> i" by blast
    then show ?thesis
    proof cases
      case 1
      then have "j div 2 \<noteq> i" using r by auto
      then show ?thesis using 1 hole_skip [OF h _ c(2,1)] nd [OF j2(1)] nd [OF j2(2)] j by simp
    next
      case 2
      then show ?thesis using least [OF j(1)] nd [OF j2(1)] nd [OF j2(2)] by simp
    next
      case 3
      then show ?thesis using hole_order [OF h j(1)] nd [OF j2(1)] nd [OF j2(2)] by simp
    qed
  qed
  have skip: "EVTTIM_LE te (time (TMEVT_NODE te' (c div 2))) (time (TMEVT_NODE te' j))"
    if j: "j \<in> {2..last_index te}" "j div 2 = c" for j
    using hole_order [OF h j(1)] j c r nd by auto
  show "hole te' ix' c"
    unfolding hole_def le la
    using c r ord skip move_index [OF h _ r(3)] unfolding te'_def ix'_def by auto
  show "fits_up te' c tm"
    using EVTTIM_not_LE [OF nle] nd r c by (auto simp: fits_up_def le)
qed

definition down_child :: "'b tevtcb \<Rightarrow> nat \<Rightarrow> nat" where
  "down_child te i =
     (if 2 * i + 1 \<le> last_index te
         \<and> EVTTIM_LT te (time (TMEVT_NODE te (2 * i + 1))) (time (TMEVT_NODE te (2 * i)))
      then 2 * i + 1 else 2 * i)"

lemma down_child:
  assumes "1 \<le> i" "2 * i \<le> last_index te"
  shows "down_child te i div 2 = i" "down_child te i \<in> {2..last_index te}"
    and "\<And>j. j \<in> {2..last_index te} \<Longrightarrow> j div 2 = i \<Longrightarrow>
      EVTTIM_LE te (time (TMEVT_NODE te (down_child te i))) (time (TMEVT_NODE te j))"
proof -
  show "down_child te i div 2 = i" "down_child te i \<in> {2..last_index te}"
    using assms by (auto simp: down_child_def)
  fix j assume j: "j \<in> {2..last_index te}" "j div 2 = i"
  then have "j = 2 * i \<or> j = 2 * i + 1" by auto
  then show "EVTTIM_LE te (time (TMEVT_NODE te (down_child te i))) (time (TMEVT_NODE te j))"
    using j by (auto simp: down_child_def EVTTIM_not_LT EVTTIM_LT_LE)
qed

lemma tmevt_down_correct:
  assumes "hole te ix i" and "fits_up te i tm"
    and "tmevt_down te ix i tm = (i', te', ix')"
  shows "hole te' ix' i' \<and> fits_down te' i' tm \<and> fits_up te' i' tm \<and>
    evset_but te' i' = evset_but te i \<and> same_clock te te' \<and>
    (\<forall>b. b \<notin> fst ` evset_but te i \<longrightarrow> ix' b = ix b)"
  using assms
proof (induction te ix i tm rule: tmevt_down.induct)
  case (1 te ix i tm)
  let ?c = "down_child te i"
  let ?te = "put_node te i (TMEVT_NODE te ?c)"
  let ?ix = "ix(p_tmevtb (TMEVT_NODE te ?c) := i)"
  have r: "1 \<le> i" "i \<le> last_index te" using hole_range [OF 1(2)] by auto
  have unf: "tmevt_down te ix i tm =
      (if 2 * i \<le> last_index te \<and> \<not> EVTTIM_LE te tm (time (TMEVT_NODE te ?c))
       then tmevt_down ?te ?ix ?c tm else (i, te, ix))"
    using r by (subst tmevt_down.simps) (simp add: Let_def down_child_def)
  show ?case
  proof (cases "2 * i \<le> last_index te")
    case False
    then have "fits_down te i tm" by (auto simp: fits_down_def)
    then show ?thesis using False 1(2-4) unf by auto
  next
    case child: True
    note c = down_child [OF r(1) child]
    show ?thesis
    proof (cases "EVTTIM_LE te tm (time (TMEVT_NODE te ?c))")
      case True
      then have "fits_down te i tm"
        using c(3) EVTTIM_LE_trans unfolding fits_down_def by blast
      then show ?thesis using True 1(2-4) unf by auto
    next
      case False
      have hp: "hole ?te ?ix ?c" "fits_up ?te ?c tm"
        using hole_down [OF 1(2) c(1,2,3) False] by auto
      have cr: "?c \<in> {1..last_index te}" "?c \<noteq> i" using c(1,2) r by auto
      have ev: "evset_but ?te ?c = evset_but te i" by (rule move_evset [OF 1(2) cr])
      have "evnode te ?c \<in> evset_but te i" by (rule evset_but_frame [OF cr])
      then have mem: "p_tmevtb (TMEVT_NODE te ?c) \<in> fst ` evset_but te i"
        by (force simp: evnode_def)
      have IH: "hole te' ix' i' \<and> fits_down te' i' tm \<and> fits_up te' i' tm \<and>
        evset_but te' i' = evset_but ?te ?c \<and> same_clock ?te te' \<and>
        (\<forall>b. b \<notin> fst ` evset_but ?te ?c \<longrightarrow> ix' b = ?ix b)"
          by (rule 1(1) [OF refl _ _ _ refl _ hp])
           (use False child r 1(4) unf in \<open>simp_all add: down_child_def fun_upd_def\<close>)
      then show ?thesis using ev mem same_clock_trans [OF same_clock_put] by auto
    qed
  qed
qed

section \<open>Correctness of insertion and deletion\<close>

lemma tmevt_up_beyond:
  "tmevt_up te ix i tm = (i', te', ix') \<Longrightarrow> 1 \<le> i \<Longrightarrow> i \<le> last_index te \<Longrightarrow> last_index te < j \<Longrightarrow>
   TMEVT_NODE te' j = TMEVT_NODE te j"
proof (induction te ix i tm rule: tmevt_up.induct)
  case (1 te ix i tm)
  show ?case
  proof (cases "1 < i \<and> \<not> EVTTIM_LE te (time (TMEVT_NODE te (i div 2))) tm")
    case False
    then show ?thesis using 1(2) by (subst (asm) tmevt_up.simps) (auto simp: Let_def split: if_splits)
  next
    case True
    let ?te = "put_node te i (TMEVT_NODE te (i div 2))"
    let ?ix = "ix(p_tmevtb (TMEVT_NODE te (i div 2)) := i)"
    have eq: "tmevt_up ?te ?ix (i div 2) tm = (i', te', ix')"
      using True 1(2-4) by (subst (asm) tmevt_up.simps) (simp add: Let_def)
    have "1 \<le> i div 2" using True by auto
    then have "TMEVT_NODE te' j = TMEVT_NODE ?te j"
      by (intro 1(1) [OF _ _ _ refl refl]) (use True 1(3-5) eq in \<open>simp_all add: fun_upd_def\<close>)
    then show ?thesis using 1(3-5) by simp
  qed
qed

lemma tmevt_down_beyond:
  "tmevt_down te ix i tm = (i', te', ix') \<Longrightarrow> 1 \<le> i \<Longrightarrow> i \<le> last_index te \<Longrightarrow> last_index te < j \<Longrightarrow>
   TMEVT_NODE te' j = TMEVT_NODE te j"
proof (induction te ix i tm rule: tmevt_down.induct)
  case (1 te ix i tm)
  let ?c = "down_child te i"
  let ?te = "put_node te i (TMEVT_NODE te ?c)"
  let ?ix = "ix(p_tmevtb (TMEVT_NODE te ?c) := i)"
  have unf: "tmevt_down te ix i tm =
      (if 2 * i \<le> last_index te \<and> \<not> EVTTIM_LE te tm (time (TMEVT_NODE te ?c))
       then tmevt_down ?te ?ix ?c tm else (i, te, ix))"
    using 1(3,4) by (subst tmevt_down.simps) (simp add: Let_def down_child_def)
  show ?case
  proof (cases "2 * i \<le> last_index te \<and> \<not> EVTTIM_LE te tm (time (TMEVT_NODE te ?c))")
    case False
    then show ?thesis using 1(2) unf by auto
  next
    case True
    note c = down_child [OF 1(3), of te]
    have "TMEVT_NODE te' j = TMEVT_NODE ?te j"
      by (rule 1(1) [OF refl _ _ _ refl refl])
         (use True c(1,2) 1(2-5) unf in \<open>auto simp: down_child_def fun_upd_def\<close>)
    then show ?thesis using 1(3-5) by simp
  qed
qed

lemma fill_hole:
  assumes h: "hole te ix i" and u: "fits_up te i tm" and d: "fits_down te i tm"
    and b: "b \<notin> fst ` evset_but te i"
  shows "heap_inv (put_node te i \<lparr>time = tm, p_tmevtb = b\<rparr>) (ix(b := i))"
    and "evset (put_node te i \<lparr>time = tm, p_tmevtb = b\<rparr>) = insert (b, tm) (evset_but te i)"
proof -
  let ?n = "\<lparr>time = tm, p_tmevtb = b\<rparr>"
  have r: "1 \<le> i" "i \<le> last_index te" using hole_range [OF h] by auto
  have nb: "p_tmevtb (TMEVT_NODE te j) \<noteq> b" if "j \<in> {1..last_index te}" "j \<noteq> i" for j
    using b evset_but_frame [OF that] by (force simp: evnode_def)
  have ord: "EVTTIM_LE te (time (if j div 2 = i then ?n else TMEVT_NODE te (j div 2)))
     (time (if j = i then ?n else TMEVT_NODE te j))" if "j \<in> {2..last_index te}" for j
  proof -
    consider "j = i" | "j \<noteq> i" "j div 2 = i" | "j \<noteq> i" "j div 2 \<noteq> i" by blast
    then show ?thesis
      by cases (use that r u d hole_order [OF h that] in \<open>auto simp: fits_up_def fits_down_def\<close>)
  qed
  show "heap_inv (put_node te i ?n) (ix(b := i))"
    unfolding heap_inv_def
  proof (intro conjI ballI)
    fix j assume "j \<in> {2..last_index (put_node te i ?n)}"
    then have j: "j \<in> {2..last_index te}" "1 \<le> j" "1 \<le> j div 2" by auto
    show "EVTTIM_LE (put_node te i ?n) (time (TMEVT_NODE (put_node te i ?n) (j div 2)))
        (time (TMEVT_NODE (put_node te i ?n) j))"
      unfolding TMEVT_NODE_put [OF r(1) j(2)] TMEVT_NODE_put [OF r(1) j(3)] EVTTIM_put
      by (rule ord [OF j(1)])
  next
    fix j assume "j \<in> {1..last_index (put_node te i ?n)}"
    then show "(ix(b := i)) (p_tmevtb (TMEVT_NODE (put_node te i ?n) j)) = j"
      using nb hole_index [OF h] r by auto
  qed
  have e: "evnode (put_node te i ?n) j = (if j = i then (b, tm) else evnode te j)" if "1 \<le> j" for j
    using that r by (simp add: evnode_def)
  have "{1..last_index te} = insert i ({1..last_index te} - {i})" using r by auto
  then have "evset (put_node te i ?n) = insert (b, tm) (evnode (put_node te i ?n) ` ({1..last_index te} - {i}))"
    unfolding evset_def using e r by (metis image_insert put_node_sel(1))
  then show "evset (put_node te i ?n) = insert (b, tm) (evset_but te i)"
    unfolding evset_but_def using e by (auto simp: image_iff)
qed

lemma heap_inv_hole:
  assumes "heap_inv te ix" and "1 \<le> i" "i \<le> n" "n \<le> last_index te"
  shows "hole (te\<lparr>last_index := n\<rparr>) ix i"
proof -
  have p: "EVTTIM_LE te (time (TMEVT_NODE te (j div 2))) (time (TMEVT_NODE te j))"
    if "j \<in> {2..n}" for j using assms that by (auto simp: heap_inv_def)
  have "EVTTIM_LE te (time (TMEVT_NODE te (i div 2))) (time (TMEVT_NODE te j))"
    if "2 \<le> i" "j \<in> {2..n}" "j div 2 = i" for j
    using EVTTIM_LE_trans [OF p [of i]] p [OF that(2)] that by auto
  then show ?thesis
    using assms p unfolding hole_def by (auto simp: heap_inv_def)
qed

lemma heap_inv_evset:
  assumes "heap_inv te ix"
  shows "(b, t) \<in> evset te \<longleftrightarrow> 1 \<le> ix b \<and> ix b \<le> last_index te \<and> evnode te (ix b) = (b, t)"
  using assms by (auto simp: heap_inv_def evset_def evnode_def intro!: rev_image_eqI)

lemma evset_but_heap:
  assumes "heap_inv te ix" and "1 \<le> i" "i \<le> last_index te"
  shows "evset_but te i = evset te - {evnode te i}"
proof -
  have "evnode te j \<noteq> evnode te i \<and> evnode te i \<noteq> evnode te j"
    if "j \<in> {1..last_index te}" "j \<noteq> i" for j
    using assms that unfolding heap_inv_def evnode_def
    by (metis atLeastAtMost_iff prod.inject)
  then show ?thesis using assms unfolding evset_but_def evset_def by fastforce
qed

definition heap_frame :: "('b \<times> evttim) set \<Rightarrow> ('b \<Rightarrow> nat) \<Rightarrow> ('b \<Rightarrow> nat) \<Rightarrow> bool" where
  "heap_frame E ix ix' \<longleftrightarrow> (\<forall>b. b \<notin> fst ` E \<longrightarrow> ix' b = ix b)"

definition same_times :: "'b tevtcb \<Rightarrow> 'b tevtcb \<Rightarrow> bool" where
  "same_times te te' \<longleftrightarrow> min_time te' = min_time te \<and>
     current_time te' = current_time te \<and> next_time te' = next_time te"

lemma tmevtb_insert_correct:
  assumes h: "heap_inv te ix" and b: "b \<notin> fst ` evset te"
    and eq: "tmevtb_insert b tm (te, ix) = (te', ix')"
  shows "heap_inv te' ix' \<and> evset te' = insert (b, tm) (evset te) \<and>
    last_index te' = last_index te + 1 \<and> same_times te te' \<and>
    heap_frame (insert (b, tm) (evset te)) ix ix'"
proof -
  let ?n = "last_index te + 1"
  let ?te = "te\<lparr>last_index := ?n\<rparr>"
  obtain i te1 ix1 where up: "tmevt_up ?te ix ?n tm = (i, te1, ix1)" by (metis prod_cases3)
  have h0: "hole ?te ix ?n"
  proof -
    have "EVTTIM_LE te (time (TMEVT_NODE te (j div 2))) (time (TMEVT_NODE te j))"
      if "j \<in> {2..?n}" "j \<noteq> ?n" for j using h that by (auto simp: heap_inv_def)
    moreover have "\<not> (j \<in> {2..?n} \<and> j div 2 = ?n)" for j by auto
    ultimately show ?thesis using h by (auto simp: hole_def heap_inv_def)
  qed
  have "fits_down ?te ?n tm" by (auto simp: fits_down_def)
  note c = tmevt_up_correct [OF h0 this up]
  have e0: "evset_but ?te ?n = evset te"
    by (simp add: evset_but_def evset_def evnode_def image_def) force
  have bn: "b \<notin> fst ` evset_but te1 i" using c e0 b by auto
  note f = fill_hole [of te1 ix1 i tm b, OF _ _ _ bn]
  have "te' = put_node te1 i \<lparr>time = tm, p_tmevtb = b\<rparr>" "ix' = ix1(b := i)"
    using eq up by (auto simp: tmevtb_insert_def Let_def)
  then show ?thesis
    using f c e0 by (auto simp: same_clock_def same_times_def heap_frame_def)
qed

lemma shrink_correct:
  assumes h: "heap_inv te ix" and n: "0 < last_index te"
  shows "heap_inv (te\<lparr>last_index := last_index te - 1\<rparr>) ix \<and>
    evset (te\<lparr>last_index := last_index te - 1\<rparr>) = evset te - {evnode te (last_index te)}"
proof -
  let ?n = "last_index te"
  have "evset (te\<lparr>last_index := ?n - 1\<rparr>) = evset_but te ?n"
  proof -
    have "{1..?n - 1} = {1..?n} - {?n}" using n by auto
    then show ?thesis by (simp add: evset_def evset_but_def evnode_def image_def)
  qed
  then show ?thesis using evset_but_heap [OF h, of ?n] h n by (auto simp: heap_inv_def)
qed

text \<open>
  The end of a deletion: the last node is put into the hole that is left of the deleted one.
\<close>

lemma refill_correct:
  assumes h: "heap_inv te ix" and i: "1 \<le> i" "i < last_index te"
    and c: "hole te1 ix1 j \<and> fits_down te1 j tm \<and> fits_up te1 j tm \<and>
      evset_but te1 j = evset_but (te\<lparr>last_index := last_index te - 1\<rparr>) i \<and>
      same_clock (te\<lparr>last_index := last_index te - 1\<rparr>) te1 \<and>
      (\<forall>b. b \<notin> fst ` evset_but (te\<lparr>last_index := last_index te - 1\<rparr>) i \<longrightarrow> ix1 b = ix b)"
    and tm: "tm = time (TMEVT_NODE te (last_index te))"
    and nd: "TMEVT_NODE te1 (last_index te) = TMEVT_NODE te (last_index te)"
    and te': "te' = put_node te1 j (TMEVT_NODE te1 (last_index te1 + 1))"
    and ix': "ix' = ix1(p_tmevtb (TMEVT_NODE te' j) := j)"
  shows "heap_inv te' ix' \<and> evset te' = evset te - {evnode te i} \<and>
    last_index te' = last_index te - 1 \<and> same_times te te' \<and> heap_frame (evset te) ix ix'"
proof -
  let ?n = "last_index te"
  let ?te = "te\<lparr>last_index := ?n - 1\<rparr>"
  let ?b = "p_tmevtb (TMEVT_NODE te ?n)"
  have l: "last_index te1 + 1 = ?n" using c i by (simp add: same_clock_def)
  have j: "1 \<le> j" using hole_range c by blast
  have t1: "te' = put_node te1 j \<lparr>time = tm, p_tmevtb = ?b\<rparr>"
    using te' l nd tm by (metis surjective tmevtn.surjective old.unit.exhaust)
  have x1: "ix' = ix1(?b := j)" using ix' t1 j by simp
  note sh = shrink_correct [OF h]
  have eb: "evset_but ?te i = evset te - {evnode te ?n} - {evnode te i}"
    using evset_but_heap [of ?te ix i] sh i by (simp add: evnode_def)
  have inj: "\<And>k. k \<in> {1..?n} \<Longrightarrow> ix (p_tmevtb (TMEVT_NODE te k)) = k"
    using h by (auto simp: heap_inv_def)
  have nn: "evnode te ?n \<in> evset te" "evnode te ?n \<noteq> evnode te i"
    using i inj [of ?n] inj [of i] by (auto simp: evset_def evnode_def)
  have "?b \<notin> fst ` evset_but te1 j"
  proof
    assume "?b \<in> fst ` evset_but te1 j"
    moreover have "evset_but te1 j = evset te - {evnode te ?n} - {evnode te i}" using c eb by simp
    ultimately have "\<exists>x. x \<in> evset te \<and> fst x = ?b \<and> x \<noteq> evnode te ?n" by (metis (no_types) DiffE imageE insertCI)
    then obtain x where "x \<in> evset te" "fst x = ?b" "x \<noteq> evnode te ?n" by blast
    moreover have "ix ?b = ?n" using inj [of ?n] i by simp
    ultimately show False using heap_inv_evset [OF h, of "fst x" "snd x"] by (cases x) auto
  qed
  note f = fill_hole [of te1 ix1 j tm ?b, OF _ _ _ this]
  have "evset te' = insert (evnode te ?n) (evset te - {evnode te ?n} - {evnode te i})"
    using f(2) c eb t1 tm by (simp add: evnode_def)
  then have "evset te' = evset te - {evnode te i}" using nn by auto
  moreover have "heap_frame (evset te) ix ix'"
  proof -
    have "?b \<in> fst ` evset te" using nn(1) by (force simp: evnode_def)
    then show ?thesis using c eb x1 by (auto simp: heap_frame_def)
  qed
  ultimately show ?thesis
    using f(1) c t1 x1 by (auto simp: same_clock_def same_times_def)
qed

lemma tmevtb_delete_correct:
  assumes h: "heap_inv te ix" and b: "(b, t) \<in> evset te"
    and eq: "tmevtb_delete b (te, ix) = (left, te', ix')"
  shows "left = t - current_time te \<and> heap_inv te' ix' \<and> evset te' = evset te - {(b, t)} \<and>
    last_index te' = last_index te - 1 \<and> same_times te te' \<and> heap_frame (evset te) ix ix'"
proof -
  let ?n = "last_index te" and ?i = "ix b"
  let ?te = "te\<lparr>last_index := ?n - 1\<rparr>"
  let ?tm = "time (TMEVT_NODE te ?n)"
  have i: "1 \<le> ?i" "?i \<le> ?n" and ei: "evnode te ?i = (b, t)"
    using heap_inv_evset [OF h] b by auto
  have left: "left = t - current_time te"
    using eq ei by (auto simp: tmevtb_delete_def Let_def evnode_def split: prod.splits if_splits)
  note sh = shrink_correct [OF h]
  show ?thesis
  proof (cases "?i = ?n")
    case True
    have "te' = ?te \<and> ix' = ix"
    proof (cases "?n = 1")
      case True
      then show ?thesis using eq by (simp add: tmevtb_delete_def Let_def)
    next
      case False
      have "EVTTIM_LE te (time (TMEVT_NODE te (?n div 2))) ?tm"
        using h False i by (auto simp: heap_inv_def)
      then have "\<not> EVTTIM_LT te ?tm (time (TMEVT_NODE te (?n div 2)))"
        by (simp add: EVTTIM_not_LT)
      moreover have "tmevt_down ?te ix ?n ?tm = (?n, ?te, ix)"
        using True i by (subst tmevt_down.simps) (auto simp: Let_def)
      moreover have "put_node ?te ?n (TMEVT_NODE te ?n) = ?te"
        by (simp add: put_node_def TMEVT_NODE_def)
      moreover have "ix(b := ?n) = ix" using True by auto
      ultimately show ?thesis
        using eq True i False ei
        by (auto simp: tmevtb_delete_def Let_def evnode_def simp del: One_nat_def)
    qed
    then show ?thesis
      using sh left i True ei by (simp add: same_times_def heap_frame_def)
  next
    case False
    then have lt: "?i < ?n" using i by simp
    have hh: "hole ?te ix ?i" by (rule heap_inv_hole [OF h]) (use lt i in auto)
    obtain j te1 ix1 where r: "(if 1 < ?i \<and> EVTTIM_LT te ?tm (time (TMEVT_NODE te (?i div 2)))
        then tmevt_up ?te ix ?i ?tm else tmevt_down ?te ix ?i ?tm) = (j, te1, ix1)"
      by (metis prod_cases3)
    have unf: "tmevt_up ?te ix ?i ?tm = tmevt_up (put_node ?te ?i (TMEVT_NODE te (?i div 2)))
        (ix(p_tmevtb (TMEVT_NODE te (?i div 2)) := ?i)) (?i div 2) ?tm"
      if "1 < ?i" "EVTTIM_LT te ?tm (time (TMEVT_NODE te (?i div 2)))"
      using that by (subst tmevt_up.simps) (simp add: Let_def flip: EVTTIM_not_LT)
    have res: "te' = put_node te1 j (TMEVT_NODE te1 (last_index te1 + 1))"
      "ix' = ix1(p_tmevtb (TMEVT_NODE te' j) := j)"
      using eq r unf lt i by (auto simp: tmevtb_delete_def Let_def split: if_splits)
    have c: "hole te1 ix1 j \<and> fits_down te1 j ?tm \<and> fits_up te1 j ?tm \<and>
      evset_but te1 j = evset_but ?te ?i \<and> same_clock ?te te1 \<and>
      (\<forall>b. b \<notin> fst ` evset_but ?te ?i \<longrightarrow> ix1 b = ix b)
      \<and> TMEVT_NODE te1 ?n = TMEVT_NODE te ?n"
    proof (cases "1 < ?i \<and> EVTTIM_LT te ?tm (time (TMEVT_NODE te (?i div 2)))")
      case True
      then have up: "tmevt_up ?te ix ?i ?tm = (j, te1, ix1)" using r by simp
      have "EVTTIM_LE te ?tm (time (TMEVT_NODE te k))" if k: "k \<in> {2..?n - 1}" "k div 2 = ?i" for k
      proof -
        have "EVTTIM_LE te (time (TMEVT_NODE te ?i)) (time (TMEVT_NODE te k))"
          "EVTTIM_LE te (time (TMEVT_NODE te (?i div 2))) (time (TMEVT_NODE te ?i))"
          using h k(1) True i k(2) [symmetric] by (force simp: heap_inv_def)+
        then show ?thesis using True EVTTIM_LT_LE EVTTIM_LE_trans by blast
      qed
      then have "fits_down ?te ?i ?tm" by (simp add: fits_down_def)
      note tmevt_up_correct [OF hh this up]
      moreover have "TMEVT_NODE te1 ?n = TMEVT_NODE ?te ?n"
        by (rule tmevt_up_beyond [OF up]) (use i lt in auto)
      ultimately show ?thesis by simp
    next
      case False
      then have dn: "tmevt_down ?te ix ?i ?tm = (j, te1, ix1)" using r by auto
      have "fits_up ?te ?i ?tm" using False by (auto simp: fits_up_def EVTTIM_not_LT)
      note tmevt_down_correct [OF hh this dn]
      moreover have "TMEVT_NODE te1 ?n = TMEVT_NODE ?te ?n"
        by (rule tmevt_down_beyond [OF dn]) (use i lt in auto)
      ultimately show ?thesis by simp
    qed
    show ?thesis
      using refill_correct [OF h i(1) lt _ refl _ res] c left ei by auto
  qed
qed

lemma tmevtb_delete_top_correct:
  assumes h: "heap_inv te ix" and n: "0 < last_index te"
    and eq: "tmevtb_delete_top (te, ix) = (te', ix')"
  shows "heap_inv te' ix' \<and> evset te' = evset te - {evnode te 1} \<and>
    last_index te' = last_index te - 1 \<and> same_times te te' \<and> heap_frame (evset te) ix ix'"
proof (cases "last_index te = 1")
  case True
  then have "te' = te\<lparr>last_index := 0\<rparr>" "ix' = ix"
    using eq by (auto simp: tmevtb_delete_top_def Let_def)
  then show ?thesis
    using True by (simp add: heap_inv_def evset_def same_times_def heap_frame_def)
next
  case False
  let ?n = "last_index te"
  let ?te = "te\<lparr>last_index := ?n - 1\<rparr>"
  let ?tm = "time (TMEVT_NODE te ?n)"
  obtain j te1 ix1 where dn: "tmevt_down ?te ix 1 ?tm = (j, te1, ix1)" by (metis prod_cases3)
  have res: "te' = put_node te1 j (TMEVT_NODE te1 (last_index te1 + 1))"
    "ix' = ix1(p_tmevtb (TMEVT_NODE te' j) := j)"
    using eq dn False n by (auto simp: tmevtb_delete_top_def Let_def)
  have hh: "hole ?te ix 1" by (rule heap_inv_hole [OF h]) (use False n in auto)
  have "fits_up ?te 1 ?tm" by (simp add: fits_up_def)
  note c = tmevt_down_correct [OF hh this dn]
  have "TMEVT_NODE te1 ?n = TMEVT_NODE ?te ?n"
    by (rule tmevt_down_beyond [OF dn]) (use False n in auto)
  then show ?thesis
    using refill_correct [OF h _ _ c refl _ res] False n by simp
qed

lemma heap_top_le:
  assumes h: "heap_inv te ix" and i: "1 \<le> i" "i \<le> last_index te"
  shows "EVTTIM_LE te (time (TMEVT_NODE te 1)) (time (TMEVT_NODE te i))"
  using i
proof (induction i rule: less_induct)
  case (less i)
  show ?case
  proof (cases "i = 1")
    case False
    then have "EVTTIM_LE te (time (TMEVT_NODE te (i div 2))) (time (TMEVT_NODE te i))"
      using h less.prems by (auto simp: heap_inv_def)
    moreover have "EVTTIM_LE te (time (TMEVT_NODE te 1)) (time (TMEVT_NODE te (i div 2)))"
      by (rule less.IH) (use less.prems False in auto)
    ultimately show ?thesis using EVTTIM_LE_trans by blast
  qed simp
qed

lemma heap_top_min:
  assumes h: "heap_inv te ix" and "(b, t) \<in> evset te"
  shows "EVTTIM_LE te (time (TMEVT_NODE te 1)) t"
  using heap_top_le [OF h, of "ix b"] heap_inv_evset [OF h, of b t] assms
  by (auto simp: evnode_def)

text \<open>
  Moving \<open>min_time\<close> forward keeps the order of the events that are not earlier than it.
\<close>

lemma EVTTIM_shift:
  fixes a b m m' :: "32 word"
  assumes "m' - m \<le> a - m" "m' - m \<le> b - m" "a - m \<le> b - m"
  shows "a - m' \<le> b - m'"
proof -
  have sub: "x - d \<le> y - d" if "d \<le> x" "d \<le> y" "x \<le> y" for x y d :: "32 word"
    using that by (simp add: word_le_nat_alt unat_sub diff_le_mono)
  show ?thesis using sub [OF assms(1-3)] by (simp only: diff_diff_eq2 diff_add_cancel)
qed

lemma heap_inv_shift:
  assumes h: "heap_inv te ix"
    and ge: "\<And>b t. (b, t) \<in> evset te \<Longrightarrow> EVTTIM_LE te m t"
  shows "heap_inv (te\<lparr>min_time := m\<rparr>) ix"
proof -
  have g: "EVTTIM_LE te m (time (TMEVT_NODE te i))" if "i \<in> {1..last_index te}" for i
    by (rule ge [of "p_tmevtb (TMEVT_NODE te i)"]) (use that in \<open>auto simp: evset_def evnode_def\<close>)
  have "EVTTIM_LE (te\<lparr>min_time := m\<rparr>) (time (TMEVT_NODE te (i div 2))) (time (TMEVT_NODE te i))"
    if "i \<in> {2..last_index te}" for i
  proof -
    have "EVTTIM_LE te (time (TMEVT_NODE te (i div 2))) (time (TMEVT_NODE te i))"
      using h that by (auto simp: heap_inv_def)
    moreover have "i div 2 \<in> {1..last_index te}" using that by auto
    ultimately have "time (TMEVT_NODE te (i div 2)) - m \<le> time (TMEVT_NODE te i) - m"
      using g [of i] g [of "i div 2"] that unfolding EVTTIM_LE_def
      by (intro EVTTIM_shift [of m "min_time te"]) auto
    then show ?thesis by (simp add: EVTTIM_LE_def)
  qed
  then show ?thesis using h by (simp add: heap_inv_def TMEVT_NODE_def)
qed

section \<open>The event-queue interface\<close>

text \<open>
  What the timed waits and the cyclic and alarm handlers rely on: registering, removing and
  reading the earliest event act on the set of registered events.
\<close>

locale event_queue =
  fixes inv :: "'s \<Rightarrow> bool"
    and events :: "'s \<Rightarrow> ('b \<times> 't) set"
    and earlier :: "'s \<Rightarrow> 't \<Rightarrow> 't \<Rightarrow> bool"
    and register :: "'b \<Rightarrow> 't \<Rightarrow> 's \<Rightarrow> 's"
    and remove :: "'b \<Rightarrow> 's \<Rightarrow> 's"
    and first :: "'s \<Rightarrow> 'b \<times> 't"
    and remove_first :: "'s \<Rightarrow> 's"
  assumes unique: "inv s \<Longrightarrow> (b, t) \<in> events s \<Longrightarrow> (b, t') \<in> events s \<Longrightarrow> t = t'"
    and register: "inv s \<Longrightarrow> b \<notin> fst ` events s \<Longrightarrow>
      inv (register b t s) \<and> events (register b t s) = insert (b, t) (events s)"
    and remove: "inv s \<Longrightarrow> (b, t) \<in> events s \<Longrightarrow>
      inv (remove b s) \<and> events (remove b s) = events s - {(b, t)}"
    and first: "inv s \<Longrightarrow> events s \<noteq> {} \<Longrightarrow>
      first s \<in> events s \<and> (\<forall>(b, t) \<in> events s. earlier s (snd (first s)) t)"
    and remove_first: "inv s \<Longrightarrow> events s \<noteq> {} \<Longrightarrow>
      inv (remove_first s) \<and> events (remove_first s) = events s - {first s}"
begin

lemma remove_register:
  assumes "inv s" and "b \<notin> fst ` events s"
  shows "inv (remove b (register b t s)) \<and> events (remove b (register b t s)) = events s"
proof -
  note r = register [OF assms, of t]
  then have "(b, t) \<in> events (register b t s)" by simp
  from remove [OF _ this] r show ?thesis using assms(2) by force
qed

lemma removed:
  assumes "inv s" and "b \<in> fst ` events s"
  shows "b \<notin> fst ` events (remove b s)"
proof -
  obtain t where t: "(b, t) \<in> events s" using assms(2) by force
  have "t' = t" if "(b, t') \<in> events s" for t' using unique [OF assms(1) that t] .
  moreover have "events (remove b s) = events s - {(b, t)}" using remove [OF assms(1) t] by simp
  ultimately show ?thesis by auto
qed

lemma removed_first:
  assumes "inv s" and "events s \<noteq> {}"
  shows "fst (first s) \<notin> fst ` events (remove_first s)"
proof -
  obtain b t where bt: "first s = (b, t)" by fastforce
  have f: "(b, t) \<in> events s" using first [OF assms] bt by simp
  have "t' = t" if "(b, t') \<in> events s" for t' using unique [OF assms(1) that f] .
  moreover have "events (remove_first s) = events s - {(b, t)}"
    using remove_first [OF assms] bt by simp
  ultimately show ?thesis using bt by auto
qed

lemma remove_others:
  assumes "inv s" and "b \<in> fst ` events s" and "(c, t) \<in> events s" and "c \<noteq> b"
  shows "(c, t) \<in> events (remove b s)"
proof -
  obtain u where u: "(b, u) \<in> events s" using assms(2) by force
  then show ?thesis using remove [OF assms(1) u] assms(3,4) by simp
qed

end

lemma evset_nonempty: "evset te \<noteq> {} \<longleftrightarrow> 0 < last_index te"
  by (auto simp: evset_def)

interpretation evq: event_queue
  "\<lambda>(te, ix). heap_inv te ix" "\<lambda>(te, ix). evset te" "\<lambda>(te, ix). EVTTIM_LE te"
  tmevtb_insert "\<lambda>b s. snd (tmevtb_delete b s)" "\<lambda>(te, ix). evnode te 1" tmevtb_delete_top
proof (unfold_locales, goal_cases)
  case (1 s b t t')
  then show ?case by (cases s) (simp add: heap_inv_evset)
next
  case (2 s b t)
  obtain te ix where s: "s = (te, ix)" by fastforce
  obtain te' ix' where d: "tmevtb_insert b t (te, ix) = (te', ix')" by fastforce
  have "heap_inv te ix" "b \<notin> fst ` evset te" using 2 s by auto
  from tmevtb_insert_correct [OF this d] show ?case using s d by simp
next
  case (3 s b t)
  obtain te ix where s: "s = (te, ix)" by fastforce
  obtain l te' ix' where d: "tmevtb_delete b (te, ix) = (l, te', ix')" by (metis prod_cases3)
  have "heap_inv te ix" "(b, t) \<in> evset te" using 3 s by auto
  from tmevtb_delete_correct [OF this d] show ?case using s d by simp
next
  case (4 s)
  obtain te ix where s: "s = (te, ix)" by fastforce
  then have "heap_inv te ix" using 4 by simp
  then show ?case
    using heap_top_min [of te ix] 4 s
    by (auto simp: evset_nonempty) (auto simp: evset_def evnode_def)
next
  case (5 s)
  obtain te ix where s: "s = (te, ix)" by fastforce
  obtain te' ix' where d: "tmevtb_delete_top (te, ix) = (te', ix')" by fastforce
  have "heap_inv te ix" "0 < last_index te" using 5 s by (auto simp: evset_nonempty)
  from tmevtb_delete_top_correct [OF this d] show ?case using s d by simp
qed

end
