(* ===== verification/Task.thy ===== *)
theory Task
  imports Time_Event
begin

text \<open>
  The task module \<open>kernel/task.c\<close>: the bitmap search, the ready queues with their priority
  bitmap, the choice of \<open>p_schedtsk\<close> and the transitions of a task into and out of the
  runnable state.  The functions that may change \<open>p_schedtsk\<close> return whether the processor
  has to dispatch.  \<open>qinv\<close> is the invariant that ties the queues to the status of the tasks,
  the bitmap to the ready queues and \<open>p_schedtsk\<close> to the precedence order; \<open>dinv\<close> says that
  no processor misses a dispatch.
\<close>

section \<open>Bitmap search\<close>

definition bitmap_search_table :: "nat list" where
  "bitmap_search_table = [0, 1, 0, 2, 0, 1, 0, 3, 0, 1, 0, 2, 0, 1, 0]"

definition bitmap_search :: "16 word \<Rightarrow> nat" where
  "bitmap_search bitmap =
     (let n = 0;
          (bitmap, n) = (if bitmap AND 0x00ff = 0 then (drop_bit 8 bitmap, n + 8) else (bitmap, n));
          (bitmap, n) = (if bitmap AND 0x0f = 0 then (drop_bit 4 bitmap, n + 4) else (bitmap, n))
      in n + bitmap_search_table ! unat ((bitmap AND 0x0f) - 1))"

definition PRIMAP_BIT :: "nat \<Rightarrow> 16 word" where
  "PRIMAP_BIT pri = push_bit pri 1"

definition primap_empty :: "prcix \<Rightarrow> kstate \<Rightarrow> bool" where
  "primap_empty p s \<longleftrightarrow> ready_primap (pcb_of s p) = 0"

definition primap_search :: "prcix \<Rightarrow> kstate \<Rightarrow> nat" where
  "primap_search p s = bitmap_search (ready_primap (pcb_of s p))"

definition primap_set :: "prcix \<Rightarrow> nat \<Rightarrow> kstate \<Rightarrow> kstate" where
  "primap_set p pri s =
     upd_pcb p (\<lambda>b. b\<lparr>ready_primap := ready_primap b OR PRIMAP_BIT pri\<rparr>) s"

definition primap_clear :: "prcix \<Rightarrow> nat \<Rightarrow> kstate \<Rightarrow> kstate" where
  "primap_clear p pri s =
     upd_pcb p (\<lambda>b. b\<lparr>ready_primap := ready_primap b AND NOT (PRIMAP_BIT pri)\<rparr>) s"

section \<open>Ready queue operations\<close>

text \<open>
  \<open>(TCB *) q\<close> for a queue cell: the task queue cell is the first member of a TCB.  A header
  is never taken for a TCB, which \<open>None\<close> makes visible.
\<close>

fun tcb_at :: "kqnode \<Rightarrow> tskix option" where
  "tcb_at (Ent t) = Some t"
| "tcb_at (Hdr h) = None"

definition on_kq :: "(kqueue \<Rightarrow> kqueue) \<Rightarrow> kstate \<Rightarrow> kstate" where
  "on_kq f s = s\<lparr>kq := f (kq s)\<rparr>"

definition set_schedtsk :: "prcix \<Rightarrow> tskix option \<Rightarrow> kstate \<Rightarrow> kstate" where
  "set_schedtsk p t = upd_pcb p (\<lambda>b. b\<lparr>p_schedtsk := t\<rparr>)"

definition search_schedtsk :: "prcix \<Rightarrow> kstate \<Rightarrow> tskix option" where
  "search_schedtsk p s =
     (let schedpri = primap_search p s in tcb_at (p_next (kq s) (Hdr (RDY p schedpri))))"

definition make_runnable :: "tskix \<Rightarrow> kstate \<Rightarrow> bool \<times> kstate" where
  "make_runnable t s =
     (let pri = priority (tcb_of s t);
          p = p_pcb (tcb_of s t);
          s = on_kq (queue_insert_prev (Hdr (RDY p pri)) (Ent t)) s;
          s = primap_set p pri s
      in case p_schedtsk (pcb_of s p) of
           None \<Rightarrow> (let s = set_schedtsk p (Some t) s in (dspflg (pcb_of s p), s))
         | Some u \<Rightarrow>
             if pri < priority (tcb_of s u)
             then (let s = set_schedtsk p (Some t) s in (dspflg (pcb_of s p), s))
             else (False, s))"

definition make_non_runnable :: "tskix \<Rightarrow> kstate \<Rightarrow> bool \<times> kstate" where
  "make_non_runnable t s =
     (let pri = priority (tcb_of s t);
          p = p_pcb (tcb_of s t);
          p_queue = Hdr (RDY p pri);
          s = on_kq (queue_delete (Ent t)) s
      in if queue_empty p_queue (kq s) then
           (let s = primap_clear p pri s in
            if p_schedtsk (pcb_of s p) = Some t then
              (let s = set_schedtsk p (if primap_empty p s then None else search_schedtsk p s) s
               in (dspflg (pcb_of s p), s))
            else (False, s))
         else if p_schedtsk (pcb_of s p) = Some t then
           (let s = set_schedtsk p (tcb_at (p_next (kq s) p_queue)) s
            in (dspflg (pcb_of s p), s))
         else (False, s))"

definition make_dormant :: "cfg \<Rightarrow> tskix \<Rightarrow> kstate \<Rightarrow> kstate" where
  "make_dormant C t =
     upd_tcb t (\<lambda>b. b\<lparr>tstat := TS_DORMANT, priority := ipriority (tinib_table C t),
       wupque := False, enatex := False, texptn := 0, pend_relwai := False,
       pend_chgpri := False\<rparr>)"

text \<open>\<open>activate_context\<close> prepares the task's stack; the stack is not part of the model.\<close>

definition make_active :: "tskix \<Rightarrow> kstate \<Rightarrow> bool \<times> kstate" where
  "make_active t s = make_runnable t (upd_tcb t (\<lambda>b. b\<lparr>tstat := TS_RUNNABLE\<rparr>) s)"

definition rotate_ready_queue :: "nat \<Rightarrow> prcix \<Rightarrow> kstate \<Rightarrow> bool \<times> kstate" where
  "rotate_ready_queue pri p s =
     (let p_queue = Hdr (RDY p pri) in
      if \<not> queue_empty p_queue (kq s) \<and> p_next (kq s) (p_next (kq s) p_queue) \<noteq> p_queue then
        (let (p_entry, q) = queue_delete_next p_queue (kq s);
             s = on_kq (\<lambda>_. queue_insert_prev p_queue p_entry q) s
         in if p_schedtsk (pcb_of s p) = tcb_at p_entry then
              (let s = set_schedtsk p (tcb_at (p_next (kq s) p_queue)) s
               in (dspflg (pcb_of s p), s))
            else (False, s))
      else (False, s))"

definition set_lowest_precedence :: "tskix \<Rightarrow> prcix \<Rightarrow> kstate \<Rightarrow> bool \<times> kstate" where
  "set_lowest_precedence t p s =
     (let pri = priority (tcb_of s t);
          p_queue = Hdr (RDY p pri);
          s = on_kq (queue_delete (Ent t)) s;
          s = on_kq (queue_insert_prev p_queue (Ent t)) s
      in if p_schedtsk (pcb_of s p) = Some t then
           (let s = set_schedtsk p (tcb_at (p_next (kq s) p_queue)) s
            in (dspflg (pcb_of s p), s))
         else (False, s))"

section \<open>The bitmap search finds the lowest bit\<close>

definition lowest_bit :: "16 word \<Rightarrow> nat \<Rightarrow> bool" where
  "lowest_bit w n \<longleftrightarrow> n < 16 \<and> bit w n \<and> (\<forall>j < n. \<not> bit w j)"

lemma bit_small_word:
  fixes v :: "16 word"
  assumes "v = of_nat k" and "k < 16" and "4 \<le> n"
  shows "\<not> bit v n"
proof -
  have "k < 2 ^ n" using assms(2,3) power_increasing [of 4 n "2::nat"] by simp
  then show ?thesis using assms(1) by (simp add: bit_of_nat_iff bit_nat_def)
qed

lemma nibble_value:
  fixes w :: "16 word"
  shows "w AND 0x0f = of_bool (bit w 0) + 2 * of_bool (bit w 1) + 4 * of_bool (bit w 2) + 8 * of_bool (bit w 3)"
proof (rule bit_word_eqI)
  fix n :: nat
  let ?v = "of_bool (bit w 0) + 2 * of_bool (bit w 1) + 4 * of_bool (bit w 2) + 8 * of_bool (bit w 3) :: 16 word"
  assume "n < LENGTH(16)"
  have "w AND 0x0f = w AND mask 4" by (simp add: mask_eq_decr_exp)
  then have l: "bit (w AND 0x0f) n \<longleftrightarrow> bit w n \<and> n < 4"
    using bit_imp_le_length [of w n] by (simp only: bit_and_iff bit_mask_iff) auto
  show "bit (w AND 0x0f) n = bit ?v n"
  proof (cases "4 \<le> n")
    case True
    have "?v = of_nat (of_bool (bit w 0) + 2 * of_bool (bit w 1) + 4 * of_bool (bit w 2) + 8 * of_bool (bit w 3))"
      by simp
    from bit_small_word [OF this _ True] show ?thesis using True l by (simp split: split_of_bool)
  next
    case False
    then have "n \<in> {0, 1, 2, 3}" by auto
    then show ?thesis
      unfolding l by (cases "bit w 0"; cases "bit w 1"; cases "bit w 2"; cases "bit w 3") auto
  qed
qed

lemma all_less_small:
  "(\<forall>j < (1::nat). P j) \<longleftrightarrow> P 0" "(\<forall>j < (2::nat). P j) \<longleftrightarrow> P 0 \<and> P 1"
  "(\<forall>j < (3::nat). P j) \<longleftrightarrow> P 0 \<and> P 1 \<and> P 2"
  by (auto simp: less_Suc_eq numeral_eq_Suc)

lemma nibble_search:
  fixes w :: "16 word"
  assumes "w AND 0x0f \<noteq> 0"
  defines "n \<equiv> bitmap_search_table ! unat ((w AND 0x0f) - 1)"
  shows "n < 4" and "bit w n" and "\<forall>j < n. \<not> bit w j"
proof -
  have "n < 4 \<and> bit w n \<and> (\<forall>j < n. \<not> bit w j)"
    using assms(1) unfolding n_def nibble_value
    by (cases "bit w 0"; cases "bit w 1"; cases "bit w 2"; cases "bit w 3")
       (simp_all add: bitmap_search_table_def all_less_small del: One_nat_def)
  then show "n < 4" "bit w n" "\<forall>j < n. \<not> bit w j" by auto
qed

lemma and_low_bits_zero:
  fixes w :: "16 word"
  shows "w AND mask k = 0 \<longleftrightarrow> (\<forall>j < k. \<not> bit w j)"
proof -
  have "w AND mask k = 0 \<longleftrightarrow> (\<forall>n. \<not> bit (w AND mask k) n)"
    using bit_imp_le_length [of "w AND mask k"] by (auto simp: bit_eq_iff)
  also have "\<dots> \<longleftrightarrow> (\<forall>n < k. \<not> bit w n)"
    using bit_imp_le_length [of w] by (auto simp: bit_and_iff bit_mask_iff)
  finally show ?thesis .
qed

lemma bitmap_search_lowest:
  assumes "w \<noteq> 0"
  shows "lowest_bit w (bitmap_search w)"
proof -
  define v1 where "v1 = (if w AND 0x00ff = 0 then drop_bit 8 w else w)"
  define n1 :: nat where "n1 = (if w AND 0x00ff = 0 then 8 else 0)"
  define v2 where "v2 = (if v1 AND 0x0f = 0 then drop_bit 4 v1 else v1)"
  define n2 :: nat where "n2 = (if v1 AND 0x0f = 0 then n1 + 4 else n1)"
  define m where "m = bitmap_search_table ! unat ((v2 AND 0x0f) - 1)"
  have eq: "bitmap_search w = n2 + m"
    by (simp add: bitmap_search_def Let_def v1_def n1_def v2_def n2_def m_def)
  have m8: "w AND 0x00ff = w AND mask 8" and m4: "v1 AND 0x0f = v1 AND mask 4"
    by (simp_all add: mask_eq_decr_exp)
  have b1: "bit v1 j \<longleftrightarrow> bit w (n1 + j)" for j by (simp add: v1_def n1_def bit_drop_bit_eq)
  have z1: "\<forall>j < n1. \<not> bit w j" using and_low_bits_zero [of w 8] by (simp add: n1_def m8)
  have b2: "bit v2 j \<longleftrightarrow> bit w (n2 + j)" for j
    by (simp add: v2_def n2_def b1 bit_drop_bit_eq ac_simps)
  have z2: "\<forall>j < n2. \<not> bit w j"
  proof (cases "v1 AND 0x0f = 0")
    case True
    then have "\<forall>j < 4. \<not> bit w (n1 + j)" using and_low_bits_zero [of v1 4] b1 m4 by simp
    then have "\<not> bit w j" if "j < n1 + 4" for j
      using z1 that by (metis add_less_cancel_left le_add_diff_inverse not_less)
    then show ?thesis using True by (simp add: n2_def)
  next
    case False
    then show ?thesis using z1 by (simp add: n2_def)
  qed
  have "v2 AND 0x0f \<noteq> 0"
  proof
    assume z: "v2 AND 0x0f = 0"
    then have zz: "\<forall>j < 4. \<not> bit w (n2 + j)"
      using and_low_bits_zero [of v2 4] b2 by (simp add: mask_eq_decr_exp)
    have "v1 AND 0x0f = 0" using z by (auto simp: v2_def split: if_splits)
    then have n2: "n2 = n1 + 4" by (simp add: n2_def)
    have lo: "\<not> bit w j" if "j < n1 + 8" for j
    proof (cases "j < n2")
      case False
      then obtain k where "j = n2 + k" by (metis le_add_diff_inverse not_less)
      then show ?thesis using zz that n2 by simp
    qed (use z2 in simp)
    have "n1 = 8"
    proof (rule ccontr)
      assume "n1 \<noteq> 8"
      then have n0: "n1 = 0" "w AND 0x00ff \<noteq> 0" by (auto simp: n1_def split: if_splits)
      then show False using and_low_bits_zero [of w 8] lo m8 by simp
    qed
    then have "\<not> bit w j" for j
      using lo [of j] bit_imp_le_length [of w j] by auto
    then show False using assms by (simp add: bit_eq_iff)
  qed
  note ns = nibble_search [OF this, folded m_def]
  have "bit w (n2 + m)" using ns(2) b2 by simp
  moreover have "\<not> bit w j" if "j < n2 + m" for j
  proof (cases "j < n2")
    case False
    then obtain k where "j = n2 + k" by (metis le_add_diff_inverse not_less)
    then show ?thesis using ns(3) b2 that by simp
  qed (use z2 in simp)
  ultimately show ?thesis
    unfolding lowest_bit_def eq using bit_imp_le_length [of w "n2 + m"] by auto
qed

lemma lowest_bit_unique: "lowest_bit w m \<Longrightarrow> lowest_bit w n \<Longrightarrow> m = n"
  unfolding lowest_bit_def by (metis linorder_neqE_nat)

lemma bit_PRIMAP_BIT: "i < 16 \<Longrightarrow> bit (PRIMAP_BIT pri) i \<longleftrightarrow> i = pri"
  by (auto simp: PRIMAP_BIT_def bit_exp_iff possible_bit_def)

section \<open>Where a task is linked\<close>

definition wf_tstats :: "tstat list" where
  "wf_tstats = [TS_DORMANT, TS_RUNNABLE, TS_SUSPENDED] @
     concat (map (\<lambda>k. [TS_WAITING OR k, TS_WAITING OR TS_SUSPENDED OR k])
       [TS_WAIT_DLY, TS_WAIT_SLP, TS_WAIT_RDTQ, TS_WAIT_RPDQ, TS_WAIT_SEM, TS_WAIT_FLG,
        TS_WAIT_SDTQ, TS_WAIT_SPDQ, TS_WAIT_MBX, TS_WAIT_MPF])"

text \<open>The wait status codes with which a task may be linked to an object of each kind.\<close>

fun wobj_status :: "wobj \<Rightarrow> tstat list" where
  "wobj_status (SEM i) = [TS_WAIT_SEM]"
| "wobj_status (FLG i) = [TS_WAIT_FLG]"
| "wobj_status (DTQ i) = [TS_WAIT_SDTQ, TS_WAIT_RDTQ]"
| "wobj_status (PDQ i) = [TS_WAIT_SPDQ, TS_WAIT_RPDQ]"
| "wobj_status (MBX i) = [TS_WAIT_MBX]"
| "wobj_status (MPF i) = [TS_WAIT_MPF]"

text \<open>The queue a task with this control block belongs to.\<close>

definition place :: "tcb \<Rightarrow> qhdr option" where
  "place tc =
     (if TSTAT_RUNNABLE (tstat tc) then Some (RDY (p_pcb tc) (priority tc))
      else if TSTAT_WAITING (tstat tc) \<and> TSTAT_WAIT_WOBJ (tstat tc) then
        Some ((if TSTAT_WAIT_WOBJCB (tstat tc) then WAITQ else RWAITQ) (the (p_wobjcb tc)))
      else None)"

definition wf_tcb :: "tcb \<Rightarrow> bool" where
  "wf_tcb tc \<longleftrightarrow> tstat tc \<in> set wf_tstats \<and> priority tc < 16 \<and>
     0 \<le> actprc tc \<and> actprc tc < 2 ^ 31 \<and>
     (TSTAT_WAIT_WOBJ (tstat tc) \<longrightarrow>
        (case p_wobjcb tc of None \<Rightarrow> False
         | Some w \<Rightarrow> (tstat tc AND TS_WAIT_MASK) \<in> set (wobj_status w))) \<and>
     (pend_relwai tc \<longrightarrow> TSTAT_WAIT_WOBJ (tstat tc)) \<and>
     (pend_chgpri tc \<longrightarrow> TSTAT_WAIT_WOBJ (tstat tc) \<and> pend_newpri tc < 16)"

section \<open>The precedence order of a processor\<close>

definition ready_list :: "(qhdr \<Rightarrow> tskix list) \<Rightarrow> prcix \<Rightarrow> tskix list" where
  "ready_list Q p = concat (map (\<lambda>i. Q (RDY p i)) [0..<16])"

definition top_task :: "(qhdr \<Rightarrow> tskix list) \<Rightarrow> prcix \<Rightarrow> tskix option" where
  "top_task Q p = (case ready_list Q p of [] \<Rightarrow> None | t # _ \<Rightarrow> Some t)"

lemma concat_map_first:
  "i < n \<Longrightarrow> \<forall>j < i. f j = [] \<Longrightarrow> f i = x # xs \<Longrightarrow> \<exists>ys. concat (map f [0..<n]) = x # ys"
proof (induction n)
  case (Suc n)
  show ?case
  proof (cases "i = n")
    case True
    then have e: "concat (map f [0..<n]) = []"
      using Suc.prems(2) by (auto simp: concat_eq_Nil_conv)
    show ?thesis using Suc.prems True by (simp add: e)
  next
    case False
    then show ?thesis using Suc by auto
  qed
qed simp

lemma top_taskI:
  "i < 16 \<Longrightarrow> Q (RDY p i) = t # ts \<Longrightarrow> (\<And>j. j < i \<Longrightarrow> Q (RDY p j) = []) \<Longrightarrow> top_task Q p = Some t"
  using concat_map_first [of i 16 "\<lambda>i. Q (RDY p i)" t ts]
  by (auto simp: top_task_def ready_list_def)

lemma top_task_None: "top_task Q p = None \<longleftrightarrow> (\<forall>i < 16. Q (RDY p i) = [])"
proof -
  have "ready_list Q p = [] \<longleftrightarrow> (\<forall>i < 16. Q (RDY p i) = [])"
    by (auto simp: ready_list_def concat_eq_Nil_conv)
  then show ?thesis by (auto simp: top_task_def split: list.splits)
qed

lemma top_taskE:
  assumes "top_task Q p = Some t"
  obtains i ts where "i < 16" "Q (RDY p i) = t # ts" "\<And>j. j < i \<Longrightarrow> Q (RDY p j) = []"
proof -
  define i where "i = (LEAST i. Q (RDY p i) \<noteq> [])"
  have "\<exists>i < 16. Q (RDY p i) \<noteq> []" using assms top_task_None [of Q p] by auto
  then obtain k where k: "k < 16" "Q (RDY p k) \<noteq> []" by blast
  have i: "Q (RDY p i) \<noteq> []" "i \<le> k"
    using LeastI [of "\<lambda>i. Q (RDY p i) \<noteq> []" k] Least_le [of "\<lambda>i. Q (RDY p i) \<noteq> []" k] k
    by (simp_all add: i_def)
  have lo: "Q (RDY p j) = []" if "j < i" for j
    using not_less_Least [of j "\<lambda>i. Q (RDY p i) \<noteq> []"] that by (auto simp: i_def)
  obtain u ts where u: "Q (RDY p i) = u # ts" using i(1) by (cases "Q (RDY p i)") auto
  then have "top_task Q p = Some u" using top_taskI [of i Q p u ts] lo i k by simp
  then show thesis using that [of i ts] u lo i k assms by simp
qed

lemma top_task_cong:
  "(\<And>i. i < 16 \<Longrightarrow> Q (RDY p i) = Q' (RDY p i)) \<Longrightarrow> top_task Q p = top_task Q' p"
proof -
  assume a: "\<And>i. i < 16 \<Longrightarrow> Q (RDY p i) = Q' (RDY p i)"
  have "map (\<lambda>i. Q (RDY p i)) [0..<16] = map (\<lambda>i. Q' (RDY p i)) [0..<16]"
    by (rule map_cong) (use a in simp_all)
  then show ?thesis unfolding top_task_def ready_list_def by (simp only:)
qed

section \<open>The invariants\<close>

text \<open>
  \<open>qinv X Q s\<close>: the pointer store represents the queues \<open>Q\<close>; every task outside \<open>X\<close> (the
  tasks in transit inside an operation) is linked exactly where its control block says; the
  bitmap of each processor marks its non-empty ready queues; \<open>p_schedtsk\<close> is the first task
  of the precedence order.  \<open>dinv P s\<close>: on every processor outside \<open>P\<close> on which the kernel runs and whose
  dispatching is enabled, the running task is the scheduled one, or a dispatch has been requested there.
\<close>

definition qinv :: "tskix set \<Rightarrow> (qhdr \<Rightarrow> tskix list) \<Rightarrow> kstate \<Rightarrow> bool" where
  "qinv X Q s \<longleftrightarrow> qrep (kq s) Q \<and>
     (\<forall>t. priority (tcb_of s t) < 16) \<and>
     (\<forall>t. t \<notin> X \<longrightarrow> wf_tcb (tcb_of s t)) \<and>
     (\<forall>t h. t \<notin> X \<longrightarrow> (t \<in> set (Q h) \<longleftrightarrow> place (tcb_of s t) = Some h)) \<and>
     (\<forall>t p i. t \<in> set (Q (RDY p i)) \<longrightarrow> p = p_pcb (tcb_of s t) \<and> i = priority (tcb_of s t)) \<and>
     (\<forall>p i. i < 16 \<longrightarrow> (bit (ready_primap (pcb_of s p)) i \<longleftrightarrow> Q (RDY p i) \<noteq> [])) \<and>
     (\<forall>p. p_schedtsk (pcb_of s p) = top_task Q p)"

definition dinv :: "prcix set \<Rightarrow> kstate \<Rightarrow> bool" where
  "dinv P s \<longleftrightarrow> (\<forall>p. p \<notin> P \<longrightarrow> kerflg (pcb_of s p) \<longrightarrow> dspflg (pcb_of s p) \<longrightarrow>
     p_runtsk (pcb_of s p) \<noteq> p_schedtsk (pcb_of s p) \<longrightarrow> reqflg (pcb_of s p) \<or> ipi s p)"

text \<open>The ready queue operations change the queues, the bitmaps and \<open>p_schedtsk\<close> only.\<close>

definition sched_frame :: "kstate \<Rightarrow> kstate \<Rightarrow> bool" where
  "sched_frame s s' \<longleftrightarrow> s'\<lparr>kq := kq s, pcb_of := pcb_of s\<rparr> = s \<and>
     (\<forall>p. (pcb_of s' p)\<lparr>ready_primap := 0, p_schedtsk := None\<rparr> =
          (pcb_of s p)\<lparr>ready_primap := 0, p_schedtsk := None\<rparr>)"

lemma sched_frameD:
  assumes "sched_frame s s'"
  shows "tcb_of s' = tcb_of s" "tevt_of s' = tevt_of s" "tm_index s' = tm_index s"
    "tm_callback s' = tm_callback s" "ipi s' = ipi s" "objs s' = objs s"
    "p_runtsk (pcb_of s' p) = p_runtsk (pcb_of s p)" "reqflg (pcb_of s' p) = reqflg (pcb_of s p)"
    "dspflg (pcb_of s' p) = dspflg (pcb_of s p)"
    "excpt_nest_count (pcb_of s' p) = excpt_nest_count (pcb_of s p)"
    "lock_flag (pcb_of s' p) = lock_flag (pcb_of s p)" "kerflg (pcb_of s' p) = kerflg (pcb_of s p)"
proof -
  have e: "s'\<lparr>kq := kq s, pcb_of := pcb_of s\<rparr> = s"
    and b: "(pcb_of s' p)\<lparr>ready_primap := 0, p_schedtsk := None\<rparr> =
      (pcb_of s p)\<lparr>ready_primap := 0, p_schedtsk := None\<rparr>"
    using assms by (auto simp: sched_frame_def)
  show "tcb_of s' = tcb_of s" "tevt_of s' = tevt_of s" "tm_index s' = tm_index s"
    "tm_callback s' = tm_callback s" "ipi s' = ipi s" "objs s' = objs s"
    using arg_cong [OF e, of tcb_of] arg_cong [OF e, of tevt_of] arg_cong [OF e, of tm_index]
      arg_cong [OF e, of tm_callback] arg_cong [OF e, of ipi] arg_cong [OF e, of objs]
    by simp_all
  show "p_runtsk (pcb_of s' p) = p_runtsk (pcb_of s p)"
    "reqflg (pcb_of s' p) = reqflg (pcb_of s p)" "dspflg (pcb_of s' p) = dspflg (pcb_of s p)"
    "excpt_nest_count (pcb_of s' p) = excpt_nest_count (pcb_of s p)"
    "lock_flag (pcb_of s' p) = lock_flag (pcb_of s p)" "kerflg (pcb_of s' p) = kerflg (pcb_of s p)"
    using arg_cong [OF b, of p_runtsk] arg_cong [OF b, of reqflg] arg_cong [OF b, of dspflg]
      arg_cong [OF b, of excpt_nest_count] arg_cong [OF b, of lock_flag]
      arg_cong [OF b, of kerflg]
    by simp_all
qed

section \<open>Becoming runnable and ceasing to be\<close>

lemma qinvD:
  assumes "qinv X Q s"
  shows "qrep (kq s) Q" and "priority (tcb_of s t) < 16"
    and "t \<notin> X \<Longrightarrow> wf_tcb (tcb_of s t)"
    and "t \<notin> X \<Longrightarrow> t \<in> set (Q h) \<longleftrightarrow> place (tcb_of s t) = Some h"
    and "t \<in> set (Q (RDY p i)) \<Longrightarrow> p = p_pcb (tcb_of s t) \<and> i = priority (tcb_of s t)"
    and "i < 16 \<Longrightarrow> bit (ready_primap (pcb_of s p)) i \<longleftrightarrow> Q (RDY p i) \<noteq> []"
    and "p_schedtsk (pcb_of s p) = top_task Q p"
  using assms unfolding qinv_def by blast+

lemma sel_ops [simp]:
  "tcb_of (on_kq f s) = tcb_of s" "pcb_of (on_kq f s) = pcb_of s" "kq (on_kq f s) = f (kq s)"
  "tcb_of (primap_set p i s) = tcb_of s" "kq (primap_set p i s) = kq s"
  "tcb_of (primap_clear p i s) = tcb_of s" "kq (primap_clear p i s) = kq s"
  "tcb_of (set_schedtsk p t s) = tcb_of s" "kq (set_schedtsk p t s) = kq s"
  by (simp_all add: on_kq_def primap_set_def primap_clear_def set_schedtsk_def)

lemma pcb_ops [simp]:
  "pcb_of (primap_set p i s) q =
     (if q = p then (pcb_of s p)\<lparr>ready_primap := ready_primap (pcb_of s p) OR PRIMAP_BIT i\<rparr>
      else pcb_of s q)"
  "pcb_of (primap_clear p i s) q =
     (if q = p then (pcb_of s p)\<lparr>ready_primap := ready_primap (pcb_of s p) AND NOT (PRIMAP_BIT i)\<rparr>
      else pcb_of s q)"
  "pcb_of (set_schedtsk p t s) q =
     (if q = p then (pcb_of s p)\<lparr>p_schedtsk := t\<rparr> else pcb_of s q)"
  by (simp_all add: primap_set_def primap_clear_def set_schedtsk_def)

lemma sched_frame_refl [simp]: "sched_frame s s"
  by (simp add: sched_frame_def)

lemma sched_frame_steps [simp]:
  "sched_frame s a \<Longrightarrow> sched_frame s (on_kq f a)"
  "sched_frame s a \<Longrightarrow> sched_frame s (primap_set p i a)"
  "sched_frame s a \<Longrightarrow> sched_frame s (primap_clear p i a)"
  "sched_frame s a \<Longrightarrow> sched_frame s (set_schedtsk p t a)"
  by (simp_all add: sched_frame_def on_kq_def primap_set_def primap_clear_def set_schedtsk_def
      upd_pcb_def)

lemma make_runnable_frame: "make_runnable t s = (b, s') \<Longrightarrow> sched_frame s s'"
  unfolding make_runnable_def Let_def by (auto split: option.splits if_splits)

lemma make_non_runnable_frame: "make_non_runnable t s = (b, s') \<Longrightarrow> sched_frame s s'"
  unfolding make_non_runnable_def Let_def by (auto split: option.splits if_splits)

lemma rotate_ready_queue_frame: "rotate_ready_queue i p s = (b, s') \<Longrightarrow> sched_frame s s'"
  unfolding rotate_ready_queue_def Let_def
  by (auto split: option.splits if_splits prod.splits)

lemma set_lowest_precedence_frame: "set_lowest_precedence t p s = (b, s') \<Longrightarrow> sched_frame s s'"
  unfolding set_lowest_precedence_def Let_def by (auto split: option.splits if_splits)

text \<open>
  What a change of \<open>p_schedtsk\<close> at processor \<open>p\<close> may do: the returned flag is true only if
  dispatching is enabled there, and when it is false nothing changed that a dispatch depends
  on.
\<close>

definition sched_change :: "prcix \<Rightarrow> bool \<Rightarrow> kstate \<Rightarrow> kstate \<Rightarrow> bool" where
  "sched_change p b s s' \<longleftrightarrow>
     (\<forall>q. q \<noteq> p \<longrightarrow> p_schedtsk (pcb_of s' q) = p_schedtsk (pcb_of s q)) \<and>
     (b \<longrightarrow> dspflg (pcb_of s p)) \<and>
     (\<not> b \<longrightarrow> dspflg (pcb_of s p) \<longrightarrow> p_schedtsk (pcb_of s' p) = p_schedtsk (pcb_of s p))"

lemma dinv_sched_change:
  assumes "dinv P s" and "sched_frame s s'" and "sched_change p b s s'"
  shows "dinv (if b then insert p P else P) s'"
  unfolding dinv_def
proof (intro allI impI)
  fix q
  assume q: "q \<notin> (if b then insert p P else P)" "kerflg (pcb_of s' q)" "dspflg (pcb_of s' q)"
    "p_runtsk (pcb_of s' q) \<noteq> p_schedtsk (pcb_of s' q)"
  note fr = sched_frameD [OF assms(2)]
  have "p_schedtsk (pcb_of s' q) = p_schedtsk (pcb_of s q)"
    using assms(3) q fr by (cases "q = p") (auto simp: sched_change_def)
  then show "reqflg (pcb_of s' q) \<or> ipi s' q"
    using assms(1) q fr by (auto simp: dinv_def split: if_splits)
qed

lemma top_task_other: "q \<noteq> p \<Longrightarrow> top_task (Q(RDY p i := l)) q = top_task Q q"
  by (rule top_task_cong) simp

lemma qinv_top_in:
  assumes "qinv X Q s" and "top_task Q p = Some u"
  shows "u \<in> set (Q (RDY p (priority (tcb_of s u))))" and "p_pcb (tcb_of s u) = p"
    and "\<And>j. j < priority (tcb_of s u) \<Longrightarrow> Q (RDY p j) = []"
    and "hd (Q (RDY p (priority (tcb_of s u)))) = u"
proof -
  obtain i ts where i: "i < 16" "Q (RDY p i) = u # ts" "\<And>j. j < i \<Longrightarrow> Q (RDY p j) = []"
    using top_taskE [OF assms(2)] by blast
  then have "p = p_pcb (tcb_of s u) \<and> i = priority (tcb_of s u)"
    using qinvD(5) [OF assms(1), of u p i] by simp
  then show "u \<in> set (Q (RDY p (priority (tcb_of s u))))" "p_pcb (tcb_of s u) = p"
    "\<And>j. j < priority (tcb_of s u) \<Longrightarrow> Q (RDY p j) = []"
    "hd (Q (RDY p (priority (tcb_of s u)))) = u"
    using i by auto
qed

lemma top_task_append:
  assumes Q: "qinv X Q s" and i: "i < 16"
  shows "top_task (Q(RDY p i := Q (RDY p i) @ [t])) p =
    (case top_task Q p of None \<Rightarrow> Some t
     | Some u \<Rightarrow> if i < priority (tcb_of s u) then Some t else Some u)"
proof (cases "top_task Q p")
  case None
  then have "top_task (Q(RDY p i := Q (RDY p i) @ [t])) p = Some t"
    by (intro top_taskI [OF i, of _ _ _ "[]"]) (use i in \<open>auto simp: top_task_None\<close>)
  then show ?thesis using None by simp
next
  case (Some u)
  let ?j = "priority (tcb_of s u)"
  note u = qinv_top_in [OF Q Some]
  show ?thesis
  proof (cases "i < ?j")
    case True
    then show ?thesis using Some u i by (auto intro!: top_taskI [of i])
  next
    case False
    obtain us where us: "Q (RDY p ?j) = u # us"
      using u(1,4) by (cases "Q (RDY p ?j)") auto
    have "top_task (Q(RDY p i := Q (RDY p i) @ [t])) p = Some u"
      by (rule top_taskI [of ?j _ _ _ "if i = ?j then us @ [t] else us"])
         (use us False u(3) qinvD(2) [OF Q] in auto)
    then show ?thesis using Some False by simp
  qed
qed

lemma make_runnable_inv:
  assumes Q: "qinv X Q s" and nq: "\<not> queued Q t" and wf: "wf_tcb (tcb_of s t)"
    and run: "TSTAT_RUNNABLE (tstat (tcb_of s t))"
    and eq: "make_runnable t s = (b, s')"
  defines "h \<equiv> RDY (p_pcb (tcb_of s t)) (priority (tcb_of s t))"
  shows "qinv (X - {t}) (Q(h := Q h @ [t])) s'"
    and "sched_change (p_pcb (tcb_of s t)) b s s'"
proof -
  let ?p = "p_pcb (tcb_of s t)" and ?i = "priority (tcb_of s t)"
  let ?Q = "Q(h := Q h @ [t])"
  note D = qinvD [OF Q]
  have i: "?i < 16" using D(2) .
  note top = top_task_append [OF Q i, of ?p t, folded h_def]
  have kq': "kq s' = queue_insert_prev (Hdr h) (Ent t) (kq s)"
    using eq unfolding make_runnable_def Let_def h_def by (auto split: option.splits if_splits)
  have tcb': "tcb_of s' = tcb_of s" using sched_frameD(1) [OF make_runnable_frame [OF eq]] .
  have pm: "ready_primap (pcb_of s' q) =
      (if q = ?p then ready_primap (pcb_of s ?p) OR PRIMAP_BIT ?i else ready_primap (pcb_of s q))" for q
    using eq unfolding make_runnable_def Let_def by (auto split: option.splits if_splits)
  have sc: "p_schedtsk (pcb_of s' q) = (if q = ?p then top_task ?Q ?p else p_schedtsk (pcb_of s q))" for q
    using eq D(7) [of ?p] top unfolding make_runnable_def Let_def
    by (auto split: option.splits if_splits)
  have pl: "place (tcb_of s t) = Some h" using run by (simp add: place_def h_def)
  have "qrep (kq s') ?Q" unfolding kq' by (rule qrep_insert_prev_hdr [OF D(1) nq])
  moreover have "(u \<in> set (?Q k)) = (place (tcb_of s' u) = Some k)" if "u \<notin> X - {t}" for u k
    using that D(4) nq pl unfolding tcb' queued_def by (cases "u = t") auto
  moreover have "p = p_pcb (tcb_of s' u) \<and> j = priority (tcb_of s' u)" if "u \<in> set (?Q (RDY p j))" for u p j
    using that D(5) [of u p j] unfolding tcb' h_def by (auto split: if_splits)
  moreover have "bit (ready_primap (pcb_of s' p)) j \<longleftrightarrow> ?Q (RDY p j) \<noteq> []" if "j < 16" for p j
    using that D(6) [OF that, of p] pm [of p] by (auto simp: bit_or_iff bit_PRIMAP_BIT h_def)
  moreover have "p_schedtsk (pcb_of s' p) = top_task ?Q p" for p
    using sc [of p] D(7) [of p] top_task_other [of p ?p Q ?i] by (auto simp: h_def)
  ultimately show "qinv (X - {t}) ?Q s'"
    using D(2,3) wf unfolding qinv_def tcb' by auto
  show "sched_change ?p b s s'"
    using eq sc D(7) [of ?p] top unfolding make_runnable_def sched_change_def Let_def
    by (auto split: option.splits if_splits)
qed

lemma next_hdr_tcb:
  "qrep st Q \<Longrightarrow> tcb_at (p_next st (Hdr h)) = (case Q h of [] \<Rightarrow> None | t # _ \<Rightarrow> Some t)"
  by (simp add: qrep_next_hdr split: list.splits)

lemma search_schedtsk_top:
  assumes R: "qrep (kq s) Q" and ne: "ready_primap (pcb_of s p) \<noteq> 0"
    and pm: "\<And>i. i < 16 \<Longrightarrow> bit (ready_primap (pcb_of s p)) i \<longleftrightarrow> Q (RDY p i) \<noteq> []"
  shows "search_schedtsk p s = top_task Q p"
proof -
  let ?n = "bitmap_search (ready_primap (pcb_of s p))"
  have n: "?n < 16" "Q (RDY p ?n) \<noteq> []" "\<And>j. j < ?n \<Longrightarrow> Q (RDY p j) = []"
    using bitmap_search_lowest [OF ne] pm by (auto simp: lowest_bit_def)
  obtain t ts where t: "Q (RDY p ?n) = t # ts" using n(2) by (cases "Q (RDY p ?n)") auto
  then have "top_task Q p = Some t" using n by (intro top_taskI [of ?n Q p t ts]) auto
  then show ?thesis
    using next_hdr_tcb [OF R] t by (simp add: search_schedtsk_def primap_search_def)
qed

lemma search_or_none:
  assumes R: "qrep (kq s) Q"
    and pm: "\<And>i. i < 16 \<Longrightarrow> bit (ready_primap (pcb_of s p)) i \<longleftrightarrow> Q (RDY p i) \<noteq> []"
  shows "(if primap_empty p s then None else search_schedtsk p s) = top_task Q p"
proof (cases "primap_empty p s")
  case True
  then have "top_task Q p = None" using pm by (auto simp: primap_empty_def top_task_None)
  then show ?thesis using True by simp
next
  case False
  then show ?thesis using search_schedtsk_top [OF assms(1) _ pm] by (simp add: primap_empty_def)
qed

lemma top_task_remove:
  assumes Q: "qinv X Q s" and t: "t \<in> set (Q (RDY p i))"
  defines "Q' \<equiv> Q(RDY p i := remove1 t (Q (RDY p i)))"
  shows "top_task Q p \<noteq> Some t \<Longrightarrow> top_task Q' p = top_task Q p"
    and "top_task Q p = Some t \<Longrightarrow> Q' (RDY p i) = u # us \<Longrightarrow> top_task Q' p = Some u"
proof -
  have ti: "p = p_pcb (tcb_of s t)" "i = priority (tcb_of s t)" using qinvD(5) [OF Q t] by auto
  then have i: "i < 16" using qinvD(2) [OF Q] by simp
  show "top_task Q' p = top_task Q p" if ne: "top_task Q p \<noteq> Some t"
  proof (cases "top_task Q p")
    case None
    then show ?thesis using t i by (auto simp: top_task_None)
  next
    case (Some v)
    note v = qinv_top_in [OF Q Some]
    let ?j = "priority (tcb_of s v)"
    obtain vs where vs: "Q (RDY p ?j) = v # vs" using v(1,4) by (cases "Q (RDY p ?j)") auto
    have "v \<noteq> t" using ne Some by simp
    have "top_task Q' p = Some v"
      by (rule top_taskI [of ?j _ _ _ "if ?j = i then remove1 t vs else vs"])
         (use vs v(3) \<open>v \<noteq> t\<close> qinvD(2) [OF Q] in \<open>auto simp: Q'_def\<close>)
    then show ?thesis using Some by simp
  qed
  show "top_task Q' p = Some u" if "top_task Q p = Some t" "Q' (RDY p i) = u # us"
    by (rule top_taskI [of i _ _ _ us])
       (use that qinv_top_in(3) [OF Q that(1)] i ti in \<open>auto simp: Q'_def\<close>)
qed

lemma make_non_runnable_inv:
  assumes Q: "qinv X Q s"
    and t: "t \<in> set (Q (RDY (p_pcb (tcb_of s t)) (priority (tcb_of s t))))"
    and eq: "make_non_runnable t s = (b, s')"
  defines "h \<equiv> RDY (p_pcb (tcb_of s t)) (priority (tcb_of s t))"
  shows "qinv (insert t X) (Q(h := remove1 t (Q h))) s'"
    and "sched_change (p_pcb (tcb_of s t)) b s s'"
proof -
  let ?p = "p_pcb (tcb_of s t)" and ?i = "priority (tcb_of s t)"
  let ?Q = "Q(h := remove1 t (Q h))"
  note D = qinvD [OF Q]
  have i: "?i < 16" using D(2) .
  have R: "qrep (queue_delete (Ent t) (kq s)) ?Q"
    by (rule qrep_delete [OF D(1)]) (use t in \<open>simp add: h_def\<close>)
  have kq': "kq s' = queue_delete (Ent t) (kq s)"
    using eq unfolding make_non_runnable_def Let_def h_def by (auto split: option.splits if_splits)
  have tcb': "tcb_of s' = tcb_of s" using sched_frameD(1) [OF make_non_runnable_frame [OF eq]] .
  have em: "queue_empty (Hdr h) (queue_delete (Ent t) (kq s)) \<longleftrightarrow> ?Q h = []"
    by (rule qrep_queue_empty [OF R])
  have pm: "ready_primap (pcb_of s' q) =
      (if q = ?p \<and> ?Q h = [] then ready_primap (pcb_of s ?p) AND NOT (PRIMAP_BIT ?i)
       else ready_primap (pcb_of s q))" for q
    using eq em unfolding make_non_runnable_def Let_def h_def by (auto split: option.splits if_splits)
  have pm': "bit (ready_primap (pcb_of s' p)) j \<longleftrightarrow> ?Q (RDY p j) \<noteq> []" if "j < 16" for p j
  proof -
    have "Q h \<noteq> []" using t by (auto simp: h_def)
    then show ?thesis
      using that D(6) [OF that, of p] pm [of p]
      by (auto simp: bit_and_iff bit_not_iff possible_bit_def bit_PRIMAP_BIT h_def)
  qed
  let ?s = "primap_clear ?p ?i (on_kq (queue_delete (Ent t)) s)"
  have se: "(if primap_empty ?p ?s then None else search_schedtsk ?p ?s) = top_task ?Q ?p"
    if e: "?Q h = []"
  proof (rule search_or_none)
    show "qrep (kq ?s) ?Q" using R by simp
    show "bit (ready_primap (pcb_of ?s ?p)) j \<longleftrightarrow> ?Q (RDY ?p j) \<noteq> []" if "j < 16" for j
      using pm' [OF that, of ?p] pm [of ?p] e by simp
  qed
  have nx: "tcb_at (p_next (queue_delete (Ent t) (kq s)) (Hdr h)) =
      (case ?Q h of [] \<Rightarrow> None | u # _ \<Rightarrow> Some u)"
    by (rule next_hdr_tcb [OF R])
  note tr = top_task_remove [OF Q t, folded h_def]
  have top': "top_task ?Q ?p = (if top_task Q ?p = Some t then
      (case ?Q h of [] \<Rightarrow> top_task ?Q ?p | u # _ \<Rightarrow> Some u) else top_task Q ?p)"
    using tr by (auto split: list.splits)
  have sc: "p_schedtsk (pcb_of s' q) = (if q = ?p then top_task ?Q ?p else p_schedtsk (pcb_of s q))" for q
  proof (cases "?Q h = []")
    case True
    then show ?thesis
      using eq em D(7) [of ?p] se tr(1) unfolding make_non_runnable_def Let_def h_def
      by (auto split: if_splits)
  next
    case False
    then show ?thesis
      using eq em D(7) [of ?p] nx top' unfolding make_non_runnable_def Let_def h_def
      by (auto split: if_splits list.splits)
  qed
  have "(u \<in> set (?Q k)) = (place (tcb_of s' u) = Some k)" if "u \<notin> insert t X" for u k
    using that D(4) [of u k] unfolding tcb' by auto
  moreover have "p = p_pcb (tcb_of s' u) \<and> j = priority (tcb_of s' u)" if "u \<in> set (?Q (RDY p j))" for u p j
    using that D(5) [of u p j] set_remove1_subset [of t "Q h"] unfolding tcb' h_def
    by (auto split: if_splits)
  moreover have "p_schedtsk (pcb_of s' p) = top_task ?Q p" for p
    using sc [of p] D(7) [of p] top_task_other [of p ?p Q ?i] by (auto simp: h_def)
  ultimately show "qinv (insert t X) ?Q s'"
    using D(2,3) pm' R unfolding qinv_def tcb' kq' by auto
  have "b \<longleftrightarrow> p_schedtsk (pcb_of s ?p) = Some t \<and> dspflg (pcb_of s ?p)"
    using eq unfolding make_non_runnable_def Let_def by (simp split: if_splits)
  then show "sched_change ?p b s s'"
    using sc D(7) [of ?p] tr(1) unfolding sched_change_def by auto
qed

section \<open>Reordering within one priority\<close>

lemma top_task_reorder:
  assumes Q: "qinv X Q s" and i: "i < 16" and ne: "Q (RDY p i) \<noteq> []"
    and l: "l = u # us"
  shows "top_task (Q(RDY p i := l)) p =
    (case top_task Q p of None \<Rightarrow> None
     | Some t \<Rightarrow> if t \<in> set (Q (RDY p i)) then Some u else Some t)"
proof (cases "top_task Q p")
  case None
  then show ?thesis using ne i by (auto simp: top_task_None)
next
  case (Some v)
  note v = qinv_top_in [OF Q Some]
  let ?j = "priority (tcb_of s v)"
  obtain vs where vs: "Q (RDY p ?j) = v # vs" using v(1,4) by (cases "Q (RDY p ?j)") auto
  show ?thesis
  proof (cases "v \<in> set (Q (RDY p i))")
    case True
    then have "i = ?j" using qinvD(5) [OF Q] by blast
    then have "top_task (Q(RDY p i := l)) p = Some u"
      by (intro top_taskI [of i _ _ _ us]) (use i l v(3) in auto)
    then show ?thesis using Some True by simp
  next
    case False
    then have "i \<noteq> ?j" using v(1) by auto
    then have "top_task (Q(RDY p i := l)) p = Some v"
      by (intro top_taskI [of ?j _ _ _ vs]) (use vs v(3) ne qinvD(2) [OF Q] in auto)
    then show ?thesis using Some False by simp
  qed
qed

lemma qinv_reorder:
  assumes Q: "qinv X Q s" and R: "qrep (kq s') (Q(RDY p i := l))"
    and l: "set l = set (Q (RDY p i))" and fr: "sched_frame s s'"
    and pm: "\<And>q. ready_primap (pcb_of s' q) = ready_primap (pcb_of s q)"
    and sc: "\<And>q. p_schedtsk (pcb_of s' q) =
      (if q = p then top_task (Q(RDY p i := l)) p else p_schedtsk (pcb_of s q))"
  shows "qinv X (Q(RDY p i := l)) s'"
proof -
  note D = qinvD [OF Q]
  have tcb': "tcb_of s' = tcb_of s" by (rule sched_frameD(1) [OF fr])
  have st: "set ((Q(RDY p i := l)) k) = set (Q k)" for k using l by auto
  then have em: "(Q(RDY p i := l)) k = [] \<longleftrightarrow> Q k = []" for k by (metis set_empty)
  have "p_schedtsk (pcb_of s' q) = top_task (Q(RDY p i := l)) q" for q
    using sc [of q] D(7) [of q] top_task_other [of q p Q i l] by auto
  then show ?thesis
    using R D(2-6) unfolding qinv_def tcb' st em pm by blast
qed

lemma rotate_ready_queue_eq:
  assumes R: "qrep (kq s) Q"
  shows "rotate_ready_queue i p s =
    (case Q (RDY p i) of
       x # y # ys \<Rightarrow>
         (let s1 = on_kq (\<lambda>q. queue_insert_prev (Hdr (RDY p i)) (Ent x) (queue_delete (Ent x) q)) s
          in if p_schedtsk (pcb_of s p) = Some x
             then (dspflg (pcb_of s p), set_schedtsk p (Some y) s1) else (False, s1))
     | _ \<Rightarrow> (False, s))"
proof (cases "Q (RDY p i)")
  case Nil
  then show ?thesis using R by (simp add: rotate_ready_queue_def Let_def)
next
  case (Cons x xs)
  show ?thesis
  proof (cases xs)
    case Nil
    then show ?thesis
      using R Cons qrep_next_hdr [OF R, of "RDY p i"] qrep_next_ent [OF R, of "RDY p i" "[]" x "[]"]
      by (simp add: rotate_ready_queue_def Let_def)
  next
    case c: (Cons y ys)
    let ?h = "RDY p i"
    have n: "p_next (kq s) (Hdr ?h) = Ent x" "p_next (kq s) (Ent x) = Ent y"
      using qrep_next_hdr [OF R, of ?h] qrep_next_ent [OF R, of ?h "[]" x xs] Cons c by auto
    have R': "qrep (queue_insert_prev (Hdr ?h) (Ent x) (queue_delete (Ent x) (kq s)))
        (Q(?h := xs @ [x]))"
      by (rule ring.rotate [OF R Cons])
    have "tcb_at (p_next (queue_insert_prev (Hdr ?h) (Ent x) (queue_delete (Ent x) (kq s))) (Hdr ?h)) = Some y"
      using next_hdr_tcb [OF R', of ?h] c by simp
    then show ?thesis
      using R Cons c n queue_delete_next_eq [OF R Cons]
      by (simp add: rotate_ready_queue_def Let_def on_kq_def)
  qed
qed

lemma rotate_ready_queue_inv:
  assumes Q: "qinv X Q s" and i: "i < 16" and eq: "rotate_ready_queue i p s = (b, s')"
  shows "qinv X (Q(RDY p i := rotate1 (Q (RDY p i)))) s'" and "sched_change p b s s'"
proof -
  note D = qinvD [OF Q]
  let ?h = "RDY p i"
  consider "Q ?h = []" | x where "Q ?h = [x]" | x y ys where "Q ?h = x # y # ys"
    by (metis neq_Nil_conv)
  then have "qinv X (Q(?h := rotate1 (Q ?h))) s' \<and> sched_change p b s s'"
  proof cases
    case 1
    then have "Q(?h := rotate1 (Q ?h)) = Q" by auto
    then show ?thesis using rotate_ready_queue_eq [OF D(1), of i p] 1 eq Q by (simp add: sched_change_def)
  next
    case 2
    then have "Q(?h := rotate1 (Q ?h)) = Q" by auto
    then show ?thesis using rotate_ready_queue_eq [OF D(1), of i p] 2 eq Q by (simp add: sched_change_def)
  next
    case 3
    note e = rotate_ready_queue_eq [OF D(1), of i p, unfolded eq 3 Let_def list.case]
    have R: "qrep (kq s') (Q(?h := (y # ys) @ [x]))"
      using ring.rotate [OF D(1) 3] e by (auto split: if_splits)
    have xn: "x \<notin> set (y # ys)" using qrep_distinct [OF D(1), of ?h] 3 by auto
    have top: "top_task (Q(?h := (y # ys) @ [x])) p =
        (if top_task Q p = Some x then Some y else top_task Q p)"
    proof (cases "top_task Q p")
      case None
      then show ?thesis using top_task_reorder [OF Q i, of p "(y # ys) @ [x]" y "ys @ [x]"] 3 by simp
    next
      case (Some v)
      have "v = x" if "v \<in> set (Q ?h)"
        using qinv_top_in(4) [OF Q Some] qinvD(5) [OF Q that] 3 by auto
      then show ?thesis
        using top_task_reorder [OF Q i, of p "(y # ys) @ [x]" y "ys @ [x]"] 3 Some by auto
    qed
    have "qinv X (Q(?h := (y # ys) @ [x])) s'"
      by (rule qinv_reorder [OF Q R _ rotate_ready_queue_frame [OF eq]])
         (use 3 e top D(7) [of p] in \<open>auto split: if_splits\<close>)
    moreover have "sched_change p b s s'"
      using e by (auto simp: sched_change_def split: if_splits)
    ultimately show ?thesis using 3 by simp
  qed
  then show "qinv X (Q(?h := rotate1 (Q ?h))) s'" "sched_change p b s s'" by auto
qed

lemma set_lowest_precedence_inv:
  assumes Q: "qinv X Q s" and p: "p = p_pcb (tcb_of s t)"
    and t: "t \<in> set (Q (RDY p (priority (tcb_of s t))))"
    and eq: "set_lowest_precedence t p s = (b, s')"
  defines "h \<equiv> RDY p (priority (tcb_of s t))"
  shows "qinv X (Q(h := remove1 t (Q h) @ [t])) s'" and "sched_change p b s s'"
proof -
  note D = qinvD [OF Q]
  let ?l = "remove1 t (Q h) @ [t]"
  have R: "qrep (queue_insert_prev (Hdr h) (Ent t) (queue_delete (Ent t) (kq s))) (Q(h := ?l))"
    by (rule ring.relink_same [OF D(1)]) (use t in \<open>simp add: h_def\<close>)
  obtain u us where l: "?l = u # us" by (cases ?l) auto
  have nx: "tcb_at (p_next (queue_insert_prev (Hdr h) (Ent t) (queue_delete (Ent t) (kq s))) (Hdr h)) = Some u"
    using next_hdr_tcb [OF R, of h] l by simp
  have e: "(b, s') = (if p_schedtsk (pcb_of s p) = Some t
      then (dspflg (pcb_of s p), set_schedtsk p (Some u)
             (on_kq (\<lambda>q. queue_insert_prev (Hdr h) (Ent t) (queue_delete (Ent t) q)) s))
      else (False, on_kq (\<lambda>q. queue_insert_prev (Hdr h) (Ent t) (queue_delete (Ent t) q)) s))"
    using nx unfolding eq [symmetric] set_lowest_precedence_def h_def by (simp add: on_kq_def Let_def)
  have i: "priority (tcb_of s t) < 16" using D(2) .
  have top: "top_task (Q(h := ?l)) p = (if top_task Q p = Some t then Some u else top_task Q p)"
  proof (cases "top_task Q p")
    case None
    then show ?thesis using t i by (auto simp: top_task_None)
  next
    case (Some v)
    have "Q (RDY p (priority (tcb_of s t))) \<noteq> []" using t by auto
    from top_task_reorder [OF Q i this l]
    have tr: "top_task (Q(h := ?l)) p = (if v \<in> set (Q h) then Some u else Some v)"
      using Some by (simp add: h_def)
    have "u = v" if "v \<in> set (Q h)" "v \<noteq> t"
    proof -
      have "hd (Q h) = v"
        using qinv_top_in(4) [OF Q Some] qinvD(5) [OF Q that(1) [unfolded h_def]] by (simp add: h_def)
      then have "hd ?l = v" using that by (cases "Q h") auto
      then show ?thesis using l by simp
    qed
    then show ?thesis using tr Some t by (auto simp: h_def)
  qed
  show "qinv X (Q(h := ?l)) s'"
    unfolding h_def
  proof (rule qinv_reorder [OF Q _ _ set_lowest_precedence_frame [OF eq]], fold h_def)
    show "qrep (kq s') (Q(h := ?l))" using R e by (auto split: if_splits)
    show "set ?l = set (Q h)" using t qrep_distinct [OF D(1), of h] by (auto simp: h_def)
    show "ready_primap (pcb_of s' q) = ready_primap (pcb_of s q)" for q
      using e by (auto split: if_splits)
    show "p_schedtsk (pcb_of s' q) = (if q = p then top_task (Q(h := ?l)) p else p_schedtsk (pcb_of s q))" for q
      using e top D(7) [of p] by (auto split: if_splits)
  qed
  show "sched_change p b s s'"
    using e by (auto simp: sched_change_def split: if_splits)
qed

end
