(* ===== verification/Wait.thy ===== *)
theory Wait
  imports Task "HOL-Library.Multiset"
begin

text \<open>
  Waiting (\<open>kernel/wait.h\<close>, \<open>kernel/wait.c\<close>), the registration of time events of
  \<open>kernel/time_event.h\<close> on the kernel state, and the functions of \<open>kernel/task.c\<close> that change a
  priority.  A loop over a wait queue that could run for ever on a damaged queue is a
  \<open>partial_function\<close>; it is proved to return on every represented store.
\<close>

section \<open>Time events of the kernel state (\<open>time_event.h\<close>)\<close>

definition tmevtb_enqueue_evttim :: "prcix \<Rightarrow> tmevtb \<Rightarrow> evttim \<Rightarrow> cback \<Rightarrow> kstate \<Rightarrow> kstate" where
  "tmevtb_enqueue_evttim p b tm cb s =
     (let s = s\<lparr>tm_callback := (tm_callback s)(b := Some cb)\<rparr>;
          (te, ix) = tmevtb_insert b tm (tevt_of s p, tm_index s)
      in s\<lparr>tevt_of := (tevt_of s)(p := te), tm_index := ix\<rparr>)"

definition tmevtb_enqueue :: "prcix \<Rightarrow> tmevtb \<Rightarrow> reltim \<Rightarrow> cback \<Rightarrow> kstate \<Rightarrow> kstate" where
  "tmevtb_enqueue p b tm cb s =
     (let s = s\<lparr>tm_callback := (tm_callback s)(b := Some cb)\<rparr>;
          (te, ix) = tmevtb_insert b (base_time (tevt_of s p) + tm) (tevt_of s p, tm_index s)
      in s\<lparr>tevt_of := (tevt_of s)(p := te), tm_index := ix\<rparr>)"

definition tmevtb_dequeue :: "prcix \<Rightarrow> tmevtb \<Rightarrow> kstate \<Rightarrow> reltim \<times> kstate" where
  "tmevtb_dequeue p b s =
     (let (left, te, ix) = tmevtb_delete b (tevt_of s p, tm_index s)
      in (left, s\<lparr>tevt_of := (tevt_of s)(p := te), tm_index := ix\<rparr>))"

definition set_callback :: "tmevtb \<Rightarrow> cback option \<Rightarrow> kstate \<Rightarrow> kstate" where
  "set_callback b cb s = s\<lparr>tm_callback := (tm_callback s)(b := cb)\<rparr>"

section \<open>Entering the waiting state\<close>

definition set_tstat :: "tskix \<Rightarrow> tstat \<Rightarrow> kstate \<Rightarrow> kstate" where
  "set_tstat t ts = upd_tcb t (\<lambda>b. b\<lparr>tstat := ts\<rparr>)"

definition first_waiter :: "kqnode \<Rightarrow> kstate \<Rightarrow> tskix" where
  "first_waiter q s = the (tcb_at (p_next (kq s) q))"

definition make_wait :: "tskix \<Rightarrow> kstate \<Rightarrow> kstate" where
  "make_wait t s =
     (let (_, s) = make_non_runnable t s in set_callback (TM_TSK t) None s)"

definition make_wait_tmout :: "tmo \<Rightarrow> prcix \<Rightarrow> kstate \<Rightarrow> kstate" where
  "make_wait_tmout tmout p s =
     (let t = runtsk p s;
          (_, s) = make_non_runnable t s
      in if 0 < tmout then tmevtb_enqueue p (TM_TSK t) (word_of_int tmout) CB_wait_tmout s
         else set_callback (TM_TSK t) None s)"

section \<open>Leaving the waiting state\<close>

definition make_non_wait :: "tskix \<Rightarrow> kstate \<Rightarrow> bool \<times> kstate" where
  "make_non_wait t s =
     (let s = (if pend_chgpri (tcb_of s t)
               then upd_tcb t (\<lambda>b. b\<lparr>priority := pend_newpri b, pend_chgpri := False\<rparr>) s else s);
          s = upd_tcb t (\<lambda>b. b\<lparr>pend_relwai := False\<rparr>) s
      in if \<not> TSTAT_SUSPENDED (tstat (tcb_of s t)) then
           (let s = upd_tcb t (\<lambda>b. b\<lparr>tstat := TS_RUNNABLE\<rparr>) s in make_runnable t s)
         else
           (let s = upd_tcb t (\<lambda>b. b\<lparr>tstat := TS_SUSPENDED\<rparr>) s in (False, s)))"

definition wait_dequeue_wobj :: "tskix \<Rightarrow> kstate \<Rightarrow> kstate" where
  "wait_dequeue_wobj t s =
     (if TSTAT_WAIT_WOBJ (tstat (tcb_of s t)) then on_kq (queue_delete (Ent t)) s else s)"

definition wait_dequeue_tmevtb :: "tskix \<Rightarrow> kstate \<Rightarrow> kstate" where
  "wait_dequeue_tmevtb t s =
     (if tm_callback s (TM_TSK t) \<noteq> None
      then snd (tmevtb_dequeue (p_pcb (tcb_of s t)) (TM_TSK t) s) else s)"

definition set_wercd :: "tskix \<Rightarrow> ercd \<Rightarrow> kstate \<Rightarrow> kstate" where
  "set_wercd t e = upd_tcb t (\<lambda>b. b\<lparr>wercd := e\<rparr>)"

definition wait_complete :: "tskix \<Rightarrow> kstate \<Rightarrow> bool \<times> kstate" where
  "wait_complete t s = make_non_wait t (set_wercd t E_OK (wait_dequeue_tmevtb t s))"

definition wait_release :: "tskix \<Rightarrow> kstate \<Rightarrow> bool \<times> kstate" where
  "wait_release t s =
     (let s = wait_dequeue_wobj t s;
          s = wait_dequeue_tmevtb t s;
          s = set_wercd t E_RLWAI s
      in make_non_wait t s)"

text \<open>
  \<open>wait_tmout\<close> runs in \<open>signal_time\<close> on processor \<open>me\<close>.  For a task that waits for an object
  it gives up the task lock before it takes the object lock: \<open>wait_tmout_1\<close> is the part before
  and returns whether the part \<open>wait_tmout_2\<close> is still to come.
\<close>

definition wait_tmout_end :: "prcix \<Rightarrow> tskix \<Rightarrow> ercd \<Rightarrow> kstate \<Rightarrow> kstate" where
  "wait_tmout_end me t e s =
     (let s = set_wercd t e s;
          (b, s) = make_non_wait t s;
          p = p_pcb (tcb_of s t);
          (d, s) = (if b then dispatch_request me p s else (False, s))
      in if d then upd_pcb p (\<lambda>b. b\<lparr>reqflg := True\<rparr>) s else s)"

definition wait_tmout_1 :: "prcix \<Rightarrow> tskix \<Rightarrow> kstate \<Rightarrow> bool \<times> kstate" where
  "wait_tmout_1 me t s =
     (if TSTAT_WAIT_WOBJ (tstat (tcb_of s t)) then
        (let s = upd_tcb t (\<lambda>b. b\<lparr>pend_relwai := True\<rparr>) s;
             s = set_callback (TM_TSK t) None s
         in (True, s))
      else (False, wait_tmout_end me t E_TMOUT s))"

definition wait_tmout_2 :: "prcix \<Rightarrow> tskix \<Rightarrow> kstate \<Rightarrow> kstate" where
  "wait_tmout_2 me t s =
     (if \<not> pend_relwai (tcb_of s t) then s
      else
        (let s = upd_tcb t (\<lambda>b. b\<lparr>pend_relwai := False\<rparr>) s;
             s = wait_dequeue_wobj t s
         in wait_tmout_end me t E_TMOUT s))"

definition wait_tmout_ok :: "prcix \<Rightarrow> tskix \<Rightarrow> kstate \<Rightarrow> kstate" where
  "wait_tmout_ok me t s = wait_tmout_end me t E_OK s"

section \<open>Wait queues\<close>

text \<open>
  The scan of \<open>queue_insert_tpri\<close>: the first entry of lower priority, or the header.  Reaching
  the header of another queue as if it were a TCB has no result.
\<close>

partial_function (option) tpri_scan ::
  "(tskix \<Rightarrow> nat) \<Rightarrow> kqueue \<Rightarrow> kqnode \<Rightarrow> nat \<Rightarrow> kqnode \<Rightarrow> kqnode option" where
  "tpri_scan prio st p_queue pri p_entry =
     (if p_entry = p_queue then Some p_entry
      else case tcb_at p_entry of
             None \<Rightarrow> None
           | Some u \<Rightarrow> if pri < prio u then Some p_entry
                      else tpri_scan prio st p_queue pri (p_next st p_entry))"

definition queue_insert_tpri :: "kqnode \<Rightarrow> tskix \<Rightarrow> kstate \<Rightarrow> kstate" where
  "queue_insert_tpri p_queue t s =
     (let pri = priority (tcb_of s t);
          p_entry = the (tpri_scan (\<lambda>u. priority (tcb_of s u)) (kq s) p_queue pri
                           (p_next (kq s) p_queue))
      in on_kq (queue_insert_prev p_entry (Ent t)) s)"

definition wait_tskid :: "kqnode \<Rightarrow> kstate \<Rightarrow> ident" where
  "wait_tskid q s =
     (if \<not> queue_empty q (kq s) then
        (case tcb_at (p_next (kq s) q) of Some t \<Rightarrow> TSKID t | None \<Rightarrow> TSK_NONE)
      else TSK_NONE)"

definition wobj_queue_insert :: "cfg \<Rightarrow> wobj \<Rightarrow> tskix \<Rightarrow> kstate \<Rightarrow> kstate" where
  "wobj_queue_insert C w t s =
     (if wobjatr C w AND TA_TPRI \<noteq> 0 then queue_insert_tpri (Hdr (WAITQ w)) t s
      else on_kq (queue_insert_prev (Hdr (WAITQ w)) (Ent t)) s)"

definition set_wobjcb :: "tskix \<Rightarrow> wobj \<Rightarrow> kstate \<Rightarrow> kstate" where
  "set_wobjcb t w = upd_tcb t (\<lambda>b. b\<lparr>p_wobjcb := Some w\<rparr>)"

definition wobj_make_wait :: "cfg \<Rightarrow> wobj \<Rightarrow> tskix \<Rightarrow> kstate \<Rightarrow> kstate" where
  "wobj_make_wait C w t s =
     (let s = make_wait t s;
          s = wobj_queue_insert C w t s
      in set_wobjcb t w s)"

definition wobj_make_wait_tmout :: "cfg \<Rightarrow> wobj \<Rightarrow> tmo \<Rightarrow> tskix \<Rightarrow> kstate \<Rightarrow> kstate" where
  "wobj_make_wait_tmout C w tmout t s =
     (let s = make_wait_tmout tmout (p_pcb (tcb_of s t)) s;
          s = wobj_queue_insert C w t s
      in set_wobjcb t w s)"

definition wobj_change_priority :: "cfg \<Rightarrow> wobj \<Rightarrow> tskix \<Rightarrow> kstate \<Rightarrow> kstate" where
  "wobj_change_priority C w t s =
     (if wobjatr C w AND TA_TPRI \<noteq> 0 then
        (let s = on_kq (queue_delete (Ent t)) s in queue_insert_tpri (Hdr (WAITQ w)) t s)
      else s)"

text \<open>One round of the loop of \<open>init_wait_queue\<close>, and the loop.\<close>

definition init_wait_queue_step :: "prcix \<Rightarrow> kqnode \<Rightarrow> kstate \<Rightarrow> (bool \<times> kstate) option" where
  "init_wait_queue_step me q s =
     (let (e, st) = queue_delete_next q (kq s) in
      case tcb_at e of
        None \<Rightarrow> None
      | Some t \<Rightarrow>
          (let s = on_kq (\<lambda>_. st) s;
               p = p_pcb (tcb_of s t);
               s = wait_dequeue_tmevtb t s;
               s = set_wercd t E_DLT s;
               (b, s) = make_non_wait t s
           in Some (if b then dispatch_request me p s else (False, s))))"

partial_function (option) init_wait_queue_loop ::
  "prcix \<Rightarrow> kqnode \<Rightarrow> bool \<Rightarrow> kstate \<Rightarrow> (bool \<times> kstate) option" where
  "init_wait_queue_loop me q dspreq s =
     (if queue_empty q (kq s) then Some (dspreq, s)
      else case init_wait_queue_step me q s of
             None \<Rightarrow> None
           | Some (d, s) \<Rightarrow> init_wait_queue_loop me q (dspreq \<or> d) s)"

definition init_wait_queue :: "prcix \<Rightarrow> kqnode \<Rightarrow> kstate \<Rightarrow> bool \<times> kstate" where
  "init_wait_queue me q s = the (init_wait_queue_loop me q False s)"

section \<open>Changing the priority of a task (\<open>task.c\<close>)\<close>

definition change_priority :: "cfg \<Rightarrow> tskix \<Rightarrow> nat \<Rightarrow> kstate \<Rightarrow> bool \<times> kstate" where
  "change_priority C t newpri s =
     (let p = p_pcb (tcb_of s t);
          oldpri = priority (tcb_of s t);
          s = upd_tcb t (\<lambda>b. b\<lparr>priority := newpri\<rparr>) s
      in if TSTAT_RUNNABLE (tstat (tcb_of s t)) then
           (let s = on_kq (queue_delete (Ent t)) s;
                s = (if queue_empty (Hdr (RDY p oldpri)) (kq s) then primap_clear p oldpri s else s);
                s = on_kq (queue_insert_prev (Hdr (RDY p newpri)) (Ent t)) s;
                s = primap_set p newpri s
            in if p_schedtsk (pcb_of s p) = Some t then
                 (if oldpri \<le> newpri then
                    (let s = set_schedtsk p (search_schedtsk p s) s
                     in (p_schedtsk (pcb_of s p) \<noteq> Some t \<and> dspflg (pcb_of s p), s))
                  else (False, s))
               else if newpri < priority (tcb_of s (the (p_schedtsk (pcb_of s p)))) then
                 (let s = set_schedtsk p (Some t) s in (dspflg (pcb_of s p), s))
               else (False, s))
         else
           (let s = (if TSTAT_WAIT_WOBJCB (tstat (tcb_of s t))
                     then wobj_change_priority C (the (p_wobjcb (tcb_of s t))) t s else s)
            in (False, s)))"

section \<open>Priority-ordered insertion\<close>

definition tpri_insert :: "('a \<Rightarrow> 'b::linorder) \<Rightarrow> 'a \<Rightarrow> 'a list \<Rightarrow> 'a list" where
  "tpri_insert prio t xs =
     takeWhile (\<lambda>u. prio u \<le> prio t) xs @ t # dropWhile (\<lambda>u. prio u \<le> prio t) xs"

definition entry_of :: "qhdr \<Rightarrow> tskix list \<Rightarrow> kqnode" where
  "entry_of h xs = (case xs of [] \<Rightarrow> Hdr h | x # _ \<Rightarrow> Ent x)"

lemma tpri_scan_returns:
  assumes "qrep st Q" and "Q h = xs @ ys"
  shows "tpri_scan prio st (Hdr h) pri (entry_of h ys) =
    Some (entry_of h (dropWhile (\<lambda>u. prio u \<le> pri) ys))"
  using assms(2)
proof (induction ys arbitrary: xs)
  case Nil
  then show ?case by (simp add: entry_of_def tpri_scan.simps)
next
  case (Cons y ys)
  have "p_next st (Ent y) = entry_of h ys"
    using qrep_next_ent [OF assms(1) Cons.prems] by (simp add: entry_of_def)
  moreover have "tpri_scan prio st (Hdr h) pri (entry_of h ys) =
      Some (entry_of h (dropWhile (\<lambda>u. prio u \<le> pri) ys))"
    by (rule Cons.IH [of "xs @ [y]"]) (use Cons.prems in simp)
  ultimately show ?case
    by (subst tpri_scan.simps) (simp add: entry_of_def)
qed

lemma queue_insert_tpri_eq:
  assumes R: "qrep (kq s) Q" and nq: "\<not> queued Q t"
  shows "\<exists>q. queue_insert_tpri (Hdr h) t s = on_kq q s \<and>
    qrep (q (kq s)) (Q(h := tpri_insert (\<lambda>u. priority (tcb_of s u)) t (Q h)))"
proof -
  let ?prio = "\<lambda>u. priority (tcb_of s u)"
  let ?tw = "takeWhile (\<lambda>u. ?prio u \<le> ?prio t) (Q h)" and ?dw = "dropWhile (\<lambda>u. ?prio u \<le> ?prio t) (Q h)"
  have "p_next (kq s) (Hdr h) = entry_of h (Q h)"
    using qrep_next_hdr [OF R] by (simp add: entry_of_def)
  then have e: "queue_insert_tpri (Hdr h) t s =
      on_kq (queue_insert_prev (entry_of h ?dw) (Ent t)) s"
    using tpri_scan_returns [OF R, of h "[]" "Q h" ?prio "?prio t"]
    by (simp add: queue_insert_tpri_def)
  have "qrep (queue_insert_prev (entry_of h ?dw) (Ent t) (kq s)) (Q(h := tpri_insert ?prio t (Q h)))"
  proof (cases ?dw)
    case Nil
    then have tw: "?tw = Q h"
      using takeWhile_dropWhile_id [of "\<lambda>u. ?prio u \<le> ?prio t" "Q h"] by simp
    show ?thesis
      unfolding tpri_insert_def entry_of_def tw Nil using qrep_insert_prev_hdr [OF R nq, of h] by simp
  next
    case (Cons y ys)
    then have "Q h = ?tw @ y # ys"
      using takeWhile_dropWhile_id [of "\<lambda>u. ?prio u \<le> ?prio t" "Q h"] by simp
    then show ?thesis
      using qrep_insert_prev_ent [OF R nq, of h ?tw y ys] Cons
      by (simp add: tpri_insert_def entry_of_def)
  qed
  then show ?thesis using e by blast
qed

lemma set_tpri_insert [simp]: "set (tpri_insert prio t xs) = insert t (set xs)"
proof -
  have "set (takeWhile P xs) \<union> set (dropWhile P xs) = set xs" for P :: "'a \<Rightarrow> bool"
    by (metis set_append takeWhile_dropWhile_id)
  then show ?thesis by (auto simp: tpri_insert_def)
qed

lemma sorted_tpri_insert:
  "sorted (map prio xs) \<Longrightarrow> sorted (map prio (tpri_insert prio t xs))"
proof (induction xs)
  case Nil
  then show ?case by (simp add: tpri_insert_def)
next
  case (Cons x xs)
  have "set (tpri_insert prio t xs) = insert t (set xs)" by simp
  then show ?case using Cons by (auto simp: tpri_insert_def)
qed

definition wait_insert :: "cfg \<Rightarrow> (tskix \<Rightarrow> nat) \<Rightarrow> wobj \<Rightarrow> tskix \<Rightarrow> tskix list \<Rightarrow> tskix list" where
  "wait_insert C prio w t xs =
     (if wobjatr C w AND TA_TPRI \<noteq> 0 then tpri_insert prio t xs else xs @ [t])"

lemma set_wait_insert [simp]: "set (wait_insert C prio w t xs) = insert t (set xs)"
  by (simp add: wait_insert_def)

lemma wobj_queue_insert_eq:
  assumes R: "qrep (kq s) Q" and nq: "\<not> queued Q t"
  shows "\<exists>q. wobj_queue_insert C w t s = on_kq q s \<and>
    qrep (q (kq s)) (Q(WAITQ w := wait_insert C (\<lambda>u. priority (tcb_of s u)) w t (Q (WAITQ w))))"
  using queue_insert_tpri_eq [OF R nq, of "WAITQ w"] qrep_insert_prev_hdr [OF R nq, of "WAITQ w"]
  unfolding wobj_queue_insert_def wait_insert_def by auto

end
