(* ===== verification/Wait_Inv.thy ===== *)
theory Wait_Inv
  imports Wait
begin

text \<open>
  The invariants of the waiting primitives: \<open>tinv\<close> (time events), \<open>dinv\<close> (no lost dispatch),
  \<open>rinv\<close>, \<open>sinv\<close> and their conjunction \<open>kinv\<close>, and the lemmas with which every service is
  proved to keep them: waking, releasing and blocking a task, deleting a wait queue, changing
  a priority, requesting a dispatch.
\<close>

section \<open>Registered time events\<close>

text \<open>
  \<open>tskinv Y s\<close>: every processor's heap is in order, no block is registered twice, and the block
  of a task outside \<open>Y\<close> is registered exactly when the task waits with a timeout, on the heap
  of its processor and with the callback that belongs to the wait.  \<open>hinv s\<close>: the block of a
  cyclic or alarm handler is registered exactly when the handler is started, on the heap of its
  processor and with its callback.  \<open>tinv\<close> is both.
\<close>

definition registered :: "kstate \<Rightarrow> prcix \<Rightarrow> tmevtb set" where
  "registered s p = fst ` evset (tevt_of s p)"

definition tm_place :: "kstate \<Rightarrow> tskix \<Rightarrow> prcix option" where
  "tm_place s t =
     (if TSTAT_WAITING (tstat (tcb_of s t)) \<and> tm_callback s (TM_TSK t) \<noteq> None
      then Some (p_pcb (tcb_of s t)) else None)"

definition wait_cb :: "tstat \<Rightarrow> cback" where
  "wait_cb ts = (if ts AND TS_WAIT_MASK = TS_WAIT_DLY then CB_wait_tmout_ok else CB_wait_tmout)"

definition cb_ok :: "kstate \<Rightarrow> tskix \<Rightarrow> bool" where
  "cb_ok s t \<longleftrightarrow> (TSTAT_WAITING (tstat (tcb_of s t)) \<longrightarrow>
     tm_callback s (TM_TSK t) = None \<or> tm_callback s (TM_TSK t) = Some (wait_cb (tstat (tcb_of s t))))"

definition tskinv :: "tskix set \<Rightarrow> kstate \<Rightarrow> bool" where
  "tskinv Y s \<longleftrightarrow>
     (\<forall>p. heap_inv (tevt_of s p) (tm_index s)) \<and>
     (\<forall>p q. p \<noteq> q \<longrightarrow> registered s p \<inter> registered s q = {}) \<and>
     (\<forall>t p. t \<notin> Y \<longrightarrow> (TM_TSK t \<in> registered s p \<longleftrightarrow> tm_place s t = Some p)) \<and>
     (\<forall>t. t \<notin> Y \<longrightarrow> cb_ok s t)"

definition hinv :: "kstate \<Rightarrow> bool" where
  "hinv s \<longleftrightarrow>
     (\<forall>i p. TM_CYC i \<in> registered s p \<longleftrightarrow> cycsta (cyccb_of (objs s) i) \<and> cyc_pcb (cyccb_of (objs s) i) = p) \<and>
     (\<forall>i p. TM_ALM i \<in> registered s p \<longleftrightarrow> almsta (almcb_of (objs s) i) \<and> alm_pcb (almcb_of (objs s) i) = p) \<and>
     (\<forall>i. cycsta (cyccb_of (objs s) i) \<longrightarrow> tm_callback s (TM_CYC i) = Some CB_call_cychdr) \<and>
     (\<forall>i. almsta (almcb_of (objs s) i) \<longrightarrow> tm_callback s (TM_ALM i) = Some CB_call_almhdr)"

definition tinv :: "tskix set \<Rightarrow> kstate \<Rightarrow> bool" where
  "tinv Y s \<longleftrightarrow> tskinv Y s \<and> hinv s"

lemma tskinvD:
  assumes "tskinv Y s"
  shows "heap_inv (tevt_of s p) (tm_index s)"
    and "p \<noteq> q \<Longrightarrow> registered s p \<inter> registered s q = {}"
    and "t \<notin> Y \<Longrightarrow> TM_TSK t \<in> registered s p \<longleftrightarrow> tm_place s t = Some p"
    and "t \<notin> Y \<Longrightarrow> cb_ok s t"
  using assms unfolding tskinv_def by blast+

lemma tinvD:
  assumes "tinv Y s"
  shows "heap_inv (tevt_of s p) (tm_index s)"
    and "p \<noteq> q \<Longrightarrow> registered s p \<inter> registered s q = {}"
    and "t \<notin> Y \<Longrightarrow> TM_TSK t \<in> registered s p \<longleftrightarrow> tm_place s t = Some p"
    and "t \<notin> Y \<Longrightarrow> cb_ok s t" and "tskinv Y s" and "hinv s"
  using assms unfolding tinv_def tskinv_def by blast+

text \<open>What \<open>hinv\<close> reads.\<close>

definition same_handlers :: "kstate \<Rightarrow> kstate \<Rightarrow> bool" where
  "same_handlers s s' \<longleftrightarrow> cyccb_of (objs s') = cyccb_of (objs s) \<and> almcb_of (objs s') = almcb_of (objs s) \<and>
     (\<forall>i. tm_callback s' (TM_CYC i) = tm_callback s (TM_CYC i)) \<and>
     (\<forall>i. tm_callback s' (TM_ALM i) = tm_callback s (TM_ALM i))"

lemma hinv_frame:
  assumes "hinv s" and "same_handlers s s'"
    and "\<And>p b. (\<And>t. b \<noteq> TM_TSK t) \<Longrightarrow> b \<in> registered s' p \<longleftrightarrow> b \<in> registered s p"
  shows "hinv s'"
  using assms unfolding hinv_def same_handlers_def by simp

lemma heap_inv_frame:
  assumes "heap_inv te ix" and "\<And>b. b \<in> fst ` evset te \<Longrightarrow> ix' b = ix b"
  shows "heap_inv te ix'"
proof -
  have "p_tmevtb (TMEVT_NODE te i) \<in> fst ` evset te" if "i \<in> {1..last_index te}" for i
    using that by (force simp: evset_def evnode_def)
  then show ?thesis using assms by (simp add: heap_inv_def)
qed

lemma tskinv_enqueue:
  assumes T: "tskinv Y s" and b: "\<And>q. b \<notin> registered s q"
    and te: "tmevtb_insert b tm (tevt_of s p, tm_index s) = (te, ix)"
    and s': "s' = s\<lparr>tevt_of := (tevt_of s)(p := te), tm_index := ix, tm_callback := cbs\<rparr>"
    and cbs: "\<And>c. c \<noteq> b \<Longrightarrow> cbs c = tm_callback s c"
    and pl: "\<And>t. b = TM_TSK t \<Longrightarrow> tm_place s' t = Some p \<and> cb_ok s' t \<or> t \<in> Z"
    and Z: "\<And>t. t \<in> Y \<Longrightarrow> b \<noteq> TM_TSK t \<Longrightarrow> t \<in> Z"
  shows "tskinv Z s'" and "registered s' q = (if q = p then insert b (registered s p) else registered s q)"
proof -
  note D = tskinvD [OF T]
  have bn: "b \<notin> fst ` evset (tevt_of s p)" using b [of p] by (simp add: registered_def)
  note I = tmevtb_insert_correct [OF D(1) bn te]
  have rg: "registered s' q = (if q = p then insert b (registered s p) else registered s q)" for q
    using I s' by (simp add: registered_def)
  then show "registered s' q = (if q = p then insert b (registered s p) else registered s q)" .
  have hi: "heap_inv (tevt_of s' q) (tm_index s')" for q
  proof (cases "q = p")
    case True
    then show ?thesis using I s' by simp
  next
    case False
    have "ix c = tm_index s c" if "c \<in> fst ` evset (tevt_of s q)" for c
    proof -
      have "c \<notin> registered s p" "c \<noteq> b" using that D(2) [OF False] b [of q] by (auto simp: registered_def)
      then show ?thesis using I by (simp add: heap_frame_def registered_def)
    qed
    then show ?thesis using heap_inv_frame [OF D(1), of q ix] s' False by simp
  qed
  have pl': "tm_place s' t = tm_place s t" if "b \<noteq> TM_TSK t" for t
    using cbs that s' by (auto simp: tm_place_def)
  have un: "TM_TSK t \<in> registered s' q \<longleftrightarrow> tm_place s' t = Some q" if "t \<notin> Z" for t q
  proof (cases "b = TM_TSK t")
    case True
    then show ?thesis using pl that rg [of q] b [of q] by auto
  next
    case False
    then show ?thesis using D(3) [of t q] Z [of t] that rg [of q] pl' by auto
  qed
  have "cb_ok s' t" if "t \<notin> Z" for t
  proof (cases "b = TM_TSK t")
    case True
    then show ?thesis using pl that by blast
  next
    case False
    then have "cb_ok s t" using D(4) [of t] Z [of t] that by blast
    then show ?thesis using cbs [of "TM_TSK t"] False s' by (auto simp: cb_ok_def)
  qed
  then show "tskinv Z s'" unfolding tskinv_def using hi un rg D(2) b by auto
qed

lemma tinv_enqueue:
  assumes T: "tinv Y s" and b: "\<And>q. TM_TSK u \<notin> registered s q"
    and te: "tmevtb_insert (TM_TSK u) tm (tevt_of s p, tm_index s) = (te, ix)"
    and s': "s' = s\<lparr>tevt_of := (tevt_of s)(p := te), tm_index := ix, tm_callback := cbs\<rparr>"
    and cbs: "\<And>c. c \<noteq> TM_TSK u \<Longrightarrow> cbs c = tm_callback s c"
    and pl: "tm_place s' u = Some p \<and> cb_ok s' u \<or> u \<in> Z" and Z: "\<And>t. t \<in> Y \<Longrightarrow> u \<noteq> t \<Longrightarrow> t \<in> Z"
  shows "tinv Z s'" and "registered s' q = (if q = p then insert (TM_TSK u) (registered s p) else registered s q)"
proof -
  note E = tskinv_enqueue [OF tinvD(5) [OF T] b te s' cbs, where Z = Z]
  have E: "tskinv Z s'" "registered s' q = (if q = p then insert (TM_TSK u) (registered s p) else registered s q)" for q
    using E pl Z by auto
  then show "registered s' q = (if q = p then insert (TM_TSK u) (registered s p) else registered s q)" by blast
  have "hinv s'"
  proof (rule hinv_frame [OF tinvD(6) [OF T]])
    show "same_handlers s s'" by (simp add: same_handlers_def s' cbs)
    show "b \<in> registered s' q \<longleftrightarrow> b \<in> registered s q" if "\<And>t. b \<noteq> TM_TSK t" for q b
      using that by (simp add: E(2))
  qed
  then show "tinv Z s'" using E(1) by (simp add: tinv_def)
qed


lemma tskinv_removed:
  assumes T: "tskinv Y s" and tm: "(b, tm) \<in> evset (tevt_of s p)"
    and I: "heap_inv te ix" "evset te = evset (tevt_of s p) - {(b, tm)}"
      "heap_frame (evset (tevt_of s p)) (tm_index s) ix"
    and s': "s' = s\<lparr>tevt_of := (tevt_of s)(p := te), tm_index := ix\<rparr>"
    and Z: "\<And>t. t \<in> Y \<Longrightarrow> t \<in> Z" "\<And>t. b = TM_TSK t \<Longrightarrow> t \<in> Z"
  shows "tskinv Z s'" and "registered s' q = registered s q - {b}"
proof -
  note D = tskinvD [OF T]
  have b: "b \<in> registered s p" using tm by (force simp: registered_def)
  have u: "t = tm" if "(b, t) \<in> evset (tevt_of s p)" for t
    using heap_inv_evset [OF D(1) [of p], of b t] heap_inv_evset [OF D(1) [of p], of b tm] that tm by simp
  have "b \<notin> fst ` evset te" using I(2) u by auto
  then have rp: "fst ` evset te = registered s p - {b}"
    using I(2) by (force simp: registered_def)
  have rg: "registered s' q = registered s q - {b}" for q
    using rp s' D(2) [of q p] b by (auto simp: registered_def)
  then show "registered s' q = registered s q - {b}" .
  have hi: "heap_inv (tevt_of s' q) (tm_index s')" for q
  proof (cases "q = p")
    case True
    then show ?thesis using I(1) s' by simp
  next
    case False
    have "ix c = tm_index s c" if "c \<in> fst ` evset (tevt_of s q)" for c
    proof -
      have "c \<notin> registered s p" using that D(2) [OF False] by (auto simp: registered_def)
      then show ?thesis using I(3) by (simp add: heap_frame_def registered_def)
    qed
    then show ?thesis using heap_inv_frame [OF D(1), of q ix] s' False by simp
  qed
  have pl': "tm_place s' t = tm_place s t" for t using s' by (simp add: tm_place_def)
  have "TM_TSK t \<in> registered s' q \<longleftrightarrow> tm_place s' t = Some q" if "t \<notin> Z" for t q
    using D(3) [of t q] Z [of t] that rg [of q] pl' by auto
  moreover have "registered s' p' \<inter> registered s' q' = {}" if "p' \<noteq> q'" for p' q'
    using D(2) [OF that] rg by blast
  moreover have "cb_ok s' t" if "t \<notin> Z" for t
    using D(4) [of t] Z [of t] that s' by (auto simp: cb_ok_def)
  ultimately show "tskinv Z s'" unfolding tskinv_def using hi by blast
qed

lemma tskinv_dequeue:
  assumes T: "tskinv Y s" and b: "b \<in> registered s p"
    and eq: "tmevtb_dequeue p b s = (left, s')"
    and Z: "\<And>t. t \<in> Y \<Longrightarrow> t \<in> Z" "\<And>t. b = TM_TSK t \<Longrightarrow> t \<in> Z"
  shows "tskinv Z s'" and "registered s' q = registered s q - {b}"
    and "s' = s\<lparr>tevt_of := tevt_of s', tm_index := tm_index s'\<rparr>"
proof -
  obtain tm where tm: "(b, tm) \<in> evset (tevt_of s p)" using b by (force simp: registered_def)
  obtain l te ix where te: "tmevtb_delete b (tevt_of s p, tm_index s) = (l, te, ix)"
    by (metis prod_cases3)
  have s': "s' = s\<lparr>tevt_of := (tevt_of s)(p := te), tm_index := ix\<rparr>"
    using eq te by (simp add: tmevtb_dequeue_def)
  then show "s' = s\<lparr>tevt_of := tevt_of s', tm_index := tm_index s'\<rparr>" by simp
  have I: "heap_inv te ix" "evset te = evset (tevt_of s p) - {(b, tm)}"
    "heap_frame (evset (tevt_of s p)) (tm_index s) ix"
    using tmevtb_delete_correct [OF tskinvD(1) [OF T] tm te] by simp_all
  show "tskinv Z s'" by (rule tskinv_removed(1) [OF T tm I s' Z])
  show "registered s' q = registered s q - {b}" by (rule tskinv_removed(2) [OF T tm I s' Z])
qed

lemma tinv_dequeue:
  assumes T: "tinv Y s" and b: "TM_TSK u \<in> registered s p"
    and eq: "tmevtb_dequeue p (TM_TSK u) s = (left, s')" and Z: "\<And>t. t \<in> Y \<Longrightarrow> t \<in> Z" "u \<in> Z"
  shows "tinv Z s'" and "registered s' q = registered s q - {TM_TSK u}"
    and "s' = s\<lparr>tevt_of := tevt_of s', tm_index := tm_index s'\<rparr>"
proof -
  have E: "tskinv Z s'" "registered s' q = registered s q - {TM_TSK u}"
    "s' = s\<lparr>tevt_of := tevt_of s', tm_index := tm_index s'\<rparr>" for q
    using tskinv_dequeue [OF tinvD(5) [OF T] b eq, where Z = Z] Z by blast+
  show "registered s' q = registered s q - {TM_TSK u}" by (rule E)
  show s': "s' = s\<lparr>tevt_of := tevt_of s', tm_index := tm_index s'\<rparr>" by (rule E)
  obtain te ix where t: "s' = s\<lparr>tevt_of := te, tm_index := ix\<rparr>" using s' by blast
  have "hinv s'"
    by (rule hinv_frame [OF tinvD(6) [OF T]]) (use E(2) in \<open>auto simp: same_handlers_def t\<close>)
  then show "tinv Z s'" using E(1) by (simp add: tinv_def)
qed


section \<open>Frames\<close>

text \<open>
  \<open>core_frame\<close>: everything but the task control blocks, the queues, the time events and the
  ready-queue part of the processors is unchanged.
\<close>

definition core_frame :: "kstate \<Rightarrow> kstate \<Rightarrow> bool" where
  "core_frame s s' \<longleftrightarrow> ipi s' = ipi s \<and> objs s' = objs s \<and>
     (\<forall>p. (pcb_of s' p)\<lparr>ready_primap := 0, p_schedtsk := None\<rparr> =
          (pcb_of s p)\<lparr>ready_primap := 0, p_schedtsk := None\<rparr>)"

lemma core_frameD:
  assumes "core_frame s s'"
  shows "ipi s' = ipi s" "objs s' = objs s"
    "p_runtsk (pcb_of s' p) = p_runtsk (pcb_of s p)" "reqflg (pcb_of s' p) = reqflg (pcb_of s p)"
    "dspflg (pcb_of s' p) = dspflg (pcb_of s p)"
    "excpt_nest_count (pcb_of s' p) = excpt_nest_count (pcb_of s p)"
    "lock_flag (pcb_of s' p) = lock_flag (pcb_of s p)" "kerflg (pcb_of s' p) = kerflg (pcb_of s p)"
proof -
  have b: "(pcb_of s' p)\<lparr>ready_primap := 0, p_schedtsk := None\<rparr> =
      (pcb_of s p)\<lparr>ready_primap := 0, p_schedtsk := None\<rparr>"
    using assms by (simp add: core_frame_def)
  show "ipi s' = ipi s" "objs s' = objs s" using assms by (simp_all add: core_frame_def)
  show "p_runtsk (pcb_of s' p) = p_runtsk (pcb_of s p)"
    "reqflg (pcb_of s' p) = reqflg (pcb_of s p)" "dspflg (pcb_of s' p) = dspflg (pcb_of s p)"
    "excpt_nest_count (pcb_of s' p) = excpt_nest_count (pcb_of s p)"
    "lock_flag (pcb_of s' p) = lock_flag (pcb_of s p)" "kerflg (pcb_of s' p) = kerflg (pcb_of s p)"
    using arg_cong [OF b, of p_runtsk] arg_cong [OF b, of reqflg] arg_cong [OF b, of dspflg]
      arg_cong [OF b, of excpt_nest_count] arg_cong [OF b, of lock_flag]
      arg_cong [OF b, of kerflg]
    by simp_all
qed

lemma core_frame_refl [simp]: "core_frame s s"
  by (simp add: core_frame_def)

lemma core_frame_trans: "core_frame a b \<Longrightarrow> core_frame b c \<Longrightarrow> core_frame a c"
  by (simp add: core_frame_def)

lemma sched_core_frame:
  assumes "sched_frame s s'"
  shows "core_frame s s'"
  unfolding core_frame_def
  using sched_frameD(5,6) [OF assms] assms [unfolded sched_frame_def] by blast

lemma core_frame_steps [simp]:
  "core_frame s a \<Longrightarrow> core_frame s (upd_tcb t f a)"
  "core_frame s a \<Longrightarrow> core_frame s (on_kq g a)"
  "core_frame s a \<Longrightarrow> core_frame s (set_callback b c a)"
  "core_frame s a \<Longrightarrow> core_frame s (set_wercd t e a)"
  "core_frame s a \<Longrightarrow> core_frame s (set_wobjcb t w a)"
  by (simp_all add: core_frame_def upd_tcb_def on_kq_def set_callback_def set_wercd_def set_wobjcb_def)

lemma dinv_core_change:
  assumes "dinv P s" and "core_frame s s'" and "sched_change p b s s'"
  shows "dinv (if b then insert p P else P) s'"
  unfolding dinv_def
proof (intro allI impI)
  fix q
  assume q: "q \<notin> (if b then insert p P else P)" "kerflg (pcb_of s' q)" "dspflg (pcb_of s' q)"
    "p_runtsk (pcb_of s' q) \<noteq> p_schedtsk (pcb_of s' q)"
  note fr = core_frameD [OF assms(2)]
  have "p_schedtsk (pcb_of s' q) = p_schedtsk (pcb_of s q)"
    using assms(3) q fr by (cases "q = p") (auto simp: sched_change_def)
  then show "reqflg (pcb_of s' q) \<or> ipi s' q"
    using assms(1) q fr by (auto simp: dinv_def split: if_splits)
qed

lemma dinv_weaken: "dinv P s \<Longrightarrow> P \<subseteq> P' \<Longrightarrow> dinv P' s"
  by (auto simp: dinv_def)

lemma qinv_weaken: "qinv X Q s \<Longrightarrow> X \<subseteq> X' \<Longrightarrow> qinv X' Q s"
  unfolding qinv_def by blast

lemma qinv_frame:
  assumes "qinv X Q s" and "kq s' = kq s" and "tcb_of s' = tcb_of s"
    and "\<And>p. ready_primap (pcb_of s' p) = ready_primap (pcb_of s p)"
    and "\<And>p. p_schedtsk (pcb_of s' p) = p_schedtsk (pcb_of s p)"
  shows "qinv X Q s'"
  using assms by (simp add: qinv_def)

lemma tinv_weaken: "tinv Y s \<Longrightarrow> Y \<subseteq> Y' \<Longrightarrow> tinv Y' s"
  unfolding tinv_def tskinv_def by blast

lemma tinv_frame:
  assumes "tinv Y s" and "tevt_of s' = tevt_of s" and "tm_index s' = tm_index s"
    and "\<And>t. t \<notin> Y \<Longrightarrow> tm_place s' t = tm_place s t" and "\<And>t. t \<notin> Y \<Longrightarrow> cb_ok s t \<Longrightarrow> cb_ok s' t"
    and "same_handlers s s'"
  shows "tinv Y s'"
proof -
  have "registered s' p = registered s p" for p using assms(2) by (simp add: registered_def)
  then show ?thesis
    using assms hinv_frame [of s s'] by (simp add: tinv_def tskinv_def)
qed

text \<open>Changing a task in transit, and its arrival where its control block says.\<close>

lemma qinv_upd_tcb_nr:
  assumes Q: "qinv X Q s" and t: "t \<in> X"
    and f: "p_pcb (f (tcb_of s t)) = p_pcb (tcb_of s t) \<or> (\<forall>p i. t \<notin> set (Q (RDY p i)))"
    and pr: "priority (f (tcb_of s t)) = priority (tcb_of s t) \<or>
      (\<forall>p i. t \<notin> set (Q (RDY p i))) \<and> priority (f (tcb_of s t)) < 16"
  shows "qinv X Q (upd_tcb t f s)"
proof -
  note D = qinvD [OF Q]
  have rd: "p = p_pcb (tcb_of (upd_tcb t f s) u) \<and> i = priority (tcb_of (upd_tcb t f s) u)"
    if "u \<in> set (Q (RDY p i))" for u p i
    using D(5) [OF that] f pr that by (cases "u = t") auto
  have pl: "priority (tcb_of (upd_tcb t f s) u) < 16" for u
    using D(2) [of u] pr D(2) [of t] by auto
  have ot: "tcb_of (upd_tcb t f s) u = tcb_of s u" if "u \<notin> X" for u using that t by auto
  show ?thesis
    unfolding qinv_def using D(1,3,4,6,7) rd pl ot by auto
qed

lemma qinv_upd_tcb:
  assumes "qinv X Q s" and "t \<in> X" and "p_pcb (f (tcb_of s t)) = p_pcb (tcb_of s t)"
    and "priority (f (tcb_of s t)) = priority (tcb_of s t) \<or>
      \<not> queued Q t \<and> priority (f (tcb_of s t)) < 16"
  shows "qinv X Q (upd_tcb t f s)"
  by (rule qinv_upd_tcb_nr [OF assms(1,2)]) (use assms(3,4) in \<open>auto simp: queued_def\<close>)

lemma qinv_arrive:
  assumes "qinv X Q s" and "wf_tcb (tcb_of s t)"
    and "\<And>h. t \<in> set (Q h) \<longleftrightarrow> place (tcb_of s t) = Some h"
  shows "qinv (X - {t}) Q s"
  using assms unfolding qinv_def by blast

lemma qinv_unlink:
  assumes Q: "qinv X Q s" and t: "t \<in> set (Q h)" and h: "\<And>p i. h \<noteq> RDY p i"
  shows "qinv (insert t X) (Q(h := remove1 t (Q h))) (on_kq (queue_delete (Ent t)) s)"
    and "\<not> queued (Q(h := remove1 t (Q h))) t"
proof -
  note D = qinvD [OF Q]
  show "\<not> queued (Q(h := remove1 t (Q h))) t" by (rule ring.not_queued_unlink [OF D(1) t])
  have R: "qrep (kq (on_kq (queue_delete (Ent t)) s)) (Q(h := remove1 t (Q h)))"
    using qrep_delete [OF D(1) t] by simp
  have rdy: "(Q(h := remove1 t (Q h))) (RDY p i) = Q (RDY p i)" for p i using h by auto
  have "top_task (Q(h := remove1 t (Q h))) p = top_task Q p" for p
    by (rule top_task_cong) (rule rdy)
  moreover have "u \<in> set ((Q(h := remove1 t (Q h))) k) \<longleftrightarrow> u \<in> set (Q k)" if "u \<noteq> t" for u k
    using that by auto
  ultimately show "qinv (insert t X) (Q(h := remove1 t (Q h))) (on_kq (queue_delete (Ent t)) s)"
    using R D unfolding qinv_def by (auto simp: h h [symmetric])
qed

text \<open>Linking a task in transit into a wait queue, in any position.\<close>

lemma qinv_link:
  assumes Q: "qinv X Q s" and R: "qrep (q (kq s)) (Q(h := l))" and l: "set l = insert t (set (Q h))"
    and t: "t \<in> X" and h: "\<And>p i. h \<noteq> RDY p i"
  shows "qinv X (Q(h := l)) (on_kq q s)"
proof -
  note D = qinvD [OF Q]
  have rdy: "(Q(h := l)) (RDY p i) = Q (RDY p i)" for p i using h by auto
  have "top_task (Q(h := l)) p = top_task Q p" for p
    by (rule top_task_cong) (rule rdy)
  moreover have "u \<in> set ((Q(h := l)) k) \<longleftrightarrow> u \<in> set (Q k)" if "u \<notin> X" for u k
    using that l t by auto
  ultimately show ?thesis using R D unfolding qinv_def by (auto simp: h h [symmetric])
qed

section \<open>Leaving the waiting state keeps the invariants\<close>

definition released_tcb :: "tcb \<Rightarrow> tcb" where
  "released_tcb tc = tc\<lparr>
     tstat := (if TSTAT_SUSPENDED (tstat tc) then TS_SUSPENDED else TS_RUNNABLE),
     priority := (if pend_chgpri tc then pend_newpri tc else priority tc),
     pend_chgpri := False, pend_relwai := False\<rparr>"

lemma tstat_runnable [simp]:
  "TSTAT_RUNNABLE TS_RUNNABLE" "\<not> TSTAT_WAITING TS_RUNNABLE" "\<not> TSTAT_SUSPENDED TS_RUNNABLE"
  "\<not> TSTAT_WAIT_WOBJ TS_RUNNABLE" "\<not> TSTAT_WAIT_WOBJCB TS_RUNNABLE" "\<not> TSTAT_WAIT_SLP TS_RUNNABLE"
  "TS_RUNNABLE \<in> set wf_tstats" "\<not> TSTAT_DORMANT TS_RUNNABLE"
  by (simp_all add: tstat_macros tstat_consts wf_tstats_def)

lemma tstat_suspended [simp]:
  "\<not> TSTAT_RUNNABLE TS_SUSPENDED" "\<not> TSTAT_WAITING TS_SUSPENDED" "TSTAT_SUSPENDED TS_SUSPENDED"
  "\<not> TSTAT_WAIT_WOBJ TS_SUSPENDED" "\<not> TSTAT_WAIT_WOBJCB TS_SUSPENDED"
  "\<not> TSTAT_WAIT_SLP TS_SUSPENDED" "TS_SUSPENDED \<in> set wf_tstats" "\<not> TSTAT_DORMANT TS_SUSPENDED"
  by (simp_all add: tstat_macros tstat_consts wf_tstats_def)

lemma tstat_dormant [simp]:
  "\<not> TSTAT_RUNNABLE TS_DORMANT" "\<not> TSTAT_WAITING TS_DORMANT" "\<not> TSTAT_SUSPENDED TS_DORMANT"
  "\<not> TSTAT_WAIT_WOBJ TS_DORMANT" "\<not> TSTAT_WAIT_WOBJCB TS_DORMANT" "\<not> TSTAT_WAIT_SLP TS_DORMANT"
  "TS_DORMANT \<in> set wf_tstats" "TSTAT_DORMANT TS_DORMANT"
  by (simp_all add: tstat_macros tstat_consts wf_tstats_def)

lemma upd_tcb_upd: "upd_tcb t g (upd_tcb t f s) = upd_tcb t (\<lambda>b. g (f b)) s"
  by (simp add: upd_tcb_def)

lemma upd_tcb_cong: "f (tcb_of s t) = g (tcb_of s t) \<Longrightarrow> upd_tcb t f s = upd_tcb t g s"
  by (simp add: upd_tcb_def)

lemma make_non_wait_eq:
  "make_non_wait t s =
    (if TSTAT_SUSPENDED (tstat (tcb_of s t)) then (False, upd_tcb t released_tcb s)
     else make_runnable t (upd_tcb t released_tcb s))"
proof -
  let ?f = "\<lambda>b. if pend_chgpri b then b\<lparr>priority := pend_newpri b, pend_chgpri := False\<rparr> else b"
  have 1: "(if pend_chgpri (tcb_of s t)
       then upd_tcb t (\<lambda>b. b\<lparr>priority := pend_newpri b, pend_chgpri := False\<rparr>) s else s) = upd_tcb t ?f s"
    by (auto simp: upd_tcb_def)
  have 2: "upd_tcb t (\<lambda>b. (?f b)\<lparr>pend_relwai := False, tstat := TS_RUNNABLE\<rparr>) s = upd_tcb t released_tcb s"
    if "\<not> TSTAT_SUSPENDED (tstat (tcb_of s t))"
    by (rule upd_tcb_cong) (use that in \<open>cases "tcb_of s t"; simp add: released_tcb_def\<close>)
  have 3: "upd_tcb t (\<lambda>b. (?f b)\<lparr>pend_relwai := False, tstat := TS_SUSPENDED\<rparr>) s = upd_tcb t released_tcb s"
    if "TSTAT_SUSPENDED (tstat (tcb_of s t))"
    by (rule upd_tcb_cong) (use that in \<open>cases "tcb_of s t"; simp add: released_tcb_def\<close>)
  show ?thesis
    unfolding make_non_wait_def 1 Let_def upd_tcb_upd using 2 3 by simp
qed

lemma make_non_wait_inv:
  assumes Q: "qinv X Q s" and t: "t \<in> X" and nq: "\<not> queued Q t"
    and wf: "wf_tcb (tcb_of s t)"
    and eq: "make_non_wait t s = (b, s')"
  defines "tc \<equiv> released_tcb (tcb_of s t)"
  defines "h \<equiv> RDY (p_pcb tc) (priority tc)"
  shows "qinv (X - {t}) (if TSTAT_SUSPENDED (tstat (tcb_of s t)) then Q else Q(h := Q h @ [t])) s'"
    and "sched_change (p_pcb (tcb_of s t)) b s s'"
    and "core_frame s s'" and "tcb_of s' = (tcb_of s)(t := tc)"
    and "tevt_of s' = tevt_of s" "tm_index s' = tm_index s" "tm_callback s' = tm_callback s"
proof -
  let ?s = "upd_tcb t released_tcb s"
  have wf': "wf_tcb tc"
    using wf by (auto simp: wf_tcb_def tc_def released_tcb_def)
  note s1 = make_non_wait_eq [of t s]
  have Q1: "qinv X Q ?s"
    by (rule qinv_upd_tcb [OF Q t]) (use nq wf' in \<open>auto simp: released_tcb_def tc_def wf_tcb_def\<close>)
  have pp: "p_pcb tc = p_pcb (tcb_of s t)" by (simp add: tc_def released_tcb_def)
  have "qinv (X - {t}) (if TSTAT_SUSPENDED (tstat (tcb_of s t)) then Q else Q(h := Q h @ [t])) s' \<and>
    sched_change (p_pcb (tcb_of s t)) b s s' \<and> core_frame s s' \<and> tcb_of s' = (tcb_of s)(t := tc) \<and>
    tevt_of s' = tevt_of s \<and> tm_index s' = tm_index s \<and> tm_callback s' = tm_callback s"
  proof (cases "TSTAT_SUSPENDED (tstat (tcb_of s t))")
    case True
    then have r: "b = False" "s' = ?s" using eq s1 by auto
    have "place tc = None" using True by (simp add: place_def tc_def released_tcb_def)
    then have "qinv (X - {t}) Q ?s"
      by (intro qinv_arrive [OF Q1]) (use nq wf' in \<open>auto simp: tc_def queued_def\<close>)
    then show ?thesis using r True by (simp add: sched_change_def tc_def)
  next
    case False
    then have mr: "make_runnable t ?s = (b, s')" using eq s1 by simp
    have run: "TSTAT_RUNNABLE (tstat (tcb_of ?s t))"
      using False by (simp add: released_tcb_def)
    have wft: "wf_tcb (tcb_of ?s t)" using wf' by (simp add: tc_def)
    note I = make_runnable_inv [OF Q1 nq wft run mr]
    note F = make_runnable_frame [OF mr]
    have "core_frame s s'"
      using core_frame_trans [OF _ sched_core_frame [OF F], of s] by simp
    moreover have "sched_change (p_pcb (tcb_of s t)) b s s'"
      using I(2) pp by (simp add: sched_change_def tc_def)
    ultimately show ?thesis
      using I(1) False sched_frameD(1-4) [OF F] by (simp add: h_def tc_def)
  qed
  then show "qinv (X - {t}) (if TSTAT_SUSPENDED (tstat (tcb_of s t)) then Q else Q(h := Q h @ [t])) s'"
    "sched_change (p_pcb (tcb_of s t)) b s s'" "core_frame s s'" "tcb_of s' = (tcb_of s)(t := tc)"
    "tevt_of s' = tevt_of s" "tm_index s' = tm_index s" "tm_callback s' = tm_callback s"
    by blast+
qed

lemma wf_tcb_cong:
  "tstat tc' = tstat tc \<Longrightarrow> priority tc' = priority tc \<Longrightarrow> p_wobjcb tc' = p_wobjcb tc \<Longrightarrow>
   pend_relwai tc' = pend_relwai tc \<Longrightarrow> pend_chgpri tc' = pend_chgpri tc \<Longrightarrow>
   pend_newpri tc' = pend_newpri tc \<Longrightarrow> actprc tc' = actprc tc \<Longrightarrow> wf_tcb tc' = wf_tcb tc"
  by (simp add: wf_tcb_def split: option.split)

lemma wf_tcb_other [simp]:
  "wf_tcb (tc\<lparr>wercd := e\<rparr>) = wf_tcb tc" "wf_tcb (tc\<lparr>winfo_obj := i\<rparr>) = wf_tcb tc"
  "wf_tcb (tc\<lparr>wupque := b\<rparr>) = wf_tcb tc" "wf_tcb (tc\<lparr>actque := b\<rparr>) = wf_tcb tc"
  "wf_tcb (tc\<lparr>p_pcb := p\<rparr>) = wf_tcb tc"
  "wf_tcb (tc\<lparr>enatex := b\<rparr>) = wf_tcb tc" "wf_tcb (tc\<lparr>texptn := x\<rparr>) = wf_tcb tc"
  by (rule wf_tcb_cong; simp)+

lemma place_other [simp]:
  "place (tc\<lparr>wercd := e\<rparr>) = place tc" "place (tc\<lparr>winfo_obj := i\<rparr>) = place tc"
  "place (tc\<lparr>wupque := b\<rparr>) = place tc" "place (tc\<lparr>actque := b\<rparr>) = place tc"
  "place (tc\<lparr>actprc := a\<rparr>) = place tc" "place (tc\<lparr>enatex := b\<rparr>) = place tc"
  "place (tc\<lparr>texptn := x\<rparr>) = place tc" "place (tc\<lparr>pend_relwai := b\<rparr>) = place tc"
  "place (tc\<lparr>pend_chgpri := b\<rparr>) = place tc" "place (tc\<lparr>pend_newpri := n\<rparr>) = place tc"
  by (simp_all add: place_def)

definition end_wait :: "tskix \<Rightarrow> ercd \<Rightarrow> kstate \<Rightarrow> bool \<times> kstate" where
  "end_wait t e s = make_non_wait t (set_wercd t e (wait_dequeue_tmevtb t s))"

lemma wait_complete_end_wait: "wait_complete t s = end_wait t E_OK s"
  by (simp add: wait_complete_def end_wait_def)

lemma wait_release_end_wait: "wait_release t s = end_wait t E_RLWAI (wait_dequeue_wobj t s)"
  by (simp add: wait_release_def end_wait_def Let_def)

lemma wait_dequeue_tmevtb_inv:
  assumes T: "tinv {} s" and w: "TSTAT_WAITING (tstat (tcb_of s t))"
  defines "s1 \<equiv> wait_dequeue_tmevtb t s"
  shows "tinv {t} s1" and "TM_TSK t \<notin> registered s1 p"
    and "s1 = s\<lparr>tevt_of := tevt_of s1, tm_index := tm_index s1\<rparr>"
proof -
  have "tinv {t} s1 \<and> (\<forall>p. TM_TSK t \<notin> registered s1 p) \<and>
    s1 = s\<lparr>tevt_of := tevt_of s1, tm_index := tm_index s1\<rparr>"
  proof (cases "tm_callback s (TM_TSK t) = None")
    case True
    then have "s1 = s" by (simp add: s1_def wait_dequeue_tmevtb_def)
    moreover have "TM_TSK t \<notin> registered s p" for p
      using tinvD(3) [OF T, of t p] True by (simp add: tm_place_def)
    ultimately show ?thesis using tinv_weaken [OF T] by simp
  next
    case False
    let ?p = "p_pcb (tcb_of s t)"
    have pl: "tm_place s t = Some ?p" using False w by (simp add: tm_place_def)
    then have r: "TM_TSK t \<in> registered s ?p" using tinvD(3) [OF T, of t] by simp
    obtain left s2 where d: "tmevtb_dequeue ?p (TM_TSK t) s = (left, s2)" by fastforce
    have s1: "s1 = s2" using False d by (simp add: s1_def wait_dequeue_tmevtb_def)
    note D = tinv_dequeue [OF T r d, of "{t}", simplified]
    show ?thesis unfolding s1 using D by auto
  qed
  then show "tinv {t} s1" "TM_TSK t \<notin> registered s1 p"
    "s1 = s\<lparr>tevt_of := tevt_of s1, tm_index := tm_index s1\<rparr>" by blast+
qed

definition ended_tcb :: "ercd \<Rightarrow> tcb \<Rightarrow> tcb" where
  "ended_tcb e tc = released_tcb (tc\<lparr>wercd := e\<rparr>)"

definition ready_after :: "kstate \<Rightarrow> tskix \<Rightarrow> (qhdr \<Rightarrow> tskix list) \<Rightarrow> qhdr \<Rightarrow> tskix list" where
  "ready_after s t Q =
     (if TSTAT_SUSPENDED (tstat (tcb_of s t)) then Q
      else (let h = RDY (p_pcb (tcb_of s t)) (priority (released_tcb (tcb_of s t)))
            in Q(h := Q h @ [t])))"

lemma ready_after_wait [simp]:
  "ready_after s t Q (WAITQ w) = Q (WAITQ w)" "ready_after s t Q (RWAITQ w) = Q (RWAITQ w)"
  by (simp_all add: ready_after_def Let_def)

lemma end_wait_inv:
  assumes Q: "qinv X Q s" and t: "t \<in> X" and nq: "\<not> queued Q t"
    and wf: "wf_tcb (tcb_of s t)" and T: "tinv {} s"
    and w: "TSTAT_WAITING (tstat (tcb_of s t))"
    and eq: "end_wait t e s = (b, s')"
  shows "qinv (X - {t}) (ready_after s t Q) s'" and "tinv {} s'"
    and "sched_change (p_pcb (tcb_of s t)) b s s'" and "core_frame s s'"
    and "tcb_of s' = (tcb_of s)(t := ended_tcb e (tcb_of s t))"
    and "tm_callback s' = tm_callback s"
proof -
  let ?s1 = "wait_dequeue_tmevtb t s"
  let ?s2 = "set_wercd t e ?s1"
  note TD = wait_dequeue_tmevtb_inv [OF T w]
  have e1: "tcb_of ?s1 = tcb_of s" "kq ?s1 = kq s" "pcb_of ?s1 = pcb_of s" "ipi ?s1 = ipi s"
    "objs ?s1 = objs s" "tm_callback ?s1 = tm_callback s"
    using TD(3) by (metis kstate.select_convs kstate.surjective kstate.update_convs(4,5))+
  have Q1: "qinv X Q ?s1" by (rule qinv_frame [OF Q]) (simp_all add: e1)
  have Q2: "qinv X Q ?s2"
    unfolding set_wercd_def by (rule qinv_upd_tcb [OF Q1 t]) simp_all
  have t2: "tcb_of ?s2 t = (tcb_of s t)\<lparr>wercd := e\<rparr>" by (simp add: set_wercd_def e1)
  have wf2: "wf_tcb (tcb_of ?s2 t)" using wf unfolding t2 by simp
  have mn: "make_non_wait t ?s2 = (b, s')" using eq by (simp add: end_wait_def)
  note M = make_non_wait_inv [OF Q2 t nq wf2 mn]
  have ra: "(if TSTAT_SUSPENDED (tstat (tcb_of ?s2 t)) then Q
      else Q(RDY (p_pcb (released_tcb (tcb_of ?s2 t))) (priority (released_tcb (tcb_of ?s2 t))) :=
        Q (RDY (p_pcb (released_tcb (tcb_of ?s2 t))) (priority (released_tcb (tcb_of ?s2 t)))) @ [t]))
    = ready_after s t Q"
    unfolding t2 ready_after_def Let_def by (simp add: released_tcb_def)
  show "qinv (X - {t}) (ready_after s t Q) s'" using M(1) unfolding ra .
  have p2: "pcb_of ?s2 = pcb_of s" by (simp add: set_wercd_def e1)
  show "sched_change (p_pcb (tcb_of s t)) b s s'"
    using M(2) unfolding t2 sched_change_def p2 by simp
  show "core_frame s s'"
    using M(3) unfolding core_frame_def p2 by (simp add: set_wercd_def e1)
  show tc': "tcb_of s' = (tcb_of s)(t := ended_tcb e (tcb_of s t))"
    using M(4) by (simp add: t2 set_wercd_def e1 ended_tcb_def)
  show "tm_callback s' = tm_callback s" using M(7) by (simp add: set_wercd_def e1)
  have tl: "tm_place s' u = (if u = t then None else tm_place ?s1 u)" for u
    using M(7) tc'
    by (auto simp: tm_place_def set_wercd_def e1 ended_tcb_def released_tcb_def)
  have cb: "cb_ok s' u" if "u = t \<or> cb_ok ?s1 u" for u
    using that M(7) tc'
    by (auto simp: cb_ok_def set_wercd_def e1 ended_tcb_def released_tcb_def)
  have sh: "same_handlers ?s1 s'"
    using M(7) core_frameD(2) [OF M(3)] by (simp add: same_handlers_def set_wercd_def)
  have rg: "registered s' = registered ?s1" and hi: "tevt_of s' = tevt_of ?s1" "tm_index s' = tm_index ?s1"
    using M(5,6) by (simp_all add: registered_def set_wercd_def fun_eq_iff)
  have "hinv s'" by (rule hinv_frame [OF tinvD(6) [OF TD(1)] sh]) (simp add: rg)
  moreover have "tskinv {} s'"
    unfolding tskinv_def rg hi tl
    using tinvD(1,2,3) [OF TD(1)] TD(2) cb tinvD(4) [OF TD(1)] by (metis empty_iff option.distinct(1) singletonD)
  ultimately show "tinv {} s'" by (simp add: tinv_def)
qed

section \<open>Entering the waiting state keeps the invariants\<close>

lemma make_wait_inv:
  assumes Q: "qinv X Q s" and t: "t \<in> X"
    and rd: "t \<in> set (Q (RDY (p_pcb (tcb_of s t)) (priority (tcb_of s t))))"
    and T: "tinv Y s" and nr: "\<And>p. TM_TSK t \<notin> registered s p"
  defines "h \<equiv> RDY (p_pcb (tcb_of s t)) (priority (tcb_of s t))" and "s' \<equiv> make_wait t s"
  shows "qinv X (Q(h := remove1 t (Q h))) s'" and "\<not> queued (Q(h := remove1 t (Q h))) t"
    and "\<exists>b. sched_change (p_pcb (tcb_of s t)) b s s'" and "core_frame s s'"
    and "tcb_of s' = tcb_of s" and "tinv (Y - {t}) s'"
proof -
  obtain b s1 where m: "make_non_runnable t s = (b, s1)" by fastforce
  have s': "s' = set_callback (TM_TSK t) None s1" using m by (simp add: s'_def make_wait_def)
  note I = make_non_runnable_inv [OF Q rd m, folded h_def]
  note F = make_non_runnable_frame [OF m]
  have "qinv (insert t X) (Q(h := remove1 t (Q h))) s'"
    by (rule qinv_frame [OF I(1)]) (simp_all add: s' set_callback_def)
  then show "qinv X (Q(h := remove1 t (Q h))) s'" using t by (simp add: insert_absorb)
  show "\<not> queued (Q(h := remove1 t (Q h))) t"
    by (rule ring.not_queued_unlink [OF qinvD(1) [OF Q]]) (use rd in \<open>simp add: h_def\<close>)
  have "sched_change (p_pcb (tcb_of s t)) b s s'"
    using I(2) by (simp add: sched_change_def s' set_callback_def)
  then show "\<exists>b. sched_change (p_pcb (tcb_of s t)) b s s'" by blast
  show "core_frame s s'" using sched_core_frame [OF F] by (simp add: s')
  show tc: "tcb_of s' = tcb_of s" using sched_frameD(1) [OF F] by (simp add: s' set_callback_def)
  have pl: "tm_place s' u = (if u = t then None else tm_place s u)" for u
    using sched_frameD(1,4) [OF F] by (auto simp: tm_place_def s' set_callback_def)
  have e: "tevt_of s' = tevt_of s" "tm_index s' = tm_index s"
    using sched_frameD(2,3) [OF F] by (simp_all add: s' set_callback_def)
  have "cb_ok s' u" if "u = t \<or> cb_ok s u" for u
    using that sched_frameD(1,4) [OF F] by (auto simp: cb_ok_def s' set_callback_def)
  then have "tskinv (Y - {t}) s'"
    using tinvD(5) [OF T] nr pl e unfolding tskinv_def registered_def by auto
  moreover have "hinv s'"
    by (rule hinv_frame [OF tinvD(6) [OF T]])
       (use sched_frameD(4,6) [OF F] e in \<open>auto simp: same_handlers_def registered_def s' set_callback_def\<close>)
  ultimately show "tinv (Y - {t}) s'" by (simp add: tinv_def)
qed

text \<open>The running task leaves the ready queue and registers its time event.\<close>

definition make_delay :: "tskix \<Rightarrow> prcix \<Rightarrow> reltim \<Rightarrow> cback \<Rightarrow> kstate \<Rightarrow> kstate" where
  "make_delay t p tm cb s =
     (let (_, s) = make_non_runnable t s in tmevtb_enqueue p (TM_TSK t) tm cb s)"

lemma make_delay_inv:
  assumes Q: "qinv X Q s" and t: "t \<in> X" and p: "p = p_pcb (tcb_of s t)"
    and rd: "t \<in> set (Q (RDY p (priority (tcb_of s t))))"
    and T: "tinv Y s" and nr: "\<And>q. TM_TSK t \<notin> registered s q"
    and w: "TSTAT_WAITING (tstat (tcb_of s t))" and cb: "cb = wait_cb (tstat (tcb_of s t))"
    and s'_def: "s' = make_delay t p tm cb s"
  defines "h \<equiv> RDY p (priority (tcb_of s t))"
  shows "qinv X (Q(h := remove1 t (Q h))) s' \<and> \<not> queued (Q(h := remove1 t (Q h))) t \<and>
    (\<exists>b. sched_change p b s s') \<and> core_frame s s' \<and> tcb_of s' = tcb_of s \<and> tinv (Y - {t}) s'"
proof -
  obtain b s1 where m: "make_non_runnable t s = (b, s1)" by fastforce
  note I = make_non_runnable_inv [OF Q rd [unfolded p] m, folded p, folded h_def]
  note F = make_non_runnable_frame [OF m]
  note FD = sched_frameD [OF F]
  let ?cbs = "(tm_callback s1)(TM_TSK t := Some cb)"
  obtain te ix where te: "tmevtb_insert (TM_TSK t) (base_time (tevt_of s1 p) + tm)
      (tevt_of s1 p, tm_index s1) = (te, ix)" by fastforce
  have s': "s' = s1\<lparr>tevt_of := (tevt_of s1)(p := te), tm_index := ix, tm_callback := ?cbs\<rparr>"
    using m te by (simp add: s'_def make_delay_def tmevtb_enqueue_def Let_def)
  have T1: "tinv Y s1"
    by (rule tinv_frame [OF T]) (simp_all add: FD tm_place_def cb_ok_def same_handlers_def cb_ok_def same_handlers_def)
  have nr1: "TM_TSK t \<notin> registered s1 q" for q using nr by (simp add: registered_def FD)
  have pl: "tm_place s' t = Some p \<and> cb_ok s' t \<or> t \<in> Y - {t}"
    using w p FD(1) cb by (simp add: tm_place_def cb_ok_def s')
  have T2: "tinv (Y - {t}) s'"
    by (rule tinv_enqueue(1) [OF T1 nr1 te s' _ pl]) auto
  have "qinv (insert t X) (Q(h := remove1 t (Q h))) s'"
    by (rule qinv_frame [OF I(1)]) (simp_all add: s')
  moreover have "\<not> queued (Q(h := remove1 t (Q h))) t"
    by (rule ring.not_queued_unlink [OF qinvD(1) [OF Q]]) (use rd in \<open>simp add: h_def\<close>)
  moreover have "sched_change p b s s'" using I(2) by (simp add: sched_change_def s')
  moreover have "core_frame s s'" using sched_core_frame [OF F] by (simp add: s' core_frame_def)
  moreover have "tcb_of s' = tcb_of s" using FD(1) by (simp add: s')
  ultimately show ?thesis using t T2 by (auto simp: insert_absorb)
qed

lemma make_wait_tmout_inv:
  assumes Q: "qinv X Q s" and t: "t \<in> X" and p: "p = p_pcb (tcb_of s t)" "p_runtsk (pcb_of s p) = Some t"
    and rd: "t \<in> set (Q (RDY p (priority (tcb_of s t))))"
    and T: "tinv Y s" and nr: "\<And>q. TM_TSK t \<notin> registered s q"
    and w: "TSTAT_WAITING (tstat (tcb_of s t))" and cb: "wait_cb (tstat (tcb_of s t)) = CB_wait_tmout"
    and s'_def: "s' = make_wait_tmout tmout p s"
  defines "h \<equiv> RDY p (priority (tcb_of s t))"
  shows "qinv X (Q(h := remove1 t (Q h))) s' \<and> \<not> queued (Q(h := remove1 t (Q h))) t \<and>
    (\<exists>b. sched_change p b s s') \<and> core_frame s s' \<and> tcb_of s' = tcb_of s \<and> tinv (Y - {t}) s'"
proof (cases "0 < tmout")
  case False
  then have "s' = make_wait t s"
    using p by (simp add: s'_def make_wait_tmout_def make_wait_def Let_def runtsk_def)
  then show ?thesis
    using make_wait_inv [OF Q t _ T nr] rd p by (simp add: h_def)
next
  case True
  then have "s' = make_delay t p (word_of_int tmout) CB_wait_tmout s"
    using p by (simp add: s'_def make_wait_tmout_def make_delay_def Let_def runtsk_def)
  from make_delay_inv [OF Q t p(1) rd T nr w cb [symmetric] this] show ?thesis unfolding h_def .
qed

section \<open>The kernel invariant and dispatching\<close>

text \<open>
  \<open>rinv\<close>: the running task of a processor is assigned to it and is not dormant, and a processor
  outside every handler has one.
\<close>

definition rinv :: "kstate \<Rightarrow> bool" where
  "rinv s \<longleftrightarrow> (\<forall>p t. p_runtsk (pcb_of s p) = Some t \<longrightarrow>
        p_pcb (tcb_of s t) = p \<and> \<not> TSTAT_DORMANT (tstat (tcb_of s t))) \<and>
     (\<forall>p. excpt_nest_count (pcb_of s p) = 0 \<longrightarrow> p_runtsk (pcb_of s p) \<noteq> None)"

text \<open>\<open>sinv\<close>: a wait queue with the attribute \<open>TA_TPRI\<close> is in the order of priority.\<close>

definition sinv :: "cfg \<Rightarrow> (qhdr \<Rightarrow> tskix list) \<Rightarrow> kstate \<Rightarrow> bool" where
  "sinv C Q s \<longleftrightarrow> (\<forall>w. wobjatr C w AND TA_TPRI \<noteq> 0 \<longrightarrow>
     sorted (map (\<lambda>t. priority (tcb_of s t)) (Q (WAITQ w))))"

lemma sinv_cong:
  assumes "sinv C Q s" and "\<And>w. Q' (WAITQ w) = Q (WAITQ w)"
    and "\<And>w t. t \<in> set (Q (WAITQ w)) \<Longrightarrow> priority (tcb_of s' t) = priority (tcb_of s t)"
  shows "sinv C Q' s'"
proof -
  have "map (\<lambda>t. priority (tcb_of s' t)) (Q' (WAITQ w)) = map (\<lambda>t. priority (tcb_of s t)) (Q (WAITQ w))" for w
    using assms(2,3) by simp
  then show ?thesis using assms(1) by (simp add: sinv_def)
qed

lemma sinv_unlink:
  assumes "sinv C Q s"
  shows "sinv C (Q(h := remove1 t (Q h))) s"
  using assms by (auto simp: sinv_def intro: sorted_map_remove1)

definition kinv :: "cfg \<Rightarrow> prcix set \<Rightarrow> (qhdr \<Rightarrow> tskix list) \<Rightarrow> kstate \<Rightarrow> bool" where
  "kinv C P Q s \<longleftrightarrow> qinv {} Q s \<and> tinv {} s \<and> dinv P s \<and> rinv s \<and> sinv C Q s"

lemma rinv_core:
  assumes "rinv s" and "core_frame s s'" and "\<And>t. p_pcb (tcb_of s' t) = p_pcb (tcb_of s t)"
    and "\<And>t. \<not> TSTAT_DORMANT (tstat (tcb_of s t)) \<Longrightarrow> \<not> TSTAT_DORMANT (tstat (tcb_of s' t))"
  shows "rinv s'"
  using assms(1,3,4) core_frameD(3,6) [OF assms(2)] by (simp add: rinv_def)

lemma not_dormant:
  "TSTAT_RUNNABLE ts \<Longrightarrow> \<not> TSTAT_DORMANT ts" "TSTAT_WAITING ts \<Longrightarrow> \<not> TSTAT_DORMANT ts"
  "TSTAT_SUSPENDED ts \<Longrightarrow> \<not> TSTAT_DORMANT ts"
  by (auto simp: tstat_macros TS_DORMANT_def)

lemma kinv_objs [simp]:
  "cyccb_of x = cyccb_of (objs s) \<Longrightarrow> almcb_of x = almcb_of (objs s) \<Longrightarrow>
   kinv C P Q (s\<lparr>objs := x\<rparr>) = kinv C P Q s"
  by (simp add: kinv_def qinv_def tinv_def tskinv_def hinv_def cb_ok_def dinv_def rinv_def sinv_def
      registered_def tm_place_def)

text \<open>
  \<open>kparts\<close>: the invariant without the running tasks, for the stretch between the end or the
  migration of the calling task and the dispatch that follows.
\<close>

definition kparts :: "cfg \<Rightarrow> prcix set \<Rightarrow> (qhdr \<Rightarrow> tskix list) \<Rightarrow> kstate \<Rightarrow> bool" where
  "kparts C P Q s \<longleftrightarrow> qinv {} Q s \<and> tinv {} s \<and> dinv P s \<and> sinv C Q s"

lemma kinv_parts: "kinv C P Q s \<longleftrightarrow> kparts C P Q s \<and> rinv s"
  by (auto simp: kinv_def kparts_def)

lemma kpartsD:
  assumes "kparts C P Q s"
  shows "qinv {} Q s" and "tinv {} s" and "dinv P s" and "qrep (kq s) Q"
    and "wf_tcb (tcb_of s t)" and "t \<in> set (Q h) \<longleftrightarrow> place (tcb_of s t) = Some h"
    and "p_schedtsk (pcb_of s p) = top_task Q p" and "sinv C Q s"
  using assms qinvD [of "{}" Q s] by (auto simp: kparts_def)

lemma kinvD:
  assumes "kinv C P Q s"
  shows "qinv {} Q s" and "tinv {} s" and "dinv P s" and "qrep (kq s) Q"
    and "wf_tcb (tcb_of s t)" and "t \<in> set (Q h) \<longleftrightarrow> place (tcb_of s t) = Some h"
    and "p_schedtsk (pcb_of s p) = top_task Q p" and "rinv s" and "sinv C Q s"
  using assms qinvD [of "{}" Q s] by (auto simp: kinv_def)

lemma kinv_weaken: "kinv C P Q s \<Longrightarrow> P \<subseteq> P' \<Longrightarrow> kinv C P' Q s"
  using dinv_weaken by (auto simp: kinv_def)

lemma dispatch_request_kinv:
  assumes "kinv C (insert p P) Q s" and "dispatch_request me p s = (d, s')"
  shows "kinv C (if d then insert me P else P) Q s'" and "d \<longleftrightarrow> p = me"
    and "tcb_of s' = tcb_of s" "objs s' = objs s" "pcb_of s' = pcb_of s"
proof -
  have "kinv C (if d then insert me P else P) Q s' \<and> (d \<longleftrightarrow> p = me) \<and> tcb_of s' = tcb_of s \<and>
    objs s' = objs s \<and> pcb_of s' = pcb_of s"
  proof (cases "p = me")
    case True
    then show ?thesis using assms by (auto simp: dispatch_request_def)
  next
    case False
    then have r: "\<not> d" "s' = target_ipi_raise p s" using assms(2) by (auto simp: dispatch_request_def)
    have "qinv {} Q s'"
      by (rule qinv_frame [OF kinvD(1) [OF assms(1)]]) (simp_all add: r target_ipi_raise_def)
    moreover have "tinv {} s'"
      by (rule tinv_frame [OF kinvD(2) [OF assms(1)]])
         (simp_all add: r target_ipi_raise_def tm_place_def cb_ok_def same_handlers_def)
    moreover have "dinv P s'"
      using kinvD(3) [OF assms(1)] by (auto simp: dinv_def r target_ipi_raise_def)
    moreover have "rinv s'"
      using kinvD(8) [OF assms(1)] by (simp add: rinv_def r target_ipi_raise_def)
    moreover have "sinv C Q s'"
      using kinvD(9) [OF assms(1)] by (simp add: sinv_def r target_ipi_raise_def)
    ultimately show ?thesis using r False by (simp add: kinv_def target_ipi_raise_def)
  qed
  then show "kinv C (if d then insert me P else P) Q s'" "d \<longleftrightarrow> p = me"
    "tcb_of s' = tcb_of s" "objs s' = objs s" "pcb_of s' = pcb_of s" by blast+
qed

lemma t_request_kinv:
  assumes "kinv C (if b then insert p P else P) Q s" and "t_request me p b s = (d, s')"
  shows "kinv C (if d then insert me P else P) Q s'"
    and "tcb_of s' = tcb_of s" "objs s' = objs s" "pcb_of s' = pcb_of s"
  using assms dispatch_request_kinv [of C p P Q s me d s']
  by (auto simp: t_request_def split: if_splits)

lemma top_task_runs:
  assumes "qinv {} Q s" and "top_task Q p = Some t"
  shows "p_pcb (tcb_of s t) = p \<and> \<not> TSTAT_DORMANT (tstat (tcb_of s t))"
proof -
  have "t \<in> set (Q (RDY p (priority (tcb_of s t))))" by (rule qinv_top_in(1) [OF assms])
  then have "place (tcb_of s t) = Some (RDY p (priority (tcb_of s t)))" using qinvD(4) [OF assms(1), of t] by simp
  then have "TSTAT_RUNNABLE (tstat (tcb_of s t))" by (auto simp: place_def split: if_splits)
  then show ?thesis using qinv_top_in(2) [OF assms] not_dormant(1) by blast
qed

lemma dispatch_kinv:
  assumes "kinv C (insert me P) Q s"
  shows "kinv C P Q (dispatch me s)"
proof -
  have "qinv {} Q (dispatch me s)"
    by (rule qinv_frame [OF kinvD(1) [OF assms]]) (simp_all add: dispatch_def)
  moreover have "tinv {} (dispatch me s)"
    by (rule tinv_frame [OF kinvD(2) [OF assms]]) (simp_all add: dispatch_def tm_place_def cb_ok_def same_handlers_def)
  moreover have "dinv P (dispatch me s)"
    using kinvD(3) [OF assms] by (auto simp: dinv_def dispatch_def)
  moreover have "rinv (dispatch me s)"
    using kinvD(8) [OF assms] kinvD(7) [OF assms] top_task_runs [OF kinvD(1) [OF assms]]
    by (auto simp: rinv_def dispatch_def)
  moreover have "sinv C Q (dispatch me s)"
    using kinvD(9) [OF assms] by (simp add: sinv_def dispatch_def)
  ultimately show ?thesis by (simp add: kinv_def)
qed

lemma dispatch_sel [simp]:
  "tcb_of (dispatch me s) = tcb_of s" "objs (dispatch me s) = objs s"
  by (simp_all add: dispatch_def)

lemma t_dispatch_if_kinv:
  "kinv C (if d then insert me P else P) Q s \<Longrightarrow> kinv C P Q (t_dispatch_if me d s)"
  by (auto simp: t_dispatch_if_def dispatch_kinv split: if_splits)

lemma t_dispatch_if_sel [simp]:
  "tcb_of (t_dispatch_if me d s) = tcb_of s" "objs (t_dispatch_if me d s) = objs s"
  by (simp_all add: t_dispatch_if_def)

lemma set_reqflg_kinv:
  assumes "kinv C (insert me P) Q s"
  shows "kinv C P Q (set_reqflg me s)"
proof -
  have "qinv {} Q (set_reqflg me s)"
    by (rule qinv_frame [OF kinvD(1) [OF assms]]) (simp_all add: set_reqflg_def)
  moreover have "tinv {} (set_reqflg me s)"
    by (rule tinv_frame [OF kinvD(2) [OF assms]]) (simp_all add: set_reqflg_def tm_place_def cb_ok_def same_handlers_def)
  moreover have "dinv P (set_reqflg me s)"
    using kinvD(3) [OF assms] by (auto simp: dinv_def set_reqflg_def)
  moreover have "rinv (set_reqflg me s)"
    using kinvD(8) [OF assms] by (simp add: rinv_def set_reqflg_def)
  moreover have "sinv C Q (set_reqflg me s)"
    using kinvD(9) [OF assms] by (simp add: sinv_def set_reqflg_def)
  ultimately show ?thesis by (simp add: kinv_def)
qed

lemma i_request_kinv:
  assumes "kinv C (if b then insert p P else P) Q s"
  shows "kinv C P Q (i_request me p b s)"
    and "tcb_of (i_request me p b s) = tcb_of s" and "objs (i_request me p b s) = objs s"
proof -
  obtain d s1 where d: "dispatch_request me p s = (d, s1)" by fastforce
  have sel: "tcb_of (set_reqflg me s1) = tcb_of s1" "objs (set_reqflg me s1) = objs s1"
    by (simp_all add: set_reqflg_def)
  show "kinv C P Q (i_request me p b s)"
    using assms dispatch_request_kinv(1) [of C p P Q s me d s1] d set_reqflg_kinv [of C me P Q s1]
    by (auto simp: i_request_def split: if_splits)
  show "tcb_of (i_request me p b s) = tcb_of s" "objs (i_request me p b s) = objs s"
    using d sel
    by (auto simp: i_request_def dispatch_request_def target_ipi_raise_def split: if_splits)
qed

section \<open>Waking up and releasing a task\<close>

text \<open>A task that is linked to an object waits for it; its wait queue is not a ready queue.\<close>

lemma place_waitq:
  assumes "place tc = Some h" and "\<And>p i. h \<noteq> RDY p i"
  shows "TSTAT_WAITING (tstat tc)" and "TSTAT_WAIT_WOBJ (tstat tc)"
  using assms by (auto simp: place_def split: if_splits)

lemma end_wait_kinv:
  assumes Q: "qinv {t} Q s" and nq: "\<not> queued Q t" and wf: "wf_tcb (tcb_of s t)"
    and T: "tinv {} s" and D: "dinv P s" and R: "rinv s" and S: "sinv C Q s"
    and w: "TSTAT_WAITING (tstat (tcb_of s t))" and eq: "end_wait t e s = (b, s')"
  shows "kinv C (if b then insert (p_pcb (tcb_of s t)) P else P) (ready_after s t Q) s'"
    and "core_frame s s'" and "tcb_of s' = (tcb_of s)(t := ended_tcb e (tcb_of s t))"
proof -
  note I = end_wait_inv [OF Q _ nq wf T w eq]
  have "rinv s'"
    by (rule rinv_core [OF R]) (use I(4,5) in \<open>auto simp: ended_tcb_def released_tcb_def\<close>)
  moreover have "sinv C (ready_after s t Q) s'"
    by (rule sinv_cong [OF S]) (use nq I(5) in \<open>auto simp: queued_def\<close>)
  ultimately show "kinv C (if b then insert (p_pcb (tcb_of s t)) P else P) (ready_after s t Q) s'"
    using I(1,2) dinv_core_change [OF D I(4,3)] by (simp add: kinv_def)
  show "core_frame s s'" "tcb_of s' = (tcb_of s)(t := ended_tcb e (tcb_of s t))" using I by auto
qed

text \<open>
  \<open>queue_delete\<close> from an object's queue, a change of the wait information, and then the end of
  the wait.
\<close>

lemma wake_kinv:
  assumes K: "kinv C P Q s" and t: "t \<in> set (Q h)" and h: "\<And>p i. h \<noteq> RDY p i"
    and f: "tstat (f (tcb_of s t)) = tstat (tcb_of s t)" "priority (f (tcb_of s t)) = priority (tcb_of s t)"
      "p_pcb (f (tcb_of s t)) = p_pcb (tcb_of s t)" "wf_tcb (f (tcb_of s t))"
    and eq: "end_wait t e (upd_tcb t f (on_kq (queue_delete (Ent t)) s)) = (b, s')"
  defines "Q1 \<equiv> Q(h := remove1 t (Q h))" and "s1 \<equiv> upd_tcb t f (on_kq (queue_delete (Ent t)) s)"
  shows "kinv C (if b then insert (p_pcb (tcb_of s t)) P else P) (ready_after s1 t Q1) s'"
    and "objs s' = objs s" and "tcb_of s' = (tcb_of s)(t := ended_tcb e (f (tcb_of s t)))"
    and "core_frame s s'"
proof -
  note D = kinvD [OF K]
  have pl: "place (tcb_of s t) = Some h" using D(6) t by blast
  have w: "TSTAT_WAITING (tstat (tcb_of s t))" by (rule place_waitq [OF pl h])
  note U = qinv_unlink [OF D(1) t h, folded Q1_def]
  have Q1: "qinv {t} Q1 s1"
    unfolding s1_def by (rule qinv_upd_tcb [OF U(1)]) (use f in auto)
  have T1: "tinv {} s1"
    by (rule tinv_frame [OF D(2)]) (use f in \<open>auto simp: s1_def on_kq_def upd_tcb_def tm_place_def cb_ok_def same_handlers_def\<close>)
  have D1: "dinv P s1" using D(3) by (simp add: dinv_def s1_def on_kq_def)
  have t1: "tcb_of s1 t = f (tcb_of s t)" by (simp add: s1_def)
  have c1: "core_frame s s1" by (simp add: s1_def)
  have r1: "rinv s1" by (rule rinv_core [OF D(8) c1]) (use f in \<open>auto simp: s1_def\<close>)
  have S1: "sinv C Q1 s1"
    by (rule sinv_cong [OF sinv_unlink [OF D(9), of h t]])
       (use f(2) in \<open>auto simp: s1_def Q1_def\<close>)
  note E = end_wait_kinv [OF Q1 U(2) _ T1 D1 r1 S1 _ eq [folded s1_def], unfolded t1, OF f(4)]
  show "kinv C (if b then insert (p_pcb (tcb_of s t)) P else P) (ready_after s1 t Q1) s'"
    using E(1) f w by (auto split: if_splits)
  show "core_frame s s'" using E(2) f w core_frame_trans [OF c1] by simp
  then show "objs s' = objs s" by (rule core_frameD)
  show "tcb_of s' = (tcb_of s)(t := ended_tcb e (f (tcb_of s t)))"
    using E(3) f w by (simp add: s1_def)
qed

lemma wake_kinv_id:
  assumes K: "kinv C P Q s" and t: "t \<in> set (Q h)" and h: "\<And>p i. h \<noteq> RDY p i"
    and eq: "end_wait t e (on_kq (queue_delete (Ent t)) s) = (b, s')"
  defines "Q1 \<equiv> Q(h := remove1 t (Q h))"
  shows "kinv C (if b then insert (p_pcb (tcb_of s t)) P else P) (ready_after s t Q1) s'"
    and "objs s' = objs s" and "tcb_of s' = (tcb_of s)(t := ended_tcb e (tcb_of s t))"
    and "core_frame s s'"
proof -
  have id: "upd_tcb t (\<lambda>b. b) a = a" for a by (simp add: upd_tcb_def)
  have ra: "ready_after (on_kq q s) t Q1 = ready_after s t Q1" for q
    by (simp add: ready_after_def)
  note W = wake_kinv [OF K t h, of "\<lambda>b. b" e b s', unfolded id ra, OF refl refl refl kinvD(5) [OF K] eq]
  show "kinv C (if b then insert (p_pcb (tcb_of s t)) P else P) (ready_after s t Q1) s'"
    using W(1) by (auto simp: Q1_def ready_after_def split: if_splits)
  show "objs s' = objs s" "tcb_of s' = (tcb_of s)(t := ended_tcb e (tcb_of s t))" "core_frame s s'"
    using W(2-4) by simp_all
qed

text \<open>A task that waits without being linked (it sleeps or delays itself).\<close>

lemma wake_sleeping_kinv:
  assumes K: "kinv C P Q s" and w: "TSTAT_WAITING (tstat (tcb_of s t))"
    and nw: "\<not> TSTAT_WAIT_WOBJ (tstat (tcb_of s t))" and nr: "\<not> TSTAT_RUNNABLE (tstat (tcb_of s t))"
    and eq: "end_wait t e s = (b, s')"
  shows "kinv C (if b then insert (p_pcb (tcb_of s t)) P else P) (ready_after s t Q) s'"
    and "objs s' = objs s" and "tcb_of s' = (tcb_of s)(t := ended_tcb e (tcb_of s t))"
    and "core_frame s s'"
proof -
  note D = kinvD [OF K]
  have "place (tcb_of s t) = None" using nw nr by (simp add: place_def)
  then have nq: "\<not> queued Q t" using D(6) [of t] by (auto simp: queued_def)
  note E = end_wait_kinv [OF qinv_weaken [OF D(1)] nq D(5) D(2,3,8,9) w eq]
  show "kinv C (if b then insert (p_pcb (tcb_of s t)) P else P) (ready_after s t Q) s'"
    "tcb_of s' = (tcb_of s)(t := ended_tcb e (tcb_of s t))" "core_frame s s'" using E by auto
  then show "objs s' = objs s" by (simp add: core_frameD)
qed

lemma wf_waiting_not_runnable:
  "ts \<in> set wf_tstats \<Longrightarrow> TSTAT_WAITING ts \<Longrightarrow> \<not> TSTAT_RUNNABLE ts"
  by (auto simp: wf_tstats_def tstat_macros tstat_consts)

lemma wf_wobj_waiting:
  "ts \<in> set wf_tstats \<Longrightarrow> TSTAT_WAIT_WOBJ ts \<Longrightarrow> TSTAT_WAITING ts \<and> \<not> TSTAT_RUNNABLE ts"
  by (auto simp: wf_tstats_def tstat_macros tstat_consts)

text \<open>The queue of the object a task waits for is left by \<open>wait_release\<close>.\<close>

definition unlinked :: "kstate \<Rightarrow> tskix \<Rightarrow> (qhdr \<Rightarrow> tskix list) \<Rightarrow> qhdr \<Rightarrow> tskix list" where
  "unlinked s t Q =
     (case place (tcb_of s t) of Some h \<Rightarrow> Q(h := remove1 t (Q h)) | None \<Rightarrow> Q)"

lemma end_wait_wobj_kinv:
  assumes K: "kinv C P Q s" and w: "TSTAT_WAITING (tstat (tcb_of s t))"
    and eq: "end_wait t e (wait_dequeue_wobj t s) = (b, s')"
  shows "kinv C (if b then insert (p_pcb (tcb_of s t)) P else P) (ready_after s t (unlinked s t Q)) s'"
    and "objs s' = objs s" and "tcb_of s' = (tcb_of s)(t := ended_tcb e (tcb_of s t))"
    and "core_frame s s'"
proof -
  note D = kinvD [OF K]
  have ts: "tstat (tcb_of s t) \<in> set wf_tstats" using D(5) by (simp add: wf_tcb_def)
  note nr = wf_waiting_not_runnable [OF ts w]
  have "kinv C (if b then insert (p_pcb (tcb_of s t)) P else P) (ready_after s t (unlinked s t Q)) s' \<and>
    objs s' = objs s \<and> tcb_of s' = (tcb_of s)(t := ended_tcb e (tcb_of s t)) \<and> core_frame s s'"
  proof (cases "TSTAT_WAIT_WOBJ (tstat (tcb_of s t))")
    case True
    then obtain h where h: "place (tcb_of s t) = Some h" "\<And>p i. h \<noteq> RDY p i"
      using w nr by (auto simp: place_def)
    have e: "end_wait t e (on_kq (queue_delete (Ent t)) s) = (b, s')"
      using eq True by (simp add: wait_dequeue_wobj_def)
    have "unlinked s t Q = Q(h := remove1 t (Q h))" using h by (simp add: unlinked_def)
    then show ?thesis using wake_kinv_id [OF K _ h(2) e] D(6) h(1) by simp
  next
    case False
    have "unlinked s t Q = Q" using False nr by (simp add: unlinked_def place_def)
    moreover have "end_wait t e s = (b, s')"
      using eq False by (simp add: wait_dequeue_wobj_def)
    ultimately show ?thesis using wake_sleeping_kinv [OF K w False nr] by simp
  qed
  then show "kinv C (if b then insert (p_pcb (tcb_of s t)) P else P) (ready_after s t (unlinked s t Q)) s'"
    "objs s' = objs s" "tcb_of s' = (tcb_of s)(t := ended_tcb e (tcb_of s t))" "core_frame s s'"
    by blast+
qed

lemma wait_release_kinv:
  assumes K: "kinv C P Q s" and w: "TSTAT_WAITING (tstat (tcb_of s t))"
    and eq: "wait_release t s = (b, s')"
  shows "kinv C (if b then insert (p_pcb (tcb_of s t)) P else P) (ready_after s t (unlinked s t Q)) s'"
    and "objs s' = objs s" and "tcb_of s' = (tcb_of s)(t := ended_tcb E_RLWAI (tcb_of s t))"
    and "core_frame s s'"
  using end_wait_wobj_kinv [OF K w eq [unfolded wait_release_end_wait]] by blast+

section \<open>Blocking\<close>

lemma link_arrive:
  assumes Q: "qinv {t} Q s" and nq: "\<not> queued Q t" and R: "qrep (q (kq s)) (Q(h := l))"
    and l: "set l = insert t (set (Q h))" and h: "\<And>p i. h \<noteq> RDY p i"
    and g: "wf_tcb (g (tcb_of s t))" "place (g (tcb_of s t)) = Some h"
      "p_pcb (g (tcb_of s t)) = p_pcb (tcb_of s t)" "priority (g (tcb_of s t)) = priority (tcb_of s t)"
  shows "qinv {} (Q(h := l)) (upd_tcb t g (on_kq q s))"
proof -
  have Q1: "qinv {t} (Q(h := l)) (on_kq q s)" using qinv_link [of "{t}" Q s q h l t] Q R l h by simp
  have "qinv {t} (Q(h := l)) (upd_tcb t g (on_kq q s))"
    by (rule qinv_upd_tcb [OF Q1]) (use g in simp_all)
  from qinv_arrive [OF this, of t] show ?thesis
    using g(1,2) nq l by (auto simp: queued_def)
qed

text \<open>
  The running task changes its status to waiting (with the wait information) and leaves the
  ready queue; \<open>s1\<close> is the state before \<open>make_wait\<close> or \<open>make_wait_tmout\<close>.
\<close>

definition may_block :: "prcix \<Rightarrow> tskix \<Rightarrow> kstate \<Rightarrow> bool" where
  "may_block me t s \<longleftrightarrow> p_runtsk (pcb_of s me) = Some t \<and> TSTAT_RUNNABLE (tstat (tcb_of s t)) \<and>
     p_pcb (tcb_of s t) = me"

definition wait_status :: "tstat \<Rightarrow> bool" where
  "wait_status k \<longleftrightarrow> k \<in> {TS_WAIT_DLY, TS_WAIT_SLP, TS_WAIT_RDTQ, TS_WAIT_RPDQ, TS_WAIT_SEM,
     TS_WAIT_FLG, TS_WAIT_SDTQ, TS_WAIT_SPDQ, TS_WAIT_MBX, TS_WAIT_MPF}"

lemma wait_status [simp]:
  "wait_status TS_WAIT_DLY" "wait_status TS_WAIT_SLP" "wait_status TS_WAIT_RDTQ"
  "wait_status TS_WAIT_RPDQ" "wait_status TS_WAIT_SEM" "wait_status TS_WAIT_FLG"
  "wait_status TS_WAIT_SDTQ" "wait_status TS_WAIT_SPDQ" "wait_status TS_WAIT_MBX"
  "wait_status TS_WAIT_MPF"
  by (simp_all add: wait_status_def)

lemma waiting_status:
  assumes "wait_status k"
  shows "TSTAT_WAITING (TS_WAITING OR k)" "\<not> TSTAT_RUNNABLE (TS_WAITING OR k)"
    "\<not> TSTAT_SUSPENDED (TS_WAITING OR k)" "TS_WAITING OR k \<in> set wf_tstats"
    "(TS_WAITING OR k) AND TS_WAIT_MASK = k"
    "TSTAT_WAIT_WOBJ (TS_WAITING OR k) \<longleftrightarrow> k \<notin> {TS_WAIT_DLY, TS_WAIT_SLP}"
    "TSTAT_WAIT_WOBJCB (TS_WAITING OR k) \<longleftrightarrow>
       k \<notin> {TS_WAIT_DLY, TS_WAIT_SLP, TS_WAIT_RDTQ, TS_WAIT_RPDQ}"
  using assms by (auto simp: wait_status_def tstat_macros tstat_consts wf_tstats_def)

lemma wait_cb_object:
  "wait_status k \<Longrightarrow> k \<in> set (wobj_status w) \<Longrightarrow> wait_cb (TS_WAITING OR k) = CB_wait_tmout"
  by (cases w) (auto simp: wait_cb_def waiting_status(5) tstat_consts)

definition enter_wait :: "tstat \<Rightarrow> winfo \<Rightarrow> tcb \<Rightarrow> tcb" where
  "enter_wait k i tc = tc\<lparr>winfo_obj := i, tstat := TS_WAITING OR k\<rparr>"

lemma wf_runnable_pend:
  "wf_tcb tc \<Longrightarrow> TSTAT_RUNNABLE (tstat tc) \<Longrightarrow>
   \<not> pend_relwai tc \<and> \<not> pend_chgpri tc \<and> \<not> TSTAT_WAITING (tstat tc)"
  using wf_wobj_waiting [of "tstat tc"] wf_waiting_not_runnable [of "tstat tc"]
  by (auto simp: wf_tcb_def)

lemma runtsk_ready:
  assumes K: "kinv C P Q s" and m: "may_block me t s"
  shows "t \<in> set (Q (RDY me (priority (tcb_of s t))))"
proof -
  have "place (tcb_of s t) = Some (RDY me (priority (tcb_of s t)))"
    using m by (simp add: may_block_def place_def)
  then show ?thesis using kinvD(6) [OF K] by blast
qed

lemma enter_wait_qinv:
  fixes k :: tstat and i :: winfo
  assumes K: "kinv C P Q s" and m: "may_block me t s"
  defines "s1 \<equiv> upd_tcb t (enter_wait k i) s"
  shows "qinv {t} Q s1" and "tinv {t} s1" and "\<And>p. TM_TSK t \<notin> registered s1 p"
    and "core_frame s s1"
proof -
  note D = kinvD [OF K]
  show "qinv {t} Q s1"
    unfolding s1_def
    by (rule qinv_upd_tcb [OF qinv_weaken [OF D(1)]]) (auto simp: enter_wait_def)
  show "tinv {t} s1"
    by (rule tinv_frame [OF tinv_weaken [OF D(2)]]) (auto simp: s1_def tm_place_def cb_ok_def same_handlers_def)
  have "tm_place s t = None"
    using wf_runnable_pend [OF D(5)] m by (simp add: tm_place_def may_block_def)
  then show "TM_TSK t \<notin> registered s1 p" for p
    using tinvD(3) [OF D(2), of t p] by (simp add: s1_def registered_def)
  show "core_frame s s1" by (simp add: s1_def)
qed

definition blocks_on :: "kstate \<Rightarrow> kstate \<Rightarrow> bool" where
  "blocks_on s1 s2 \<longleftrightarrow> core_frame s1 s2 \<and> tcb_of s2 = tcb_of s1"

text \<open>The three ways in which the running task stops, with one statement.\<close>

definition made_wait :: "tskix \<Rightarrow> prcix \<Rightarrow> kstate \<Rightarrow> kstate \<Rightarrow> bool" where
  "made_wait t me s s2 \<longleftrightarrow> s2 = make_wait t s \<or>
     (\<exists>tmout. s2 = make_wait_tmout tmout me s \<and> wait_cb (tstat (tcb_of s t)) = CB_wait_tmout) \<or>
     (\<exists>tm. s2 = make_delay t me tm (wait_cb (tstat (tcb_of s t))) s)"

lemma make_wait_any:
  assumes K: "kinv C P Q s" and m: "may_block me t s" and k: "wait_status k"
    and s2: "made_wait t me (upd_tcb t (enter_wait k i) s) s2"
  defines "h \<equiv> RDY me (priority (tcb_of s t))"
  shows "qinv {t} (Q(h := remove1 t (Q h))) s2" and "\<not> queued (Q(h := remove1 t (Q h))) t"
    and "dinv (insert me P) s2" and "core_frame s s2"
    and "tcb_of s2 = (tcb_of s)(t := enter_wait k i (tcb_of s t))" and "tinv {} s2"
proof -
  let ?s1 = "upd_tcb t (enter_wait k i) s"
  note E = enter_wait_qinv [OF K m, of k i]
  have p1: "p_pcb (tcb_of ?s1 t) = me" "priority (tcb_of ?s1 t) = priority (tcb_of s t)"
    using m by (simp_all add: may_block_def enter_wait_def)
  have r1: "p_runtsk (pcb_of ?s1 me) = Some t" using m by (simp add: may_block_def)
  have w1: "TSTAT_WAITING (tstat (tcb_of ?s1 t))"
    using waiting_status [OF k] by (simp add: enter_wait_def)
  have tQ: "t \<in> set (Q h)" using runtsk_ready [OF K m] by (simp add: h_def)
  have res: "qinv {t} (Q(h := remove1 t (Q h))) s2 \<and> \<not> queued (Q(h := remove1 t (Q h))) t \<and>
    (\<exists>b. sched_change me b ?s1 s2) \<and> core_frame ?s1 s2 \<and> tcb_of s2 = tcb_of ?s1 \<and> tinv {} s2"
    using s2 [unfolded made_wait_def]
  proof (elim disjE exE)
    assume e: "s2 = make_wait t ?s1"
    note M = make_wait_inv [OF E(1) _ _ E(2,3), unfolded p1, folded e h_def]
    show ?thesis using M tQ by simp
  next
    fix tmout assume e: "s2 = make_wait_tmout tmout me ?s1 \<and> wait_cb (tstat (tcb_of ?s1 t)) = CB_wait_tmout"
    show ?thesis
      using make_wait_tmout_inv [OF E(1) _ _ _ _ E(2,3) w1 e [THEN conjunct2] e [THEN conjunct1], unfolded p1, folded h_def]
        r1 tQ by simp
  next
    fix tm assume e: "s2 = make_delay t me tm (wait_cb (tstat (tcb_of ?s1 t))) ?s1"
    show ?thesis
      using make_delay_inv [OF E(1) _ _ _ E(2,3) w1 refl e, unfolded p1, folded h_def] tQ by simp
  qed
  then show "qinv {t} (Q(h := remove1 t (Q h))) s2" "\<not> queued (Q(h := remove1 t (Q h))) t" "tinv {} s2"
    by blast+
  show cf: "core_frame s s2" using res core_frame_trans [OF E(4)] by blast
  show "tcb_of s2 = (tcb_of s)(t := enter_wait k i (tcb_of s t))" using res by simp
  have "\<exists>b. sched_change me b s s2" using res by (simp add: sched_change_def)
  then obtain b where "sched_change me b s s2" by blast
  from dinv_core_change [OF kinvD(3) [OF K] cf this]
  show "dinv (insert me P) s2" by (rule dinv_weaken) auto
qed

lemma block_unlinked_kinv:
  assumes K: "kinv C P Q s" and m: "may_block me t s" and k: "k = TS_WAIT_SLP \<or> k = TS_WAIT_DLY"
    and s2: "made_wait t me (upd_tcb t (enter_wait k i) s) s2"
  defines "h \<equiv> RDY me (priority (tcb_of s t))"
  shows "kinv C (insert me P) (Q(h := remove1 t (Q h))) s2" and "objs s2 = objs s"
    and "tcb_of s2 = (tcb_of s)(t := enter_wait k i (tcb_of s t))"
proof -
  have ws: "wait_status k" using k by auto
  note M = make_wait_any [OF K m ws s2, folded h_def]
  have wf: "wf_tcb (tcb_of s2 t)"
    using wf_runnable_pend [OF kinvD(5) [OF K, of t]] kinvD(5) [OF K, of t] waiting_status [OF ws] k m
    by (auto simp: M(5) wf_tcb_def enter_wait_def may_block_def)
  have pl: "place (tcb_of s2 t) = None"
    using waiting_status [OF ws] k by (auto simp: M(5) enter_wait_def place_def)
  have "qinv ({t} - {t}) (Q(h := remove1 t (Q h))) s2"
    by (rule qinv_arrive [OF M(1) wf]) (use M(2) pl in \<open>simp add: queued_def\<close>)
  moreover have "rinv s2"
    by (rule rinv_core [OF kinvD(8) [OF K] M(4)])
       (simp_all add: M(5) enter_wait_def not_dormant(2) [OF waiting_status(1) [OF ws]])
  moreover have "sinv C (Q(h := remove1 t (Q h))) s2"
    by (rule sinv_cong [OF kinvD(9) [OF K]]) (auto simp: h_def M(5) enter_wait_def)
  ultimately show "kinv C (insert me P) (Q(h := remove1 t (Q h))) s2" using M(3,6) by (simp add: kinv_def)
  show "objs s2 = objs s" by (rule core_frameD(2) [OF M(4)])
  show "tcb_of s2 = (tcb_of s)(t := enter_wait k i (tcb_of s t))" by (rule M(5))
qed

lemma block_linked_kinv:
  assumes K: "kinv C P Q s" and m: "may_block me t s" and k: "wait_status k" "k \<in> set (wobj_status w)"
    and s2: "made_wait t me (upd_tcb t (enter_wait k i) s) s2"
    and h: "h = (if k \<in> {TS_WAIT_RDTQ, TS_WAIT_RPDQ} then RWAITQ w else WAITQ w)"
    and R: "qrep (q (kq s2)) (Q'(h := l))" and l: "set l = insert t (set (Q h))"
    and Q': "Q' = Q(RDY me (priority (tcb_of s t)) := remove1 t (Q (RDY me (priority (tcb_of s t)))))"
    and s': "s' = set_wobjcb t w (on_kq q s2)"
    and so: "\<And>v. h = WAITQ v \<Longrightarrow> wobjatr C v AND TA_TPRI \<noteq> 0 \<Longrightarrow>
      sorted (map (\<lambda>u. priority (tcb_of s u)) l)"
  shows "kinv C (insert me P) (Q'(h := l)) s'" and "objs s' = objs s"
    and "tcb_of s' = (tcb_of s)(t := (enter_wait k i (tcb_of s t))\<lparr>p_wobjcb := Some w\<rparr>)"
proof -
  note M = make_wait_any [OF K m k(1) s2, folded Q']
  have kk: "k \<notin> {TS_WAIT_DLY, TS_WAIT_SLP}"
    using k(2) by (cases w) (auto simp: tstat_consts)
  have l': "set l = insert t (set (Q' h))" using l h by (simp add: Q')
  let ?tc = "tcb_of s2 t"
  have "qinv {} (Q'(h := l)) s'"
    unfolding s' set_wobjcb_def
  proof (rule link_arrive [of t Q' s2 q h l, OF M(1,2) R l'])
    show "h \<noteq> RDY p j" for p j using h by auto
    show "wf_tcb (?tc\<lparr>p_wobjcb := Some w\<rparr>)"
      using wf_runnable_pend [OF kinvD(5) [OF K, of t]] kinvD(5) [OF K, of t] waiting_status [OF k(1)] k(2) m
      by (auto simp: M(5) wf_tcb_def enter_wait_def may_block_def)
    show "place (?tc\<lparr>p_wobjcb := Some w\<rparr>) = Some h"
      using waiting_status [OF k(1)] kk h by (auto simp: M(5) enter_wait_def place_def)
  qed simp_all
  moreover have "tinv {} s'"
    by (rule tinv_frame [OF M(6)])
       (auto simp: s' set_wobjcb_def on_kq_def upd_tcb_def tm_place_def cb_ok_def same_handlers_def)
  moreover have "dinv (insert me P) s'"
    using M(3) by (simp add: s' set_wobjcb_def dinv_def on_kq_def)
  moreover have "rinv s'"
    by (rule rinv_core [OF kinvD(8) [OF K]])
       (use M(4) in \<open>simp_all add: s' set_wobjcb_def M(5) enter_wait_def not_dormant(2) [OF waiting_status(1) [OF k(1)]]\<close>)
  moreover have "sinv C (Q'(h := l)) s'"
  proof -
    have "(\<lambda>u. priority (tcb_of s' u)) = (\<lambda>u. priority (tcb_of s u))"
      by (auto simp: s' set_wobjcb_def M(5) enter_wait_def)
    then show ?thesis using kinvD(9) [OF K] so by (auto simp: sinv_def Q')
  qed
  ultimately show "kinv C (insert me P) (Q'(h := l)) s'" by (simp add: kinv_def)
  show "objs s' = objs s" using core_frameD(2) [OF M(4)] by (simp add: s' set_wobjcb_def on_kq_def)
  show "tcb_of s' = (tcb_of s)(t := (enter_wait k i (tcb_of s t))\<lparr>p_wobjcb := Some w\<rparr>)"
    by (simp add: s' set_wobjcb_def M(5))
qed

lemma wobj_block_kinv:
  assumes K: "kinv C P Q s" and m: "may_block me t s" and k: "wait_status k" "k \<in> set (wobj_status w)"
      "k \<notin> {TS_WAIT_RDTQ, TS_WAIT_RPDQ}"
    and s': "s' = wobj_make_wait C w t (upd_tcb t (enter_wait k i) s) \<or>
      s' = wobj_make_wait_tmout C w tmout t (upd_tcb t (enter_wait k i) s)"
  defines "Q' \<equiv> Q(RDY me (priority (tcb_of s t)) := remove1 t (Q (RDY me (priority (tcb_of s t)))))"
  shows "kinv C (insert me P)
      (Q'(WAITQ w := wait_insert C (\<lambda>u. priority (tcb_of s u)) w t (Q (WAITQ w)))) s'"
    and "objs s' = objs s"
    and "tcb_of s' = (tcb_of s)(t := (enter_wait k i (tcb_of s t))\<lparr>p_wobjcb := Some w\<rparr>)"
proof -
  let ?s1 = "upd_tcb t (enter_wait k i) s"
  have pp: "p_pcb (tcb_of ?s1 t) = me" using m by (simp add: may_block_def enter_wait_def)
  have cb: "wait_cb (tstat (tcb_of ?s1 t)) = CB_wait_tmout"
    using wait_cb_object [OF k(1,2)] by (simp add: enter_wait_def)
  obtain s2 where s2: "made_wait t me ?s1 s2" and s'2: "s' = set_wobjcb t w (wobj_queue_insert C w t s2)"
    using s' pp cb unfolding wobj_make_wait_def wobj_make_wait_tmout_def Let_def made_wait_def by metis
  note M = make_wait_any [OF K m k(1) s2, folded Q'_def]
  have pr: "(\<lambda>u. priority (tcb_of s2 u)) = (\<lambda>u. priority (tcb_of s u))"
    by (auto simp: M(5) enter_wait_def)
  obtain q where q: "wobj_queue_insert C w t s2 = on_kq q s2"
    "qrep (q (kq s2)) (Q'(WAITQ w := wait_insert C (\<lambda>u. priority (tcb_of s u)) w t (Q' (WAITQ w))))"
    using wobj_queue_insert_eq [OF qinvD(1) [OF M(1)] M(2), of C w, unfolded pr] by blast
  have QW: "Q' (WAITQ w) = Q (WAITQ w)" by (simp add: Q'_def)
  have so: "wobjatr C w AND TA_TPRI \<noteq> 0 \<Longrightarrow> sorted (map (\<lambda>u. priority (tcb_of s u))
      (wait_insert C (\<lambda>u. priority (tcb_of s u)) w t (Q (WAITQ w))))"
    using kinvD(9) [OF K] by (simp add: sinv_def wait_insert_def sorted_tpri_insert)
  note B = block_linked_kinv [OF K m k(1,2) s2 refl _ _ Q'_def [THEN meta_eq_to_obj_eq], of q
      "wait_insert C (\<lambda>u. priority (tcb_of s u)) w t (Q (WAITQ w))" s']
  show "kinv C (insert me P)
      (Q'(WAITQ w := wait_insert C (\<lambda>u. priority (tcb_of s u)) w t (Q (WAITQ w)))) s'"
    "objs s' = objs s"
    "tcb_of s' = (tcb_of s)(t := (enter_wait k i (tcb_of s t))\<lparr>p_wobjcb := Some w\<rparr>)"
    using B q k(3) QW s'2 so by simp_all
qed

section \<open>Deleting a wait queue\<close>

text \<open>What \<open>init_wait_queue\<close> does to the task control blocks.\<close>

definition all_ended :: "ercd \<Rightarrow> tskix list \<Rightarrow> (tskix \<Rightarrow> tcb) \<Rightarrow> tskix \<Rightarrow> tcb" where
  "all_ended e ts f = (\<lambda>t. if t \<in> set ts then ended_tcb e (f t) else f t)"

definition same_waits :: "qhdr \<Rightarrow> (qhdr \<Rightarrow> tskix list) \<Rightarrow> (qhdr \<Rightarrow> tskix list) \<Rightarrow> bool" where
  "same_waits h Q Q' \<longleftrightarrow> (\<forall>k. (\<forall>p i. k \<noteq> RDY p i) \<longrightarrow> k \<noteq> h \<longrightarrow> Q' k = Q k)"

lemma ready_after_other: "(\<And>p i. k \<noteq> RDY p i) \<Longrightarrow> ready_after s t Q k = Q k"
  by (auto simp: ready_after_def Let_def)

lemma init_wait_queue_step_kinv:
  assumes K: "kinv C P Q s" and Qh: "Q h = t # ts" and h: "\<And>p i. h \<noteq> RDY p i"
  shows "\<exists>d s' Q'. init_wait_queue_step me (Hdr h) s = Some (d, s') \<and>
    kinv C (if d then insert me P else P) Q' s' \<and> Q' h = ts \<and> same_waits h Q Q' \<and>
    objs s' = objs s \<and> tcb_of s' = (tcb_of s)(t := ended_tcb E_DLT (tcb_of s t))"
proof -
  note D = kinvD [OF K]
  let ?s1 = "on_kq (queue_delete (Ent t)) s"
  obtain b s2 where e: "end_wait t E_DLT ?s1 = (b, s2)" by fastforce
  have t: "t \<in> set (Q h)" using Qh by simp
  note W = wake_kinv_id [OF K t h e]
  obtain d s' where d: "t_request me (p_pcb (tcb_of s t)) b s2 = (d, s')" by fastforce
  note R = t_request_kinv [OF W(1) d]
  have st: "init_wait_queue_step me (Hdr h) s = Some (d, s')"
    using queue_delete_next_eq [OF D(4) Qh] e d
    by (simp add: init_wait_queue_step_def on_kq_def Let_def end_wait_def t_request_def split: if_splits)
  let ?Q = "ready_after s t (Q(h := remove1 t (Q h)))"
  have "?Q h = ts" using ready_after_other [of h s t] h Qh by simp
  moreover have "same_waits h Q ?Q"
    using ready_after_other [of _ s t "Q(h := remove1 t (Q h))"] by (auto simp: same_waits_def)
  ultimately show ?thesis
    using st R W(2,3) by auto
qed

lemma init_wait_queue_loop_kinv:
  assumes "kinv C (if d0 then insert me P else P) Q s" and "Q h = ts" and h: "\<And>p i. h \<noteq> RDY p i"
  shows "\<exists>d s' Q'. init_wait_queue_loop me (Hdr h) d0 s = Some (d, s') \<and>
    kinv C (if d then insert me P else P) Q' s' \<and> Q' h = [] \<and> same_waits h Q Q' \<and>
    objs s' = objs s \<and> tcb_of s' = all_ended E_DLT ts (tcb_of s)"
  using assms(1,2)
proof (induction ts arbitrary: d0 Q s)
  case Nil
  have "queue_empty (Hdr h) (kq s)" using kinvD(4) [OF Nil(1)] Nil(2) by simp
  then have "init_wait_queue_loop me (Hdr h) d0 s = Some (d0, s)"
    by (subst init_wait_queue_loop.simps) simp
  then show ?case using Nil by (auto simp: all_ended_def same_waits_def)
next
  case (Cons t ts)
  note D = kinvD [OF Cons(2)]
  obtain d1 s1 Q1 where st: "init_wait_queue_step me (Hdr h) s = Some (d1, s1)"
    and K1: "kinv C (if d1 then insert me (if d0 then insert me P else P) else (if d0 then insert me P else P)) Q1 s1"
    and Q1: "Q1 h = ts" "same_waits h Q Q1" "objs s1 = objs s"
    and tc: "tcb_of s1 = (tcb_of s)(t := ended_tcb E_DLT (tcb_of s t))"
    using init_wait_queue_step_kinv [OF Cons(2,3) h] by blast
  have "kinv C (if d0 \<or> d1 then insert me P else P) Q1 s1" using K1 by (auto split: if_splits)
  from Cons.IH [OF this Q1(1)] obtain d s' Q' where
    l: "init_wait_queue_loop me (Hdr h) (d0 \<or> d1) s1 = Some (d, s')"
    and K': "kinv C (if d then insert me P else P) Q' s'" "Q' h = []" "same_waits h Q1 Q'"
      "objs s' = objs s1" "tcb_of s' = all_ended E_DLT ts (tcb_of s1)" by blast
  have "\<not> queue_empty (Hdr h) (kq s)" using D(4) Cons(3) by simp
  then have "init_wait_queue_loop me (Hdr h) d0 s = Some (d, s')"
    using st l by (subst init_wait_queue_loop.simps) simp
  moreover have "t \<notin> set ts" using qrep_distinct [OF D(4), of h] Cons(3) by simp
  then have "tcb_of s' = all_ended E_DLT (t # ts) (tcb_of s)"
    using K'(5) tc by (auto simp: all_ended_def)
  moreover have "same_waits h Q Q'" using Q1(2) K'(3) by (simp add: same_waits_def)
  ultimately show ?case using K'(1,2,4) Q1(3) by auto
qed

lemma init_wait_queue_kinv:
  assumes K: "kinv C P Q s" and h: "\<And>p i. h \<noteq> RDY p i" and eq: "init_wait_queue me (Hdr h) s = (d, s')"
  shows "\<exists>Q'. kinv C (if d then insert me P else P) Q' s' \<and> Q' h = [] \<and> same_waits h Q Q' \<and>
    objs s' = objs s \<and> tcb_of s' = all_ended E_DLT (Q h) (tcb_of s)"
  using init_wait_queue_loop_kinv [of C False me P Q s h "Q h"] K h eq
  by (auto simp: init_wait_queue_def)

section \<open>Changing a priority keeps the invariants\<close>

text \<open>The runnable branch of \<open>change_priority\<close>.\<close>

lemma top_task_moved:
  assumes Q: "qinv X Q s" and t: "t \<in> set (Q (RDY p old))" and new: "new < 16"
  defines "Q1 \<equiv> Q(RDY p old := remove1 t (Q (RDY p old)))"
  defines "Q2 \<equiv> Q1(RDY p new := Q1 (RDY p new) @ [t])"
  shows "top_task Q p = Some t \<Longrightarrow> new < old \<Longrightarrow> top_task Q2 p = Some t"
    and "top_task Q p = Some u \<Longrightarrow> u \<noteq> t \<Longrightarrow>
      top_task Q2 p = (if new < priority (tcb_of s u) then Some t else Some u)"
proof -
  note D = qinvD [OF Q]
  have ti: "p = p_pcb (tcb_of s t)" "old = priority (tcb_of s t)" using D(5) [OF t] by auto
  obtain b s1 where m: "make_non_runnable t s = (b, s1)" by fastforce
  have Q1i: "qinv (insert t X) Q1 s1"
    using make_non_runnable_inv(1) [OF Q _ m] t ti by (simp add: Q1_def)
  have tc: "tcb_of s1 = tcb_of s" using sched_frameD(1) [OF make_non_runnable_frame [OF m]] .
  note A = top_task_append [OF Q1i new, of p t, folded Q2_def, unfolded tc]
  have sub: "set (Q1 k) \<subseteq> set (Q k)" for k using set_remove1_subset [of t "Q (RDY p old)"] by (auto simp: Q1_def)
  show "top_task Q2 p = Some t" if top: "top_task Q p = Some t" and lt: "new < old"
  proof (cases "top_task Q1 p")
    case (Some u)
    have "u \<in> set (Q1 (RDY p (priority (tcb_of s u))))"
      using qinv_top_in(1) [OF Q1i Some] tc by simp
    then have "Q (RDY p (priority (tcb_of s u))) \<noteq> []" using sub by fastforce
    then have "old \<le> priority (tcb_of s u)" using qinv_top_in(3) [OF Q top] ti by (meson not_less)
    then show ?thesis using A Some lt by simp
  qed (use A in simp)
  show "top_task Q2 p = (if new < priority (tcb_of s u) then Some t else Some u)"
    if top: "top_task Q p = Some u" and ne: "u \<noteq> t"
    using A top_task_remove(1) [OF Q t] top ne by (simp add: Q1_def)
qed

lemma change_priority_runnable:
  assumes Q: "qinv {} Q s" and run: "TSTAT_RUNNABLE (tstat (tcb_of s t))" and new: "new < 16"
    and eq: "change_priority C t new s = (b, s')"
  defines "p \<equiv> p_pcb (tcb_of s t)" and "old \<equiv> priority (tcb_of s t)"
  defines "Q1 \<equiv> Q(RDY p old := remove1 t (Q (RDY p old)))"
  defines "Q2 \<equiv> Q1(RDY p new := Q1 (RDY p new) @ [t])"
  shows "qinv {} Q2 s'" and "sched_change p b s s'" and "core_frame s s'"
    and "tcb_of s' = (tcb_of s)(t := (tcb_of s t)\<lparr>priority := new\<rparr>)"
    and "tevt_of s' = tevt_of s" "tm_index s' = tm_index s" "tm_callback s' = tm_callback s"
proof -
  note D = qinvD [OF Q]
  have old: "old < 16" using D(2) by (simp add: old_def)
  have pl: "place (tcb_of s t) = Some (RDY p old)" using run by (simp add: place_def p_def old_def)
  then have t: "t \<in> set (Q (RDY p old))" using D(4) by simp
  note TM = top_task_moved [OF Q t new, folded Q1_def, folded Q2_def]
  define s1 where "s1 = upd_tcb t (\<lambda>b. b\<lparr>priority := new\<rparr>) s"
  define s2 where "s2 = on_kq (queue_delete (Ent t)) s1"
  define s3 where "s3 = (if queue_empty (Hdr (RDY p old)) (kq s2) then primap_clear p old s2 else s2)"
  define s4 where "s4 = on_kq (queue_insert_prev (Hdr (RDY p new)) (Ent t)) s3"
  define s5 where "s5 = primap_set p new s4"
  have R1: "qrep (kq s2) Q1" using qrep_delete [OF D(1) t] by (simp add: s2_def s1_def Q1_def)
  have kq3: "kq s3 = kq s2" by (simp add: s3_def)
  have nq: "\<not> queued Q1 t" unfolding Q1_def by (rule ring.not_queued_unlink [OF D(1) t])
  have R2: "qrep (kq s5) Q2"
    using qrep_insert_prev_hdr [OF R1 nq, of "RDY p new"] by (simp add: s5_def s4_def kq3 Q2_def)
  have tc5: "tcb_of s5 = (tcb_of s)(t := (tcb_of s t)\<lparr>priority := new\<rparr>)"
    by (simp add: s5_def s4_def s3_def s2_def s1_def)
  have em: "queue_empty (Hdr (RDY p old)) (kq s2) \<longleftrightarrow> Q1 (RDY p old) = []"
    by (rule qrep_queue_empty [OF R1])
  have pm5: "bit (ready_primap (pcb_of s5 q)) j \<longleftrightarrow> Q2 (RDY q j) \<noteq> []" if j: "j < 16" for q j
    using D(6) [OF j, of q] j em t
    by (auto simp: s5_def s4_def s3_def s2_def s1_def Q2_def Q1_def bit_or_iff bit_and_iff
        bit_not_iff possible_bit_def bit_PRIMAP_BIT)
  have sc5: "p_schedtsk (pcb_of s5 q) = top_task Q q" for q
    using D(7) [of q] by (auto simp: s5_def s4_def s3_def s2_def s1_def)
  have oth: "top_task Q2 q = top_task Q q" if "q \<noteq> p" for q
    by (rule top_task_cong) (use that in \<open>simp add: Q2_def Q1_def\<close>)
  have se: "search_schedtsk p s5 = top_task Q2 p"
  proof (rule search_schedtsk_top [OF R2])
    have "Q2 (RDY p new) \<noteq> []" by (simp add: Q2_def)
    then have "bit (ready_primap (pcb_of s5 p)) new" using pm5 [OF new] by simp
    then show "ready_primap (pcb_of s5 p) \<noteq> 0" by auto
  qed (use pm5 in auto)
  have un: "(b, s') =
     (if top_task Q p = Some t then
        (if old \<le> new then (top_task Q2 p \<noteq> Some t \<and> dspflg (pcb_of s p), set_schedtsk p (top_task Q2 p) s5)
         else (False, s5))
      else if new < priority (tcb_of s5 (the (top_task Q p)))
      then (dspflg (pcb_of s p), set_schedtsk p (Some t) s5) else (False, s5))"
  proof -
    have "dspflg (pcb_of s5 p) = dspflg (pcb_of s p)"
      by (simp add: s5_def s4_def s3_def s2_def s1_def)
    moreover have "TSTAT_RUNNABLE (tstat (tcb_of s1 t))" using run by (simp add: s1_def)
    ultimately show ?thesis
      unfolding eq [symmetric] change_priority_def Let_def p_def [symmetric] old_def [symmetric]
      unfolding s1_def [symmetric] unfolding s2_def [symmetric] unfolding s3_def [symmetric]
      unfolding s4_def [symmetric] unfolding s5_def [symmetric]
      using sc5 [of p] se by simp
  qed
  have nn: "top_task Q p \<noteq> None" using t old by (auto simp: top_task_None)
  have s'5: "s' = s5 \<or> (\<exists>x. s' = set_schedtsk p x s5)" using un by (auto split: if_splits)
  have sc': "p_schedtsk (pcb_of s' p) = top_task Q2 p"
  proof (cases "top_task Q p = Some t")
    case True
    then show ?thesis using un TM(1) sc5 by (auto split: if_splits)
  next
    case False
    then obtain u where u: "top_task Q p = Some u" "u \<noteq> t" using nn by auto
    then have "tcb_of s5 u = tcb_of s u" by (simp add: tc5)
    then show ?thesis using un TM(2) [OF u] sc5 u by (auto split: if_splits)
  qed
  have sch: "p_schedtsk (pcb_of s' q) = top_task Q2 q" for q
    using sc' oth [of q] sc5 [of q] s'5 by (cases "q = p") auto
  have tc': "tcb_of s' = tcb_of s5" "kq s' = kq s5"
    "\<And>q. ready_primap (pcb_of s' q) = ready_primap (pcb_of s5 q)"
    using s'5 by auto
  show "tcb_of s' = (tcb_of s)(t := (tcb_of s t)\<lparr>priority := new\<rparr>)" using tc' tc5 by simp
  have wf: "wf_tcb (tcb_of s5 u)" for u
    using D(3) [of u] new by (auto simp: tc5 wf_tcb_def split: option.splits)
  have mem: "u \<in> set (Q2 k) \<longleftrightarrow> place (tcb_of s5 u) = Some k" for u k
  proof (cases "u = t")
    case True
    have "place ((tcb_of s t)\<lparr>priority := new\<rparr>) = Some (RDY p new)"
      using run by (simp add: place_def p_def)
    then show ?thesis using True nq by (auto simp: tc5 Q2_def queued_def)
  next
    case False
    then show ?thesis using D(4) [of u k] by (auto simp: tc5 Q2_def Q1_def)
  qed
  show "qinv {} Q2 s'"
    unfolding qinv_def tc'
    using R2 wf mem pm5 sch by (auto simp: place_def wf_tcb_def split: if_splits)
  have "sched_frame s1 s5" by (simp add: s5_def s4_def s3_def s2_def)
  then have F: "sched_frame s1 s'" using s'5 by auto
  show "core_frame s s'" by (rule core_frame_trans [OF _ sched_core_frame [OF F]]) (simp add: s1_def)
  show "tevt_of s' = tevt_of s" "tm_index s' = tm_index s" "tm_callback s' = tm_callback s"
    using sched_frameD(2-4) [OF F] by (simp_all add: s1_def)
  show "sched_change p b s s'"
    unfolding sched_change_def
  proof (intro conjI allI impI)
    show "p_schedtsk (pcb_of s' q) = p_schedtsk (pcb_of s q)" if "q \<noteq> p" for q
      using sch oth [OF that] D(7) by simp
    show "dspflg (pcb_of s p)" if b using that un by (auto split: if_splits)
    show "p_schedtsk (pcb_of s' p) = p_schedtsk (pcb_of s p)" if "\<not> b" "dspflg (pcb_of s p)"
      using that un sc5 D(7) [of p] by (auto split: if_splits)
  qed
qed

text \<open>A change of \<open>priority\<close> moves no task to another wait queue.\<close>

definition perm_waits :: "(qhdr \<Rightarrow> tskix list) \<Rightarrow> (qhdr \<Rightarrow> tskix list) \<Rightarrow> bool" where
  "perm_waits Q Q' \<longleftrightarrow> (\<forall>k. (\<forall>p i. k \<noteq> RDY p i) \<longrightarrow> mset (Q' k) = mset (Q k))"

lemma mset_tpri_insert: "mset (tpri_insert prio t xs) = add_mset t (mset xs)"
proof -
  have "mset (takeWhile P xs) + mset (dropWhile P xs) = mset xs" for P :: "'a \<Rightarrow> bool"
    by (metis mset_append takeWhile_dropWhile_id)
  then show ?thesis by (simp add: tpri_insert_def)
qed

definition reprioritized :: "cfg \<Rightarrow> wobj \<Rightarrow> (tskix \<Rightarrow> nat) \<Rightarrow> tskix \<Rightarrow> tskix list \<Rightarrow> tskix list" where
  "reprioritized C w prio t xs =
     (if wobjatr C w AND TA_TPRI \<noteq> 0 then tpri_insert prio t (remove1 t xs) else xs)"

lemma change_priority_waiting:
  assumes Q: "qinv {} Q s" and nr: "\<not> TSTAT_RUNNABLE (tstat (tcb_of s t))" and new: "new < 16"
    and eq: "change_priority C t new s = (b, s')"
  shows "\<not> b" and "\<exists>Q'. qinv {} Q' s' \<and> perm_waits Q Q' \<and> (\<forall>p i. Q' (RDY p i) = Q (RDY p i)) \<and>
      (\<forall>w. Q' (WAITQ w) = (if place (tcb_of s t) = Some (WAITQ w)
         then reprioritized C w (\<lambda>u. priority (tcb_of s' u)) t (Q (WAITQ w)) else Q (WAITQ w)))"
    and "tcb_of s' = (tcb_of s)(t := (tcb_of s t)\<lparr>priority := new\<rparr>)"
    and "\<exists>q. s' = on_kq q (upd_tcb t (\<lambda>b. b\<lparr>priority := new\<rparr>) s)"
proof -
  note D = qinvD [OF Q]
  let ?f = "\<lambda>b::tcb. b\<lparr>priority := new\<rparr>"
  let ?s1 = "upd_tcb t ?f s"
  have wt: "wf_tcb (tcb_of s t)" using D(3) by simp
  have pl: "place (?f (tcb_of s t)) = place (tcb_of s t)" using nr by (simp add: place_def)
  have wf1: "wf_tcb (tcb_of ?s1 t)"
    using wt new by (auto simp: wf_tcb_def split: option.splits)
  have nrd: "t \<notin> set (Q (RDY p i))" for p i
    using D(4) [of t "RDY p i"] nr by (auto simp: place_def split: if_splits)
  have Q1: "qinv {t} Q ?s1"
    by (rule qinv_upd_tcb_nr [OF qinv_weaken [OF Q]]) (use new nrd in auto)
  have at: "t \<in> set (Q h) \<longleftrightarrow> place (tcb_of ?s1 t) = Some h" for h using D(4) pl by simp
  have Q1': "qinv {} Q ?s1" using qinv_arrive [OF Q1 wf1] at by simp
  have nrun: "\<not> TSTAT_RUNNABLE (tstat (tcb_of ?s1 t))" using nr by simp
  have all: "\<not> b \<and> (\<exists>q. s' = on_kq q ?s1) \<and>
    (\<exists>Q'. qinv {} Q' s' \<and> perm_waits Q Q' \<and> (\<forall>p i. Q' (RDY p i) = Q (RDY p i)) \<and>
      (\<forall>w. Q' (WAITQ w) = (if place (tcb_of s t) = Some (WAITQ w)
         then reprioritized C w (\<lambda>u. priority (tcb_of ?s1 u)) t (Q (WAITQ w)) else Q (WAITQ w))))"
  proof (cases "TSTAT_WAIT_WOBJCB (tstat (tcb_of s t)) \<and> wobjatr C (the (p_wobjcb (tcb_of s t))) AND TA_TPRI \<noteq> 0")
    case False
    have id: "on_kq (\<lambda>q. q) ?s1 = ?s1" by (simp add: on_kq_def)
    have r: "b = False \<and> s' = ?s1"
      using eq nr False by (auto simp: change_priority_def Let_def wobj_change_priority_def)
    have "place (tcb_of s t) = Some (WAITQ w) \<Longrightarrow> reprioritized C w prio t xs = xs" for w prio xs
      using False by (auto simp: place_def reprioritized_def split: if_splits)
    then show ?thesis
      using r Q1' id by (intro conjI exI [of _ Q] exI [of _ "\<lambda>q. q"]) (auto simp: perm_waits_def)
  next
    case True
    let ?w = "the (p_wobjcb (tcb_of s t))"
    have wo: "TSTAT_WAIT_WOBJ (tstat (tcb_of s t))"
      using True wt by (auto simp: wf_tcb_def wf_tstats_def tstat_macros tstat_consts)
    then have h: "place (tcb_of s t) = Some (WAITQ ?w)"
      using wf_wobj_waiting [of "tstat (tcb_of s t)"] wt True by (simp add: place_def wf_tcb_def)
    then have tQ: "t \<in> set (Q (WAITQ ?w))" using D(4) by simp
    let ?Q1 = "Q(WAITQ ?w := remove1 t (Q (WAITQ ?w)))" and ?s2 = "on_kq (queue_delete (Ent t)) ?s1"
    note U = qinv_unlink [OF Q1 tQ, simplified]
    let ?prio = "\<lambda>u. priority (tcb_of ?s1 u)"
    obtain q where q: "queue_insert_tpri (Hdr (WAITQ ?w)) t ?s2 = on_kq q ?s2"
      "qrep (q (kq ?s2)) (?Q1(WAITQ ?w := tpri_insert ?prio t (?Q1 (WAITQ ?w))))"
      using queue_insert_tpri_eq [OF qinvD(1) [OF U(1)] U(2), of "WAITQ ?w"] by auto
    let ?l = "tpri_insert ?prio t (remove1 t (Q (WAITQ ?w)))"
    have r: "b = False \<and> s' = on_kq q ?s2"
      using eq nr True q by (simp add: change_priority_def Let_def wobj_change_priority_def)
    have "qinv {t} (?Q1(WAITQ ?w := ?l)) (on_kq q ?s2)"
      by (rule qinv_link [OF U(1)]) (use q in auto)
    then have "qinv ({t} - {t}) (?Q1(WAITQ ?w := ?l)) (on_kq q ?s2)"
    proof (rule qinv_arrive)
      show "wf_tcb (tcb_of (on_kq q ?s2) t)" using wf1 by simp
      show "t \<in> set ((?Q1(WAITQ ?w := ?l)) k) \<longleftrightarrow> place (tcb_of (on_kq q ?s2) t) = Some k" for k
        using at [of k] h pl by auto
    qed
    moreover have "perm_waits Q (?Q1(WAITQ ?w := ?l))"
      using tQ by (auto simp: perm_waits_def mset_tpri_insert)
    moreover have "on_kq q ?s2 = on_kq (\<lambda>st. q (queue_delete (Ent t) st)) ?s1"
      by (simp add: on_kq_def)
    ultimately show ?thesis
      using r h True by (intro conjI exI [of _ "?Q1(WAITQ ?w := ?l)"]) (auto simp: reprioritized_def)
  qed
  then obtain q where s': "s' = on_kq q ?s1" by blast
  then show "tcb_of s' = (tcb_of s)(t := ?f (tcb_of s t))" by simp
  have tc: "tcb_of s' = tcb_of ?s1" using s' by simp
  show "\<exists>Q'. qinv {} Q' s' \<and> perm_waits Q Q' \<and> (\<forall>p i. Q' (RDY p i) = Q (RDY p i)) \<and>
      (\<forall>w. Q' (WAITQ w) = (if place (tcb_of s t) = Some (WAITQ w)
         then reprioritized C w (\<lambda>u. priority (tcb_of s' u)) t (Q (WAITQ w)) else Q (WAITQ w)))"
    unfolding tc using all by blast
  show "\<not> b" "\<exists>q. s' = on_kq q ?s1" using all by auto
qed

lemma change_priority_kinv:
  assumes K: "kinv C P Q s" and new: "new < 16" and eq: "change_priority C t new s = (b, s')"
  shows "\<exists>Q'. kinv C (if b then insert (p_pcb (tcb_of s t)) P else P) Q' s' \<and> perm_waits Q Q'"
    and "objs s' = objs s" and "tcb_of s' = (tcb_of s)(t := (tcb_of s t)\<lparr>priority := new\<rparr>)"
proof -
  note D = kinvD [OF K]
  let ?p = "p_pcb (tcb_of s t)"
  have "(\<exists>Q'. kinv C (if b then insert ?p P else P) Q' s' \<and> perm_waits Q Q') \<and> objs s' = objs s \<and>
    tcb_of s' = (tcb_of s)(t := (tcb_of s t)\<lparr>priority := new\<rparr>)"
  proof (cases "TSTAT_RUNNABLE (tstat (tcb_of s t))")
    case True
    note R = change_priority_runnable [OF D(1) True new eq]
    have "tinv {} s'" by (rule tinv_frame [OF D(2)]) (use R(4-7) core_frameD(2) [OF R(3)] in \<open>auto simp: tm_place_def cb_ok_def same_handlers_def\<close>)
    moreover note dinv_core_change [OF D(3) R(3,2)]
    moreover have "rinv s'" by (rule rinv_core [OF D(8) R(3)]) (use R(4) in auto)
    moreover have "t \<notin> set (Q (WAITQ w))" for w
      using kinvD(6) [OF K, of t] True by (auto simp: place_def)
    then have "sinv C (Q(RDY ?p (priority (tcb_of s t)) := remove1 t (Q (RDY ?p (priority (tcb_of s t)))),
        RDY ?p new := (Q(RDY ?p (priority (tcb_of s t)) := remove1 t (Q (RDY ?p (priority (tcb_of s t))))))
          (RDY ?p new) @ [t])) s'"
      by (intro sinv_cong [OF D(9)]) (use R(4) in auto)
    ultimately show ?thesis
      using R(1,4) core_frameD(2) [OF R(3)] by (auto simp: kinv_def perm_waits_def intro!: exI)
  next
    case False
    note W = change_priority_waiting [OF D(1) False new eq]
    obtain q where s': "s' = on_kq q (upd_tcb t (\<lambda>b. b\<lparr>priority := new\<rparr>) s)" using W(4) by blast
    have "tinv {} s'"
      by (rule tinv_frame [OF D(2)]) (auto simp: s' on_kq_def upd_tcb_def tm_place_def cb_ok_def same_handlers_def)
    moreover have "dinv P s'" using D(3) by (simp add: s' dinv_def on_kq_def)
    moreover have "rinv s'" using D(8) by (simp add: s' rinv_def on_kq_def)
    moreover have "sinv C Q' s'"
      if Q': "\<forall>w. Q' (WAITQ w) = (if place (tcb_of s t) = Some (WAITQ w)
         then reprioritized C w (\<lambda>u. priority (tcb_of s' u)) t (Q (WAITQ w)) else Q (WAITQ w))" for Q'
      unfolding sinv_def
    proof (intro allI impI)
      fix w assume a: "wobjatr C w AND TA_TPRI \<noteq> 0"
      let ?f = "\<lambda>u. priority (tcb_of s' u)" and ?g = "\<lambda>u. priority (tcb_of s u)"
      have so: "sorted (map ?g (Q (WAITQ w)))" using D(9) a by (simp add: sinv_def)
      have "sorted (map ?g (remove1 t (Q (WAITQ w))))" by (rule sorted_map_remove1 [OF so])
      moreover have "t \<notin> set (remove1 t (Q (WAITQ w)))" using qrep_distinct [OF D(4)] by simp
      then have "map ?g (remove1 t (Q (WAITQ w))) = map ?f (remove1 t (Q (WAITQ w)))"
        using W(3) by (intro map_cong) auto
      ultimately have "sorted (map ?f (tpri_insert ?f t (remove1 t (Q (WAITQ w)))))"
        by (simp add: sorted_tpri_insert)
      moreover have "sorted (map ?f (Q (WAITQ w)))" if "place (tcb_of s t) \<noteq> Some (WAITQ w)"
      proof -
        have "map ?f (Q (WAITQ w)) = map ?g (Q (WAITQ w))"
          using W(3) D(6) [of t "WAITQ w"] that by (intro map_cong) auto
        then show ?thesis using so by (simp only:)
      qed
      ultimately show "sorted (map ?f (Q' (WAITQ w)))"
        using Q' a so by (auto simp: reprioritized_def)
    qed
    ultimately show ?thesis using W(1,2,3) s' by (auto simp: kinv_def on_kq_def)
  qed
  then show "\<exists>Q'. kinv C (if b then insert ?p P else P) Q' s' \<and> perm_waits Q Q'" "objs s' = objs s"
    "tcb_of s' = (tcb_of s)(t := (tcb_of s t)\<lparr>priority := new\<rparr>)" by blast+
qed

section \<open>What a service leaves alone\<close>

text \<open>
  \<open>keeps H Q s Q' s'\<close>: outside the headers \<open>H\<close>, no task is added to a wait queue, and the
  wait information of the tasks that stay is unchanged.
\<close>

definition keeps :: "qhdr set \<Rightarrow> (qhdr \<Rightarrow> tskix list) \<Rightarrow> kstate \<Rightarrow> (qhdr \<Rightarrow> tskix list) \<Rightarrow> kstate \<Rightarrow> bool" where
  "keeps H Q s Q' s' \<longleftrightarrow>
     (\<forall>k. k \<notin> H \<longrightarrow> (\<forall>p i. k \<noteq> RDY p i) \<longrightarrow> set (Q' k) \<subseteq> set (Q k) \<and>
        (\<forall>t \<in> set (Q' k). winfo_obj (tcb_of s' t) = winfo_obj (tcb_of s t)))"

lemma keeps_refl [simp]: "keeps H Q s Q s"
  by (simp add: keeps_def)

lemma keeps_trans: "keeps H Q s Q1 s1 \<Longrightarrow> keeps H Q1 s1 Q2 s2 \<Longrightarrow> keeps H Q s Q2 s2"
  unfolding keeps_def by (metis subset_iff)

lemma keeps_mono: "keeps H Q s Q' s' \<Longrightarrow> H \<subseteq> H' \<Longrightarrow> keeps H' Q s Q' s'"
  unfolding keeps_def by blast

lemma keeps_same_tcb: "tcb_of s'' = tcb_of s' \<Longrightarrow> keeps H Q s Q' s'' = keeps H Q s Q' s'"
  by (simp add: keeps_def)

lemma ended_tcb_winfo [simp]: "winfo_obj (ended_tcb e tc) = winfo_obj tc"
  by (simp add: ended_tcb_def released_tcb_def)

lemma keeps_removed:
  assumes "\<And>k. (\<And>p i. k \<noteq> RDY p i) \<Longrightarrow> set (Q' k) \<subseteq> set (Q k)"
    and "\<And>k u. (\<And>p i. k \<noteq> RDY p i) \<Longrightarrow> u \<in> set (Q' k) \<Longrightarrow> winfo_obj (tcb_of s' u) = winfo_obj (tcb_of s u)"
  shows "keeps H Q s Q' s'"
  using assms unfolding keeps_def by blast

lemma keeps_wake:
  assumes K: "kinv C P Q s" and t: "t \<in> set (Q h)"
    and tc: "tcb_of s' = (tcb_of s)(t := x)"
  shows "keeps H Q s (ready_after s1 t (Q(h := remove1 t (Q h)))) s'"
proof (rule keeps_removed)
  let ?Q1 = "Q(h := remove1 t (Q h))"
  have nq: "\<not> queued ?Q1 t" by (rule ring.not_queued_unlink [OF kinvD(4) [OF K] t])
  fix k assume k: "\<And>p i. k \<noteq> RDY p i"
  have e: "ready_after s1 t ?Q1 k = ?Q1 k" by (rule ready_after_other [OF k])
  show "set (ready_after s1 t ?Q1 k) \<subseteq> set (Q k)"
    unfolding e using set_remove1_subset [of t "Q h"] by auto
  show "winfo_obj (tcb_of s' u) = winfo_obj (tcb_of s u)" if "u \<in> set (ready_after s1 t ?Q1 k)" for u
    using that nq unfolding e tc queued_def by (cases "u = t") auto
qed

lemma keeps_wake_sleeping:
  assumes tc: "tcb_of s' = (tcb_of s)(t := ended_tcb e (tcb_of s t))"
  shows "keeps H Q s (ready_after s1 t Q) s'"
  by (rule keeps_removed) (auto simp: ready_after_other tc)

lemma keeps_release:
  assumes tc: "tcb_of s' = (tcb_of s)(t := ended_tcb e (tcb_of s t))"
  shows "keeps H Q s (ready_after s1 t (unlinked s2 t Q)) s'"
  using set_remove1_subset
  by (intro keeps_removed) (auto simp: ready_after_other tc unlinked_def split: option.splits dest: set_mp [OF set_remove1_subset])

lemma keeps_block:
  assumes "\<And>k. k \<noteq> h \<Longrightarrow> (\<And>p i. k \<noteq> RDY p i) \<Longrightarrow> Q' k = Q k" and "h \<in> H"
    and "tcb_of s' = (tcb_of s)(t := f (tcb_of s t))" and "\<And>k. k \<noteq> h \<Longrightarrow> (\<And>p i. k \<noteq> RDY p i) \<Longrightarrow> t \<notin> set (Q k)"
  shows "keeps H Q s Q' s'"
  using assms unfolding keeps_def by (metis fun_upd_other subset_refl)

lemma keeps_init:
  assumes "same_waits h Q Q'" and "Q' h = []" and "tcb_of s' = all_ended e ts (tcb_of s)"
  shows "keeps H Q s Q' s'"
proof (rule keeps_removed)
  fix k assume k: "\<And>p i. k \<noteq> RDY p i"
  show "set (Q' k) \<subseteq> set (Q k)" using assms(1,2) k unfolding same_waits_def by (cases "k = h") auto
  show "winfo_obj (tcb_of s' u) = winfo_obj (tcb_of s u)" for u
    by (simp add: assms(3) all_ended_def)
qed

section \<open>Common forms of the services\<close>

text \<open>Waking the first task of a wait queue, as \<open>sig_sem\<close> and its kin do it.\<close>

lemma first_waiter_hd:
  assumes "kinv C P Q s" and "Q h = t # ts"
  shows "first_waiter (Hdr h) s = t"
  using next_hdr_tcb [OF kinvD(4) [OF assms(1)], of h] assms(2) by (simp add: first_waiter_def)

lemma t_wake_first:
  assumes K: "kinv C P Q s" and Qh: "Q h = t # ts" and h: "\<And>p i. h \<noteq> RDY p i"
    and f: "tstat (f (tcb_of s t)) = tstat (tcb_of s t)" "priority (f (tcb_of s t)) = priority (tcb_of s t)"
      "p_pcb (f (tcb_of s t)) = p_pcb (tcb_of s t)" "wf_tcb (f (tcb_of s t))"
    and w: "wait_complete t (upd_tcb t f (on_kq (queue_delete (Ent t)) s)) = (b, s1)"
    and d: "t_request me (p_pcb (tcb_of s t)) b s1 = (dspreq, s2)"
  shows "\<exists>Q'. kinv C P Q' (t_dispatch_if me dspreq s2) \<and> Q' h = ts \<and> same_waits h Q Q' \<and>
      keeps H Q s Q' (t_dispatch_if me dspreq s2)"
    and "objs (t_dispatch_if me dspreq s2) = objs s"
    and "tcb_of (t_dispatch_if me dspreq s2) = (tcb_of s)(t := ended_tcb E_OK (f (tcb_of s t)))"
proof -
  have t: "t \<in> set (Q h)" using Qh by simp
  note W = wake_kinv [OF K t h f w [unfolded wait_complete_end_wait]]
  note R = t_request_kinv [OF W(1) d]
  let ?sx = "upd_tcb t f (on_kq (queue_delete (Ent t)) s)"
  let ?Q = "ready_after ?sx t (Q(h := remove1 t (Q h)))"
  have "kinv C P ?Q (t_dispatch_if me dspreq s2)" using t_dispatch_if_kinv R(1) by blast
  moreover have "?Q h = ts" using ready_after_other [of h] h Qh by simp
  moreover have "same_waits h Q ?Q"
    using ready_after_other [of _ ?sx t "Q(h := remove1 t (Q h))"] by (auto simp: same_waits_def)
  moreover have tc: "tcb_of (t_dispatch_if me dspreq s2) = (tcb_of s)(t := ended_tcb E_OK (f (tcb_of s t)))"
    using R(2) W(3) by simp
  moreover note keeps_wake [OF K t tc, of H ?sx]
  ultimately show "\<exists>Q'. kinv C P Q' (t_dispatch_if me dspreq s2) \<and> Q' h = ts \<and> same_waits h Q Q' \<and>
      keeps H Q s Q' (t_dispatch_if me dspreq s2)" by blast
  show "objs (t_dispatch_if me dspreq s2) = objs s" using R(3) W(2) by simp
  show "tcb_of (t_dispatch_if me dspreq s2) = (tcb_of s)(t := ended_tcb E_OK (f (tcb_of s t)))" by (rule tc)
qed

lemma i_wake_first:
  fixes me :: prcix and H :: "qhdr set"
  assumes K: "kinv C P Q s" and Qh: "Q h = t # ts" and h: "\<And>p i. h \<noteq> RDY p i"
    and f: "tstat (f (tcb_of s t)) = tstat (tcb_of s t)" "priority (f (tcb_of s t)) = priority (tcb_of s t)"
      "p_pcb (f (tcb_of s t)) = p_pcb (tcb_of s t)" "wf_tcb (f (tcb_of s t))"
    and w: "wait_complete t (upd_tcb t f (on_kq (queue_delete (Ent t)) s)) = (b, s1)"
  defines "s2 \<equiv> i_request me (p_pcb (tcb_of s t)) b s1"
  shows "\<exists>Q'. kinv C P Q' s2 \<and> Q' h = ts \<and> same_waits h Q Q' \<and> keeps H Q s Q' s2"
    and "objs s2 = objs s"
    and "tcb_of s2 = (tcb_of s)(t := ended_tcb E_OK (f (tcb_of s t)))"
proof -
  have t: "t \<in> set (Q h)" using Qh by simp
  note W = wake_kinv [OF K t h f w [unfolded wait_complete_end_wait]]
  note R = i_request_kinv [OF W(1), of me, folded s2_def]
  let ?sx = "upd_tcb t f (on_kq (queue_delete (Ent t)) s)"
  let ?Q = "ready_after ?sx t (Q(h := remove1 t (Q h)))"
  have "?Q h = ts" using ready_after_other [of h] h Qh by simp
  moreover have "same_waits h Q ?Q"
    using ready_after_other [of _ ?sx t "Q(h := remove1 t (Q h))"] by (auto simp: same_waits_def)
  moreover have tc: "tcb_of s2 = (tcb_of s)(t := ended_tcb E_OK (f (tcb_of s t)))"
    using R(2) W(3) by simp
  moreover note keeps_wake [OF K t tc, of H ?sx]
  ultimately show "\<exists>Q'. kinv C P Q' s2 \<and> Q' h = ts \<and> same_waits h Q Q' \<and> keeps H Q s Q' s2"
    using R(1) by blast
  show "objs s2 = objs s" using R(3) W(2) by simp
  show "tcb_of s2 = (tcb_of s)(t := ended_tcb E_OK (f (tcb_of s t)))" by (rule tc)
qed

lemma upd_tcb_id [simp]: "upd_tcb t (\<lambda>b. b) s = s"
  by (simp add: upd_tcb_def)

lemma set_tstat_enter_wait:
  "set_tstat t (TS_WAITING OR k) s = upd_tcb t (enter_wait k (winfo_obj (tcb_of s t))) s"
  by (simp add: set_tstat_def upd_tcb_def enter_wait_def)

lemma enter_wait_winfo:
  "set_tstat t (TS_WAITING OR k) (upd_tcb t (\<lambda>b. b\<lparr>winfo_obj := i\<rparr>) s) = upd_tcb t (enter_wait k i) s"
  by (simp add: set_tstat_def upd_tcb_upd) (simp add: enter_wait_def upd_tcb_def)

text \<open>The running task blocks on an object and the processor dispatches.\<close>

lemma runtsk_may_block:
  assumes "kinv C P Q s" and "sense_tskctx_unl me s"
    and "TSTAT_RUNNABLE (tstat (tcb_of s (runtsk me s)))"
  shows "may_block me (runtsk me s) s"
  using assms kinvD(8) [OF assms(1)] 
  by (auto simp: may_block_def runtsk_def rinv_def sense_tskctx_unl_def sense_context_def)

lemma block_on_object:
  assumes K: "kinv C P Q s" and m: "may_block me t s"
    and k: "wait_status k" "k \<in> set (wobj_status w)" "k \<notin> {TS_WAIT_RDTQ, TS_WAIT_RPDQ}"
    and s1: "s1 = wobj_make_wait C w t (upd_tcb t (enter_wait k i) s) \<or>
      s1 = wobj_make_wait_tmout C w tmout t (upd_tcb t (enter_wait k i) s)"
    and H: "WAITQ w \<in> H"
  shows "\<exists>Q'. kinv C P Q' (dispatch me s1) \<and>
      Q' (WAITQ w) = wait_insert C (\<lambda>u. priority (tcb_of s u)) w t (Q (WAITQ w)) \<and>
      same_waits (WAITQ w) Q Q' \<and> keeps H Q s Q' (dispatch me s1)"
    and "objs (dispatch me s1) = objs s"
    and "tcb_of (dispatch me s1) = (tcb_of s)(t := (enter_wait k i (tcb_of s t))\<lparr>p_wobjcb := Some w\<rparr>)"
proof -
  note B = wobj_block_kinv [OF K m k s1]
  let ?Q = "(Q(RDY me (priority (tcb_of s t)) := remove1 t (Q (RDY me (priority (tcb_of s t))))))
    (WAITQ w := wait_insert C (\<lambda>u. priority (tcb_of s u)) w t (Q (WAITQ w)))"
  have "t \<notin> set (Q k)" if "\<And>p i. k \<noteq> RDY p i" for k
    using kinvD(6) [OF K, of t k] m that by (auto simp: place_def may_block_def)
  then have "keeps H Q s ?Q (dispatch me s1)"
    by (intro keeps_block [where h = "WAITQ w" and f = "\<lambda>tc. (enter_wait k i tc)\<lparr>p_wobjcb := Some w\<rparr>"])
       (use B(3) H in auto)
  moreover have "same_waits (WAITQ w) Q ?Q" by (simp add: same_waits_def)
  ultimately show "\<exists>Q'. kinv C P Q' (dispatch me s1) \<and>
      Q' (WAITQ w) = wait_insert C (\<lambda>u. priority (tcb_of s u)) w t (Q (WAITQ w)) \<and>
      same_waits (WAITQ w) Q Q' \<and> keeps H Q s Q' (dispatch me s1)"
    using dispatch_kinv [OF B(1)] by (intro exI [of _ ?Q]) auto
  show "objs (dispatch me s1) = objs s"
    "tcb_of (dispatch me s1) = (tcb_of s)(t := (enter_wait k i (tcb_of s t))\<lparr>p_wobjcb := Some w\<rparr>)"
    using B(2,3) by simp_all
qed

section \<open>Requesting a dispatch: the contract\<close>

text \<open>
  What a service that ends waits relies on when it asks for a dispatch of processor \<open>p\<close> from
  processor \<open>me\<close>: afterwards only \<open>me\<close> may have a dispatch outstanding, and only when the
  request returns true.  \<open>t_request\<close> fulfils it in a task context, \<open>i_req\<close> in a handler.
\<close>

definition i_req :: "prcix \<Rightarrow> prcix \<Rightarrow> bool \<Rightarrow> kstate \<Rightarrow> bool \<times> kstate" where
  "i_req me p b s = (False, i_request me p b s)"

locale wake_request =
  fixes req :: "prcix \<Rightarrow> prcix \<Rightarrow> bool \<Rightarrow> kstate \<Rightarrow> bool \<times> kstate"
  assumes req_kinv: "kinv C (if b then insert p P else P) Q s \<Longrightarrow> req me p b s = (d, s') \<Longrightarrow>
      kinv C (if d then insert me P else P) Q s'"
    and req_frame: "req me p b s = (d, s') \<Longrightarrow> tcb_of s' = tcb_of s \<and> objs s' = objs s"
begin

lemma wake_any:
  assumes K: "kinv C P Q s" and t: "t \<in> set (Q h)" and h: "\<And>p i. h \<noteq> RDY p i"
    and f: "tstat (f (tcb_of s t)) = tstat (tcb_of s t)" "priority (f (tcb_of s t)) = priority (tcb_of s t)"
      "p_pcb (f (tcb_of s t)) = p_pcb (tcb_of s t)" "wf_tcb (f (tcb_of s t))"
    and w: "end_wait t e (upd_tcb t f (on_kq (queue_delete (Ent t)) s)) = (b, s1)"
    and d: "req me (p_pcb (tcb_of s t)) b s1 = (d, s2)"
  shows "\<exists>Q'. kinv C (if d then insert me P else P) Q' s2 \<and> Q' h = remove1 t (Q h) \<and>
      same_waits h Q Q' \<and> keeps H Q s Q' s2"
    and "objs s2 = objs s"
    and "tcb_of s2 = (tcb_of s)(t := ended_tcb e (f (tcb_of s t)))"
proof -
  note W = wake_kinv [OF K t h f w]
  note R = req_kinv [OF W(1) d] and F = req_frame [OF d]
  let ?sx = "upd_tcb t f (on_kq (queue_delete (Ent t)) s)"
  let ?Q = "ready_after ?sx t (Q(h := remove1 t (Q h)))"
  have "?Q h = remove1 t (Q h)" using ready_after_other [of h] h by simp
  moreover have "same_waits h Q ?Q"
    using ready_after_other [of _ ?sx t "Q(h := remove1 t (Q h))"] by (auto simp: same_waits_def)
  moreover have tc: "tcb_of s2 = (tcb_of s)(t := ended_tcb e (f (tcb_of s t)))"
    using F W(3) by simp
  moreover note keeps_wake [OF K t tc, of H ?sx]
  ultimately show "\<exists>Q'. kinv C (if d then insert me P else P) Q' s2 \<and> Q' h = remove1 t (Q h) \<and>
      same_waits h Q Q' \<and> keeps H Q s Q' s2" using R by blast
  show "objs s2 = objs s" using F W(2) by simp
  show "tcb_of s2 = (tcb_of s)(t := ended_tcb e (f (tcb_of s t)))" by (rule tc)
qed

end

lemma request_frame:
  "tcb_of (snd (t_request me p b s)) = tcb_of s" "objs (snd (t_request me p b s)) = objs s"
  "tcb_of (i_request me p b s) = tcb_of s" "objs (i_request me p b s) = objs s"
  by (simp_all add: t_request_def i_request_def dispatch_request_def target_ipi_raise_def set_reqflg_def)

interpretation treq: wake_request t_request
proof (unfold_locales, goal_cases)
  case 1
  then show ?case by (rule t_request_kinv(1))
next
  case 2
  then show ?case using request_frame(1,2) by (metis snd_conv)
qed

interpretation ireq: wake_request i_req
proof (unfold_locales, goal_cases)
  case (1 C b p P Q s me d s')
  then have "\<not> d" "s' = i_request me p b s" by (auto simp: i_req_def)
  then show ?case using i_request_kinv(1) [OF 1(1)] by simp
next
  case 2
  then show ?case using request_frame(3,4) by (auto simp: i_req_def)
qed

lemma on_kq_upd_tcb: "on_kq g (upd_tcb t f s) = upd_tcb t f (on_kq g s)"
  by (simp add: on_kq_def upd_tcb_def)

text \<open>The same for the receive queue of a data queue, which is in the order of arrival.\<close>

lemma block_on_rwait:
  assumes K: "kinv C P Q s" and m: "may_block me t s"
    and k: "wait_status k" "k \<in> set (wobj_status w)" "k \<in> {TS_WAIT_RDTQ, TS_WAIT_RPDQ}"
    and s2: "made_wait t me (upd_tcb t (enter_wait k i) s) s2"
    and s1: "s1 = set_wobjcb t w (on_kq (queue_insert_prev (Hdr (RWAITQ w)) (Ent t)) s2)"
    and H: "RWAITQ w \<in> H"
  shows "\<exists>Q'. kinv C P Q' (dispatch me s1) \<and> Q' (RWAITQ w) = Q (RWAITQ w) @ [t] \<and>
      same_waits (RWAITQ w) Q Q' \<and> keeps H Q s Q' (dispatch me s1)"
    and "objs (dispatch me s1) = objs s"
    and "tcb_of (dispatch me s1) = (tcb_of s)(t := (enter_wait k i (tcb_of s t))\<lparr>p_wobjcb := Some w\<rparr>)"
proof -
  let ?Q1 = "Q(RDY me (priority (tcb_of s t)) := remove1 t (Q (RDY me (priority (tcb_of s t)))))"
  let ?l = "Q (RWAITQ w) @ [t]"
  note M = make_wait_any [OF K m k(1) s2]
  have R: "qrep (queue_insert_prev (Hdr (RWAITQ w)) (Ent t) (kq s2)) (?Q1(RWAITQ w := ?l))"
    using qrep_insert_prev_hdr [OF qinvD(1) [OF M(1)] M(2), of "RWAITQ w"] by simp
  note B = block_linked_kinv [OF K m k(1,2) s2 _ R _ refl s1, unfolded if_P [OF k(3)], OF refl, simplified]
  have "t \<notin> set (Q k)" if "\<And>p i. k \<noteq> RDY p i" for k
    using kinvD(6) [OF K, of t k] m that by (auto simp: place_def may_block_def)
  then have "keeps H Q s (?Q1(RWAITQ w := ?l)) (dispatch me s1)"
    by (intro keeps_block [where h = "RWAITQ w" and f = "\<lambda>tc. (enter_wait k i tc)\<lparr>p_wobjcb := Some w\<rparr>"])
       (use B(3) H in auto)
  moreover have "same_waits (RWAITQ w) Q (?Q1(RWAITQ w := ?l))" by (simp add: same_waits_def)
  ultimately show "\<exists>Q'. kinv C P Q' (dispatch me s1) \<and> Q' (RWAITQ w) = Q (RWAITQ w) @ [t] \<and>
      same_waits (RWAITQ w) Q Q' \<and> keeps H Q s Q' (dispatch me s1)"
    using dispatch_kinv [OF B(1)] by (intro exI [of _ "?Q1(RWAITQ w := ?l)"]) simp
  show "objs (dispatch me s1) = objs s"
    "tcb_of (dispatch me s1) = (tcb_of s)(t := (enter_wait k i (tcb_of s t))\<lparr>p_wobjcb := Some w\<rparr>)"
    using B(2,3) by simp_all
qed

end
