(* ===== verification/Sample.thy ===== *)
theory Sample
  imports Wait_Inv
begin

text \<open>
  A small configuration and a state of it, on which the witnesses evaluate the services:
  task 1 runs on processor 1 at priority 6, task 2 waits for semaphore 1 task 3 for the bits
  2 and 4 of event flag 1, of which the first is set, and task 4 for a message in mailbox 1.
\<close>

definition sample_cfg :: cfg where
  "sample_cfg =
     \<lparr>tmax_tskid = 5, tnum_prcid = 2,
      tinib_table = (\<lambda>t. \<lparr>tskatr = 0, exinf = 0, ipriority = 5, iaffinity = 1, affinity_mask = 3,
        texrtn = True\<rparr>),
      torder_table = [1, 2, 3, 4, 5], wobjatr = (\<lambda>_. 0),
      tmax_semid = 2, seminib_table = (\<lambda>_. \<lparr>isemcnt = 0, maxsem = 2\<rparr>),
      tmax_flgid = 1, flginib_table = (\<lambda>_. \<lparr>iflgptn = 0\<rparr>),
      tmax_dtqid = 1, dtqinib_table = (\<lambda>_. \<lparr>dtqcnt = 2\<rparr>),
      tmax_pdqid = 1, pdqinib_table = (\<lambda>_. \<lparr>pdqcnt = 2, maxdpri = 16\<rparr>),
      tmax_mbxid = 2, mbxinib_table = (\<lambda>_. \<lparr>maxmpri = 16\<rparr>),
      tmax_mpfid = 1, mpfinib_table = (\<lambda>_. \<lparr>blkcnt = 2, blksz = 8, mpf_base = 4096\<rparr>),
      tmax_cycid = 1, cycinib_table = (\<lambda>_. \<lparr>cycatr = 0, cyctim = 10, cycphs = 0,
        cyc_iaffinity = 1, cyc_affinity_mask = 3\<rparr>),
      tmax_almid = 1, alminib_table = (\<lambda>_. \<lparr>alm_iaffinity = 1, alm_affinity_mask = 3\<rparr>),
      tmax_spnid = 1\<rparr>"

definition sample_tcb :: tcb where
  "sample_tcb =
     \<lparr>tstat = TS_DORMANT, priority = 5, actque = False, wupque = False, enatex = False,
      texptn = 0, p_pcb = 0, actprc = TPRC_NONE, pend_relwai = False, pend_chgpri = False,
      pend_newpri = 0, wercd = E_OK, p_wobjcb = None, winfo_obj = W_NONE\<rparr>"

definition sample_pcb :: pcb where
  "sample_pcb =
     \<lparr>p_runtsk = None, p_schedtsk = None, reqflg = False, dspflg = True, locspnid = 0,
      ready_primap = 0, kerflg = True, ipmflg = True, disdsp = False, excpt_nest_count = 1,
      lock_flag = False\<rparr>"

definition sample_objs :: kobjs where
  "sample_objs =
     \<lparr>semcb_of = (\<lambda>_. \<lparr>semcnt = 0\<rparr>), flgcb_of = (\<lambda>_. \<lparr>flgptn = 2\<rparr>),
      dtqcb_of = (\<lambda>_. \<lparr>dtq_count = 0, head = 0, tail = 0, dtqmb = (\<lambda>_. 0)\<rparr>),
      pdqcb_of = (\<lambda>_. \<lparr>pdq_count = 0, p_head = None, pdq_unused = 0, p_freelist = None,
        pdqmb_of = (\<lambda>_. \<lparr>pdqmb_next = None, pdqmb_data = 0, pdqmb_datapri = 0\<rparr>)\<rparr>),
      mbxcb_of = (\<lambda>_. \<lparr>pk_head = None, pk_last = None\<rparr>),
      msg_of = (\<lambda>_. \<lparr>pk_next = None, msgpri = 1\<rparr>),
      mpfcb_of = (\<lambda>_. \<lparr>fblkcnt = 2, mpf_unused = 0, freelist = 0xFFFFFFFF, mpfmb_next = (\<lambda>_. 0)\<rparr>),
      cyccb_of = (\<lambda>_. \<lparr>cycsta = False, evttim = 0, cyc_pcb = 0\<rparr>),
      almcb_of = (\<lambda>_. \<lparr>almsta = False, alm_pcb = 0\<rparr>), spncb_of = (\<lambda>_. \<lparr>spn_lock = False, lock_flg = False\<rparr>)\<rparr>"

definition sample_queues :: "qhdr \<Rightarrow> tskix list" where
  "sample_queues = (\<lambda>_. [])(RDY 0 5 := [0], WAITQ (SEM 0) := [1], WAITQ (FLG 0) := [2],
     WAITQ (MBX 0) := [3])"

definition sample_kq :: kqueue where
  "sample_kq =
     \<lparr>p_next = id(Hdr (RDY 0 5) := Ent 0, Ent 0 := Hdr (RDY 0 5),
        Hdr (WAITQ (SEM 0)) := Ent 1, Ent 1 := Hdr (WAITQ (SEM 0)),
        Hdr (WAITQ (FLG 0)) := Ent 2, Ent 2 := Hdr (WAITQ (FLG 0)),
        Hdr (WAITQ (MBX 0)) := Ent 3, Ent 3 := Hdr (WAITQ (MBX 0))),
      p_prev = id(Hdr (RDY 0 5) := Ent 0, Ent 0 := Hdr (RDY 0 5),
        Hdr (WAITQ (SEM 0)) := Ent 1, Ent 1 := Hdr (WAITQ (SEM 0)),
        Hdr (WAITQ (FLG 0)) := Ent 2, Ent 2 := Hdr (WAITQ (FLG 0)),
        Hdr (WAITQ (MBX 0)) := Ent 3, Ent 3 := Hdr (WAITQ (MBX 0)))\<rparr>"

definition sample_state :: kstate where
  "sample_state =
     \<lparr>tcb_of = (\<lambda>_. sample_tcb)(0 := sample_tcb\<lparr>tstat := TS_RUNNABLE\<rparr>,
        1 := sample_tcb\<lparr>tstat := TS_WAITING OR TS_WAIT_SEM, p_wobjcb := Some (SEM 0)\<rparr>,
        2 := sample_tcb\<lparr>tstat := TS_WAITING OR TS_WAIT_FLG, p_wobjcb := Some (FLG 0),
          winfo_obj := W_FLG 6 TWF_ANDW 0\<rparr>,
        3 := sample_tcb\<lparr>tstat := TS_WAITING OR TS_WAIT_MBX, p_wobjcb := Some (MBX 0)\<rparr>),
      pcb_of = (\<lambda>_. sample_pcb)(0 := sample_pcb\<lparr>p_runtsk := Some 0, p_schedtsk := Some 0,
        ready_primap := 0x20, excpt_nest_count := 0\<rparr>),
      kq = sample_kq,
      tevt_of = (\<lambda>_. \<lparr>current_time = 0, min_time = 0, next_time = 1, last_index = 0,
        tmevt_heap = (\<lambda>_. \<lparr>time = 0, p_tmevtb = TM_TSK 0\<rparr>)\<rparr>),
      tm_index = (\<lambda>_. 0), tm_callback = (\<lambda>_. None), ipi = (\<lambda>_. False),
      ext_ker_reqflg = False, objs = sample_objs\<rparr>"

lemma sample_qrep: "qrep sample_kq sample_queues"
  unfolding qrep_def
  by (auto simp: sample_kq_def sample_queues_def)

lemma sample_place:
  "t \<in> set (sample_queues h) \<longleftrightarrow> place (tcb_of sample_state t) = Some h"
  by (auto simp: sample_queues_def sample_state_def sample_tcb_def place_def tstat_macros tstat_consts)

lemma sample_kinv: "kinv sample_cfg {} sample_queues sample_state"
proof -
  have b: "bit (0x20 :: 16 word) i \<longleftrightarrow> i = 5" if "i < 16" for i
  proof -
    have "(0x20 :: 16 word) = PRIMAP_BIT 5" by (simp add: PRIMAP_BIT_def)
    then show ?thesis by (simp only: bit_PRIMAP_BIT [OF that])
  qed
  have w: "wf_tcb (tcb_of sample_state t)" for t
    by (simp add: sample_state_def sample_tcb_def wf_tcb_def wf_tstats_def TPRC_NONE_def tstat_macros tstat_consts)
  have top: "p_schedtsk (pcb_of sample_state p) = top_task sample_queues p" for p
  proof (cases "p = 0")
    case True
    have "top_task sample_queues 0 = Some 0"
      by (rule top_taskI [of 5 _ _ _ "[]"]) (simp_all add: sample_queues_def)
    then show ?thesis using True by (simp add: sample_state_def)
  next
    case False
    then have "top_task sample_queues p = None" by (simp add: top_task_None sample_queues_def)
    then show ?thesis using False by (simp add: sample_state_def sample_pcb_def)
  qed
  have "qinv {} sample_queues sample_state"
    unfolding qinv_def using sample_qrep sample_place w b top
    by (auto simp: sample_state_def sample_tcb_def sample_pcb_def sample_queues_def)
  moreover have "tinv {} sample_state"
    by (auto simp: tinv_def tskinv_def hinv_def cb_ok_def heap_inv_def registered_def evset_def tm_place_def sample_state_def sample_objs_def)
  moreover have "dinv {} sample_state"
    by (auto simp: dinv_def sample_state_def sample_pcb_def)
  moreover have "rinv sample_state"
    by (auto simp: rinv_def sample_state_def sample_pcb_def sample_tcb_def)
  moreover have "sinv sample_cfg sample_queues sample_state"
    by (simp add: sinv_def sample_cfg_def)
  ultimately show ?thesis by (simp add: kinv_def)
qed

text \<open>What the services read of the sample.\<close>

lemma sample_sel [simp]:
  "tcb_of sample_state 0 = sample_tcb\<lparr>tstat := TS_RUNNABLE\<rparr>"
  "tcb_of sample_state (Suc 0) = sample_tcb\<lparr>tstat := TS_WAITING OR TS_WAIT_SEM, p_wobjcb := Some (SEM 0)\<rparr>"
  "tcb_of sample_state 2 = sample_tcb\<lparr>tstat := TS_WAITING OR TS_WAIT_FLG, p_wobjcb := Some (FLG 0),
     winfo_obj := W_FLG 6 TWF_ANDW 0\<rparr>"
  "tcb_of sample_state 3 = sample_tcb\<lparr>tstat := TS_WAITING OR TS_WAIT_MBX, p_wobjcb := Some (MBX 0)\<rparr>"
  "tcb_of sample_state 4 = sample_tcb"
  "objs sample_state = sample_objs" "kq sample_state = sample_kq"
  "p_runtsk (pcb_of sample_state 0) = Some 0" "dspflg (pcb_of sample_state 0)"
  "p_schedtsk (pcb_of sample_state 0) = Some 0" "runtsk 0 sample_state = 0"
  "sense_tskctx_unl 0 sample_state" "sense_intctx_unl 1 sample_state"
  "TSTAT_RUNNABLE (tstat (sample_tcb\<lparr>tstat := TS_RUNNABLE\<rparr>))"
  by (simp_all add: sample_state_def sample_pcb_def sense_tskctx_unl_def sense_intctx_unl_def
      sense_context_def sense_lock_def runtsk_def)

lemma sample_queues_sel [simp]:
  "sample_queues (WAITQ w) = (if w = SEM 0 then [1] else if w = FLG 0 then [2]
     else if w = MBX 0 then [3] else [])" "sample_queues (RWAITQ w) = []"
  "sample_queues (RDY p i) = (if p = 0 \<and> i = 5 then [0] else [])"
  by (simp_all add: sample_queues_def)

lemma sample_valid [simp]:
  "VALID_SEMID sample_cfg 1" "VALID_SEMID sample_cfg 2" "VALID_FLGID sample_cfg 1"
  "VALID_DTQID sample_cfg 1" "VALID_MBXID sample_cfg 1" "VALID_MBXID sample_cfg 2" "VALID_MPFID sample_cfg 1"
  "VALID_PDQID sample_cfg 1"
  by (simp_all add: VALID_SEMID_def VALID_FLGID_def VALID_DTQID_def VALID_MBXID_def VALID_MPFID_def VALID_PDQID_def
      sample_cfg_def)

lemma INDEX_OBJ_1 [simp]: "INDEX_OBJ 1 = 0" "INDEX_OBJ 2 = 1"
  by (simp_all add: INDEX_OBJ_def uint_cast_def)

lemma sample_wait_insert [simp]: "wait_insert sample_cfg f w t ts = ts @ [t]"
  by (simp add: wait_insert_def sample_cfg_def)

end
