(* ===== verification/Task_Step.thy ===== *)
theory Task_Step
  imports Wait_Inv
begin

text \<open>
  Steps that move tasks and touch no object: \<open>task_step C Q s s'\<close> says that the step keeps the
  kernel invariant, adds no task to a wait queue and leaves the objects alone.  The lemmas give
  the forms such steps take: a change of a control block that does not move the task, starting
  and stopping a task, ending a wait, and blocking the caller.
\<close>

definition task_step :: "cfg \<Rightarrow> (qhdr \<Rightarrow> tskix list) \<Rightarrow> kstate \<Rightarrow> kstate \<Rightarrow> bool" where
  "task_step C Q s s' \<longleftrightarrow> (\<exists>Q'. kinv C {} Q' s' \<and> keeps {} Q s Q' s' \<and> objs s' = objs s)"

lemma task_step_refl: "kinv C {} Q s \<Longrightarrow> task_step C Q s s"
  by (auto simp: task_step_def intro!: exI [of _ Q])

lemma task_stepI:
  "kinv C {} Q' s' \<Longrightarrow> keeps {} Q s Q' s' \<Longrightarrow> objs s' = objs s \<Longrightarrow> task_step C Q s s'"
  unfolding task_step_def by blast

section \<open>Changing a control block in place\<close>

lemma kinv_upd_tcb:
  assumes K: "kinv C P Q s"
    and f: "p_pcb (f (tcb_of s t)) = p_pcb (tcb_of s t)" "priority (f (tcb_of s t)) = priority (tcb_of s t)"
      "place (f (tcb_of s t)) = place (tcb_of s t)" "wf_tcb (f (tcb_of s t))"
      "TSTAT_WAITING (tstat (f (tcb_of s t))) = TSTAT_WAITING (tstat (tcb_of s t))"
      "TSTAT_DORMANT (tstat (f (tcb_of s t))) = TSTAT_DORMANT (tstat (tcb_of s t))"
      "tstat (f (tcb_of s t)) AND TS_WAIT_MASK = tstat (tcb_of s t) AND TS_WAIT_MASK"
  shows "kinv C P Q (upd_tcb t f s)"
proof -
  note D = kinvD [OF K]
  have "qinv {t} Q (upd_tcb t f s)"
    by (rule qinv_upd_tcb [OF qinv_weaken [OF D(1)]]) (use f in auto)
  then have "qinv ({t} - {t}) Q (upd_tcb t f s)"
    by (rule qinv_arrive) (use f D(6) in auto)
  moreover have "tinv {} (upd_tcb t f s)"
    by (rule tinv_frame [OF D(2)]) (use f in \<open>auto simp: tm_place_def cb_ok_def wait_cb_def same_handlers_def\<close>)
  moreover have "dinv P (upd_tcb t f s)" using D(3) by (simp add: dinv_def)
  moreover have "rinv (upd_tcb t f s)" by (rule rinv_core [OF D(8)]) (use f in auto)
  moreover have "sinv C Q (upd_tcb t f s)" by (rule sinv_cong [OF D(9)]) (use f in auto)
  ultimately show ?thesis by (simp add: kinv_def)
qed

lemma task_step_upd_tcb:
  assumes K: "kinv C {} Q s"
    and f: "p_pcb (f (tcb_of s t)) = p_pcb (tcb_of s t)" "priority (f (tcb_of s t)) = priority (tcb_of s t)"
      "place (f (tcb_of s t)) = place (tcb_of s t)" "wf_tcb (f (tcb_of s t))"
      "TSTAT_WAITING (tstat (f (tcb_of s t))) = TSTAT_WAITING (tstat (tcb_of s t))"
      "TSTAT_DORMANT (tstat (f (tcb_of s t))) = TSTAT_DORMANT (tstat (tcb_of s t))"
      "tstat (f (tcb_of s t)) AND TS_WAIT_MASK = tstat (tcb_of s t) AND TS_WAIT_MASK"
      "winfo_obj (f (tcb_of s t)) = winfo_obj (tcb_of s t)"
  shows "task_step C Q s (upd_tcb t f s)"
proof (rule task_stepI)
  show "kinv C {} Q (upd_tcb t f s)" by (rule kinv_upd_tcb [OF K]) (rule f)+
qed (use f(8) in \<open>auto simp: keeps_def\<close>)

lemma suspend_status:
  assumes "ts \<in> set wf_tstats" and "TSTAT_WAITING ts"
  shows "ts OR TS_SUSPENDED \<in> set wf_tstats" "TSTAT_WAITING (ts OR TS_SUSPENDED)"
    "\<not> TSTAT_RUNNABLE (ts OR TS_SUSPENDED)" "(ts OR TS_SUSPENDED) AND TS_WAIT_MASK = ts AND TS_WAIT_MASK"
    "TSTAT_SUSPENDED (ts OR TS_SUSPENDED)"
    "ts AND NOT TS_SUSPENDED \<in> set wf_tstats" "TSTAT_WAITING (ts AND NOT TS_SUSPENDED)"
    "\<not> TSTAT_RUNNABLE (ts AND NOT TS_SUSPENDED)"
    "(ts AND NOT TS_SUSPENDED) AND TS_WAIT_MASK = ts AND TS_WAIT_MASK"
    "\<not> TSTAT_SUSPENDED (ts AND NOT TS_SUSPENDED)"
  using assms by (auto simp: wf_tstats_def tstat_macros tstat_consts)

text \<open>A status with the same wait code, for a task that goes on waiting.\<close>

lemma retag_waiting:
  assumes wf: "wf_tcb tc" and w: "TSTAT_WAITING (tstat tc)"
    and ts: "ts \<in> set wf_tstats" "TSTAT_WAITING ts" "ts AND TS_WAIT_MASK = tstat tc AND TS_WAIT_MASK"
  shows "wf_tcb (tc\<lparr>tstat := ts\<rparr>)" and "place (tc\<lparr>tstat := ts\<rparr>) = place tc"
proof -
  have t0: "tstat tc \<in> set wf_tstats" using wf by (simp add: wf_tcb_def)
  have e: "TSTAT_WAIT_WOBJ ts = TSTAT_WAIT_WOBJ (tstat tc)" "TSTAT_WAIT_WOBJCB ts = TSTAT_WAIT_WOBJCB (tstat tc)"
    using ts(3) by (simp_all add: TSTAT_WAIT_WOBJ_def TSTAT_WAIT_WOBJCB_def)
  show "wf_tcb (tc\<lparr>tstat := ts\<rparr>)" using wf ts(1,3) e by (auto simp: wf_tcb_def split: option.splits)
  show "place (tc\<lparr>tstat := ts\<rparr>) = place tc"
    using wf_waiting_not_runnable [OF ts(1,2)] wf_waiting_not_runnable [OF t0 w] w ts(2) e
    by (simp add: place_def)
qed

section \<open>Stopping and starting a task\<close>

lemma stop_kparts:
  assumes K: "kparts C P Q s" and run: "TSTAT_RUNNABLE (tstat (tcb_of s t))"
    and f: "p_pcb (f (tcb_of s t)) = p_pcb (tcb_of s t)" "priority (f (tcb_of s t)) = priority (tcb_of s t)"
      "place (f (tcb_of s t)) = None" "wf_tcb (f (tcb_of s t))" "\<not> TSTAT_WAITING (tstat (f (tcb_of s t)))"
    and eq: "make_non_runnable t (upd_tcb t f s) = (b, s')"
  defines "h \<equiv> RDY (p_pcb (tcb_of s t)) (priority (tcb_of s t))"
  shows "kparts C (if b then insert (p_pcb (tcb_of s t)) P else P) (Q(h := remove1 t (Q h))) s'"
    and "tcb_of s' = (tcb_of s)(t := f (tcb_of s t))" and "objs s' = objs s" and "core_frame s s'"
proof -
  note D = kpartsD [OF K]
  let ?s = "upd_tcb t f s"
  have tQ: "t \<in> set (Q h)" using D(6) [of t h] run by (simp add: place_def h_def)
  have Q1: "qinv {t} Q ?s" by (rule qinv_upd_tcb [OF qinv_weaken [OF D(1)]]) (use f in auto)
  have e: "RDY (p_pcb (tcb_of ?s t)) (priority (tcb_of ?s t)) = h" using f by (simp add: h_def)
  note I = make_non_runnable_inv [OF Q1 _ eq, unfolded e, OF tQ]
  note F = make_non_runnable_frame [OF eq]
  note FD = sched_frameD [OF F]
  show tc: "tcb_of s' = (tcb_of s)(t := f (tcb_of s t))" using FD(1) by simp
  show "objs s' = objs s" using FD(6) by simp
  show cf: "core_frame s s'" using core_frame_trans [OF _ sched_core_frame [OF F], of s] by simp
  have nq: "\<not> queued (Q(h := remove1 t (Q h))) t" by (rule ring.not_queued_unlink [OF D(4) tQ])
  have "qinv ({t} - {t}) (Q(h := remove1 t (Q h))) s'"
    by (rule qinv_arrive) (use I(1) tc f nq in \<open>auto simp: queued_def\<close>)
  moreover have "tinv {} s'"
    by (rule tinv_frame [OF D(2)])
       (use FD f wf_runnable_pend [OF D(5) run] in \<open>auto simp: tm_place_def cb_ok_def same_handlers_def\<close>)
  moreover have "sched_change (p_pcb (tcb_of s t)) b s s'" using I(2) f by (simp add: sched_change_def)
  from dinv_core_change [OF D(3) cf this]
  have "dinv (if b then insert (p_pcb (tcb_of s t)) P else P) s'" .
  moreover have "sinv C (Q(h := remove1 t (Q h))) s'"
    by (rule sinv_cong [OF D(8)]) (use tc f in \<open>auto simp: h_def\<close>)
  ultimately show "kparts C (if b then insert (p_pcb (tcb_of s t)) P else P) (Q(h := remove1 t (Q h))) s'"
    by (simp add: kparts_def)
qed

lemma stop_kinv:
  assumes K: "kinv C P Q s" and run: "TSTAT_RUNNABLE (tstat (tcb_of s t))"
    and f: "p_pcb (f (tcb_of s t)) = p_pcb (tcb_of s t)" "priority (f (tcb_of s t)) = priority (tcb_of s t)"
      "place (f (tcb_of s t)) = None" "wf_tcb (f (tcb_of s t))" "\<not> TSTAT_WAITING (tstat (f (tcb_of s t)))"
    and nd: "\<not> TSTAT_DORMANT (tstat (f (tcb_of s t))) \<or> (\<forall>p. p_runtsk (pcb_of s p) \<noteq> Some t)"
    and eq: "make_non_runnable t (upd_tcb t f s) = (b, s')"
  defines "h \<equiv> RDY (p_pcb (tcb_of s t)) (priority (tcb_of s t))"
  shows "kinv C (if b then insert (p_pcb (tcb_of s t)) P else P) (Q(h := remove1 t (Q h))) s'"
    and "tcb_of s' = (tcb_of s)(t := f (tcb_of s t))" and "objs s' = objs s" and "core_frame s s'"
proof -
  have K': "kparts C P Q s" "rinv s" using K by (simp_all add: kinv_parts)
  note S = stop_kparts [OF K'(1) run f eq, folded h_def]
  have "rinv s'" using K'(2) core_frameD(3,6) [OF S(4)] S(2) f(1) nd by (auto simp: rinv_def)
  then show "kinv C (if b then insert (p_pcb (tcb_of s t)) P else P) (Q(h := remove1 t (Q h))) s'"
    using S(1) by (simp add: kinv_parts)
  show "tcb_of s' = (tcb_of s)(t := f (tcb_of s t))" "objs s' = objs s" "core_frame s s'" by (rule S)+
qed

text \<open>Starting a task that is neither linked nor waiting, possibly on another processor.\<close>

lemma start_kparts:
  assumes K: "kparts C P Q s" and pl: "place (tcb_of s t) = None" and nw: "\<not> TSTAT_WAITING (tstat (tcb_of s t))"
    and f: "TSTAT_RUNNABLE (tstat (f (tcb_of s t)))" "wf_tcb (f (tcb_of s t))"
    and eq: "make_runnable t (upd_tcb t f s) = (b, s')"
  defines "h \<equiv> RDY (p_pcb (f (tcb_of s t))) (priority (f (tcb_of s t)))"
  shows "kparts C (if b then insert (p_pcb (f (tcb_of s t))) P else P) (Q(h := Q h @ [t])) s'"
    and "tcb_of s' = (tcb_of s)(t := f (tcb_of s t))" and "objs s' = objs s" and "core_frame s s'"
proof -
  note D = kpartsD [OF K]
  let ?s = "upd_tcb t f s"
  have nq: "\<not> queued Q t" using D(6) [of t] pl by (auto simp: queued_def)
  have Q1: "qinv {t} Q ?s"
    by (rule qinv_upd_tcb_nr [OF qinv_weaken [OF D(1)]]) (use f(2) nq in \<open>auto simp: queued_def wf_tcb_def\<close>)
  note I = make_runnable_inv [OF Q1 nq _ _ eq, folded h_def]
  note F = make_runnable_frame [OF eq]
  note FD = sched_frameD [OF F]
  show tc: "tcb_of s' = (tcb_of s)(t := f (tcb_of s t))" using FD(1) by simp
  show "objs s' = objs s" using FD(6) by simp
  show cf: "core_frame s s'" using core_frame_trans [OF _ sched_core_frame [OF F], of s] by simp
  have "qinv {} (Q(h := Q h @ [t])) s'" using I(1) f by (simp add: h_def)
  moreover have "tinv {} s'"
    by (rule tinv_frame [OF D(2)])
       (use FD nw wf_runnable_pend [OF f(2,1)] in \<open>auto simp: tm_place_def cb_ok_def same_handlers_def\<close>)
  moreover have "sched_change (p_pcb (f (tcb_of s t))) b s s'" using I(2) f by (simp add: sched_change_def)
  from dinv_core_change [OF D(3) cf this]
  have "dinv (if b then insert (p_pcb (f (tcb_of s t))) P else P) s'" .
  moreover have "sinv C (Q(h := Q h @ [t])) s'"
  proof (rule sinv_cong [OF D(8)])
    show "priority (tcb_of s' u) = priority (tcb_of s u)" if "u \<in> set (Q (WAITQ w))" for w u
      using that nq tc by (auto simp: queued_def)
  qed (simp add: h_def)
  ultimately show "kparts C (if b then insert (p_pcb (f (tcb_of s t))) P else P) (Q(h := Q h @ [t])) s'"
    by (simp add: kparts_def)
qed

lemma start_kinv:
  assumes K: "kinv C P Q s" and pl: "place (tcb_of s t) = None" and nw: "\<not> TSTAT_WAITING (tstat (tcb_of s t))"
    and f: "p_pcb (f (tcb_of s t)) = p_pcb (tcb_of s t) \<or> (\<forall>p. p_runtsk (pcb_of s p) \<noteq> Some t)"
      "TSTAT_RUNNABLE (tstat (f (tcb_of s t)))" "wf_tcb (f (tcb_of s t))"
    and eq: "make_runnable t (upd_tcb t f s) = (b, s')"
  defines "h \<equiv> RDY (p_pcb (f (tcb_of s t))) (priority (f (tcb_of s t)))"
  shows "kinv C (if b then insert (p_pcb (f (tcb_of s t))) P else P) (Q(h := Q h @ [t])) s'"
    and "tcb_of s' = (tcb_of s)(t := f (tcb_of s t))" and "objs s' = objs s" and "core_frame s s'"
proof -
  have K': "kparts C P Q s" "rinv s" using K by (simp_all add: kinv_parts)
  note S = start_kparts [OF K'(1) pl nw f(2,3) eq, folded h_def]
  have "rinv s'"
    using K'(2) core_frameD(3,6) [OF S(4)] S(2) f(1) not_dormant(1) [OF f(2)] by (auto simp: rinv_def)
  then show "kinv C (if b then insert (p_pcb (f (tcb_of s t))) P else P) (Q(h := Q h @ [t])) s'"
    using S(1) by (simp add: kinv_parts)
  show "tcb_of s' = (tcb_of s)(t := f (tcb_of s t))" "objs s' = objs s" "core_frame s s'" by (rule S)+
qed

section \<open>Requesting the dispatch\<close>

context wake_request begin

lemma request_done:
  assumes K: "kinv C (if b then insert p P else P) Q s1" and eq: "req me p b s1 = (d, s2)"
  shows "kinv C P Q (t_dispatch_if me d s2)" and "tcb_of (t_dispatch_if me d s2) = tcb_of s1"
    and "objs (t_dispatch_if me d s2) = objs s1"
  using t_dispatch_if_kinv [OF req_kinv [OF K eq]] req_frame [OF eq] by simp_all

lemma release_step:
  assumes K: "kinv C {} Q s" and w: "TSTAT_WAITING (tstat (tcb_of s t))"
    and eq: "wait_release t s = (b, s1)" "req me (p_pcb (tcb_of s t)) b s1 = (d, s2)"
  shows "task_step C Q s (t_dispatch_if me d s2)"
    and "tcb_of (t_dispatch_if me d s2) = (tcb_of s)(t := ended_tcb E_RLWAI (tcb_of s t))"
proof -
  note W = wait_release_kinv [OF K w eq(1)]
  note R = request_done [OF W(1) eq(2)]
  show tc: "tcb_of (t_dispatch_if me d s2) = (tcb_of s)(t := ended_tcb E_RLWAI (tcb_of s t))"
    using W(3) R(2) by simp
  show "task_step C Q s (t_dispatch_if me d s2)"
    by (rule task_stepI [OF R(1) keeps_release [OF tc]]) (use R(3) W(2) in simp)
qed

lemma wakeup_step:
  assumes K: "kinv C {} Q s" and w: "TSTAT_WAIT_SLP (tstat (tcb_of s t))"
    and eq: "wait_complete t s = (b, s1)" "req me (p_pcb (tcb_of s t)) b s1 = (d, s2)"
  shows "task_step C Q s (t_dispatch_if me d s2)"
    and "tcb_of (t_dispatch_if me d s2) = (tcb_of s)(t := ended_tcb E_OK (tcb_of s t))"
proof -
  have ts: "tstat (tcb_of s t) \<in> set wf_tstats" using kinvD(5) [OF K] by (simp add: wf_tcb_def)
  have "TSTAT_WAITING (tstat (tcb_of s t))" "\<not> TSTAT_WAIT_WOBJ (tstat (tcb_of s t))"
    "\<not> TSTAT_RUNNABLE (tstat (tcb_of s t))"
    using ts w by (auto simp: wf_tstats_def tstat_macros tstat_consts)
  note W = wake_sleeping_kinv [OF K this eq(1) [unfolded wait_complete_end_wait]]
  note R = request_done [OF W(1) eq(2)]
  show tc: "tcb_of (t_dispatch_if me d s2) = (tcb_of s)(t := ended_tcb E_OK (tcb_of s t))"
    using W(3) R(2) by simp
  show "task_step C Q s (t_dispatch_if me d s2)"
    by (rule task_stepI [OF R(1) keeps_wake_sleeping [OF tc]]) (use R(3) W(2) in simp)
qed

end

lemma keeps_ready:
  assumes "tcb_of s' = (tcb_of s)(t := x)" and "winfo_obj x = winfo_obj (tcb_of s t) \<or> \<not> queued Q t"
    and "\<And>k. (\<And>p i. k \<noteq> RDY p i) \<Longrightarrow> Q' k = Q k"
  shows "keeps H Q s Q' s'"
  by (rule keeps_removed) (use assms in \<open>auto simp: queued_def\<close>)

text \<open>The caller goes to sleep or delays itself.\<close>

lemma sleep_step:
  assumes K: "kinv C {} Q s" and m: "may_block me t s" and k: "k = TS_WAIT_SLP \<or> k = TS_WAIT_DLY"
    and s2: "made_wait t me (set_tstat t (TS_WAITING OR k) s) s2"
  shows "task_step C Q s (dispatch me s2)"
    and "tcb_of (dispatch me s2) = (tcb_of s)(t := (tcb_of s t)\<lparr>tstat := TS_WAITING OR k\<rparr>)"
proof -
  let ?h = "RDY me (priority (tcb_of s t))" and ?i = "winfo_obj (tcb_of s t)"
  note B = block_unlinked_kinv [OF K m k s2 [unfolded set_tstat_enter_wait]]
  have K': "kinv C {} (Q(?h := remove1 t (Q ?h))) (dispatch me s2)"
    by (rule dispatch_kinv [OF B(1)])
  show tc: "tcb_of (dispatch me s2) = (tcb_of s)(t := (tcb_of s t)\<lparr>tstat := TS_WAITING OR k\<rparr>)"
    using B(3) by (simp add: enter_wait_def)
  show "task_step C Q s (dispatch me s2)"
    by (rule task_stepI [OF K' keeps_ready [OF tc]]) (use B(2) in auto)
qed

lemma made_wait_forms:
  "made_wait t me s (make_wait t s)"
  "made_wait t me (set_tstat t (TS_WAITING OR TS_WAIT_SLP) s)
     (make_wait_tmout tmout me (set_tstat t (TS_WAITING OR TS_WAIT_SLP) s))"
  "made_wait t me (set_tstat t (TS_WAITING OR TS_WAIT_DLY) s)
     (make_delay t me tm CB_wait_tmout_ok (set_tstat t (TS_WAITING OR TS_WAIT_DLY) s))"
proof -
  have "wait_cb (TS_WAITING OR TS_WAIT_SLP) = CB_wait_tmout" "wait_cb (TS_WAITING OR TS_WAIT_DLY) = CB_wait_tmout_ok"
    by (simp_all add: wait_cb_def tstat_consts)
  then show "made_wait t me s (make_wait t s)"
    "made_wait t me (set_tstat t (TS_WAITING OR TS_WAIT_SLP) s)
       (make_wait_tmout tmout me (set_tstat t (TS_WAITING OR TS_WAIT_SLP) s))"
    "made_wait t me (set_tstat t (TS_WAITING OR TS_WAIT_DLY) s)
       (make_delay t me tm CB_wait_tmout_ok (set_tstat t (TS_WAITING OR TS_WAIT_DLY) s))"
    by (auto simp: made_wait_def set_tstat_def)
qed

end
