(* ===== verification/Core_Properties.thy ===== *)
theory Core_Properties
  imports Sample Task_Step
begin

text \<open>
  Properties of the time event heap and of the wait queues, each with a witness.
\<close>

text \<open>Two events of which the later one is beyond the wrap-around of the 32-bit clock.\<close>

definition sample_te :: "tmevtb tevtcb" where
  "sample_te = \<lparr>current_time = 0xFFFFFFF1, min_time = 0xFFFFFFF0, next_time = 0xFFFFFFF2, last_index = 2,
     tmevt_heap = (\<lambda>_. \<lparr>time = 0xFFFFFFF8, p_tmevtb = TM_TSK 0\<rparr>)(1 := \<lparr>time = 3, p_tmevtb = TM_TSK 1\<rparr>)\<rparr>"

definition sample_ix :: "tmevtb \<Rightarrow> nat" where
  "sample_ix = (\<lambda>_. 0)(TM_TSK 0 := 1, TM_TSK 1 := 2)"

lemma sample_EVTTIM:
  "EVTTIM_LE sample_te a b \<longleftrightarrow> a - 0xFFFFFFF0 \<le> b - 0xFFFFFFF0" "current_time sample_te = 0xFFFFFFF1"
  by (simp_all add: EVTTIM_LE_def sample_te_def)

lemma sample_heap:
  "heap_inv sample_te sample_ix" "evset sample_te = {(TM_TSK 0, 0xFFFFFFF8), (TM_TSK 1, 3)}"
proof -
  have i: "{1..2} = {1, 2 :: nat}" "{2..2} = {2 :: nat}" by auto
  have l: "last_index sample_te = 2" by (simp add: sample_te_def)
  have n: "TMEVT_NODE sample_te 1 = \<lparr>time = 0xFFFFFFF8, p_tmevtb = TM_TSK 0\<rparr>"
    "TMEVT_NODE sample_te 2 = \<lparr>time = 3, p_tmevtb = TM_TSK 1\<rparr>"
    by (simp_all add: sample_te_def TMEVT_NODE_def)
  show "heap_inv sample_te sample_ix"
    unfolding heap_inv_def l i by (simp add: n n [simplified] sample_EVTTIM sample_ix_def)
  show "evset sample_te = {(TM_TSK 0, 0xFFFFFFF8), (TM_TSK 1, 3)}"
    unfolding evset_def l i by (simp add: evnode_def n n [simplified])
qed

text \<open>
  C23: registering a time event keeps the binary heap well formed, adds exactly that event,
  leaves the earliest event at the root and moves only the index of the new event and of the
  registered ones.
\<close>

theorem event_insert_meets_spec:
  assumes "heap_inv te ix" and "b \<notin> fst ` evset te" and "tmevtb_insert b tm (te, ix) = (te', ix')"
  shows "heap_inv te' ix' \<and> evset te' = insert (b, tm) (evset te) \<and>
    (\<forall>(c, t) \<in> evset te'. EVTTIM_LE te' (time (TMEVT_NODE te' 1)) t) \<and>
    (\<forall>c. c \<noteq> b \<longrightarrow> c \<notin> fst ` evset te \<longrightarrow> ix' c = ix c)"
  using tmevtb_insert_correct [OF assms] heap_top_min [of te' ix']
  by (auto simp: heap_frame_def)

theorem event_insert_meets_spec_witness:
  "\<exists>te ix. tmevtb_insert (TM_TSK 5) 1 (sample_te, sample_ix) = (te, ix) \<and>
     evset te = {(TM_TSK 5, 1), (TM_TSK 0, 0xFFFFFFF8), (TM_TSK 1, 3)}"
proof -
  obtain te ix where e: "tmevtb_insert (TM_TSK 5) 1 (sample_te, sample_ix) = (te, ix)" by fastforce
  then show ?thesis
    using event_insert_meets_spec [OF sample_heap(1) _ e] by (auto simp: sample_heap(2))
qed

text \<open>
  C24: deleting a registered time event removes exactly that event from the heap, keeps it well
  formed and returns the time left until the event, computed modulo 2 to the 32.
\<close>

theorem event_delete_meets_spec:
  assumes "heap_inv te ix" and "(b, t) \<in> evset te" and "tmevtb_delete b (te, ix) = (left, te', ix')"
  shows "left = t - current_time te \<and> heap_inv te' ix' \<and> evset te' = evset te - {(b, t)} \<and>
    same_times te te'"
  using tmevtb_delete_correct [OF assms] by simp

theorem event_delete_meets_spec_witness:
  "\<exists>te ix. tmevtb_delete (TM_TSK 1) (sample_te, sample_ix) = (18, te, ix) \<and>
     evset te = {(TM_TSK 0, 0xFFFFFFF8)}"
proof -
  obtain l te ix where e: "tmevtb_delete (TM_TSK 1) (sample_te, sample_ix) = (l, te, ix)"
    by (metis prod_cases3)
  have "l = 18 \<and> evset te = {(TM_TSK 0, 0xFFFFFFF8)}"
    using event_delete_meets_spec [OF sample_heap(1) _ e, of 3] by (auto simp: sample_heap(2) sample_EVTTIM)
  then show ?thesis using e by blast
qed

text \<open>
  Event times are compared relative to \<open>min_time\<close>, modulo 2 to the 32.  When
  the clock moves on to a time that no registered event precedes, the heap is still ordered,
  also when event times have wrapped around.
\<close>

lemma event_order_survives_clock:
  assumes "heap_inv te ix" and "\<forall>(b, t) \<in> evset te. EVTTIM_LE te m t"
  shows "heap_inv (te\<lparr>min_time := m\<rparr>) ix"
  using heap_inv_shift [OF assms(1)] assms(2) by blast

lemma event_order_survives_clock_witness: "heap_inv (sample_te\<lparr>min_time := 0xFFFFFFF6\<rparr>) sample_ix"
  by (rule event_order_survives_clock [OF sample_heap(1)])
    (auto simp: sample_heap(2) sample_EVTTIM)

text \<open>
  The loop of \<open>queue_insert_tpri\<close> terminates on every well-formed ring, at the
  first entry of lower priority or at the header.
\<close>

lemma priority_scan_returns:
  assumes "qrep st Q" and "Q h = xs @ ys"
  shows "tpri_scan prio st (Hdr h) pri (entry_of h ys) =
    Some (entry_of h (dropWhile (\<lambda>u. prio u \<le> pri) ys))"
  using tpri_scan_returns [OF assms] .

lemma priority_scan_returns_witness:
  "tpri_scan (\<lambda>_. 5) sample_kq (Hdr (WAITQ (SEM 0))) 3 (Ent 1) = Some (Ent 1)"
  using priority_scan_returns [OF sample_qrep, of "WAITQ (SEM 0)" "[]" "[1]" "\<lambda>_. 5" 3]
  by (simp add: sample_queues_def entry_of_def)

text \<open>
  \<open>init_wait_queue\<close> terminates: it empties the wait queue of an object, and
  every task that waited is released with \<open>E_DLT\<close>; the kernel invariant is kept.
\<close>

lemma wait_queue_deletion_terminates:
  assumes "kinv C P Q s" and "h = WAITQ w \<or> h = RWAITQ w"
  shows "\<exists>d s' Q'. init_wait_queue_loop me (Hdr h) False s = Some (d, s') \<and>
    kinv C (if d then insert me P else P) Q' s' \<and> Q' h = [] \<and>
    tcb_of s' = all_ended E_DLT (Q h) (tcb_of s)"
proof -
  have h: "h \<noteq> RDY p i" for p i using assms(2) by auto
  have K: "kinv C (if False then insert me P else P) Q s" using assms(1) by simp
  show ?thesis using init_wait_queue_loop_kinv [OF K refl h] by blast
qed

lemma wait_queue_deletion_terminates_witness:
  "\<exists>d s'. init_wait_queue_loop 0 (Hdr (WAITQ (SEM 0))) False sample_state = Some (d, s') \<and>
     TSTAT_RUNNABLE (tstat (tcb_of s' 1)) \<and> wercd (tcb_of s' 1) = E_DLT"
  using wait_queue_deletion_terminates [OF sample_kinv, of "WAITQ (SEM 0)" _ 0]
  by (auto simp: all_ended_def ended_tcb_def released_tcb_def sample_tcb_def tstat_macros tstat_consts)

end
