(* ===== verification/Task_Sync.thy ===== *)
theory Task_Sync
  imports Task_Step
begin

text \<open>
  Task-dependent synchronization (\<open>kernel/task_sync.c\<close>): sleeping and waking up, releasing a
  wait, suspending and resuming, delaying.  The forced release of a task that waits for an
  object gives up the task lock and takes the object lock first: \<open>rel_wai_1\<close> and \<open>irel_wai_1\<close>
  are the steps before that point (\<open>None\<close>: the call goes on), \<open>rel_wai_2\<close> and \<open>irel_wai_2\<close> those
  after it, and any other step may come in between.
\<close>

section \<open>Sleeping and waking up\<close>

definition slp_tsk :: "prcix \<Rightarrow> kstate \<Rightarrow> ercd svc \<times> kstate" where
  "slp_tsk me s =
     (if \<not> sense_tskctx_unl me s then (Ret E_CTX, s)
      else if \<not> dspflg (pcb_of s me) then (Ret E_CTX, s)
      else let t = runtsk me s in
        if \<not> TSTAT_RUNNABLE (tstat (tcb_of s t)) then (Again, s)
        else if wupque (tcb_of s t) then
          (Ret E_OK, upd_tcb t (\<lambda>b. b\<lparr>wupque := False\<rparr>) s)
        else
          (let s = set_tstat t (TS_WAITING OR TS_WAIT_SLP) s;
               s = make_wait t s
           in (Blocks t, dispatch me s)))"

definition tslp_tsk :: "prcix \<Rightarrow> tmo \<Rightarrow> kstate \<Rightarrow> ercd svc \<times> kstate" where
  "tslp_tsk me tmout s =
     (if \<not> sense_tskctx_unl me s then (Ret E_CTX, s)
      else if \<not> VALID_TMOUT tmout then (Ret E_PAR, s)
      else if \<not> dspflg (pcb_of s me) then (Ret E_CTX, s)
      else let t = runtsk me s in
        if \<not> TSTAT_RUNNABLE (tstat (tcb_of s t)) then (Again, s)
        else if wupque (tcb_of s t) then
          (Ret E_OK, upd_tcb t (\<lambda>b. b\<lparr>wupque := False\<rparr>) s)
        else if tmout = TMO_POL then (Ret E_TMOUT, s)
        else
          (let s = set_tstat t (TS_WAITING OR TS_WAIT_SLP) s;
               s = make_wait_tmout tmout me s
           in (Blocks t, dispatch me s)))"

definition VALID_TSKID_SELF :: "cfg \<Rightarrow> ident \<Rightarrow> bool" where
  "VALID_TSKID_SELF C tskid \<longleftrightarrow> VALID_TSKID C tskid \<or> tskid = TSK_SELF"

definition wup_tsk :: "cfg \<Rightarrow> prcix \<Rightarrow> ident \<Rightarrow> kstate \<Rightarrow> ercd svc \<times> kstate" where
  "wup_tsk C me tskid s =
     (if \<not> sense_tskctx_unl me s then (Ret E_CTX, s)
      else if \<not> VALID_TSKID_SELF C tskid then (Ret E_ID, s)
      else let t = get_tcb_self me tskid s; p = p_pcb (tcb_of s t) in
        if TSTAT_DORMANT (tstat (tcb_of s t)) then (Ret E_OBJ, s)
        else if TSTAT_WAIT_SLP (tstat (tcb_of s t)) then
          (let (b, s) = wait_complete t s;
               (dspreq, s) = t_request me p b s
           in (Ret E_OK, t_dispatch_if me dspreq s))
        else if \<not> wupque (tcb_of s t) then
          (Ret E_OK, upd_tcb t (\<lambda>b. b\<lparr>wupque := True\<rparr>) s)
        else (Ret E_QOVR, s))"

definition iwup_tsk :: "cfg \<Rightarrow> prcix \<Rightarrow> ident \<Rightarrow> kstate \<Rightarrow> ercd svc \<times> kstate" where
  "iwup_tsk C me tskid s =
     (if \<not> sense_intctx_unl me s then (Ret E_CTX, s)
      else if \<not> VALID_TSKID C tskid then (Ret E_ID, s)
      else let t = get_tcb tskid; p = p_pcb (tcb_of s t) in
        if TSTAT_DORMANT (tstat (tcb_of s t)) then (Ret E_OBJ, s)
        else if TSTAT_WAIT_SLP (tstat (tcb_of s t)) then
          (let (b, s) = wait_complete t s in (Ret E_OK, i_request me p b s))
        else if \<not> wupque (tcb_of s t) then
          (Ret E_OK, upd_tcb t (\<lambda>b. b\<lparr>wupque := True\<rparr>) s)
        else (Ret E_QOVR, s))"

text \<open>\<open>can_wup\<close> returns an \<open>ER_UINT\<close>: an error (\<open>Inl\<close>) or the number of requests cancelled.\<close>

definition can_wup :: "cfg \<Rightarrow> prcix \<Rightarrow> ident \<Rightarrow> kstate \<Rightarrow> (ercd + nat) svc \<times> kstate" where
  "can_wup C me tskid s =
     (if \<not> sense_tskctx_unl me s then (Ret (Inl E_CTX), s)
      else if \<not> VALID_TSKID_SELF C tskid then (Ret (Inl E_ID), s)
      else let t = get_tcb_self me tskid s in
        if TSTAT_DORMANT (tstat (tcb_of s t)) then (Ret (Inl E_OBJ), s)
        else (Ret (Inr (if wupque (tcb_of s t) then 1 else 0)),
              upd_tcb t (\<lambda>b. b\<lparr>wupque := False\<rparr>) s))"

section \<open>Releasing a wait\<close>

definition rel_wai_1 :: "cfg \<Rightarrow> prcix \<Rightarrow> ident \<Rightarrow> kstate \<Rightarrow> ercd svc option \<times> kstate" where
  "rel_wai_1 C me tskid s =
     (if \<not> sense_tskctx_unl me s then (Some (Ret E_CTX), s)
      else if \<not> VALID_TSKID C tskid then (Some (Ret E_ID), s)
      else let t = get_tcb tskid; p = p_pcb (tcb_of s t) in
        if \<not> TSTAT_WAITING (tstat (tcb_of s t)) then (Some (Ret E_OBJ), s)
        else if \<not> TSTAT_WAIT_WOBJ (tstat (tcb_of s t)) then
          (let (b, s) = wait_release t s;
               (dspreq, s) = t_request me p b s
           in (Some (Ret E_OK), t_dispatch_if me dspreq s))
        else (None, upd_tcb t (\<lambda>b. b\<lparr>pend_relwai := True\<rparr>) s))"

definition rel_wai_2 :: "prcix \<Rightarrow> tskix \<Rightarrow> kstate \<Rightarrow> ercd svc \<times> kstate" where
  "rel_wai_2 me t s =
     (let p = p_pcb (tcb_of s t) in
      if \<not> pend_relwai (tcb_of s t) then (Ret E_OBJ, s)
      else
        (let s = upd_tcb t (\<lambda>b. b\<lparr>pend_relwai := False\<rparr>) s;
             (b, s) = wait_release t s;
             (dspreq, s) = t_request me p b s
         in (Ret E_OK, t_dispatch_if me dspreq s)))"

definition rel_wai :: "cfg \<Rightarrow> prcix \<Rightarrow> ident \<Rightarrow> kstate \<Rightarrow> ercd svc \<times> kstate" where
  "rel_wai C me tskid s =
     (case rel_wai_1 C me tskid s of
        (Some r, s) \<Rightarrow> (r, s)
      | (None, s) \<Rightarrow> rel_wai_2 me (get_tcb tskid) s)"

definition irel_wai_1 :: "cfg \<Rightarrow> prcix \<Rightarrow> ident \<Rightarrow> kstate \<Rightarrow> ercd svc option \<times> kstate" where
  "irel_wai_1 C me tskid s =
     (if \<not> sense_intctx_unl me s then (Some (Ret E_CTX), s)
      else if \<not> VALID_TSKID C tskid then (Some (Ret E_ID), s)
      else let t = get_tcb tskid; p = p_pcb (tcb_of s t) in
        if \<not> TSTAT_WAITING (tstat (tcb_of s t)) then (Some (Ret E_OBJ), s)
        else if \<not> TSTAT_WAIT_WOBJ (tstat (tcb_of s t)) then
          (let (b, s) = wait_release t s in (Some (Ret E_OK), i_request me p b s))
        else (None, upd_tcb t (\<lambda>b. b\<lparr>pend_relwai := True\<rparr>) s))"

definition irel_wai_2 :: "prcix \<Rightarrow> tskix \<Rightarrow> kstate \<Rightarrow> ercd svc \<times> kstate" where
  "irel_wai_2 me t s =
     (let p = p_pcb (tcb_of s t) in
      if \<not> pend_relwai (tcb_of s t) then (Ret E_OBJ, s)
      else
        (let s = upd_tcb t (\<lambda>b. b\<lparr>pend_relwai := False\<rparr>) s;
             (b, s) = wait_release t s
         in (Ret E_OK, i_request me p b s)))"

definition irel_wai :: "cfg \<Rightarrow> prcix \<Rightarrow> ident \<Rightarrow> kstate \<Rightarrow> ercd svc \<times> kstate" where
  "irel_wai C me tskid s =
     (case irel_wai_1 C me tskid s of
        (Some r, s) \<Rightarrow> (r, s)
      | (None, s) \<Rightarrow> irel_wai_2 me (get_tcb tskid) s)"

section \<open>Suspending, resuming, delaying\<close>

definition sus_tsk :: "cfg \<Rightarrow> prcix \<Rightarrow> ident \<Rightarrow> kstate \<Rightarrow> ercd svc \<times> kstate" where
  "sus_tsk C me tskid s =
     (if \<not> sense_tskctx_unl me s then (Ret E_CTX, s)
      else if \<not> VALID_TSKID_SELF C tskid then (Ret E_ID, s)
      else let t = get_tcb_self me tskid s; p = p_pcb (tcb_of s t) in
        if Some t = p_runtsk (pcb_of s me) \<and> \<not> dspflg (pcb_of s me) then (Ret E_CTX, s)
        else if TSTAT_DORMANT (tstat (tcb_of s t)) then (Ret E_OBJ, s)
        else if TSTAT_RUNNABLE (tstat (tcb_of s t)) then
          (let s = set_tstat t TS_SUSPENDED s;
               (b, s) = make_non_runnable t s;
               (dspreq, s) = t_request me p b s
           in (Ret E_OK, t_dispatch_if me dspreq s))
        else if TSTAT_SUSPENDED (tstat (tcb_of s t)) then (Ret E_QOVR, s)
        else (Ret E_OK, upd_tcb t (\<lambda>b. b\<lparr>tstat := tstat b OR TS_SUSPENDED\<rparr>) s))"

definition rsm_tsk :: "cfg \<Rightarrow> prcix \<Rightarrow> ident \<Rightarrow> kstate \<Rightarrow> ercd svc \<times> kstate" where
  "rsm_tsk C me tskid s =
     (if \<not> sense_tskctx_unl me s then (Ret E_CTX, s)
      else if \<not> VALID_TSKID C tskid then (Ret E_ID, s)
      else let t = get_tcb tskid; p = p_pcb (tcb_of s t) in
        if \<not> TSTAT_SUSPENDED (tstat (tcb_of s t)) then (Ret E_OBJ, s)
        else if \<not> TSTAT_WAITING (tstat (tcb_of s t)) then
          (let s = set_tstat t TS_RUNNABLE s;
               (b, s) = make_runnable t s;
               (dspreq, s) = t_request me p b s
           in (Ret E_OK, t_dispatch_if me dspreq s))
        else (Ret E_OK, upd_tcb t (\<lambda>b. b\<lparr>tstat := tstat b AND NOT TS_SUSPENDED\<rparr>) s))"

definition dly_tsk :: "prcix \<Rightarrow> reltim \<Rightarrow> kstate \<Rightarrow> ercd svc \<times> kstate" where
  "dly_tsk me dlytim s =
     (if \<not> sense_tskctx_unl me s then (Ret E_CTX, s)
      else if \<not> dlytim \<le> TMAX_RELTIM then (Ret E_PAR, s)
      else if \<not> dspflg (pcb_of s me) then (Ret E_CTX, s)
      else let t = runtsk me s in
        if \<not> TSTAT_RUNNABLE (tstat (tcb_of s t)) then (Again, s)
        else
          (let s = set_tstat t (TS_WAITING OR TS_WAIT_DLY) s;
               (_, s) = make_non_runnable t s;
               s = tmevtb_enqueue me (TM_TSK t) dlytim CB_wait_tmout_ok s
           in (Blocks t, dispatch me s)))"

section \<open>Every service keeps the invariant\<close>

lemma t_dispatch_if_i_req: "i_req me p b s = (False, i_request me p b s)" "t_dispatch_if me False s = s"
  by (simp_all add: i_req_def t_dispatch_if_def)

lemma wf_self: "kinv C P Q s \<Longrightarrow> wf_tcb (tcb_of s t)"
  by (rule kinvD(5))

lemma wupque_step: "kinv C {} Q s \<Longrightarrow> task_step C Q s (upd_tcb t (\<lambda>b. b\<lparr>wupque := x\<rparr>) s)"
  by (rule task_step_upd_tcb) (simp_all add: kinvD(5) place_def)

lemma slp_tsk_step: "kinv C {} Q s \<Longrightarrow> task_step C Q s (snd (slp_tsk me s))"
  using sleep_step(1) [where C = C and Q = Q and s = s and me = me, OF _ runtsk_may_block disjI1 [OF refl]
      made_wait_forms(1)]
    wupque_step task_step_refl
  by (simp add: slp_tsk_def Let_def)

lemma tslp_tsk_step: "kinv C {} Q s \<Longrightarrow> task_step C Q s (snd (tslp_tsk me tmout s))"
  using sleep_step(1) [where C = C and Q = Q and s = s and me = me, OF _ runtsk_may_block disjI1 [OF refl]
      made_wait_forms(2) [where tmout = tmout]]
    wupque_step task_step_refl
  by (simp add: tslp_tsk_def Let_def)

lemma dly_tsk_step: "kinv C {} Q s \<Longrightarrow> task_step C Q s (snd (dly_tsk me tm s))"
  using sleep_step(1) [where C = C and Q = Q and s = s and me = me, OF _ runtsk_may_block disjI2 [OF refl]
      made_wait_forms(3) [where tm = tm]]
    task_step_refl
  by (simp add: dly_tsk_def Let_def make_delay_def split_beta)

lemma wup_tsk_step:
  assumes K: "kinv C {} Q s"
  shows "task_step C Q s (snd (wup_tsk C me tskid s))"
  using treq.wakeup_step(1) [OF K _ surjective_pairing surjective_pairing, of "get_tcb_self me tskid s" me]
    wupque_step [OF K] task_step_refl [OF K]
  by (simp add: wup_tsk_def Let_def split_beta)

lemma iwup_tsk_step:
  assumes K: "kinv C {} Q s"
  shows "task_step C Q s (snd (iwup_tsk C me tskid s))"
  using ireq.wakeup_step(1) [OF K _ surjective_pairing t_dispatch_if_i_req(1), of "get_tcb tskid" me]
    wupque_step [OF K] task_step_refl [OF K]
  by (simp add: iwup_tsk_def Let_def split_beta t_dispatch_if_i_req)

lemma can_wup_step: "kinv C {} Q s \<Longrightarrow> task_step C Q s (snd (can_wup C me tskid s))"
  using wupque_step task_step_refl by (simp add: can_wup_def Let_def)

text \<open>Both halves of the forced release, in any states that satisfy the invariant.\<close>

lemma pend_relwai_step:
  assumes K: "kinv C {} Q s" and w: "x \<longrightarrow> TSTAT_WAIT_WOBJ (tstat (tcb_of s t))"
  shows "task_step C Q s (upd_tcb t (\<lambda>b. b\<lparr>pend_relwai := x\<rparr>) s)"
    and "kinv C {} Q (upd_tcb t (\<lambda>b. b\<lparr>pend_relwai := x\<rparr>) s)"
proof -
  have wf: "wf_tcb ((tcb_of s t)\<lparr>pend_relwai := x\<rparr>)"
    using kinvD(5) [OF K, of t] w by (auto simp: wf_tcb_def split: option.splits)
  show "task_step C Q s (upd_tcb t (\<lambda>b. b\<lparr>pend_relwai := x\<rparr>) s)"
    by (rule task_step_upd_tcb [OF K]) (use wf in simp_all)
  show "kinv C {} Q (upd_tcb t (\<lambda>b. b\<lparr>pend_relwai := x\<rparr>) s)"
    by (rule kinv_upd_tcb [OF K]) (use wf in simp_all)
qed

lemma rel_wai_1_step:
  assumes K: "kinv C {} Q s"
  shows "task_step C Q s (snd (rel_wai_1 C me tskid s))"
  using treq.release_step(1) [OF K _ surjective_pairing surjective_pairing, of "get_tcb tskid" me]
    pend_relwai_step(1) [OF K] task_step_refl [OF K]
  by (simp add: rel_wai_1_def Let_def split_beta)

lemma irel_wai_1_step:
  assumes K: "kinv C {} Q s"
  shows "task_step C Q s (snd (irel_wai_1 C me tskid s))"
  using ireq.release_step(1) [OF K _ surjective_pairing t_dispatch_if_i_req(1), of "get_tcb tskid" me]
    pend_relwai_step(1) [OF K] task_step_refl [OF K]
  by (simp add: irel_wai_1_def Let_def split_beta t_dispatch_if_i_req)

lemma pend_waiting:
  assumes K: "kinv C P Q s" and p: "pend_relwai (tcb_of s t)"
  shows "TSTAT_WAIT_WOBJ (tstat (tcb_of s t))" and "TSTAT_WAITING (tstat (tcb_of s t))"
  using kinvD(5) [OF K, of t] p wf_wobj_waiting by (auto simp: wf_tcb_def)

lemma ended_tcb_pend: "ended_tcb e (tc\<lparr>pend_relwai := x\<rparr>) = ended_tcb e tc"
  by (cases tc) (simp add: ended_tcb_def released_tcb_def)

context wake_request begin

text \<open>The half after the object lock, for either context.\<close>

lemma release_pending:
  assumes K: "kinv C {} Q s" and p: "pend_relwai (tcb_of s t)"
    and eq: "wait_release t (upd_tcb t (\<lambda>b. b\<lparr>pend_relwai := False\<rparr>) s) = (b, s1)"
      "req me (p_pcb (tcb_of s t)) b s1 = (d, s2)"
  shows "task_step C Q s (t_dispatch_if me d s2)"
    and "tcb_of (t_dispatch_if me d s2) = (tcb_of s)(t := ended_tcb E_RLWAI (tcb_of s t))"
proof -
  let ?s = "upd_tcb t (\<lambda>b. b\<lparr>pend_relwai := False\<rparr>) s"
  have K1: "kinv C {} Q ?s" by (rule pend_relwai_step(2) [OF K]) simp
  have w: "TSTAT_WAITING (tstat (tcb_of ?s t))" using pend_waiting(2) [OF K p] by simp
  have pp: "req me (p_pcb (tcb_of ?s t)) b s1 = (d, s2)" using eq(2) by simp
  note R = release_step [OF K1 w eq(1) pp]
  show "tcb_of (t_dispatch_if me d s2) = (tcb_of s)(t := ended_tcb E_RLWAI (tcb_of s t))"
    using R(2) by (simp add: ended_tcb_pend)
  obtain Q' where "kinv C {} Q' (t_dispatch_if me d s2)" "keeps {} Q ?s Q' (t_dispatch_if me d s2)"
    "objs (t_dispatch_if me d s2) = objs ?s" using R(1) unfolding task_step_def by blast
  moreover have "keeps {} Q s Q ?s" by (simp add: keeps_def)
  ultimately show "task_step C Q s (t_dispatch_if me d s2)"
    using keeps_trans [of "{}" Q s Q ?s] by (auto intro: task_stepI)
qed

end

lemma rel_wai_2_step:
  assumes K: "kinv C {} Q s"
  shows "task_step C Q s (snd (rel_wai_2 me t s))"
  using treq.release_pending(1) [OF K _ surjective_pairing surjective_pairing, of t me] task_step_refl [OF K]
  by (simp add: rel_wai_2_def Let_def split_beta)

lemma irel_wai_2_step:
  assumes K: "kinv C {} Q s"
  shows "task_step C Q s (snd (irel_wai_2 me t s))"
  using ireq.release_pending(1) [OF K _ surjective_pairing t_dispatch_if_i_req(1), of t me] task_step_refl [OF K]
  by (simp add: irel_wai_2_def Let_def split_beta t_dispatch_if_i_req)

lemma tstat_step:
  assumes K: "kinv C {} Q s" and w: "TSTAT_WAITING (tstat (tcb_of s t))"
    and ts: "g (tstat (tcb_of s t)) \<in> set wf_tstats" "TSTAT_WAITING (g (tstat (tcb_of s t)))"
      "g (tstat (tcb_of s t)) AND TS_WAIT_MASK = tstat (tcb_of s t) AND TS_WAIT_MASK"
  shows "task_step C Q s (upd_tcb t (\<lambda>b. b\<lparr>tstat := g (tstat b)\<rparr>) s)"
  by (rule task_step_upd_tcb [OF K])
     (use retag_waiting [OF kinvD(5) [OF K] w ts] ts w not_dormant(2) in simp_all)

lemma wf_status_cases:
  "wf_tcb tc \<Longrightarrow> TSTAT_DORMANT (tstat tc) \<or> TSTAT_RUNNABLE (tstat tc) \<or> TSTAT_WAITING (tstat tc) \<or>
   TSTAT_SUSPENDED (tstat tc)"
  by (auto simp: wf_tcb_def wf_tstats_def tstat_macros tstat_consts)

lemma sus_tsk_step:
  assumes K: "kinv C {} Q s"
  shows "task_step C Q s (snd (sus_tsk C me tskid s))"
proof -
  define t where "t = get_tcb_self me tskid s"
  let ?tc = "tcb_of s t"
  have wf: "wf_tcb ?tc" and ts: "tstat ?tc \<in> set wf_tstats" using kinvD(5) [OF K, of t] by (simp_all add: wf_tcb_def)
  have w: "task_step C Q s (upd_tcb t (\<lambda>b. b\<lparr>tstat := tstat b OR TS_SUSPENDED\<rparr>) s)"
    if "\<not> TSTAT_DORMANT (tstat ?tc)" "\<not> TSTAT_RUNNABLE (tstat ?tc)" "\<not> TSTAT_SUSPENDED (tstat ?tc)"
  proof -
    have w: "TSTAT_WAITING (tstat ?tc)" using wf_status_cases [OF wf] that by blast
    show ?thesis by (rule tstat_step [OF K w]) (use suspend_status [OF ts w] in auto)
  qed
  have r: "task_step C Q s (t_dispatch_if me d s2)"
    if run: "TSTAT_RUNNABLE (tstat ?tc)" and e: "make_non_runnable t (set_tstat t TS_SUSPENDED s) = (b, s1)"
      "t_request me (p_pcb ?tc) b s1 = (d, s2)" for b s1 d s2
  proof -
    let ?h = "RDY (p_pcb ?tc) (priority ?tc)"
    have f: "wf_tcb (?tc\<lparr>tstat := TS_SUSPENDED\<rparr>)"
      using wf wf_runnable_pend [OF wf run] by (simp add: wf_tcb_def)
    note S = stop_kinv [OF K run _ _ _ _ _ _ e(1) [unfolded set_tstat_def], simplified, OF _ f]
    note R = treq.request_done [OF S(1) e(2)]
    have tc: "tcb_of (t_dispatch_if me d s2) = (tcb_of s)(t := ?tc\<lparr>tstat := TS_SUSPENDED\<rparr>)"
      using S(2) R(2) by (simp add: place_def)
    show ?thesis
      by (rule task_stepI [OF R(1) keeps_ready [OF tc]]) (use R(3) S(3) in \<open>auto simp: place_def\<close>)
  qed
  show ?thesis
    using r [OF _ surjective_pairing surjective_pairing] w task_step_refl [OF K]
    by (simp add: sus_tsk_def Let_def split_beta t_def [symmetric])
qed

lemma rsm_tsk_step:
  assumes K: "kinv C {} Q s"
  shows "task_step C Q s (snd (rsm_tsk C me tskid s))"
proof -
  define t where "t = get_tcb tskid"
  let ?tc = "tcb_of s t"
  have wf: "wf_tcb ?tc" and ts: "tstat ?tc \<in> set wf_tstats" using kinvD(5) [OF K, of t] by (simp_all add: wf_tcb_def)
  have w: "task_step C Q s (upd_tcb t (\<lambda>b. b\<lparr>tstat := tstat b AND NOT TS_SUSPENDED\<rparr>) s)"
    if "TSTAT_WAITING (tstat ?tc)"
    by (rule tstat_step [OF K that]) (use suspend_status [OF ts that] in auto)
  have r: "task_step C Q s (t_dispatch_if me d s2)"
    if su: "TSTAT_SUSPENDED (tstat ?tc)" "\<not> TSTAT_WAITING (tstat ?tc)"
      and e: "make_runnable t (set_tstat t TS_RUNNABLE s) = (b, s1)"
      "t_request me (p_pcb ?tc) b s1 = (d, s2)" for b s1 d s2
  proof -
    have nr: "\<not> TSTAT_RUNNABLE (tstat ?tc)" "\<not> TSTAT_WAIT_WOBJ (tstat ?tc)"
      using ts su by (auto simp: wf_tstats_def tstat_macros tstat_consts)
    have f: "wf_tcb (?tc\<lparr>tstat := TS_RUNNABLE\<rparr>)" using wf nr by (simp add: wf_tcb_def)
    have pl: "place ?tc = None" using nr su by (simp add: place_def)
    note S = start_kinv [OF K pl su(2) _ _ _ e(1) [unfolded set_tstat_def], simplified, OF f]
    have S1: "kinv C (if b then insert (p_pcb ?tc) {} else {})
        (Q(RDY (p_pcb ?tc) (priority ?tc) := Q (RDY (p_pcb ?tc) (priority ?tc)) @ [t])) s1"
      using S(1) by (simp split: if_splits)
    note R = treq.request_done [OF S1 e(2)]
    have tc: "tcb_of (t_dispatch_if me d s2) = (tcb_of s)(t := ?tc\<lparr>tstat := TS_RUNNABLE\<rparr>)"
      using S(2) R(2) by simp
    show ?thesis
      by (rule task_stepI [OF R(1) keeps_ready [OF tc]]) (use R(3) S(3) in auto)
  qed
  show ?thesis
    using r [OF _ _ surjective_pairing surjective_pairing] w task_step_refl [OF K]
    by (simp add: rsm_tsk_def Let_def split_beta t_def [symmetric])
qed

section \<open>What the services do\<close>

text \<open>One wakeup request is remembered, and the next \<open>slp_tsk\<close> takes it.\<close>

lemma wup_then_slp:
  assumes K: "kinv C {} Q s" and c: "sense_tskctx_unl me s" "dspflg (pcb_of s me)"
    and run: "TSTAT_RUNNABLE (tstat (tcb_of s (runtsk me s)))" and w: "\<not> wupque (tcb_of s (runtsk me s))"
  shows "\<exists>s1. wup_tsk C me TSK_SELF s = (Ret E_OK, s1) \<and> wup_tsk C me TSK_SELF s1 = (Ret E_QOVR, s1) \<and>
    slp_tsk me s1 = (Ret E_OK, s)"
proof -
  define t where "t = runtsk me s"
  let ?s1 = "upd_tcb t (\<lambda>b. b\<lparr>wupque := True\<rparr>) s"
  have ts: "tstat (tcb_of s t) \<in> set wf_tstats" using kinvD(5) [OF K, of t] by (simp add: wf_tcb_def)
  have n: "\<not> TSTAT_DORMANT (tstat (tcb_of s t))" "\<not> TSTAT_WAIT_SLP (tstat (tcb_of s t))"
    using ts run unfolding t_def [symmetric] by (auto simp: wf_tstats_def tstat_macros tstat_consts)
  have v: "VALID_TSKID_SELF C TSK_SELF" by (simp add: VALID_TSKID_SELF_def)
  have r: "runtsk me ?s1 = t" "sense_tskctx_unl me ?s1" "dspflg (pcb_of ?s1 me)"
    using c by (simp_all add: runtsk_def t_def sense_tskctx_unl_def sense_context_def sense_lock_def)
  have "(tcb_of s t)\<lparr>wupque := True, wupque := False\<rparr> = tcb_of s t" using w by (simp add: t_def)
  then have id: "upd_tcb t (\<lambda>b. b\<lparr>wupque := False\<rparr>) ?s1 = s" by (simp add: upd_tcb_def fun_upd_idem)
  have "wup_tsk C me TSK_SELF s = (Ret E_OK, ?s1)"
    using c v n w by (simp add: wup_tsk_def get_tcb_self_def t_def [symmetric] Let_def)
  moreover have "wup_tsk C me TSK_SELF ?s1 = (Ret E_QOVR, ?s1)"
    using r v n by (simp add: wup_tsk_def get_tcb_self_def Let_def)
  moreover have "slp_tsk me ?s1 = (Ret E_OK, s)"
    using r run id by (simp add: slp_tsk_def Let_def t_def)
  ultimately show ?thesis by blast
qed

text \<open>\<open>rsm_tsk\<close> undoes \<open>sus_tsk\<close> of a waiting task.\<close>

lemma sus_then_rsm:
  assumes K: "kinv C {} Q s" and c: "sense_tskctx_unl me s" and v: "VALID_TSKID C tskid" "tskid \<noteq> TSK_SELF"
    and w: "TSTAT_WAITING (tstat (tcb_of s (get_tcb tskid)))"
    and ns: "\<not> TSTAT_SUSPENDED (tstat (tcb_of s (get_tcb tskid)))"
    and nr: "p_runtsk (pcb_of s me) \<noteq> Some (get_tcb tskid)"
  shows "\<exists>s1. sus_tsk C me tskid s = (Ret E_OK, s1) \<and> rsm_tsk C me tskid s1 = (Ret E_OK, s)"
proof -
  define t where "t = get_tcb tskid"
  let ?s1 = "upd_tcb t (\<lambda>b. b\<lparr>tstat := tstat b OR TS_SUSPENDED\<rparr>) s"
  have ts: "tstat (tcb_of s t) \<in> set wf_tstats" using kinvD(5) [OF K, of t] by (simp add: wf_tcb_def)
  have n: "\<not> TSTAT_DORMANT (tstat (tcb_of s t))" "\<not> TSTAT_RUNNABLE (tstat (tcb_of s t))"
    "(tstat (tcb_of s t) OR TS_SUSPENDED) AND NOT TS_SUSPENDED = tstat (tcb_of s t)"
    using ts w ns unfolding t_def [symmetric] by (auto simp: wf_tstats_def tstat_macros tstat_consts)
  note su = suspend_status [OF ts w [folded t_def]]
  have id: "upd_tcb t (\<lambda>b. b\<lparr>tstat := tstat b AND NOT TS_SUSPENDED\<rparr>) ?s1 = s"
    using n(3) by (simp add: upd_tcb_def fun_upd_idem)
  have c1: "sense_tskctx_unl me ?s1" using c by (simp add: sense_tskctx_unl_def sense_context_def sense_lock_def)
  have "sus_tsk C me tskid s = (Ret E_OK, ?s1)"
    using c v n ns nr by (auto simp: sus_tsk_def VALID_TSKID_SELF_def get_tcb_self_def t_def [symmetric] Let_def)
  moreover have "rsm_tsk C me tskid ?s1 = (Ret E_OK, s)"
    using c1 v su id by (simp add: rsm_tsk_def t_def [symmetric] Let_def)
  ultimately show ?thesis by blast
qed

text \<open>\<open>rel_wai\<close> ends any wait with \<open>E_RLWAI\<close>, whatever the task waits for.\<close>

lemma rel_wai_spec:
  assumes K: "kinv C {} Q s" and c: "sense_tskctx_unl me s" and v: "VALID_TSKID C tskid"
    and eq: "rel_wai C me tskid s = (r, s')"
  defines "t \<equiv> get_tcb tskid"
  shows "if TSTAT_WAITING (tstat (tcb_of s t))
    then r = Ret E_OK \<and> task_step C Q s s' \<and> tcb_of s' = (tcb_of s)(t := ended_tcb E_RLWAI (tcb_of s t))
    else r = Ret E_OBJ \<and> s' = s"
proof (cases "TSTAT_WAITING (tstat (tcb_of s t))")
  case False
  then show ?thesis using eq c v by (auto simp: rel_wai_def rel_wai_1_def Let_def t_def)
next
  case w: True
  show ?thesis
  proof (cases "TSTAT_WAIT_WOBJ (tstat (tcb_of s t))")
    case False
    obtain b s1 where e1: "wait_release t s = (b, s1)" by fastforce
    obtain d s2 where e2: "t_request me (p_pcb (tcb_of s t)) b s1 = (d, s2)" by fastforce
    have "r = Ret E_OK" "s' = t_dispatch_if me d s2"
      using eq c v w False e1 e2 by (auto simp: rel_wai_def rel_wai_1_def Let_def t_def)
    then show ?thesis using treq.release_step [OF K w e1 e2] w by simp
  next
    case True
    let ?s = "upd_tcb t (\<lambda>b. b\<lparr>pend_relwai := True\<rparr>) s"
    have K1: "kinv C {} Q ?s" by (rule pend_relwai_step(2) [OF K]) (use True in simp)
    obtain b s1 where e1: "wait_release t (upd_tcb t (\<lambda>b. b\<lparr>pend_relwai := False\<rparr>) ?s) = (b, s1)" by fastforce
    obtain d s2 where e2: "t_request me (p_pcb (tcb_of ?s t)) b s1 = (d, s2)" by fastforce
    have r: "r = Ret E_OK" "s' = t_dispatch_if me d s2"
      using eq c v w True e1 e2 by (auto simp: rel_wai_def rel_wai_1_def rel_wai_2_def Let_def t_def)
    note R = treq.release_pending [OF K1 _ e1 e2, folded r(2)]
    have "task_step C Q ?s s'" using R(1) by simp
    then obtain Q' where "kinv C {} Q' s'" "keeps {} Q ?s Q' s'" "objs s' = objs s"
      unfolding task_step_def by auto
    moreover have "keeps {} Q s Q ?s" by (simp add: keeps_def)
    ultimately have "task_step C Q s s'" using keeps_trans [of "{}" Q s Q ?s] by (auto intro: task_stepI)
    then show ?thesis using R(2) r(1) w by (simp add: ended_tcb_pend)
  qed
qed

end
