(* ===== verification/Spin_Lock.thy ===== *)
theory Spin_Lock
  imports Task_Step
begin

text \<open>
  Spin locks (\<open>kernel/spin_lock.c\<close>, \<open>TTYPE_SPN == NATIVE_SPN\<close>).  The target's lock word is
  \<open>spn_lock\<close>; \<open>lock_flg\<close> is what \<open>ref_spn\<close> reports, and \<open>locspnid\<close> of a processor the lock it
  holds.  A call that spins is \<open>Again\<close>.  A processor that holds a spin lock has its CPU locked.
  \<open>spn_inv\<close>: a lock word is held exactly when one processor holds the lock.
\<close>

section \<open>Services\<close>

definition spn :: "kstate \<Rightarrow> nat \<Rightarrow> spncb" where "spn s i = spncb_of (objs s) i"

definition upd_spn :: "nat \<Rightarrow> (spncb \<Rightarrow> spncb) \<Rightarrow> kstate \<Rightarrow> kstate" where
  "upd_spn i f s =
     s\<lparr>objs := (objs s)\<lparr>spncb_of := (spncb_of (objs s))(i := f (spncb_of (objs s) i))\<rparr>\<rparr>"

definition tnum_spn :: "cfg \<Rightarrow> nat" where "tnum_spn C = uint_cast (tmax_spnid C - 1 + 1)"

definition set_lock_flag :: "prcix \<Rightarrow> bool \<Rightarrow> kstate \<Rightarrow> kstate" where
  "set_lock_flag me x = upd_pcb me (\<lambda>b. b\<lparr>lock_flag := x\<rparr>)"

definition set_locspnid :: "prcix \<Rightarrow> ident \<Rightarrow> kstate \<Rightarrow> kstate" where
  "set_locspnid me i = upd_pcb me (\<lambda>b. b\<lparr>locspnid := i\<rparr>)"

fun init_spns :: "nat \<Rightarrow> kstate \<Rightarrow> kstate" where
  "init_spns 0 s = s"
| "init_spns (Suc i) s =
     upd_spn i (\<lambda>b. b\<lparr>lock_flg := False, spn_lock := False\<rparr>) (init_spns i s)"

definition initialize_spin_lock :: "cfg \<Rightarrow> bool \<Rightarrow> prcix \<Rightarrow> kstate \<Rightarrow> kstate" where
  "initialize_spin_lock C x_sense_mprc me s =
     (let s = set_locspnid me 0 s in if x_sense_mprc then init_spns (tnum_spn C) s else s)"

definition force_unlock_spin :: "prcix \<Rightarrow> kstate \<Rightarrow> kstate" where
  "force_unlock_spin me s =
     (if locspnid (pcb_of s me) \<noteq> 0 then
        (let i = INDEX_OBJ (locspnid (pcb_of s me));
             s = upd_spn i (\<lambda>b. b\<lparr>spn_lock := False\<rparr>) s;
             s = upd_spn i (\<lambda>b. b\<lparr>lock_flg := False\<rparr>) s
         in set_locspnid me 0 s)
      else s)"

text \<open>What \<open>loc_spn\<close> and its kin do once the lock word is theirs.\<close>

definition spn_take :: "prcix \<Rightarrow> ident \<Rightarrow> kstate \<Rightarrow> kstate" where
  "spn_take me spnid s =
     (let i = INDEX_OBJ spnid;
          s = set_lock_flag me True s;
          s = upd_spn i (\<lambda>b. b\<lparr>spn_lock := True\<rparr>) s;
          s = upd_spn i (\<lambda>b. b\<lparr>lock_flg := True\<rparr>) s
      in set_locspnid me spnid s)"

definition loc_spn :: "cfg \<Rightarrow> prcix \<Rightarrow> ident \<Rightarrow> kstate \<Rightarrow> ercd svc \<times> kstate" where
  "loc_spn C me spnid s =
     (if \<not> sense_tskctx_unl me s then (Ret E_CTX, s)
      else if \<not> VALID_SPNID C spnid then (Ret E_ID, s)
      else if spn_lock (spn s (INDEX_OBJ spnid)) then (Again, s)
      else (Ret E_OK, spn_take me spnid s))"

definition iloc_spn :: "cfg \<Rightarrow> prcix \<Rightarrow> ident \<Rightarrow> kstate \<Rightarrow> ercd svc \<times> kstate" where
  "iloc_spn C me spnid s =
     (if \<not> sense_intctx_unl me s then (Ret E_CTX, s)
      else if \<not> VALID_SPNID C spnid then (Ret E_ID, s)
      else if spn_lock (spn s (INDEX_OBJ spnid)) then (Again, s)
      else (Ret E_OK, spn_take me spnid s))"

definition try_spn :: "cfg \<Rightarrow> prcix \<Rightarrow> ident \<Rightarrow> kstate \<Rightarrow> ercd svc \<times> kstate" where
  "try_spn C me spnid s =
     (if \<not> sense_tskctx_unl me s then (Ret E_CTX, s)
      else if \<not> VALID_SPNID C spnid then (Ret E_ID, s)
      else if spn_lock (spn s (INDEX_OBJ spnid)) then (Ret E_OBJ, set_lock_flag me False s)
      else (Ret E_OK, spn_take me spnid s))"

definition itry_spn :: "cfg \<Rightarrow> prcix \<Rightarrow> ident \<Rightarrow> kstate \<Rightarrow> ercd svc \<times> kstate" where
  "itry_spn C me spnid s =
     (if \<not> sense_intctx_unl me s then (Ret E_CTX, s)
      else if \<not> VALID_SPNID C spnid then (Ret E_ID, s)
      else if spn_lock (spn s (INDEX_OBJ spnid)) then (Ret E_OBJ, set_lock_flag me False s)
      else (Ret E_OK, spn_take me spnid s))"

text \<open>
  A call with the CPU unlocked locks it and, on an error, unlocks it again: the lock is as
  before.
\<close>

definition unl_spn :: "cfg \<Rightarrow> prcix \<Rightarrow> ident \<Rightarrow> kstate \<Rightarrow> ercd svc \<times> kstate" where
  "unl_spn C me spnid s =
     (if sense_context me s then (Ret E_CTX, s)
      else if \<not> VALID_SPNID C spnid then (Ret E_ID, s)
      else if locspnid (pcb_of s me) \<noteq> spnid then (Ret E_ILUSE, s)
      else
        (let i = INDEX_OBJ spnid;
             s = set_locspnid me 0 s;
             s = upd_spn i (\<lambda>b. b\<lparr>lock_flg := False\<rparr>) s;
             s = upd_spn i (\<lambda>b. b\<lparr>spn_lock := False\<rparr>) s
         in (Ret E_OK, set_lock_flag me False s)))"

definition iunl_spn :: "cfg \<Rightarrow> prcix \<Rightarrow> ident \<Rightarrow> kstate \<Rightarrow> ercd svc \<times> kstate" where
  "iunl_spn C me spnid s =
     (if \<not> sense_context me s then (Ret E_CTX, s)
      else if \<not> VALID_SPNID C spnid then (Ret E_ID, s)
      else if locspnid (pcb_of s me) \<noteq> spnid then (Ret E_ILUSE, s)
      else
        (let i = INDEX_OBJ spnid;
             s = upd_spn i (\<lambda>b. b\<lparr>lock_flg := False\<rparr>) s;
             s = set_locspnid me 0 s;
             s = upd_spn i (\<lambda>b. b\<lparr>spn_lock := False\<rparr>) s
         in (Ret E_OK, set_lock_flag me False s)))"

definition TSPN_UNL :: nat where "TSPN_UNL = 1"
definition TSPN_LOC :: nat where "TSPN_LOC = 2"

record t_rspn = spnstat :: nat

definition ref_spn :: "cfg \<Rightarrow> prcix \<Rightarrow> ident \<Rightarrow> kstate \<Rightarrow> (ercd \<times> t_rspn option) \<times> kstate" where
  "ref_spn C me spnid s =
     (if \<not> sense_tskctx_unl me s then ((E_CTX, None), s)
      else if \<not> VALID_SPNID C spnid then ((E_ID, None), s)
      else ((E_OK, Some \<lparr>spnstat =
              (if lock_flg (spn s (INDEX_OBJ spnid)) then TSPN_LOC else TSPN_UNL)\<rparr>), s))"

section \<open>Mutual exclusion\<close>

text \<open>
  \<open>spn_inv C s\<close>: a processor that holds a lock holds a configured one, has its CPU locked and
  is alone; a lock word is held, and reported as held, exactly when some processor holds it.
\<close>

definition spn_inv :: "cfg \<Rightarrow> kstate \<Rightarrow> bool" where
  "spn_inv C s \<longleftrightarrow>
     (\<forall>p. locspnid (pcb_of s p) \<noteq> 0 \<longrightarrow> VALID_SPNID C (locspnid (pcb_of s p)) \<and> lock_flag (pcb_of s p)) \<and>
     (\<forall>p q. locspnid (pcb_of s p) \<noteq> 0 \<longrightarrow> locspnid (pcb_of s p) = locspnid (pcb_of s q) \<longrightarrow> p = q) \<and>
     (\<forall>i. VALID_SPNID C i \<longrightarrow>
        (spn_lock (spn s (INDEX_OBJ i)) \<longleftrightarrow> (\<exists>p. locspnid (pcb_of s p) = i)) \<and>
        (lock_flg (spn s (INDEX_OBJ i)) \<longleftrightarrow> (\<exists>p. locspnid (pcb_of s p) = i)))"

lemma INDEX_OBJ_inj:
  "1 \<le> i \<Longrightarrow> i < 2 ^ 32 \<Longrightarrow> 1 \<le> j \<Longrightarrow> j < 2 ^ 32 \<Longrightarrow> INDEX_OBJ i = INDEX_OBJ j \<longleftrightarrow> i = j"
  by (simp add: INDEX_OBJ_def uint_cast_def nat_eq_iff)

lemma spn_upd_sel [simp]:
  "spn (upd_spn i f s) j = (if j = i then f (spn s i) else spn s j)" "pcb_of (upd_spn i f s) = pcb_of s"
  "spn (set_lock_flag me x s) j = spn s j" "spn (set_locspnid me k s) j = spn s j"
  "pcb_of (set_lock_flag me x s) = (pcb_of s)(me := (pcb_of s me)\<lparr>lock_flag := x\<rparr>)"
  "pcb_of (set_locspnid me k s) = (pcb_of s)(me := (pcb_of s me)\<lparr>locspnid := k\<rparr>)"
  by (simp_all add: spn_def upd_spn_def set_lock_flag_def set_locspnid_def)

lemma VALID_SPNID_0 [simp]: "\<not> VALID_SPNID C 0"
  by (simp add: VALID_SPNID_def)

text \<open>Taking a free lock and giving up the lock that is held.\<close>

lemma spn_take_inv:
  assumes I: "spn_inv C s" and n: "tmax_spnid C < 2 ^ 32" and v: "VALID_SPNID C spnid"
    and f: "\<not> spn_lock (spn s (INDEX_OBJ spnid))" and l: "locspnid (pcb_of s me) = 0"
  shows "spn_inv C (spn_take me spnid s)"
proof -
  have e: "INDEX_OBJ i = INDEX_OBJ spnid \<longleftrightarrow> i = spnid" if "VALID_SPNID C i" for i
    by (rule INDEX_OBJ_inj) (use that v n in \<open>auto simp: VALID_SPNID_def\<close>)
  have nh: "locspnid (pcb_of s p) \<noteq> spnid" for p using I f v unfolding spn_inv_def by blast
  have z: "spnid \<noteq> 0" using v by auto
  have ex: "(\<exists>p. locspnid (pcb_of (spn_take me spnid s) p) = i) \<longleftrightarrow>
      i = spnid \<or> (\<exists>p. locspnid (pcb_of s p) = i)" if "VALID_SPNID C i" for i
  proof -
    have "i \<noteq> 0" using that by auto
    then show ?thesis using l by (auto simp: spn_take_def Let_def)
  qed
  show ?thesis
    unfolding spn_inv_def using I nh z v ex e
    by (auto simp: spn_inv_def) (auto simp: spn_take_def Let_def split: if_splits)
qed

lemma spn_invD:
  assumes "spn_inv C s"
  shows "locspnid (pcb_of s p) \<noteq> 0 \<Longrightarrow> VALID_SPNID C (locspnid (pcb_of s p)) \<and> lock_flag (pcb_of s p)"
    and "locspnid (pcb_of s p) \<noteq> 0 \<Longrightarrow> locspnid (pcb_of s p) = locspnid (pcb_of s q) \<Longrightarrow> p = q"
    and "VALID_SPNID C i \<Longrightarrow> spn_lock (spn s (INDEX_OBJ i)) \<longleftrightarrow> (\<exists>p. locspnid (pcb_of s p) = i)"
    and "VALID_SPNID C i \<Longrightarrow> lock_flg (spn s (INDEX_OBJ i)) \<longleftrightarrow> (\<exists>p. locspnid (pcb_of s p) = i)"
  using assms unfolding spn_inv_def by blast+

text \<open>The state after a processor gave its lock up, whatever the order of the writes.\<close>

definition spn_given :: "prcix \<Rightarrow> ident \<Rightarrow> kstate \<Rightarrow> kstate \<Rightarrow> bool" where
  "spn_given me spnid s s' \<longleftrightarrow>
     (\<forall>p. locspnid (pcb_of s' p) = (if p = me then 0 else locspnid (pcb_of s p))) \<and>
     (\<forall>p. p \<noteq> me \<longrightarrow> lock_flag (pcb_of s' p) = lock_flag (pcb_of s p)) \<and>
     (\<forall>j. spn s' j = (if j = INDEX_OBJ spnid then \<lparr>spn_lock = False, lock_flg = False\<rparr> else spn s j))"

lemma spn_given_inv:
  assumes I: "spn_inv C s" and n: "tmax_spnid C < 2 ^ 32" and v: "VALID_SPNID C spnid"
    and l: "locspnid (pcb_of s me) = spnid" and g: "spn_given me spnid s s'"
  shows "spn_inv C s'"
proof -
  have e: "INDEX_OBJ i = INDEX_OBJ spnid \<longleftrightarrow> i = spnid" if "VALID_SPNID C i" for i
    by (rule INDEX_OBJ_inj) (use that v n in \<open>auto simp: VALID_SPNID_def\<close>)
  have loc: "locspnid (pcb_of s' p) = (if p = me then 0 else locspnid (pcb_of s p))" for p
    using g by (simp add: spn_given_def)
  have sp: "spn s' j = (if j = INDEX_OBJ spnid then \<lparr>spn_lock = False, lock_flg = False\<rparr> else spn s j)" for j
    using g by (simp add: spn_given_def)
  have ex: "(\<exists>p. locspnid (pcb_of s' p) = i) \<longleftrightarrow> i \<noteq> spnid \<and> (\<exists>p. locspnid (pcb_of s p) = i)"
    if "VALID_SPNID C i" for i
  proof -
    have "i \<noteq> 0" using that by auto
    then show ?thesis using l spn_invD(2) [OF I, of me] loc by (metis)
  qed
  show ?thesis
    unfolding spn_inv_def
  proof (intro conjI allI impI)
    fix p assume "locspnid (pcb_of s' p) \<noteq> 0"
    then have p: "p \<noteq> me" "locspnid (pcb_of s p) \<noteq> 0" "locspnid (pcb_of s' p) = locspnid (pcb_of s p)"
      by (auto simp: loc split: if_splits)
    then show "VALID_SPNID C (locspnid (pcb_of s' p))" "lock_flag (pcb_of s' p)"
      using spn_invD(1) [OF I, of p] g by (simp_all add: spn_given_def)
  next
    fix p q assume "locspnid (pcb_of s' p) \<noteq> 0" "locspnid (pcb_of s' p) = locspnid (pcb_of s' q)"
    then show "p = q" using spn_invD(2) [OF I, of p q] by (auto simp: loc split: if_splits)
  next
    fix i assume i: "VALID_SPNID C i"
    show "spn_lock (spn s' (INDEX_OBJ i)) \<longleftrightarrow> (\<exists>p. locspnid (pcb_of s' p) = i)"
      "lock_flg (spn s' (INDEX_OBJ i)) \<longleftrightarrow> (\<exists>p. locspnid (pcb_of s' p) = i)"
      using spn_invD(3,4) [OF I i] by (simp_all add: sp e [OF i] ex [OF i])
  qed
qed

text \<open>Locking or unlocking the CPU of a processor that holds no lock.\<close>

lemma set_lock_flag_inv:
  "spn_inv C s \<Longrightarrow> x \<or> locspnid (pcb_of s me) = 0 \<Longrightarrow> spn_inv C (set_lock_flag me x s)"
proof -
  assume I: "spn_inv C s" and x: "x \<or> locspnid (pcb_of s me) = 0"
  have l: "locspnid (pcb_of (set_lock_flag me x s) p) = locspnid (pcb_of s p)" for p by simp
  have f: "lock_flag (pcb_of (set_lock_flag me x s) p)" if "locspnid (pcb_of s p) \<noteq> 0" for p
    using spn_invD(1) [OF I that] x that by auto
  show ?thesis
    unfolding spn_inv_def l spn_upd_sel(3)
    using I f unfolding spn_inv_def by blast
qed

lemma unlocked_holds_none:
  assumes "spn_inv C s" and "sense_tskctx_unl me s \<or> sense_intctx_unl me s"
  shows "locspnid (pcb_of s me) = 0"
  using assms spn_invD(1) [OF assms(1), of me]
  by (auto simp: sense_tskctx_unl_def sense_intctx_unl_def sense_lock_def)

lemma spn_take_services_inv:
  assumes I: "spn_inv C s" and n: "tmax_spnid C < 2 ^ 32"
  shows "spn_inv C (snd (loc_spn C me spnid s))" and "spn_inv C (snd (iloc_spn C me spnid s))"
    and "spn_inv C (snd (try_spn C me spnid s))" and "spn_inv C (snd (itry_spn C me spnid s))"
proof -
  have u: "locspnid (pcb_of s me) = 0" if "sense_tskctx_unl me s \<or> sense_intctx_unl me s"
    using unlocked_holds_none [OF I that] .
  have f: "spn_inv C (set_lock_flag me False s)" if "sense_tskctx_unl me s \<or> sense_intctx_unl me s"
    using set_lock_flag_inv [OF I] u [OF that] by blast
  have t: "spn_inv C (spn_take me spnid s)"
    if "sense_tskctx_unl me s \<or> sense_intctx_unl me s" "VALID_SPNID C spnid"
      "\<not> spn_lock (spn s (INDEX_OBJ spnid))"
    using spn_take_inv [OF I n that(2,3) u [OF that(1)]] .
  show "spn_inv C (snd (loc_spn C me spnid s))" "spn_inv C (snd (iloc_spn C me spnid s))"
    using t I by (simp_all add: loc_spn_def iloc_spn_def)
  show "spn_inv C (snd (try_spn C me spnid s))" "spn_inv C (snd (itry_spn C me spnid s))"
    using t f I by (simp_all add: try_spn_def itry_spn_def)
qed

lemma unl_spn_services_inv:
  assumes I: "spn_inv C s" and n: "tmax_spnid C < 2 ^ 32"
  shows "spn_inv C (snd (unl_spn C me spnid s))" and "spn_inv C (snd (iunl_spn C me spnid s))"
proof -
  have g: "spn_inv C s'"
    if "VALID_SPNID C spnid" "locspnid (pcb_of s me) = spnid" "spn_given me spnid s s'" for s'
    using spn_given_inv [OF I n that] .
  show "spn_inv C (snd (unl_spn C me spnid s))" "spn_inv C (snd (iunl_spn C me spnid s))"
    using I by (auto simp: unl_spn_def iunl_spn_def Let_def spn_given_def intro!: g)
qed

lemma force_unlock_spin_inv:
  assumes I: "spn_inv C s" and n: "tmax_spnid C < 2 ^ 32"
  shows "spn_inv C (force_unlock_spin me s)"
proof (cases "locspnid (pcb_of s me) = 0")
  case True then show ?thesis using I by (simp add: force_unlock_spin_def)
next
  case False
  then show ?thesis
    using spn_given_inv [OF I n _ refl, of me "force_unlock_spin me s"] spn_invD(1) [OF I, of me]
    by (auto simp: force_unlock_spin_def Let_def spn_given_def)
qed

text \<open>Two processors never both hold a lock: the second \<open>loc_spn\<close> spins, and \<open>try_spn\<close> fails.\<close>

lemma loc_spn_excludes:
  assumes I: "spn_inv C s" and c: "sense_tskctx_unl me s" and v: "VALID_SPNID C spnid"
  shows "fst (loc_spn C me spnid s) = (if \<exists>p. locspnid (pcb_of s p) = spnid then Again else Ret E_OK)"
    and "fst (try_spn C me spnid s) = (if \<exists>p. locspnid (pcb_of s p) = spnid then Ret E_OBJ else Ret E_OK)"
  using spn_invD(3) [OF I v] c v by (auto simp: loc_spn_def try_spn_def)

lemma kinv_upd_spn [simp]: "kinv C P Q (upd_spn i f s) = kinv C P Q s"
  by (simp add: upd_spn_def)

text \<open>Members of the PCB that the task invariants do not read.\<close>

lemma kinv_upd_pcb:
  assumes "p_runtsk (f (pcb_of s p)) = p_runtsk (pcb_of s p)"
    and "p_schedtsk (f (pcb_of s p)) = p_schedtsk (pcb_of s p)"
    and "reqflg (f (pcb_of s p)) = reqflg (pcb_of s p)" and "dspflg (f (pcb_of s p)) = dspflg (pcb_of s p)"
    and "ready_primap (f (pcb_of s p)) = ready_primap (pcb_of s p)"
    and "excpt_nest_count (f (pcb_of s p)) = excpt_nest_count (pcb_of s p)"
    and "kerflg (f (pcb_of s p)) = kerflg (pcb_of s p)"
  shows "kinv C P Q (upd_pcb p f s) = kinv C P Q s"
proof -
  have pl: "tm_place (upd_pcb p f s) = tm_place s" by (simp add: fun_eq_iff tm_place_def)
  have sel: "p_runtsk (pcb_of (upd_pcb p f s) q) = p_runtsk (pcb_of s q)"
    "p_schedtsk (pcb_of (upd_pcb p f s) q) = p_schedtsk (pcb_of s q)"
    "reqflg (pcb_of (upd_pcb p f s) q) = reqflg (pcb_of s q)"
    "dspflg (pcb_of (upd_pcb p f s) q) = dspflg (pcb_of s q)"
    "ready_primap (pcb_of (upd_pcb p f s) q) = ready_primap (pcb_of s q)"
    "excpt_nest_count (pcb_of (upd_pcb p f s) q) = excpt_nest_count (pcb_of s q)"
    "kerflg (pcb_of (upd_pcb p f s) q) = kerflg (pcb_of s q)" for q
    using assms by simp_all
  show ?thesis
    by (simp only: kinv_def qinv_def tinv_def tskinv_def hinv_def cb_ok_def dinv_def rinv_def sinv_def registered_def pl sel)
      (simp add: upd_pcb_def)
qed

lemma kinv_locks [simp]:
  "kinv C P Q (set_lock_flag me x s) = kinv C P Q s" "kinv C P Q (set_locspnid me i s) = kinv C P Q s"
  by (simp_all add: set_lock_flag_def set_locspnid_def kinv_upd_pcb)

lemma force_unlock_spin_kinv [simp]: "kinv C P Q (force_unlock_spin me s) = kinv C P Q s"
  by (simp add: force_unlock_spin_def Let_def)

lemma spn_services_kinv:
  assumes "kinv C P Q s"
  shows "kinv C P Q (snd (loc_spn C me spnid s))" and "kinv C P Q (snd (iloc_spn C me spnid s))"
    and "kinv C P Q (snd (try_spn C me spnid s))" and "kinv C P Q (snd (itry_spn C me spnid s))"
    and "kinv C P Q (snd (unl_spn C me spnid s))" and "kinv C P Q (snd (iunl_spn C me spnid s))"
  using assms
  by (simp_all add: loc_spn_def iloc_spn_def try_spn_def itry_spn_def unl_spn_def iunl_spn_def
      spn_take_def Let_def)

end
