(* ===== verification/Semaphore.thy ===== *)
theory Semaphore
  imports Wait_Inv
begin

text \<open>
  Semaphores (\<open>kernel/semaphore.c\<close>).  Each service is one step: the checks in the order of the
  source, then the section under the object lock.  A service that would block finds its own
  task runnable (\<open>t_acquire_nested_tsk_lock_self\<close>) or starts over (\<open>Again\<close>).
\<close>

section \<open>Services\<close>

definition sem :: "kstate \<Rightarrow> nat \<Rightarrow> semcb" where "sem s i = semcb_of (objs s) i"

definition upd_sem :: "nat \<Rightarrow> (semcb \<Rightarrow> semcb) \<Rightarrow> kstate \<Rightarrow> kstate" where
  "upd_sem i f s =
     s\<lparr>objs := (objs s)\<lparr>semcb_of := (semcb_of (objs s))(i := f (semcb_of (objs s) i))\<rparr>\<rparr>"

definition tnum_sem :: "cfg \<Rightarrow> nat" where "tnum_sem C = uint_cast (tmax_semid C)"

text \<open>\<open>initialize_semaphore\<close> runs on the master processor; the loop over the table.\<close>

fun init_sems :: "cfg \<Rightarrow> nat \<Rightarrow> kstate \<Rightarrow> kstate" where
  "init_sems C 0 s = s"
| "init_sems C (Suc i) s =
     (let s = init_sems C i s;
          s = on_kq (queue_initialize (Hdr (WAITQ (SEM i)))) s
      in upd_sem i (\<lambda>b. b\<lparr>semcnt := isemcnt (seminib_table C i)\<rparr>) s)"

definition initialize_semaphore :: "cfg \<Rightarrow> bool \<Rightarrow> kstate \<Rightarrow> kstate" where
  "initialize_semaphore C x_sense_mprc s = (if x_sense_mprc then init_sems C (tnum_sem C) s else s)"

definition sig_sem :: "cfg \<Rightarrow> prcix \<Rightarrow> ident \<Rightarrow> kstate \<Rightarrow> ercd svc \<times> kstate" where
  "sig_sem C me semid s =
     (if \<not> sense_tskctx_unl me s then (Ret E_CTX, s)
      else if \<not> VALID_SEMID C semid then (Ret E_ID, s)
      else let i = INDEX_OBJ semid; q = Hdr (WAITQ (SEM i)) in
        if \<not> queue_empty q (kq s) then
          (let t = first_waiter q s;
               p = p_pcb (tcb_of s t);
               s = on_kq (queue_delete (Ent t)) s;
               (b, s) = wait_complete t s;
               (dspreq, s) = t_request me p b s
           in (Ret E_OK, t_dispatch_if me dspreq s))
        else if semcnt (sem s i) < maxsem (seminib_table C i) then
          (Ret E_OK, upd_sem i (\<lambda>b. b\<lparr>semcnt := semcnt b + 1\<rparr>) s)
        else (Ret E_QOVR, s))"

definition isig_sem :: "cfg \<Rightarrow> prcix \<Rightarrow> ident \<Rightarrow> kstate \<Rightarrow> ercd svc \<times> kstate" where
  "isig_sem C me semid s =
     (if \<not> sense_intctx_unl me s then (Ret E_CTX, s)
      else if \<not> VALID_SEMID C semid then (Ret E_ID, s)
      else let i = INDEX_OBJ semid; q = Hdr (WAITQ (SEM i)) in
        if \<not> queue_empty q (kq s) then
          (let t = first_waiter q s;
               p = p_pcb (tcb_of s t);
               s = on_kq (queue_delete (Ent t)) s;
               (b, s) = wait_complete t s
           in (Ret E_OK, i_request me p b s))
        else if semcnt (sem s i) < maxsem (seminib_table C i) then
          (Ret E_OK, upd_sem i (\<lambda>b. b\<lparr>semcnt := semcnt b + 1\<rparr>) s)
        else (Ret E_QOVR, s))"

definition wai_sem :: "cfg \<Rightarrow> prcix \<Rightarrow> ident \<Rightarrow> kstate \<Rightarrow> ercd svc \<times> kstate" where
  "wai_sem C me semid s =
     (if \<not> sense_tskctx_unl me s then (Ret E_CTX, s)
      else if \<not> VALID_SEMID C semid then (Ret E_ID, s)
      else let i = INDEX_OBJ semid in
        if \<not> dspflg (pcb_of s me) then (Ret E_CTX, s)
        else if 1 \<le> semcnt (sem s i) then
          (Ret E_OK, upd_sem i (\<lambda>b. b\<lparr>semcnt := semcnt b - 1\<rparr>) s)
        else if \<not> TSTAT_RUNNABLE (tstat (tcb_of s (runtsk me s))) then (Again, s)
        else
          (let t = runtsk me s;
               s = set_tstat t (TS_WAITING OR TS_WAIT_SEM) s;
               s = wobj_make_wait C (SEM i) t s
           in (Blocks t, dispatch me s)))"

definition pol_sem :: "cfg \<Rightarrow> prcix \<Rightarrow> ident \<Rightarrow> kstate \<Rightarrow> ercd svc \<times> kstate" where
  "pol_sem C me semid s =
     (if \<not> sense_tskctx_unl me s then (Ret E_CTX, s)
      else if \<not> VALID_SEMID C semid then (Ret E_ID, s)
      else let i = INDEX_OBJ semid in
        if 1 \<le> semcnt (sem s i) then
          (Ret E_OK, upd_sem i (\<lambda>b. b\<lparr>semcnt := semcnt b - 1\<rparr>) s)
        else (Ret E_TMOUT, s))"

definition twai_sem :: "cfg \<Rightarrow> prcix \<Rightarrow> ident \<Rightarrow> tmo \<Rightarrow> kstate \<Rightarrow> ercd svc \<times> kstate" where
  "twai_sem C me semid tmout s =
     (if \<not> sense_tskctx_unl me s then (Ret E_CTX, s)
      else if \<not> VALID_SEMID C semid then (Ret E_ID, s)
      else if \<not> VALID_TMOUT tmout then (Ret E_PAR, s)
      else let i = INDEX_OBJ semid in
        if \<not> dspflg (pcb_of s me) then (Ret E_CTX, s)
        else if 1 \<le> semcnt (sem s i) then
          (Ret E_OK, upd_sem i (\<lambda>b. b\<lparr>semcnt := semcnt b - 1\<rparr>) s)
        else if tmout = TMO_POL then (Ret E_TMOUT, s)
        else if \<not> TSTAT_RUNNABLE (tstat (tcb_of s (runtsk me s))) then (Again, s)
        else
          (let t = runtsk me s;
               s = set_tstat t (TS_WAITING OR TS_WAIT_SEM) s;
               s = wobj_make_wait_tmout C (SEM i) tmout t s
           in (Blocks t, dispatch me s)))"

definition ini_sem :: "cfg \<Rightarrow> prcix \<Rightarrow> ident \<Rightarrow> kstate \<Rightarrow> ercd svc \<times> kstate" where
  "ini_sem C me semid s =
     (if \<not> sense_tskctx_unl me s then (Ret E_CTX, s)
      else if \<not> VALID_SEMID C semid then (Ret E_ID, s)
      else let i = INDEX_OBJ semid;
               (dspreq, s) = init_wait_queue me (Hdr (WAITQ (SEM i))) s;
               s = upd_sem i (\<lambda>b. b\<lparr>semcnt := isemcnt (seminib_table C i)\<rparr>) s
           in (Ret E_OK, t_dispatch_if me dspreq s))"

record t_rsem = wtskid :: ident  rsemcnt :: nat

definition ref_sem :: "cfg \<Rightarrow> prcix \<Rightarrow> ident \<Rightarrow> kstate \<Rightarrow> (ercd \<times> t_rsem option) \<times> kstate" where
  "ref_sem C me semid s =
     (if \<not> sense_tskctx_unl me s then ((E_CTX, None), s)
      else if \<not> VALID_SEMID C semid then ((E_ID, None), s)
      else let i = INDEX_OBJ semid in
        ((E_OK, Some \<lparr>wtskid = wait_tskid (Hdr (WAITQ (SEM i))) s, rsemcnt = semcnt (sem s i)\<rparr>), s))"

section \<open>Specification\<close>

text \<open>
  The abstract semaphore: a count and the tasks that wait, in order.  \<open>asem\<close> is the
  abstraction of semaphore \<open>i\<close>; \<open>sem_inv\<close> its invariant.
\<close>

type_synonym asem = "nat \<times> tskix list"

definition asem :: "(qhdr \<Rightarrow> tskix list) \<Rightarrow> kstate \<Rightarrow> nat \<Rightarrow> asem" where
  "asem Q s i = (semcnt (sem s i), Q (WAITQ (SEM i)))"

fun asem_signal :: "nat \<Rightarrow> asem \<Rightarrow> ercd \<times> asem" where
  "asem_signal mx (n, t # ts) = (E_OK, n, ts)"
| "asem_signal mx (n, []) = (if n < mx then (E_OK, n + 1, []) else (E_QOVR, n, []))"

fun asem_wait :: "(tskix list \<Rightarrow> tskix list) \<Rightarrow> asem \<Rightarrow> bool \<times> asem" where
  "asem_wait ins (n, ts) = (if 1 \<le> n then (True, n - 1, ts) else (False, n, ins ts))"

definition sem_inv :: "cfg \<Rightarrow> (qhdr \<Rightarrow> tskix list) \<Rightarrow> kstate \<Rightarrow> nat \<Rightarrow> bool" where
  "sem_inv C Q s i \<longleftrightarrow> semcnt (sem s i) \<le> maxsem (seminib_table C i) \<and>
     (Q (WAITQ (SEM i)) \<noteq> [] \<longrightarrow> semcnt (sem s i) = 0)"

text \<open>Only semaphore \<open>i\<close> is touched.\<close>

definition sem_frame :: "nat \<Rightarrow> (qhdr \<Rightarrow> tskix list) \<Rightarrow> kstate \<Rightarrow> (qhdr \<Rightarrow> tskix list) \<Rightarrow> kstate \<Rightarrow> bool" where
  "sem_frame i Q s Q' s' \<longleftrightarrow> keeps {WAITQ (SEM i)} Q s Q' s' \<and>
     (\<forall>j. j \<noteq> i \<longrightarrow> sem s' j = sem s j) \<and>
     (objs s')\<lparr>semcb_of := semcb_of (objs s)\<rparr> = objs s"

lemma upd_sem_sel [simp]:
  "tcb_of (upd_sem i f s) = tcb_of s" "pcb_of (upd_sem i f s) = pcb_of s" "kq (upd_sem i f s) = kq s"
  "sem (upd_sem i f s) j = (if j = i then f (sem s i) else sem s j)"
  "(objs (upd_sem i f s))\<lparr>semcb_of := x\<rparr> = (objs s)\<lparr>semcb_of := x\<rparr>"
  by (simp_all add: upd_sem_def sem_def)

lemma kinv_upd_sem [simp]: "kinv C P Q (upd_sem i f s) = kinv C P Q s"
  by (simp add: upd_sem_def)

lemma sem_frame_refl [simp]: "sem_frame i Q s Q s"
  by (simp add: sem_frame_def)

lemma sem_frame_upd [simp]: "sem_frame i Q s Q (upd_sem i f s)"
  by (simp add: sem_frame_def keeps_def)

lemma sem_frame_objs:
  "keeps {WAITQ (SEM i)} Q s Q' s' \<Longrightarrow> objs s' = objs s \<Longrightarrow> sem_frame i Q s Q' s'"
  by (simp add: sem_frame_def sem_def)

section \<open>Every service refines the specification and keeps the invariants\<close>

lemma sig_sem_refines:
  assumes K: "kinv C {} Q s" and ctx: "sense_tskctx_unl me s" and v: "VALID_SEMID C semid"
    and eq: "sig_sem C me semid s = (r, s')"
  defines "i \<equiv> INDEX_OBJ semid"
  shows "\<exists>Q' e. r = Ret e \<and> kinv C {} Q' s' \<and> sem_frame i Q s Q' s' \<and>
    asem_signal (maxsem (seminib_table C i)) (asem Q s i) = (e, asem Q' s' i) \<and>
    (\<forall>t ts. Q (WAITQ (SEM i)) = t # ts \<longrightarrow>
       tcb_of s' = (tcb_of s)(t := ended_tcb E_OK (tcb_of s t)))"
proof (cases "Q (WAITQ (SEM i))")
  case Nil
  then show ?thesis
    using eq ctx v K kinvD(4) [OF K]
    by (auto simp: sig_sem_def Let_def asem_def i_def split: if_splits intro!: exI [of _ Q])
next
  case (Cons t ts)
  let ?h = "WAITQ (SEM i)"
  obtain b s1 where w: "wait_complete t (on_kq (queue_delete (Ent t)) s) = (b, s1)" by fastforce
  obtain d s2 where d: "t_request me (p_pcb (tcb_of s t)) b s1 = (d, s2)" by fastforce
  have r: "r = Ret E_OK" "s' = t_dispatch_if me d s2"
    using eq ctx v w d Cons qrep_queue_empty [OF kinvD(4) [OF K], of ?h] first_waiter_hd [OF K Cons]
    by (auto simp: sig_sem_def Let_def i_def)
  note T = t_wake_first [OF K Cons _ _ _ _ _ _ d, of "\<lambda>b. b", simplified, OF kinvD(5) [OF K] w]
  obtain Q' where Q': "kinv C {} Q' s'" "Q' ?h = ts" "keeps {?h} Q s Q' s'"
    using T(1) r by blast
  have "sem s' i = sem s i" using T(2) r by (simp add: sem_def)
  then show ?thesis
    using Q' T(2,3) r Cons sem_frame_objs [OF Q'(3)] by (auto simp: asem_def intro!: exI [of _ Q'])
qed

lemma isig_sem_refines:
  assumes K: "kinv C {} Q s" and ctx: "sense_intctx_unl me s" and v: "VALID_SEMID C semid"
    and eq: "isig_sem C me semid s = (r, s')"
  defines "i \<equiv> INDEX_OBJ semid"
  shows "\<exists>Q' e. r = Ret e \<and> kinv C {} Q' s' \<and> sem_frame i Q s Q' s' \<and>
    asem_signal (maxsem (seminib_table C i)) (asem Q s i) = (e, asem Q' s' i) \<and>
    (\<forall>t ts. Q (WAITQ (SEM i)) = t # ts \<longrightarrow>
       tcb_of s' = (tcb_of s)(t := ended_tcb E_OK (tcb_of s t)))"
proof (cases "Q (WAITQ (SEM i))")
  case Nil
  then show ?thesis
    using eq ctx v K kinvD(4) [OF K]
    by (auto simp: isig_sem_def Let_def asem_def i_def split: if_splits intro!: exI [of _ Q])
next
  case (Cons t ts)
  let ?h = "WAITQ (SEM i)"
  obtain b s1 where w: "wait_complete t (on_kq (queue_delete (Ent t)) s) = (b, s1)" by fastforce
  have r: "r = Ret E_OK" "s' = i_request me (p_pcb (tcb_of s t)) b s1"
    using eq ctx v w Cons qrep_queue_empty [OF kinvD(4) [OF K], of ?h] first_waiter_hd [OF K Cons]
    by (auto simp: isig_sem_def Let_def i_def)
  note T = i_wake_first [OF K Cons, of "\<lambda>b. b", simplified, OF kinvD(5) [OF K] w, of me, folded r(2)]
  obtain Q' where Q': "kinv C {} Q' s'" "Q' ?h = ts" "keeps {?h} Q s Q' s'"
    using T(1) by blast
  have "sem s' i = sem s i" using T(2) by (simp add: sem_def)
  then show ?thesis
    using Q' T(2,3) r Cons sem_frame_objs [OF Q'(3)] by (auto simp: asem_def intro!: exI [of _ Q'])
qed

lemma sem_block:
  assumes K: "kinv C {} Q s" and m: "may_block me t s"
    and s1: "s1 = wobj_make_wait C (SEM i) t (set_tstat t (TS_WAITING OR TS_WAIT_SEM) s) \<or>
      s1 = wobj_make_wait_tmout C (SEM i) tmout t (set_tstat t (TS_WAITING OR TS_WAIT_SEM) s)"
  shows "\<exists>Q'. kinv C {} Q' (dispatch me s1) \<and> sem_frame i Q s Q' (dispatch me s1) \<and>
      sem (dispatch me s1) i = sem s i \<and>
      Q' (WAITQ (SEM i)) = wait_insert C (\<lambda>u. priority (tcb_of s u)) (SEM i) t (Q (WAITQ (SEM i)))"
proof -
  note B = block_on_object [OF K m _ _ _ s1 [unfolded set_tstat_enter_wait], of "{WAITQ (SEM i)}"]
  have "TS_WAIT_SEM \<notin> {TS_WAIT_RDTQ, TS_WAIT_RPDQ}" by (simp add: tstat_consts)
  then obtain Q' where Q': "kinv C {} Q' (dispatch me s1)" "keeps {WAITQ (SEM i)} Q s Q' (dispatch me s1)"
    "Q' (WAITQ (SEM i)) = wait_insert C (\<lambda>u. priority (tcb_of s u)) (SEM i) t (Q (WAITQ (SEM i)))"
    and o: "objs (dispatch me s1) = objs s"
    using B by auto
  show ?thesis using Q' sem_frame_objs [OF Q'(2) o] o by (auto simp: sem_def intro!: exI [of _ Q'])
qed

lemma wai_sem_refines:
  assumes K: "kinv C {} Q s" and ctx: "sense_tskctx_unl me s" and v: "VALID_SEMID C semid"
    and dsp: "dspflg (pcb_of s me)" and run: "TSTAT_RUNNABLE (tstat (tcb_of s (runtsk me s)))"
    and eq: "wai_sem C me semid s = (r, s')"
  defines "i \<equiv> INDEX_OBJ semid" and "t \<equiv> runtsk me s"
  shows "\<exists>Q' ok. kinv C {} Q' s' \<and> sem_frame i Q s Q' s' \<and>
    asem_wait (wait_insert C (\<lambda>u. priority (tcb_of s u)) (SEM i) t) (asem Q s i) = (ok, asem Q' s' i) \<and>
    r = (if ok then Ret E_OK else Blocks t)"
proof (cases "1 \<le> semcnt (sem s i)")
  case True
  then have "r = Ret E_OK" "s' = upd_sem i (\<lambda>b. b\<lparr>semcnt := semcnt b - 1\<rparr>) s"
    using eq ctx v dsp by (auto simp: wai_sem_def Let_def i_def)
  then show ?thesis using K True by (auto simp: asem_def intro!: exI [of _ Q])
next
  case False
  let ?s1 = "wobj_make_wait C (SEM i) t (set_tstat t (TS_WAITING OR TS_WAIT_SEM) s)"
  have r: "r = Blocks t" "s' = dispatch me ?s1"
    using eq ctx v dsp run False by (auto simp: wai_sem_def Let_def i_def t_def)
  have m: "may_block me t s" unfolding t_def by (rule runtsk_may_block [OF K ctx run])
  from sem_block [OF K m disjI1 [OF refl], of i] r(2)
  obtain Q' where "kinv C {} Q' s'" "sem_frame i Q s Q' s'" "sem s' i = sem s i"
    "Q' (WAITQ (SEM i)) = wait_insert C (\<lambda>u. priority (tcb_of s u)) (SEM i) t (Q (WAITQ (SEM i)))"
    by blast
  then show ?thesis
    using r False by (intro exI [of _ Q'] exI [of _ False]) (auto simp: asem_def)
qed

lemma twai_sem_refines:
  assumes K: "kinv C {} Q s" and ctx: "sense_tskctx_unl me s" and v: "VALID_SEMID C semid"
    and tm: "VALID_TMOUT tmout" "tmout \<noteq> TMO_POL"
    and dsp: "dspflg (pcb_of s me)" and run: "TSTAT_RUNNABLE (tstat (tcb_of s (runtsk me s)))"
    and eq: "twai_sem C me semid tmout s = (r, s')"
  defines "i \<equiv> INDEX_OBJ semid" and "t \<equiv> runtsk me s"
  shows "\<exists>Q' ok. kinv C {} Q' s' \<and> sem_frame i Q s Q' s' \<and>
    asem_wait (wait_insert C (\<lambda>u. priority (tcb_of s u)) (SEM i) t) (asem Q s i) = (ok, asem Q' s' i) \<and>
    r = (if ok then Ret E_OK else Blocks t)"
proof (cases "1 \<le> semcnt (sem s i)")
  case True
  then have "r = Ret E_OK" "s' = upd_sem i (\<lambda>b. b\<lparr>semcnt := semcnt b - 1\<rparr>) s"
    using eq ctx v tm dsp by (auto simp: twai_sem_def Let_def i_def)
  then show ?thesis using K True by (auto simp: asem_def intro!: exI [of _ Q])
next
  case False
  let ?s1 = "wobj_make_wait_tmout C (SEM i) tmout t (set_tstat t (TS_WAITING OR TS_WAIT_SEM) s)"
  have r: "r = Blocks t" "s' = dispatch me ?s1"
    using eq ctx v tm dsp run False by (auto simp: twai_sem_def Let_def i_def t_def)
  have m: "may_block me t s" unfolding t_def by (rule runtsk_may_block [OF K ctx run])
  from sem_block [OF K m disjI2 [OF refl], of i tmout] r(2)
  obtain Q' where "kinv C {} Q' s'" "sem_frame i Q s Q' s'" "sem s' i = sem s i"
    "Q' (WAITQ (SEM i)) = wait_insert C (\<lambda>u. priority (tcb_of s u)) (SEM i) t (Q (WAITQ (SEM i)))"
    by blast
  then show ?thesis
    using r False by (intro exI [of _ Q'] exI [of _ False]) (auto simp: asem_def)
qed

lemma ini_sem_inv:
  assumes K: "kinv C {} Q s" and ctx: "sense_tskctx_unl me s" and v: "VALID_SEMID C semid"
    and eq: "ini_sem C me semid s = (r, s')"
  defines "i \<equiv> INDEX_OBJ semid"
  shows "\<exists>Q'. r = Ret E_OK \<and> kinv C {} Q' s' \<and> sem_frame i Q s Q' s' \<and>
    asem Q' s' i = (isemcnt (seminib_table C i), []) \<and>
    tcb_of s' = all_ended E_DLT (Q (WAITQ (SEM i))) (tcb_of s)"
proof -
  let ?h = "WAITQ (SEM i)" and ?f = "\<lambda>b::semcb. b\<lparr>semcnt := isemcnt (seminib_table C i)\<rparr>"
  obtain d s1 where w: "init_wait_queue me (Hdr ?h) s = (d, s1)" by fastforce
  have r: "r = Ret E_OK" "s' = t_dispatch_if me d (upd_sem i ?f s1)"
    using eq ctx v w by (auto simp: ini_sem_def Let_def i_def)
  obtain Q' where Q': "kinv C (if d then insert me {} else {}) Q' s1" "Q' ?h = []" "same_waits ?h Q Q'"
    "objs s1 = objs s" "tcb_of s1 = all_ended E_DLT (Q ?h) (tcb_of s)"
    using init_wait_queue_kinv [OF K _ w] by auto
  have K': "kinv C {} Q' s'"
    unfolding r(2) by (rule t_dispatch_if_kinv) (use Q'(1) in \<open>auto split: if_splits\<close>)
  have tc: "tcb_of s' = all_ended E_DLT (Q ?h) (tcb_of s)" using r(2) Q'(5) by simp
  have so: "sem s' j = (if j = i then ?f (sem s i) else sem s j)" for j
    using r(2) Q'(4) by (simp add: sem_def upd_sem_def)
  have ob: "(objs s')\<lparr>semcb_of := semcb_of (objs s)\<rparr> = objs s"
    using r(2) Q'(4) by (simp add: upd_sem_def)
  have "sem_frame i Q s Q' s'"
    using keeps_init [OF Q'(3,2) tc, of "{?h}"] so ob by (simp add: sem_frame_def)
  then show ?thesis using r K' Q'(2) tc so by (auto simp: asem_def intro!: exI [of _ Q'])
qed

text \<open>
  \<open>sem_step\<close>: a step that keeps the kernel invariant, touches no other semaphore and keeps the
  invariant of semaphore \<open>i\<close>.
\<close>

definition sem_step :: "cfg \<Rightarrow> nat \<Rightarrow> (qhdr \<Rightarrow> tskix list) \<Rightarrow> kstate \<Rightarrow> kstate \<Rightarrow> bool" where
  "sem_step C i Q s s' \<longleftrightarrow> (\<exists>Q'. kinv C {} Q' s' \<and> sem_frame i Q s Q' s' \<and>
     (isemcnt (seminib_table C i) \<le> maxsem (seminib_table C i) \<longrightarrow> sem_inv C Q s i \<longrightarrow> sem_inv C Q' s' i))"

lemma sem_step_refl: "kinv C {} Q s \<Longrightarrow> sem_step C i Q s s"
  by (auto simp: sem_step_def intro!: exI [of _ Q])

lemma sem_step_upd:
  "kinv C {} Q s \<Longrightarrow>
   (sem_inv C Q s i \<Longrightarrow> semcnt (f (sem s i)) \<le> maxsem (seminib_table C i) \<and>
      (Q (WAITQ (SEM i)) \<noteq> [] \<longrightarrow> semcnt (f (sem s i)) = 0)) \<Longrightarrow>
   sem_step C i Q s (upd_sem i f s)"
  by (auto simp: sem_step_def sem_inv_def intro!: exI [of _ Q])

lemma sem_inv_asem:
  "sem_inv C Q s i \<longleftrightarrow> fst (asem Q s i) \<le> maxsem (seminib_table C i) \<and>
     (snd (asem Q s i) \<noteq> [] \<longrightarrow> fst (asem Q s i) = 0)"
  by (simp add: sem_inv_def asem_def)

lemma asem_signal_inv:
  "asem_signal mx a = (e, a') \<Longrightarrow> fst a \<le> mx \<and> (snd a \<noteq> [] \<longrightarrow> fst a = 0) \<Longrightarrow>
   fst a' \<le> mx \<and> (snd a' \<noteq> [] \<longrightarrow> fst a' = 0)"
  by (cases "(mx, a)" rule: asem_signal.cases) (auto split: if_splits)

lemma asem_wait_inv:
  "asem_wait ins a = (ok, a') \<Longrightarrow> fst a \<le> mx \<and> (snd a \<noteq> [] \<longrightarrow> fst a = 0) \<Longrightarrow>
   fst a' \<le> mx \<and> (snd a' \<noteq> [] \<longrightarrow> fst a' = 0)"
  by (cases a) (auto split: if_splits)

lemma sem_step_signal:
  "kinv C {} Q' s' \<Longrightarrow> sem_frame i Q s Q' s' \<Longrightarrow>
   asem_signal (maxsem (seminib_table C i)) (asem Q s i) = (e, asem Q' s' i) \<Longrightarrow> sem_step C i Q s s'"
  unfolding sem_step_def sem_inv_asem using asem_signal_inv by blast

lemma sem_step_wait:
  "kinv C {} Q' s' \<Longrightarrow> sem_frame i Q s Q' s' \<Longrightarrow>
   asem_wait ins (asem Q s i) = (ok, asem Q' s' i) \<Longrightarrow> sem_step C i Q s s'"
  unfolding sem_step_def sem_inv_asem using asem_wait_inv by blast

lemma sig_sem_step:
  assumes K: "kinv C {} Q s"
  shows "sem_step C (INDEX_OBJ semid) Q s (snd (sig_sem C me semid s))"
proof (cases "sense_tskctx_unl me s \<and> VALID_SEMID C semid")
  case True
  then show ?thesis
    using sig_sem_refines [OF K _ _ surjective_pairing, of me semid] by (auto intro: sem_step_signal)
qed (auto simp: sig_sem_def sem_step_refl [OF K])

lemma isig_sem_step:
  assumes K: "kinv C {} Q s"
  shows "sem_step C (INDEX_OBJ semid) Q s (snd (isig_sem C me semid s))"
proof (cases "sense_intctx_unl me s \<and> VALID_SEMID C semid")
  case True
  then show ?thesis
    using isig_sem_refines [OF K _ _ surjective_pairing, of me semid] by (auto intro: sem_step_signal)
qed (auto simp: isig_sem_def sem_step_refl [OF K])

lemma sem_step_take:
  assumes "kinv C {} Q s" and "1 \<le> semcnt (sem s i)"
  shows "sem_step C i Q s (upd_sem i (\<lambda>b. b\<lparr>semcnt := semcnt b - 1\<rparr>) s)"
  by (rule sem_step_upd [OF assms(1)]) (use assms(2) in \<open>auto simp: sem_inv_def\<close>)

lemma wai_sem_step:
  assumes K: "kinv C {} Q s"
  shows "sem_step C (INDEX_OBJ semid) Q s (snd (wai_sem C me semid s))"
proof (cases "sense_tskctx_unl me s \<and> VALID_SEMID C semid \<and> dspflg (pcb_of s me) \<and>
    TSTAT_RUNNABLE (tstat (tcb_of s (runtsk me s)))")
  case True
  then show ?thesis
    using wai_sem_refines [OF K _ _ _ _ surjective_pairing, of me semid] by (auto intro: sem_step_wait)
qed (use sem_step_take [OF K] in \<open>auto simp: wai_sem_def Let_def sem_step_refl [OF K]\<close>)

lemma twai_sem_step:
  assumes K: "kinv C {} Q s"
  shows "sem_step C (INDEX_OBJ semid) Q s (snd (twai_sem C me semid tmout s))"
proof (cases "sense_tskctx_unl me s \<and> VALID_SEMID C semid \<and> VALID_TMOUT tmout \<and> tmout \<noteq> TMO_POL \<and>
    dspflg (pcb_of s me) \<and> TSTAT_RUNNABLE (tstat (tcb_of s (runtsk me s)))")
  case True
  then show ?thesis
    using twai_sem_refines [OF K _ _ _ _ _ _ surjective_pairing, of me semid tmout]
    by (auto intro: sem_step_wait)
qed (use sem_step_take [OF K] in \<open>auto simp: twai_sem_def Let_def sem_step_refl [OF K]\<close>)

lemma pol_sem_step:
  "kinv C {} Q s \<Longrightarrow> sem_step C (INDEX_OBJ semid) Q s (snd (pol_sem C me semid s))"
  using sem_step_take by (auto simp: pol_sem_def Let_def sem_step_refl)

lemma ini_sem_step:
  assumes K: "kinv C {} Q s"
  shows "sem_step C (INDEX_OBJ semid) Q s (snd (ini_sem C me semid s))"
proof (cases "sense_tskctx_unl me s \<and> VALID_SEMID C semid")
  case True
  then obtain Q' where "kinv C {} Q' (snd (ini_sem C me semid s))"
    "sem_frame (INDEX_OBJ semid) Q s Q' (snd (ini_sem C me semid s))"
    "asem Q' (snd (ini_sem C me semid s)) (INDEX_OBJ semid) =
      (isemcnt (seminib_table C (INDEX_OBJ semid)), [])"
    using ini_sem_inv [OF K _ _ surjective_pairing, of me semid] by blast
  then show ?thesis unfolding sem_step_def sem_inv_asem by auto
qed (auto simp: ini_sem_def sem_step_refl [OF K])

text \<open>A step that touches no semaphore and adds no waiter keeps the invariant of each.\<close>

lemma sem_inv_keeps:
  assumes "sem_inv C Q s i" and "keeps H Q s Q' s'" and "WAITQ (SEM i) \<notin> H"
    and "semcb_of (objs s') i = semcb_of (objs s) i"
  shows "sem_inv C Q' s' i"
proof -
  have "set (Q' (WAITQ (SEM i))) \<subseteq> set (Q (WAITQ (SEM i)))"
    using assms(2,3) unfolding keeps_def by blast
  then show ?thesis using assms(1,4) by (auto simp: sem_inv_def sem_def)
qed

end
