(* ===== verification/Eventflag.thy ===== *)
theory Eventflag
  imports Wait_Inv
begin

text \<open>
  Event flags (\<open>kernel/eventflag.c\<close>).  \<open>set_flg\<close> walks the wait queue and wakes every task whose
  condition holds; with the attribute \<open>TA_CLR\<close> it clears the flag at the first and stops.
  \<open>flg_inv\<close>: no task waits whose condition holds.  \<open>flg_walk\<close> is the specification of the
  walk.
\<close>

section \<open>Services\<close>

definition flg :: "kstate \<Rightarrow> nat \<Rightarrow> flgcb" where "flg s i = flgcb_of (objs s) i"

definition upd_flg :: "nat \<Rightarrow> (flgcb \<Rightarrow> flgcb) \<Rightarrow> kstate \<Rightarrow> kstate" where
  "upd_flg i f s =
     s\<lparr>objs := (objs s)\<lparr>flgcb_of := (flgcb_of (objs s))(i := f (flgcb_of (objs s) i))\<rparr>\<rparr>"

definition tnum_flg :: "cfg \<Rightarrow> nat" where "tnum_flg C = uint_cast (tmax_flgid C)"

fun init_flgs :: "cfg \<Rightarrow> nat \<Rightarrow> kstate \<Rightarrow> kstate" where
  "init_flgs C 0 s = s"
| "init_flgs C (Suc i) s =
     (let s = init_flgs C i s;
          s = on_kq (queue_initialize (Hdr (WAITQ (FLG i)))) s
      in upd_flg i (\<lambda>b. b\<lparr>flgptn := iflgptn (flginib_table C i)\<rparr>) s)"

definition initialize_eventflag :: "cfg \<Rightarrow> bool \<Rightarrow> kstate \<Rightarrow> kstate" where
  "initialize_eventflag C x_sense_mprc s =
     (if x_sense_mprc then init_flgs C (tnum_flg C) s else s)"

text \<open>\<open>None\<close>: the condition does not hold; \<open>Some\<close>: the pattern it was released with.\<close>

definition flg_cond :: "flgptn \<Rightarrow> flgptn \<Rightarrow> 32 word \<Rightarrow> bool" where
  "flg_cond ptn wp wm \<longleftrightarrow>
     (if wm AND TWF_ORW \<noteq> 0 then ptn AND wp \<noteq> 0 else ptn AND wp = wp)"

definition check_flg_cond ::
  "cfg \<Rightarrow> nat \<Rightarrow> flgptn \<Rightarrow> 32 word \<Rightarrow> kstate \<Rightarrow> flgptn option \<times> kstate" where
  "check_flg_cond C i wp wm s =
     (if flg_cond (flgptn (flg s i)) wp wm then
        (Some (flgptn (flg s i)),
         if wobjatr C (FLG i) AND TA_CLR \<noteq> 0 then upd_flg i (\<lambda>b. b\<lparr>flgptn := 0\<rparr>) s else s)
      else (None, s))"

text \<open>
  The loop of \<open>set_flg\<close> (with \<open>req = t_request\<close>) and of \<open>iset_flg\<close> (with \<open>req = i_req\<close>).  The
  next cell is read before the task is taken out of the queue.  Meeting the header of another
  queue, or a task whose \<open>winfo_obj\<close> holds no \<open>WINFO_FLG\<close>, has no result.
\<close>

partial_function (option) set_flg_loop ::
  "(prcix \<Rightarrow> bool \<Rightarrow> kstate \<Rightarrow> bool \<times> kstate) \<Rightarrow> cfg \<Rightarrow> nat \<Rightarrow> kqnode \<Rightarrow> bool \<Rightarrow> kstate \<Rightarrow>
     (bool \<times> kstate) option" where
  "set_flg_loop req C i p_queue dspreq s =
     (if p_queue = Hdr (WAITQ (FLG i)) then Some (dspreq, s)
      else case tcb_at p_queue of
        None \<Rightarrow> None
      | Some t \<Rightarrow>
          (case winfo_obj (tcb_of s t) of
             W_FLG wp wm fp \<Rightarrow>
               (let p_queue = p_next (kq s) p_queue;
                    p = p_pcb (tcb_of s t);
                    (r, s) = check_flg_cond C i wp wm s
                in case r of
                     None \<Rightarrow> set_flg_loop req C i p_queue dspreq s
                   | Some ptn \<Rightarrow>
                       (let s = upd_tcb t (\<lambda>b. b\<lparr>winfo_obj := W_FLG wp wm ptn\<rparr>) s;
                            s = on_kq (queue_delete (Ent t)) s;
                            (b, s) = wait_complete t s;
                            (d, s) = req p b s
                        in if wobjatr C (FLG i) AND TA_CLR \<noteq> 0 then Some (dspreq \<or> d, s)
                           else set_flg_loop req C i p_queue (dspreq \<or> d) s))
           | _ \<Rightarrow> None))"

definition set_flg :: "cfg \<Rightarrow> prcix \<Rightarrow> ident \<Rightarrow> flgptn \<Rightarrow> kstate \<Rightarrow> ercd svc \<times> kstate" where
  "set_flg C me flgid setptn s =
     (if \<not> sense_tskctx_unl me s then (Ret E_CTX, s)
      else if \<not> VALID_FLGID C flgid then (Ret E_ID, s)
      else let i = INDEX_OBJ flgid;
               s = upd_flg i (\<lambda>b. b\<lparr>flgptn := flgptn b OR setptn\<rparr>) s;
               p_queue = p_next (kq s) (Hdr (WAITQ (FLG i)));
               (dspreq, s) = the (set_flg_loop (t_request me) C i p_queue False s)
           in (Ret E_OK, t_dispatch_if me dspreq s))"

definition iset_flg :: "cfg \<Rightarrow> prcix \<Rightarrow> ident \<Rightarrow> flgptn \<Rightarrow> kstate \<Rightarrow> ercd svc \<times> kstate" where
  "iset_flg C me flgid setptn s =
     (if \<not> sense_intctx_unl me s then (Ret E_CTX, s)
      else if \<not> VALID_FLGID C flgid then (Ret E_ID, s)
      else let i = INDEX_OBJ flgid;
               s = upd_flg i (\<lambda>b. b\<lparr>flgptn := flgptn b OR setptn\<rparr>) s;
               p_queue = p_next (kq s) (Hdr (WAITQ (FLG i)));
               (_, s) = the (set_flg_loop (i_req me) C i p_queue False s)
           in (Ret E_OK, s))"

definition clr_flg :: "cfg \<Rightarrow> prcix \<Rightarrow> ident \<Rightarrow> flgptn \<Rightarrow> kstate \<Rightarrow> ercd svc \<times> kstate" where
  "clr_flg C me flgid clrptn s =
     (if \<not> sense_tskctx_unl me s then (Ret E_CTX, s)
      else if \<not> VALID_FLGID C flgid then (Ret E_ID, s)
      else (Ret E_OK, upd_flg (INDEX_OBJ flgid) (\<lambda>b. b\<lparr>flgptn := flgptn b AND clrptn\<rparr>) s))"

text \<open>
  A wait returns the error code and what it wrote to \<open>*p_flgptn\<close>; a task that blocks finds the
  pattern in its \<open>winfo_obj\<close>.
\<close>

definition flg_busy :: "cfg \<Rightarrow> nat \<Rightarrow> kstate \<Rightarrow> bool" where
  "flg_busy C i s \<longleftrightarrow>
     wobjatr C (FLG i) AND TA_WMUL = 0 \<and> \<not> queue_empty (Hdr (WAITQ (FLG i))) (kq s)"

definition flg_par :: "flgptn \<Rightarrow> 32 word \<Rightarrow> bool" where
  "flg_par wp wm \<longleftrightarrow> wp \<noteq> 0 \<and> (wm = TWF_ORW \<or> wm = TWF_ANDW)"

definition wai_flg ::
  "cfg \<Rightarrow> prcix \<Rightarrow> ident \<Rightarrow> flgptn \<Rightarrow> 32 word \<Rightarrow> kstate \<Rightarrow> (ercd \<times> flgptn option) svc \<times> kstate" where
  "wai_flg C me flgid wp wm s =
     (if \<not> sense_tskctx_unl me s then (Ret (E_CTX, None), s)
      else if \<not> VALID_FLGID C flgid then (Ret (E_ID, None), s)
      else if \<not> flg_par wp wm then (Ret (E_PAR, None), s)
      else let i = INDEX_OBJ flgid in
        if \<not> dspflg (pcb_of s me) then (Ret (E_CTX, None), s)
        else if flg_busy C i s then (Ret (E_ILUSE, None), s)
        else
          (let (r, s) = check_flg_cond C i wp wm s in
           if r \<noteq> None then (Ret (E_OK, r), s)
           else if \<not> TSTAT_RUNNABLE (tstat (tcb_of s (runtsk me s))) then (Again, s)
           else
             (let t = runtsk me s;
                  s = upd_tcb t (\<lambda>b. b\<lparr>winfo_obj := W_FLG wp wm 0\<rparr>) s;
                  s = set_tstat t (TS_WAITING OR TS_WAIT_FLG) s;
                  s = wobj_make_wait C (FLG i) t s
              in (Blocks t, dispatch me s))))"

definition pol_flg ::
  "cfg \<Rightarrow> prcix \<Rightarrow> ident \<Rightarrow> flgptn \<Rightarrow> 32 word \<Rightarrow> kstate \<Rightarrow> (ercd \<times> flgptn option) svc \<times> kstate" where
  "pol_flg C me flgid wp wm s =
     (if \<not> sense_tskctx_unl me s then (Ret (E_CTX, None), s)
      else if \<not> VALID_FLGID C flgid then (Ret (E_ID, None), s)
      else if \<not> flg_par wp wm then (Ret (E_PAR, None), s)
      else let i = INDEX_OBJ flgid in
        if flg_busy C i s then (Ret (E_ILUSE, None), s)
        else
          (let (r, s) = check_flg_cond C i wp wm s in
           if r \<noteq> None then (Ret (E_OK, r), s) else (Ret (E_TMOUT, None), s)))"

definition twai_flg ::
  "cfg \<Rightarrow> prcix \<Rightarrow> ident \<Rightarrow> flgptn \<Rightarrow> 32 word \<Rightarrow> tmo \<Rightarrow> kstate \<Rightarrow>
     (ercd \<times> flgptn option) svc \<times> kstate" where
  "twai_flg C me flgid wp wm tmout s =
     (if \<not> sense_tskctx_unl me s then (Ret (E_CTX, None), s)
      else if \<not> VALID_FLGID C flgid then (Ret (E_ID, None), s)
      else if \<not> flg_par wp wm then (Ret (E_PAR, None), s)
      else if \<not> VALID_TMOUT tmout then (Ret (E_PAR, None), s)
      else let i = INDEX_OBJ flgid in
        if \<not> dspflg (pcb_of s me) then (Ret (E_CTX, None), s)
        else if flg_busy C i s then (Ret (E_ILUSE, None), s)
        else
          (let (r, s) = check_flg_cond C i wp wm s in
           if r \<noteq> None then (Ret (E_OK, r), s)
           else if tmout = TMO_POL then (Ret (E_TMOUT, None), s)
           else if \<not> TSTAT_RUNNABLE (tstat (tcb_of s (runtsk me s))) then (Again, s)
           else
             (let t = runtsk me s;
                  s = upd_tcb t (\<lambda>b. b\<lparr>winfo_obj := W_FLG wp wm 0\<rparr>) s;
                  s = set_tstat t (TS_WAITING OR TS_WAIT_FLG) s;
                  s = wobj_make_wait_tmout C (FLG i) tmout t s
              in (Blocks t, dispatch me s))))"

definition ini_flg :: "cfg \<Rightarrow> prcix \<Rightarrow> ident \<Rightarrow> kstate \<Rightarrow> ercd svc \<times> kstate" where
  "ini_flg C me flgid s =
     (if \<not> sense_tskctx_unl me s then (Ret E_CTX, s)
      else if \<not> VALID_FLGID C flgid then (Ret E_ID, s)
      else let i = INDEX_OBJ flgid;
               (dspreq, s) = init_wait_queue me (Hdr (WAITQ (FLG i))) s;
               s = upd_flg i (\<lambda>b. b\<lparr>flgptn := iflgptn (flginib_table C i)\<rparr>) s
           in (Ret E_OK, t_dispatch_if me dspreq s))"

record t_rflg = rflg_wtskid :: ident  rflg_flgptn :: flgptn

definition ref_flg :: "cfg \<Rightarrow> prcix \<Rightarrow> ident \<Rightarrow> kstate \<Rightarrow> (ercd \<times> t_rflg option) \<times> kstate" where
  "ref_flg C me flgid s =
     (if \<not> sense_tskctx_unl me s then ((E_CTX, None), s)
      else if \<not> VALID_FLGID C flgid then ((E_ID, None), s)
      else let i = INDEX_OBJ flgid in
        ((E_OK, Some \<lparr>rflg_wtskid = wait_tskid (Hdr (WAITQ (FLG i))) s,
           rflg_flgptn = flgptn (flg s i)\<rparr>), s))"

section \<open>Specification\<close>

text \<open>
  \<open>flg_walk clr c ptn ts\<close>: the tasks of \<open>ts\<close> that are woken when the pattern is \<open>ptn\<close>, the
  pattern afterwards and the tasks that go on waiting; \<open>c t ptn\<close> is the condition of task
  \<open>t\<close>, \<open>clr\<close> the attribute \<open>TA_CLR\<close>.
\<close>

fun flg_walk :: "bool \<Rightarrow> (tskix \<Rightarrow> flgptn \<Rightarrow> bool) \<Rightarrow> flgptn \<Rightarrow> tskix list \<Rightarrow>
    tskix list \<times> flgptn \<times> tskix list" where
  "flg_walk clr c ptn [] = ([], ptn, [])"
| "flg_walk clr c ptn (t # ts) =
     (if c t ptn then
        (if clr then ([t], 0, ts)
         else (let (r, q, k) = flg_walk clr c ptn ts in (t # r, q, k)))
      else (let (r, q, k) = flg_walk clr c ptn ts in (r, q, t # k)))"

definition waits_for :: "kstate \<Rightarrow> tskix \<Rightarrow> flgptn \<Rightarrow> bool" where
  "waits_for s t ptn = (case winfo_obj (tcb_of s t) of W_FLG wp wm f \<Rightarrow> flg_cond ptn wp wm | _ \<Rightarrow> False)"

definition flg_ok :: "tcb \<Rightarrow> bool" where
  "flg_ok tc = (case winfo_obj tc of W_FLG wp wm f \<Rightarrow> flg_par wp wm | _ \<Rightarrow> False)"

definition flg_released :: "flgptn \<Rightarrow> tcb \<Rightarrow> tcb" where
  "flg_released ptn tc =
     ended_tcb E_OK (case winfo_obj tc of W_FLG wp wm f \<Rightarrow> tc\<lparr>winfo_obj := W_FLG wp wm ptn\<rparr> | _ \<Rightarrow> tc)"

definition flg_inv :: "cfg \<Rightarrow> (qhdr \<Rightarrow> tskix list) \<Rightarrow> kstate \<Rightarrow> nat \<Rightarrow> bool" where
  "flg_inv C Q s i \<longleftrightarrow>
     (\<forall>t \<in> set (Q (WAITQ (FLG i))). flg_ok (tcb_of s t) \<and> \<not> waits_for s t (flgptn (flg s i))) \<and>
     (wobjatr C (FLG i) AND TA_WMUL = 0 \<longrightarrow> length (Q (WAITQ (FLG i))) \<le> 1)"

definition flg_frame :: "nat \<Rightarrow> (qhdr \<Rightarrow> tskix list) \<Rightarrow> kstate \<Rightarrow> (qhdr \<Rightarrow> tskix list) \<Rightarrow> kstate \<Rightarrow> bool" where
  "flg_frame i Q s Q' s' \<longleftrightarrow> keeps {WAITQ (FLG i)} Q s Q' s' \<and>
     (\<forall>j. j \<noteq> i \<longrightarrow> flg s' j = flg s j) \<and>
     (objs s')\<lparr>flgcb_of := flgcb_of (objs s)\<rparr> = objs s"

lemma upd_flg_sel [simp]:
  "tcb_of (upd_flg i f s) = tcb_of s" "pcb_of (upd_flg i f s) = pcb_of s" "kq (upd_flg i f s) = kq s"
  "flg (upd_flg i f s) j = (if j = i then f (flg s i) else flg s j)"
  "(objs (upd_flg i f s))\<lparr>flgcb_of := x\<rparr> = (objs s)\<lparr>flgcb_of := x\<rparr>"
  by (simp_all add: upd_flg_def flg_def)

lemma kinv_upd_flg [simp]: "kinv C P Q (upd_flg i f s) = kinv C P Q s"
  by (simp add: upd_flg_def)

lemma flg_frame_refl [simp]: "flg_frame i Q s Q s"
  by (simp add: flg_frame_def)

lemma flg_frame_upd [simp]: "flg_frame i Q s Q (upd_flg i f s)"
  by (simp add: flg_frame_def keeps_def)

lemma flg_frame_objs:
  "keeps {WAITQ (FLG i)} Q s Q' s' \<Longrightarrow> objs s' = objs s \<Longrightarrow> flg_frame i Q s Q' s'"
  by (simp add: flg_frame_def flg_def)

lemma flg_frame_trans:
  assumes a: "flg_frame i Q s Q1 s1" and b: "flg_frame i Q1 s1 Q2 s2"
  shows "flg_frame i Q s Q2 s2"
proof -
  have "objs s1 = (objs s2)\<lparr>flgcb_of := flgcb_of (objs s1)\<rparr>" using b by (simp add: flg_frame_def)
  then have "(objs s2)\<lparr>flgcb_of := flgcb_of (objs s)\<rparr> = (objs s1)\<lparr>flgcb_of := flgcb_of (objs s)\<rparr>"
    by (rule ssubst) simp
  then show ?thesis using a b keeps_trans by (auto simp: flg_frame_def)
qed

lemma flg_walk_cong:
  "(\<And>u. u \<in> set ts \<Longrightarrow> c u = c' u) \<Longrightarrow> flg_walk clr c ptn ts = flg_walk clr c' ptn ts"
  by (induction ts) auto

lemma flg_walk_split:
  "flg_walk clr c ptn ts = (r, q, k) \<Longrightarrow> set k \<subseteq> set ts \<and> length k \<le> length ts \<and> set r \<subseteq> set ts"
  by (induction ts arbitrary: r k) (auto split: if_splits prod.splits)

text \<open>The tasks that go on waiting do not have their condition in the pattern afterwards.\<close>

lemma flg_walk_waits:
  "flg_walk clr c ptn ts = (r, q, k) \<Longrightarrow> \<forall>t \<in> set ts. \<not> c t 0 \<Longrightarrow>
   (q = ptn \<and> (\<forall>t \<in> set k. \<not> c t ptn)) \<or> (q = 0 \<and> (\<forall>t \<in> set k. \<not> c t 0))"
  by (induction ts arbitrary: r k) (auto split: if_splits prod.splits)

lemma flg_cond_zero: "flg_par wp wm \<Longrightarrow> \<not> flg_cond 0 wp wm"
  by (auto simp: flg_par_def flg_cond_def TWF_ORW_def TWF_ANDW_def)

lemma flg_cond_mono:
  "flg_cond (ptn AND m) wp wm \<Longrightarrow> flg_cond ptn wp wm"
proof -
  have "(ptn AND m) AND wp = (ptn AND wp) AND m" by (simp add: ac_simps)
  moreover have "ptn AND wp = wp" if "(ptn AND m) AND wp = wp"
    using that by (metis and.assoc and.commute and.left_idem)
  ultimately show "flg_cond (ptn AND m) wp wm \<Longrightarrow> flg_cond ptn wp wm"
    by (auto simp: flg_cond_def split: if_splits)
qed

lemma flg_ok_zero: "flg_ok (tcb_of s t) \<Longrightarrow> \<not> waits_for s t 0"
  by (auto simp: flg_ok_def waits_for_def flg_cond_zero split: winfo.splits)

lemma flg_ended [simp]: "flg_ok (ended_tcb e tc) = flg_ok tc"
  by (simp add: flg_ok_def)

section \<open>The loop of \<open>set_flg\<close>\<close>

lemma loop_next:
  assumes "kinv C P Q s" and "Q h = pre @ t # ts"
  shows "p_next (kq s) (Ent t) = entry_of h ts" and "t \<notin> set pre" and "t \<notin> set ts"
  using qrep_next_ent [OF kinvD(4) [OF assms(1)] assms(2)] qrep_distinct [OF kinvD(4) [OF assms(1)], of h] assms(2)
  by (auto simp: entry_of_def)

context wake_request begin

lemma set_flg_loop_kinv:
  assumes "kinv C (if dr then {me} else {}) Q s" and "Q (WAITQ (FLG i)) = pre @ rest"
    and "\<forall>t \<in> set rest. flg_ok (tcb_of s t)"
    and "flg_walk (wobjatr C (FLG i) AND TA_CLR \<noteq> 0) (waits_for s) (flgptn (flg s i)) rest = (rel, ptn, keep)"
  shows "\<exists>d s' Q'. set_flg_loop (req me) C i (entry_of (WAITQ (FLG i)) rest) dr s = Some (d, s') \<and>
    kinv C (if d then {me} else {}) Q' s' \<and> Q' (WAITQ (FLG i)) = pre @ keep \<and>
    flg_frame i Q s Q' s' \<and> flg s' i = \<lparr>flgptn = ptn\<rparr> \<and>
    tcb_of s' = (\<lambda>u. if u \<in> set rel then flg_released (flgptn (flg s i)) (tcb_of s u) else tcb_of s u) \<and>
    (d \<longrightarrow> dr \<or> (\<exists>p b a. fst (req me p b a)))"
  using assms
proof (induction rest arbitrary: pre Q s dr rel ptn keep)
  case Nil
  then show ?case
    by (intro exI [of _ dr] exI [of _ s] exI [of _ Q]) (simp add: entry_of_def set_flg_loop.simps)
next
  case (Cons t ts)
  let ?h = "WAITQ (FLG i)"
  note K = Cons.prems(1) and Qh = Cons.prems(2)
  note nx = loop_next [OF K Qh]
  have hn: "\<And>p j. ?h \<noteq> RDY p j" by simp
  have en: "entry_of ?h (t # ts) = Ent t" by (simp add: entry_of_def)
  obtain wp wm fp where w: "winfo_obj (tcb_of s t) = W_FLG wp wm fp"
    using Cons.prems(3) by (auto simp: flg_ok_def split: winfo.splits)
  have c: "waits_for s t (flgptn (flg s i)) = flg_cond (flgptn (flg s i)) wp wm"
    by (simp add: waits_for_def w)
  show ?case
  proof (cases "waits_for s t (flgptn (flg s i))")
    case False
    obtain k where k: "keep = t # k"
      "flg_walk (wobjatr C (FLG i) AND TA_CLR \<noteq> 0) (waits_for s) (flgptn (flg s i)) ts = (rel, ptn, k)"
      using Cons.prems(4) False by (auto split: prod.splits)
    have "set_flg_loop (req me) C i (Ent t) dr s = set_flg_loop (req me) C i (entry_of ?h ts) dr s"
      using False w c nx by (subst set_flg_loop.simps) (simp add: check_flg_cond_def)
    then show ?thesis
      using Cons.IH [OF K, of "pre @ [t]" rel ptn k] Qh Cons.prems(3) k unfolding en by auto
  next
    case True
    let ?clr = "wobjatr C (FLG i) AND TA_CLR \<noteq> 0" and ?p0 = "flgptn (flg s i)"
    define s1 where "s1 = (if ?clr then upd_flg i (\<lambda>b. b\<lparr>flgptn := 0\<rparr>) s else s)"
    let ?f = "\<lambda>b. b\<lparr>winfo_obj := W_FLG wp wm ?p0\<rparr>"
    have K1: "kinv C (if dr then {me} else {}) Q s1" using K by (simp add: s1_def)
    have s1: "tcb_of s1 = tcb_of s" "kq s1 = kq s" "flg_frame i Q s Q s1"
      "flg s1 i = \<lparr>flgptn = (if ?clr then 0 else ?p0)\<rparr>" by (simp_all add: s1_def)
    obtain b s2 where w2: "wait_complete t (upd_tcb t ?f (on_kq (queue_delete (Ent t)) s1)) = (b, s2)" by fastforce
    obtain d s3 where d: "req me (p_pcb (tcb_of s t)) b s2 = (d, s3)" by fastforce
    have t: "t \<in> set (Q ?h)" using Qh by simp
    note W = wake_any [OF K1 t hn, of ?f E_OK b s2 me d s3]
    have f: "tstat (?f (tcb_of s1 t)) = tstat (tcb_of s1 t)" "priority (?f (tcb_of s1 t)) = priority (tcb_of s1 t)"
      "p_pcb (?f (tcb_of s1 t)) = p_pcb (tcb_of s1 t)" "wf_tcb (?f (tcb_of s1 t))"
      using kinvD(5) [OF K1] by simp_all
    have d1: "req me (p_pcb (tcb_of s1 t)) b s2 = (d, s3)" using d s1(1) by simp
    note W = W [OF f w2 [unfolded wait_complete_end_wait] d1]
    obtain Q3 where Q3: "kinv C (if d then insert me (if dr then {me} else {}) else (if dr then {me} else {})) Q3 s3"
      "Q3 ?h = remove1 t (Q ?h)" "same_waits ?h Q Q3" "keeps {?h} Q s1 Q3 s3" using W(1) by metis
    have K3: "kinv C (if dr \<or> d then {me} else {}) Q3 s3" using Q3(1) by (auto split: if_splits)
    have q3: "Q3 ?h = pre @ ts" using Q3(2) Qh nx(2) by simp
    have F3: "flg_frame i Q s Q3 s3"
      using flg_frame_trans [OF s1(3) flg_frame_objs [OF Q3(4) W(2)]] .
    have g3: "flg s3 i = flg s1 i" using W(2) by (simp add: flg_def)
    have tc: "tcb_of s3 = (tcb_of s)(t := flg_released ?p0 (tcb_of s t))"
      using W(3) s1(1) w by (simp add: flg_released_def)
    have st: "set_flg_loop (req me) C i (Ent t) dr s =
        (if ?clr then Some (dr \<or> d, s3) else set_flg_loop (req me) C i (entry_of ?h ts) (dr \<or> d) s3)"
      using True w c nx w2 d
      by (subst set_flg_loop.simps) (simp add: check_flg_cond_def on_kq_upd_tcb s1_def Let_def)
    have rq: "d \<Longrightarrow> \<exists>p b a. fst (req me p b a)" using d by (metis fst_conv)
    show ?thesis
    proof (cases ?clr)
      case True
      then have "rel = [t]" "ptn = 0" "keep = ts" using Cons.prems(4) \<open>waits_for s t ?p0\<close> by auto
      then show ?thesis unfolding en
        using st True K3 q3 F3 g3 s1(4) tc rq by (intro exI [of _ "dr \<or> d"] exI [of _ s3] exI [of _ Q3]) auto
    next
      case False
      obtain r where r: "rel = t # r" "flg_walk ?clr (waits_for s) ?p0 ts = (r, ptn, keep)"
        using Cons.prems(4) \<open>waits_for s t ?p0\<close> False by (auto split: prod.splits)
      have p3: "flgptn (flg s3 i) = ?p0" using g3 s1(4) False by simp
      have wf3: "waits_for s3 u = waits_for s u" if "u \<in> set ts" for u
        using that nx(3) tc by (auto simp: waits_for_def fun_eq_iff)
      have wk: "flg_walk ?clr (waits_for s3) (flgptn (flg s3 i)) ts = (r, ptn, keep)"
        using flg_walk_cong [of ts "waits_for s3" "waits_for s"] wf3 r(2) p3 by metis
      have ok: "\<forall>u \<in> set ts. flg_ok (tcb_of s3 u)" using Cons.prems(3) tc nx(3) by auto
      from Cons.IH [OF K3 q3 ok wk, unfolded p3] obtain d' s' Q' where I: "set_flg_loop (req me) C i (entry_of ?h ts) (dr \<or> d) s3 = Some (d', s')"
        "kinv C (if d' then {me} else {}) Q' s'" "Q' ?h = pre @ keep" "flg_frame i Q3 s3 Q' s'"
        "flg s' i = \<lparr>flgptn = ptn\<rparr>"
        "tcb_of s' = (\<lambda>u. if u \<in> set r then flg_released ?p0 (tcb_of s3 u) else tcb_of s3 u)"
        "d' \<longrightarrow> (dr \<or> d) \<or> (\<exists>p b a. fst (req me p b a))"
        by blast
      have "t \<notin> set r" using flg_walk_split [OF r(2)] nx(3) by auto
      then have "tcb_of s' = (\<lambda>u. if u \<in> set rel then flg_released ?p0 (tcb_of s u) else tcb_of s u)"
        using I(6) tc r(1) by auto
      then show ?thesis unfolding en
        using st False I(1-3,5,7) flg_frame_trans [OF F3 I(4)] rq
        by (intro exI [of _ d'] exI [of _ s'] exI [of _ Q']) auto
    qed
  qed
qed

end

section \<open>The services keep the invariants\<close>

definition flg_set_post ::
  "cfg \<Rightarrow> nat \<Rightarrow> flgptn \<Rightarrow> (qhdr \<Rightarrow> tskix list) \<Rightarrow> kstate \<Rightarrow> (qhdr \<Rightarrow> tskix list) \<Rightarrow> kstate \<Rightarrow> bool" where
  "flg_set_post C i setptn Q s Q' s' \<longleftrightarrow>
     (let ptn = flgptn (flg s i) OR setptn;
          (rel, ptn', keep) = flg_walk (wobjatr C (FLG i) AND TA_CLR \<noteq> 0) (waits_for s) ptn (Q (WAITQ (FLG i)))
      in Q' (WAITQ (FLG i)) = keep \<and> flgptn (flg s' i) = ptn' \<and>
         tcb_of s' = (\<lambda>u. if u \<in> set rel then flg_released ptn (tcb_of s u) else tcb_of s u))"

context wake_request begin

lemma set_flg_core:
  fixes setptn :: flgptn
  assumes K: "kinv C {} Q s" and I: "flg_inv C Q s i"
  defines "h \<equiv> WAITQ (FLG i)" and "s1 \<equiv> upd_flg i (\<lambda>b. b\<lparr>flgptn := flgptn b OR setptn\<rparr>) s"
  shows "\<exists>d s' Q'. set_flg_loop (req me) C i (p_next (kq s1) (Hdr h)) False s1 = Some (d, s') \<and>
    kinv C (if d then {me} else {}) Q' s' \<and> flg_frame i Q s Q' s' \<and> flg_set_post C i setptn Q s Q' s' \<and>
    (d \<longrightarrow> (\<exists>p b a. fst (req me p b a)))"
proof -
  have K1: "kinv C (if False then {me} else {}) Q s1" using K by (simp add: s1_def)
  obtain rel ptn keep where w: "flg_walk (wobjatr C (FLG i) AND TA_CLR \<noteq> 0) (waits_for s1) (flgptn (flg s1 i))
      (Q h) = (rel, ptn, keep)" by (metis prod_cases3)
  have wf: "waits_for s1 = waits_for s" by (simp add: waits_for_def fun_eq_iff s1_def)
  have nx: "p_next (kq s1) (Hdr h) = entry_of h (Q h)"
    using qrep_next_hdr [OF kinvD(4) [OF K]] by (simp add: entry_of_def s1_def)
  have p1: "flgptn (flg s1 i) = flgptn (flg s i) OR setptn" "tcb_of s1 = tcb_of s"
    by (simp_all add: s1_def)
  have "\<forall>t \<in> set (Q h). flg_ok (tcb_of s1 t)" using I by (simp add: flg_inv_def s1_def h_def)
  from set_flg_loop_kinv [OF K1, of i "[]" "Q h", folded h_def, unfolded append_Nil, OF refl this w]
  obtain d s' Q' where L: "set_flg_loop (req me) C i (entry_of h (Q h)) False s1 = Some (d, s')"
    "kinv C (if d then {me} else {}) Q' s'" "Q' h = keep" "flg_frame i Q s1 Q' s'"
    "flg s' i = \<lparr>flgptn = ptn\<rparr>"
    "tcb_of s' = (\<lambda>u. if u \<in> set rel then flg_released (flgptn (flg s1 i)) (tcb_of s1 u) else tcb_of s1 u)"
    "d \<longrightarrow> (\<exists>p b a. fst (req me p b a))"
    by blast
  have "flg_frame i Q s Q' s'" using flg_frame_trans [OF flg_frame_upd L(4) [unfolded s1_def]] .
  moreover have "flg_set_post C i setptn Q s Q' s'"
    using w L(3,5,6) unfolding wf p1 flg_set_post_def h_def by (simp add: Let_def)
  ultimately show ?thesis unfolding nx using L(1,2,7) by blast
qed

end

lemma set_flg_spec:
  assumes K: "kinv C {} Q s" and I: "flg_inv C Q s (INDEX_OBJ flgid)"
    and q: "sense_tskctx_unl me s" "VALID_FLGID C flgid"
    and eq: "set_flg C me flgid setptn s = (r, s')"
  shows "\<exists>Q'. r = Ret E_OK \<and> kinv C {} Q' s' \<and> flg_frame (INDEX_OBJ flgid) Q s Q' s' \<and>
    flg_set_post C (INDEX_OBJ flgid) setptn Q s Q' s'"
proof -
  from treq.set_flg_core [OF K I, of me setptn]
  obtain d s2 Q2 where L: "set_flg_loop (t_request me) C (INDEX_OBJ flgid) (p_next (kq s) (Hdr (WAITQ (FLG (INDEX_OBJ flgid)))))
       False (upd_flg (INDEX_OBJ flgid) (\<lambda>b. b\<lparr>flgptn := flgptn b OR setptn\<rparr>) s) = Some (d, s2)"
    "kinv C (if d then {me} else {}) Q2 s2" "flg_frame (INDEX_OBJ flgid) Q s Q2 s2"
    "flg_set_post C (INDEX_OBJ flgid) setptn Q s Q2 s2"
    unfolding upd_flg_sel by blast
  have r: "r = Ret E_OK" "s' = t_dispatch_if me d s2"
    using eq q L(1) by (auto simp: set_flg_def Let_def)
  have "kinv C {} Q2 s'" unfolding r(2) by (rule t_dispatch_if_kinv) (use L(2) in \<open>simp split: if_splits\<close>)
  moreover have "flg_frame (INDEX_OBJ flgid) Q s Q2 s'" "flg_set_post C (INDEX_OBJ flgid) setptn Q s Q2 s'"
    using L(3,4) r(2) by (simp_all add: flg_frame_def flg_set_post_def keeps_def flg_def)
  ultimately show ?thesis using r(1) by blast
qed

lemma iset_flg_spec:
  assumes K: "kinv C {} Q s" and I: "flg_inv C Q s (INDEX_OBJ flgid)"
    and q: "sense_intctx_unl me s" "VALID_FLGID C flgid"
    and eq: "iset_flg C me flgid setptn s = (r, s')"
  shows "\<exists>Q'. r = Ret E_OK \<and> kinv C {} Q' s' \<and> flg_frame (INDEX_OBJ flgid) Q s Q' s' \<and>
    flg_set_post C (INDEX_OBJ flgid) setptn Q s Q' s'"
proof -
  from ireq.set_flg_core [OF K I, of me setptn]
  obtain d s2 Q2 where L: "set_flg_loop (i_req me) C (INDEX_OBJ flgid) (p_next (kq s) (Hdr (WAITQ (FLG (INDEX_OBJ flgid)))))
       False (upd_flg (INDEX_OBJ flgid) (\<lambda>b. b\<lparr>flgptn := flgptn b OR setptn\<rparr>) s) = Some (d, s2)"
    "kinv C (if d then {me} else {}) Q2 s2" "flg_frame (INDEX_OBJ flgid) Q s Q2 s2"
    "flg_set_post C (INDEX_OBJ flgid) setptn Q s Q2 s2" "d \<longrightarrow> (\<exists>p b a. fst (i_req me p b a))"
    unfolding upd_flg_sel by blast
  have "\<not> d" using L(5) by (simp add: i_req_def)
  moreover have "r = Ret E_OK" "s' = s2" using eq q L(1) by (auto simp: iset_flg_def Let_def)
  ultimately show ?thesis using L(2-4) by auto
qed

lemma flg_walk_disjoint:
  "flg_walk clr c ptn ts = (r, q, k) \<Longrightarrow> distinct ts \<Longrightarrow> set r \<inter> set k = {}"
proof (induction ts arbitrary: r k)
  case (Cons t ts)
  then show ?case
    using flg_walk_split [of clr c ptn ts] by (auto split: if_splits prod.splits)
qed simp

lemma flg_set_post_inv:
  assumes I: "flg_inv C Q s i" and p: "flg_set_post C i setptn Q s Q' s'" and K: "kinv C {} Q s"
  shows "flg_inv C Q' s' i"
proof -
  let ?h = "WAITQ (FLG i)" and ?ptn = "flgptn (flg s i) OR setptn"
  obtain rel ptn keep where w: "flg_walk (wobjatr C (FLG i) AND TA_CLR \<noteq> 0) (waits_for s) ?ptn (Q ?h) = (rel, ptn, keep)"
    by (metis prod_cases3)
  have P: "Q' ?h = keep" "flgptn (flg s' i) = ptn"
    "tcb_of s' = (\<lambda>u. if u \<in> set rel then flg_released ?ptn (tcb_of s u) else tcb_of s u)"
    using p w by (simp_all add: flg_set_post_def Let_def)
  note sp = flg_walk_split [OF w]
  have z: "\<forall>t \<in> set (Q ?h). \<not> waits_for s t 0" using I flg_ok_zero by (auto simp: flg_inv_def)
  have k: "\<not> waits_for s t ptn" if "t \<in> set keep" for t using flg_walk_waits [OF w z] that by auto
  have "t \<notin> set rel" if "t \<in> set keep" for t
    using flg_walk_disjoint [OF w qrep_distinct [OF kinvD(4) [OF K]]] that by auto
  then have tc: "tcb_of s' t = tcb_of s t" if "t \<in> set keep" for t using that P(3) by simp
  show ?thesis
    unfolding flg_inv_def P(1,2) using sp I k tc by (auto simp: flg_inv_def waits_for_def subset_iff)
qed

text \<open>
  \<open>flg_step\<close>: a step that keeps the kernel invariant, touches no other event flag and keeps the
  invariant of event flag \<open>i\<close>.
\<close>

definition flg_step :: "cfg \<Rightarrow> nat \<Rightarrow> (qhdr \<Rightarrow> tskix list) \<Rightarrow> kstate \<Rightarrow> kstate \<Rightarrow> bool" where
  "flg_step C i Q s s' \<longleftrightarrow> (\<exists>Q'. kinv C {} Q' s' \<and> flg_frame i Q s Q' s' \<and> flg_inv C Q' s' i)"

lemma flg_step_refl: "kinv C {} Q s \<Longrightarrow> flg_inv C Q s i \<Longrightarrow> flg_step C i Q s s"
  by (auto simp: flg_step_def intro!: exI [of _ Q])

lemma set_flg_step:
  assumes K: "kinv C {} Q s" and I: "flg_inv C Q s (INDEX_OBJ flgid)"
  shows "flg_step C (INDEX_OBJ flgid) Q s (snd (set_flg C me flgid setptn s))"
proof (cases "sense_tskctx_unl me s \<and> VALID_FLGID C flgid")
  case True
  then show ?thesis
    using set_flg_spec [OF K I _ _ surjective_pairing, of me setptn] flg_set_post_inv [OF I _ K]
    unfolding flg_step_def by blast
qed (auto simp: set_flg_def flg_step_refl [OF K I])

lemma iset_flg_step:
  assumes K: "kinv C {} Q s" and I: "flg_inv C Q s (INDEX_OBJ flgid)"
  shows "flg_step C (INDEX_OBJ flgid) Q s (snd (iset_flg C me flgid setptn s))"
proof (cases "sense_intctx_unl me s \<and> VALID_FLGID C flgid")
  case True
  then show ?thesis
    using iset_flg_spec [OF K I _ _ surjective_pairing, of me setptn] flg_set_post_inv [OF I _ K]
    unfolding flg_step_def by blast
qed (auto simp: iset_flg_def flg_step_refl [OF K I])

lemma waits_for_tcb: "tcb_of s' = tcb_of s \<Longrightarrow> waits_for s' = waits_for s"
  by (simp add: waits_for_def fun_eq_iff)

lemma flg_step_upd:
  assumes K: "kinv C {} Q s" and I: "flg_inv C Q s i"
    and f: "\<And>t. flg_ok (tcb_of s t) \<Longrightarrow> \<not> waits_for s t (flgptn (flg s i)) \<Longrightarrow>
      \<not> waits_for s t (flgptn (f (flg s i)))"
  shows "flg_step C i Q s (upd_flg i f s)"
  unfolding flg_step_def using K I f
  by (intro exI [of _ Q]) (simp add: flg_inv_def waits_for_tcb [of "upd_flg i f s" s])

lemma waits_for_mono: "\<not> waits_for s t ptn \<Longrightarrow> \<not> waits_for s t (ptn AND m)"
  using flg_cond_mono by (auto simp: waits_for_def split: winfo.splits)

lemma clr_flg_step:
  assumes K: "kinv C {} Q s" and I: "flg_inv C Q s (INDEX_OBJ flgid)"
  shows "flg_step C (INDEX_OBJ flgid) Q s (snd (clr_flg C me flgid clrptn s))"
  using flg_step_upd [OF K I, of "\<lambda>b. b\<lparr>flgptn := flgptn b AND clrptn\<rparr>"] waits_for_mono
    flg_step_refl [OF K I] by (simp add: clr_flg_def)

lemma check_flg_cond_step:
  assumes K: "kinv C {} Q s" and I: "flg_inv C Q s i" and eq: "check_flg_cond C i wp wm s = (r, s')"
  shows "flg_step C i Q s s'"
    and "r = (if flg_cond (flgptn (flg s i)) wp wm then Some (flgptn (flg s i)) else None)"
    and "r = None \<Longrightarrow> s' = s"
proof -
  have "flg_step C i Q s (upd_flg i (\<lambda>b. b\<lparr>flgptn := 0\<rparr>) s)"
    by (rule flg_step_upd [OF K I]) (simp add: flg_ok_zero)
  then show "flg_step C i Q s s'" using eq flg_step_refl [OF K I]
    by (auto simp: check_flg_cond_def split: if_splits)
qed (use eq in \<open>auto simp: check_flg_cond_def split: if_splits\<close>)

lemma flg_block:
  assumes K: "kinv C {} Q s" and I: "flg_inv C Q s i" and m: "may_block me t s"
    and wp: "flg_par wp wm" "\<not> flg_cond (flgptn (flg s i)) wp wm" and nb: "\<not> flg_busy C i s"
    and s1: "s1 = wobj_make_wait C (FLG i) t (upd_tcb t (enter_wait TS_WAIT_FLG (W_FLG wp wm 0)) s) \<or>
      s1 = wobj_make_wait_tmout C (FLG i) tmout t (upd_tcb t (enter_wait TS_WAIT_FLG (W_FLG wp wm 0)) s)"
  shows "\<exists>Q'. kinv C {} Q' (dispatch me s1) \<and> flg_frame i Q s Q' (dispatch me s1) \<and>
      flg_inv C Q' (dispatch me s1) i \<and> flg (dispatch me s1) i = flg s i \<and>
      Q' (WAITQ (FLG i)) = wait_insert C (\<lambda>u. priority (tcb_of s u)) (FLG i) t (Q (WAITQ (FLG i))) \<and>
      winfo_obj (tcb_of (dispatch me s1) t) = W_FLG wp wm 0"
proof -
  let ?h = "WAITQ (FLG i)"
  have k: "TS_WAIT_FLG \<notin> {TS_WAIT_RDTQ, TS_WAIT_RPDQ}" by (simp add: tstat_consts)
  note B = block_on_object [OF K m _ _ k s1, of "{?h}", simplified]
  obtain Q' where Q': "kinv C {} Q' (dispatch me s1)" "keeps {?h} Q s Q' (dispatch me s1)"
    "Q' ?h = wait_insert C (\<lambda>u. priority (tcb_of s u)) (FLG i) t (Q ?h)"
    using B(1) by blast
  have o: "objs (dispatch me s1) = objs s" using B(2) by simp
  have nt: "t \<notin> set (Q ?h)"
    using kinvD(6) [OF K, of t ?h] m by (auto simp: place_def may_block_def)
  have tc: "tcb_of (dispatch me s1) u = tcb_of s u" if "u \<noteq> t" for u using B(3) that by simp
  have tt: "winfo_obj (tcb_of (dispatch me s1) t) = W_FLG wp wm 0" using B(3) by (simp add: enter_wait_def)
  have fl: "flg (dispatch me s1) i = flg s i" using o by (simp add: flg_def)
  have "Q ?h = []" if "wobjatr C (FLG i) AND TA_WMUL = 0"
    using nb that kinvD(4) [OF K] by (simp add: flg_busy_def)
  then have le: "length (Q' ?h) \<le> 1" if "wobjatr C (FLG i) AND TA_WMUL = 0"
    using that Q'(3) by (simp add: wait_insert_def tpri_insert_def)
  have "flg_inv C Q' (dispatch me s1) i"
    unfolding flg_inv_def
  proof (intro conjI ballI impI)
    fix u assume "u \<in> set (Q' ?h)"
    then have u: "u = t \<or> u \<in> set (Q ?h)" using Q'(3) by auto
    show "flg_ok (tcb_of (dispatch me s1) u)"
      using u tc I tt wp(1) by (cases "u = t") (auto simp: flg_ok_def flg_inv_def)
    show "\<not> waits_for (dispatch me s1) u (flgptn (flg (dispatch me s1) i))"
      using u tc I tt wp(2) by (cases "u = t") (auto simp: waits_for_def flg_inv_def fl)
  qed (rule le)
  then show ?thesis using Q' flg_frame_objs [OF Q'(2) o] fl tt by blast
qed

lemma wai_flg_block:
  assumes K: "kinv C {} Q s" and I: "flg_inv C Q s i" and c: "sense_tskctx_unl me s"
    and run: "TSTAT_RUNNABLE (tstat (tcb_of s (runtsk me s)))"
    and wp: "flg_par wp wm" "\<not> flg_cond (flgptn (flg s i)) wp wm" and nb: "\<not> flg_busy C i s"
    and s1: "s1 = wobj_make_wait C (FLG i) (runtsk me s) (upd_tcb (runtsk me s) (enter_wait TS_WAIT_FLG (W_FLG wp wm 0)) s) \<or>
      s1 = wobj_make_wait_tmout C (FLG i) tmout (runtsk me s) (upd_tcb (runtsk me s) (enter_wait TS_WAIT_FLG (W_FLG wp wm 0)) s)"
  shows "flg_step C i Q s (dispatch me s1)"
  using flg_block [OF K I runtsk_may_block [OF K c run] wp nb s1] unfolding flg_step_def by blast

lemma wai_flg_step:
  assumes K: "kinv C {} Q s" and I: "flg_inv C Q s (INDEX_OBJ flgid)"
  shows "flg_step C (INDEX_OBJ flgid) Q s (snd (wai_flg C me flgid wp wm s))"
proof -
  obtain r s1 where e: "check_flg_cond C (INDEX_OBJ flgid) wp wm s = (r, s1)" by fastforce
  note E = check_flg_cond_step [OF K I e]
  show ?thesis
    using E wai_flg_block [OF K I _ _ _ _ _ disjI1 [OF refl], of me wp wm] flg_step_refl [OF K I] e
    by (auto simp: wai_flg_def Let_def enter_wait_winfo split: if_splits)
qed

lemma twai_flg_step:
  assumes K: "kinv C {} Q s" and I: "flg_inv C Q s (INDEX_OBJ flgid)"
  shows "flg_step C (INDEX_OBJ flgid) Q s (snd (twai_flg C me flgid wp wm tmout s))"
proof -
  obtain r s1 where e: "check_flg_cond C (INDEX_OBJ flgid) wp wm s = (r, s1)" by fastforce
  note E = check_flg_cond_step [OF K I e]
  show ?thesis
    using E wai_flg_block [OF K I _ _ _ _ _ disjI2 [OF refl], of me wp wm tmout] flg_step_refl [OF K I] e
    by (auto simp: twai_flg_def Let_def enter_wait_winfo split: if_splits)
qed

lemma pol_flg_step:
  assumes K: "kinv C {} Q s" and I: "flg_inv C Q s (INDEX_OBJ flgid)"
  shows "flg_step C (INDEX_OBJ flgid) Q s (snd (pol_flg C me flgid wp wm s))"
proof -
  obtain r s1 where e: "check_flg_cond C (INDEX_OBJ flgid) wp wm s = (r, s1)" by fastforce
  show ?thesis using check_flg_cond_step [OF K I e] flg_step_refl [OF K I] e
    by (auto simp: pol_flg_def Let_def)
qed

lemma ini_flg_step:
  assumes K: "kinv C {} Q s" and I: "flg_inv C Q s (INDEX_OBJ flgid)"
  shows "flg_step C (INDEX_OBJ flgid) Q s (snd (ini_flg C me flgid s))"
proof (cases "sense_tskctx_unl me s \<and> VALID_FLGID C flgid")
  case True
  let ?i = "INDEX_OBJ flgid"
  let ?h = "WAITQ (FLG ?i)" and ?f = "\<lambda>b::flgcb. b\<lparr>flgptn := iflgptn (flginib_table C ?i)\<rparr>"
  obtain d s1 where w: "init_wait_queue me (Hdr ?h) s = (d, s1)" by fastforce
  have r: "snd (ini_flg C me flgid s) = t_dispatch_if me d (upd_flg ?i ?f s1)"
    using w True by (simp add: ini_flg_def Let_def)
  obtain Q' where Q': "kinv C (if d then insert me {} else {}) Q' s1" "Q' ?h = []" "same_waits ?h Q Q'"
    "objs s1 = objs s" "tcb_of s1 = all_ended E_DLT (Q ?h) (tcb_of s)"
    using init_wait_queue_kinv [OF K _ w] by auto
  have "kinv C {} Q' (t_dispatch_if me d (upd_flg ?i ?f s1))"
    by (rule t_dispatch_if_kinv) (use Q'(1) in \<open>auto split: if_splits\<close>)
  moreover have tc: "tcb_of (t_dispatch_if me d (upd_flg ?i ?f s1)) = all_ended E_DLT (Q ?h) (tcb_of s)"
    using Q'(5) by simp
  moreover have "flg_frame ?i Q s Q' (t_dispatch_if me d (upd_flg ?i ?f s1))"
    using keeps_init [OF Q'(3,2) tc, of "{?h}"] Q'(4)
    by (simp add: flg_frame_def upd_flg_def flg_def)
  moreover have "flg_inv C Q' (t_dispatch_if me d (upd_flg ?i ?f s1)) ?i"
    using Q'(2) by (simp add: flg_inv_def)
  ultimately show ?thesis unfolding r flg_step_def by blast
qed (auto simp: ini_flg_def flg_step_refl [OF K I])

text \<open>A step that touches no event flag and adds no waiter keeps the invariant of each.\<close>

lemma flg_inv_keeps:
  assumes I: "flg_inv C Q s i" and k: "keeps H Q s Q' s'" and h: "WAITQ (FLG i) \<notin> H"
    and o: "flgcb_of (objs s') i = flgcb_of (objs s) i" and d: "distinct (Q' (WAITQ (FLG i)))"
  shows "flg_inv C Q' s' i"
proof -
  let ?h = "WAITQ (FLG i)"
  have s: "set (Q' ?h) \<subseteq> set (Q ?h)" and w: "\<forall>t \<in> set (Q' ?h). winfo_obj (tcb_of s' t) = winfo_obj (tcb_of s t)"
    using k h unfolding keeps_def by blast+
  have "length (Q' ?h) \<le> length (Q ?h)"
    using s d by (metis List.finite_set card_length card_mono distinct_card le_trans)
  moreover have "flg_ok (tcb_of s' t) \<and> \<not> waits_for s' t (flgptn (flg s' i))" if "t \<in> set (Q' ?h)" for t
    using that s w I o by (auto simp: flg_inv_def flg_ok_def waits_for_def flg_def)
  ultimately show ?thesis using I by (auto simp: flg_inv_def)
qed

end
