(* ===== verification/Buffer_Queue.thy ===== *)
theory Buffer_Queue
  imports Wait_Inv
begin

text \<open>
  What data queues and priority data queues have in common: a bounded buffer, the tasks that wait
  to send (each with its datum in its \<open>winfo_obj\<close>) and the tasks that wait to receive.  \<open>abuf_send\<close>
  and \<open>abuf_recv\<close> specify the two operations; the locale \<open>buffer_queue\<close> shows once that the steps
  from which the services are built implement them.
\<close>

section \<open>Specification\<close>

text \<open>
  The abstract state: the buffered data in the order in which they are received, the waiting
  senders with their data, and the waiting receivers.  \<open>ins\<close> puts a datum into the buffer.
\<close>

type_synonym 'd abuf = "'d list \<times> (tskix \<times> 'd) list \<times> tskix list"

fun abuf_send :: "('d \<Rightarrow> 'd list \<Rightarrow> 'd list) \<Rightarrow> nat \<Rightarrow> 'd \<Rightarrow> 'd abuf \<Rightarrow> bool \<times> 'd abuf" where
  "abuf_send ins cap d (buf, ss, r # rs) = (True, buf, ss, rs)"
| "abuf_send ins cap d (buf, ss, []) =
     (if length buf < cap then (True, ins d buf, ss, []) else (False, buf, ss, []))"

fun abuf_recv :: "('d \<Rightarrow> 'd list \<Rightarrow> 'd list) \<Rightarrow> 'd abuf \<Rightarrow> 'd option \<times> 'd abuf" where
  "abuf_recv ins ([], (t, d) # ss, rs) = (Some d, [], ss, rs)"
| "abuf_recv ins (x # xs, (t, d) # ss, rs) = (Some x, ins d xs, ss, rs)"
| "abuf_recv ins (x # xs, [], rs) = (Some x, xs, [], rs)"
| "abuf_recv ins ([], [], rs) = (None, [], [], rs)"

section \<open>The interface\<close>

locale buffer_queue =
  fixes obj :: "nat \<Rightarrow> wobj" and sst rst :: tstat
    and cb :: "kstate \<Rightarrow> nat \<Rightarrow> 'b" and upd :: "nat \<Rightarrow> ('b \<Rightarrow> 'b) \<Rightarrow> kstate \<Rightarrow> kstate"
    and cap :: "cfg \<Rightarrow> nat \<Rightarrow> nat" and wf :: "nat \<Rightarrow> 'b \<Rightarrow> bool" and count :: "'b \<Rightarrow> nat"
    and items :: "nat \<Rightarrow> 'b \<Rightarrow> 'd list"
    and enq :: "nat \<Rightarrow> 'd \<Rightarrow> 'b \<Rightarrow> 'b" and deq :: "nat \<Rightarrow> 'b \<Rightarrow> 'd \<times> 'b" and ins :: "'d \<Rightarrow> 'd list \<Rightarrow> 'd list"
    and info :: "'d \<Rightarrow> winfo" and datum :: "winfo \<Rightarrow> 'd" and is_info :: "winfo \<Rightarrow> bool"
    and inv :: "cfg \<Rightarrow> (qhdr \<Rightarrow> tskix list) \<Rightarrow> kstate \<Rightarrow> nat \<Rightarrow> bool"
    and absq :: "cfg \<Rightarrow> (qhdr \<Rightarrow> tskix list) \<Rightarrow> kstate \<Rightarrow> nat \<Rightarrow> 'd abuf"
    and frame :: "nat \<Rightarrow> (qhdr \<Rightarrow> tskix list) \<Rightarrow> kstate \<Rightarrow> (qhdr \<Rightarrow> tskix list) \<Rightarrow> kstate \<Rightarrow> bool"
    and step :: "cfg \<Rightarrow> nat \<Rightarrow> (qhdr \<Rightarrow> tskix list) \<Rightarrow> kstate \<Rightarrow> 'd abuf \<Rightarrow> kstate \<Rightarrow> bool"
  assumes statuses: "wait_status sst" "sst \<in> set (wobj_status (obj i))" "sst \<notin> {TS_WAIT_RDTQ, TS_WAIT_RPDQ}"
      "wait_status rst" "rst \<in> set (wobj_status (obj i))" "rst \<in> {TS_WAIT_RDTQ, TS_WAIT_RPDQ}"
    and cb_objs: "objs s' = objs s \<Longrightarrow> cb s' i = cb s i"
    and upd_cb: "cb (upd i f s) i = f (cb s i)"
    and upd_frame: "tcb_of (upd i f s) = tcb_of s" "kinv C P Q (upd i f s) = kinv C P Q s"
    and frame_upd: "keeps {WAITQ (obj i), RWAITQ (obj i)} Q s Q' s' \<Longrightarrow>
      objs s' = objs s \<or> objs s' = objs (upd i f s) \<Longrightarrow> frame i Q s Q' s'"
    and items_count: "wf n b \<Longrightarrow> length (items n b) = count b"
    and wf_count: "wf n b \<Longrightarrow> count b \<le> n"
    and enq_items: "wf n b \<Longrightarrow> count b < n \<Longrightarrow> wf n (enq n d b) \<and> items n (enq n d b) = ins d (items n b) \<and>
      count (enq n d b) = Suc (count b)"
    and deq_items: "wf n b \<Longrightarrow> 0 < count b \<Longrightarrow> deq n b = (d, b') \<Longrightarrow>
      wf n b' \<and> items n b = d # items n b' \<and> Suc (count b') = count b"
    and info: "datum (info d) = d" "is_info (info d)"
    and inv_def: "inv C Q s i \<longleftrightarrow> wf (cap C i) (cb s i) \<and>
      (Q (WAITQ (obj i)) \<noteq> [] \<longrightarrow> count (cb s i) = cap C i \<and> Q (RWAITQ (obj i)) = []) \<and>
      (Q (RWAITQ (obj i)) \<noteq> [] \<longrightarrow> count (cb s i) = 0) \<and>
      (\<forall>t \<in> set (Q (WAITQ (obj i))). is_info (winfo_obj (tcb_of s t)))"
    and absq_def: "absq C Q s i = (items (cap C i) (cb s i),
      map (\<lambda>t. (t, datum (winfo_obj (tcb_of s t)))) (Q (WAITQ (obj i))), Q (RWAITQ (obj i)))"
    and step_def: "step C i Q s a s' \<longleftrightarrow>
      (\<exists>Q'. kinv C {} Q' s' \<and> frame i Q s Q' s' \<and> inv C Q' s' i \<and> absq C Q' s' i = a)"
begin

lemma step_refl: "kinv C {} Q s \<Longrightarrow> inv C Q s i \<Longrightarrow> step C i Q s (absq C Q s i) s"
  unfolding step_def by (intro exI [of _ Q]) (simp add: frame_upd)

section \<open>Sending\<close>

text \<open>A datum passed to the first receiver.\<close>

lemma delivered:
  assumes K: "kinv C {} Q s" and I: "inv C Q s i" and Qh: "Q (RWAITQ (obj i)) = t # ts"
    and e: "\<exists>Q'. kinv C {} Q' s' \<and> Q' (RWAITQ (obj i)) = ts \<and> same_waits (RWAITQ (obj i)) Q Q' \<and>
      keeps {WAITQ (obj i), RWAITQ (obj i)} Q s Q' s'"
    and ob: "objs s' = objs s"
  shows "step C i Q s (snd (abuf_send ins n d (absq C Q s i))) s'"
    and "fst (abuf_send ins n d (absq C Q s i))"
proof -
  obtain Q' where Q': "kinv C {} Q' s'" "Q' (RWAITQ (obj i)) = ts" "same_waits (RWAITQ (obj i)) Q Q'"
    "keeps {WAITQ (obj i), RWAITQ (obj i)} Q s Q' s'" using e by blast
  have W: "Q' (WAITQ (obj i)) = Q (WAITQ (obj i))" using Q'(3) by (simp add: same_waits_def)
  have W0: "Q (WAITQ (obj i)) = []" using I Qh by (auto simp: inv_def)
  have c: "cb s' i = cb s i" by (rule cb_objs [OF ob])
  have "inv C Q' s' i" using I Qh Q'(2) W W0 c by (auto simp: inv_def)
  moreover have "absq C Q' s' i = snd (abuf_send ins n d (absq C Q s i))"
    using Qh Q'(2) W W0 c by (simp add: absq_def)
  ultimately show "step C i Q s (snd (abuf_send ins n d (absq C Q s i))) s'"
    using Q'(1) frame_upd [OF Q'(4)] ob unfolding step_def by blast
  show "fst (abuf_send ins n d (absq C Q s i))" using Qh by (simp add: absq_def)
qed

lemma passed:
  assumes K: "kinv C {} Q s" and I: "inv C Q s i" and Qh: "Q (RWAITQ (obj i)) = t # ts"
    and w: "wait_complete t (upd_tcb t (\<lambda>b. b\<lparr>winfo_obj := info d\<rparr>) (on_kq (queue_delete (Ent t)) s)) = (b, s1)"
  shows "t_request me (p_pcb (tcb_of s t)) b s1 = (dr, s2) \<Longrightarrow>
      step C i Q s (snd (abuf_send ins n d (absq C Q s i))) (t_dispatch_if me dr s2)"
    and "step C i Q s (snd (abuf_send ins n d (absq C Q s i))) (i_request me (p_pcb (tcb_of s t)) b s1)"
    and "fst (abuf_send ins n d (absq C Q s i))"
proof -
  let ?f = "\<lambda>b::tcb. b\<lparr>winfo_obj := info d\<rparr>"
  have f: "tstat (?f (tcb_of s t)) = tstat (tcb_of s t)" "priority (?f (tcb_of s t)) = priority (tcb_of s t)"
    "p_pcb (?f (tcb_of s t)) = p_pcb (tcb_of s t)" "wf_tcb (?f (tcb_of s t))"
    using kinvD(5) [OF K, of t] by simp_all
  have hn: "\<And>p j. RWAITQ (obj i) \<noteq> RDY p j" by simp
  show "step C i Q s (snd (abuf_send ins n d (absq C Q s i))) (t_dispatch_if me dr s2)"
    if "t_request me (p_pcb (tcb_of s t)) b s1 = (dr, s2)"
  proof -
    note T = t_wake_first [OF K Qh hn f w that]
    show ?thesis by (rule delivered(1) [OF K I Qh T(1) T(2)])
  qed
  note T = i_wake_first [OF K Qh hn f w, of me]
  show "step C i Q s (snd (abuf_send ins n d (absq C Q s i))) (i_request me (p_pcb (tcb_of s t)) b s1)"
    by (rule delivered(1) [OF K I Qh T(1) T(2)])
  show "fst (abuf_send ins n d (absq C Q s i))" by (rule delivered(2) [OF K I Qh T(1) T(2)])
qed

lemma enqueued:
  assumes K: "kinv C {} Q s" and I: "inv C Q s i" and R: "Q (RWAITQ (obj i)) = []" and f: "count (cb s i) < cap C i"
  shows "step C i Q s (snd (abuf_send ins (cap C i) d (absq C Q s i))) (upd i (enq (cap C i) d) s)"
    and "fst (abuf_send ins (cap C i) d (absq C Q s i))"
proof -
  let ?s = "upd i (enq (cap C i) d) s"
  have w: "wf (cap C i) (cb s i)" using I by (simp add: inv_def)
  note E = enq_items [OF w f, of d]
  have W: "Q (WAITQ (obj i)) = []" using I f by (auto simp: inv_def)
  have "inv C Q ?s i" using E R W by (simp add: inv_def upd_cb)
  moreover have "absq C Q ?s i = snd (abuf_send ins (cap C i) d (absq C Q s i))"
    using E R W f items_count [OF w] by (simp add: absq_def upd_cb)
  moreover have "frame i Q s Q ?s" by (rule frame_upd [OF _ disjI2 [OF refl]]) (simp add: upd_frame keeps_def)
  ultimately show "step C i Q s (snd (abuf_send ins (cap C i) d (absq C Q s i))) ?s"
    unfolding step_def using K by (intro exI [of _ Q]) (simp add: upd_frame)
  show "fst (abuf_send ins (cap C i) d (absq C Q s i))" using R f items_count [OF w] by (simp add: absq_def)
qed

text \<open>With the buffer full the sender joins the waiting senders, where the order of the queue says.\<close>

lemma send_blocks:
  assumes K: "kinv C {} Q s" and I: "inv C Q s i" and m: "may_block me t s"
    and R: "Q (RWAITQ (obj i)) = []" and f: "\<not> count (cb s i) < cap C i"
    and s1: "s1 = wobj_make_wait C (obj i) t (upd_tcb t (enter_wait sst (info d)) s) \<or>
      s1 = wobj_make_wait_tmout C (obj i) tmout t (upd_tcb t (enter_wait sst (info d)) s)"
    and sl: "sl = map (\<lambda>u. (u, if u = t then d else datum (winfo_obj (tcb_of s u))))
       (wait_insert C (\<lambda>u. priority (tcb_of s u)) (obj i) t (Q (WAITQ (obj i))))"
  shows "step C i Q s (items (cap C i) (cb s i), sl, []) (dispatch me s1)"
    and "abuf_send ins (cap C i) d (absq C Q s i) = (False, absq C Q s i)"
proof -
  let ?W = "WAITQ (obj i)" and ?R = "RWAITQ (obj i)" and ?s = "dispatch me s1"
  note B = block_on_object [OF K m statuses(1-3) s1, of "{?W, ?R}", simplified]
  obtain Q' where Q': "kinv C {} Q' ?s" "keeps {?W, ?R} Q s Q' ?s" "same_waits ?W Q Q'"
    "Q' ?W = wait_insert C (\<lambda>u. priority (tcb_of s u)) (obj i) t (Q ?W)"
    using B(1) by blast
  have ob: "objs ?s = objs s" using B(2) by simp
  have tt: "winfo_obj (tcb_of ?s t) = info d" using B(3) by (simp add: enter_wait_def)
  have tc: "tcb_of ?s u = tcb_of s u" if "u \<noteq> t" for u using B(3) that by simp
  have R': "Q' ?R = []" using Q'(3) R by (simp add: same_waits_def)
  have c': "cb ?s i = cb s i" by (rule cb_objs [OF ob])
  have w: "wf (cap C i) (cb s i)" using I by (simp add: inv_def)
  have c: "count (cb s i) = cap C i" using f wf_count [OF w] by simp
  have "is_info (winfo_obj (tcb_of ?s u))" if "u \<in> set (Q' ?W)" for u
    using that Q'(4) I tt tc info(2) by (cases "u = t") (auto simp: inv_def)
  then have "inv C Q' ?s i" using w R' c' c by (auto simp: inv_def)
  moreover have "map (\<lambda>u. (u, datum (winfo_obj (tcb_of ?s u)))) (Q' ?W) = sl"
    unfolding sl Q'(4) using tt tc info(1) by (intro map_cong) auto
  then have "absq C Q' ?s i = (items (cap C i) (cb s i), sl, [])"
    using R' c' by (simp add: absq_def)
  ultimately show "step C i Q s (items (cap C i) (cb s i), sl, []) ?s"
    using Q'(1) frame_upd [OF Q'(2)] ob unfolding step_def by blast
  show "abuf_send ins (cap C i) d (absq C Q s i) = (False, absq C Q s i)"
    using R c items_count [OF w] by (simp add: absq_def)
qed

section \<open>Receiving\<close>

text \<open>The buffer gives its first datum and takes that of the sender that is released.\<close>

lemma shifted:
  assumes w: "wf n b" and f: "count b = n" and s: "if 0 < count b then deq n b = (x, b1) \<and> b' = enq n d b1 else x = d \<and> b' = b"
  shows "wf n b' \<and> count b' = n" and "0 < n \<Longrightarrow> \<exists>xs. items n b = x # xs \<and> items n b' = ins d xs"
    and "n = 0 \<Longrightarrow> items n b = [] \<and> items n b' = [] \<and> x = d"
proof -
  show "n = 0 \<Longrightarrow> items n b = [] \<and> items n b' = [] \<and> x = d"
    using s f items_count [OF w] by simp
  have P: "wf n b' \<and> count b' = n \<and> items n b = x # items n b1 \<and> items n b' = ins d (items n b1)" if "0 < n"
  proof -
    have D: "wf n b1" "items n b = x # items n b1" "Suc (count b1) = count b"
      using deq_items [OF w _, of x b1] s f that by auto
    then have "count b1 < n" using f by simp
    from enq_items [OF D(1) this, of d] show ?thesis using D s f that by auto
  qed
  then show "wf n b' \<and> count b' = n" using w f s by (cases "0 < n") auto
  show "0 < n \<Longrightarrow> \<exists>xs. items n b = x # xs \<and> items n b' = ins d xs" using P by blast
qed

lemma taken:
  assumes K: "kinv C {} Q s" and I: "inv C Q s i" and Qh: "Q (WAITQ (obj i)) = t # ts"
    and sh: "if 0 < count (cb s i) then deq (cap C i) (cb s i) = (x, b1) \<and> b' = enq (cap C i) (datum (winfo_obj (tcb_of s t))) b1
      else x = datum (winfo_obj (tcb_of s t)) \<and> b' = cb s i"
    and w: "wait_complete t (on_kq (queue_delete (Ent t)) (upd i (\<lambda>_. b') s)) = (b, s1)"
    and d: "t_request me (p_pcb (tcb_of s t)) b s1 = (dr, s2)"
  shows "step C i Q s (snd (abuf_recv ins (absq C Q s i))) (t_dispatch_if me dr s2)"
    and "fst (abuf_recv ins (absq C Q s i)) = Some x"
proof -
  let ?s = "t_dispatch_if me dr s2" and ?u = "upd i (\<lambda>_. b') s"
  let ?W = "WAITQ (obj i)" and ?R = "RWAITQ (obj i)"
  let ?dat = "\<lambda>s u. datum (winfo_obj (tcb_of s u))"
  have K1: "kinv C {} Q ?u" using K by (simp add: upd_frame)
  have d1: "t_request me (p_pcb (tcb_of ?u t)) b s1 = (dr, s2)" using d by (simp add: upd_frame)
  have hn: "\<And>p j. ?W \<noteq> RDY p j" by simp
  have wft: "wf_tcb (tcb_of ?u t)" by (rule kinvD(5) [OF K1])
  have uid: "upd_tcb t (\<lambda>b. b) v = v" for v by (simp add: upd_tcb_def)
  note T = t_wake_first [where f = "\<lambda>b. b", OF K1 Qh hn refl refl refl wft _ d1, unfolded uid, OF w]
  obtain Q' where Q': "kinv C {} Q' ?s" "Q' ?W = ts" "same_waits ?W Q Q'" "keeps {?W, ?R} Q ?u Q' ?s"
    using T(1) [where H = "{?W, ?R}"] by blast
  have ob: "objs ?s = objs ?u" by (rule T(2))
  have R: "Q ?R = []" and c: "count (cb s i) = cap C i" and wf: "wf (cap C i) (cb s i)"
    using I Qh by (auto simp: inv_def)
  have R': "Q' ?R = []" using Q'(3) R by (simp add: same_waits_def)
  note S = shifted [OF wf c sh]
  have dd: "cb ?s i = b'" using cb_objs [OF ob] by (simp add: upd_cb)
  have "keeps {?W, ?R} Q s Q' ?s" using Q'(4) by (simp add: keeps_def upd_frame)
  from frame_upd [OF this] have fr: "frame i Q s Q' ?s" using ob by blast
  have tc: "tcb_of ?s = (tcb_of s)(t := ended_tcb E_OK (tcb_of s t))" using T(3) by (simp add: upd_frame)
  have nt: "t \<notin> set ts" using qrep_distinct [OF kinvD(4) [OF K], of ?W] Qh by simp
  have "is_info (winfo_obj (tcb_of ?s u))" if "u \<in> set ts" for u
    using that I Qh nt tc by (auto simp: inv_def)
  then have inv: "inv C Q' ?s i" using S(1) Q'(2) R' dd by (auto simp: inv_def)
  have ss: "map (\<lambda>u. (u, ?dat ?s u)) ts = map (\<lambda>u. (u, ?dat s u)) ts"
    using nt tc by (intro map_cong) auto
  have a: "absq C Q s i = (items (cap C i) (cb s i), (t, ?dat s t) # map (\<lambda>u. (u, ?dat s u)) ts, [])"
    using Qh R by (simp add: absq_def)
  have r: "abuf_recv ins (absq C Q s i) = (Some x, items (cap C i) b', map (\<lambda>u. (u, ?dat s u)) ts, [])"
  proof (cases "0 < cap C i")
    case True
    then show ?thesis using S(2) unfolding a by auto
  next
    case False
    then show ?thesis using S(3) unfolding a by simp
  qed
  have "absq C Q' ?s i = snd (abuf_recv ins (absq C Q s i))"
    unfolding r using Q'(2) R' dd ss by (simp add: absq_def)
  then show "step C i Q s (snd (abuf_recv ins (absq C Q s i))) ?s"
    using Q'(1) fr inv unfolding step_def by blast
  show "fst (abuf_recv ins (absq C Q s i)) = Some x" unfolding r by simp
qed

lemma got:
  assumes K: "kinv C {} Q s" and I: "inv C Q s i" and W: "Q (WAITQ (obj i)) = []"
    and c: "0 < count (cb s i)" and eq: "deq (cap C i) (cb s i) = (x, b')"
  shows "step C i Q s (snd (abuf_recv ins (absq C Q s i))) (upd i (\<lambda>_. b') s)"
    and "fst (abuf_recv ins (absq C Q s i)) = Some x"
proof -
  let ?s = "upd i (\<lambda>_. b') s"
  have w: "wf (cap C i) (cb s i)" using I by (simp add: inv_def)
  note D = deq_items [OF w c eq]
  have R: "Q (RWAITQ (obj i)) = []" using I c by (auto simp: inv_def)
  have r: "abuf_recv ins (absq C Q s i) = (Some x, items (cap C i) b', [], [])"
    using W R D by (simp add: absq_def)
  have "inv C Q ?s i" using D R W by (simp add: inv_def upd_cb)
  moreover have "absq C Q ?s i = snd (abuf_recv ins (absq C Q s i))"
    unfolding r using W R by (simp add: absq_def upd_cb)
  moreover have "frame i Q s Q ?s" by (rule frame_upd [OF _ disjI2 [OF refl]]) (simp add: upd_frame keeps_def)
  ultimately show "step C i Q s (snd (abuf_recv ins (absq C Q s i))) ?s"
    unfolding step_def using K by (intro exI [of _ Q]) (simp add: upd_frame)
  show "fst (abuf_recv ins (absq C Q s i)) = Some x" unfolding r by simp
qed

lemma recv_blocks:
  assumes K: "kinv C {} Q s" and I: "inv C Q s i" and m: "may_block me t s"
    and W: "Q (WAITQ (obj i)) = []" and c: "count (cb s i) = 0"
    and s2: "s2 = make_wait t (upd_tcb t (enter_wait rst (winfo_obj (tcb_of s t))) s) \<or>
      s2 = make_wait_tmout tmout me (upd_tcb t (enter_wait rst (winfo_obj (tcb_of s t))) s)"
    and s1: "s1 = set_wobjcb t (obj i) (on_kq (queue_insert_prev (Hdr (RWAITQ (obj i))) (Ent t)) s2)"
  shows "step C i Q s ([], [], Q (RWAITQ (obj i)) @ [t]) (dispatch me s1)"
    and "abuf_recv ins (absq C Q s i) = (None, absq C Q s i)"
proof -
  let ?W = "WAITQ (obj i)" and ?R = "RWAITQ (obj i)" and ?s = "dispatch me s1"
  have "made_wait t me (upd_tcb t (enter_wait rst (winfo_obj (tcb_of s t))) s) s2"
    using s2 wait_cb_object [OF statuses(4,5)] by (auto simp: made_wait_def enter_wait_def)
  note B = block_on_rwait [OF K m statuses(4-6) this s1, of "{?W, ?R}", simplified]
  obtain Q' where Q': "kinv C {} Q' ?s" "keeps {?W, ?R} Q s Q' ?s" "same_waits ?R Q Q'"
    "Q' ?R = Q ?R @ [t]" using B(1) by blast
  have ob: "objs ?s = objs s" using B(2) by simp
  have c': "cb ?s i = cb s i" by (rule cb_objs [OF ob])
  have z: "items (cap C i) (cb s i) = []" using items_count [of "cap C i" "cb s i"] c I by (simp add: inv_def)
  have W': "Q' ?W = []" using Q'(3) W by (simp add: same_waits_def)
  have "inv C Q' ?s i" using I W' c c' by (auto simp: inv_def)
  moreover have "absq C Q' ?s i = ([], [], Q ?R @ [t])"
    using W' Q'(4) c' z by (simp add: absq_def)
  ultimately show "step C i Q s ([], [], Q ?R @ [t]) ?s"
    using Q'(1) frame_upd [OF Q'(2)] ob unfolding step_def by blast
  show "abuf_recv ins (absq C Q s i) = (None, absq C Q s i)"
    using W z by (simp add: absq_def)
qed

text \<open>A step that touches no such queue and adds no waiter keeps the invariant.\<close>

lemma inv_keeps:
  assumes I: "inv C Q s i" and k: "keeps H Q s Q' s'" and h: "WAITQ (obj i) \<notin> H" "RWAITQ (obj i) \<notin> H"
    and c: "cb s' i = cb s i"
  shows "inv C Q' s' i"
proof -
  have s: "set (Q' (WAITQ (obj i))) \<subseteq> set (Q (WAITQ (obj i)))" "set (Q' (RWAITQ (obj i))) \<subseteq> set (Q (RWAITQ (obj i)))"
    and w: "\<forall>t \<in> set (Q' (WAITQ (obj i))). winfo_obj (tcb_of s' t) = winfo_obj (tcb_of s t)"
    using k h unfolding keeps_def by blast+
  have "is_info (winfo_obj (tcb_of s' t))" if "t \<in> set (Q' (WAITQ (obj i)))" for t
    using that s(1) w I by (auto simp: inv_def)
  then show ?thesis using I s c by (auto simp: inv_def)
qed

end

lemma enter_wait_absorb:
  "upd_tcb t (enter_wait k j) (upd_tcb t (\<lambda>b. b\<lparr>winfo_obj := i\<rparr>) s) = upd_tcb t (enter_wait k j) s"
  by (simp add: upd_tcb_def enter_wait_def)

end
