(* ===== verification/Dataqueue.thy ===== *)
theory Dataqueue
  imports Buffer_Queue
begin

text \<open>
  Data queues (\<open>kernel/dataqueue.c\<close>): the ring buffer, the tasks that wait to send (each with
  its datum in its \<open>winfo_obj\<close>) and the tasks that wait to receive.  \<open>adtq\<close> is the abstraction
  of a data queue; the services refine \<open>adtq_send\<close>, \<open>adtq_force\<close> and \<open>adtq_recv\<close>.
\<close>

section \<open>The ring buffer\<close>

definition dtq :: "kstate \<Rightarrow> nat \<Rightarrow> dtqcb" where "dtq s i = dtqcb_of (objs s) i"

definition upd_dtq :: "nat \<Rightarrow> (dtqcb \<Rightarrow> dtqcb) \<Rightarrow> kstate \<Rightarrow> kstate" where
  "upd_dtq i f s =
     s\<lparr>objs := (objs s)\<lparr>dtqcb_of := (dtqcb_of (objs s))(i := f (dtqcb_of (objs s) i))\<rparr>\<rparr>"

definition tnum_dtq :: "cfg \<Rightarrow> nat" where "tnum_dtq C = uint_cast (tmax_dtqid C)"

definition dtq_reset :: "dtqcb \<Rightarrow> dtqcb" where
  "dtq_reset b = b\<lparr>dtq_count := 0, head := 0, tail := 0\<rparr>"

fun init_dtqs :: "cfg \<Rightarrow> nat \<Rightarrow> kstate \<Rightarrow> kstate" where
  "init_dtqs C 0 s = s"
| "init_dtqs C (Suc i) s =
     (let s = init_dtqs C i s;
          s = on_kq (queue_initialize (Hdr (WAITQ (DTQ i)))) s;
          s = on_kq (queue_initialize (Hdr (RWAITQ (DTQ i)))) s
      in upd_dtq i dtq_reset s)"

definition initialize_dataqueue :: "cfg \<Rightarrow> bool \<Rightarrow> kstate \<Rightarrow> kstate" where
  "initialize_dataqueue C x_sense_mprc s =
     (if x_sense_mprc then init_dtqs C (tnum_dtq C) s else s)"

definition enqueue_data :: "nat \<Rightarrow> intptr \<Rightarrow> dtqcb \<Rightarrow> dtqcb" where
  "enqueue_data cnt data b =
     (let b = b\<lparr>dtqmb := (dtqmb b)(tail b := data)\<rparr>;
          b = b\<lparr>dtq_count := dtq_count b + 1\<rparr>;
          b = b\<lparr>tail := tail b + 1\<rparr>
      in if cnt \<le> tail b then b\<lparr>tail := 0\<rparr> else b)"

definition force_enqueue_data :: "nat \<Rightarrow> intptr \<Rightarrow> dtqcb \<Rightarrow> dtqcb" where
  "force_enqueue_data cnt data b =
     (let b = b\<lparr>dtqmb := (dtqmb b)(tail b := data)\<rparr>;
          b = b\<lparr>tail := tail b + 1\<rparr>;
          b = (if cnt \<le> tail b then b\<lparr>tail := 0\<rparr> else b)
      in if dtq_count b < cnt then b\<lparr>dtq_count := dtq_count b + 1\<rparr>
         else b\<lparr>head := tail b\<rparr>)"

definition dequeue_data :: "nat \<Rightarrow> dtqcb \<Rightarrow> intptr \<times> dtqcb" where
  "dequeue_data cnt b =
     (let data = dtqmb b (head b);
          b = b\<lparr>dtq_count := dtq_count b - 1\<rparr>;
          b = b\<lparr>head := head b + 1\<rparr>;
          b = (if cnt \<le> head b then b\<lparr>head := 0\<rparr> else b)
      in (data, b))"

section \<open>Services\<close>

text \<open>
  The blocks of code that stand in several services: passing a datum to the first task that
  waits to receive (with the dispatch at the end), taking the first datum out of the buffer,
  and receiving when a task waits to send.
\<close>

definition dtq_pass :: "tskix \<Rightarrow> intptr \<Rightarrow> kstate \<Rightarrow> bool \<times> kstate" where
  "dtq_pass t data s =
     (let s = on_kq (queue_delete (Ent t)) s;
          s = upd_tcb t (\<lambda>b. b\<lparr>winfo_obj := W_DTQ data\<rparr>) s
      in wait_complete t s)"

definition dtq_full :: "cfg \<Rightarrow> nat \<Rightarrow> kstate \<Rightarrow> bool" where
  "dtq_full C i s \<longleftrightarrow> \<not> dtq_count (dtq s i) < dtqcnt (dtqinib_table C i)"

definition dtq_get :: "cfg \<Rightarrow> nat \<Rightarrow> kstate \<Rightarrow> intptr \<times> kstate" where
  "dtq_get C i s =
     (let (data, b) = dequeue_data (dtqcnt (dtqinib_table C i)) (dtq s i)
      in (data, upd_dtq i (\<lambda>_. b) s))"

definition dtq_take :: "cfg \<Rightarrow> nat \<Rightarrow> tskix \<Rightarrow> kstate \<Rightarrow> intptr \<times> bool \<times> kstate" where
  "dtq_take C i t s =
     (let s = on_kq (queue_delete (Ent t)) s;
          (data, s) =
            (if 0 < dtq_count (dtq s i) then
               (let (data, s) = dtq_get C i s;
                    s = upd_dtq i (enqueue_data (dtqcnt (dtqinib_table C i))
                          (dtq_data (winfo_obj (tcb_of s t)))) s
                in (data, s))
             else (dtq_data (winfo_obj (tcb_of s t)), s));
          (b, s) = wait_complete t s
      in (data, b, s))"

definition t_pass_first :: "prcix \<Rightarrow> nat \<Rightarrow> intptr \<Rightarrow> kstate \<Rightarrow> kstate" where
  "t_pass_first me i data s =
     (let t = first_waiter (Hdr (RWAITQ (DTQ i))) s;
          p = p_pcb (tcb_of s t);
          (b, s) = dtq_pass t data s;
          (dspreq, s) = t_request me p b s
      in t_dispatch_if me dspreq s)"

definition i_pass_first :: "prcix \<Rightarrow> nat \<Rightarrow> intptr \<Rightarrow> kstate \<Rightarrow> kstate" where
  "i_pass_first me i data s =
     (let t = first_waiter (Hdr (RWAITQ (DTQ i))) s;
          p = p_pcb (tcb_of s t);
          (b, s) = dtq_pass t data s
      in i_request me p b s)"

definition t_take_first :: "cfg \<Rightarrow> prcix \<Rightarrow> nat \<Rightarrow> kstate \<Rightarrow> intptr \<times> kstate" where
  "t_take_first C me i s =
     (let t = first_waiter (Hdr (WAITQ (DTQ i))) s;
          p = p_pcb (tcb_of s t);
          (data, b, s) = dtq_take C i t s;
          (dspreq, s) = t_request me p b s
      in (data, t_dispatch_if me dspreq s))"

definition snd_dtq :: "cfg \<Rightarrow> prcix \<Rightarrow> ident \<Rightarrow> intptr \<Rightarrow> kstate \<Rightarrow> ercd svc \<times> kstate" where
  "snd_dtq C me dtqid data s =
     (if \<not> sense_tskctx_unl me s then (Ret E_CTX, s)
      else if \<not> VALID_DTQID C dtqid then (Ret E_ID, s)
      else let i = INDEX_OBJ dtqid in
        if \<not> dspflg (pcb_of s me) then (Ret E_CTX, s)
        else if \<not> queue_empty (Hdr (RWAITQ (DTQ i))) (kq s) then
          (Ret E_OK, t_pass_first me i data s)
        else if \<not> dtq_full C i s then
          (Ret E_OK, upd_dtq i (enqueue_data (dtqcnt (dtqinib_table C i)) data) s)
        else if \<not> TSTAT_RUNNABLE (tstat (tcb_of s (runtsk me s))) then (Again, s)
        else
          (let t = runtsk me s;
               s = upd_tcb t (\<lambda>b. b\<lparr>winfo_obj := W_DTQ data\<rparr>) s;
               s = set_tstat t (TS_WAITING OR TS_WAIT_SDTQ) s;
               s = wobj_make_wait C (DTQ i) t s
           in (Blocks t, dispatch me s)))"

definition psnd_dtq :: "cfg \<Rightarrow> prcix \<Rightarrow> ident \<Rightarrow> intptr \<Rightarrow> kstate \<Rightarrow> ercd svc \<times> kstate" where
  "psnd_dtq C me dtqid data s =
     (if \<not> sense_tskctx_unl me s then (Ret E_CTX, s)
      else if \<not> VALID_DTQID C dtqid then (Ret E_ID, s)
      else let i = INDEX_OBJ dtqid in
        if \<not> queue_empty (Hdr (RWAITQ (DTQ i))) (kq s) then
          (Ret E_OK, t_pass_first me i data s)
        else if \<not> dtq_full C i s then
          (Ret E_OK, upd_dtq i (enqueue_data (dtqcnt (dtqinib_table C i)) data) s)
        else (Ret E_TMOUT, s))"

definition ipsnd_dtq :: "cfg \<Rightarrow> prcix \<Rightarrow> ident \<Rightarrow> intptr \<Rightarrow> kstate \<Rightarrow> ercd svc \<times> kstate" where
  "ipsnd_dtq C me dtqid data s =
     (if \<not> sense_intctx_unl me s then (Ret E_CTX, s)
      else if \<not> VALID_DTQID C dtqid then (Ret E_ID, s)
      else let i = INDEX_OBJ dtqid in
        if \<not> queue_empty (Hdr (RWAITQ (DTQ i))) (kq s) then
          (Ret E_OK, i_pass_first me i data s)
        else if \<not> dtq_full C i s then
          (Ret E_OK, upd_dtq i (enqueue_data (dtqcnt (dtqinib_table C i)) data) s)
        else (Ret E_TMOUT, s))"

definition tsnd_dtq :: "cfg \<Rightarrow> prcix \<Rightarrow> ident \<Rightarrow> intptr \<Rightarrow> tmo \<Rightarrow> kstate \<Rightarrow> ercd svc \<times> kstate" where
  "tsnd_dtq C me dtqid data tmout s =
     (if \<not> sense_tskctx_unl me s then (Ret E_CTX, s)
      else if \<not> VALID_DTQID C dtqid then (Ret E_ID, s)
      else if \<not> VALID_TMOUT tmout then (Ret E_PAR, s)
      else let i = INDEX_OBJ dtqid in
        if \<not> dspflg (pcb_of s me) then (Ret E_CTX, s)
        else if \<not> queue_empty (Hdr (RWAITQ (DTQ i))) (kq s) then
          (Ret E_OK, t_pass_first me i data s)
        else if \<not> dtq_full C i s then
          (Ret E_OK, upd_dtq i (enqueue_data (dtqcnt (dtqinib_table C i)) data) s)
        else if tmout = TMO_POL then (Ret E_TMOUT, s)
        else if \<not> TSTAT_RUNNABLE (tstat (tcb_of s (runtsk me s))) then (Again, s)
        else
          (let t = runtsk me s;
               s = upd_tcb t (\<lambda>b. b\<lparr>winfo_obj := W_DTQ data\<rparr>) s;
               s = set_tstat t (TS_WAITING OR TS_WAIT_SDTQ) s;
               s = wobj_make_wait_tmout C (DTQ i) tmout t s
           in (Blocks t, dispatch me s)))"

definition fsnd_dtq :: "cfg \<Rightarrow> prcix \<Rightarrow> ident \<Rightarrow> intptr \<Rightarrow> kstate \<Rightarrow> ercd svc \<times> kstate" where
  "fsnd_dtq C me dtqid data s =
     (if \<not> sense_tskctx_unl me s then (Ret E_CTX, s)
      else if \<not> VALID_DTQID C dtqid then (Ret E_ID, s)
      else let i = INDEX_OBJ dtqid in
        if \<not> 0 < dtqcnt (dtqinib_table C i) then (Ret E_ILUSE, s)
        else if \<not> queue_empty (Hdr (RWAITQ (DTQ i))) (kq s) then
          (Ret E_OK, t_pass_first me i data s)
        else (Ret E_OK, upd_dtq i (force_enqueue_data (dtqcnt (dtqinib_table C i)) data) s))"

definition ifsnd_dtq :: "cfg \<Rightarrow> prcix \<Rightarrow> ident \<Rightarrow> intptr \<Rightarrow> kstate \<Rightarrow> ercd svc \<times> kstate" where
  "ifsnd_dtq C me dtqid data s =
     (if \<not> sense_intctx_unl me s then (Ret E_CTX, s)
      else if \<not> VALID_DTQID C dtqid then (Ret E_ID, s)
      else let i = INDEX_OBJ dtqid in
        if \<not> 0 < dtqcnt (dtqinib_table C i) then (Ret E_ILUSE, s)
        else if \<not> queue_empty (Hdr (RWAITQ (DTQ i))) (kq s) then
          (Ret E_OK, i_pass_first me i data s)
        else (Ret E_OK, upd_dtq i (force_enqueue_data (dtqcnt (dtqinib_table C i)) data) s))"

text \<open>
  A reception returns the error code and what it wrote to \<open>*p_data\<close>; a task that blocks finds
  the datum in its \<open>winfo_obj\<close>.
\<close>

definition rcv_dtq :: "cfg \<Rightarrow> prcix \<Rightarrow> ident \<Rightarrow> kstate \<Rightarrow> (ercd \<times> intptr option) svc \<times> kstate" where
  "rcv_dtq C me dtqid s =
     (if \<not> sense_tskctx_unl me s then (Ret (E_CTX, None), s)
      else if \<not> VALID_DTQID C dtqid then (Ret (E_ID, None), s)
      else let i = INDEX_OBJ dtqid in
        if \<not> dspflg (pcb_of s me) then (Ret (E_CTX, None), s)
        else if \<not> queue_empty (Hdr (WAITQ (DTQ i))) (kq s) then
          (let (data, s) = t_take_first C me i s in (Ret (E_OK, Some data), s))
        else if 0 < dtq_count (dtq s i) then
          (let (data, s) = dtq_get C i s in (Ret (E_OK, Some data), s))
        else if \<not> TSTAT_RUNNABLE (tstat (tcb_of s (runtsk me s))) then (Again, s)
        else
          (let t = runtsk me s;
               s = set_tstat t (TS_WAITING OR TS_WAIT_RDTQ) s;
               s = make_wait t s;
               s = on_kq (queue_insert_prev (Hdr (RWAITQ (DTQ i))) (Ent t)) s;
               s = set_wobjcb t (DTQ i) s
           in (Blocks t, dispatch me s)))"

definition prcv_dtq :: "cfg \<Rightarrow> prcix \<Rightarrow> ident \<Rightarrow> kstate \<Rightarrow> (ercd \<times> intptr option) svc \<times> kstate" where
  "prcv_dtq C me dtqid s =
     (if \<not> sense_tskctx_unl me s then (Ret (E_CTX, None), s)
      else if \<not> VALID_DTQID C dtqid then (Ret (E_ID, None), s)
      else let i = INDEX_OBJ dtqid in
        if \<not> queue_empty (Hdr (WAITQ (DTQ i))) (kq s) then
          (let (data, s) = t_take_first C me i s in (Ret (E_OK, Some data), s))
        else if 0 < dtq_count (dtq s i) then
          (let (data, s) = dtq_get C i s in (Ret (E_OK, Some data), s))
        else (Ret (E_TMOUT, None), s))"

definition trcv_dtq ::
  "cfg \<Rightarrow> prcix \<Rightarrow> ident \<Rightarrow> tmo \<Rightarrow> kstate \<Rightarrow> (ercd \<times> intptr option) svc \<times> kstate" where
  "trcv_dtq C me dtqid tmout s =
     (if \<not> sense_tskctx_unl me s then (Ret (E_CTX, None), s)
      else if \<not> VALID_DTQID C dtqid then (Ret (E_ID, None), s)
      else if \<not> VALID_TMOUT tmout then (Ret (E_PAR, None), s)
      else let i = INDEX_OBJ dtqid in
        if \<not> dspflg (pcb_of s me) then (Ret (E_CTX, None), s)
        else if \<not> queue_empty (Hdr (WAITQ (DTQ i))) (kq s) then
          (let (data, s) = t_take_first C me i s in (Ret (E_OK, Some data), s))
        else if 0 < dtq_count (dtq s i) then
          (let (data, s) = dtq_get C i s in (Ret (E_OK, Some data), s))
        else if tmout = TMO_POL then (Ret (E_TMOUT, None), s)
        else if \<not> TSTAT_RUNNABLE (tstat (tcb_of s (runtsk me s))) then (Again, s)
        else
          (let t = runtsk me s;
               s = set_tstat t (TS_WAITING OR TS_WAIT_RDTQ) s;
               s = make_wait_tmout tmout me s;
               s = on_kq (queue_insert_prev (Hdr (RWAITQ (DTQ i))) (Ent t)) s;
               s = set_wobjcb t (DTQ i) s
           in (Blocks t, dispatch me s)))"

definition ini_dtq :: "cfg \<Rightarrow> prcix \<Rightarrow> ident \<Rightarrow> kstate \<Rightarrow> ercd svc \<times> kstate" where
  "ini_dtq C me dtqid s =
     (if \<not> sense_tskctx_unl me s then (Ret E_CTX, s)
      else if \<not> VALID_DTQID C dtqid then (Ret E_ID, s)
      else let i = INDEX_OBJ dtqid;
               (dspreq, s) = init_wait_queue me (Hdr (WAITQ (DTQ i))) s;
               (d, s) = init_wait_queue me (Hdr (RWAITQ (DTQ i))) s;
               dspreq = (if d then True else dspreq);
               s = upd_dtq i dtq_reset s
           in (Ret E_OK, t_dispatch_if me dspreq s))"

record t_rdtq = stskid :: ident  rtskid :: ident  sdtqcnt :: nat

definition ref_dtq :: "cfg \<Rightarrow> prcix \<Rightarrow> ident \<Rightarrow> kstate \<Rightarrow> (ercd \<times> t_rdtq option) \<times> kstate" where
  "ref_dtq C me dtqid s =
     (if \<not> sense_tskctx_unl me s then ((E_CTX, None), s)
      else if \<not> VALID_DTQID C dtqid then ((E_ID, None), s)
      else let i = INDEX_OBJ dtqid in
        ((E_OK, Some \<lparr>stskid = wait_tskid (Hdr (WAITQ (DTQ i))) s,
           rtskid = wait_tskid (Hdr (RWAITQ (DTQ i))) s, sdtqcnt = dtq_count (dtq s i)\<rparr>), s))"

section \<open>The ring buffer implements a bounded FIFO list\<close>

definition ring_wf :: "nat \<Rightarrow> dtqcb \<Rightarrow> bool" where
  "ring_wf cnt b \<longleftrightarrow> dtq_count b \<le> cnt \<and>
     (if cnt = 0 then head b = 0 \<and> tail b = 0
      else head b < cnt \<and> tail b = (head b + dtq_count b) mod cnt)"

definition ring_list :: "nat \<Rightarrow> dtqcb \<Rightarrow> intptr list" where
  "ring_list cnt b = map (\<lambda>k. dtqmb b ((head b + k) mod cnt)) [0..<dtq_count b]"

lemma ring_reset [simp]: "ring_wf cnt (dtq_reset b)" "ring_list cnt (dtq_reset b) = []"
  by (simp_all add: ring_wf_def ring_list_def dtq_reset_def)

lemma length_ring_list [simp]: "length (ring_list cnt b) = dtq_count b"
  by (simp add: ring_list_def)

lemma wrap_incr: "t < cnt \<Longrightarrow> (if cnt \<le> Suc t then 0 else Suc t) = Suc t mod cnt"
  by (auto simp: le_Suc_eq mod_Suc)

lemma ring_slot_neq:
  fixes h k c cnt :: nat
  assumes "k < c" and "c < cnt"
  shows "(h + k) mod cnt \<noteq> (h + c) mod cnt"
proof
  assume "(h + k) mod cnt = (h + c) mod cnt"
  then have "cnt dvd (h + c) - (h + k)" using assms by (metis add_le_cancel_left less_imp_le_nat mod_eq_dvd_iff_nat)
  then have "cnt dvd c - k" by simp
  then show False using assms by (simp add: nat_dvd_not_less)
qed

lemma enqueue_data_ring:
  assumes w: "ring_wf cnt b" and c: "dtq_count b < cnt"
  shows "ring_wf cnt (enqueue_data cnt d b)" and "ring_list cnt (enqueue_data cnt d b) = ring_list cnt b @ [d]"
proof -
  have t: "tail b = (head b + dtq_count b) mod cnt" "tail b < cnt" and h: "head b < cnt" using w c by (auto simp: ring_wf_def)
  have s: "tail (enqueue_data cnt d b) = Suc (tail b) mod cnt" "head (enqueue_data cnt d b) = head b"
    "dtq_count (enqueue_data cnt d b) = Suc (dtq_count b)" "dtqmb (enqueue_data cnt d b) = (dtqmb b)(tail b := d)"
    using wrap_incr [OF t(2)] by (auto simp: enqueue_data_def Let_def)
  show "ring_wf cnt (enqueue_data cnt d b)" using s h c t by (simp add: ring_wf_def mod_simps)
  have "(head b + k) mod cnt \<noteq> tail b" if "k < dtq_count b" for k
    using ring_slot_neq [OF that c] t(1) by simp
  then show "ring_list cnt (enqueue_data cnt d b) = ring_list cnt b @ [d]"
    using t(1) by (simp add: ring_list_def s)
qed

lemma dequeue_data_ring:
  assumes w: "ring_wf cnt b" and c: "0 < dtq_count b" and eq: "dequeue_data cnt b = (d, b')"
  shows "ring_wf cnt b'" and "ring_list cnt b = d # ring_list cnt b'" and "dtq_count b' = dtq_count b - 1"
proof -
  have cn: "0 < cnt" "dtq_count b \<le> cnt" and t: "tail b = (head b + dtq_count b) mod cnt" and h: "head b < cnt"
    using w c by (auto simp: ring_wf_def split: if_splits)
  have s: "head b' = Suc (head b) mod cnt" "tail b' = tail b" "dtq_count b' = dtq_count b - 1" "dtqmb b' = dtqmb b"
    "d = dtqmb b (head b)"
    using wrap_incr [OF h] eq by (auto simp: dequeue_data_def Let_def)
  obtain n where n: "dtq_count b = Suc n" using c by (cases "dtq_count b") auto
  have "(Suc (head b) mod cnt + n) mod cnt = (head b + Suc n) mod cnt" by (simp add: mod_simps)
  then show "ring_wf cnt b'" using s t cn h n by (simp add: ring_wf_def)
  have "[0..<Suc n] = 0 # map Suc [0..<n]" by (simp add: map_Suc_upt upt_conv_Cons)
  then show "ring_list cnt b = d # ring_list cnt b'"
    using h n by (simp add: ring_list_def s comp_def mod_simps)
  show "dtq_count b' = dtq_count b - 1" by (rule s)
qed

lemma force_enqueue_data_ring:
  assumes w: "ring_wf cnt b" and c: "0 < cnt"
  shows "ring_wf cnt (force_enqueue_data cnt d b)"
    and "ring_list cnt (force_enqueue_data cnt d b) =
      (if dtq_count b < cnt then ring_list cnt b @ [d] else tl (ring_list cnt b) @ [d])"
proof -
  have "ring_wf cnt (force_enqueue_data cnt d b) \<and> ring_list cnt (force_enqueue_data cnt d b) =
      (if dtq_count b < cnt then ring_list cnt b @ [d] else tl (ring_list cnt b) @ [d])"
  proof (cases "dtq_count b < cnt")
    case True
    then have "force_enqueue_data cnt d b = enqueue_data cnt d b"
      by (simp add: force_enqueue_data_def enqueue_data_def Let_def)
    then show ?thesis using enqueue_data_ring [OF w True] True by simp
  next
    case False
    then have f: "dtq_count b = cnt" and h: "head b < cnt" "tail b = head b" using w c by (auto simp: ring_wf_def)
    obtain x b1 where d: "dequeue_data cnt b = (x, b1)" by fastforce
    have "force_enqueue_data cnt d b = enqueue_data cnt d b1"
      using d h f c wrap_incr [OF h(1)]
      by (auto simp: force_enqueue_data_def enqueue_data_def dequeue_data_def Let_def)
    moreover note D = dequeue_data_ring [OF w _ d]
    ultimately show ?thesis using enqueue_data_ring [of cnt b1 d] False f c by simp
  qed
  then show "ring_wf cnt (force_enqueue_data cnt d b)" "ring_list cnt (force_enqueue_data cnt d b) =
      (if dtq_count b < cnt then ring_list cnt b @ [d] else tl (ring_list cnt b) @ [d])" by blast+
qed

section \<open>Specification\<close>

text \<open>
  The abstract data queue: the buffered data, the waiting senders with their data, and the
  waiting receivers.  The data in the order in which receptions return them are
  \<open>adtq_pending\<close>.
\<close>

type_synonym adtq = "intptr abuf"

abbreviation adtq_send :: "nat \<Rightarrow> intptr \<Rightarrow> adtq \<Rightarrow> bool \<times> adtq" where
  "adtq_send \<equiv> abuf_send (\<lambda>d xs. xs @ [d])"

abbreviation adtq_recv :: "adtq \<Rightarrow> intptr option \<times> adtq" where
  "adtq_recv \<equiv> abuf_recv (\<lambda>d xs. xs @ [d])"

fun adtq_force :: "nat \<Rightarrow> intptr \<Rightarrow> adtq \<Rightarrow> adtq" where
  "adtq_force cap d (buf, ss, r # rs) = (buf, ss, rs)"
| "adtq_force cap d (buf, ss, []) =
     ((if length buf < cap then buf else tl buf) @ [d], ss, [])"

fun adtq_pending :: "adtq \<Rightarrow> intptr list" where
  "adtq_pending (buf, ss, rs) = buf @ map snd ss"

lemma adtq_recv_fifo:
  "adtq_recv a = (r, a') \<Longrightarrow>
   (case adtq_pending a of [] \<Rightarrow> r = None \<and> a' = a | d # ds \<Rightarrow> r = Some d \<and> adtq_pending a' = ds)"
  proof -
  obtain buf ss rs where a: "a = (buf, ss, rs)" by (cases a)
  show "adtq_recv a = (r, a') \<Longrightarrow>
   (case adtq_pending a of [] \<Rightarrow> r = None \<and> a' = a | d # ds \<Rightarrow> r = Some d \<and> adtq_pending a' = ds)"
    unfolding a by (cases buf; cases ss) auto
qed

definition sent_data :: "kstate \<Rightarrow> tskix \<Rightarrow> intptr" where
  "sent_data s t = dtq_data (winfo_obj (tcb_of s t))"

definition adtq :: "cfg \<Rightarrow> (qhdr \<Rightarrow> tskix list) \<Rightarrow> kstate \<Rightarrow> nat \<Rightarrow> adtq" where
  "adtq C Q s i = (ring_list (dtqcnt (dtqinib_table C i)) (dtq s i),
     map (\<lambda>t. (t, sent_data s t)) (Q (WAITQ (DTQ i))), Q (RWAITQ (DTQ i)))"

definition is_dtq :: "tcb \<Rightarrow> bool" where
  "is_dtq tc \<longleftrightarrow> (case winfo_obj tc of W_DTQ d \<Rightarrow> True | _ \<Rightarrow> False)"

definition dtq_inv :: "cfg \<Rightarrow> (qhdr \<Rightarrow> tskix list) \<Rightarrow> kstate \<Rightarrow> nat \<Rightarrow> bool" where
  "dtq_inv C Q s i \<longleftrightarrow> ring_wf (dtqcnt (dtqinib_table C i)) (dtq s i) \<and>
     (Q (WAITQ (DTQ i)) \<noteq> [] \<longrightarrow>
        dtq_count (dtq s i) = dtqcnt (dtqinib_table C i) \<and> Q (RWAITQ (DTQ i)) = []) \<and>
     (Q (RWAITQ (DTQ i)) \<noteq> [] \<longrightarrow> dtq_count (dtq s i) = 0) \<and>
     (\<forall>t \<in> set (Q (WAITQ (DTQ i))). is_dtq (tcb_of s t))"

definition dtq_frame :: "nat \<Rightarrow> (qhdr \<Rightarrow> tskix list) \<Rightarrow> kstate \<Rightarrow> (qhdr \<Rightarrow> tskix list) \<Rightarrow> kstate \<Rightarrow> bool" where
  "dtq_frame i Q s Q' s' \<longleftrightarrow> keeps {WAITQ (DTQ i), RWAITQ (DTQ i)} Q s Q' s' \<and>
     (\<forall>j. j \<noteq> i \<longrightarrow> dtq s' j = dtq s j) \<and>
     (objs s')\<lparr>dtqcb_of := dtqcb_of (objs s)\<rparr> = objs s"

lemma upd_dtq_sel [simp]:
  "tcb_of (upd_dtq i f s) = tcb_of s" "pcb_of (upd_dtq i f s) = pcb_of s" "kq (upd_dtq i f s) = kq s"
  "dtq (upd_dtq i f s) j = (if j = i then f (dtq s i) else dtq s j)"
  "(objs (upd_dtq i f s))\<lparr>dtqcb_of := x\<rparr> = (objs s)\<lparr>dtqcb_of := x\<rparr>"
  by (simp_all add: upd_dtq_def dtq_def)

lemma kinv_upd_dtq [simp]: "kinv C P Q (upd_dtq i f s) = kinv C P Q s"
  by (simp add: upd_dtq_def)

lemma dtq_frame_refl [simp]: "dtq_frame i Q s Q s"
  by (simp add: dtq_frame_def)

lemma dtq_frame_upd [simp]: "dtq_frame i Q s Q (upd_dtq i f s)"
  by (simp add: dtq_frame_def keeps_def)

lemma dtq_frame_objs:
  "keeps {WAITQ (DTQ i), RWAITQ (DTQ i)} Q s Q' s' \<Longrightarrow> objs s' = objs s \<Longrightarrow> dtq_frame i Q s Q' s'"
  by (simp add: dtq_frame_def dtq_def)

lemma dtq_frame_trans:
  assumes a: "dtq_frame i Q s Q1 s1" and b: "dtq_frame i Q1 s1 Q2 s2"
  shows "dtq_frame i Q s Q2 s2"
proof -
  have "objs s1 = (objs s2)\<lparr>dtqcb_of := dtqcb_of (objs s1)\<rparr>" using b by (simp add: dtq_frame_def)
  then have "(objs s2)\<lparr>dtqcb_of := dtqcb_of (objs s)\<rparr> = (objs s1)\<lparr>dtqcb_of := dtqcb_of (objs s)\<rparr>"
    by (rule ssubst) simp
  then show ?thesis using a b keeps_trans by (auto simp: dtq_frame_def)
qed

definition dtq_step :: "cfg \<Rightarrow> nat \<Rightarrow> (qhdr \<Rightarrow> tskix list) \<Rightarrow> kstate \<Rightarrow> adtq \<Rightarrow> kstate \<Rightarrow> bool" where
  "dtq_step C i Q s a s' \<longleftrightarrow>
     (\<exists>Q'. kinv C {} Q' s' \<and> dtq_frame i Q s Q' s' \<and> dtq_inv C Q' s' i \<and> adtq C Q' s' i = a)"

section \<open>The steps of the services\<close>

interpretation dq: buffer_queue DTQ TS_WAIT_SDTQ TS_WAIT_RDTQ dtq upd_dtq
  "\<lambda>C i. dtqcnt (dtqinib_table C i)" ring_wf dtq_count ring_list enqueue_data dequeue_data "\<lambda>d xs. xs @ [d]"
  W_DTQ dtq_data "\<lambda>w. case w of W_DTQ d \<Rightarrow> True | _ \<Rightarrow> False" dtq_inv adtq dtq_frame dtq_step
proof (unfold_locales, goal_cases)
  case (8 i f s)
  show ?case by simp
next
  case (11 i Q s Q' s' f)
  then show ?case by (auto simp: dtq_frame_def dtq_def upd_dtq_def)
next
  case (14 n b d)
  have "dtq_count (enqueue_data n d b) = Suc (dtq_count b)" by (simp add: enqueue_data_def Let_def)
  then show ?case using enqueue_data_ring [OF 14] by simp
next
  case (15 n b d b')
  then show ?case using dequeue_data_ring [OF 15] by simp
qed (auto simp: wait_status_def tstat_consts dtq_def upd_dtq_def ring_wf_def dtq_inv_def is_dtq_def adtq_def sent_data_def dtq_step_def)

lemma dtq_step_refl: "kinv C {} Q s \<Longrightarrow> dtq_inv C Q s i \<Longrightarrow> dtq_step C i Q s (adtq C Q s i) s"
  by (rule dq.step_refl)

lemma dtq_force_step:
  assumes K: "kinv C {} Q s" and I: "dtq_inv C Q s i" and R: "Q (RWAITQ (DTQ i)) = []"
    and c: "0 < dtqcnt (dtqinib_table C i)"
  defines "cap \<equiv> dtqcnt (dtqinib_table C i)"
  shows "dtq_step C i Q s (adtq_force cap data (adtq C Q s i)) (upd_dtq i (force_enqueue_data cap data) s)"
proof -
  let ?s = "upd_dtq i (force_enqueue_data cap data) s"
  have w: "ring_wf cap (dtq s i)" using I by (simp add: dtq_inv_def cap_def)
  note E = force_enqueue_data_ring [OF w c [folded cap_def], of data]
  have "dtq_count (force_enqueue_data cap data (dtq s i)) = length (ring_list cap (force_enqueue_data cap data (dtq s i)))"
    by simp
  also have "\<dots> = (if dtq_count (dtq s i) < cap then dtq_count (dtq s i) + 1 else dtq_count (dtq s i))"
    unfolding E(2) using c w by (auto simp: cap_def ring_wf_def)
  finally have n: "dtq_count (force_enqueue_data cap data (dtq s i)) =
    (if dtq_count (dtq s i) < cap then dtq_count (dtq s i) + 1 else dtq_count (dtq s i))" .
  have "is_dtq (tcb_of ?s t) = is_dtq (tcb_of s t)" for t by simp
  then have "dtq_inv C Q ?s i" using E(1) R I n by (auto simp: dtq_inv_def cap_def)
  moreover have "adtq C Q ?s i = adtq_force cap data (adtq C Q s i)"
    using E(2) R by (simp add: adtq_def cap_def sent_data_def)
  ultimately show ?thesis unfolding dtq_step_def using K by (intro exI [of _ Q]) simp
qed

section \<open>Every service refines the specification and keeps the invariants\<close>

lemma pass_first_step:
  assumes K: "kinv C {} Q s" and I: "dtq_inv C Q s i" and R: "Q (RWAITQ (DTQ i)) = t # ts"
  shows "dtq_step C i Q s (snd (adtq_send cap data (adtq C Q s i))) (t_pass_first me i data s)"
    and "dtq_step C i Q s (snd (adtq_send cap data (adtq C Q s i))) (i_pass_first me i data s)"
    and "fst (adtq_send cap data (adtq C Q s i))"
    and "snd (adtq_send cap data (adtq C Q s i)) = adtq_force cap data (adtq C Q s i)"
proof -
  note w = first_waiter_hd [OF K R]
  obtain b s1 where p: "dtq_pass t data s = (b, s1)" by fastforce
  obtain dr s2 where d: "t_request me (p_pcb (tcb_of s t)) b s1 = (dr, s2)" by fastforce
  note P = dq.passed [OF K I R p [unfolded dtq_pass_def Let_def]]
  show "dtq_step C i Q s (snd (adtq_send cap data (adtq C Q s i))) (t_pass_first me i data s)"
    using P(1) [OF d] by (simp add: t_pass_first_def w p d)
  show "dtq_step C i Q s (snd (adtq_send cap data (adtq C Q s i))) (i_pass_first me i data s)"
    using P(2) by (simp add: i_pass_first_def w p)
  show "fst (adtq_send cap data (adtq C Q s i))" by (rule P(3))
  show "snd (adtq_send cap data (adtq C Q s i)) = adtq_force cap data (adtq C Q s i)"
    using R by (simp add: adtq_def)
qed

lemma upd_dtq_upd: "upd_dtq i g (upd_dtq i f s) = upd_dtq i (\<lambda>b. g (f b)) s"
  by (simp add: upd_dtq_def)

lemma upd_dtq_id: "upd_dtq i (\<lambda>_. dtq s i) s = s"
  by (simp add: upd_dtq_def dtq_def)

lemma dtq_take_shift:
  assumes p: "dtq_take C i t s = (x, b, s1)"
  shows "\<exists>b1 b'. (if 0 < dtq_count (dtq s i)
        then dequeue_data (dtqcnt (dtqinib_table C i)) (dtq s i) = (x, b1) \<and>
          b' = enqueue_data (dtqcnt (dtqinib_table C i)) (sent_data s t) b1
        else x = sent_data s t \<and> b' = dtq s i) \<and>
      wait_complete t (on_kq (queue_delete (Ent t)) (upd_dtq i (\<lambda>_. b') s)) = (b, s1)"
proof -
  have c: "on_kq q (upd_dtq i f s) = upd_dtq i f (on_kq q s)" for q f
    by (simp add: on_kq_def upd_dtq_def)
  have d: "dtq (on_kq q s) = dtq s" for q by (simp add: on_kq_def dtq_def fun_eq_iff)
  show ?thesis
    using p upd_dtq_id [of i "on_kq (queue_delete (Ent t)) s"]
    by (cases "dequeue_data (dtqcnt (dtqinib_table C i)) (dtq s i)")
       (auto simp: dtq_take_def dtq_get_def Let_def c d upd_dtq_upd sent_data_def split: prod.splits if_splits)
qed

lemma take_first_step:
  assumes K: "kinv C {} Q s" and I: "dtq_inv C Q s i" and W: "Q (WAITQ (DTQ i)) = t # ts"
    and eq: "t_take_first C me i s = (x, s')"
  shows "dtq_step C i Q s (snd (adtq_recv (adtq C Q s i))) s'"
    and "fst (adtq_recv (adtq C Q s i)) = Some x"
proof -
  note w = first_waiter_hd [OF K W]
  obtain y b s1 where p: "dtq_take C i t s = (y, b, s1)" by (metis prod_cases3)
  obtain dr s2 where d: "t_request me (p_pcb (tcb_of s t)) b s1 = (dr, s2)" by fastforce
  obtain b1 b' where sh: "if 0 < dtq_count (dtq s i)
        then dequeue_data (dtqcnt (dtqinib_table C i)) (dtq s i) = (y, b1) \<and>
          b' = enqueue_data (dtqcnt (dtqinib_table C i)) (sent_data s t) b1
        else y = sent_data s t \<and> b' = dtq s i"
      "wait_complete t (on_kq (queue_delete (Ent t)) (upd_dtq i (\<lambda>_. b') s)) = (b, s1)"
    using dtq_take_shift [OF p] by blast
  have "x = y" "s' = t_dispatch_if me dr s2" using eq by (simp_all add: t_take_first_def w p d)
  then show "dtq_step C i Q s (snd (adtq_recv (adtq C Q s i))) s'"
    "fst (adtq_recv (adtq C Q s i)) = Some x"
    using dq.taken [OF K I W sh(1) [unfolded sent_data_def] sh(2) d] by auto
qed

lemma dtq_get_step:
  assumes K: "kinv C {} Q s" and I: "dtq_inv C Q s i" and W: "Q (WAITQ (DTQ i)) = []"
    and c: "0 < dtq_count (dtq s i)" and eq: "dtq_get C i s = (x, s')"
  shows "dtq_step C i Q s (snd (adtq_recv (adtq C Q s i))) s'"
    and "fst (adtq_recv (adtq C Q s i)) = Some x"
proof -
  obtain y b' where d: "dequeue_data (dtqcnt (dtqinib_table C i)) (dtq s i) = (y, b')" by fastforce
  then have "x = y" "s' = upd_dtq i (\<lambda>_. b') s" using eq by (auto simp: dtq_get_def)
  then show "dtq_step C i Q s (snd (adtq_recv (adtq C Q s i))) s'" "fst (adtq_recv (adtq C Q s i)) = Some x"
    using dq.got [OF K I W c d] by auto
qed

text \<open>
  A send accepts the datum as \<open>adtq_send\<close> does, or blocks its task behind the senders (in the
  order \<open>wait_insert\<close> of the queue) when \<open>adtq_send\<close> refuses it.
\<close>

definition dtq_blocked :: "cfg \<Rightarrow> nat \<Rightarrow> (qhdr \<Rightarrow> tskix list) \<Rightarrow> kstate \<Rightarrow> tskix \<Rightarrow> intptr \<Rightarrow> adtq" where
  "dtq_blocked C i Q s t data =
     (ring_list (dtqcnt (dtqinib_table C i)) (dtq s i),
      map (\<lambda>u. (u, if u = t then data else sent_data s u))
        (wait_insert C (\<lambda>u. priority (tcb_of s u)) (DTQ i) t (Q (WAITQ (DTQ i)))), [])"

lemma snd_dtq_refines:
  assumes K: "kinv C {} Q s" and I: "dtq_inv C Q s (INDEX_OBJ dtqid)" and c: "sense_tskctx_unl me s"
    and v: "VALID_DTQID C dtqid" and dsp: "dspflg (pcb_of s me)"
    and run: "TSTAT_RUNNABLE (tstat (tcb_of s (runtsk me s)))"
    and eq: "snd_dtq C me dtqid data s = (r, s')"
  defines "i \<equiv> INDEX_OBJ dtqid"
  defines "a \<equiv> adtq_send (dtqcnt (dtqinib_table C i)) data (adtq C Q s i)"
  shows "if fst a then r = Ret E_OK \<and> dtq_step C i Q s (snd a) s'
    else r = Blocks (runtsk me s) \<and> dtq_step C i Q s (dtq_blocked C i Q s (runtsk me s) data) s'"
proof (cases "Q (RWAITQ (DTQ i))")
  case (Cons t ts)
  then have "r = Ret E_OK" "s' = t_pass_first me i data s"
    using eq c v dsp kinvD(4) [OF K] by (auto simp: snd_dtq_def Let_def i_def)
  then show ?thesis
    using pass_first_step(1,3) [OF K I [folded i_def] Cons] by (simp add: a_def)
next
  case Nil
  note R = Nil
  show ?thesis
  proof (cases "dtq_full C i s")
    case False
    then have "r = Ret E_OK" "s' = upd_dtq i (enqueue_data (dtqcnt (dtqinib_table C i)) data) s"
      using eq c v dsp kinvD(4) [OF K] R by (auto simp: snd_dtq_def Let_def i_def)
    then show ?thesis using dq.enqueued [OF K I [folded i_def] R] False [unfolded dtq_full_def] by (simp add: a_def)
  next
    case True
    let ?t = "runtsk me s"
    have r: "r = Blocks ?t" "s' = dispatch me (wobj_make_wait C (DTQ i) ?t
        (upd_tcb ?t (enter_wait TS_WAIT_SDTQ (W_DTQ data)) s))"
      using eq c v dsp run kinvD(4) [OF K] R True
      by (auto simp: snd_dtq_def Let_def i_def enter_wait_winfo)
    note B = dq.send_blocks [OF K I [folded i_def] runtsk_may_block [OF K c run] R True [unfolded dtq_full_def] disjI1 [OF refl] refl, of data]
    show ?thesis using B r unfolding a_def dtq_blocked_def sent_data_def by simp
  qed
qed

lemma rcv_dtq_refines:
  assumes K: "kinv C {} Q s" and I: "dtq_inv C Q s (INDEX_OBJ dtqid)" and c: "sense_tskctx_unl me s"
    and v: "VALID_DTQID C dtqid" and dsp: "dspflg (pcb_of s me)"
    and run: "TSTAT_RUNNABLE (tstat (tcb_of s (runtsk me s)))"
    and eq: "rcv_dtq C me dtqid s = (r, s')"
  defines "i \<equiv> INDEX_OBJ dtqid"
  shows "case adtq_recv (adtq C Q s i) of
      (Some d, a) \<Rightarrow> r = Ret (E_OK, Some d) \<and> dtq_step C i Q s a s'
    | (None, _) \<Rightarrow> r = Blocks (runtsk me s) \<and>
        dtq_step C i Q s ([], [], Q (RWAITQ (DTQ i)) @ [runtsk me s]) s'"
proof (cases "Q (WAITQ (DTQ i))")
  case (Cons t ts)
  obtain x s1 where p: "t_take_first C me i s = (x, s1)" by fastforce
  then have "r = Ret (E_OK, Some x)" "s' = s1"
    using eq c v dsp kinvD(4) [OF K] Cons by (auto simp: rcv_dtq_def Let_def i_def)
  then show ?thesis
    using take_first_step [OF K I [folded i_def] Cons p] by (auto split: prod.split)
next
  case Nil
  note W = Nil
  show ?thesis
  proof (cases "0 < dtq_count (dtq s i)")
    case True
    obtain x s1 where p: "dtq_get C i s = (x, s1)" by fastforce
    then have "r = Ret (E_OK, Some x)" "s' = s1"
      using eq c v dsp kinvD(4) [OF K] W True by (auto simp: rcv_dtq_def Let_def i_def)
    then show ?thesis
      using dtq_get_step [OF K I [folded i_def] W True p] by (auto split: prod.split)
  next
    case False
    let ?t = "runtsk me s"
    have r: "r = Blocks ?t" "s' = dispatch me (set_wobjcb ?t (DTQ i)
        (on_kq (queue_insert_prev (Hdr (RWAITQ (DTQ i))) (Ent ?t))
          (make_wait ?t (upd_tcb ?t (enter_wait TS_WAIT_RDTQ (winfo_obj (tcb_of s ?t))) s))))"
      using eq c v dsp run kinvD(4) [OF K] W False
      by (auto simp: rcv_dtq_def Let_def i_def set_tstat_enter_wait)
    have z: "dtq_count (dtq s i) = 0" using False by simp
    note B = dq.recv_blocks [OF K I [folded i_def] runtsk_may_block [OF K c run] W z disjI1 [OF refl] refl]
    show ?thesis using B r by simp
  qed
qed

text \<open>\<open>dtq_keep\<close>: a step that keeps the invariants, with whatever abstract effect.\<close>

definition dtq_keep :: "cfg \<Rightarrow> nat \<Rightarrow> (qhdr \<Rightarrow> tskix list) \<Rightarrow> kstate \<Rightarrow> kstate \<Rightarrow> bool" where
  "dtq_keep C i Q s s' \<longleftrightarrow> (\<exists>a. dtq_step C i Q s a s')"

lemma dtq_keepI: "dtq_step C i Q s a s' \<Longrightarrow> dtq_keep C i Q s s'"
  unfolding dtq_keep_def by (rule exI)

lemma dtq_send_keep:
  assumes K: "kinv C {} Q s" and I: "dtq_inv C Q s i"
  shows "dtq_keep C i Q s s"
    and "\<not> queue_empty (Hdr (RWAITQ (DTQ i))) (kq s) \<Longrightarrow> dtq_keep C i Q s (t_pass_first me i data s)"
    and "\<not> queue_empty (Hdr (RWAITQ (DTQ i))) (kq s) \<Longrightarrow> dtq_keep C i Q s (i_pass_first me i data s)"
    and "queue_empty (Hdr (RWAITQ (DTQ i))) (kq s) \<Longrightarrow> \<not> dtq_full C i s \<Longrightarrow>
      dtq_keep C i Q s (upd_dtq i (enqueue_data (dtqcnt (dtqinib_table C i)) data) s)"
    and "queue_empty (Hdr (RWAITQ (DTQ i))) (kq s) \<Longrightarrow> 0 < dtqcnt (dtqinib_table C i) \<Longrightarrow>
      dtq_keep C i Q s (upd_dtq i (force_enqueue_data (dtqcnt (dtqinib_table C i)) data) s)"
    and "queue_empty (Hdr (RWAITQ (DTQ i))) (kq s) \<Longrightarrow> dtq_full C i s \<Longrightarrow> sense_tskctx_unl me s \<Longrightarrow>
      TSTAT_RUNNABLE (tstat (tcb_of s (runtsk me s))) \<Longrightarrow>
      s1 = wobj_make_wait C (DTQ i) (runtsk me s) (upd_tcb (runtsk me s) (enter_wait TS_WAIT_SDTQ (W_DTQ data)) s) \<or>
      s1 = wobj_make_wait_tmout C (DTQ i) tmout (runtsk me s) (upd_tcb (runtsk me s) (enter_wait TS_WAIT_SDTQ (W_DTQ data)) s) \<Longrightarrow>
      dtq_keep C i Q s (dispatch me s1)"
proof -
  note R = kinvD(4) [OF K]
  show "dtq_keep C i Q s s" by (rule dtq_keepI [OF dtq_step_refl [OF K I]])
  show "dtq_keep C i Q s (t_pass_first me i data s)" "dtq_keep C i Q s (i_pass_first me i data s)"
    if ne: "\<not> queue_empty (Hdr (RWAITQ (DTQ i))) (kq s)"
  proof -
    obtain t ts where "Q (RWAITQ (DTQ i)) = t # ts" using ne unfolding qrep_queue_empty [OF R] neq_Nil_conv by blast
    note P = pass_first_step(1,2) [OF K I this]
    show "dtq_keep C i Q s (t_pass_first me i data s)" by (rule dtq_keepI [OF P(1)])
    show "dtq_keep C i Q s (i_pass_first me i data s)" by (rule dtq_keepI [OF P(2)])
  qed
  assume "queue_empty (Hdr (RWAITQ (DTQ i))) (kq s)"
  then have e: "Q (RWAITQ (DTQ i)) = []" using R by simp
  show "dtq_keep C i Q s (upd_dtq i (enqueue_data (dtqcnt (dtqinib_table C i)) data) s)" if "\<not> dtq_full C i s"
    using dq.enqueued(1) [OF K I e] that by (intro dtq_keepI) (simp add: dtq_full_def)
  show "dtq_keep C i Q s (upd_dtq i (force_enqueue_data (dtqcnt (dtqinib_table C i)) data) s)"
    if "0 < dtqcnt (dtqinib_table C i)"
    using dtq_force_step [OF K I e that] by (rule dtq_keepI)
  show "dtq_keep C i Q s (dispatch me s1)" if "dtq_full C i s" "sense_tskctx_unl me s"
      "TSTAT_RUNNABLE (tstat (tcb_of s (runtsk me s)))"
      "s1 = wobj_make_wait C (DTQ i) (runtsk me s) (upd_tcb (runtsk me s) (enter_wait TS_WAIT_SDTQ (W_DTQ data)) s) \<or>
      s1 = wobj_make_wait_tmout C (DTQ i) tmout (runtsk me s) (upd_tcb (runtsk me s) (enter_wait TS_WAIT_SDTQ (W_DTQ data)) s)"
    by (rule dtq_keepI [OF dq.send_blocks(1) [OF K I runtsk_may_block [OF K that(2,3)] e that(1) [unfolded dtq_full_def] that(4) refl]])
qed

lemma dtq_recv_keep:
  assumes K: "kinv C {} Q s" and I: "dtq_inv C Q s i"
  shows "\<not> queue_empty (Hdr (WAITQ (DTQ i))) (kq s) \<Longrightarrow> dtq_keep C i Q s (snd (t_take_first C me i s))"
    and "queue_empty (Hdr (WAITQ (DTQ i))) (kq s) \<Longrightarrow> 0 < dtq_count (dtq s i) \<Longrightarrow>
      dtq_keep C i Q s (snd (dtq_get C i s))"
    and "queue_empty (Hdr (WAITQ (DTQ i))) (kq s) \<Longrightarrow> dtq_count (dtq s i) = 0 \<Longrightarrow> sense_tskctx_unl me s \<Longrightarrow>
      TSTAT_RUNNABLE (tstat (tcb_of s (runtsk me s))) \<Longrightarrow>
      s2 = make_wait (runtsk me s) (upd_tcb (runtsk me s) (enter_wait TS_WAIT_RDTQ (winfo_obj (tcb_of s (runtsk me s)))) s) \<or>
      s2 = make_wait_tmout tmout me (upd_tcb (runtsk me s) (enter_wait TS_WAIT_RDTQ (winfo_obj (tcb_of s (runtsk me s)))) s) \<Longrightarrow>
      dtq_keep C i Q s (dispatch me (set_wobjcb (runtsk me s) (DTQ i)
        (on_kq (queue_insert_prev (Hdr (RWAITQ (DTQ i))) (Ent (runtsk me s))) s2)))"
proof -
  note R = kinvD(4) [OF K]
  show "dtq_keep C i Q s (snd (t_take_first C me i s))" if ne: "\<not> queue_empty (Hdr (WAITQ (DTQ i))) (kq s)"
  proof -
    obtain t ts where W: "Q (WAITQ (DTQ i)) = t # ts" using ne unfolding qrep_queue_empty [OF R] neq_Nil_conv by blast
    show ?thesis using take_first_step(1) [OF K I W surjective_pairing] by (rule dtq_keepI)
  qed
  assume "queue_empty (Hdr (WAITQ (DTQ i))) (kq s)"
  then have e: "Q (WAITQ (DTQ i)) = []" using R by simp
  show "dtq_keep C i Q s (snd (dtq_get C i s))" if "0 < dtq_count (dtq s i)"
    using dtq_get_step(1) [OF K I e that surjective_pairing] by (rule dtq_keepI)
  show "dtq_keep C i Q s (dispatch me (set_wobjcb (runtsk me s) (DTQ i)
        (on_kq (queue_insert_prev (Hdr (RWAITQ (DTQ i))) (Ent (runtsk me s))) s2)))"
    if "dtq_count (dtq s i) = 0" "sense_tskctx_unl me s" "TSTAT_RUNNABLE (tstat (tcb_of s (runtsk me s)))"
      "s2 = make_wait (runtsk me s) (upd_tcb (runtsk me s) (enter_wait TS_WAIT_RDTQ (winfo_obj (tcb_of s (runtsk me s)))) s) \<or>
      s2 = make_wait_tmout tmout me (upd_tcb (runtsk me s) (enter_wait TS_WAIT_RDTQ (winfo_obj (tcb_of s (runtsk me s)))) s)"
    using dq.recv_blocks(1) [OF K I runtsk_may_block [OF K that(2,3)] e that(1,4) refl] by (rule dtq_keepI)
qed

lemma dtq_services_keep:
  assumes K: "kinv C {} Q s" and I: "dtq_inv C Q s (INDEX_OBJ dtqid)"
  shows "dtq_keep C (INDEX_OBJ dtqid) Q s (snd (snd_dtq C me dtqid data s))"
    and "dtq_keep C (INDEX_OBJ dtqid) Q s (snd (psnd_dtq C me dtqid data s))"
    and "dtq_keep C (INDEX_OBJ dtqid) Q s (snd (ipsnd_dtq C me dtqid data s))"
    and "dtq_keep C (INDEX_OBJ dtqid) Q s (snd (tsnd_dtq C me dtqid data tmout s))"
    and "dtq_keep C (INDEX_OBJ dtqid) Q s (snd (fsnd_dtq C me dtqid data s))"
    and "dtq_keep C (INDEX_OBJ dtqid) Q s (snd (ifsnd_dtq C me dtqid data s))"
    and "dtq_keep C (INDEX_OBJ dtqid) Q s (snd (rcv_dtq C me dtqid s))"
    and "dtq_keep C (INDEX_OBJ dtqid) Q s (snd (prcv_dtq C me dtqid s))"
    and "dtq_keep C (INDEX_OBJ dtqid) Q s (snd (trcv_dtq C me dtqid tmout s))"
  using dtq_send_keep(1-5) [OF K I] dtq_recv_keep(1,2) [OF K I]
    dtq_send_keep(6) [OF K I _ _ _ _ disjI1 [OF refl], where data = data]
    dtq_send_keep(6) [OF K I _ _ _ _ disjI2 [OF refl], where data = data and tmout = tmout]
    dtq_recv_keep(3) [OF K I _ _ _ _ disjI1 [OF refl]]
    dtq_recv_keep(3) [OF K I _ _ _ _ disjI2 [OF refl], where tmout = tmout]
  by (simp_all add: snd_dtq_def psnd_dtq_def ipsnd_dtq_def tsnd_dtq_def fsnd_dtq_def ifsnd_dtq_def
      rcv_dtq_def prcv_dtq_def trcv_dtq_def Let_def set_tstat_enter_wait enter_wait_absorb split_beta)

lemma ini_dtq_keep:
  assumes K: "kinv C {} Q s" and I: "dtq_inv C Q s (INDEX_OBJ dtqid)"
  shows "dtq_keep C (INDEX_OBJ dtqid) Q s (snd (ini_dtq C me dtqid s))"
proof (cases "sense_tskctx_unl me s \<and> VALID_DTQID C dtqid")
  case True
  let ?i = "INDEX_OBJ dtqid"
  let ?W = "WAITQ (DTQ ?i)" and ?R = "RWAITQ (DTQ ?i)"
  obtain d1 s1 where w1: "init_wait_queue me (Hdr ?W) s = (d1, s1)" by fastforce
  obtain d2 s2 where w2: "init_wait_queue me (Hdr ?R) s1 = (d2, s2)" by fastforce
  let ?u = "upd_dtq ?i dtq_reset s2"
  let ?s = "t_dispatch_if me (if d2 then True else d1) ?u"
  have r: "snd (ini_dtq C me dtqid s) = ?s"
    using w1 w2 True by (simp add: ini_dtq_def Let_def)
  obtain Q1 where Q1: "kinv C (if d1 then insert me {} else {}) Q1 s1" "Q1 ?W = []" "same_waits ?W Q Q1"
    "objs s1 = objs s" "tcb_of s1 = all_ended E_DLT (Q ?W) (tcb_of s)"
    using init_wait_queue_kinv [OF K _ w1] by auto
  obtain Q2 where Q2: "kinv C (if d2 then insert me (if d1 then insert me {} else {}) else (if d1 then insert me {} else {})) Q2 s2"
    "Q2 ?R = []" "same_waits ?R Q1 Q2" "objs s2 = objs s1" "tcb_of s2 = all_ended E_DLT (Q1 ?R) (tcb_of s1)"
    using init_wait_queue_kinv [OF Q1(1) _ w2] by auto
  have "kinv C (if (if d2 then True else d1) then insert me {} else {}) Q2 ?u"
    using Q2(1) by (auto split: if_splits)
  then have K': "kinv C {} Q2 ?s" by (rule t_dispatch_if_kinv)
  have W2: "Q2 ?W = []" using Q2(3) Q1(2) by (simp add: same_waits_def)
  have k2: "keeps {?W, ?R} Q s Q2 s2"
    by (rule keeps_trans [OF keeps_init [OF Q1(3,2,5)] keeps_init [OF Q2(3,2,5)]])
  have tc2: "tcb_of ?s = tcb_of s2" by simp
  have "keeps {?W, ?R} Q s Q2 ?s" unfolding keeps_same_tcb [OF tc2] by (rule k2)
  then have "dtq_frame ?i Q s Q2 ?s"
    unfolding dtq_frame_def by (intro conjI) (use Q1(4) Q2(4) in \<open>simp_all add: dtq_def upd_dtq_def\<close>)
  moreover have "dtq ?s ?i = dtq_reset (dtq s ?i)" using Q1(4) Q2(4) by (simp add: dtq_def upd_dtq_def)
  then have "dtq_inv C Q2 ?s ?i" using W2 Q2(2) by (simp add: dtq_inv_def)
  ultimately have "dtq_step C ?i Q s (adtq C Q2 ?s ?i) ?s" using K' unfolding dtq_step_def by blast
  then show ?thesis unfolding r by (rule dtq_keepI)
qed (use dtq_send_keep(1) [OF K I] in \<open>auto simp: ini_dtq_def\<close>)

text \<open>A step that touches no data queue and adds no waiter keeps the invariant of each.\<close>

lemma dtq_inv_keeps:
  assumes I: "dtq_inv C Q s i" and k: "keeps H Q s Q' s'"
    and h: "WAITQ (DTQ i) \<notin> H" "RWAITQ (DTQ i) \<notin> H"
    and o: "dtqcb_of (objs s') i = dtqcb_of (objs s) i"
  shows "dtq_inv C Q' s' i"
  by (rule dq.inv_keeps [OF I k h]) (simp add: dtq_def o)

end
