(* ===== verification/Mailbox.thy ===== *)
theory Mailbox
  imports Wait_Inv
begin

text \<open>
  Mailboxes (\<open>kernel/mailbox.c\<close>).  The messages are the application's: a mailbox links them
  through their \<open>pk_next\<close>.  \<open>mbx_inv\<close> says that the list from \<open>pk_head\<close> is the mailbox's
  queue of messages, in the order of priority with \<open>TA_MPRI\<close>, and that no task waits while a
  message is queued.

  \<open>snd_mbx\<close> takes the receiver out of the wait queue before it has the receiver's task lock.
  Its last argument says whether that lock is acquired; when it is not, the call starts over
  (\<open>Again\<close>) with the wait queue already changed.
\<close>

section \<open>Services\<close>

definition mbx :: "kstate \<Rightarrow> nat \<Rightarrow> mbxcb" where "mbx s i = mbxcb_of (objs s) i"

definition upd_mbx :: "nat \<Rightarrow> (mbxcb \<Rightarrow> mbxcb) \<Rightarrow> kstate \<Rightarrow> kstate" where
  "upd_mbx i f s =
     s\<lparr>objs := (objs s)\<lparr>mbxcb_of := (mbxcb_of (objs s))(i := f (mbxcb_of (objs s) i))\<rparr>\<rparr>"

definition upd_msg :: "nat \<Rightarrow> (msg \<Rightarrow> msg) \<Rightarrow> kstate \<Rightarrow> kstate" where
  "upd_msg m f s = s\<lparr>objs := (objs s)\<lparr>msg_of := (msg_of (objs s))(m := f (msg_of (objs s) m))\<rparr>\<rparr>"

definition MSGPRI :: "kstate \<Rightarrow> nat \<Rightarrow> pri" where "MSGPRI s m = msgpri (msg_of (objs s) m)"

definition tnum_mbx :: "cfg \<Rightarrow> nat" where "tnum_mbx C = uint_cast (tmax_mbxid C)"

fun init_mbxs :: "cfg \<Rightarrow> nat \<Rightarrow> kstate \<Rightarrow> kstate" where
  "init_mbxs C 0 s = s"
| "init_mbxs C (Suc i) s =
     (let s = init_mbxs C i s;
          s = on_kq (queue_initialize (Hdr (WAITQ (MBX i)))) s
      in upd_mbx i (\<lambda>b. b\<lparr>pk_head := None\<rparr>) s)"

definition initialize_mailbox :: "cfg \<Rightarrow> bool \<Rightarrow> kstate \<Rightarrow> kstate" where
  "initialize_mailbox C x_sense_mprc s =
     (if x_sense_mprc then init_mbxs C (tnum_mbx C) s else s)"

text \<open>
  The loop of \<open>enqueue_msg_pri\<close>: \<open>prev\<close> is the message whose \<open>pk_next\<close> the C pointer
  \<open>ppk_prevmsg_next\<close> points to, \<open>None\<close> for \<open>pk_head\<close>.  On a damaged (cyclic) list it may not
  end.
\<close>

partial_function (option) msg_scan ::
  "(nat \<Rightarrow> msg) \<Rightarrow> pri \<Rightarrow> nat option \<Rightarrow> nat option \<Rightarrow> (nat option \<times> nat option) option" where
  "msg_scan ms pri prev nxt =
     (if nxt = None then Some (prev, None)
      else if pri < msgpri (ms (the nxt)) then Some (prev, nxt)
      else msg_scan ms pri nxt (pk_next (ms (the nxt))))"

definition enqueue_msg_pri :: "nat \<Rightarrow> nat \<Rightarrow> kstate \<Rightarrow> kstate" where
  "enqueue_msg_pri i m s =
     (let (prev, nxt) = the (msg_scan (msg_of (objs s)) (MSGPRI s m) None (pk_head (mbx s i)));
          s = upd_msg m (\<lambda>x. x\<lparr>pk_next := nxt\<rparr>) s
      in case prev of
           None \<Rightarrow> upd_mbx i (\<lambda>b. b\<lparr>pk_head := Some m\<rparr>) s
         | Some p \<Rightarrow> upd_msg p (\<lambda>x. x\<lparr>pk_next := Some m\<rparr>) s)"

text \<open>The message queue in the order of arrival, at the end of \<open>snd_mbx\<close>.\<close>

definition enqueue_msg_fifo :: "nat \<Rightarrow> nat \<Rightarrow> kstate \<Rightarrow> kstate" where
  "enqueue_msg_fifo i m s =
     (let s = upd_msg m (\<lambda>x. x\<lparr>pk_next := None\<rparr>) s;
          s = (if pk_head (mbx s i) \<noteq> None
               then upd_msg (the (pk_last (mbx s i))) (\<lambda>x. x\<lparr>pk_next := Some m\<rparr>) s
               else upd_mbx i (\<lambda>b. b\<lparr>pk_head := Some m\<rparr>) s)
      in upd_mbx i (\<lambda>b. b\<lparr>pk_last := Some m\<rparr>) s)"

definition msg_par :: "cfg \<Rightarrow> nat \<Rightarrow> nat \<Rightarrow> kstate \<Rightarrow> bool" where
  "msg_par C i m s \<longleftrightarrow> wobjatr C (MBX i) AND TA_MPRI = 0 \<or>
     (TMIN_MPRI \<le> MSGPRI s m \<and> MSGPRI s m \<le> maxmpri (mbxinib_table C i))"

definition snd_mbx :: "cfg \<Rightarrow> prcix \<Rightarrow> ident \<Rightarrow> nat \<Rightarrow> bool \<Rightarrow> kstate \<Rightarrow> ercd svc \<times> kstate" where
  "snd_mbx C me mbxid m acquired s =
     (if \<not> sense_tskctx_unl me s then (Ret E_CTX, s)
      else if \<not> VALID_MBXID C mbxid then (Ret E_ID, s)
      else let i = INDEX_OBJ mbxid; q = Hdr (WAITQ (MBX i)) in
        if \<not> msg_par C i m s then (Ret E_PAR, s)
        else if \<not> queue_empty q (kq s) then
          (let (e, st) = queue_delete_next q (kq s);
               t = the (tcb_at e);
               s = on_kq (\<lambda>_. st) s
           in if \<not> acquired then (Again, s)
              else
                (let p = p_pcb (tcb_of s t);
                     s = upd_tcb t (\<lambda>b. b\<lparr>winfo_obj := W_MBX (Some m)\<rparr>) s;
                     (b, s) = wait_complete t s;
                     (dspreq, s) = t_request me p b s
                 in (Ret E_OK, t_dispatch_if me dspreq s)))
        else if wobjatr C (MBX i) AND TA_MPRI \<noteq> 0 then (Ret E_OK, enqueue_msg_pri i m s)
        else (Ret E_OK, enqueue_msg_fifo i m s))"

definition mbx_take :: "nat \<Rightarrow> kstate \<Rightarrow> nat option \<times> kstate" where
  "mbx_take i s =
     (let m = pk_head (mbx s i)
      in (m, upd_mbx i (\<lambda>b. b\<lparr>pk_head := pk_next (msg_of (objs s) (the m))\<rparr>) s))"

text \<open>A task that blocks finds the message in its \<open>winfo_obj\<close>.\<close>

definition rcv_mbx :: "cfg \<Rightarrow> prcix \<Rightarrow> ident \<Rightarrow> kstate \<Rightarrow> (ercd \<times> nat option) svc \<times> kstate" where
  "rcv_mbx C me mbxid s =
     (if \<not> sense_tskctx_unl me s then (Ret (E_CTX, None), s)
      else if \<not> VALID_MBXID C mbxid then (Ret (E_ID, None), s)
      else let i = INDEX_OBJ mbxid in
        if \<not> dspflg (pcb_of s me) then (Ret (E_CTX, None), s)
        else if pk_head (mbx s i) \<noteq> None then
          (let (m, s) = mbx_take i s in (Ret (E_OK, m), s))
        else if \<not> TSTAT_RUNNABLE (tstat (tcb_of s (runtsk me s))) then (Again, s)
        else
          (let t = runtsk me s;
               s = set_tstat t (TS_WAITING OR TS_WAIT_MBX) s;
               s = wobj_make_wait C (MBX i) t s
           in (Blocks t, dispatch me s)))"

definition prcv_mbx :: "cfg \<Rightarrow> prcix \<Rightarrow> ident \<Rightarrow> kstate \<Rightarrow> (ercd \<times> nat option) svc \<times> kstate" where
  "prcv_mbx C me mbxid s =
     (if \<not> sense_tskctx_unl me s then (Ret (E_CTX, None), s)
      else if \<not> VALID_MBXID C mbxid then (Ret (E_ID, None), s)
      else let i = INDEX_OBJ mbxid in
        if pk_head (mbx s i) \<noteq> None then
          (let (m, s) = mbx_take i s in (Ret (E_OK, m), s))
        else (Ret (E_TMOUT, None), s))"

definition trcv_mbx ::
  "cfg \<Rightarrow> prcix \<Rightarrow> ident \<Rightarrow> tmo \<Rightarrow> kstate \<Rightarrow> (ercd \<times> nat option) svc \<times> kstate" where
  "trcv_mbx C me mbxid tmout s =
     (if \<not> sense_tskctx_unl me s then (Ret (E_CTX, None), s)
      else if \<not> VALID_MBXID C mbxid then (Ret (E_ID, None), s)
      else if \<not> VALID_TMOUT tmout then (Ret (E_PAR, None), s)
      else let i = INDEX_OBJ mbxid in
        if \<not> dspflg (pcb_of s me) then (Ret (E_CTX, None), s)
        else if pk_head (mbx s i) \<noteq> None then
          (let (m, s) = mbx_take i s in (Ret (E_OK, m), s))
        else if tmout = TMO_POL then (Ret (E_TMOUT, None), s)
        else if \<not> TSTAT_RUNNABLE (tstat (tcb_of s (runtsk me s))) then (Again, s)
        else
          (let t = runtsk me s;
               s = set_tstat t (TS_WAITING OR TS_WAIT_MBX) s;
               s = wobj_make_wait_tmout C (MBX i) tmout t s
           in (Blocks t, dispatch me s)))"

definition ini_mbx :: "cfg \<Rightarrow> prcix \<Rightarrow> ident \<Rightarrow> kstate \<Rightarrow> ercd svc \<times> kstate" where
  "ini_mbx C me mbxid s =
     (if \<not> sense_tskctx_unl me s then (Ret E_CTX, s)
      else if \<not> VALID_MBXID C mbxid then (Ret E_ID, s)
      else let i = INDEX_OBJ mbxid;
               (dspreq, s) = init_wait_queue me (Hdr (WAITQ (MBX i))) s;
               s = upd_mbx i (\<lambda>b. b\<lparr>pk_head := None\<rparr>) s
           in (Ret E_OK, t_dispatch_if me dspreq s))"

record t_rmbx = rmbx_wtskid :: ident  rmbx_pk_msg :: "nat option"

definition ref_mbx :: "cfg \<Rightarrow> prcix \<Rightarrow> ident \<Rightarrow> kstate \<Rightarrow> (ercd \<times> t_rmbx option) \<times> kstate" where
  "ref_mbx C me mbxid s =
     (if \<not> sense_tskctx_unl me s then ((E_CTX, None), s)
      else if \<not> VALID_MBXID C mbxid then ((E_ID, None), s)
      else let i = INDEX_OBJ mbxid in
        ((E_OK, Some \<lparr>rmbx_wtskid = wait_tskid (Hdr (WAITQ (MBX i))) s,
           rmbx_pk_msg = pk_head (mbx s i)\<rparr>), s))"

section \<open>The message queue as a list\<close>

text \<open>\<open>mseg ms a xs b\<close>: following \<open>pk_next\<close> from \<open>a\<close> one meets the messages \<open>xs\<close> and then \<open>b\<close>.\<close>

fun mseg :: "(nat \<Rightarrow> msg) \<Rightarrow> nat option \<Rightarrow> nat list \<Rightarrow> nat option \<Rightarrow> bool" where
  "mseg ms a [] b \<longleftrightarrow> a = b"
| "mseg ms a (x # xs) b \<longleftrightarrow> a = Some x \<and> mseg ms (pk_next (ms x)) xs b"

definition mhead :: "nat list \<Rightarrow> nat option" where
  "mhead xs = (case xs of [] \<Rightarrow> None | x # _ \<Rightarrow> Some x)"

lemma mseg_append: "mseg ms a (xs @ ys) c \<longleftrightarrow> (\<exists>b. mseg ms a xs b \<and> mseg ms b ys c)"
  by (induction xs arbitrary: a) auto

lemma mseg_cong:
  "(\<And>x. x \<in> set xs \<Longrightarrow> pk_next (ms' x) = pk_next (ms x)) \<Longrightarrow> mseg ms' a xs b = mseg ms a xs b"
  by (induction xs arbitrary: a) auto

lemma mseg_upd [simp]: "x \<notin> set xs \<Longrightarrow> mseg (ms(x := v)) a xs b = mseg ms a xs b"
  by (rule mseg_cong) auto

lemma mseg_start: "mseg ms a xs None \<Longrightarrow> a = mhead xs"
  by (cases xs) (auto simp: mhead_def)

lemma mseg_retarget:
  "mseg ms a xs b \<Longrightarrow> xs \<noteq> [] \<Longrightarrow> distinct xs \<Longrightarrow>
   mseg (ms(last xs := (ms (last xs))\<lparr>pk_next := c\<rparr>)) a xs c"
proof (induction xs arbitrary: a)
  case (Cons x xs)
  show ?case
  proof (cases "xs = []")
    case False
    then have "last xs \<noteq> x" using Cons.prems(3) last_in_set [of xs] by auto
    then show ?thesis using Cons False by simp
  qed (use Cons in simp)
qed simp

lemma msg_scan_returns:
  "mseg ms a ys None \<Longrightarrow>
   msg_scan ms pr prev a =
     Some (let us = takeWhile (\<lambda>x. msgpri (ms x) \<le> pr) ys in if us = [] then prev else Some (last us),
           mhead (dropWhile (\<lambda>x. msgpri (ms x) \<le> pr) ys))"
proof (induction ys arbitrary: a prev)
  case Nil
  then show ?case by (subst msg_scan.simps) (simp add: mhead_def)
next
  case (Cons y ys)
  then have y: "a = Some y" "mseg ms (pk_next (ms y)) ys None" by auto
  show ?case
    using Cons.IH [OF y(2), of a] y(1)
    by (subst msg_scan.simps) (auto simp: mhead_def Let_def)
qed

text \<open>Linking a new message between \<open>us\<close> and \<open>vs\<close>.\<close>

lemma mseg_insert:
  assumes s: "mseg ms a (us @ vs) None" and d: "distinct (us @ vs)" and m: "m \<notin> set (us @ vs)"
  defines "ms1 \<equiv> ms(m := (ms m)\<lparr>pk_next := mhead vs\<rparr>)"
  shows "us = [] \<Longrightarrow> mseg ms1 (Some m) (us @ m # vs) None"
    and "us \<noteq> [] \<Longrightarrow> mseg (ms1(last us := (ms1 (last us))\<lparr>pk_next := Some m\<rparr>)) a (us @ m # vs) None"
proof -
  obtain b where b: "mseg ms a us b" "mseg ms b vs None" using s by (auto simp: mseg_append)
  have v: "mseg ms1 (mhead vs) vs None" using mseg_start [OF b(2)] b(2) m by (simp add: ms1_def)
  then show "mseg ms1 (Some m) (us @ m # vs) None" if "us = []" using that by (simp add: ms1_def)
  show "mseg (ms1(last us := (ms1 (last us))\<lparr>pk_next := Some m\<rparr>)) a (us @ m # vs) None" if u: "us \<noteq> []"
  proof -
    have l: "last us \<in> set us" using u by simp
    then have "last us \<noteq> m" "last us \<notin> set vs" using m d by auto
    moreover have "mseg ms1 a us b" using b(1) m by (simp add: ms1_def)
    ultimately show ?thesis
      using mseg_retarget [of ms1 a us b "Some m"] u d v
      by (auto simp: mseg_append) (simp add: ms1_def)
  qed
qed

section \<open>Invariant\<close>

text \<open>
  \<open>mbx_rep C s i xs\<close>: mailbox \<open>i\<close> holds the messages \<open>xs\<close>.  \<open>mbx_inv C M Q s\<close>: every mailbox
  \<open>i\<close> holds \<open>M i\<close>, no message is in two places, and no task waits at a mailbox that holds one.
\<close>

definition mbx_rep :: "cfg \<Rightarrow> kstate \<Rightarrow> nat \<Rightarrow> nat list \<Rightarrow> bool" where
  "mbx_rep C s i xs \<longleftrightarrow> mseg (msg_of (objs s)) (pk_head (mbx s i)) xs None \<and> distinct xs \<and>
     (if wobjatr C (MBX i) AND TA_MPRI \<noteq> 0 then sorted (map (MSGPRI s) xs)
      else xs \<noteq> [] \<longrightarrow> pk_last (mbx s i) = Some (last xs))"

definition mbx_inv :: "cfg \<Rightarrow> (nat \<Rightarrow> nat list) \<Rightarrow> (qhdr \<Rightarrow> tskix list) \<Rightarrow> kstate \<Rightarrow> bool" where
  "mbx_inv C M Q s \<longleftrightarrow> (\<forall>i. mbx_rep C s i (M i)) \<and>
     (\<forall>i j. i \<noteq> j \<longrightarrow> set (M i) \<inter> set (M j) = {}) \<and>
     (\<forall>i. Q (WAITQ (MBX i)) \<noteq> [] \<longrightarrow> M i = [])"

definition msg_insert :: "cfg \<Rightarrow> kstate \<Rightarrow> nat \<Rightarrow> nat \<Rightarrow> nat list \<Rightarrow> nat list" where
  "msg_insert C s i m xs =
     (if wobjatr C (MBX i) AND TA_MPRI \<noteq> 0 then tpri_insert (MSGPRI s) m xs else xs @ [m])"

lemma set_msg_insert [simp]: "set (msg_insert C s i m xs) = insert m (set xs)"
  by (simp add: msg_insert_def)

lemma upd_mbx_sel [simp]:
  "tcb_of (upd_mbx i f s) = tcb_of s" "pcb_of (upd_mbx i f s) = pcb_of s" "kq (upd_mbx i f s) = kq s"
  "mbx (upd_mbx i f s) j = (if j = i then f (mbx s i) else mbx s j)"
  "msg_of (objs (upd_mbx i f s)) = msg_of (objs s)"
  "tcb_of (upd_msg m g s) = tcb_of s" "pcb_of (upd_msg m g s) = pcb_of s" "kq (upd_msg m g s) = kq s"
  "mbx (upd_msg m g s) j = mbx s j"
  "msg_of (objs (upd_msg m g s)) = (msg_of (objs s))(m := g (msg_of (objs s) m))"
  by (simp_all add: upd_mbx_def upd_msg_def mbx_def)

lemma kinv_upd_mbx [simp]:
  "kinv C P Q (upd_mbx i f s) = kinv C P Q s" "kinv C P Q (upd_msg m g s) = kinv C P Q s"
  by (simp_all add: upd_mbx_def upd_msg_def)

lemma mbx_rep_cong:
  assumes "mbx s' i = mbx s i"
    and "\<And>x. x \<in> set xs \<Longrightarrow> pk_next (msg_of (objs s') x) = pk_next (msg_of (objs s) x) \<and>
      MSGPRI s' x = MSGPRI s x"
  shows "mbx_rep C s' i xs = mbx_rep C s i xs"
proof -
  have "mseg (msg_of (objs s')) a xs None = mseg (msg_of (objs s)) a xs None" for a
    by (rule mseg_cong) (use assms(2) in simp)
  moreover have "map (MSGPRI s') xs = map (MSGPRI s) xs" using assms(2) by simp
  ultimately show ?thesis by (simp only: mbx_rep_def assms(1))
qed

text \<open>Both ways of queueing a message insert it where the attribute of the mailbox says.\<close>

lemma mbx_rep_inserted:
  assumes r: "mbx_rep C s i (us @ vs)" and m: "m \<notin> set (us @ vs)"
    and ms: "msg_of (objs s') = (let ms = (msg_of (objs s))(m := (msg_of (objs s) m)\<lparr>pk_next := mhead vs\<rparr>)
      in if us = [] then ms else ms(last us := (ms (last us))\<lparr>pk_next := Some m\<rparr>))"
    and hd: "pk_head (mbx s' i) = (if us = [] then Some m else pk_head (mbx s i))"
    and ord: "if wobjatr C (MBX i) AND TA_MPRI \<noteq> 0 then sorted (map (MSGPRI s) (us @ m # vs))
      else vs = [] \<and> pk_last (mbx s' i) = Some m"
  shows "mbx_rep C s' i (us @ m # vs)" and "MSGPRI s' x = MSGPRI s x"
    and "x \<notin> insert m (set us) \<Longrightarrow> msg_of (objs s') x = msg_of (objs s) x"
proof -
  have d: "distinct (us @ vs)" and seg: "mseg (msg_of (objs s)) (pk_head (mbx s i)) (us @ vs) None"
    using r by (simp_all add: mbx_rep_def)
  have "mseg (msg_of (objs s')) (pk_head (mbx s' i)) (us @ m # vs) None"
    using mseg_insert [OF seg d m] unfolding ms hd Let_def by (cases "us = []") simp_all
  moreover have p: "MSGPRI s' = MSGPRI s" by (rule ext) (simp add: MSGPRI_def ms Let_def)
  moreover have "distinct (us @ m # vs)" using d m by auto
  ultimately show "mbx_rep C s' i (us @ m # vs)"
    using ord by (auto simp: mbx_rep_def)
  show "MSGPRI s' x = MSGPRI s x" by (simp add: p)
  show "msg_of (objs s') x = msg_of (objs s) x" if "x \<notin> insert m (set us)"
    using that last_in_set [of us] by (auto simp: ms Let_def)
qed

lemma enqueue_msg_pri_rep:
  assumes r: "mbx_rep C s i xs" and m: "m \<notin> set xs" and atr: "wobjatr C (MBX i) AND TA_MPRI \<noteq> 0"
    and s': "s' = enqueue_msg_pri i m s"
  shows "mbx_rep C s' i (tpri_insert (MSGPRI s) m xs)" and "MSGPRI s' x = MSGPRI s x"
    and "x \<notin> insert m (set xs) \<Longrightarrow> msg_of (objs s') x = msg_of (objs s) x"
    and "j \<noteq> i \<Longrightarrow> mbx s' j = mbx s j"
proof -
  let ?P = "\<lambda>x. MSGPRI s x \<le> MSGPRI s m"
  define us vs where uv: "us = takeWhile ?P xs" "vs = dropWhile ?P xs"
  have xs: "xs = us @ vs" by (simp add: uv)
  have seg: "mseg (msg_of (objs s)) (pk_head (mbx s i)) xs None" using r by (simp add: mbx_rep_def)
  have sc: "msg_scan (msg_of (objs s)) (MSGPRI s m) None (pk_head (mbx s i)) =
      Some (if us = [] then None else Some (last us), mhead vs)"
    using msg_scan_returns [OF seg, of "MSGPRI s m" None] by (simp add: uv MSGPRI_def Let_def)
  have s'': "s' = (if us = [] then upd_mbx i (\<lambda>b. b\<lparr>pk_head := Some m\<rparr>) (upd_msg m (\<lambda>x. x\<lparr>pk_next := mhead vs\<rparr>) s)
      else upd_msg (last us) (\<lambda>x. x\<lparr>pk_next := Some m\<rparr>) (upd_msg m (\<lambda>x. x\<lparr>pk_next := mhead vs\<rparr>) s))"
    by (simp add: s' enqueue_msg_pri_def sc Let_def)
  have srt: "sorted (map (MSGPRI s) (us @ m # vs))"
    using sorted_tpri_insert [of "MSGPRI s" xs m] r atr by (simp add: mbx_rep_def tpri_insert_def uv)
  note I = mbx_rep_inserted [of C s i us vs m s', folded xs, OF r m]
  have ms: "msg_of (objs s') = (let ms = (msg_of (objs s))(m := (msg_of (objs s) m)\<lparr>pk_next := mhead vs\<rparr>)
      in if us = [] then ms else ms(last us := (ms (last us))\<lparr>pk_next := Some m\<rparr>))"
    by (simp add: s'' Let_def)
  have hd: "pk_head (mbx s' i) = (if us = [] then Some m else pk_head (mbx s i))" by (simp add: s'')
  have o: "if wobjatr C (MBX i) AND TA_MPRI \<noteq> 0 then sorted (map (MSGPRI s) (us @ m # vs))
      else vs = [] \<and> pk_last (mbx s' i) = Some m" using srt atr by simp
  show "mbx_rep C s' i (tpri_insert (MSGPRI s) m xs)"
    using I(1) [OF ms hd o] by (simp add: tpri_insert_def uv)
  show "MSGPRI s' x = MSGPRI s x" by (rule I(2) [OF ms hd o])
  show "msg_of (objs s') x = msg_of (objs s) x" if "x \<notin> insert m (set xs)"
    by (rule I(3) [OF ms hd o]) (use that xs in auto)
  show "mbx s' j = mbx s j" if "j \<noteq> i" using that by (simp add: s'')
qed

lemma enqueue_msg_fifo_rep:
  assumes r: "mbx_rep C s i xs" and m: "m \<notin> set xs" and atr: "wobjatr C (MBX i) AND TA_MPRI = 0"
    and s': "s' = enqueue_msg_fifo i m s"
  shows "mbx_rep C s' i (xs @ [m])" and "MSGPRI s' x = MSGPRI s x"
    and "x \<notin> insert m (set xs) \<Longrightarrow> msg_of (objs s') x = msg_of (objs s) x"
    and "j \<noteq> i \<Longrightarrow> mbx s' j = mbx s j"
proof -
  have hm: "pk_head (mbx s i) = mhead xs" using r mseg_start by (auto simp: mbx_rep_def)
  then have hn: "pk_head (mbx s i) = None \<longleftrightarrow> xs = []" by (cases xs) (simp_all add: mhead_def)
  have lst: "xs \<noteq> [] \<Longrightarrow> pk_last (mbx s i) = Some (last xs)" using r atr by (simp add: mbx_rep_def)
  note I = mbx_rep_inserted [of C s i xs "[]" m s', unfolded append_Nil2, OF r m]
  have ms: "msg_of (objs s') = (let ms = (msg_of (objs s))(m := (msg_of (objs s) m)\<lparr>pk_next := mhead []\<rparr>)
      in if xs = [] then ms else ms(last xs := (ms (last xs))\<lparr>pk_next := Some m\<rparr>))"
    using hn lst by (cases "xs = []") (auto simp: s' enqueue_msg_fifo_def Let_def mhead_def)
  have hd: "pk_head (mbx s' i) = (if xs = [] then Some m else pk_head (mbx s i))"
    using hn by (auto simp: s' enqueue_msg_fifo_def Let_def)
  have o: "if wobjatr C (MBX i) AND TA_MPRI \<noteq> 0 then sorted (map (MSGPRI s) (xs @ [m]))
      else ([]::nat list) = [] \<and> pk_last (mbx s' i) = Some m"
    using atr by (simp add: s' enqueue_msg_fifo_def Let_def)
  show "mbx_rep C s' i (xs @ [m])" by (rule I(1) [OF ms hd o])
  show "MSGPRI s' x = MSGPRI s x" by (rule I(2) [OF ms hd o])
  show "msg_of (objs s') x = msg_of (objs s) x" if "x \<notin> insert m (set xs)"
    by (rule I(3) [OF ms hd o]) (use that in auto)
  show "mbx s' j = mbx s j" if "j \<noteq> i" using that by (simp add: s' enqueue_msg_fifo_def Let_def)
qed

text \<open>Taking the first message.\<close>

lemma mbx_take_rep:
  assumes r: "mbx_rep C s i (x # xs)" and eq: "mbx_take i s = (m, s')"
  shows "m = Some x" and "mbx_rep C s' i xs" and "msg_of (objs s') = msg_of (objs s)"
    and "j \<noteq> i \<Longrightarrow> mbx s' j = mbx s j"
proof -
  have s': "m = Some x" "s' = upd_mbx i (\<lambda>b. b\<lparr>pk_head := pk_next (msg_of (objs s) x)\<rparr>) s"
    using r eq by (auto simp: mbx_take_def mbx_rep_def Let_def)
  then show "m = Some x" "msg_of (objs s') = msg_of (objs s)" "j \<noteq> i \<Longrightarrow> mbx s' j = mbx s j" by simp_all
  have "MSGPRI s' = MSGPRI s" by (rule ext) (simp add: MSGPRI_def s')
  then show "mbx_rep C s' i xs" using r by (auto simp: mbx_rep_def s'(2) split: if_splits)
qed

section \<open>Services\<close>

definition mbx_frame :: "nat \<Rightarrow> (qhdr \<Rightarrow> tskix list) \<Rightarrow> kstate \<Rightarrow> (qhdr \<Rightarrow> tskix list) \<Rightarrow> kstate \<Rightarrow> bool" where
  "mbx_frame i Q s Q' s' \<longleftrightarrow> keeps {WAITQ (MBX i)} Q s Q' s' \<and>
     (\<forall>j. j \<noteq> i \<longrightarrow> mbx s' j = mbx s j) \<and>
     (objs s')\<lparr>mbxcb_of := mbxcb_of (objs s), msg_of := msg_of (objs s)\<rparr> = objs s"

lemma mbx_objs_upd [simp]:
  "(objs (upd_mbx i f s))\<lparr>mbxcb_of := x, msg_of := y\<rparr> = (objs s)\<lparr>mbxcb_of := x, msg_of := y\<rparr>"
  "(objs (upd_msg m g s))\<lparr>mbxcb_of := x, msg_of := y\<rparr> = (objs s)\<lparr>mbxcb_of := x, msg_of := y\<rparr>"
  by (simp_all add: upd_mbx_def upd_msg_def)

lemma enqueue_msg_frame:
  "mbx_frame i Q s Q (enqueue_msg_pri i m s)" "mbx_frame i Q s Q (enqueue_msg_fifo i m s)"
  "kinv C P Q (enqueue_msg_pri i m s) = kinv C P Q s" "kinv C P Q (enqueue_msg_fifo i m s) = kinv C P Q s"
  by (simp_all add: enqueue_msg_pri_def enqueue_msg_fifo_def mbx_frame_def keeps_def Let_def
      split: prod.split option.split)

lemma mbx_frame_objs:
  "keeps {WAITQ (MBX i)} Q s Q' s' \<Longrightarrow> objs s' = objs s \<Longrightarrow> mbx_frame i Q s Q' s'"
  by (simp add: mbx_frame_def mbx_def)

lemma mbx_frame_refl [simp]: "mbx_frame i Q s Q s"
  by (simp add: mbx_frame_objs)

lemma mbx_inv_objs:
  assumes "mbx_inv C M Q s" and "objs s' = objs s"
    and "\<And>j. Q' (WAITQ (MBX j)) \<noteq> [] \<Longrightarrow> Q (WAITQ (MBX j)) \<noteq> [] \<or> M j = []"
  shows "mbx_inv C M Q' s'"
proof -
  have "mbx_rep C s' i xs = mbx_rep C s i xs" for i xs
    by (rule mbx_rep_cong) (simp_all add: mbx_def MSGPRI_def assms(2))
  then show ?thesis using assms(1,3) unfolding mbx_inv_def by blast
qed

text \<open>A change of one mailbox's queue of messages.\<close>

lemma mbx_inv_update:
  assumes I: "mbx_inv C M Q s" and r: "mbx_rep C s' i xs"
    and m: "\<And>j x. j \<noteq> i \<Longrightarrow> x \<in> set (M j) \<Longrightarrow> msg_of (objs s') x = msg_of (objs s) x"
    and o: "\<And>j. j \<noteq> i \<Longrightarrow> mbx s' j = mbx s j"
    and d: "\<And>j. j \<noteq> i \<Longrightarrow> set xs \<inter> set (M j) = {}" and q: "Q (WAITQ (MBX i)) \<noteq> [] \<Longrightarrow> xs = []"
  shows "mbx_inv C (M(i := xs)) Q s'"
proof -
  have "mbx_rep C s' j (M j)" if "j \<noteq> i" for j
    using mbx_rep_cong [OF o [OF that], of "M j" C] m [OF that] I by (simp add: mbx_inv_def MSGPRI_def)
  then show ?thesis using I r d q by (auto simp: mbx_inv_def)
qed

definition mbx_step ::
  "cfg \<Rightarrow> nat \<Rightarrow> (qhdr \<Rightarrow> tskix list) \<Rightarrow> kstate \<Rightarrow> (nat \<Rightarrow> nat list) \<Rightarrow> kstate \<Rightarrow> bool" where
  "mbx_step C i Q s M' s' \<longleftrightarrow> (\<exists>Q'. kinv C {} Q' s' \<and> mbx_frame i Q s Q' s' \<and> mbx_inv C M' Q' s')"

lemma snd_mbx_spec:
  assumes K: "kinv C {} Q s" and I: "mbx_inv C M Q s" and c: "sense_tskctx_unl me s"
    and v: "VALID_MBXID C mbxid" and p: "msg_par C (INDEX_OBJ mbxid) m s"
    and m: "\<And>j. m \<notin> set (M j)" and eq: "snd_mbx C me mbxid m True s = (r, s')"
  defines "i \<equiv> INDEX_OBJ mbxid"
  shows "r = Ret E_OK \<and>
    (case Q (WAITQ (MBX i)) of
       [] \<Rightarrow> mbx_step C i Q s (M(i := msg_insert C s i m (M i))) s'
     | t # ts \<Rightarrow> mbx_step C i Q s M s' \<and>
         tcb_of s' = (tcb_of s)(t := (ended_tcb E_OK (tcb_of s t))\<lparr>winfo_obj := W_MBX (Some m)\<rparr>))"
proof (cases "Q (WAITQ (MBX i))")
  case Nil
  let ?mp = "wobjatr C (MBX i) AND TA_MPRI \<noteq> 0"
  have r: "r = Ret E_OK" "s' = (if ?mp then enqueue_msg_pri i m s else enqueue_msg_fifo i m s)"
    using eq c v p Nil kinvD(4) [OF K] by (auto simp: snd_mbx_def Let_def i_def split: if_splits)
  have rep: "mbx_rep C s i (M i)" and d: "j \<noteq> i \<Longrightarrow> set (M i) \<inter> set (M j) = {}" for j
    using I by (auto simp: mbx_inv_def)
  note P = enqueue_msg_pri_rep [OF rep m _ refl] and F = enqueue_msg_fifo_rep [OF rep m _ refl]
  have "mbx_inv C (M(i := msg_insert C s i m (M i))) Q s'"
  proof (rule mbx_inv_update [OF I])
    show "mbx_rep C s' i (msg_insert C s i m (M i))"
      using P(1) F(1) r(2) by (simp add: msg_insert_def)
    show "msg_of (objs s') x = msg_of (objs s) x" if "j \<noteq> i" "x \<in> set (M j)" for j x
      using P(3) [of x] F(3) [of x] r(2) d [OF that(1)] that(2) m [of j] by auto
    show "mbx s' j = mbx s j" if "j \<noteq> i" for j using P(4) [OF _ that] F(4) [OF _ that] r(2) by auto
    show "set (msg_insert C s i m (M i)) \<inter> set (M j) = {}" if "j \<noteq> i" for j
      using d [OF that] m [of j] by simp
  qed (use Nil in simp)
  then show ?thesis
    using Nil r K enqueue_msg_frame by (auto simp: mbx_step_def intro!: exI [of _ Q])
next
  case (Cons t ts)
  let ?h = "WAITQ (MBX i)" and ?f = "\<lambda>b::tcb. b\<lparr>winfo_obj := W_MBX (Some m)\<rparr>"
  obtain b s1 where w: "wait_complete t (upd_tcb t ?f (on_kq (queue_delete (Ent t)) s)) = (b, s1)" by fastforce
  obtain d s2 where d: "t_request me (p_pcb (tcb_of s t)) b s1 = (d, s2)" by fastforce
  have k: "on_kq (\<lambda>_. queue_delete (Ent t) (kq s)) s = on_kq (queue_delete (Ent t)) s"
    by (simp add: on_kq_def)
  have r: "r = Ret E_OK" "s' = t_dispatch_if me d s2"
    using eq c v p w d Cons qrep_queue_empty [OF kinvD(4) [OF K], of ?h]
      queue_delete_next_eq [OF kinvD(4) [OF K] Cons]
    by (auto simp: snd_mbx_def Let_def i_def k)
  have f: "tstat (?f (tcb_of s t)) = tstat (tcb_of s t)" "priority (?f (tcb_of s t)) = priority (tcb_of s t)"
    "p_pcb (?f (tcb_of s t)) = p_pcb (tcb_of s t)" "wf_tcb (?f (tcb_of s t))"
    using kinvD(5) [OF K] by simp_all
  have h: "\<And>p i. ?h \<noteq> RDY p i" by simp
  note T = t_wake_first [OF K Cons h f w d, folded r(2)]
  obtain Q' where Q': "kinv C {} Q' s'" "Q' ?h = ts" "same_waits ?h Q Q'" "keeps {?h} Q s Q' s'" using T(1) by blast
  have "set (Q' (WAITQ (MBX j))) \<subseteq> set (Q (WAITQ (MBX j)))" for j
    using Q'(2,3) Cons by (cases "j = i") (auto simp: same_waits_def)
  then have "mbx_inv C M Q' s'" by (intro mbx_inv_objs [OF I T(2)]) (metis set_empty subset_empty)
  moreover have "ended_tcb E_OK (?f (tcb_of s t)) = (ended_tcb E_OK (tcb_of s t))\<lparr>winfo_obj := W_MBX (Some m)\<rparr>"
    by (simp add: ended_tcb_def released_tcb_def)
  ultimately show ?thesis
    using Q' T(2,3) r(1) Cons mbx_frame_objs [OF Q'(4)] by (auto simp: mbx_step_def intro!: exI [of _ Q'])
qed

text \<open>
  Taking the receiver out of the queue before its lock is held: when the lock is not acquired
  and the call starts over, the receiver waits in no queue, and the invariant is broken.
\<close>

lemma snd_mbx_retry:
  assumes K: "kinv C {} Q s" and c: "sense_tskctx_unl me s" and v: "VALID_MBXID C mbxid"
    and p: "msg_par C (INDEX_OBJ mbxid) m s" and Qh: "Q (WAITQ (MBX (INDEX_OBJ mbxid))) = t # ts"
    and eq: "snd_mbx C me mbxid m False s = (r, s')"
  shows "r = Again" and "tcb_of s' = tcb_of s" and "qrep (kq s') Q' \<Longrightarrow> \<not> queued Q' t"
    and "\<not> kinv C P Q' s'"
proof -
  let ?h = "WAITQ (MBX (INDEX_OBJ mbxid))"
  have t: "t \<in> set (Q ?h)" using Qh by simp
  have r: "r = Again" "s' = on_kq (\<lambda>_. queue_delete (Ent t) (kq s)) s"
    using eq c v p Qh qrep_queue_empty [OF kinvD(4) [OF K], of ?h]
      queue_delete_next_eq [OF kinvD(4) [OF K] Qh]
    by (auto simp: snd_mbx_def Let_def)
  then show "r = Again" "tcb_of s' = tcb_of s" by simp_all
  have R: "qrep (kq s') (Q(?h := remove1 t (Q ?h)))"
    using ring.unlink [OF kinvD(4) [OF K] t] r(2) by simp
  have nq: "\<not> queued Q' t" if "qrep (kq s') Q'" for Q'
    using qrep_unique [OF that R] ring.not_queued_unlink [OF kinvD(4) [OF K] t] by simp
  then show "qrep (kq s') Q' \<Longrightarrow> \<not> queued Q' t" .
  have "place (tcb_of s' t) = Some ?h" using kinvD(6) [OF K, of t ?h] t r(2) by simp
  then show "\<not> kinv C P Q' s'"
    using nq kinvD(4,6) [of C P Q' s'] unfolding queued_def by blast
qed

lemma mbx_step_refl: "kinv C {} Q s \<Longrightarrow> mbx_inv C M Q s \<Longrightarrow> mbx_step C i Q s M s"
  by (auto simp: mbx_step_def intro!: exI [of _ Q])

text \<open>Receiving: the first message, or the caller joins the wait queue.\<close>

lemma mbx_take_spec:
  assumes K: "kinv C {} Q s" and I: "mbx_inv C M Q s" and hd: "pk_head (mbx s i) \<noteq> None"
  shows "\<exists>x xs. M i = x # xs \<and> fst (mbx_take i s) = Some x \<and>
    mbx_step C i Q s (M(i := xs)) (snd (mbx_take i s))"
proof -
  have rep: "mbx_rep C s i (M i)" using I by (simp add: mbx_inv_def)
  then have "pk_head (mbx s i) = mhead (M i)" using mseg_start by (auto simp: mbx_rep_def)
  then obtain x xs where M: "M i = x # xs" using hd by (cases "M i") (auto simp: mhead_def)
  obtain m s' where eq: "mbx_take i s = (m, s')" by fastforce
  note T = mbx_take_rep [OF rep [unfolded M] eq]
  have "set (M i) \<inter> set (M j) = {}" if "j \<noteq> i" for j
    using I that unfolding mbx_inv_def by (metis inf_commute)
  then have dj: "set xs \<inter> set (M j) = {}" if "j \<noteq> i" for j using M that by auto
  have "mbx_inv C (M(i := xs)) Q s'"
    by (rule mbx_inv_update [OF I T(2)]) (use T(3,4) M I dj in \<open>auto simp: mbx_inv_def\<close>)
  moreover have "kinv C {} Q s' \<and> mbx_frame i Q s Q s'"
    using K eq by (auto simp: mbx_take_def Let_def mbx_frame_def keeps_def)
  ultimately show ?thesis using M T(1) eq by (auto simp: mbx_step_def)
qed

lemma mbx_block_step:
  assumes K: "kinv C {} Q s" and I: "mbx_inv C M Q s" and ctx: "sense_tskctx_unl me s"
    and run: "TSTAT_RUNNABLE (tstat (tcb_of s (runtsk me s)))" and z: "pk_head (mbx s i) = None"
  defines "t \<equiv> runtsk me s"
  assumes s1: "s1 = wobj_make_wait C (MBX i) t (set_tstat t (TS_WAITING OR TS_WAIT_MBX) s) \<or>
      s1 = wobj_make_wait_tmout C (MBX i) tmout t (set_tstat t (TS_WAITING OR TS_WAIT_MBX) s)"
  shows "mbx_step C i Q s M (dispatch me s1)"
proof -
  have m: "may_block me t s" unfolding t_def by (rule runtsk_may_block [OF K ctx run])
  have "TS_WAIT_MBX \<notin> {TS_WAIT_RDTQ, TS_WAIT_RPDQ}" by (simp add: tstat_consts)
  then obtain Q' where Q': "kinv C {} Q' (dispatch me s1)" "keeps {WAITQ (MBX i)} Q s Q' (dispatch me s1)"
    and o: "objs (dispatch me s1) = objs s"
    using block_on_object [OF K m _ _ _ s1 [unfolded set_tstat_enter_wait], of "{WAITQ (MBX i)}"] by auto
  have "mbx_rep C s i (M i)" using I by (simp add: mbx_inv_def)
  then have "M i = []" using z by (cases "M i") (auto simp: mbx_rep_def)
  moreover have "set (Q' (WAITQ (MBX j))) \<subseteq> set (Q (WAITQ (MBX j)))" if "j \<noteq> i" for j
    using Q'(2) that unfolding keeps_def by blast
  ultimately have "mbx_inv C M Q' (dispatch me s1)"
    by (intro mbx_inv_objs [OF I o]) (metis set_empty subset_empty)
  then show ?thesis using Q' mbx_frame_objs [OF Q'(2) o] by (auto simp: mbx_step_def)
qed

definition mbx_keep ::
  "cfg \<Rightarrow> nat \<Rightarrow> (nat \<Rightarrow> nat list) \<Rightarrow> (qhdr \<Rightarrow> tskix list) \<Rightarrow> kstate \<Rightarrow> kstate \<Rightarrow> bool" where
  "mbx_keep C i M Q s s' \<longleftrightarrow> (\<exists>M'. mbx_step C i Q s M' s')"

lemma mbx_keep_refl: "kinv C {} Q s \<Longrightarrow> mbx_inv C M Q s \<Longrightarrow> mbx_keep C i M Q s s"
  unfolding mbx_keep_def using mbx_step_refl by blast

lemma mbx_recv_keep:
  assumes K: "kinv C {} Q s" and I: "mbx_inv C M Q s"
  shows "mbx_keep C (INDEX_OBJ mbxid) M Q s (snd (rcv_mbx C me mbxid s))"
    and "mbx_keep C (INDEX_OBJ mbxid) M Q s (snd (prcv_mbx C me mbxid s))"
    and "mbx_keep C (INDEX_OBJ mbxid) M Q s (snd (trcv_mbx C me mbxid tmout s))"
proof -
  let ?i = "INDEX_OBJ mbxid"
  have t: "mbx_keep C ?i M Q s (snd (mbx_take ?i s))" if "pk_head (mbx s ?i) \<noteq> None"
    using mbx_take_spec [OF K I that] by (auto simp: mbx_keep_def)
  note B = mbx_block_step [OF K I _ _ _ disjI1 [OF refl], of me ?i]
    mbx_block_step [OF K I _ _ _ disjI2 [OF refl], of me ?i tmout]
  have b: "mbx_keep C ?i M Q s (dispatch me (wobj_make_wait C (MBX ?i) (runtsk me s)
        (set_tstat (runtsk me s) (TS_WAITING OR TS_WAIT_MBX) s)))"
    "mbx_keep C ?i M Q s (dispatch me (wobj_make_wait_tmout C (MBX ?i) tmout (runtsk me s)
        (set_tstat (runtsk me s) (TS_WAITING OR TS_WAIT_MBX) s)))"
    if "sense_tskctx_unl me s" "TSTAT_RUNNABLE (tstat (tcb_of s (runtsk me s)))" "pk_head (mbx s ?i) = None"
    using B that unfolding mbx_keep_def by blast+
  show "mbx_keep C ?i M Q s (snd (rcv_mbx C me mbxid s))"
    "mbx_keep C ?i M Q s (snd (prcv_mbx C me mbxid s))"
    "mbx_keep C ?i M Q s (snd (trcv_mbx C me mbxid tmout s))"
    using t b mbx_keep_refl [OF K I, of ?i]
    by (simp_all add: rcv_mbx_def prcv_mbx_def trcv_mbx_def Let_def split_beta)
qed

lemma ini_mbx_keep:
  assumes K: "kinv C {} Q s" and I: "mbx_inv C M Q s"
  shows "mbx_keep C (INDEX_OBJ mbxid) M Q s (snd (ini_mbx C me mbxid s))"
proof (cases "sense_tskctx_unl me s \<and> VALID_MBXID C mbxid")
  case True
  define i where "i = INDEX_OBJ mbxid"
  let ?h = "WAITQ (MBX i)" and ?f = "\<lambda>b::mbxcb. b\<lparr>pk_head := None\<rparr>"
  obtain d s1 where w: "init_wait_queue me (Hdr ?h) s = (d, s1)" by fastforce
  have r: "snd (ini_mbx C me mbxid s) = t_dispatch_if me d (upd_mbx i ?f s1)" (is "_ = ?s")
    using True w by (auto simp: ini_mbx_def Let_def i_def)
  obtain Q' where Q': "kinv C (if d then insert me {} else {}) Q' s1" "Q' ?h = []" "same_waits ?h Q Q'"
    "objs s1 = objs s" "tcb_of s1 = all_ended E_DLT (Q ?h) (tcb_of s)"
    using init_wait_queue_kinv [OF K _ w] by auto
  have K': "kinv C {} Q' ?s" by (rule t_dispatch_if_kinv) (use Q'(1) in \<open>auto split: if_splits\<close>)
  have tc: "tcb_of ?s = all_ended E_DLT (Q ?h) (tcb_of s)" using Q'(5) by simp
  have so: "mbx ?s j = (if j = i then ?f (mbx s i) else mbx s j)" for j
    using Q'(4) by (simp add: mbx_def upd_mbx_def)
  have ob: "(objs ?s)\<lparr>mbxcb_of := mbxcb_of (objs s), msg_of := msg_of (objs s)\<rparr> = objs s"
    and ms: "msg_of (objs ?s) = msg_of (objs s)" using Q'(4) by (simp_all add: upd_mbx_def)
  have sw: "set (Q' (WAITQ (MBX j))) \<subseteq> set (Q (WAITQ (MBX j)))" for j
    using Q'(2,3) by (cases "j = i") (auto simp: same_waits_def)
  have I1: "mbx_inv C M Q' s"
    by (rule mbx_inv_objs [OF I refl]) (metis sw set_empty subset_empty)
  have "mbx_inv C (M(i := [])) Q' ?s"
    by (rule mbx_inv_update [OF I1]) (use so ms in \<open>auto simp: mbx_rep_def\<close>)
  moreover have "mbx_frame i Q s Q' ?s"
    using keeps_init [OF Q'(3,2) tc, of "{?h}"] so ob by (simp add: mbx_frame_def)
  ultimately show ?thesis unfolding r i_def [symmetric] mbx_keep_def mbx_step_def using K' by blast
qed (auto simp: ini_mbx_def mbx_keep_refl [OF K I])

lemma snd_mbx_keep:
  assumes K: "kinv C {} Q s" and I: "mbx_inv C M Q s" and m: "\<And>j. m \<notin> set (M j)"
  shows "mbx_keep C (INDEX_OBJ mbxid) M Q s (snd (snd_mbx C me mbxid m True s))"
proof (cases "sense_tskctx_unl me s \<and> VALID_MBXID C mbxid \<and> msg_par C (INDEX_OBJ mbxid) m s")
  case True
  then show ?thesis
    using snd_mbx_spec [OF K I _ _ _ m surjective_pairing, of me mbxid]
    by (auto simp: mbx_keep_def split: list.splits)
qed (auto simp: snd_mbx_def mbx_keep_refl [OF K I])

text \<open>A step that touches no mailbox and adds no waiter keeps the invariant.\<close>

lemma mbx_inv_keeps:
  assumes I: "mbx_inv C M Q s" and k: "keeps H Q s Q' s'" and h: "\<And>i. WAITQ (MBX i) \<notin> H"
    and o: "mbxcb_of (objs s') = mbxcb_of (objs s)" "msg_of (objs s') = msg_of (objs s)"
  shows "mbx_inv C M Q' s'"
proof -
  have "mbx_rep C s' i xs = mbx_rep C s i xs" for i xs
    by (rule mbx_rep_cong) (simp_all add: mbx_def MSGPRI_def o)
  moreover have "set (Q' (WAITQ (MBX i))) \<subseteq> set (Q (WAITQ (MBX i)))" for i
    using k h unfolding keeps_def by blast
  ultimately show ?thesis using I unfolding mbx_inv_def by (metis set_empty subset_empty)
qed

end
