(* ===== verification/Pridataq.thy ===== *)
theory Pridataq
  imports Mailbox Buffer_Queue
begin

text \<open>
  Priority data queues (\<open>kernel/pridataq.c\<close>): the management blocks linked in the order of the
  data priorities, the list of free blocks, the tasks that wait to send (each with its datum and
  its priority in \<open>winfo_obj\<close>) and those that wait to receive.  \<open>apdq\<close> is the abstraction; the
  services refine \<open>apdq_send\<close> and \<open>apdq_recv\<close>.
\<close>

section \<open>The management area\<close>

definition pdq :: "kstate \<Rightarrow> nat \<Rightarrow> pdqcb" where "pdq s i = pdqcb_of (objs s) i"

definition upd_pdq :: "nat \<Rightarrow> (pdqcb \<Rightarrow> pdqcb) \<Rightarrow> kstate \<Rightarrow> kstate" where
  "upd_pdq i f s =
     s\<lparr>objs := (objs s)\<lparr>pdqcb_of := (pdqcb_of (objs s))(i := f (pdqcb_of (objs s) i))\<rparr>\<rparr>"

definition tnum_pdq :: "cfg \<Rightarrow> nat" where "tnum_pdq C = uint_cast (tmax_pdqid C - 1 + 1)"

definition pdq_reset :: "pdqcb \<Rightarrow> pdqcb" where
  "pdq_reset b = b\<lparr>pdq_count := 0, p_head := None, pdq_unused := 0, p_freelist := None\<rparr>"

fun init_pdqs :: "cfg \<Rightarrow> nat \<Rightarrow> kstate \<Rightarrow> kstate" where
  "init_pdqs C 0 s = s"
| "init_pdqs C (Suc i) s =
     (let s = init_pdqs C i s;
          s = on_kq (queue_initialize (Hdr (WAITQ (PDQ i)))) s;
          s = on_kq (queue_initialize (Hdr (RWAITQ (PDQ i)))) s
      in upd_pdq i pdq_reset s)"

definition initialize_pridataq :: "cfg \<Rightarrow> bool \<Rightarrow> kstate \<Rightarrow> kstate" where
  "initialize_pridataq C x_sense_mprc s =
     (if x_sense_mprc then init_pdqs C (tnum_pdq C) s else s)"

definition upd_blk :: "nat \<Rightarrow> (pdqmb \<Rightarrow> pdqmb) \<Rightarrow> pdqcb \<Rightarrow> pdqcb" where
  "upd_blk k f b = b\<lparr>pdqmb_of := (pdqmb_of b)(k := f (pdqmb_of b k))\<rparr>"

text \<open>The block that \<open>enqueue_pridata\<close> uses: a freed one, or the next that was never used.\<close>

definition pdq_alloc :: "pdqcb \<Rightarrow> nat \<times> pdqcb" where
  "pdq_alloc b =
     (case p_freelist b of
        Some k \<Rightarrow> (k, b\<lparr>p_freelist := pdqmb_next (pdqmb_of b k)\<rparr>)
      | None \<Rightarrow> (pdq_unused b, b\<lparr>pdq_unused := pdq_unused b + 1\<rparr>))"

text \<open>
  The loop over \<open>pp_prev_next\<close>: the block whose \<open>p_next\<close> it points to, \<open>None\<close> for \<open>p_head\<close>, and
  \<open>p_next\<close>.
\<close>

partial_function (option) pdq_scan ::
  "(nat \<Rightarrow> pdqmb) \<Rightarrow> pri \<Rightarrow> nat option \<Rightarrow> nat option \<Rightarrow> (nat option \<times> nat option) option" where
  "pdq_scan mb dpri prev nxt =
     (if nxt = None then Some (prev, None)
      else if dpri < pdqmb_datapri (mb (the nxt)) then Some (prev, nxt)
      else pdq_scan mb dpri nxt (pdqmb_next (mb (the nxt))))"

definition enqueue_pridata :: "intptr \<Rightarrow> pri \<Rightarrow> pdqcb \<Rightarrow> pdqcb" where
  "enqueue_pridata data dpri b =
     (let (k, b) = pdq_alloc b;
          b = upd_blk k (\<lambda>m. m\<lparr>pdqmb_data := data\<rparr>) b;
          b = upd_blk k (\<lambda>m. m\<lparr>pdqmb_datapri := dpri\<rparr>) b;
          (prev, nxt) = the (pdq_scan (pdqmb_of b) dpri None (p_head b));
          b = upd_blk k (\<lambda>m. m\<lparr>pdqmb_next := nxt\<rparr>) b;
          b = (case prev of None \<Rightarrow> b\<lparr>p_head := Some k\<rparr>
               | Some p \<Rightarrow> upd_blk p (\<lambda>m. m\<lparr>pdqmb_next := Some k\<rparr>) b)
      in b\<lparr>pdq_count := pdq_count b + 1\<rparr>)"

definition dequeue_pridata :: "pdqcb \<Rightarrow> (intptr \<times> pri) \<times> pdqcb" where
  "dequeue_pridata b =
     (let k = the (p_head b);
          b = b\<lparr>p_head := pdqmb_next (pdqmb_of b k)\<rparr>;
          b = b\<lparr>pdq_count := pdq_count b - 1\<rparr>;
          d = (pdqmb_data (pdqmb_of b k), pdqmb_datapri (pdqmb_of b k));
          b = upd_blk k (\<lambda>m. m\<lparr>pdqmb_next := p_freelist b\<rparr>) b
      in (d, b\<lparr>p_freelist := Some k\<rparr>))"

section \<open>Services\<close>

definition pdq_par :: "cfg \<Rightarrow> nat \<Rightarrow> pri \<Rightarrow> bool" where
  "pdq_par C i dpri \<longleftrightarrow> TMIN_DPRI \<le> dpri \<and> dpri \<le> maxdpri (pdqinib_table C i)"

definition pdq_full :: "cfg \<Rightarrow> nat \<Rightarrow> kstate \<Rightarrow> bool" where
  "pdq_full C i s \<longleftrightarrow> \<not> pdq_count (pdq s i) < pdqcnt (pdqinib_table C i)"

text \<open>
  The blocks of code that stand in several services: passing a datum to the first task that
  waits to receive, and receiving when a task waits to send.
\<close>

definition pdq_pass :: "tskix \<Rightarrow> intptr \<Rightarrow> pri \<Rightarrow> kstate \<Rightarrow> bool \<times> kstate" where
  "pdq_pass t data dpri s =
     (let s = on_kq (queue_delete (Ent t)) s;
          s = upd_tcb t (\<lambda>b. b\<lparr>winfo_obj := W_PDQ data dpri\<rparr>) s
      in wait_complete t s)"

definition pdq_get :: "nat \<Rightarrow> kstate \<Rightarrow> (intptr \<times> pri) \<times> kstate" where
  "pdq_get i s = (let (d, b) = dequeue_pridata (pdq s i) in (d, upd_pdq i (\<lambda>_. b) s))"

definition pdq_sent :: "kstate \<Rightarrow> tskix \<Rightarrow> intptr \<times> pri" where
  "pdq_sent s t = (pdq_data (winfo_obj (tcb_of s t)), datapri (winfo_obj (tcb_of s t)))"

definition pdq_take :: "nat \<Rightarrow> tskix \<Rightarrow> kstate \<Rightarrow> (intptr \<times> pri) \<times> bool \<times> kstate" where
  "pdq_take i t s =
     (let s = on_kq (queue_delete (Ent t)) s;
          (d, s) =
            (if 0 < pdq_count (pdq s i) then
               (let (d, s) = pdq_get i s;
                    s = upd_pdq i (enqueue_pridata (fst (pdq_sent s t)) (snd (pdq_sent s t))) s
                in (d, s))
             else (pdq_sent s t, s));
          (b, s) = wait_complete t s
      in (d, b, s))"

definition t_pdq_pass_first :: "prcix \<Rightarrow> nat \<Rightarrow> intptr \<Rightarrow> pri \<Rightarrow> kstate \<Rightarrow> kstate" where
  "t_pdq_pass_first me i data dpri s =
     (let t = first_waiter (Hdr (RWAITQ (PDQ i))) s;
          p = p_pcb (tcb_of s t);
          (b, s) = pdq_pass t data dpri s;
          (dspreq, s) = t_request me p b s
      in t_dispatch_if me dspreq s)"

definition i_pdq_pass_first :: "prcix \<Rightarrow> nat \<Rightarrow> intptr \<Rightarrow> pri \<Rightarrow> kstate \<Rightarrow> kstate" where
  "i_pdq_pass_first me i data dpri s =
     (let t = first_waiter (Hdr (RWAITQ (PDQ i))) s;
          p = p_pcb (tcb_of s t);
          (b, s) = pdq_pass t data dpri s
      in i_request me p b s)"

definition t_pdq_take_first :: "prcix \<Rightarrow> nat \<Rightarrow> kstate \<Rightarrow> (intptr \<times> pri) \<times> kstate" where
  "t_pdq_take_first me i s =
     (let t = first_waiter (Hdr (WAITQ (PDQ i))) s;
          p = p_pcb (tcb_of s t);
          (d, b, s) = pdq_take i t s;
          (dspreq, s) = t_request me p b s
      in (d, t_dispatch_if me dspreq s))"

definition snd_pdq :: "cfg \<Rightarrow> prcix \<Rightarrow> ident \<Rightarrow> intptr \<Rightarrow> pri \<Rightarrow> kstate \<Rightarrow> ercd svc \<times> kstate" where
  "snd_pdq C me pdqid data dpri s =
     (if \<not> sense_tskctx_unl me s then (Ret E_CTX, s)
      else if \<not> VALID_PDQID C pdqid then (Ret E_ID, s)
      else let i = INDEX_OBJ pdqid in
        if \<not> pdq_par C i dpri then (Ret E_PAR, s)
        else if \<not> dspflg (pcb_of s me) then (Ret E_CTX, s)
        else if \<not> queue_empty (Hdr (RWAITQ (PDQ i))) (kq s) then
          (Ret E_OK, t_pdq_pass_first me i data dpri s)
        else if \<not> pdq_full C i s then (Ret E_OK, upd_pdq i (enqueue_pridata data dpri) s)
        else if \<not> TSTAT_RUNNABLE (tstat (tcb_of s (runtsk me s))) then (Again, s)
        else
          (let t = runtsk me s;
               s = upd_tcb t (\<lambda>b. b\<lparr>winfo_obj := W_PDQ data dpri\<rparr>) s;
               s = set_tstat t (TS_WAITING OR TS_WAIT_SPDQ) s;
               s = wobj_make_wait C (PDQ i) t s
           in (Blocks t, dispatch me s)))"

definition psnd_pdq :: "cfg \<Rightarrow> prcix \<Rightarrow> ident \<Rightarrow> intptr \<Rightarrow> pri \<Rightarrow> kstate \<Rightarrow> ercd svc \<times> kstate" where
  "psnd_pdq C me pdqid data dpri s =
     (if \<not> sense_tskctx_unl me s then (Ret E_CTX, s)
      else if \<not> VALID_PDQID C pdqid then (Ret E_ID, s)
      else let i = INDEX_OBJ pdqid in
        if \<not> pdq_par C i dpri then (Ret E_PAR, s)
        else if \<not> queue_empty (Hdr (RWAITQ (PDQ i))) (kq s) then
          (Ret E_OK, t_pdq_pass_first me i data dpri s)
        else if \<not> pdq_full C i s then (Ret E_OK, upd_pdq i (enqueue_pridata data dpri) s)
        else (Ret E_TMOUT, s))"

definition ipsnd_pdq :: "cfg \<Rightarrow> prcix \<Rightarrow> ident \<Rightarrow> intptr \<Rightarrow> pri \<Rightarrow> kstate \<Rightarrow> ercd svc \<times> kstate" where
  "ipsnd_pdq C me pdqid data dpri s =
     (if \<not> sense_intctx_unl me s then (Ret E_CTX, s)
      else if \<not> VALID_PDQID C pdqid then (Ret E_ID, s)
      else let i = INDEX_OBJ pdqid in
        if \<not> pdq_par C i dpri then (Ret E_PAR, s)
        else if \<not> queue_empty (Hdr (RWAITQ (PDQ i))) (kq s) then
          (Ret E_OK, i_pdq_pass_first me i data dpri s)
        else if \<not> pdq_full C i s then (Ret E_OK, upd_pdq i (enqueue_pridata data dpri) s)
        else (Ret E_TMOUT, s))"

definition tsnd_pdq ::
  "cfg \<Rightarrow> prcix \<Rightarrow> ident \<Rightarrow> intptr \<Rightarrow> pri \<Rightarrow> tmo \<Rightarrow> kstate \<Rightarrow> ercd svc \<times> kstate" where
  "tsnd_pdq C me pdqid data dpri tmout s =
     (if \<not> sense_tskctx_unl me s then (Ret E_CTX, s)
      else if \<not> VALID_PDQID C pdqid then (Ret E_ID, s)
      else if \<not> VALID_TMOUT tmout then (Ret E_PAR, s)
      else let i = INDEX_OBJ pdqid in
        if \<not> pdq_par C i dpri then (Ret E_PAR, s)
        else if \<not> dspflg (pcb_of s me) then (Ret E_CTX, s)
        else if \<not> queue_empty (Hdr (RWAITQ (PDQ i))) (kq s) then
          (Ret E_OK, t_pdq_pass_first me i data dpri s)
        else if \<not> pdq_full C i s then (Ret E_OK, upd_pdq i (enqueue_pridata data dpri) s)
        else if tmout = TMO_POL then (Ret E_TMOUT, s)
        else if \<not> TSTAT_RUNNABLE (tstat (tcb_of s (runtsk me s))) then (Again, s)
        else
          (let t = runtsk me s;
               s = upd_tcb t (\<lambda>b. b\<lparr>winfo_obj := W_PDQ data dpri\<rparr>) s;
               s = set_tstat t (TS_WAITING OR TS_WAIT_SPDQ) s;
               s = wobj_make_wait_tmout C (PDQ i) tmout t s
           in (Blocks t, dispatch me s)))"

text \<open>
  A reception returns the error code and what it wrote to \<open>*p_data\<close> and \<open>*p_datapri\<close>; a task
  that blocks finds them in its \<open>winfo_obj\<close>.
\<close>

definition rcv_pdq :: "cfg \<Rightarrow> prcix \<Rightarrow> ident \<Rightarrow> kstate \<Rightarrow> (ercd \<times> (intptr \<times> pri) option) svc \<times> kstate" where
  "rcv_pdq C me pdqid s =
     (if \<not> sense_tskctx_unl me s then (Ret (E_CTX, None), s)
      else if \<not> VALID_PDQID C pdqid then (Ret (E_ID, None), s)
      else let i = INDEX_OBJ pdqid in
        if \<not> dspflg (pcb_of s me) then (Ret (E_CTX, None), s)
        else if \<not> queue_empty (Hdr (WAITQ (PDQ i))) (kq s) then
          (let (d, s) = t_pdq_take_first me i s in (Ret (E_OK, Some d), s))
        else if 0 < pdq_count (pdq s i) then
          (let (d, s) = pdq_get i s in (Ret (E_OK, Some d), s))
        else if \<not> TSTAT_RUNNABLE (tstat (tcb_of s (runtsk me s))) then (Again, s)
        else
          (let t = runtsk me s;
               s = set_tstat t (TS_WAITING OR TS_WAIT_RPDQ) s;
               s = make_wait t s;
               s = on_kq (queue_insert_prev (Hdr (RWAITQ (PDQ i))) (Ent t)) s;
               s = set_wobjcb t (PDQ i) s
           in (Blocks t, dispatch me s)))"

definition prcv_pdq :: "cfg \<Rightarrow> prcix \<Rightarrow> ident \<Rightarrow> kstate \<Rightarrow> (ercd \<times> (intptr \<times> pri) option) svc \<times> kstate" where
  "prcv_pdq C me pdqid s =
     (if \<not> sense_tskctx_unl me s then (Ret (E_CTX, None), s)
      else if \<not> VALID_PDQID C pdqid then (Ret (E_ID, None), s)
      else let i = INDEX_OBJ pdqid in
        if \<not> queue_empty (Hdr (WAITQ (PDQ i))) (kq s) then
          (let (d, s) = t_pdq_take_first me i s in (Ret (E_OK, Some d), s))
        else if 0 < pdq_count (pdq s i) then
          (let (d, s) = pdq_get i s in (Ret (E_OK, Some d), s))
        else (Ret (E_TMOUT, None), s))"

definition trcv_pdq ::
  "cfg \<Rightarrow> prcix \<Rightarrow> ident \<Rightarrow> tmo \<Rightarrow> kstate \<Rightarrow> (ercd \<times> (intptr \<times> pri) option) svc \<times> kstate" where
  "trcv_pdq C me pdqid tmout s =
     (if \<not> sense_tskctx_unl me s then (Ret (E_CTX, None), s)
      else if \<not> VALID_PDQID C pdqid then (Ret (E_ID, None), s)
      else if \<not> VALID_TMOUT tmout then (Ret (E_PAR, None), s)
      else let i = INDEX_OBJ pdqid in
        if \<not> dspflg (pcb_of s me) then (Ret (E_CTX, None), s)
        else if \<not> queue_empty (Hdr (WAITQ (PDQ i))) (kq s) then
          (let (d, s) = t_pdq_take_first me i s in (Ret (E_OK, Some d), s))
        else if 0 < pdq_count (pdq s i) then
          (let (d, s) = pdq_get i s in (Ret (E_OK, Some d), s))
        else if tmout = TMO_POL then (Ret (E_TMOUT, None), s)
        else if \<not> TSTAT_RUNNABLE (tstat (tcb_of s (runtsk me s))) then (Again, s)
        else
          (let t = runtsk me s;
               s = set_tstat t (TS_WAITING OR TS_WAIT_RPDQ) s;
               s = make_wait_tmout tmout me s;
               s = on_kq (queue_insert_prev (Hdr (RWAITQ (PDQ i))) (Ent t)) s;
               s = set_wobjcb t (PDQ i) s
           in (Blocks t, dispatch me s)))"

definition ini_pdq :: "cfg \<Rightarrow> prcix \<Rightarrow> ident \<Rightarrow> kstate \<Rightarrow> ercd svc \<times> kstate" where
  "ini_pdq C me pdqid s =
     (if \<not> sense_tskctx_unl me s then (Ret E_CTX, s)
      else if \<not> VALID_PDQID C pdqid then (Ret E_ID, s)
      else let i = INDEX_OBJ pdqid;
               (dspreq, s) = init_wait_queue me (Hdr (WAITQ (PDQ i))) s;
               (d, s) = init_wait_queue me (Hdr (RWAITQ (PDQ i))) s;
               dspreq = (if d then True else dspreq);
               s = upd_pdq i pdq_reset s
           in (Ret E_OK, t_dispatch_if me dspreq s))"

record t_rpdq = rpdq_stskid :: ident  rpdq_rtskid :: ident  spdqcnt :: nat

definition ref_pdq :: "cfg \<Rightarrow> prcix \<Rightarrow> ident \<Rightarrow> kstate \<Rightarrow> (ercd \<times> t_rpdq option) \<times> kstate" where
  "ref_pdq C me pdqid s =
     (if \<not> sense_tskctx_unl me s then ((E_CTX, None), s)
      else if \<not> VALID_PDQID C pdqid then ((E_ID, None), s)
      else let i = INDEX_OBJ pdqid in
        ((E_OK, Some \<lparr>rpdq_stskid = wait_tskid (Hdr (WAITQ (PDQ i))) s,
           rpdq_rtskid = wait_tskid (Hdr (RWAITQ (PDQ i))) s, spdqcnt = pdq_count (pdq s i)\<rparr>), s))"

section \<open>The linked blocks as a list\<close>

text \<open>The links and priorities of the blocks, as those of messages.\<close>

definition as_msg :: "(nat \<Rightarrow> pdqmb) \<Rightarrow> nat \<Rightarrow> msg" where
  "as_msg mb k = \<lparr>pk_next = pdqmb_next (mb k), msgpri = pdqmb_datapri (mb k)\<rparr>"

definition blk_val :: "(nat \<Rightarrow> pdqmb) \<Rightarrow> nat \<Rightarrow> intptr \<times> pri" where
  "blk_val mb k = (pdqmb_data (mb k), pdqmb_datapri (mb k))"

text \<open>\<open>pdq_rep cnt b xs fs\<close>: the blocks \<open>xs\<close> hold the data, the blocks \<open>fs\<close> are free.\<close>

definition pdq_rep :: "nat \<Rightarrow> pdqcb \<Rightarrow> nat list \<Rightarrow> nat list \<Rightarrow> bool" where
  "pdq_rep cnt b xs fs \<longleftrightarrow>
     mseg (as_msg (pdqmb_of b)) (p_head b) xs None \<and> mseg (as_msg (pdqmb_of b)) (p_freelist b) fs None \<and>
     distinct (xs @ fs) \<and> set (xs @ fs) = {..<pdq_unused b} \<and> pdq_unused b \<le> cnt \<and>
     pdq_count b = length xs \<and> sorted (map (\<lambda>k. snd (blk_val (pdqmb_of b) k)) xs)"

definition pdq_wf :: "nat \<Rightarrow> pdqcb \<Rightarrow> bool" where
  "pdq_wf cnt b \<longleftrightarrow> (\<exists>xs fs. pdq_rep cnt b xs fs)"

fun pdq_nodes :: "(nat \<Rightarrow> pdqmb) \<Rightarrow> nat \<Rightarrow> nat option \<Rightarrow> nat list" where
  "pdq_nodes mb (Suc n) (Some k) = k # pdq_nodes mb n (pdqmb_next (mb k))"
| "pdq_nodes mb _ _ = []"

definition pdq_list :: "pdqcb \<Rightarrow> (intptr \<times> pri) list" where
  "pdq_list b = map (blk_val (pdqmb_of b)) (pdq_nodes (pdqmb_of b) (pdq_count b) (p_head b))"

lemma as_msg_upd [simp]: "as_msg (mb(k := v)) = (as_msg mb)(k := \<lparr>pk_next = pdqmb_next v, msgpri = pdqmb_datapri v\<rparr>)"
  by (simp add: as_msg_def fun_eq_iff)

lemma as_msg_sel [simp]: "pk_next (as_msg mb k) = pdqmb_next (mb k)" "msgpri (as_msg mb k) = pdqmb_datapri (mb k)"
  by (simp_all add: as_msg_def)

lemma pdq_nodes_seg: "mseg (as_msg mb) a xs None \<Longrightarrow> pdq_nodes mb (length xs) a = xs"
  by (induction xs arbitrary: a) auto

lemma pdq_rep_list: "pdq_rep cnt b xs fs \<Longrightarrow> pdq_list b = map (blk_val (pdqmb_of b)) xs"
  by (simp add: pdq_list_def pdq_rep_def pdq_nodes_seg)

lemma pdq_rep_count:
  assumes "pdq_rep cnt b xs fs"
  shows "pdq_count b \<le> cnt"
proof -
  have "distinct (xs @ fs)" "set (xs @ fs) = {..<pdq_unused b}" "pdq_unused b \<le> cnt" "pdq_count b = length xs"
    using assms by (simp_all add: pdq_rep_def)
  then show ?thesis using distinct_card [of "xs @ fs"] by simp
qed

lemma pdq_wf_list:
  assumes "pdq_wf cnt b"
  shows "length (pdq_list b) = pdq_count b" "pdq_count b \<le> cnt" "sorted (map snd (pdq_list b))"
  using assms by (auto simp: pdq_wf_def pdq_rep_list pdq_rep_count comp_def) (auto simp: pdq_rep_def)

lemma pdq_reset [simp]: "pdq_wf cnt (pdq_reset b)" "pdq_list (pdq_reset b) = []" "pdq_count (pdq_reset b) = 0"
  by (auto simp: pdq_wf_def pdq_rep_def pdq_reset_def pdq_list_def intro!: exI [of _ "[]"])

lemma pdq_scan_returns:
  "mseg (as_msg mb) a ys None \<Longrightarrow>
   pdq_scan mb pr prev a =
     Some (let us = takeWhile (\<lambda>x. pdqmb_datapri (mb x) \<le> pr) ys in if us = [] then prev else Some (last us),
           mhead (dropWhile (\<lambda>x. pdqmb_datapri (mb x) \<le> pr) ys))"
proof (induction ys arbitrary: a prev)
  case Nil
  then show ?case by (subst pdq_scan.simps) (simp add: mhead_def)
next
  case (Cons y ys)
  then have y: "a = Some y" "mseg (as_msg mb) (pdqmb_next (mb y)) ys None" by auto
  show ?case
    using Cons.IH [OF y(2), of a] y(1)
    by (subst pdq_scan.simps) (auto simp: mhead_def Let_def)
qed

text \<open>The block that is taken leaves the data in place.\<close>

lemma pdq_alloc_rep:
  assumes r: "pdq_rep cnt b xs fs" and c: "length xs < cnt" and eq: "pdq_alloc b = (k, b1)"
  shows "\<exists>fs'. mseg (as_msg (pdqmb_of b)) (p_freelist b1) fs' None \<and> distinct (k # xs @ fs') \<and>
      set (k # xs @ fs') = {..<pdq_unused b1} \<and> pdq_unused b1 \<le> cnt"
    and "p_head b1 = p_head b" "pdqmb_of b1 = pdqmb_of b" "pdq_count b1 = pdq_count b"
proof -
  show "p_head b1 = p_head b" "pdqmb_of b1 = pdqmb_of b" "pdq_count b1 = pdq_count b"
    using eq by (auto simp: pdq_alloc_def split: option.splits)
  show "\<exists>fs'. mseg (as_msg (pdqmb_of b)) (p_freelist b1) fs' None \<and> distinct (k # xs @ fs') \<and>
      set (k # xs @ fs') = {..<pdq_unused b1} \<and> pdq_unused b1 \<le> cnt"
  proof (cases fs)
    case Nil
    then have f: "p_freelist b = None" using r by (simp add: pdq_rep_def)
    have u: "set xs = {..<pdq_unused b}" "distinct xs" using r Nil by (simp_all add: pdq_rep_def)
    have "pdq_unused b = length xs" using distinct_card [OF u(2)] u(1) by simp
    then have k: "k = pdq_unused b" "b1 = b\<lparr>pdq_unused := pdq_unused b + 1\<rparr>" using eq f by (auto simp: pdq_alloc_def)
    have "distinct (k # xs)" "set (k # xs) = {..<pdq_unused b1}" "pdq_unused b1 \<le> cnt" "p_freelist b1 = None"
      using u c k f \<open>pdq_unused b = length xs\<close> by (simp_all add: lessThan_Suc)
    then show ?thesis by (intro exI [of _ "[]"]) simp
  next
    case (Cons y ys)
    then have f: "p_freelist b = Some y" "mseg (as_msg (pdqmb_of b)) (pdqmb_next (pdqmb_of b y)) ys None"
      using r by (simp_all add: pdq_rep_def)
    have k: "k = y" "b1 = b\<lparr>p_freelist := pdqmb_next (pdqmb_of b y)\<rparr>" using eq f(1) by (auto simp: pdq_alloc_def)
    have "distinct (k # xs @ ys)" "set (k # xs @ ys) = {..<pdq_unused b1}" "pdq_unused b1 \<le> cnt"
      using r Cons by (auto simp: pdq_rep_def k)
    then show ?thesis using f(2) by (intro exI [of _ ys]) (simp add: k(2))
  qed
qed


lemma blk_sel [simp]:
  "pdqmb_of (upd_blk k f b) = (pdqmb_of b)(k := f (pdqmb_of b k))" "p_head (upd_blk k f b) = p_head b"
  "p_freelist (upd_blk k f b) = p_freelist b" "pdq_unused (upd_blk k f b) = pdq_unused b"
  "pdq_count (upd_blk k f b) = pdq_count b"
  by (simp_all add: upd_blk_def)

lemma enqueue_pridata_rep:
  assumes w: "pdq_wf cnt b" and c: "pdq_count b < cnt"
  shows "pdq_wf cnt (enqueue_pridata d p b)"
    and "pdq_list (enqueue_pridata d p b) = tpri_insert snd (d, p) (pdq_list b)"
    and "pdq_count (enqueue_pridata d p b) = pdq_count b + 1"
proof -
  obtain xs fs where r: "pdq_rep cnt b xs fs" using w by (auto simp: pdq_wf_def)
  obtain k b1 where al: "pdq_alloc b = (k, b1)" by fastforce
  let ?mb = "(pdqmb_of b)(k := (pdqmb_of b k)\<lparr>pdqmb_data := d, pdqmb_datapri := p\<rparr>)"
  let ?P = "\<lambda>x. pdqmb_datapri (pdqmb_of b x) \<le> p"
  define us vs where uv: "us = takeWhile ?P xs" "vs = dropWhile ?P xs"
  have lx: "length xs < cnt" using r c by (simp add: pdq_rep_def)
  note A = pdq_alloc_rep [OF r lx al]
  obtain fs' where F: "mseg (as_msg (pdqmb_of b)) (p_freelist b1) fs' None" "distinct (k # xs @ fs')"
    "set (k # xs @ fs') = {..<pdq_unused b1}" "pdq_unused b1 \<le> cnt" using A(1) by blast
  have seg: "mseg (as_msg ?mb) (p_head b) xs None" using r F(2) by (simp add: pdq_rep_def)
  have q: "takeWhile (\<lambda>x. pdqmb_datapri (?mb x) \<le> p) xs = us" "dropWhile (\<lambda>x. pdqmb_datapri (?mb x) \<le> p) xs = vs"
    unfolding uv using F(2) by (auto intro!: takeWhile_cong dropWhile_cong)
  have xs: "xs = us @ vs" by (simp add: uv)
  define m1 where "m1 = ?mb(k := (?mb k)\<lparr>pdqmb_next := mhead vs\<rparr>)"
  define mb' where "mb' = (if us = [] then m1 else m1(last us := (m1 (last us))\<lparr>pdqmb_next := Some k\<rparr>))"
  have sc: "pdq_scan ?mb p None (p_head b) = Some (if us = [] then None else Some (last us), mhead vs)"
    using pdq_scan_returns [OF seg, of p None] unfolding q Let_def .
  define b' where "b' = enqueue_pridata d p b"
  have sel: "pdqmb_of b' = mb'" "p_head b' = (if us = [] then Some k else p_head b)" "p_freelist b' = p_freelist b1"
    "pdq_unused b' = pdq_unused b1" "pdq_count b' = pdq_count b + 1"
    using sc A(2-4) by (simp_all add: b'_def enqueue_pridata_def al Let_def m1_def mb'_def)
  have "us \<noteq> [] \<Longrightarrow> last us \<in> set xs" by (simp add: xs)
  then have lk: "us \<noteq> [] \<Longrightarrow> last us \<noteq> k" "us \<noteq> [] \<Longrightarrow> last us \<notin> set fs'" using F(2) by auto
  have d: "distinct (us @ vs)" "k \<notin> set (us @ vs)" using F(2) xs by auto
  have mm: "as_msg mb' = (let ms1 = (as_msg ?mb)(k := (as_msg ?mb k)\<lparr>pk_next := mhead vs\<rparr>)
      in if us = [] then ms1 else ms1(last us := (ms1 (last us))\<lparr>pk_next := Some k\<rparr>))"
    using lk by (auto simp: mb'_def m1_def as_msg_def fun_eq_iff Let_def)
  have s1: "mseg (as_msg mb') (p_head b') (us @ k # vs) None"
    using mseg_insert [OF seg [unfolded xs] d] unfolding mm sel(2) Let_def by (cases "us = []") simp_all
  have s2: "mseg (as_msg mb') (p_freelist b') fs' None"
    using F(1,2) lk by (auto simp: mb'_def m1_def sel(3))
  have v: "blk_val mb' x = (if x = k then (d, p) else blk_val (pdqmb_of b) x)" for x
    using lk by (auto simp: blk_val_def mb'_def m1_def)
  have vu: "map (blk_val mb') us = map (blk_val (pdqmb_of b)) us" "map (blk_val mb') vs = map (blk_val (pdqmb_of b)) vs"
    using d(2) v by (auto intro!: map_cong)
  have L: "map (blk_val mb') (us @ k # vs) = tpri_insert snd (d, p) (map (blk_val (pdqmb_of b)) xs)"
    unfolding map_append list.map vu v by (simp add: tpri_insert_def takeWhile_map dropWhile_map uv comp_def blk_val_def)
  have srt: "sorted (map snd (map (blk_val (pdqmb_of b)) xs))" using r by (simp add: pdq_rep_def comp_def)
  have "sorted (map snd (map (blk_val mb') (us @ k # vs)))" unfolding L by (rule sorted_tpri_insert [OF srt])
  moreover have "distinct ((us @ k # vs) @ fs')" "set ((us @ k # vs) @ fs') = {..<pdq_unused b'}"
    using F(2,3) xs by (auto simp: sel(4))
  moreover have "pdq_count b' = length (us @ k # vs)" using r xs by (simp add: sel pdq_rep_def)
  ultimately have R: "pdq_rep cnt b' (us @ k # vs) fs'"
    using s1 s2 F(4) unfolding pdq_rep_def sel(1,4) by (simp add: comp_def)
  then show "pdq_wf cnt (enqueue_pridata d p b)" by (auto simp: pdq_wf_def b'_def)
  show "pdq_list (enqueue_pridata d p b) = tpri_insert snd (d, p) (pdq_list b)"
    using pdq_rep_list [OF R] pdq_rep_list [OF r] L by (simp add: sel(1) flip: b'_def)
  show "pdq_count (enqueue_pridata d p b) = pdq_count b + 1" using sel(5) by (simp add: b'_def)
qed

lemma dequeue_pridata_rep:
  assumes w: "pdq_wf cnt b" and c: "0 < pdq_count b" and eq: "dequeue_pridata b = (d, b')"
  shows "pdq_wf cnt b'" and "pdq_list b = d # pdq_list b'" and "pdq_count b' = pdq_count b - 1"
proof -
  obtain xs fs where r: "pdq_rep cnt b xs fs" using w by (auto simp: pdq_wf_def)
  then obtain x ys where xs: "xs = x # ys" using c by (cases xs) (auto simp: pdq_rep_def)
  have h: "p_head b = Some x" using r xs by (simp add: pdq_rep_def)
  have sel: "pdqmb_of b' = (pdqmb_of b)(x := (pdqmb_of b x)\<lparr>pdqmb_next := p_freelist b\<rparr>)"
    "p_head b' = pdqmb_next (pdqmb_of b x)" "p_freelist b' = Some x" "pdq_unused b' = pdq_unused b"
    "pdq_count b' = pdq_count b - 1" "d = blk_val (pdqmb_of b) x"
    using eq by (auto simp: dequeue_pridata_def Let_def h blk_val_def)
  have v: "blk_val (pdqmb_of b') = blk_val (pdqmb_of b)" by (auto simp: blk_val_def sel(1) fun_eq_iff)
  have "pdq_rep cnt b' ys (x # fs)"
    using r unfolding pdq_rep_def v by (auto simp: xs sel)
  then show "pdq_wf cnt b'" "pdq_list b = d # pdq_list b'" 
    using pdq_rep_list [OF r] pdq_rep_list [of cnt b' ys "x # fs"] by (auto simp: pdq_wf_def v xs sel(6))
  show "pdq_count b' = pdq_count b - 1" by (rule sel(5))
qed

section \<open>Specification\<close>

text \<open>
  The abstract priority data queue: the buffered data with their priorities in the order in which
  receptions return them, the waiting senders with their data, and the waiting receivers.  A datum
  goes behind those of the same or a higher priority.
\<close>

type_synonym apdq = "(intptr \<times> pri) abuf"

abbreviation apdq_send :: "nat \<Rightarrow> intptr \<times> pri \<Rightarrow> apdq \<Rightarrow> bool \<times> apdq" where
  "apdq_send \<equiv> abuf_send (tpri_insert snd)"

abbreviation apdq_recv :: "apdq \<Rightarrow> (intptr \<times> pri) option \<times> apdq" where
  "apdq_recv \<equiv> abuf_recv (tpri_insert snd)"

definition apdq :: "cfg \<Rightarrow> (qhdr \<Rightarrow> tskix list) \<Rightarrow> kstate \<Rightarrow> nat \<Rightarrow> apdq" where
  "apdq C Q s i = (pdq_list (pdq s i),
     map (\<lambda>t. (t, pdq_sent s t)) (Q (WAITQ (PDQ i))), Q (RWAITQ (PDQ i)))"

definition is_pdq :: "tcb \<Rightarrow> bool" where
  "is_pdq tc \<longleftrightarrow> (case winfo_obj tc of W_PDQ d p \<Rightarrow> True | _ \<Rightarrow> False)"

definition pdq_inv :: "cfg \<Rightarrow> (qhdr \<Rightarrow> tskix list) \<Rightarrow> kstate \<Rightarrow> nat \<Rightarrow> bool" where
  "pdq_inv C Q s i \<longleftrightarrow> pdq_wf (pdqcnt (pdqinib_table C i)) (pdq s i) \<and>
     (Q (WAITQ (PDQ i)) \<noteq> [] \<longrightarrow>
        pdq_count (pdq s i) = pdqcnt (pdqinib_table C i) \<and> Q (RWAITQ (PDQ i)) = []) \<and>
     (Q (RWAITQ (PDQ i)) \<noteq> [] \<longrightarrow> pdq_count (pdq s i) = 0) \<and>
     (\<forall>t \<in> set (Q (WAITQ (PDQ i))). is_pdq (tcb_of s t))"

definition pdq_frame :: "nat \<Rightarrow> (qhdr \<Rightarrow> tskix list) \<Rightarrow> kstate \<Rightarrow> (qhdr \<Rightarrow> tskix list) \<Rightarrow> kstate \<Rightarrow> bool" where
  "pdq_frame i Q s Q' s' \<longleftrightarrow> keeps {WAITQ (PDQ i), RWAITQ (PDQ i)} Q s Q' s' \<and>
     (\<forall>j. j \<noteq> i \<longrightarrow> pdq s' j = pdq s j) \<and>
     (objs s')\<lparr>pdqcb_of := pdqcb_of (objs s)\<rparr> = objs s"

lemma upd_pdq_sel [simp]:
  "tcb_of (upd_pdq i f s) = tcb_of s" "pcb_of (upd_pdq i f s) = pcb_of s" "kq (upd_pdq i f s) = kq s"
  "pdq (upd_pdq i f s) j = (if j = i then f (pdq s i) else pdq s j)"
  "(objs (upd_pdq i f s))\<lparr>pdqcb_of := x\<rparr> = (objs s)\<lparr>pdqcb_of := x\<rparr>"
  by (simp_all add: upd_pdq_def pdq_def)

lemma kinv_upd_pdq [simp]: "kinv C P Q (upd_pdq i f s) = kinv C P Q s"
  by (simp add: upd_pdq_def)

lemma pdq_frame_refl [simp]: "pdq_frame i Q s Q s"
  by (simp add: pdq_frame_def)

lemma pdq_frame_upd [simp]: "pdq_frame i Q s Q (upd_pdq i f s)"
  by (simp add: pdq_frame_def keeps_def)

lemma pdq_frame_objs:
  "keeps {WAITQ (PDQ i), RWAITQ (PDQ i)} Q s Q' s' \<Longrightarrow> objs s' = objs s \<Longrightarrow> pdq_frame i Q s Q' s'"
  by (simp add: pdq_frame_def pdq_def)

lemma pdq_frame_trans:
  assumes a: "pdq_frame i Q s Q1 s1" and b: "pdq_frame i Q1 s1 Q2 s2"
  shows "pdq_frame i Q s Q2 s2"
proof -
  have "objs s1 = (objs s2)\<lparr>pdqcb_of := pdqcb_of (objs s1)\<rparr>" using b by (simp add: pdq_frame_def)
  then have "(objs s2)\<lparr>pdqcb_of := pdqcb_of (objs s)\<rparr> = (objs s1)\<lparr>pdqcb_of := pdqcb_of (objs s)\<rparr>"
    by (rule ssubst) simp
  then show ?thesis using a b keeps_trans by (auto simp: pdq_frame_def)
qed

definition pdq_step :: "cfg \<Rightarrow> nat \<Rightarrow> (qhdr \<Rightarrow> tskix list) \<Rightarrow> kstate \<Rightarrow> apdq \<Rightarrow> kstate \<Rightarrow> bool" where
  "pdq_step C i Q s a s' \<longleftrightarrow>
     (\<exists>Q'. kinv C {} Q' s' \<and> pdq_frame i Q s Q' s' \<and> pdq_inv C Q' s' i \<and> apdq C Q' s' i = a)"

section \<open>The steps of the services\<close>

interpretation pq: buffer_queue PDQ TS_WAIT_SPDQ TS_WAIT_RPDQ pdq upd_pdq
  "\<lambda>C i. pdqcnt (pdqinib_table C i)" pdq_wf pdq_count "\<lambda>_. pdq_list" "\<lambda>_ d. enqueue_pridata (fst d) (snd d)" "\<lambda>_. dequeue_pridata" "tpri_insert snd"
  "\<lambda>d. W_PDQ (fst d) (snd d)" "\<lambda>w. (pdq_data w, datapri w)" "\<lambda>w. case w of W_PDQ d p \<Rightarrow> True | _ \<Rightarrow> False" pdq_inv apdq pdq_frame pdq_step
proof (unfold_locales, goal_cases)
  case (8 i f s)
  show ?case by simp
next
  case (11 i Q s Q' s' f)
  then show ?case by (auto simp: pdq_frame_def pdq_def upd_pdq_def)
next
  case (14 n b d)
  then show ?case using enqueue_pridata_rep [OF 14] by (cases d) simp
next
  case (15 n b d b')
  then show ?case using dequeue_pridata_rep [OF 15] by simp
qed (auto simp: wait_status_def tstat_consts pdq_def upd_pdq_def pdq_wf_list pdq_inv_def is_pdq_def apdq_def pdq_sent_def pdq_step_def split: winfo.splits)

lemma pdq_step_refl: "kinv C {} Q s \<Longrightarrow> pdq_inv C Q s i \<Longrightarrow> pdq_step C i Q s (apdq C Q s i) s"
  by (rule pq.step_refl)

section \<open>Every service refines the specification and keeps the invariants\<close>

lemma pdq_pass_first_step:
  assumes K: "kinv C {} Q s" and I: "pdq_inv C Q s i" and R: "Q (RWAITQ (PDQ i)) = t # ts"
  shows "pdq_step C i Q s (snd (apdq_send cap (data, dpri) (apdq C Q s i))) (t_pdq_pass_first me i data dpri s)"
    and "pdq_step C i Q s (snd (apdq_send cap (data, dpri) (apdq C Q s i))) (i_pdq_pass_first me i data dpri s)"
    and "fst (apdq_send cap (data, dpri) (apdq C Q s i))"
proof -
  note w = first_waiter_hd [OF K R]
  obtain b s1 where p: "pdq_pass t data dpri s = (b, s1)" by fastforce
  obtain dr s2 where d: "t_request me (p_pcb (tcb_of s t)) b s1 = (dr, s2)" by fastforce
  note P = pq.passed [where d = "(data, dpri)", unfolded fst_conv snd_conv, OF K I R p [unfolded pdq_pass_def Let_def]]
  show "pdq_step C i Q s (snd (apdq_send cap (data, dpri) (apdq C Q s i))) (t_pdq_pass_first me i data dpri s)"
    using P(1) [OF d] by (simp add: t_pdq_pass_first_def w p d)
  show "pdq_step C i Q s (snd (apdq_send cap (data, dpri) (apdq C Q s i))) (i_pdq_pass_first me i data dpri s)"
    using P(2) by (simp add: i_pdq_pass_first_def w p)
  show "fst (apdq_send cap (data, dpri) (apdq C Q s i))" by (rule P(3))
qed

lemma upd_pdq_upd: "upd_pdq i g (upd_pdq i f s) = upd_pdq i (\<lambda>b. g (f b)) s"
  by (simp add: upd_pdq_def)

lemma upd_pdq_id: "upd_pdq i (\<lambda>_. pdq s i) s = s"
  by (simp add: upd_pdq_def pdq_def)

lemma pdq_take_shift:
  assumes p: "pdq_take i t s = (x, b, s1)"
  shows "\<exists>b1 b'. (if 0 < pdq_count (pdq s i)
        then dequeue_pridata (pdq s i) = (x, b1) \<and>
          b' = enqueue_pridata (fst (pdq_sent s t)) (snd (pdq_sent s t)) b1
        else x = pdq_sent s t \<and> b' = pdq s i) \<and>
      wait_complete t (on_kq (queue_delete (Ent t)) (upd_pdq i (\<lambda>_. b') s)) = (b, s1)"
proof -
  have c: "on_kq q (upd_pdq i f s) = upd_pdq i f (on_kq q s)" for q f
    by (simp add: on_kq_def upd_pdq_def)
  have d: "pdq (on_kq q s) = pdq s" for q by (simp add: on_kq_def pdq_def fun_eq_iff)
  show ?thesis
    using p upd_pdq_id [of i "on_kq (queue_delete (Ent t)) s"]
    by (cases "dequeue_pridata (pdq s i)")
       (auto simp: pdq_take_def pdq_get_def Let_def c d upd_pdq_upd pdq_sent_def split: prod.splits if_splits)
qed

lemma pdq_take_first_step:
  assumes K: "kinv C {} Q s" and I: "pdq_inv C Q s i" and W: "Q (WAITQ (PDQ i)) = t # ts"
    and eq: "t_pdq_take_first me i s = (x, s')"
  shows "pdq_step C i Q s (snd (apdq_recv (apdq C Q s i))) s'"
    and "fst (apdq_recv (apdq C Q s i)) = Some x"
proof -
  note w = first_waiter_hd [OF K W]
  obtain y b s1 where p: "pdq_take i t s = (y, b, s1)" by (metis prod_cases3)
  obtain dr s2 where d: "t_request me (p_pcb (tcb_of s t)) b s1 = (dr, s2)" by fastforce
  obtain b1 b' where sh: "if 0 < pdq_count (pdq s i)
        then dequeue_pridata (pdq s i) = (y, b1) \<and>
          b' = enqueue_pridata (fst (pdq_sent s t)) (snd (pdq_sent s t)) b1
        else y = pdq_sent s t \<and> b' = pdq s i"
      "wait_complete t (on_kq (queue_delete (Ent t)) (upd_pdq i (\<lambda>_. b') s)) = (b, s1)"
    using pdq_take_shift [OF p] by blast
  have "x = y" "s' = t_dispatch_if me dr s2" using eq by (simp_all add: t_pdq_take_first_def w p d)
  then show "pdq_step C i Q s (snd (apdq_recv (apdq C Q s i))) s'"
    "fst (apdq_recv (apdq C Q s i)) = Some x"
    using pq.taken [OF K I W sh(1) [unfolded pdq_sent_def] sh(2) d] by auto
qed

lemma pdq_get_step:
  assumes K: "kinv C {} Q s" and I: "pdq_inv C Q s i" and W: "Q (WAITQ (PDQ i)) = []"
    and c: "0 < pdq_count (pdq s i)" and eq: "pdq_get i s = (x, s')"
  shows "pdq_step C i Q s (snd (apdq_recv (apdq C Q s i))) s'"
    and "fst (apdq_recv (apdq C Q s i)) = Some x"
proof -
  obtain y b' where d: "dequeue_pridata (pdq s i) = (y, b')" by fastforce
  then have "x = y" "s' = upd_pdq i (\<lambda>_. b') s" using eq by (auto simp: pdq_get_def)
  then show "pdq_step C i Q s (snd (apdq_recv (apdq C Q s i))) s'" "fst (apdq_recv (apdq C Q s i)) = Some x"
    using pq.got [OF K I W c d] by auto
qed

text \<open>
  A send accepts the datum as \<open>apdq_send\<close> does, or blocks its task behind the senders (in the
  order \<open>wait_insert\<close> of the queue) when \<open>apdq_send\<close> refuses it.
\<close>

definition pdq_blocked :: "cfg \<Rightarrow> nat \<Rightarrow> (qhdr \<Rightarrow> tskix list) \<Rightarrow> kstate \<Rightarrow> tskix \<Rightarrow> intptr \<times> pri \<Rightarrow> apdq" where
  "pdq_blocked C i Q s t data =
     (pdq_list (pdq s i),
      map (\<lambda>u. (u, if u = t then data else pdq_sent s u))
        (wait_insert C (\<lambda>u. priority (tcb_of s u)) (PDQ i) t (Q (WAITQ (PDQ i)))), [])"

lemma snd_pdq_refines:
  assumes K: "kinv C {} Q s" and I: "pdq_inv C Q s (INDEX_OBJ pdqid)" and c: "sense_tskctx_unl me s"
    and v: "VALID_PDQID C pdqid" and par: "pdq_par C (INDEX_OBJ pdqid) dpri" and dsp: "dspflg (pcb_of s me)"
    and run: "TSTAT_RUNNABLE (tstat (tcb_of s (runtsk me s)))"
    and eq: "snd_pdq C me pdqid data dpri s = (r, s')"
  defines "i \<equiv> INDEX_OBJ pdqid"
  defines "a \<equiv> apdq_send (pdqcnt (pdqinib_table C i)) (data, dpri) (apdq C Q s i)"
  shows "if fst a then r = Ret E_OK \<and> pdq_step C i Q s (snd a) s'
    else r = Blocks (runtsk me s) \<and> pdq_step C i Q s (pdq_blocked C i Q s (runtsk me s) (data, dpri)) s'"
proof (cases "Q (RWAITQ (PDQ i))")
  case (Cons t ts)
  then have "r = Ret E_OK" "s' = t_pdq_pass_first me i data dpri s"
    using eq c v par dsp kinvD(4) [OF K] by (auto simp: snd_pdq_def Let_def i_def)
  then show ?thesis
    using pdq_pass_first_step(1,3) [OF K I [folded i_def] Cons] by (simp add: a_def)
next
  case Nil
  note R = Nil
  show ?thesis
  proof (cases "pdq_full C i s")
    case False
    then have "r = Ret E_OK" "s' = upd_pdq i (enqueue_pridata data dpri) s"
      using eq c v par dsp kinvD(4) [OF K] R by (auto simp: snd_pdq_def Let_def i_def)
    then show ?thesis using pq.enqueued [where d = "(data, dpri)", OF K I [folded i_def] R] False [unfolded pdq_full_def] by (simp add: a_def)
  next
    case True
    let ?t = "runtsk me s"
    have r: "r = Blocks ?t" "s' = dispatch me (wobj_make_wait C (PDQ i) ?t
        (upd_tcb ?t (enter_wait TS_WAIT_SPDQ (W_PDQ data dpri)) s))"
      using eq c v par dsp run kinvD(4) [OF K] R True
      by (auto simp: snd_pdq_def Let_def i_def enter_wait_winfo)
    note B = pq.send_blocks [where d = "(data, dpri)", unfolded fst_conv snd_conv, OF K I [folded i_def] runtsk_may_block [OF K c run] R True [unfolded pdq_full_def] disjI1 [OF refl] refl]
    show ?thesis using B r unfolding a_def pdq_blocked_def pdq_sent_def by simp
  qed
qed

lemma rcv_pdq_refines:
  assumes K: "kinv C {} Q s" and I: "pdq_inv C Q s (INDEX_OBJ pdqid)" and c: "sense_tskctx_unl me s"
    and v: "VALID_PDQID C pdqid" and dsp: "dspflg (pcb_of s me)"
    and run: "TSTAT_RUNNABLE (tstat (tcb_of s (runtsk me s)))"
    and eq: "rcv_pdq C me pdqid s = (r, s')"
  defines "i \<equiv> INDEX_OBJ pdqid"
  shows "case apdq_recv (apdq C Q s i) of
      (Some d, a) \<Rightarrow> r = Ret (E_OK, Some d) \<and> pdq_step C i Q s a s'
    | (None, _) \<Rightarrow> r = Blocks (runtsk me s) \<and>
        pdq_step C i Q s ([], [], Q (RWAITQ (PDQ i)) @ [runtsk me s]) s'"
proof (cases "Q (WAITQ (PDQ i))")
  case (Cons t ts)
  obtain x s1 where p: "t_pdq_take_first me i s = (x, s1)" by fastforce
  then have "r = Ret (E_OK, Some x)" "s' = s1"
    using eq c v dsp kinvD(4) [OF K] Cons by (auto simp: rcv_pdq_def Let_def i_def)
  then show ?thesis
    using pdq_take_first_step [OF K I [folded i_def] Cons p] by (auto split: prod.split)
next
  case Nil
  note W = Nil
  show ?thesis
  proof (cases "0 < pdq_count (pdq s i)")
    case True
    obtain x s1 where p: "pdq_get i s = (x, s1)" by fastforce
    then have "r = Ret (E_OK, Some x)" "s' = s1"
      using eq c v dsp kinvD(4) [OF K] W True by (auto simp: rcv_pdq_def Let_def i_def)
    then show ?thesis
      using pdq_get_step [OF K I [folded i_def] W True p] by (auto split: prod.split)
  next
    case False
    let ?t = "runtsk me s"
    have r: "r = Blocks ?t" "s' = dispatch me (set_wobjcb ?t (PDQ i)
        (on_kq (queue_insert_prev (Hdr (RWAITQ (PDQ i))) (Ent ?t))
          (make_wait ?t (upd_tcb ?t (enter_wait TS_WAIT_RPDQ (winfo_obj (tcb_of s ?t))) s))))"
      using eq c v dsp run kinvD(4) [OF K] W False
      by (auto simp: rcv_pdq_def Let_def i_def set_tstat_enter_wait)
    have z: "pdq_count (pdq s i) = 0" using False by simp
    note B = pq.recv_blocks [OF K I [folded i_def] runtsk_may_block [OF K c run] W z disjI1 [OF refl] refl]
    show ?thesis using B r by simp
  qed
qed

text \<open>\<open>pdq_keep\<close>: a step that keeps the invariants, with whatever abstract effect.\<close>

definition pdq_keep :: "cfg \<Rightarrow> nat \<Rightarrow> (qhdr \<Rightarrow> tskix list) \<Rightarrow> kstate \<Rightarrow> kstate \<Rightarrow> bool" where
  "pdq_keep C i Q s s' \<longleftrightarrow> (\<exists>a. pdq_step C i Q s a s')"

lemma pdq_keepI: "pdq_step C i Q s a s' \<Longrightarrow> pdq_keep C i Q s s'"
  unfolding pdq_keep_def by (rule exI)

lemma pdq_send_keep:
  assumes K: "kinv C {} Q s" and I: "pdq_inv C Q s i"
  shows "pdq_keep C i Q s s"
    and "\<not> queue_empty (Hdr (RWAITQ (PDQ i))) (kq s) \<Longrightarrow> pdq_keep C i Q s (t_pdq_pass_first me i data dpri s)"
    and "\<not> queue_empty (Hdr (RWAITQ (PDQ i))) (kq s) \<Longrightarrow> pdq_keep C i Q s (i_pdq_pass_first me i data dpri s)"
    and "queue_empty (Hdr (RWAITQ (PDQ i))) (kq s) \<Longrightarrow> \<not> pdq_full C i s \<Longrightarrow>
      pdq_keep C i Q s (upd_pdq i (enqueue_pridata data dpri) s)"
    and "queue_empty (Hdr (RWAITQ (PDQ i))) (kq s) \<Longrightarrow> pdq_full C i s \<Longrightarrow> sense_tskctx_unl me s \<Longrightarrow>
      TSTAT_RUNNABLE (tstat (tcb_of s (runtsk me s))) \<Longrightarrow>
      s1 = wobj_make_wait C (PDQ i) (runtsk me s) (upd_tcb (runtsk me s) (enter_wait TS_WAIT_SPDQ (W_PDQ data dpri)) s) \<or>
      s1 = wobj_make_wait_tmout C (PDQ i) tmout (runtsk me s) (upd_tcb (runtsk me s) (enter_wait TS_WAIT_SPDQ (W_PDQ data dpri)) s) \<Longrightarrow>
      pdq_keep C i Q s (dispatch me s1)"
proof -
  note R = kinvD(4) [OF K]
  show "pdq_keep C i Q s s" by (rule pdq_keepI [OF pdq_step_refl [OF K I]])
  show "pdq_keep C i Q s (t_pdq_pass_first me i data dpri s)" "pdq_keep C i Q s (i_pdq_pass_first me i data dpri s)"
    if ne: "\<not> queue_empty (Hdr (RWAITQ (PDQ i))) (kq s)"
  proof -
    obtain t ts where "Q (RWAITQ (PDQ i)) = t # ts" using ne unfolding qrep_queue_empty [OF R] neq_Nil_conv by blast
    note P = pdq_pass_first_step(1,2) [OF K I this]
    show "pdq_keep C i Q s (t_pdq_pass_first me i data dpri s)" by (rule pdq_keepI [OF P(1)])
    show "pdq_keep C i Q s (i_pdq_pass_first me i data dpri s)" by (rule pdq_keepI [OF P(2)])
  qed
  assume "queue_empty (Hdr (RWAITQ (PDQ i))) (kq s)"
  then have e: "Q (RWAITQ (PDQ i)) = []" using R by simp
  show "pdq_keep C i Q s (upd_pdq i (enqueue_pridata data dpri) s)" if "\<not> pdq_full C i s"
    using pq.enqueued(1) [where d = "(data, dpri)", OF K I e] that by (intro pdq_keepI) (simp add: pdq_full_def)
  show "pdq_keep C i Q s (dispatch me s1)" if "pdq_full C i s" "sense_tskctx_unl me s"
      "TSTAT_RUNNABLE (tstat (tcb_of s (runtsk me s)))"
      "s1 = wobj_make_wait C (PDQ i) (runtsk me s) (upd_tcb (runtsk me s) (enter_wait TS_WAIT_SPDQ (W_PDQ data dpri)) s) \<or>
      s1 = wobj_make_wait_tmout C (PDQ i) tmout (runtsk me s) (upd_tcb (runtsk me s) (enter_wait TS_WAIT_SPDQ (W_PDQ data dpri)) s)"
    by (rule pdq_keepI [OF pq.send_blocks(1) [where d = "(data, dpri)", unfolded fst_conv snd_conv, OF K I runtsk_may_block [OF K that(2,3)] e that(1) [unfolded pdq_full_def] that(4) refl]])
qed

lemma pdq_recv_keep:
  assumes K: "kinv C {} Q s" and I: "pdq_inv C Q s i"
  shows "\<not> queue_empty (Hdr (WAITQ (PDQ i))) (kq s) \<Longrightarrow> pdq_keep C i Q s (snd (t_pdq_take_first me i s))"
    and "queue_empty (Hdr (WAITQ (PDQ i))) (kq s) \<Longrightarrow> 0 < pdq_count (pdq s i) \<Longrightarrow>
      pdq_keep C i Q s (snd (pdq_get i s))"
    and "queue_empty (Hdr (WAITQ (PDQ i))) (kq s) \<Longrightarrow> pdq_count (pdq s i) = 0 \<Longrightarrow> sense_tskctx_unl me s \<Longrightarrow>
      TSTAT_RUNNABLE (tstat (tcb_of s (runtsk me s))) \<Longrightarrow>
      s2 = make_wait (runtsk me s) (upd_tcb (runtsk me s) (enter_wait TS_WAIT_RPDQ (winfo_obj (tcb_of s (runtsk me s)))) s) \<or>
      s2 = make_wait_tmout tmout me (upd_tcb (runtsk me s) (enter_wait TS_WAIT_RPDQ (winfo_obj (tcb_of s (runtsk me s)))) s) \<Longrightarrow>
      pdq_keep C i Q s (dispatch me (set_wobjcb (runtsk me s) (PDQ i)
        (on_kq (queue_insert_prev (Hdr (RWAITQ (PDQ i))) (Ent (runtsk me s))) s2)))"
proof -
  note R = kinvD(4) [OF K]
  show "pdq_keep C i Q s (snd (t_pdq_take_first me i s))" if ne: "\<not> queue_empty (Hdr (WAITQ (PDQ i))) (kq s)"
  proof -
    obtain t ts where W: "Q (WAITQ (PDQ i)) = t # ts" using ne unfolding qrep_queue_empty [OF R] neq_Nil_conv by blast
    show ?thesis using pdq_take_first_step(1) [OF K I W surjective_pairing] by (rule pdq_keepI)
  qed
  assume "queue_empty (Hdr (WAITQ (PDQ i))) (kq s)"
  then have e: "Q (WAITQ (PDQ i)) = []" using R by simp
  show "pdq_keep C i Q s (snd (pdq_get i s))" if "0 < pdq_count (pdq s i)"
    using pdq_get_step(1) [OF K I e that surjective_pairing] by (rule pdq_keepI)
  show "pdq_keep C i Q s (dispatch me (set_wobjcb (runtsk me s) (PDQ i)
        (on_kq (queue_insert_prev (Hdr (RWAITQ (PDQ i))) (Ent (runtsk me s))) s2)))"
    if "pdq_count (pdq s i) = 0" "sense_tskctx_unl me s" "TSTAT_RUNNABLE (tstat (tcb_of s (runtsk me s)))"
      "s2 = make_wait (runtsk me s) (upd_tcb (runtsk me s) (enter_wait TS_WAIT_RPDQ (winfo_obj (tcb_of s (runtsk me s)))) s) \<or>
      s2 = make_wait_tmout tmout me (upd_tcb (runtsk me s) (enter_wait TS_WAIT_RPDQ (winfo_obj (tcb_of s (runtsk me s)))) s)"
    using pq.recv_blocks(1) [OF K I runtsk_may_block [OF K that(2,3)] e that(1,4) refl] by (rule pdq_keepI)
qed

lemma pdq_services_keep:
  assumes K: "kinv C {} Q s" and I: "pdq_inv C Q s (INDEX_OBJ pdqid)"
  shows "pdq_keep C (INDEX_OBJ pdqid) Q s (snd (snd_pdq C me pdqid data dpri s))"
    and "pdq_keep C (INDEX_OBJ pdqid) Q s (snd (psnd_pdq C me pdqid data dpri s))"
    and "pdq_keep C (INDEX_OBJ pdqid) Q s (snd (ipsnd_pdq C me pdqid data dpri s))"
    and "pdq_keep C (INDEX_OBJ pdqid) Q s (snd (tsnd_pdq C me pdqid data dpri tmout s))"
    and "pdq_keep C (INDEX_OBJ pdqid) Q s (snd (rcv_pdq C me pdqid s))"
    and "pdq_keep C (INDEX_OBJ pdqid) Q s (snd (prcv_pdq C me pdqid s))"
    and "pdq_keep C (INDEX_OBJ pdqid) Q s (snd (trcv_pdq C me pdqid tmout s))"
  using pdq_send_keep(1-4) [OF K I] pdq_recv_keep(1,2) [OF K I]
    pdq_send_keep(5) [OF K I _ _ _ _ disjI1 [OF refl], where data = data and dpri = dpri]
    pdq_send_keep(5) [OF K I _ _ _ _ disjI2 [OF refl], where data = data and dpri = dpri and tmout = tmout]
    pdq_recv_keep(3) [OF K I _ _ _ _ disjI1 [OF refl]]
    pdq_recv_keep(3) [OF K I _ _ _ _ disjI2 [OF refl], where tmout = tmout]
  by (simp_all add: snd_pdq_def psnd_pdq_def ipsnd_pdq_def tsnd_pdq_def
      rcv_pdq_def prcv_pdq_def trcv_pdq_def Let_def set_tstat_enter_wait enter_wait_absorb split_beta)

lemma ini_pdq_keep:
  assumes K: "kinv C {} Q s" and I: "pdq_inv C Q s (INDEX_OBJ pdqid)"
  shows "pdq_keep C (INDEX_OBJ pdqid) Q s (snd (ini_pdq C me pdqid s))"
proof (cases "sense_tskctx_unl me s \<and> VALID_PDQID C pdqid")
  case True
  let ?i = "INDEX_OBJ pdqid"
  let ?W = "WAITQ (PDQ ?i)" and ?R = "RWAITQ (PDQ ?i)"
  obtain d1 s1 where w1: "init_wait_queue me (Hdr ?W) s = (d1, s1)" by fastforce
  obtain d2 s2 where w2: "init_wait_queue me (Hdr ?R) s1 = (d2, s2)" by fastforce
  let ?u = "upd_pdq ?i pdq_reset s2"
  let ?s = "t_dispatch_if me (if d2 then True else d1) ?u"
  have r: "snd (ini_pdq C me pdqid s) = ?s"
    using w1 w2 True by (simp add: ini_pdq_def Let_def)
  obtain Q1 where Q1: "kinv C (if d1 then insert me {} else {}) Q1 s1" "Q1 ?W = []" "same_waits ?W Q Q1"
    "objs s1 = objs s" "tcb_of s1 = all_ended E_DLT (Q ?W) (tcb_of s)"
    using init_wait_queue_kinv [OF K _ w1] by auto
  obtain Q2 where Q2: "kinv C (if d2 then insert me (if d1 then insert me {} else {}) else (if d1 then insert me {} else {})) Q2 s2"
    "Q2 ?R = []" "same_waits ?R Q1 Q2" "objs s2 = objs s1" "tcb_of s2 = all_ended E_DLT (Q1 ?R) (tcb_of s1)"
    using init_wait_queue_kinv [OF Q1(1) _ w2] by auto
  have "kinv C (if (if d2 then True else d1) then insert me {} else {}) Q2 ?u"
    using Q2(1) by (auto split: if_splits)
  then have K': "kinv C {} Q2 ?s" by (rule t_dispatch_if_kinv)
  have W2: "Q2 ?W = []" using Q2(3) Q1(2) by (simp add: same_waits_def)
  have k2: "keeps {?W, ?R} Q s Q2 s2"
    by (rule keeps_trans [OF keeps_init [OF Q1(3,2,5)] keeps_init [OF Q2(3,2,5)]])
  have tc2: "tcb_of ?s = tcb_of s2" by simp
  have "keeps {?W, ?R} Q s Q2 ?s" unfolding keeps_same_tcb [OF tc2] by (rule k2)
  then have "pdq_frame ?i Q s Q2 ?s"
    unfolding pdq_frame_def by (intro conjI) (use Q1(4) Q2(4) in \<open>simp_all add: pdq_def upd_pdq_def\<close>)
  moreover have "pdq ?s ?i = pdq_reset (pdq s ?i)" using Q1(4) Q2(4) by (simp add: pdq_def upd_pdq_def)
  then have "pdq_inv C Q2 ?s ?i" using W2 Q2(2) by (simp add: pdq_inv_def)
  ultimately have "pdq_step C ?i Q s (apdq C Q2 ?s ?i) ?s" using K' unfolding pdq_step_def by blast
  then show ?thesis unfolding r by (rule pdq_keepI)
qed (use pdq_send_keep(1) [OF K I] in \<open>auto simp: ini_pdq_def\<close>)

text \<open>A step that touches no data queue and adds no waiter keeps the invariant of each.\<close>

lemma pdq_inv_keeps:
  assumes I: "pdq_inv C Q s i" and k: "keeps H Q s Q' s'"
    and h: "WAITQ (PDQ i) \<notin> H" "RWAITQ (PDQ i) \<notin> H"
    and o: "pdqcb_of (objs s') i = pdqcb_of (objs s) i"
  shows "pdq_inv C Q' s' i"
  by (rule pq.inv_keeps [OF I k h]) (simp add: pdq_def o)

end
