(* ===== verification/Mempfix.thy ===== *)
theory Mempfix
  imports Wait_Inv
begin

text \<open>
  Fixed-sized memory pools (\<open>kernel/mempfix.c\<close>).  A block is named by its address; its index
  is its offset from the pool's base divided by the block size.  \<open>rel_mpf\<close> checks the block
  before it locks the CPU and the object: \<open>rel_mpf_1\<close> is the check, \<open>rel_mpf_2\<close> the section
  under the lock, and \<open>rel_mpf\<close> the two of them with nothing in between.  \<open>mpf_inv\<close> relates the
  free list, \<open>unused\<close> and \<open>fblkcnt\<close>.
\<close>

section \<open>Services\<close>

definition mpf :: "kstate \<Rightarrow> nat \<Rightarrow> mpfcb" where "mpf s i = mpfcb_of (objs s) i"

definition upd_mpf :: "nat \<Rightarrow> (mpfcb \<Rightarrow> mpfcb) \<Rightarrow> kstate \<Rightarrow> kstate" where
  "upd_mpf i f s =
     s\<lparr>objs := (objs s)\<lparr>mpfcb_of := (mpfcb_of (objs s))(i := f (mpfcb_of (objs s) i))\<rparr>\<rparr>"

definition tnum_mpf :: "cfg \<Rightarrow> nat" where "tnum_mpf C = uint_cast (tmax_mpfid C)"

definition INDEX_NULL :: nat where "INDEX_NULL = 0xFFFFFFFF"
definition INDEX_ALLOC :: nat where "INDEX_ALLOC = 0xFFFFFFFE"

definition mpf_reset :: "cfg \<Rightarrow> nat \<Rightarrow> mpfcb \<Rightarrow> mpfcb" where
  "mpf_reset C i b = b\<lparr>fblkcnt := blkcnt (mpfinib_table C i), mpf_unused := 0, freelist := INDEX_NULL\<rparr>"

fun init_mpfs :: "cfg \<Rightarrow> nat \<Rightarrow> kstate \<Rightarrow> kstate" where
  "init_mpfs C 0 s = s"
| "init_mpfs C (Suc i) s =
     (let s = init_mpfs C i s;
          s = on_kq (queue_initialize (Hdr (WAITQ (MPF i)))) s
      in upd_mpf i (mpf_reset C i) s)"

definition initialize_mempfix :: "cfg \<Rightarrow> bool \<Rightarrow> kstate \<Rightarrow> kstate" where
  "initialize_mempfix C x_sense_mprc s = (if x_sense_mprc then init_mpfs C (tnum_mpf C) s else s)"

text \<open>\<open>get_mpf_block\<close>: the new control block and the address stored through \<open>p_blk\<close>.\<close>

definition get_mpf_block :: "mpfinib \<Rightarrow> mpfcb \<Rightarrow> nat \<times> mpfcb" where
  "get_mpf_block ini b =
     (let (blkidx, b) =
            (if freelist b \<noteq> INDEX_NULL
             then (freelist b, b\<lparr>freelist := mpfmb_next b (freelist b)\<rparr>)
             else (mpf_unused b, b\<lparr>mpf_unused := mpf_unused b + 1\<rparr>));
          blk = mpf_base ini + blksz ini * blkidx;
          b = b\<lparr>fblkcnt := fblkcnt b - 1\<rparr>
      in (blk, b\<lparr>mpfmb_next := (mpfmb_next b)(blkidx := INDEX_ALLOC)\<rparr>))"

definition mpf_take :: "cfg \<Rightarrow> nat \<Rightarrow> kstate \<Rightarrow> nat \<times> kstate" where
  "mpf_take C i s =
     (let (blk, b) = get_mpf_block (mpfinib_table C i) (mpf s i) in (blk, upd_mpf i (\<lambda>_. b) s))"

text \<open>A task that blocks finds the block in its \<open>winfo_obj\<close>.\<close>

definition get_mpf :: "cfg \<Rightarrow> prcix \<Rightarrow> ident \<Rightarrow> kstate \<Rightarrow> (ercd \<times> nat option) svc \<times> kstate" where
  "get_mpf C me mpfid s =
     (if \<not> sense_tskctx_unl me s then (Ret (E_CTX, None), s)
      else if \<not> VALID_MPFID C mpfid then (Ret (E_ID, None), s)
      else let i = INDEX_OBJ mpfid in
        if \<not> dspflg (pcb_of s me) then (Ret (E_CTX, None), s)
        else if 0 < fblkcnt (mpf s i) then
          (let (blk, s) = mpf_take C i s in (Ret (E_OK, Some blk), s))
        else if \<not> TSTAT_RUNNABLE (tstat (tcb_of s (runtsk me s))) then (Again, s)
        else
          (let t = runtsk me s;
               s = set_tstat t (TS_WAITING OR TS_WAIT_MPF) s;
               s = wobj_make_wait C (MPF i) t s
           in (Blocks t, dispatch me s)))"

definition pget_mpf :: "cfg \<Rightarrow> prcix \<Rightarrow> ident \<Rightarrow> kstate \<Rightarrow> (ercd \<times> nat option) svc \<times> kstate" where
  "pget_mpf C me mpfid s =
     (if \<not> sense_tskctx_unl me s then (Ret (E_CTX, None), s)
      else if \<not> VALID_MPFID C mpfid then (Ret (E_ID, None), s)
      else let i = INDEX_OBJ mpfid in
        if 0 < fblkcnt (mpf s i) then
          (let (blk, s) = mpf_take C i s in (Ret (E_OK, Some blk), s))
        else (Ret (E_TMOUT, None), s))"

definition tget_mpf ::
  "cfg \<Rightarrow> prcix \<Rightarrow> ident \<Rightarrow> tmo \<Rightarrow> kstate \<Rightarrow> (ercd \<times> nat option) svc \<times> kstate" where
  "tget_mpf C me mpfid tmout s =
     (if \<not> sense_tskctx_unl me s then (Ret (E_CTX, None), s)
      else if \<not> VALID_MPFID C mpfid then (Ret (E_ID, None), s)
      else if \<not> VALID_TMOUT tmout then (Ret (E_PAR, None), s)
      else let i = INDEX_OBJ mpfid in
        if \<not> dspflg (pcb_of s me) then (Ret (E_CTX, None), s)
        else if 0 < fblkcnt (mpf s i) then
          (let (blk, s) = mpf_take C i s in (Ret (E_OK, Some blk), s))
        else if tmout = TMO_POL then (Ret (E_TMOUT, None), s)
        else if \<not> TSTAT_RUNNABLE (tstat (tcb_of s (runtsk me s))) then (Again, s)
        else
          (let t = runtsk me s;
               s = set_tstat t (TS_WAITING OR TS_WAIT_MPF) s;
               s = wobj_make_wait_tmout C (MPF i) tmout t s
           in (Blocks t, dispatch me s)))"

text \<open>
  The checks of \<open>rel_mpf\<close>: \<open>Inl\<close> is the error returned, \<open>Inr\<close> the pool and the index of the
  block, with which the call goes on to lock the CPU.
\<close>

definition rel_mpf_1 :: "cfg \<Rightarrow> prcix \<Rightarrow> ident \<Rightarrow> nat \<Rightarrow> kstate \<Rightarrow> ercd + nat \<times> nat" where
  "rel_mpf_1 C me mpfid blk s =
     (if \<not> sense_tskctx_unl me s then Inl E_CTX
      else if \<not> VALID_MPFID C mpfid then Inl E_ID
      else let i = INDEX_OBJ mpfid; ini = mpfinib_table C i in
        if \<not> mpf_base ini \<le> blk then Inl E_PAR
        else let blkoffset = blk - mpf_base ini in
          if blkoffset mod blksz ini \<noteq> 0 then Inl E_PAR
          else if \<not> blkoffset div blksz ini < mpf_unused (mpf s i) then Inl E_PAR
          else let blkidx = blkoffset div blksz ini in
            if mpfmb_next (mpf s i) blkidx \<noteq> INDEX_ALLOC then Inl E_PAR
            else Inr (i, blkidx))"

definition put_mpf_block :: "nat \<Rightarrow> mpfcb \<Rightarrow> mpfcb" where
  "put_mpf_block blkidx b =
     (let b = b\<lparr>fblkcnt := fblkcnt b + 1\<rparr>;
          b = b\<lparr>mpfmb_next := (mpfmb_next b)(blkidx := freelist b)\<rparr>
      in b\<lparr>freelist := blkidx\<rparr>)"

definition rel_mpf_2 :: "prcix \<Rightarrow> nat \<Rightarrow> nat \<times> nat \<Rightarrow> kstate \<Rightarrow> ercd svc \<times> kstate" where
  "rel_mpf_2 me blk ib s =
     (let (i, blkidx) = ib; q = Hdr (WAITQ (MPF i)) in
      if \<not> queue_empty q (kq s) then
        (let t = first_waiter q s;
             p = p_pcb (tcb_of s t);
             s = on_kq (queue_delete (Ent t)) s;
             s = upd_tcb t (\<lambda>b. b\<lparr>winfo_obj := W_MPF (Some blk)\<rparr>) s;
             (b, s) = wait_complete t s;
             (dspreq, s) = t_request me p b s
         in (Ret E_OK, t_dispatch_if me dspreq s))
      else (Ret E_OK, upd_mpf i (put_mpf_block blkidx) s))"

definition rel_mpf :: "cfg \<Rightarrow> prcix \<Rightarrow> ident \<Rightarrow> nat \<Rightarrow> kstate \<Rightarrow> ercd svc \<times> kstate" where
  "rel_mpf C me mpfid blk s =
     (case rel_mpf_1 C me mpfid blk s of
        Inl e \<Rightarrow> (Ret e, s)
      | Inr ib \<Rightarrow> rel_mpf_2 me blk ib s)"

definition ini_mpf :: "cfg \<Rightarrow> prcix \<Rightarrow> ident \<Rightarrow> kstate \<Rightarrow> ercd svc \<times> kstate" where
  "ini_mpf C me mpfid s =
     (if \<not> sense_tskctx_unl me s then (Ret E_CTX, s)
      else if \<not> VALID_MPFID C mpfid then (Ret E_ID, s)
      else let i = INDEX_OBJ mpfid;
               (dspreq, s) = init_wait_queue me (Hdr (WAITQ (MPF i))) s;
               s = upd_mpf i (mpf_reset C i) s
           in (Ret E_OK, t_dispatch_if me dspreq s))"

record t_rmpf = rmpf_wtskid :: ident  rmpf_fblkcnt :: nat

definition ref_mpf :: "cfg \<Rightarrow> prcix \<Rightarrow> ident \<Rightarrow> kstate \<Rightarrow> (ercd \<times> t_rmpf option) \<times> kstate" where
  "ref_mpf C me mpfid s =
     (if \<not> sense_tskctx_unl me s then ((E_CTX, None), s)
      else if \<not> VALID_MPFID C mpfid then ((E_ID, None), s)
      else let i = INDEX_OBJ mpfid in
        ((E_OK, Some \<lparr>rmpf_wtskid = wait_tskid (Hdr (WAITQ (MPF i))) s,
           rmpf_fblkcnt = fblkcnt (mpf s i)\<rparr>), s))"

section \<open>The free list\<close>

text \<open>
  \<open>chain nx a xs\<close>: the links \<open>nx\<close> lead from \<open>a\<close> through \<open>xs\<close> to \<open>INDEX_NULL\<close>.  In a pool of
  \<open>n\<close> blocks, the blocks from \<open>unused\<close> on have never been given out; of the others, those on the
  free list are free and the rest are marked \<open>INDEX_ALLOC\<close>.
\<close>

fun chain :: "(nat \<Rightarrow> nat) \<Rightarrow> nat \<Rightarrow> nat list \<Rightarrow> bool" where
  "chain nx a [] \<longleftrightarrow> a = INDEX_NULL"
| "chain nx a (x # xs) \<longleftrightarrow> a = x \<and> chain nx (nx x) xs"

definition free_list :: "nat \<Rightarrow> mpfcb \<Rightarrow> nat list \<Rightarrow> bool" where
  "free_list n b xs \<longleftrightarrow> chain (mpfmb_next b) (freelist b) xs \<and> distinct xs \<and>
     set xs \<subseteq> {..<mpf_unused b} \<and> fblkcnt b = length xs + (n - mpf_unused b) \<and>
     (\<forall>k < mpf_unused b. k \<notin> set xs \<longrightarrow> mpfmb_next b k = INDEX_ALLOC)"

definition mpf_wf :: "nat \<Rightarrow> mpfcb \<Rightarrow> bool" where
  "mpf_wf n b \<longleftrightarrow> n \<le> INDEX_ALLOC \<and> mpf_unused b \<le> n \<and> (\<exists>xs. free_list n b xs)"

definition allocated :: "mpfcb \<Rightarrow> nat set" where
  "allocated b = {k. k < mpf_unused b \<and> mpfmb_next b k = INDEX_ALLOC}"

lemma chain_cong: "(\<And>x. x \<in> set xs \<Longrightarrow> nx' x = nx x) \<Longrightarrow> chain nx' a xs = chain nx a xs"
  by (induction xs arbitrary: a) auto

lemma chain_upd [simp]: "x \<notin> set xs \<Longrightarrow> chain (nx(x := v)) a xs = chain nx a xs"
  by (rule chain_cong) auto

lemma chain_next:
  "chain nx a xs \<Longrightarrow> x \<in> set xs \<Longrightarrow> nx x \<in> insert INDEX_NULL (set xs)"
proof (induction xs arbitrary: a)
  case (Cons y ys)
  show ?case
  proof (cases "x = y")
    case True
    then show ?thesis using Cons.prems by (cases ys) auto
  next
    case False
    then show ?thesis using Cons.IH [of "nx y"] Cons.prems by auto
  qed
qed simp

lemma INDEX_ALLOC_NULL: "INDEX_ALLOC < INDEX_NULL"
  by (simp add: INDEX_ALLOC_def INDEX_NULL_def)

lemma allocated_free_list:
  assumes "free_list n b xs" and "mpf_unused b \<le> n" and "n \<le> INDEX_ALLOC"
  shows "allocated b = {..<mpf_unused b} - set xs"
proof -
  have "mpfmb_next b k \<noteq> INDEX_ALLOC" if "k \<in> set xs" for k
  proof -
    have "mpfmb_next b k \<in> insert INDEX_NULL (set xs)"
      using chain_next [of "mpfmb_next b" "freelist b" xs k] assms(1) that by (simp add: free_list_def)
    moreover have "set xs \<subseteq> {..<mpf_unused b}" using assms(1) by (simp add: free_list_def)
    ultimately show ?thesis using assms(2,3) INDEX_ALLOC_NULL by auto
  qed
  then show ?thesis using assms(1) by (auto simp: allocated_def free_list_def)
qed

lemma mpf_count:
  assumes "mpf_wf n b"
  shows "card (allocated b) + fblkcnt b = n" and "finite (allocated b)"
proof -
  obtain xs where xs: "free_list n b xs" and n: "mpf_unused b \<le> n" "n \<le> INDEX_ALLOC"
    using assms by (auto simp: mpf_wf_def)
  have s: "set xs \<subseteq> {..<mpf_unused b}" "distinct xs" "fblkcnt b = length xs + (n - mpf_unused b)"
    using xs by (simp_all add: free_list_def)
  have "card (allocated b) = mpf_unused b - length xs"
    unfolding allocated_free_list [OF xs n] using s by (simp add: card_Diff_subset distinct_card)
  moreover have "length xs \<le> mpf_unused b"
    using card_mono [OF _ s(1)] s(2) by (simp add: distinct_card)
  ultimately show "card (allocated b) + fblkcnt b = n" using s(3) n(1) by simp
  show "finite (allocated b)" by (simp add: allocated_def)
qed

lemma mpf_reset_wf:
  "blkcnt (mpfinib_table C i) \<le> INDEX_ALLOC \<Longrightarrow> mpf_wf (blkcnt (mpfinib_table C i)) (mpf_reset C i b)"
  by (auto simp: mpf_wf_def mpf_reset_def free_list_def intro!: exI [of _ "[]"])

lemma allocated_reset [simp]: "allocated (mpf_reset C i b) = {}"
  by (simp add: allocated_def mpf_reset_def)

lemma get_mpf_block_correct:
  assumes wf: "mpf_wf n b" and pos: "0 < fblkcnt b" and eq: "get_mpf_block ini b = (blk, b')"
  shows "\<exists>k. blk = mpf_base ini + blksz ini * k \<and> k < n \<and> k \<notin> allocated b \<and>
    allocated b' = insert k (allocated b) \<and> mpf_wf n b' \<and> fblkcnt b' = fblkcnt b - 1"
proof -
  obtain xs where xs: "free_list n b xs" and n: "mpf_unused b \<le> n" "n \<le> INDEX_ALLOC"
    using wf by (auto simp: mpf_wf_def)
  show ?thesis
  proof (cases xs)
    case Nil
    then have fl: "freelist b = INDEX_NULL" using xs by (simp add: free_list_def)
    have u: "mpf_unused b < n" using xs Nil pos by (simp add: free_list_def)
    have b': "blk = mpf_base ini + blksz ini * mpf_unused b"
      "b' = b\<lparr>mpf_unused := mpf_unused b + 1, fblkcnt := fblkcnt b - 1,
        mpfmb_next := (mpfmb_next b)(mpf_unused b := INDEX_ALLOC)\<rparr>"
      using eq fl by (auto simp: get_mpf_block_def Let_def)
    have "free_list n b' []" using xs Nil u by (auto simp: b' free_list_def less_Suc_eq)
    moreover have "allocated b' = insert (mpf_unused b) (allocated b)"
      by (auto simp: allocated_def b' less_Suc_eq)
    ultimately show ?thesis
      using u n b' by (intro exI [of _ "mpf_unused b"]) (auto simp: mpf_wf_def allocated_def)
  next
    case (Cons k ks)
    have f: "freelist b = k" "chain (mpfmb_next b) (mpfmb_next b k) ks" "distinct (k # ks)"
      "set (k # ks) \<subseteq> {..<mpf_unused b}" "fblkcnt b = Suc (length ks + (n - mpf_unused b))"
      using xs by (auto simp: free_list_def Cons)
    have k: "k < mpf_unused b" using f(4) by simp
    have kn: "k \<noteq> INDEX_NULL" using k n INDEX_ALLOC_NULL by simp
    have b': "blk = mpf_base ini + blksz ini * k"
      "b' = b\<lparr>freelist := mpfmb_next b k, fblkcnt := fblkcnt b - 1,
        mpfmb_next := (mpfmb_next b)(k := INDEX_ALLOC)\<rparr>"
      using eq f(1) kn by (auto simp: get_mpf_block_def Let_def)
    have "chain ((mpfmb_next b)(k := INDEX_ALLOC)) (mpfmb_next b k) ks"
      using f(2,3) by simp
    then have fl: "free_list n b' ks" using xs f by (auto simp: b' free_list_def Cons)
    have "allocated b = {..<mpf_unused b} - set (k # ks)"
      using allocated_free_list [OF xs n] Cons by simp
    moreover have "allocated b' = insert k (allocated b)"
      using k by (auto simp: allocated_def b')
    ultimately show ?thesis
      using k n fl b' by (intro exI [of _ k]) (auto simp: mpf_wf_def)
  qed
qed

lemma put_mpf_block_correct:
  assumes wf: "mpf_wf n b" and k: "k \<in> allocated b"
  shows "mpf_wf n (put_mpf_block k b)" and "allocated (put_mpf_block k b) = allocated b - {k}"
proof -
  obtain xs where xs: "free_list n b xs" and n: "mpf_unused b \<le> n" "n \<le> INDEX_ALLOC"
    using wf by (auto simp: mpf_wf_def)
  have kx: "k < mpf_unused b" "k \<notin> set xs" using k allocated_free_list [OF xs n] by auto
  have p: "put_mpf_block k b = b\<lparr>fblkcnt := fblkcnt b + 1,
      mpfmb_next := (mpfmb_next b)(k := freelist b), freelist := k\<rparr>"
    by (simp add: put_mpf_block_def Let_def)
  have "chain ((mpfmb_next b)(k := freelist b)) (freelist b) xs"
    using xs kx by (simp add: free_list_def)
  then have fl: "free_list n (put_mpf_block k b) (k # xs)"
    using xs kx by (auto simp: free_list_def p)
  then show "mpf_wf n (put_mpf_block k b)" using n by (auto simp: mpf_wf_def p)
  show "allocated (put_mpf_block k b) = allocated b - {k}"
    using allocated_free_list [OF fl] allocated_free_list [OF xs n] n by (auto simp: p)
qed

text \<open>A block that is given back is the next one to be given out, and nothing else changes.\<close>

lemma get_put_mpf_block:
  assumes "mpfmb_next b k = INDEX_ALLOC" and "k \<noteq> INDEX_NULL"
  shows "get_mpf_block ini (put_mpf_block k b) = (mpf_base ini + blksz ini * k, b)"
  using assms by (simp add: get_mpf_block_def put_mpf_block_def Let_def fun_upd_idem)

text \<open>\<open>rel_mpf\<close> accepts exactly the addresses of the allocated blocks.\<close>

lemma rel_mpf_1_accepts:
  assumes "sense_tskctx_unl me s" and "VALID_MPFID C mpfid"
  defines "i \<equiv> INDEX_OBJ mpfid"
  defines "ini \<equiv> mpfinib_table C i"
  assumes "0 < blksz ini"
  shows "rel_mpf_1 C me mpfid blk s = Inr (j, k) \<longleftrightarrow>
    j = i \<and> k \<in> allocated (mpf s i) \<and> blk = mpf_base ini + blksz ini * k"
proof -
  have "rel_mpf_1 C me mpfid blk s = Inr (j, k) \<longleftrightarrow> mpf_base ini \<le> blk \<and>
      (blk - mpf_base ini) mod blksz ini = 0 \<and> (blk - mpf_base ini) div blksz ini < mpf_unused (mpf s i) \<and>
      mpfmb_next (mpf s i) ((blk - mpf_base ini) div blksz ini) = INDEX_ALLOC \<and>
      j = i \<and> k = (blk - mpf_base ini) div blksz ini"
    using assms(1,2) by (auto simp: rel_mpf_1_def Let_def i_def ini_def)
  also have "\<dots> \<longleftrightarrow> j = i \<and> k \<in> allocated (mpf s i) \<and> blk = mpf_base ini + blksz ini * k"
    using assms(5) by (auto simp: allocated_def mod_eq_0_iff_dvd)
  finally show ?thesis .
qed

section \<open>Invariant and services\<close>

definition mpf_inv :: "cfg \<Rightarrow> (qhdr \<Rightarrow> tskix list) \<Rightarrow> kstate \<Rightarrow> nat \<Rightarrow> bool" where
  "mpf_inv C Q s i \<longleftrightarrow> mpf_wf (blkcnt (mpfinib_table C i)) (mpf s i) \<and>
     (Q (WAITQ (MPF i)) \<noteq> [] \<longrightarrow> fblkcnt (mpf s i) = 0)"

definition mpf_frame :: "nat \<Rightarrow> (qhdr \<Rightarrow> tskix list) \<Rightarrow> kstate \<Rightarrow> (qhdr \<Rightarrow> tskix list) \<Rightarrow> kstate \<Rightarrow> bool" where
  "mpf_frame i Q s Q' s' \<longleftrightarrow> keeps {WAITQ (MPF i)} Q s Q' s' \<and>
     (\<forall>j. j \<noteq> i \<longrightarrow> mpf s' j = mpf s j) \<and>
     (objs s')\<lparr>mpfcb_of := mpfcb_of (objs s)\<rparr> = objs s"

lemma upd_mpf_sel [simp]:
  "tcb_of (upd_mpf i f s) = tcb_of s" "pcb_of (upd_mpf i f s) = pcb_of s" "kq (upd_mpf i f s) = kq s"
  "mpf (upd_mpf i f s) j = (if j = i then f (mpf s i) else mpf s j)"
  "(objs (upd_mpf i f s))\<lparr>mpfcb_of := x\<rparr> = (objs s)\<lparr>mpfcb_of := x\<rparr>"
  by (simp_all add: upd_mpf_def mpf_def)

lemma kinv_upd_mpf [simp]: "kinv C P Q (upd_mpf i f s) = kinv C P Q s"
  by (simp add: upd_mpf_def)

lemma mpf_frame_refl [simp]: "mpf_frame i Q s Q s"
  by (simp add: mpf_frame_def)

lemma mpf_frame_upd [simp]: "mpf_frame i Q s Q (upd_mpf i f s)"
  by (simp add: mpf_frame_def keeps_def)

lemma mpf_frame_objs:
  "keeps {WAITQ (MPF i)} Q s Q' s' \<Longrightarrow> objs s' = objs s \<Longrightarrow> mpf_frame i Q s Q' s'"
  by (simp add: mpf_frame_def mpf_def)

text \<open>
  A released block goes to the task at the head of the wait queue, which finds it in its
  \<open>winfo_obj\<close> and stays allocated, or to the free list.
\<close>

lemma rel_mpf_2_spec:
  assumes K: "kinv C {} Q s" and I: "mpf_inv C Q s i" and k: "k \<in> allocated (mpf s i)"
    and eq: "rel_mpf_2 me blk (i, k) s = (r, s')"
  shows "\<exists>Q'. r = Ret E_OK \<and> kinv C {} Q' s' \<and> mpf_frame i Q s Q' s' \<and> mpf_inv C Q' s' i \<and>
    (case Q (WAITQ (MPF i)) of
       [] \<Rightarrow> allocated (mpf s' i) = allocated (mpf s i) - {k}
     | t # ts \<Rightarrow> Q' (WAITQ (MPF i)) = ts \<and> mpf s' i = mpf s i \<and>
         tcb_of s' = (tcb_of s)(t := (ended_tcb E_OK (tcb_of s t))\<lparr>winfo_obj := W_MPF (Some blk)\<rparr>))"
proof (cases "Q (WAITQ (MPF i))")
  case Nil
  then have "r = Ret E_OK" "s' = upd_mpf i (put_mpf_block k) s"
    using eq kinvD(4) [OF K] by (auto simp: rel_mpf_2_def Let_def)
  then show ?thesis
    using K I Nil put_mpf_block_correct [of _ "mpf s i" k] k
    by (auto simp: mpf_inv_def intro!: exI [of _ Q])
next
  case (Cons t ts)
  let ?h = "WAITQ (MPF i)" and ?f = "\<lambda>b::tcb. b\<lparr>winfo_obj := W_MPF (Some blk)\<rparr>"
  obtain b s1 where w: "wait_complete t (upd_tcb t ?f (on_kq (queue_delete (Ent t)) s)) = (b, s1)" by fastforce
  obtain d s2 where d: "t_request me (p_pcb (tcb_of s t)) b s1 = (d, s2)" by fastforce
  have r: "r = Ret E_OK" "s' = t_dispatch_if me d s2"
    using eq w d Cons qrep_queue_empty [OF kinvD(4) [OF K], of ?h] first_waiter_hd [OF K Cons]
    by (auto simp: rel_mpf_2_def Let_def)
  have f: "tstat (?f (tcb_of s t)) = tstat (tcb_of s t)" "priority (?f (tcb_of s t)) = priority (tcb_of s t)"
    "p_pcb (?f (tcb_of s t)) = p_pcb (tcb_of s t)" "wf_tcb (?f (tcb_of s t))"
    using kinvD(5) [OF K] by simp_all
  have h: "\<And>p i. ?h \<noteq> RDY p i" by simp
  note T = t_wake_first [OF K Cons h f w d, folded r(2)]
  obtain Q' where Q': "kinv C {} Q' s'" "Q' ?h = ts" "keeps {?h} Q s Q' s'" using T(1) by blast
  have m: "mpf s' j = mpf s j" for j using T(2) by (simp add: mpf_def)
  have "ended_tcb E_OK (?f (tcb_of s t)) = (ended_tcb E_OK (tcb_of s t))\<lparr>winfo_obj := W_MPF (Some blk)\<rparr>"
    by (simp add: ended_tcb_def released_tcb_def)
  then show ?thesis
    using Q' T(2,3) r(1) Cons I m mpf_frame_objs [OF Q'(3)]
    by (auto simp: mpf_inv_def intro!: exI [of _ Q'])
qed

definition mpf_step :: "cfg \<Rightarrow> nat \<Rightarrow> (qhdr \<Rightarrow> tskix list) \<Rightarrow> kstate \<Rightarrow> kstate \<Rightarrow> bool" where
  "mpf_step C i Q s s' \<longleftrightarrow> (\<exists>Q'. kinv C {} Q' s' \<and> mpf_frame i Q s Q' s' \<and>
     (blkcnt (mpfinib_table C i) \<le> INDEX_ALLOC \<longrightarrow> mpf_inv C Q s i \<longrightarrow> mpf_inv C Q' s' i))"

lemma mpf_step_refl: "kinv C {} Q s \<Longrightarrow> mpf_step C i Q s s"
  by (auto simp: mpf_step_def intro!: exI [of _ Q])

lemma mpf_take_step:
  assumes K: "kinv C {} Q s" and pos: "0 < fblkcnt (mpf s i)" and eq: "mpf_take C i s = (blk, s')"
  shows "mpf_step C i Q s s'"
proof -
  obtain b where b: "get_mpf_block (mpfinib_table C i) (mpf s i) = (blk, b)" "s' = upd_mpf i (\<lambda>_. b) s"
    using eq by (auto simp: mpf_take_def split: prod.splits)
  show ?thesis
    unfolding mpf_step_def b(2) using K pos get_mpf_block_correct [OF _ pos b(1)]
    by (auto simp: mpf_inv_def intro!: exI [of _ Q])
qed

lemma mpf_block_step:
  assumes K: "kinv C {} Q s" and ctx: "sense_tskctx_unl me s"
    and run: "TSTAT_RUNNABLE (tstat (tcb_of s (runtsk me s)))" and z: "fblkcnt (mpf s i) = 0"
  defines "t \<equiv> runtsk me s"
  assumes s1: "s1 = wobj_make_wait C (MPF i) t (set_tstat t (TS_WAITING OR TS_WAIT_MPF) s) \<or>
      s1 = wobj_make_wait_tmout C (MPF i) tmout t (set_tstat t (TS_WAITING OR TS_WAIT_MPF) s)"
  shows "mpf_step C i Q s (dispatch me s1)"
proof -
  have m: "may_block me t s" unfolding t_def by (rule runtsk_may_block [OF K ctx run])
  have "TS_WAIT_MPF \<notin> {TS_WAIT_RDTQ, TS_WAIT_RPDQ}" by (simp add: tstat_consts)
  then obtain Q' where Q': "kinv C {} Q' (dispatch me s1)" "keeps {WAITQ (MPF i)} Q s Q' (dispatch me s1)"
    and o: "objs (dispatch me s1) = objs s"
    using block_on_object [OF K m _ _ _ s1 [unfolded set_tstat_enter_wait], of "{WAITQ (MPF i)}"] by auto
  show ?thesis
    unfolding mpf_step_def using Q' mpf_frame_objs [OF Q'(2) o] o z
    by (auto simp: mpf_inv_def mpf_def intro!: exI [of _ Q'])
qed

lemma mpf_services_step:
  assumes K: "kinv C {} Q s"
  shows "mpf_step C (INDEX_OBJ mpfid) Q s (snd (get_mpf C me mpfid s))"
    and "mpf_step C (INDEX_OBJ mpfid) Q s (snd (pget_mpf C me mpfid s))"
    and "mpf_step C (INDEX_OBJ mpfid) Q s (snd (tget_mpf C me mpfid tmout s))"
  using mpf_block_step [OF K _ _ _ disjI1 [OF refl], of me "INDEX_OBJ mpfid"]
    mpf_block_step [OF K _ _ _ disjI2 [OF refl], of me "INDEX_OBJ mpfid" tmout]
    mpf_take_step [OF K _ surjective_pairing, of "INDEX_OBJ mpfid"] mpf_step_refl [OF K]
  by (simp_all add: get_mpf_def pget_mpf_def tget_mpf_def Let_def split_beta)

lemma rel_mpf_step:
  assumes K: "kinv C {} Q s" and I: "mpf_inv C Q s (INDEX_OBJ mpfid)"
    and bs: "0 < blksz (mpfinib_table C (INDEX_OBJ mpfid))"
  shows "mpf_step C (INDEX_OBJ mpfid) Q s (snd (rel_mpf C me mpfid blk s))"
proof (cases "rel_mpf_1 C me mpfid blk s")
  case (Inr ib)
  obtain j k where ib: "ib = (j, k)" by fastforce
  have "sense_tskctx_unl me s \<and> VALID_MPFID C mpfid"
    using Inr by (auto simp: rel_mpf_1_def split: if_splits)
  then have jk: "j = INDEX_OBJ mpfid" "k \<in> allocated (mpf s (INDEX_OBJ mpfid))"
    using rel_mpf_1_accepts [of me s C mpfid blk j k] bs Inr ib by auto
  obtain r s' where eq: "rel_mpf_2 me blk (INDEX_OBJ mpfid, k) s = (r, s')" by fastforce
  show ?thesis
    using rel_mpf_2_spec [OF K I jk(2) eq] eq Inr ib jk(1) by (auto simp: rel_mpf_def mpf_step_def)
qed (simp add: rel_mpf_def mpf_step_refl [OF K])

lemma ini_mpf_step:
  assumes K: "kinv C {} Q s"
  shows "mpf_step C (INDEX_OBJ mpfid) Q s (snd (ini_mpf C me mpfid s))"
proof (cases "sense_tskctx_unl me s \<and> VALID_MPFID C mpfid")
  case True
  define i where "i = INDEX_OBJ mpfid"
  let ?h = "WAITQ (MPF i)"
  obtain d s1 where w: "init_wait_queue me (Hdr ?h) s = (d, s1)" by fastforce
  have r: "snd (ini_mpf C me mpfid s) = t_dispatch_if me d (upd_mpf i (mpf_reset C i) s1)" (is "_ = ?s")
    using True w by (auto simp: ini_mpf_def Let_def i_def)
  obtain Q' where Q': "kinv C (if d then insert me {} else {}) Q' s1" "Q' ?h = []" "same_waits ?h Q Q'"
    "objs s1 = objs s" "tcb_of s1 = all_ended E_DLT (Q ?h) (tcb_of s)"
    using init_wait_queue_kinv [OF K _ w] by auto
  have K': "kinv C {} Q' ?s" by (rule t_dispatch_if_kinv) (use Q'(1) in \<open>auto split: if_splits\<close>)
  have tc: "tcb_of ?s = all_ended E_DLT (Q ?h) (tcb_of s)" using Q'(5) by simp
  have so: "mpf ?s j = (if j = i then mpf_reset C i (mpf s i) else mpf s j)" for j
    using Q'(4) by (simp add: mpf_def upd_mpf_def)
  have ob: "(objs ?s)\<lparr>mpfcb_of := mpfcb_of (objs s)\<rparr> = objs s" using Q'(4) by (simp add: upd_mpf_def)
  have "mpf_frame i Q s Q' ?s"
    using keeps_init [OF Q'(3,2) tc, of "{?h}"] so ob by (simp add: mpf_frame_def)
  moreover have "blkcnt (mpfinib_table C i) \<le> INDEX_ALLOC \<Longrightarrow> mpf_inv C Q' ?s i"
    using so Q'(2) mpf_reset_wf [of C i "mpf s i"] by (simp add: mpf_inv_def)
  ultimately show ?thesis unfolding r i_def [symmetric] mpf_step_def using K' by blast
qed (auto simp: ini_mpf_def mpf_step_refl [OF K])

text \<open>A step that touches no pool and adds no waiter keeps the invariant of each.\<close>

lemma mpf_inv_keeps:
  assumes "mpf_inv C Q s i" and "keeps H Q s Q' s'" and "WAITQ (MPF i) \<notin> H"
    and "mpfcb_of (objs s') i = mpfcb_of (objs s) i"
  shows "mpf_inv C Q' s' i"
proof -
  have "set (Q' (WAITQ (MPF i))) \<subseteq> set (Q (WAITQ (MPF i)))"
    using assms(2,3) unfolding keeps_def by blast
  then show ?thesis using assms(1,4) by (auto simp: mpf_inv_def mpf_def)
qed

end
