(* ===== verification/Object_Properties.thy ===== *)
theory Object_Properties
  imports Sample Task_Sync Spin_Lock Semaphore Eventflag Dataqueue Pridataq Mailbox Mempfix
begin

text \<open>
  Properties of the synchronization objects and of the task synchronization services, each with a
  witness on the sample state.
\<close>

text \<open>
  \<open>ini_sem\<close> releases all waiting tasks with \<open>E_DLT\<close> and sets the
  count to its initial value.
\<close>

lemma ini_sem_meets_spec:
  assumes "kinv C {} Q s" and "sense_tskctx_unl me s" and "VALID_SEMID C semid"
    and "ini_sem C me semid s = (r, s')"
  shows "\<exists>Q'. r = Ret E_OK \<and> kinv C {} Q' s' \<and> sem_frame (INDEX_OBJ semid) Q s Q' s' \<and>
    asem Q' s' (INDEX_OBJ semid) = (isemcnt (seminib_table C (INDEX_OBJ semid)), []) \<and>
    tcb_of s' = all_ended E_DLT (Q (WAITQ (SEM (INDEX_OBJ semid)))) (tcb_of s)"
  using ini_sem_inv [OF assms] .

lemma ini_sem_meets_spec_witness:
  "\<exists>s'. ini_sem sample_cfg 0 1 sample_state = (Ret E_OK, s') \<and> wercd (tcb_of s' 1) = E_DLT \<and>
     TSTAT_RUNNABLE (tstat (tcb_of s' 1))"
proof -
  obtain r s' where e: "ini_sem sample_cfg 0 1 sample_state = (r, s')" by fastforce
  then show ?thesis
    using ini_sem_meets_spec [OF sample_kinv _ _ e]
    by (auto simp: all_ended_def ended_tcb_def released_tcb_def sample_tcb_def tstat_macros tstat_consts)
qed

text \<open>
  C13: \<open>set_flg\<close> sets the bits and then walks the wait queue in order: each task
  whose condition holds at its turn is released with the pattern at that time, with
  \<open>TA_CLR\<close> only the first one, after which the pattern is zero.  Afterwards no
  waiting task's condition holds.
\<close>

theorem set_flg_meets_spec:
  assumes "kinv C {} Q s" and "flg_inv C Q s (INDEX_OBJ flgid)" and "sense_tskctx_unl me s"
    and "VALID_FLGID C flgid" and "set_flg C me flgid setptn s = (r, s')"
  shows "\<exists>Q'. r = Ret E_OK \<and> kinv C {} Q' s' \<and> flg_frame (INDEX_OBJ flgid) Q s Q' s' \<and>
    flg_set_post C (INDEX_OBJ flgid) setptn Q s Q' s' \<and> flg_inv C Q' s' (INDEX_OBJ flgid)"
  using set_flg_spec [OF assms] flg_set_post_inv [OF assms(2) _ assms(1)] by blast

lemma sample_flg_inv: "flg_inv sample_cfg sample_queues sample_state 0"
  by (simp add: flg_inv_def flg_ok_def flg_par_def waits_for_def flg_cond_def flg_def sample_objs_def
      TWF_ANDW_def TWF_ORW_def)

theorem set_flg_meets_spec_witness:
  "\<exists>s'. set_flg sample_cfg 0 1 4 sample_state = (Ret E_OK, s') \<and> TSTAT_RUNNABLE (tstat (tcb_of s' 2)) \<and>
     winfo_obj (tcb_of s' 2) = W_FLG 6 TWF_ANDW 6"
proof -
  obtain r s' where e: "set_flg sample_cfg 0 1 4 sample_state = (r, s')" by fastforce
  have w: "waits_for sample_state 2 6"
    by (simp add: waits_for_def flg_cond_def TWF_ANDW_def TWF_ORW_def)
  have a: "wobjatr sample_cfg (FLG 0) AND TA_CLR = 0" "flgptn (flg sample_state 0) OR 4 = 6"
    by (simp_all add: sample_cfg_def flg_def sample_objs_def)
  have "flg_inv sample_cfg sample_queues sample_state (INDEX_OBJ 1)"
    using sample_flg_inv by simp
  from set_flg_meets_spec [OF sample_kinv this _ _ e] obtain Q' where
    "r = Ret E_OK" "flg_set_post sample_cfg 0 4 sample_queues sample_state Q' s'" by auto
  then show ?thesis using e
    by (auto simp: flg_set_post_def a w flg_released_def ended_tcb_def released_tcb_def sample_tcb_def
        tstat_macros tstat_consts)
qed

lemma sample_dtq_inv: "dtq_inv sample_cfg sample_queues sample_state 0"
  by (simp add: dtq_inv_def ring_wf_def dtq_def sample_objs_def)

lemma sample_adtq: "adtq sample_cfg sample_queues sample_state 0 = ([], [], [])"
  by (simp add: adtq_def ring_list_def dtq_def sample_objs_def)



text \<open>
  C12: \<open>rcv_dtq\<close> takes the oldest word of the buffered ones followed by those of the
  sleeping senders, and the rest stays in order; with no word pending the caller sleeps.
\<close>

theorem rcv_dtq_meets_spec:
  assumes "kinv C {} Q s" and "dtq_inv C Q s (INDEX_OBJ dtqid)" and "sense_tskctx_unl me s"
    and "VALID_DTQID C dtqid" and "dspflg (pcb_of s me)"
    and "TSTAT_RUNNABLE (tstat (tcb_of s (runtsk me s)))" and "rcv_dtq C me dtqid s = (r, s')"
  shows "let i = INDEX_OBJ dtqid; a = adtq C Q s i in
    (case adtq_pending a of
       [] \<Rightarrow> r = Blocks (runtsk me s) \<and> dtq_step C i Q s ([], [], Q (RWAITQ (DTQ i)) @ [runtsk me s]) s'
     | d # ds \<Rightarrow> r = Ret (E_OK, Some d) \<and> (\<exists>a'. dtq_step C i Q s a' s' \<and> adtq_pending a' = ds))"
proof -
  let ?i = "INDEX_OBJ dtqid"
  obtain x a' where e: "adtq_recv (adtq C Q s ?i) = (x, a')" by (cases "adtq_recv (adtq C Q s ?i)")
  show ?thesis
    using rcv_dtq_refines [OF assms] adtq_recv_fifo [OF e]
    by (auto simp: Let_def e simp del: split_paired_Ex adtq_pending.simps split: list.splits)
qed

theorem rcv_dtq_meets_spec_witness:
  "\<exists>s'. rcv_dtq sample_cfg 0 1 sample_state = (Blocks 0, s') \<and>
     dtq_step sample_cfg 0 sample_queues sample_state ([], [], [0]) s'"
proof -
  obtain r s' where e: "rcv_dtq sample_cfg 0 1 sample_state = (r, s')" by fastforce
  have "dtq_inv sample_cfg sample_queues sample_state (INDEX_OBJ 1)" using sample_dtq_inv by simp
  from rcv_dtq_meets_spec [OF sample_kinv this _ _ _ _ e] show ?thesis
    using e by (simp add: sample_adtq)
qed

lemma sample_msgs: "mbx_inv sample_cfg (\<lambda>_. []) sample_queues sample_state"
  by (simp add: mbx_inv_def mbx_rep_def mbx_def sample_objs_def)

text \<open>
  C14: \<open>snd_mbx\<close> that gets the receiver's lock hands the message to the first
  waiting task, else links it into the message list by arrival or by message priority.
\<close>

theorem snd_mbx_meets_spec:
  assumes "kinv C {} Q s" and "mbx_inv C M Q s" and "sense_tskctx_unl me s" and "VALID_MBXID C mbxid"
    and "msg_par C (INDEX_OBJ mbxid) m s" and "\<forall>j. m \<notin> set (M j)"
    and "snd_mbx C me mbxid m True s = (r, s')"
  shows "r = Ret E_OK \<and> (case Q (WAITQ (MBX (INDEX_OBJ mbxid))) of
      [] \<Rightarrow> mbx_step C (INDEX_OBJ mbxid) Q s
             (M(INDEX_OBJ mbxid := msg_insert C s (INDEX_OBJ mbxid) m (M (INDEX_OBJ mbxid)))) s'
    | t # ts \<Rightarrow> mbx_step C (INDEX_OBJ mbxid) Q s M s' \<and>
        tcb_of s' = (tcb_of s)(t := (ended_tcb E_OK (tcb_of s t))\<lparr>winfo_obj := W_MBX (Some m)\<rparr>))"
  using snd_mbx_spec [OF assms(1-5) _ assms(7)] assms(6) by blast

theorem snd_mbx_meets_spec_witness:
  "\<exists>s'. snd_mbx sample_cfg 0 1 4 True sample_state = (Ret E_OK, s') \<and>
     TSTAT_RUNNABLE (tstat (tcb_of s' 3)) \<and> winfo_obj (tcb_of s' 3) = W_MBX (Some 4)"
proof -
  obtain r s' where e: "snd_mbx sample_cfg 0 1 4 True sample_state = (r, s')" by fastforce
  have "msg_par sample_cfg (INDEX_OBJ 1) 4 sample_state" by (simp add: msg_par_def sample_cfg_def)
  then show ?thesis
    using snd_mbx_meets_spec [OF sample_kinv sample_msgs _ _ _ _ e] e
    by (auto simp: ended_tcb_def released_tcb_def sample_tcb_def tstat_macros tstat_consts)
qed

text \<open>
  C26: \<open>snd_mbx\<close> that must retry because it did not get the receiver's lock has
  already unlinked the receiver: the task still waits but is in no queue, so no queue assignment
  satisfies the kernel invariant any more.
\<close>

theorem snd_mbx_retry_loses_receiver:
  assumes "kinv C {} Q s" and "sense_tskctx_unl me s" and "VALID_MBXID C mbxid"
    and "msg_par C (INDEX_OBJ mbxid) m s" and "Q (WAITQ (MBX (INDEX_OBJ mbxid))) = t # ts"
    and "snd_mbx C me mbxid m False s = (r, s')"
  shows "r = Again \<and> TSTAT_WAITING (tstat (tcb_of s' t)) \<and> \<not> (\<exists>Q'. kinv C {} Q' s')"
proof -
  have "t \<in> set (Q (WAITQ (MBX (INDEX_OBJ mbxid))))" using assms(5) by simp
  then have "place (tcb_of s t) = Some (WAITQ (MBX (INDEX_OBJ mbxid)))" using kinvD(6) [OF assms(1)] by blast
  then have "TSTAT_WAITING (tstat (tcb_of s t))" by (rule place_waitq) simp
  then show ?thesis using snd_mbx_retry [OF assms] by simp
qed

theorem snd_mbx_retry_loses_receiver_witness:
  "\<exists>s'. snd_mbx sample_cfg 0 1 4 False sample_state = (Again, s') \<and>
     \<not> (\<exists>Q'. kinv sample_cfg {} Q' s')"
proof -
  obtain r s' where e: "snd_mbx sample_cfg 0 1 4 False sample_state = (r, s')" by fastforce
  have "msg_par sample_cfg (INDEX_OBJ 1) 4 sample_state" by (simp add: msg_par_def sample_cfg_def)
  then show ?thesis
    using snd_mbx_retry_loses_receiver [OF sample_kinv _ _ _ _ e, of 3 "[]"] e by simp
qed

text \<open>
  C22: \<open>get_mpf_block\<close> returns a block of the pool that nobody holds, and the
  numbers of blocks in use and free always add up to the size of the pool.
\<close>

theorem memory_block_is_exclusive:
  assumes "mpf_wf n b" and "0 < fblkcnt b" and "get_mpf_block ini b = (blk, b')"
  shows "\<exists>k. blk = mpf_base ini + blksz ini * k \<and> k < n \<and> k \<notin> allocated b \<and>
    allocated b' = insert k (allocated b) \<and> mpf_wf n b' \<and>
    card (allocated b') + fblkcnt b' = n"
  using get_mpf_block_correct [OF assms] mpf_count(1) by blast

theorem memory_block_is_exclusive_witness:
  "\<exists>blk b. get_mpf_block (mpfinib_table sample_cfg 0) (mpf sample_state 0) = (blk, b) \<and>
     card (allocated b) + fblkcnt b = 2"
proof -
  obtain blk b where e: "get_mpf_block (mpfinib_table sample_cfg 0) (mpf sample_state 0) = (blk, b)"
    by fastforce
  have "mpf_wf 2 (mpf sample_state 0)"
    by (simp add: mpf_wf_def free_list_def mpf_def sample_objs_def INDEX_ALLOC_def INDEX_NULL_def
        exI [of _ "[]"])
  from memory_block_is_exclusive [OF this _ e] show ?thesis
    using e by (auto simp: mpf_def sample_objs_def)
qed

text \<open>
  Returning a block in use makes it free, keeps the free list well formed, and the next
  block taken is that block, after which the control block is as before.
\<close>

lemma memory_block_round_trip:
  assumes "mpf_wf n b" and "k \<in> allocated b"
  shows "mpf_wf n (put_mpf_block k b) \<and> allocated (put_mpf_block k b) = allocated b - {k} \<and>
    get_mpf_block ini (put_mpf_block k b) = (mpf_base ini + blksz ini * k, b)"
proof -
  have "k \<noteq> INDEX_NULL" "mpfmb_next b k = INDEX_ALLOC"
    using assms INDEX_ALLOC_NULL by (auto simp: allocated_def mpf_wf_def)
  then show ?thesis
    using put_mpf_block_correct [OF assms] get_put_mpf_block [of b k ini] by simp
qed

text \<open>A block of the sample pool that is in use.\<close>

definition sample_mpfcb :: mpfcb where
  "sample_mpfcb = \<lparr>fblkcnt = 1, mpf_unused = 1, freelist = INDEX_NULL, mpfmb_next = (\<lambda>_. INDEX_ALLOC)\<rparr>"

lemma sample_mpfcb: "mpf_wf 2 sample_mpfcb" "allocated sample_mpfcb = {0}"
  by (auto simp: mpf_wf_def free_list_def sample_mpfcb_def INDEX_ALLOC_def INDEX_NULL_def allocated_def
      intro!: exI [of _ "[]"])

lemma memory_block_round_trip_witness:
  "get_mpf_block (mpfinib_table sample_cfg 0) (put_mpf_block 0 sample_mpfcb) = (4096, sample_mpfcb) \<and>
     allocated (put_mpf_block 0 sample_mpfcb) = {}"
  using memory_block_round_trip [OF sample_mpfcb(1), of 0 "mpfinib_table sample_cfg 0"]
  by (simp add: sample_mpfcb(2)) (simp add: sample_cfg_def)

text \<open>
  The checks of \<open>rel_mpf\<close> accept exactly the addresses of the blocks in use;
  any other address is refused with \<open>E_PAR\<close> and nothing changes.
\<close>

lemma rel_mpf_accepts_only_blocks:
  assumes "sense_tskctx_unl me s" and "VALID_MPFID C mpfid" and "i = INDEX_OBJ mpfid"
    and "0 < blksz (mpfinib_table C i)"
  shows "(\<forall>k. rel_mpf_1 C me mpfid blk s = Inr (i, k) \<longleftrightarrow>
      k \<in> allocated (mpf s i) \<and> blk = mpf_base (mpfinib_table C i) + blksz (mpfinib_table C i) * k) \<and>
    ((\<forall>k \<in> allocated (mpf s i). blk \<noteq> mpf_base (mpfinib_table C i) + blksz (mpfinib_table C i) * k) \<longrightarrow>
      rel_mpf C me mpfid blk s = (Ret E_PAR, s))"
proof (intro conjI allI impI)
  note a = rel_mpf_1_accepts [OF assms(1,2), of blk]
  show "rel_mpf_1 C me mpfid blk s = Inr (i, k) \<longleftrightarrow>
      k \<in> allocated (mpf s i) \<and> blk = mpf_base (mpfinib_table C i) + blksz (mpfinib_table C i) * k" for k
    using a [of i k] assms(3,4) by simp
  assume n: "\<forall>k \<in> allocated (mpf s i). blk \<noteq> mpf_base (mpfinib_table C i) + blksz (mpfinib_table C i) * k"
  have "rel_mpf_1 C me mpfid blk s \<noteq> Inr (j, k)" for j k
    using a [of j k] assms(3,4) n by auto
  then have "\<exists>e. rel_mpf_1 C me mpfid blk s = Inl e"
    by (metis old.sum.exhaust surj_pair)
  then have "rel_mpf_1 C me mpfid blk s = Inl E_PAR"
    using assms(1,2) by (auto simp: rel_mpf_1_def Let_def split: if_splits)
  then show "rel_mpf C me mpfid blk s = (Ret E_PAR, s)" by (simp add: rel_mpf_def)
qed

lemma rel_mpf_accepts_only_blocks_witness:
  "rel_mpf sample_cfg 0 1 4096 sample_state = (Ret E_PAR, sample_state)"
  using rel_mpf_accepts_only_blocks [of 0 sample_state sample_cfg 1 0 4096]
  by (simp add: allocated_def mpf_def sample_objs_def) (simp add: sample_cfg_def)

lemma chain_loop: "nx k = k \<Longrightarrow> k \<noteq> INDEX_NULL \<Longrightarrow> \<not> chain nx k xs"
  by (induction xs) auto

text \<open>
  C27: two calls of \<open>rel_mpf\<close> that both pass the checks, which are made before the
  lock is taken, both return \<open>E_OK\<close> and tie the free list into a loop: the next two
  requests get the same block.
\<close>

theorem rel_mpf_double_release:
  assumes "Q (WAITQ (MPF i)) = []" and "kinv C {} Q s" and "k < INDEX_ALLOC"
    and "rel_mpf_2 me blk (i, k) s = (r1, s1)" and "rel_mpf_2 me' blk (i, k) s1 = (r2, s2)"
  shows "r1 = Ret E_OK \<and> r2 = Ret E_OK \<and> \<not> (\<exists>n. mpf_wf n (mpf s2 i)) \<and>
    fst (get_mpf_block ini (mpf s2 i)) = mpf_base ini + blksz ini * k \<and>
    fst (get_mpf_block ini (snd (get_mpf_block ini (mpf s2 i)))) = mpf_base ini + blksz ini * k"
proof -
  have e: "queue_empty (Hdr (WAITQ (MPF i))) (kq s)" using kinvD(4) [OF assms(2)] assms(1) by simp
  then have s: "s1 = upd_mpf i (put_mpf_block k) s" "r1 = Ret E_OK" using assms(4) by (simp_all add: rel_mpf_2_def)
  then have s2: "s2 = upd_mpf i (put_mpf_block k) s1" "r2 = Ret E_OK" using e assms(5) by (simp_all add: rel_mpf_2_def)
  let ?b = "mpf s2 i"
  have b: "freelist ?b = k" "mpfmb_next ?b k = k" by (simp_all add: s s2 put_mpf_block_def Let_def)
  have k: "k \<noteq> INDEX_NULL" using assms(3) INDEX_ALLOC_NULL by simp
  have "\<not> free_list n ?b xs" for n xs using chain_loop [of "mpfmb_next ?b" k xs] b k by (simp add: free_list_def)
  then show ?thesis using s s2 b k by (simp add: mpf_wf_def get_mpf_block_def Let_def)
qed

theorem rel_mpf_double_release_witness:
  "\<exists>s. \<not> (\<exists>n. mpf_wf n (mpf s 0)) \<and> fst (get_mpf_block (mpfinib_table sample_cfg 0) (mpf s 0)) = 4096"
proof -
  obtain r1 s1 where 1: "rel_mpf_2 0 4096 (0, 0) sample_state = (r1, s1)" by fastforce
  obtain r2 s2 where 2: "rel_mpf_2 1 4096 (0, 0) s1 = (r2, s2)" by fastforce
  have "\<not> (\<exists>n. mpf_wf n (mpf s2 0)) \<and> fst (get_mpf_block (mpfinib_table sample_cfg 0) (mpf s2 0)) = 4096"
    using rel_mpf_double_release [OF _ sample_kinv _ 1 2, of "mpfinib_table sample_cfg 0"]
    by (simp add: INDEX_ALLOC_def) (simp add: sample_cfg_def)
  then show ?thesis by blast
qed

text \<open>
  A wakeup request for the running task is queued once, a second one is refused with
  \<open>E_QOVR\<close>, and \<open>slp_tsk\<close> consumes it at once, which gives the state
  before.
\<close>

lemma wakeup_round_trip:
  assumes "kinv C {} Q s" and "sense_tskctx_unl me s" and "dspflg (pcb_of s me)"
    and "TSTAT_RUNNABLE (tstat (tcb_of s (runtsk me s)))" and "\<not> wupque (tcb_of s (runtsk me s))"
  shows "\<exists>s1. wup_tsk C me TSK_SELF s = (Ret E_OK, s1) \<and> wup_tsk C me TSK_SELF s1 = (Ret E_QOVR, s1) \<and>
    slp_tsk me s1 = (Ret E_OK, s)"
  using wup_then_slp [OF assms] .

lemma wakeup_round_trip_witness:
  "\<exists>s1. wup_tsk sample_cfg 0 TSK_SELF sample_state = (Ret E_OK, s1) \<and> slp_tsk 0 s1 = (Ret E_OK, sample_state)"
  using wakeup_round_trip [OF sample_kinv, of 0] by (auto simp: sample_tcb_def)

text \<open>
  Suspending and then resuming a waiting task restores the state: its wait is not touched.
\<close>

lemma suspension_round_trip:
  assumes "kinv C {} Q s" and "sense_tskctx_unl me s" and "VALID_TSKID C tskid" and "tskid \<noteq> TSK_SELF"
    and "TSTAT_WAITING (tstat (tcb_of s (get_tcb tskid)))"
    and "\<not> TSTAT_SUSPENDED (tstat (tcb_of s (get_tcb tskid)))"
    and "p_runtsk (pcb_of s me) \<noteq> Some (get_tcb tskid)"
  shows "\<exists>s1. sus_tsk C me tskid s = (Ret E_OK, s1) \<and> rsm_tsk C me tskid s1 = (Ret E_OK, s)"
  using sus_then_rsm [OF assms] .

lemma sample_tskid [simp]: "VALID_TSKID sample_cfg 2" "get_tcb 2 = 1"
  by (simp_all add: VALID_TSKID_def sample_cfg_def get_tcb_def INDEX_TSK_def uint_cast_def)

lemma suspension_round_trip_witness:
  "\<exists>s1. sus_tsk sample_cfg 0 2 sample_state = (Ret E_OK, s1) \<and>
     rsm_tsk sample_cfg 0 2 s1 = (Ret E_OK, sample_state)"
  using suspension_round_trip [OF sample_kinv, of 0 2]
  by (simp add: TSK_SELF_def tstat_macros tstat_consts)

text \<open>
  C25: \<open>rel_wai\<close>, whose wait for an object is released in two locking steps, ends
  the wait of a waiting task with \<open>E_RLWAI\<close> and changes nothing for another task.
\<close>

theorem rel_wai_meets_spec:
  assumes "kinv C {} Q s" and "sense_tskctx_unl me s" and "VALID_TSKID C tskid"
    and "rel_wai C me tskid s = (r, s')"
  shows "if TSTAT_WAITING (tstat (tcb_of s (get_tcb tskid)))
    then r = Ret E_OK \<and> task_step C Q s s' \<and>
      tcb_of s' = (tcb_of s)(get_tcb tskid := ended_tcb E_RLWAI (tcb_of s (get_tcb tskid)))
    else r = Ret E_OBJ \<and> s' = s"
  using rel_wai_spec [OF assms] .

theorem rel_wai_meets_spec_witness:
  "\<exists>s'. rel_wai sample_cfg 0 2 sample_state = (Ret E_OK, s') \<and> wercd (tcb_of s' 1) = E_RLWAI"
proof -
  obtain r s' where e: "rel_wai sample_cfg 0 2 sample_state = (r, s')" by fastforce
  have w: "TSTAT_WAITING (tstat (tcb_of sample_state 1))" by (simp add: tstat_macros tstat_consts)
  show ?thesis using rel_wai_meets_spec [OF sample_kinv _ _ e] w e
    by (simp add: ended_tcb_def released_tcb_def)
qed



section \<open>Priority data queues\<close>

lemma sample_pdq: "pdq_wf 2 (pdq sample_state 0)" "pdq_list (pdq sample_state 0) = []" "pdq_count (pdq sample_state 0) = 0"
  by (auto simp: pdq_wf_def pdq_rep_def pdq_list_def pdq_def sample_objs_def intro!: exI [of _ "[]"])



text \<open>
  C40: \<open>rcv_pdq\<close> implements receiving: it returns the first of the buffered data, which has the
  highest priority of them, and takes the datum of a waiting sender into the buffer in its place;
  with neither it blocks.
\<close>

theorem rcv_pdq_meets_spec:
  assumes "kinv C {} Q s" and "pdq_inv C Q s (INDEX_OBJ pdqid)" and "sense_tskctx_unl me s"
    and "VALID_PDQID C pdqid" and "dspflg (pcb_of s me)"
    and "TSTAT_RUNNABLE (tstat (tcb_of s (runtsk me s)))" and "rcv_pdq C me pdqid s = (r, s')"
  shows "let i = INDEX_OBJ pdqid in
    case apdq_recv (apdq C Q s i) of
      (Some d, a) \<Rightarrow> r = Ret (E_OK, Some d) \<and> pdq_step C i Q s a s' \<and>
        (\<forall>x \<in> set (pdq_list (pdq s i)). snd d \<le> snd x)
    | (None, _) \<Rightarrow> r = Blocks (runtsk me s) \<and>
        pdq_step C i Q s ([], [], Q (RWAITQ (PDQ i)) @ [runtsk me s]) s'"
proof -
  let ?i = "INDEX_OBJ pdqid"
  have "sorted (map snd (pdq_list (pdq s ?i)))" 
    using assms(2) pdq_wf_list(3) by (auto simp: pdq_inv_def)
  moreover have "apdq_recv (apdq C Q s ?i) = (Some d, a) \<Longrightarrow> pdq_list (pdq s ?i) \<noteq> [] \<Longrightarrow> hd (pdq_list (pdq s ?i)) = d" for d a
    by (cases "pdq_list (pdq s ?i)"; cases "Q (WAITQ (PDQ ?i))") (auto simp: apdq_def)
  ultimately have "apdq_recv (apdq C Q s ?i) = (Some d, a) \<Longrightarrow> \<forall>x \<in> set (pdq_list (pdq s ?i)). snd d \<le> snd x" for d a
    by (cases "pdq_list (pdq s ?i)") auto
  then show ?thesis using rcv_pdq_refines [OF assms] by (auto simp: Let_def split: prod.splits option.splits)
qed

theorem rcv_pdq_meets_spec_witness:
  "\<exists>s'. rcv_pdq sample_cfg 0 1 (upd_pdq 0 (\<lambda>b. enqueue_pridata 8 3 (enqueue_pridata 7 5 b)) sample_state) =
     (Ret (E_OK, Some (8, 3)), s')"
proof -
  let ?s = "upd_pdq 0 (\<lambda>b. enqueue_pridata 8 3 (enqueue_pridata 7 5 b)) sample_state"
  obtain r s' where e: "rcv_pdq sample_cfg 0 1 ?s = (r, s')" by fastforce
  have c: "pdqcnt (pdqinib_table sample_cfg 0) = 2" by (simp add: sample_cfg_def)
  note E1 = enqueue_pridata_rep [of 2 "pdq sample_state 0" 7 5]
  note E2 = enqueue_pridata_rep [of 2 "enqueue_pridata 7 5 (pdq sample_state 0)" 8 3]
  have L: "pdq_wf 2 (pdq ?s 0)" "pdq_list (pdq ?s 0) = [(8, 3), (7, 5)]"
    using E1 E2 by (simp_all add: sample_pdq tpri_insert_def)
  have i: "pdq_inv sample_cfg sample_queues ?s (INDEX_OBJ 1)" using L by (simp add: pdq_inv_def c)
  have k: "kinv sample_cfg {} sample_queues ?s" by (simp add: sample_kinv)
  have a: "apdq sample_cfg sample_queues ?s 0 = ([(8, 3), (7, 5)], [], [])" using L by (simp add: apdq_def)
  have t: "sense_tskctx_unl 0 ?s" "runtsk 0 ?s = 0" 
    using sample_sel by (simp_all add: sense_tskctx_unl_def sense_context_def sense_lock_def runtsk_def)
  show ?thesis using rcv_pdq_meets_spec [OF k i t(1) _ _ _ e] e a t(2) by simp
qed

end
