(* ===== verification/Task_Manage.thy ===== *)
theory Task_Manage
  imports Task_Step Spin_Lock Task_Sync
begin

text \<open>
  Task management (\<open>kernel/task_manage.c\<close>): activation, termination, migration and priority, with
  the parts of \<open>kernel/task.c\<close> that run after the calling task has given up its context
  (\<open>migrate_self\<close>, \<open>exit_and_migrate_self\<close>).  \<open>ter_tsk\<close> and \<open>chg_pri\<close> on a task that waits for an
  object release the task lock and take the object lock first: they are two atomic steps, \<open>_1\<close> and
  \<open>_2\<close>, between which other processors run.
\<close>

section \<open>Activation\<close>

definition VALID_PRCID_INI :: "cfg \<Rightarrow> ident \<Rightarrow> bool" where
  "VALID_PRCID_INI C prcid \<longleftrightarrow> VALID_PRCID C prcid \<or> prcid = TPRC_INI"

definition VALID_TPRI_INI :: "pri \<Rightarrow> bool" where
  "VALID_TPRI_INI tpri \<longleftrightarrow> VALID_TPRI tpri \<or> tpri = TPRI_INI"

definition set_actque :: "tskix \<Rightarrow> bool \<Rightarrow> ident \<Rightarrow> kstate \<Rightarrow> kstate" where
  "set_actque t q prcid = upd_tcb t (\<lambda>b. b\<lparr>actque := q, actprc := prcid\<rparr>)"

definition set_p_pcb :: "tskix \<Rightarrow> prcix \<Rightarrow> kstate \<Rightarrow> kstate" where
  "set_p_pcb t p = upd_tcb t (\<lambda>b. b\<lparr>p_pcb := p\<rparr>)"

text \<open>\<open>prcid = (prcid == TPRC_INI)? p_tcb->p_tinib->iaffinity : prcid\<close>\<close>

definition act_prcid :: "cfg \<Rightarrow> tskix \<Rightarrow> ident \<Rightarrow> ident" where
  "act_prcid C t prcid = (if prcid = TPRC_INI then iaffinity (tinib_table C t) else prcid)"

definition act_tsk :: "cfg \<Rightarrow> prcix \<Rightarrow> ident \<Rightarrow> kstate \<Rightarrow> ercd svc \<times> kstate" where
  "act_tsk C me tskid s =
     (if \<not> sense_tskctx_unl me s then (Ret E_CTX, s)
      else if \<not> VALID_TSKID_SELF C tskid then (Ret E_ID, s)
      else let t = get_tcb_self me tskid s; p = p_pcb (tcb_of s t) in
        if TSTAT_DORMANT (tstat (tcb_of s t)) then
          (let (b, s) = make_active t s;
               (dspreq, s) = t_request me p b s
           in (Ret E_OK, t_dispatch_if me dspreq s))
        else if \<not> actque (tcb_of s t) then
          (Ret E_OK, upd_tcb t (\<lambda>b. b\<lparr>actque := True\<rparr>) s)
        else (Ret E_QOVR, s))"

definition iact_tsk :: "cfg \<Rightarrow> prcix \<Rightarrow> ident \<Rightarrow> kstate \<Rightarrow> ercd svc \<times> kstate" where
  "iact_tsk C me tskid s =
     (if \<not> sense_intctx_unl me s then (Ret E_CTX, s)
      else if \<not> VALID_TSKID C tskid then (Ret E_ID, s)
      else let t = get_tcb tskid; p = p_pcb (tcb_of s t) in
        if TSTAT_DORMANT (tstat (tcb_of s t)) then
          (let (b, s) = make_active t s in (Ret E_OK, i_request me p b s))
        else if \<not> actque (tcb_of s t) then
          (Ret E_OK, upd_tcb t (\<lambda>b. b\<lparr>actque := True\<rparr>) s)
        else (Ret E_QOVR, s))"

definition mact_tsk :: "cfg \<Rightarrow> prcix \<Rightarrow> ident \<Rightarrow> ident \<Rightarrow> kstate \<Rightarrow> ercd svc \<times> kstate" where
  "mact_tsk C me tskid prcid s =
     (if \<not> sense_tskctx_unl me s then (Ret E_CTX, s)
      else if \<not> VALID_TSKID_SELF C tskid then (Ret E_ID, s)
      else if \<not> VALID_PRCID_INI C prcid then (Ret E_ID, s)
      else let t = get_tcb_self me tskid s; prcid = act_prcid C t prcid in
        if \<not> VALID_MIG (affinity_mask (tinib_table C t)) prcid then (Ret E_PAR, s)
        else let t_p_pcb = INDEX_PRC prcid in
          if TSTAT_DORMANT (tstat (tcb_of s t)) then
            (let s = set_p_pcb t t_p_pcb s;
                 (b, s) = make_active t s;
                 (dspreq, s) = t_request me t_p_pcb b s
             in (Ret E_OK, t_dispatch_if me dspreq s))
          else if \<not> actque (tcb_of s t) then (Ret E_OK, set_actque t True prcid s)
          else (Ret E_QOVR, s))"

definition imact_tsk :: "cfg \<Rightarrow> prcix \<Rightarrow> ident \<Rightarrow> ident \<Rightarrow> kstate \<Rightarrow> ercd svc \<times> kstate" where
  "imact_tsk C me tskid prcid s =
     (if \<not> sense_intctx_unl me s then (Ret E_CTX, s)
      else if \<not> VALID_TSKID C tskid then (Ret E_ID, s)
      else if \<not> VALID_PRCID_INI C prcid then (Ret E_ID, s)
      else let t = get_tcb tskid; prcid = act_prcid C t prcid in
        if \<not> VALID_MIG (affinity_mask (tinib_table C t)) prcid then (Ret E_PAR, s)
        else let t_p_pcb = INDEX_PRC prcid in
          if TSTAT_DORMANT (tstat (tcb_of s t)) then
            (let s = set_p_pcb t t_p_pcb s;
                 (b, s) = make_active t s
             in (Ret E_OK, i_request me t_p_pcb b s))
          else if \<not> actque (tcb_of s t) then (Ret E_OK, set_actque t True prcid s)
          else (Ret E_QOVR, s))"

definition can_act :: "cfg \<Rightarrow> prcix \<Rightarrow> ident \<Rightarrow> kstate \<Rightarrow> (ercd + nat) svc \<times> kstate" where
  "can_act C me tskid s =
     (if \<not> sense_tskctx_unl me s then (Ret (Inl E_CTX), s)
      else if \<not> VALID_TSKID_SELF C tskid then (Ret (Inl E_ID), s)
      else let t = get_tcb_self me tskid s in
        (Ret (Inr (if actque (tcb_of s t) then 1 else 0)), set_actque t False TPRC_NONE s))"

section \<open>Migration\<close>

text \<open>
  \<open>exit_and_dispatch\<close> abandons the context and enters the dispatcher; the task that is started or
  resumed runs with the CPU unlocked, or unlocks it itself on its way out of the kernel.
\<close>

definition exit_and_dispatch :: "prcix \<Rightarrow> kstate \<Rightarrow> kstate" where
  "exit_and_dispatch me s = dispatch me (set_lock_flag me False s)"

text \<open>A result of \<open>make_runnable\<close> that only leads to \<open>dispatch_request\<close> of another processor.\<close>

definition request_other :: "prcix \<Rightarrow> prcix \<Rightarrow> bool \<Rightarrow> kstate \<Rightarrow> kstate" where
  "request_other me p b s = (if b then snd (dispatch_request me p s) else s)"

definition migrate_self :: "prcix \<Rightarrow> ident \<Rightarrow> kstate \<Rightarrow> kstate" where
  "migrate_self me prcid s =
     (let t = runtsk me s; t_p_pcb = INDEX_PRC prcid;
          s = (if TSTAT_RUNNABLE (tstat (tcb_of s t)) then
                 (let (_, s) = make_non_runnable t s;
                      s = set_p_pcb t t_p_pcb s;
                      (b, s) = make_runnable t s
                  in request_other me t_p_pcb b s)
               else s)
      in exit_and_dispatch me s)"

text \<open>The time event of a waiting task goes to the event queue of the other processor.\<close>

definition move_event :: "tskix \<Rightarrow> prcix \<Rightarrow> prcix \<Rightarrow> kstate \<Rightarrow> kstate" where
  "move_event t f_p_pcb t_p_pcb s =
     (let (left_time, s) = tmevtb_dequeue f_p_pcb (TM_TSK t) s;
          (te, ix) = tmevtb_insert (TM_TSK t) (base_time (tevt_of s t_p_pcb) + left_time)
            (tevt_of s t_p_pcb, tm_index s);
          s = s\<lparr>tevt_of := (tevt_of s)(t_p_pcb := te), tm_index := ix\<rparr>
      in set_p_pcb t t_p_pcb s)"

definition mig_tsk :: "cfg \<Rightarrow> prcix \<Rightarrow> ident \<Rightarrow> ident \<Rightarrow> kstate \<Rightarrow> ercd svc \<times> kstate" where
  "mig_tsk C me tskid prcid s =
     (if \<not> sense_tskctx_unl me s then (Ret E_CTX, s)
      else if \<not> VALID_TSKID_SELF C tskid then (Ret E_ID, s)
      else if \<not> VALID_PRCID_INI C prcid then (Ret E_ID, s)
      else let t = get_tcb_self me tskid s; prcid = act_prcid C t prcid in
        if \<not> VALID_MIG (affinity_mask (tinib_table C t)) prcid then (Ret E_PAR, s)
        else let f_p_pcb = p_pcb (tcb_of s t); t_p_pcb = INDEX_PRC prcid in
          if f_p_pcb \<noteq> me then (Ret E_OBJ, s)
          else if TSTAT_RUNNABLE (tstat (tcb_of s t)) then
            (if Some t = p_runtsk (pcb_of s me) then
               (if \<not> dspflg (pcb_of s me) then (Ret E_CTX, s)
                else if t_p_pcb = me then
                  (let (dspreq, s) = set_lowest_precedence t me s
                   in (Ret E_OK, t_dispatch_if me dspreq s))
                else (Ret E_OK, migrate_self me prcid s))
             else if t_p_pcb = me then (Ret E_OK, snd (set_lowest_precedence t me s))
             else
               (let (_, s) = make_non_runnable t s;
                    s = set_p_pcb t t_p_pcb s;
                    (b, s) = make_runnable t s
                in (Ret E_OK, request_other me t_p_pcb b s)))
          else if TSTAT_DORMANT (tstat (tcb_of s t)) then (Ret E_OK, set_p_pcb t t_p_pcb s)
          else if tm_callback s (TM_TSK t) = None then (Ret E_OK, set_p_pcb t t_p_pcb s)
          else (Ret E_OK, move_event t f_p_pcb t_p_pcb s))"

section \<open>Termination\<close>

definition exit_and_migrate_self :: "cfg \<Rightarrow> prcix \<Rightarrow> ident \<Rightarrow> kstate \<Rightarrow> kstate" where
  "exit_and_migrate_self C me prcid s =
     (let t = runtsk me s; t_p_pcb = INDEX_PRC prcid;
          (_, s) = make_non_runnable t s;
          s = make_dormant C t s;
          s = set_p_pcb t t_p_pcb s;
          s = set_actque t False TPRC_NONE s;
          (b, s) = make_active t s
      in exit_and_dispatch me (request_other me t_p_pcb b s))"

text \<open>\<open>if (p_tcb->actque)\<close>: the activation request that was queued is served.\<close>

definition reactivate :: "tskix \<Rightarrow> kstate \<Rightarrow> bool \<times> kstate" where
  "reactivate t s =
     (if actque (tcb_of s t) then make_active t (set_actque t False TPRC_NONE s) else (False, s))"

definition ext_flags :: "prcix \<Rightarrow> kstate \<Rightarrow> kstate" where
  "ext_flags me s =
     force_unlock_spin me (upd_pcb me (\<lambda>b. b\<lparr>disdsp := False, ipmflg := True, dspflg := True\<rparr>) s)"

definition ext_tsk :: "cfg \<Rightarrow> prcix \<Rightarrow> kstate \<Rightarrow> ercd svc \<times> kstate" where
  "ext_tsk C me s =
     (if sense_context me s then (Ret E_CTX, s)
      else let t = runtsk me s; prcid = actprc (tcb_of s t); s = ext_flags me s in
        if prcid = TPRC_NONE \<or> prcid = ID_PRC me then
          (let (_, s) = make_non_runnable t s;
               s = make_dormant C t s;
               (_, s) = reactivate t s
           in (Exits, exit_and_dispatch me s))
        else (Exits, exit_and_migrate_self C me prcid s))"

text \<open>
  \<open>ter_tsk\<close> either is done in its first step, or remembers the object the task waits for and,
  with a migration pending, the destination.
\<close>

datatype ter_next = Ter_done "ercd svc" | Ter_wobj wobj | Ter_wobj_mig wobj prcix

definition ter_stop :: "cfg \<Rightarrow> tskix \<Rightarrow> kstate \<Rightarrow> kstate" where
  "ter_stop C t s =
     (let s = (if TSTAT_RUNNABLE (tstat (tcb_of s t)) then snd (make_non_runnable t s)
               else if TSTAT_WAITING (tstat (tcb_of s t)) then wait_dequeue_tmevtb t s else s)
      in make_dormant C t s)"

definition ter_migrate :: "prcix \<Rightarrow> tskix \<Rightarrow> prcix \<Rightarrow> kstate \<Rightarrow> kstate" where
  "ter_migrate me t t_p_pcb s =
     (let s = set_actque t False TPRC_NONE s;
          s = set_p_pcb t t_p_pcb s;
          (b, s) = make_active t s
      in request_other me t_p_pcb b s)"

definition ter_restart :: "prcix \<Rightarrow> tskix \<Rightarrow> kstate \<Rightarrow> kstate" where
  "ter_restart me t s =
     (let p = p_pcb (tcb_of s t);
          (b, s) = reactivate t s;
          (dspreq, s) = t_request me p b s
      in t_dispatch_if me dspreq s)"

definition ter_tsk_1 :: "cfg \<Rightarrow> prcix \<Rightarrow> ident \<Rightarrow> kstate \<Rightarrow> ter_next \<times> kstate" where
  "ter_tsk_1 C me tskid s =
     (if \<not> sense_tskctx_unl me s then (Ter_done (Ret E_CTX), s)
      else if \<not> VALID_TSKID C tskid then (Ter_done (Ret E_ID), s)
      else let t = get_tcb tskid; p = p_pcb (tcb_of s t); prcid = actprc (tcb_of s t) in
        if Some t = p_runtsk (pcb_of s me) then (Ter_done (Ret E_ILUSE), s)
        else if p \<noteq> me then (Ter_done (Ret E_OBJ), s)
        else if TSTAT_DORMANT (tstat (tcb_of s t)) then (Ter_done (Ret E_OBJ), s)
        else if \<not> (TSTAT_WAITING (tstat (tcb_of s t)) \<and> TSTAT_WAIT_WOBJ (tstat (tcb_of s t))) then
          (if prcid = TPRC_NONE \<or> prcid = ID_PRC p then
             (Ter_done (Ret E_OK), ter_restart me t (ter_stop C t s))
           else
             (Ter_done (Ret E_OK), ter_migrate me t (INDEX_PRC prcid) (ter_stop C t s)))
        else if prcid = TPRC_NONE \<or> prcid = ID_PRC p then
          (Ter_wobj (the (p_wobjcb (tcb_of s t))), s)
        else (Ter_wobj_mig (the (p_wobjcb (tcb_of s t))) (INDEX_PRC prcid), s))"

definition ter_unwait :: "cfg \<Rightarrow> tskix \<Rightarrow> kstate \<Rightarrow> kstate" where
  "ter_unwait C t s = make_dormant C t (wait_dequeue_tmevtb t (wait_dequeue_wobj t s))"

fun ter_tsk_2 :: "cfg \<Rightarrow> prcix \<Rightarrow> tskix \<Rightarrow> ter_next \<Rightarrow> kstate \<Rightarrow> ercd svc \<times> kstate" where
  "ter_tsk_2 C me t (Ter_done r) s = (r, s)"
| "ter_tsk_2 C me t (Ter_wobj w) s =
     (if TSTAT_WAITING (tstat (tcb_of s t)) \<and> \<not> TSTAT_WAIT_WOBJ (tstat (tcb_of s t)) \<or>
         Some w \<noteq> p_wobjcb (tcb_of s t)
      then (Again, s)
      else (Ret E_OK, ter_restart me t (ter_unwait C t s)))"
| "ter_tsk_2 C me t (Ter_wobj_mig w t_p_pcb) s =
     (if Some w \<noteq> p_wobjcb (tcb_of s t) \<or>
         TSTAT_WAITING (tstat (tcb_of s t)) \<and> \<not> TSTAT_WAIT_WOBJ (tstat (tcb_of s t)) \<or>
         INDEX_PRC (actprc (tcb_of s t)) \<noteq> t_p_pcb \<or> p_pcb (tcb_of s t) \<noteq> me
      then (Again, s)
      else (Ret E_OK, ter_migrate me t t_p_pcb (ter_unwait C t s)))"

definition ter_tsk :: "cfg \<Rightarrow> prcix \<Rightarrow> ident \<Rightarrow> kstate \<Rightarrow> ercd svc \<times> kstate" where
  "ter_tsk C me tskid s =
     (let (n, s) = ter_tsk_1 C me tskid s in ter_tsk_2 C me (get_tcb tskid) n s)"

section \<open>Priority\<close>

text \<open>\<open>None\<close>: the task waits for an object, so the change goes on in the second step.\<close>

definition chg_pri_1 :: "cfg \<Rightarrow> prcix \<Rightarrow> ident \<Rightarrow> pri \<Rightarrow> kstate \<Rightarrow> (ercd svc + nat) \<times> kstate" where
  "chg_pri_1 C me tskid tskpri s =
     (if \<not> sense_tskctx_unl me s then (Inl (Ret E_CTX), s)
      else if \<not> VALID_TSKID_SELF C tskid then (Inl (Ret E_ID), s)
      else if \<not> VALID_TPRI_INI tskpri then (Inl (Ret E_PAR), s)
      else let t = get_tcb_self me tskid s;
               newpri = (if tskpri = TPRI_INI then ipriority (tinib_table C t) else INT_PRIORITY tskpri);
               p = p_pcb (tcb_of s t) in
        if TSTAT_DORMANT (tstat (tcb_of s t)) then (Inl (Ret E_OBJ), s)
        else if \<not> (TSTAT_WAITING (tstat (tcb_of s t)) \<and> TSTAT_WAIT_WOBJ (tstat (tcb_of s t))) then
          (let (b, s) = change_priority C t newpri s;
               (dspreq, s) = t_request me p b s
           in (Inl (Ret E_OK), t_dispatch_if me dspreq s))
        else (Inr newpri, upd_tcb t (\<lambda>b. b\<lparr>pend_chgpri := True, pend_newpri := newpri\<rparr>) s))"

definition chg_pri_2 :: "cfg \<Rightarrow> tskix \<Rightarrow> nat \<Rightarrow> kstate \<Rightarrow> ercd svc \<times> kstate" where
  "chg_pri_2 C t newpri s =
     (if \<not> pend_chgpri (tcb_of s t) then (Ret E_OK, s)
      else
        (let s = upd_tcb t (\<lambda>b. b\<lparr>priority := pend_newpri b, pend_chgpri := False\<rparr>) s
         in (Ret E_OK, snd (change_priority C t newpri s))))"

definition chg_pri :: "cfg \<Rightarrow> prcix \<Rightarrow> ident \<Rightarrow> pri \<Rightarrow> kstate \<Rightarrow> ercd svc \<times> kstate" where
  "chg_pri C me tskid tskpri s =
     (let t = get_tcb_self me tskid s in
      case chg_pri_1 C me tskid tskpri s of
        (Inl r, s) \<Rightarrow> (r, s)
      | (Inr newpri, s) \<Rightarrow> chg_pri_2 C t newpri s)"

definition get_pri :: "cfg \<Rightarrow> prcix \<Rightarrow> ident \<Rightarrow> kstate \<Rightarrow> (ercd \<times> pri option) \<times> kstate" where
  "get_pri C me tskid s =
     (if \<not> sense_tskctx_unl me s then ((E_CTX, None), s)
      else if \<not> VALID_TSKID_SELF C tskid then ((E_ID, None), s)
      else let t = get_tcb_self me tskid s in
        if TSTAT_DORMANT (tstat (tcb_of s t)) then ((E_OBJ, None), s)
        else ((E_OK, Some (EXT_TSKPRI (priority (tcb_of s t)))), s))"

definition get_inf :: "cfg \<Rightarrow> prcix \<Rightarrow> kstate \<Rightarrow> (ercd \<times> intptr option) \<times> kstate" where
  "get_inf C me s =
     (if \<not> sense_tskctx_unl me s then ((E_CTX, None), s)
      else ((E_OK, Some (exinf (tinib_table C (runtsk me s)))), s))"

section \<open>Halting and moving a task\<close>

text \<open>
  A runnable task is taken out of its ready queue and then its control block changes: the general
  form of stopping it.
\<close>

lemma halt_kparts:
  assumes K: "kparts C P Q s" and run: "TSTAT_RUNNABLE (tstat (tcb_of s t))"
    and eq: "make_non_runnable t s = (b, s1)"
    and f: "place (f (tcb_of s t)) = None" "wf_tcb (f (tcb_of s t))" "\<not> TSTAT_WAITING (tstat (f (tcb_of s t)))"
  defines "h \<equiv> RDY (p_pcb (tcb_of s t)) (priority (tcb_of s t))"
  shows "kparts C (if b then insert (p_pcb (tcb_of s t)) P else P) (Q(h := remove1 t (Q h))) (upd_tcb t f s1)"
    and "tcb_of s1 = tcb_of s" and "objs s1 = objs s" and "core_frame s s1"
proof -
  note D = kpartsD [OF K]
  let ?Q = "Q(h := remove1 t (Q h))"
  have tQ: "t \<in> set (Q h)" using D(6) [of t h] run by (simp add: place_def h_def)
  note I = make_non_runnable_inv [OF D(1) tQ [unfolded h_def] eq, folded h_def]
  note F = make_non_runnable_frame [OF eq]
  note FD = sched_frameD [OF F]
  show tc: "tcb_of s1 = tcb_of s" using FD(1) by simp
  show "objs s1 = objs s" using FD(6) by simp
  show cf: "core_frame s s1" by (rule sched_core_frame [OF F])
  have nq: "\<not> queued ?Q t" by (rule ring.not_queued_unlink [OF D(4) tQ])
  have "qinv {t} ?Q (upd_tcb t f s1)"
    by (rule qinv_upd_tcb_nr) (use I(1) nq f(2) tc in \<open>auto simp: queued_def wf_tcb_def\<close>)
  then have "qinv ({t} - {t}) ?Q (upd_tcb t f s1)"
    by (rule qinv_arrive) (use f tc nq in \<open>auto simp: queued_def\<close>)
  moreover have "tinv {} (upd_tcb t f s1)"
    by (rule tinv_frame [OF D(2)])
       (use FD f wf_runnable_pend [OF D(5) run] in \<open>auto simp: tm_place_def cb_ok_def same_handlers_def\<close>)
  moreover have "dinv (if b then insert (p_pcb (tcb_of s t)) P else P) (upd_tcb t f s1)"
    using dinv_core_change [OF D(3) cf I(2)] by (simp add: dinv_def)
  moreover have "sinv C ?Q (upd_tcb t f s1)"
  proof (rule sinv_cong [OF D(8)])
    have "t \<notin> set (Q (WAITQ w))" for w
      using D(6) [of t "WAITQ w"] run by (auto simp: place_def)
    then show "priority (tcb_of (upd_tcb t f s1) u) = priority (tcb_of s u)" if "u \<in> set (Q (WAITQ w))" for w u
      using that tc by auto
  qed (simp add: h_def)
  ultimately show "kparts C (if b then insert (p_pcb (tcb_of s t)) P else P) ?Q (upd_tcb t f s1)"
    by (simp add: kparts_def)
qed

text \<open>A runnable task moves to the ready queue of another processor.\<close>

lemma move_kparts:
  assumes K: "kparts C P Q s" and run: "TSTAT_RUNNABLE (tstat (tcb_of s t))"
    and eq: "make_non_runnable t s = (b1, s1)" "make_runnable t (set_p_pcb t p s1) = (b2, s2)"
  defines "h \<equiv> RDY (p_pcb (tcb_of s t)) (priority (tcb_of s t))" and "h' \<equiv> RDY p (priority (tcb_of s t))"
  defines "Q1 \<equiv> Q(h := remove1 t (Q h))" and "P1 \<equiv> if b1 then insert (p_pcb (tcb_of s t)) P else P"
  shows "kparts C (if b2 then insert p P1 else P1) (Q1(h' := Q1 h' @ [t])) s2"
    and "tcb_of s2 = (tcb_of s)(t := (tcb_of s t)\<lparr>p_pcb := p\<rparr>)" and "objs s2 = objs s" and "core_frame s s2"
proof -
  note D = kpartsD [OF K]
  have tQ: "t \<in> set (Q h)" using D(6) [of t h] run by (simp add: place_def h_def)
  note I = make_non_runnable_inv [OF D(1) tQ [unfolded h_def] eq(1), folded h_def Q1_def]
  note FD = sched_frameD [OF make_non_runnable_frame [OF eq(1)]]
  note cf = sched_core_frame [OF make_non_runnable_frame [OF eq(1)]]
  let ?s = "set_p_pcb t p s1"
  have tc: "tcb_of ?s = (tcb_of s)(t := (tcb_of s t)\<lparr>p_pcb := p\<rparr>)" using FD(1) by (simp add: set_p_pcb_def)
  have nq: "\<not> queued Q1 t" unfolding Q1_def by (rule ring.not_queued_unlink [OF D(4) tQ])
  have q: "qinv {t} Q1 ?s"
    unfolding set_p_pcb_def
    by (rule qinv_upd_tcb_nr) (use I(1) nq FD(1) D(5) [of t] in \<open>auto simp: queued_def\<close>)
  have c1: "core_frame s ?s" using cf by (simp add: set_p_pcb_def)
  have d1: "dinv P1 ?s"
    using dinv_core_change [OF D(3) cf I(2)] by (simp add: dinv_def set_p_pcb_def P1_def)
  note J = make_runnable_inv [OF q nq _ _ eq(2)]
  note F2 = make_runnable_frame [OF eq(2)]
  note G = sched_frameD [OF F2]
  show tc2: "tcb_of s2 = (tcb_of s)(t := (tcb_of s t)\<lparr>p_pcb := p\<rparr>)" using G(1) tc by simp
  show cf2: "core_frame s s2" by (rule core_frame_trans [OF c1 sched_core_frame [OF F2]])
  show "objs s2 = objs s" by (rule core_frameD(2) [OF cf2])
  have "qinv ({t} - {t}) (Q1(h' := Q1 h' @ [t])) s2"
    using J(1) tc run D(5) [of t] by (simp add: h'_def)
  moreover have "sched_change p b2 ?s s2" using J(2) tc run D(5) [of t] by simp
  from dinv_core_change [OF d1 sched_core_frame [OF F2] this]
  have "dinv (if b2 then insert p P1 else P1) s2" .
  moreover have "tinv {} s2"
    by (rule tinv_frame [OF D(2)])
       (use FD G wf_runnable_pend [OF D(5) run] in \<open>auto simp: tm_place_def cb_ok_def same_handlers_def set_p_pcb_def\<close>)
  moreover have "sinv C (Q1(h' := Q1 h' @ [t])) s2"
    by (rule sinv_cong [OF D(8)]) (auto simp: h_def h'_def Q1_def tc2)
  ultimately show "kparts C (if b2 then insert p P1 else P1) (Q1(h' := Q1 h' @ [t])) s2"
    by (simp add: kparts_def)
qed

text \<open>A processor whose dispatch is already pending needs no further request.\<close>

lemma kparts_pending:
  assumes "kparts C (insert p P) Q s" and "p \<in> P \<or> reqflg (pcb_of s p) \<or> ipi s p \<or> \<not> kerflg (pcb_of s p)"
  shows "kparts C P Q s"
  using assms by (auto simp: kparts_def dinv_def)

lemma make_non_runnable_request:
  "make_non_runnable t s = (b, s1) \<Longrightarrow> b \<Longrightarrow>
   p_schedtsk (pcb_of s (p_pcb (tcb_of s t))) = Some t \<and> dspflg (pcb_of s (p_pcb (tcb_of s t)))"
  by (auto simp: make_non_runnable_def Let_def split: if_splits)

lemma unrequested:
  assumes K: "kparts C P Q s" and nr: "p_runtsk (pcb_of s p) \<noteq> Some t"
    and b: "b \<Longrightarrow> p_schedtsk (pcb_of s p) = Some t \<and> dspflg (pcb_of s p)" and cf: "core_frame s s'"
    and K': "kparts C (if b then insert p P else P) Q' s'"
  shows "kparts C P Q' s'"
proof (cases b)
  case True
  have "p \<in> P \<or> reqflg (pcb_of s p) \<or> ipi s p \<or> \<not> kerflg (pcb_of s p)"
    using b [OF True] kpartsD(3) [OF K] nr by (auto simp: dinv_def)
  then show ?thesis
    using kparts_pending [of C p P Q' s'] K' True core_frameD(1,4,8) [OF cf] by simp
next
  case False
  then show ?thesis using K' by simp
qed

lemma request_other_kparts:
  assumes K: "kparts C (if b then insert p P else P) Q s" and p: "p \<noteq> me"
  shows "kparts C P Q (request_other me p b s)"
    and "tcb_of (request_other me p b s) = tcb_of s" "objs (request_other me p b s) = objs s"
    "pcb_of (request_other me p b s) = pcb_of s"
proof -
  have "kparts C P Q (target_ipi_raise p s)" if "kparts C (insert p P) Q s"
  proof -
    note D = kpartsD [OF that]
    have "qinv {} Q (target_ipi_raise p s)" by (rule qinv_frame [OF D(1)]) (simp_all add: target_ipi_raise_def)
    moreover have "tinv {} (target_ipi_raise p s)"
      by (rule tinv_frame [OF D(2)]) (simp_all add: target_ipi_raise_def tm_place_def cb_ok_def same_handlers_def)
    moreover have "dinv P (target_ipi_raise p s)" using D(3) by (auto simp: dinv_def target_ipi_raise_def)
    moreover have "sinv C Q (target_ipi_raise p s)" using D(8) by (simp add: sinv_def target_ipi_raise_def)
    ultimately show ?thesis by (simp add: kparts_def)
  qed
  then show "kparts C P Q (request_other me p b s)"
    using K p by (auto simp: request_other_def dispatch_request_def)
  show "tcb_of (request_other me p b s) = tcb_of s" "objs (request_other me p b s) = objs s"
    "pcb_of (request_other me p b s) = pcb_of s"
    by (auto simp: request_other_def dispatch_request_def target_ipi_raise_def)
qed

text \<open>The dispatch makes the running task of the calling processor right, whatever it was.\<close>

definition rinv_but :: "prcix \<Rightarrow> kstate \<Rightarrow> bool" where
  "rinv_but me s \<longleftrightarrow> (\<forall>p t. p \<noteq> me \<longrightarrow> p_runtsk (pcb_of s p) = Some t \<longrightarrow>
        p_pcb (tcb_of s t) = p \<and> \<not> TSTAT_DORMANT (tstat (tcb_of s t))) \<and>
     (\<forall>p. p \<noteq> me \<longrightarrow> excpt_nest_count (pcb_of s p) = 0 \<longrightarrow> p_runtsk (pcb_of s p) \<noteq> None)"

lemma exit_and_dispatch_kinv:
  assumes K: "kparts C (insert me P) Q s" and R: "rinv_but me s"
  shows "kinv C P Q (exit_and_dispatch me s)"
proof -
  note D = kpartsD [OF K]
  let ?s = "exit_and_dispatch me s"
  have e: "?s = dispatch me (set_lock_flag me False s)" by (simp add: exit_and_dispatch_def)
  have "qinv {} Q ?s" by (rule qinv_frame [OF D(1)]) (simp_all add: e dispatch_def set_lock_flag_def)
  moreover have "tinv {} ?s"
    by (rule tinv_frame [OF D(2)]) (simp_all add: e dispatch_def set_lock_flag_def tm_place_def cb_ok_def same_handlers_def)
  moreover have "dinv P ?s" using D(3) by (auto simp: dinv_def e dispatch_def set_lock_flag_def)
  moreover have "sinv C Q ?s" using D(8) by (simp add: sinv_def e dispatch_def set_lock_flag_def)
  moreover have "rinv ?s"
    using R D(7) [of me] top_task_runs [OF D(1), of me]
    by (auto simp: rinv_def rinv_but_def e dispatch_def set_lock_flag_def)
  ultimately show ?thesis by (simp add: kinv_def)
qed

lemma exit_and_dispatch_sel [simp]:
  "tcb_of (exit_and_dispatch me s) = tcb_of s" "objs (exit_and_dispatch me s) = objs s"
  by (simp_all add: exit_and_dispatch_def set_lock_flag_def)

lemma kinv_running:
  assumes "kinv C P Q s" and "p_runtsk (pcb_of s p) = Some t"
  shows "p_pcb (tcb_of s t) = p" and "\<not> TSTAT_DORMANT (tstat (tcb_of s t))"
  using kinvD(8) [OF assms(1)] assms(2) by (auto simp: rinv_def)

section \<open>Activation keeps the invariant\<close>

lemma dormant_place:
  "TSTAT_DORMANT (tstat tc) \<Longrightarrow> place tc = None \<and> \<not> TSTAT_WAITING (tstat tc) \<and> \<not> TSTAT_RUNNABLE (tstat tc)"
  by (auto simp: place_def tstat_macros tstat_consts)

lemma make_active_upd:
  "make_active t (upd_tcb t f s) = make_runnable t (upd_tcb t (\<lambda>b. (f b)\<lparr>tstat := TS_RUNNABLE\<rparr>) s)"
  "make_active t s = make_runnable t (upd_tcb t (\<lambda>b. b\<lparr>tstat := TS_RUNNABLE\<rparr>) s)"
  by (simp_all add: make_active_def upd_tcb_upd)

lemma wf_activated:
  assumes "wf_tcb tc" and "TSTAT_DORMANT (tstat tc)"
  shows "wf_tcb (tc\<lparr>tstat := TS_RUNNABLE\<rparr>)"
  using assms by (auto simp: wf_tcb_def tstat_macros tstat_consts wf_tstats_def)

context wake_request begin

lemma start_step:
  assumes K: "kinv C {} Q s" and d: "TSTAT_DORMANT (tstat (tcb_of s t))"
    and f: "tstat (f (tcb_of s t)) = TS_RUNNABLE" "wf_tcb (f (tcb_of s t))" "winfo_obj (f (tcb_of s t)) = winfo_obj (tcb_of s t)"
    and eq: "make_runnable t (upd_tcb t f s) = (b, s1)" "req me (p_pcb (f (tcb_of s t))) b s1 = (r, s2)"
  shows "task_step C Q s (t_dispatch_if me r s2)"
    and "tcb_of (t_dispatch_if me r s2) = (tcb_of s)(t := f (tcb_of s t))"
proof -
  have nr: "p_runtsk (pcb_of s p) \<noteq> Some t" for p using kinv_running(2) [OF K, of p t] d by blast
  note S = start_kinv [OF K _ _ _ _ f(2) eq(1)]
  have K1: "kinv C (if b then insert (p_pcb (f (tcb_of s t))) {} else {})
      (Q(RDY (p_pcb (f (tcb_of s t))) (priority (f (tcb_of s t))) :=
         Q (RDY (p_pcb (f (tcb_of s t))) (priority (f (tcb_of s t)))) @ [t])) s1"
    and s1: "tcb_of s1 = (tcb_of s)(t := f (tcb_of s t))" "objs s1 = objs s"
    using S nr dormant_place [OF d] f(1) by simp_all
  note R = request_done [OF K1 eq(2)]
  show tc: "tcb_of (t_dispatch_if me r s2) = (tcb_of s)(t := f (tcb_of s t))" using R(2) s1 by simp
  show "task_step C Q s (t_dispatch_if me r s2)"
    by (rule task_stepI [OF R(1) keeps_ready [OF tc]]) (use R(3) s1 f(3) in auto)
qed

lemma activate_step:
  assumes K: "kinv C {} Q s" and d: "TSTAT_DORMANT (tstat (tcb_of s t))"
    and eq: "make_active t s = (b, s1)" "req me (p_pcb (tcb_of s t)) b s1 = (r, s2)"
  shows "task_step C Q s (t_dispatch_if me r s2)"
    and "tcb_of (t_dispatch_if me r s2) = (tcb_of s)(t := (tcb_of s t)\<lparr>tstat := TS_RUNNABLE\<rparr>)"
  using start_step [OF K d _ _ _ eq(1) [unfolded make_active_upd(2)], of me r s2] eq(2)
    wf_activated [OF kinvD(5) [OF K] d] by simp_all

lemma activate_on_step:
  assumes K: "kinv C {} Q s" and d: "TSTAT_DORMANT (tstat (tcb_of s t))"
    and eq: "make_active t (set_p_pcb t p s) = (b, s1)" "req me p b s1 = (r, s2)"
  shows "task_step C Q s (t_dispatch_if me r s2)"
    and "tcb_of (t_dispatch_if me r s2) = (tcb_of s)(t := (tcb_of s t)\<lparr>p_pcb := p, tstat := TS_RUNNABLE\<rparr>)"
proof -
  have "wf_tcb ((tcb_of s t)\<lparr>p_pcb := p, tstat := TS_RUNNABLE\<rparr>)"
    using wf_activated [OF kinvD(5) [OF K] d]
      wf_tcb_cong [of "(tcb_of s t)\<lparr>p_pcb := p, tstat := TS_RUNNABLE\<rparr>" "(tcb_of s t)\<lparr>tstat := TS_RUNNABLE\<rparr>"]
    by simp
  then show "task_step C Q s (t_dispatch_if me r s2)"
    "tcb_of (t_dispatch_if me r s2) = (tcb_of s)(t := (tcb_of s t)\<lparr>p_pcb := p, tstat := TS_RUNNABLE\<rparr>)"
    using start_step [OF K d _ _ _ eq(1) [unfolded set_p_pcb_def make_active_upd(1)], of me r s2] eq(2)
    by simp_all
qed

end

lemma actque_step:
  assumes K: "kinv C {} Q s"
  shows "task_step C Q s (upd_tcb t (\<lambda>b. b\<lparr>actque := x\<rparr>) s)"
    and "0 \<le> a \<Longrightarrow> a < 2 ^ 31 \<Longrightarrow> task_step C Q s (set_actque t x a s)"
proof -
  have wf: "wf_tcb (tcb_of s t)" by (rule kinvD(5) [OF K])
  show "task_step C Q s (upd_tcb t (\<lambda>b. b\<lparr>actque := x\<rparr>) s)"
    by (rule task_step_upd_tcb [OF K]) (use wf in simp_all)
  assume "0 \<le> a" "a < 2 ^ 31"
  then have "wf_tcb ((tcb_of s t)\<lparr>actque := x, actprc := a\<rparr>)" using wf by (auto simp: wf_tcb_def split: option.splits)
  then show "task_step C Q s (set_actque t x a s)"
    unfolding set_actque_def by (intro task_step_upd_tcb [OF K]) simp_all
qed

lemma act_tsk_step:
  assumes K: "kinv C {} Q s"
  shows "task_step C Q s (snd (act_tsk C me tskid s))"
  using treq.activate_step(1) [OF K _ surjective_pairing surjective_pairing]
    actque_step(1) [OF K] task_step_refl [OF K]
  by (simp add: act_tsk_def Let_def split_beta)

lemma iact_tsk_step:
  assumes K: "kinv C {} Q s"
  shows "task_step C Q s (snd (iact_tsk C me tskid s))"
  using ireq.activate_step(1) [OF K _ surjective_pairing t_dispatch_if_i_req(1)]
    actque_step(1) [OF K] task_step_refl [OF K]
  by (simp add: iact_tsk_def Let_def split_beta t_dispatch_if_i_req)

text \<open>The processors of the configuration have identifiers of the type \<open>ID\<close>.\<close>

definition prc_ok :: "cfg \<Rightarrow> bool" where
  "prc_ok C \<longleftrightarrow> int (tnum_prcid C) < 2 ^ 31 \<and> (\<forall>t. VALID_PRCID C (iaffinity (tinib_table C t))) \<and>
     (\<forall>t. ipriority (tinib_table C t) < 16)"

lemma act_prcid_range:
  assumes "prc_ok C" and "VALID_PRCID_INI C prcid"
  shows "1 \<le> act_prcid C t prcid \<and> act_prcid C t prcid < 2 ^ 31"
proof -
  have n: "int (tnum_prcid C) < 2 ^ 31" using assms(1) by (simp add: prc_ok_def)
  have "VALID_PRCID C (act_prcid C t prcid)"
    using assms by (auto simp: act_prcid_def VALID_PRCID_INI_def prc_ok_def)
  then show ?thesis using n by (simp add: VALID_PRCID_def)
qed

lemma actque_prcid_step:
  assumes "kinv C {} Q s" and "prc_ok C" and "VALID_PRCID_INI C prcid"
  shows "task_step C Q s (set_actque t x (act_prcid C t prcid) s)"
  by (rule actque_step(2) [OF assms(1)]) (use act_prcid_range [OF assms(2,3), of t] in simp_all)

lemma mact_tsk_step:
  assumes K: "kinv C {} Q s" and C: "prc_ok C"
  shows "task_step C Q s (snd (mact_tsk C me tskid prcid s))"
  using treq.activate_on_step(1) [OF K _ surjective_pairing surjective_pairing]
    actque_prcid_step [OF K C] task_step_refl [OF K]
  by (simp add: mact_tsk_def Let_def split_beta)

lemma imact_tsk_step:
  assumes K: "kinv C {} Q s" and C: "prc_ok C"
  shows "task_step C Q s (snd (imact_tsk C me tskid prcid s))"
  using ireq.activate_on_step(1) [OF K _ surjective_pairing t_dispatch_if_i_req(1)]
    actque_prcid_step [OF K C] task_step_refl [OF K]
  by (simp add: imact_tsk_def Let_def split_beta t_dispatch_if_i_req)

lemma can_act_step:
  assumes K: "kinv C {} Q s"
  shows "task_step C Q s (snd (can_act C me tskid s))"
  using actque_step(2) [OF K, of TPRC_NONE] task_step_refl [OF K]
  by (simp add: can_act_def Let_def TPRC_NONE_def)

text \<open>An activation request for a dormant task starts it; one more is queued, a third is refused.\<close>

lemma act_tsk_spec:
  assumes K: "kinv C {} Q s" and c: "sense_tskctx_unl me s" and v: "VALID_TSKID_SELF C tskid"
    and eq: "act_tsk C me tskid s = (r, s')"
  defines "t \<equiv> get_tcb_self me tskid s"
  shows "task_step C Q s s' \<and>
    (if TSTAT_DORMANT (tstat (tcb_of s t)) then
       r = Ret E_OK \<and> tcb_of s' = (tcb_of s)(t := (tcb_of s t)\<lparr>tstat := TS_RUNNABLE\<rparr>)
     else if \<not> actque (tcb_of s t) then r = Ret E_OK \<and> s' = upd_tcb t (\<lambda>b. b\<lparr>actque := True\<rparr>) s
     else r = Ret E_QOVR \<and> s' = s)"
proof -
  have "task_step C Q s s'" using act_tsk_step [OF K, of me tskid] eq by simp
  moreover have "tcb_of s' = (tcb_of s)(t := (tcb_of s t)\<lparr>tstat := TS_RUNNABLE\<rparr>)"
    if d: "TSTAT_DORMANT (tstat (tcb_of s t))"
    using treq.activate_step(2) [OF K d surjective_pairing surjective_pairing, of me] eq c v d
    by (auto simp: act_tsk_def Let_def split_beta t_def)
  ultimately show ?thesis
    using eq c v by (auto simp: act_tsk_def Let_def split_beta t_def split: if_splits)
qed

section \<open>Migration keeps the invariant\<close>

lemma kparts_weaken: "kparts C P Q s \<Longrightarrow> P \<subseteq> P' \<Longrightarrow> kparts C P' Q s"
  using dinv_weaken by (auto simp: kparts_def)

lemma rinv_not_running:
  assumes "rinv s" and "\<And>p. p_runtsk (pcb_of s p) \<noteq> Some t" and "core_frame s s'"
    and "tcb_of s' = (tcb_of s)(t := x)"
  shows "rinv s'"
  using assms(1,2,4) core_frameD(3,6) [OF assms(3)] by (auto simp: rinv_def)

lemma rinv_but_running:
  assumes "rinv s" and "p_pcb (tcb_of s t) = me" and "core_frame s s'" and "tcb_of s' = (tcb_of s)(t := x)"
  shows "rinv_but me s'"
  using assms(1,2,4) core_frameD(3,6) [OF assms(3)] by (auto simp: rinv_def rinv_but_def)

lemma rinv_cong:
  "pcb_of s' = pcb_of s \<Longrightarrow> tcb_of s' = tcb_of s \<Longrightarrow> rinv s' = rinv s"
  "pcb_of s' = pcb_of s \<Longrightarrow> tcb_of s' = tcb_of s \<Longrightarrow> rinv_but me s' = rinv_but me s"
  by (simp_all add: rinv_def rinv_but_def)

lemma ID_PRC_INDEX:
  assumes "0 \<le> i" and "i < 2 ^ 31" and "me < 2 ^ 31 - 1"
  shows "INDEX_PRC i = me \<longleftrightarrow> i = ID_PRC me"
  using assms by (cases "i = 0") (auto simp: INDEX_PRC_def ID_PRC_def uint_cast_def nat_eq_iff)

text \<open>Moving the order of the tasks of one priority.\<close>

lemma reordered_kparts:
  assumes K: "kparts C P Q s" and q: "qinv {} Q' s'" "sched_change p b s s'" and F: "sched_frame s s'"
    and w: "\<And>w. Q' (WAITQ w) = Q (WAITQ w)"
  shows "kparts C (if b then insert p P else P) Q' s'" and "core_frame s s'" and "rinv s \<Longrightarrow> rinv s'"
proof -
  note D = kpartsD [OF K]
  note FD = sched_frameD [OF F]
  show cf: "core_frame s s'" by (rule sched_core_frame [OF F])
  show "rinv s \<Longrightarrow> rinv s'" by (rule rinv_core [OF _ cf]) (use FD(1) in simp_all)
  have "tinv {} s'" by (rule tinv_frame [OF D(2)]) (use FD in \<open>simp_all add: tm_place_def cb_ok_def same_handlers_def\<close>)
  moreover have "sinv C Q' s'" by (rule sinv_cong [OF D(8) w]) (simp add: FD(1))
  ultimately show "kparts C (if b then insert p P else P) Q' s'"
    using q(1) dinv_core_change [OF D(3) cf q(2)] by (simp add: kparts_def)
qed

lemma lowest_kparts:
  assumes K: "kparts C P Q s" and run: "TSTAT_RUNNABLE (tstat (tcb_of s t))"
    and eq: "set_lowest_precedence t (p_pcb (tcb_of s t)) s = (b, s')"
  defines "h \<equiv> RDY (p_pcb (tcb_of s t)) (priority (tcb_of s t))"
  shows "kparts C (if b then insert (p_pcb (tcb_of s t)) P else P) (Q(h := remove1 t (Q h) @ [t])) s'"
    and "core_frame s s'" and "rinv s \<Longrightarrow> rinv s'" and "tcb_of s' = tcb_of s" and "objs s' = objs s"
    and "b \<Longrightarrow> p_schedtsk (pcb_of s (p_pcb (tcb_of s t))) = Some t \<and> dspflg (pcb_of s (p_pcb (tcb_of s t)))"
proof -
  note D = kpartsD [OF K]
  have t: "t \<in> set (Q h)" using D(6) [of t h] run by (simp add: place_def h_def)
  note I = set_lowest_precedence_inv [OF D(1) refl t [unfolded h_def] eq, folded h_def]
  note F = set_lowest_precedence_frame [OF eq]
  note R = reordered_kparts [OF K I F]
  show "kparts C (if b then insert (p_pcb (tcb_of s t)) P else P) (Q(h := remove1 t (Q h) @ [t])) s'"
    "core_frame s s'" by (rule R, simp add: h_def)+
  show "rinv s \<Longrightarrow> rinv s'" by (rule R(3)) (simp_all add: h_def)
  show "tcb_of s' = tcb_of s" "objs s' = objs s" using sched_frameD [OF F] by simp_all
  show "b \<Longrightarrow> p_schedtsk (pcb_of s (p_pcb (tcb_of s t))) = Some t \<and> dspflg (pcb_of s (p_pcb (tcb_of s t)))"
    using eq by (auto simp: set_lowest_precedence_def Let_def split: if_splits)
qed

lemma keeps_rdy:
  "tcb_of s' = tcb_of s \<Longrightarrow> (\<And>k. (\<And>p i. k \<noteq> RDY p i) \<Longrightarrow> Q' k = Q k) \<Longrightarrow> keeps H Q s Q' s'"
  by (rule keeps_removed) auto

lemma lowest_self_step:
  assumes K: "kinv C {} Q s" and run: "TSTAT_RUNNABLE (tstat (tcb_of s t))" and p: "p_pcb (tcb_of s t) = me"
    and eq: "set_lowest_precedence t me s = (b, s')"
  shows "task_step C Q s (t_dispatch_if me b s')"
proof -
  have K': "kparts C {} Q s" "rinv s" using K by (simp_all add: kinv_parts)
  note L = lowest_kparts [OF K'(1) run eq [folded p], unfolded p]
  have "kinv C (if b then insert me {} else {})
      (Q(RDY me (priority (tcb_of s t)) := remove1 t (Q (RDY me (priority (tcb_of s t)))) @ [t])) s'"
    using L(1,3) K'(2) by (simp add: kinv_parts)
  from t_dispatch_if_kinv [OF this] show ?thesis
    by (rule task_stepI [OF _ keeps_rdy]) (use L in auto)
qed

lemma lowest_other_step:
  assumes K: "kinv C {} Q s" and run: "TSTAT_RUNNABLE (tstat (tcb_of s t))" and p: "p_pcb (tcb_of s t) = me"
    and nr: "p_runtsk (pcb_of s me) \<noteq> Some t" and eq: "set_lowest_precedence t me s = (b, s')"
  shows "task_step C Q s s'"
proof -
  have K': "kparts C {} Q s" "rinv s" using K by (simp_all add: kinv_parts)
  note L = lowest_kparts [OF K'(1) run eq [folded p], unfolded p]
  from unrequested [OF K'(1) nr L(6) L(2,1)]
  have "kinv C {} (Q(RDY me (priority (tcb_of s t)) := remove1 t (Q (RDY me (priority (tcb_of s t)))) @ [t])) s'"
    using L(3) K'(2) by (simp add: kinv_parts)
  then show ?thesis by (rule task_stepI [OF _ keeps_rdy]) (use L in auto)
qed

lemma migrate_other_step:
  assumes K: "kinv C {} Q s" and run: "TSTAT_RUNNABLE (tstat (tcb_of s t))" and p: "p_pcb (tcb_of s t) = me"
    and nr: "p_runtsk (pcb_of s me) \<noteq> Some t" and ne: "p \<noteq> me"
    and eq: "make_non_runnable t s = (b1, s1)" "make_runnable t (set_p_pcb t p s1) = (b2, s2)"
  shows "task_step C Q s (request_other me p b2 s2)"
proof -
  have K': "kparts C {} Q s" "rinv s" using K by (simp_all add: kinv_parts)
  note M = move_kparts [OF K'(1) run eq, unfolded assms(3)]
  let ?h = "RDY me (priority (tcb_of s t))" and ?h' = "RDY p (priority (tcb_of s t))"
  let ?Q1 = "Q(?h := remove1 t (Q ?h))"
  let ?Q' = "?Q1(?h' := ?Q1 ?h' @ [t])" and ?P = "if b2 then insert p {} else {}"
  have "kparts C (if b1 then insert me ?P else ?P) ?Q' s2"
    using M(1) by (auto split: if_splits simp: insert_commute)
  from unrequested [OF kparts_weaken [OF K'(1)] nr _ M(4) this]
  have "kparts C (if b2 then insert p {} else {}) ?Q' s2"
    using make_non_runnable_request [OF eq(1)] assms(3) by auto
  note R = request_other_kparts [OF this ne]
  have nr': "p_runtsk (pcb_of s q) \<noteq> Some t" for q using kinv_running(1) [OF K, of q t] nr assms(3) by auto
  have "rinv s2" by (rule rinv_not_running [OF K'(2) nr' M(4,2)])
  then have "rinv (request_other me p b2 s2)" using rinv_cong(1) [OF R(4,2)] by simp
  then have K2: "kinv C {} ?Q' (request_other me p b2 s2)" using R(1) by (simp add: kinv_parts)
  show ?thesis
    by (rule task_stepI [OF K2 keeps_ready]) (use R(2,3) M(2,3) in auto)
qed

lemma migrate_self_step:
  assumes K: "kinv C {} Q s" and r: "p_runtsk (pcb_of s me) = Some t"
    and run: "TSTAT_RUNNABLE (tstat (tcb_of s t))" and ne: "INDEX_PRC prcid \<noteq> me"
  shows "task_step C Q s (migrate_self me prcid s)"
    and "tcb_of (migrate_self me prcid s) = (tcb_of s)(t := (tcb_of s t)\<lparr>p_pcb := INDEX_PRC prcid\<rparr>)"
proof -
  have K': "kparts C {} Q s" "rinv s" using K by (simp_all add: kinv_parts)
  have p: "p_pcb (tcb_of s t) = me" by (rule kinv_running(1) [OF K r])
  obtain b1 s1 where 1: "make_non_runnable t s = (b1, s1)" by fastforce
  let ?p = "INDEX_PRC prcid"
  obtain b2 s2 where 2: "make_runnable t (set_p_pcb t ?p s1) = (b2, s2)" by fastforce
  note M = move_kparts [OF K'(1) run 1 2, unfolded p]
  let ?h = "RDY me (priority (tcb_of s t))" and ?h' = "RDY ?p (priority (tcb_of s t))"
  let ?Q1 = "Q(?h := remove1 t (Q ?h))" let ?Q' = "?Q1(?h' := ?Q1 ?h' @ [t])"
  have e: "migrate_self me prcid s = exit_and_dispatch me (request_other me ?p b2 s2)"
    using r run 1 2 by (simp add: migrate_self_def runtsk_def Let_def)
  note R = request_other_kparts [OF M(1) ne]
  have "kparts C {me} ?Q' (request_other me ?p b2 s2)" by (rule kparts_weaken [OF R(1)]) auto
  moreover have "rinv_but me (request_other me ?p b2 s2)"
    using rinv_but_running [OF K'(2) p M(4,2)] rinv_cong(2) [OF R(4,2)] by simp
  ultimately have K2: "kinv C {} ?Q' (migrate_self me prcid s)"
    unfolding e by (rule exit_and_dispatch_kinv)
  show tc: "tcb_of (migrate_self me prcid s) = (tcb_of s)(t := (tcb_of s t)\<lparr>p_pcb := ?p\<rparr>)"
    using R(2) M(2) e by simp
  show "task_step C Q s (migrate_self me prcid s)"
    by (rule task_stepI [OF K2 keeps_ready [OF tc]]) (use R(3) M(3) e in auto)
qed

text \<open>A task that is not ready, with no time event pending, changes its processor in place.\<close>

lemma set_p_pcb_step:
  assumes K: "kinv C {} Q s" and nr: "\<And>q. p_runtsk (pcb_of s q) \<noteq> Some t"
    and run: "\<not> TSTAT_RUNNABLE (tstat (tcb_of s t))" and tm: "tm_place s t = None"
  shows "task_step C Q s (set_p_pcb t p s)"
proof -
  note D = kinvD [OF K]
  let ?s = "set_p_pcb t p s"
  have tc: "tcb_of ?s = (tcb_of s)(t := (tcb_of s t)\<lparr>p_pcb := p\<rparr>)" by (simp add: set_p_pcb_def)
  have pl: "place ((tcb_of s t)\<lparr>p_pcb := p\<rparr>) = place (tcb_of s t)" using run by (simp add: place_def)
  have "t \<notin> set (Q (RDY q i))" for q i using D(6) [of t "RDY q i"] run by (auto simp: place_def split: if_splits)
  then have "qinv {t} Q ?s"
    unfolding set_p_pcb_def by (intro qinv_upd_tcb_nr [OF qinv_weaken [OF D(1)]]) auto
  then have "qinv ({t} - {t}) Q ?s"
    by (rule qinv_arrive) (use pl D(5,6) [of t] in \<open>simp_all add: tc\<close>)
  moreover have "tinv {} ?s"
    by (rule tinv_frame [OF D(2)]) (use tm in \<open>auto simp: set_p_pcb_def tm_place_def cb_ok_def same_handlers_def\<close>)
  moreover have "dinv {} ?s" using D(3) by (simp add: dinv_def set_p_pcb_def)
  moreover have "rinv ?s" by (rule rinv_not_running [OF D(8) nr _ tc]) (simp add: set_p_pcb_def)
  moreover have "sinv C Q ?s" by (rule sinv_cong [OF D(9)]) (auto simp: tc)
  ultimately have "kinv C {} Q ?s" by (simp add: kinv_def)
  then show ?thesis by (rule task_stepI [OF _ keeps_ready [OF tc]]) (simp_all add: set_p_pcb_def)
qed

text \<open>A timed wait moves with its event, which keeps the time that is left.\<close>

lemma tinv_arrive:
  assumes "tinv (insert t Y) s" and "\<And>p. TM_TSK t \<in> registered s p \<longleftrightarrow> tm_place s t = Some p" and "cb_ok s t"
  shows "tinv Y s"
  using assms unfolding tinv_def tskinv_def by (metis insertE)

lemma move_event_step:
  assumes K: "kinv C {} Q s" and nr: "\<And>q. p_runtsk (pcb_of s q) \<noteq> Some t"
    and w: "TSTAT_WAITING (tstat (tcb_of s t))" and cb: "tm_callback s (TM_TSK t) \<noteq> None"
    and p: "p_pcb (tcb_of s t) = me"
  shows "task_step C Q s (move_event t me p s)"
proof -
  note D = kinvD [OF K]
  have run: "\<not> TSTAT_RUNNABLE (tstat (tcb_of s t))"
    using D(5) [of t] wf_waiting_not_runnable w by (auto simp: wf_tcb_def)
  have reg: "TM_TSK t \<in> registered s me" using tinvD(3) [OF D(2), of t me] w cb p by (simp add: tm_place_def)
  obtain l s1 where 1: "tmevtb_dequeue me (TM_TSK t) s = (l, s1)" by fastforce
  have T1: "tinv {t} s1" by (rule tinv_dequeue(1) [OF D(2) reg 1]) auto
  note dq = tinv_dequeue(2,3) [OF D(2) reg 1, where Z = "{t}"]
  have rg1: "registered s1 q = registered s q - {TM_TSK t}" for q by (rule dq(1)) auto
  obtain te1 ix1 where s1: "s1 = s\<lparr>tevt_of := te1, tm_index := ix1\<rparr>" using dq(2) by blast
  obtain te ix where 2: "tmevtb_insert (TM_TSK t) (base_time (tevt_of s1 p) + l) (tevt_of s1 p, tm_index s1) = (te, ix)"
    by fastforce
  define s2 where "s2 = s1\<lparr>tevt_of := (tevt_of s1)(p := te), tm_index := ix\<rparr>"
  have s2': "s2 = s1\<lparr>tevt_of := (tevt_of s1)(p := te), tm_index := ix, tm_callback := tm_callback s1\<rparr>"
    by (simp add: s2_def)
  have nreg: "TM_TSK t \<notin> registered s1 q" for q by (simp add: rg1)
  note E = tinv_enqueue [OF T1 nreg 2 s2', where Z = "{t}"]
  have T2: "tinv {t} s2" by (rule E(1)) auto
  have rg2: "registered s2 q = (if q = p then insert (TM_TSK t) (registered s1 p) else registered s1 q)" for q
    by (rule E(2)) auto
  have f: "tcb_of s2 = tcb_of s" "pcb_of s2 = pcb_of s" "kq s2 = kq s" "tm_callback s2 = tm_callback s"
    "ipi s2 = ipi s" "objs s2 = objs s"
    by (simp_all add: s2_def s1)
  let ?s = "set_p_pcb t p s2"
  have e: "move_event t me p s = ?s" using 1 2 by (simp add: move_event_def s2_def)
  have tc: "tcb_of ?s = (tcb_of s)(t := (tcb_of s t)\<lparr>p_pcb := p\<rparr>)" by (simp add: set_p_pcb_def f)
  have T3: "tinv {t} ?s" by (rule tinv_frame [OF T2]) (auto simp: set_p_pcb_def tm_place_def cb_ok_def same_handlers_def)
  have rg3: "registered ?s = registered s2" by (simp add: fun_eq_iff registered_def set_p_pcb_def)
  have "TM_TSK t \<in> registered ?s q \<longleftrightarrow> tm_place ?s t = Some q" for q
    using w cb nreg [of q] by (simp add: rg3 rg2 tm_place_def tc) (simp add: set_p_pcb_def f)
  moreover have "cb_ok ?s t"
    using tinvD(4) [OF D(2), of t] by (simp add: cb_ok_def set_p_pcb_def f)
  ultimately have "tinv {} ?s" by (intro tinv_arrive [OF T3])
  moreover have pl: "place ((tcb_of s t)\<lparr>p_pcb := p\<rparr>) = place (tcb_of s t)" using run by (simp add: place_def)
  have "t \<notin> set (Q (RDY q i))" for q i using D(6) [of t "RDY q i"] run by (auto simp: place_def split: if_splits)
  then have "qinv {t} Q ?s"
    unfolding set_p_pcb_def
    by (intro qinv_upd_tcb_nr) (auto intro!: qinv_frame [OF qinv_weaken [OF D(1)]] simp: f)
  then have "qinv ({t} - {t}) Q ?s"
    by (rule qinv_arrive) (use pl D(5,6) [of t] in \<open>simp_all add: tc\<close>)
  moreover have "dinv {} ?s" using D(3) by (simp add: dinv_def set_p_pcb_def f)
  moreover have "core_frame s ?s" by (simp add: core_frame_def set_p_pcb_def f)
  from rinv_not_running [OF D(8) nr this tc] have "rinv ?s" .
  moreover have "sinv C Q ?s" by (rule sinv_cong [OF D(9)]) (auto simp: tc)
  ultimately have "kinv C {} Q ?s" by (simp add: kinv_def)
  then show ?thesis unfolding e by (rule task_stepI [OF _ keeps_ready [OF tc]]) (simp_all add: set_p_pcb_def f)
qed

text \<open>
  What \<open>mig_tsk\<close> takes for granted of a task that is neither runnable nor dormant: it is not the
  running task, and if it is not waiting, no callback is left from an earlier wait.
\<close>

definition mig_ok :: "prcix \<Rightarrow> tskix \<Rightarrow> kstate \<Rightarrow> bool" where
  "mig_ok me t s \<longleftrightarrow> TSTAT_RUNNABLE (tstat (tcb_of s t)) \<or>
     p_runtsk (pcb_of s me) \<noteq> Some t \<and> (TSTAT_WAITING (tstat (tcb_of s t)) \<or>
       TSTAT_DORMANT (tstat (tcb_of s t)) \<or> tm_callback s (TM_TSK t) = None)"

lemma mig_tsk_step:
  assumes K: "kinv C {} Q s" and g: "mig_ok me (get_tcb_self me tskid s) s"
  shows "task_step C Q s (snd (mig_tsk C me tskid prcid s))"
proof -
  define t where "t = get_tcb_self me tskid s"
  define pr where "pr = act_prcid C t prcid"
  let ?p = "INDEX_PRC pr"
  show ?thesis
  proof (cases "sense_tskctx_unl me s \<and> VALID_TSKID_SELF C tskid \<and> VALID_PRCID_INI C prcid \<and>
      VALID_MIG (affinity_mask (tinib_table C t)) pr \<and> p_pcb (tcb_of s t) = me")
    case False
    then show ?thesis using task_step_refl [OF K]
      by (auto simp: mig_tsk_def Let_def t_def [symmetric] pr_def [symmetric])
  next
    case True
    then have p: "p_pcb (tcb_of s t) = me" by simp
    have m: "snd (mig_tsk C me tskid prcid s) =
      (if TSTAT_RUNNABLE (tstat (tcb_of s t)) then
         (if Some t = p_runtsk (pcb_of s me) then
            (if \<not> dspflg (pcb_of s me) then s
             else if ?p = me then (let (d, s) = set_lowest_precedence t me s in t_dispatch_if me d s)
             else migrate_self me pr s)
          else if ?p = me then snd (set_lowest_precedence t me s)
          else (let (_, s) = make_non_runnable t s; (b, s) = make_runnable t (set_p_pcb t ?p s)
                in request_other me ?p b s))
       else if TSTAT_DORMANT (tstat (tcb_of s t)) \<or> tm_callback s (TM_TSK t) = None then set_p_pcb t ?p s
       else move_event t me ?p s)"
      using True by (simp add: mig_tsk_def Let_def split_beta t_def [symmetric] pr_def [symmetric] move_event_def)
    have nr: "p_runtsk (pcb_of s q) \<noteq> Some t" if "p_runtsk (pcb_of s me) \<noteq> Some t" for q
      using kinv_running(1) [OF K, of q t] that p by auto
    show ?thesis
    proof (cases "TSTAT_RUNNABLE (tstat (tcb_of s t))")
      case run: True
      show ?thesis
        unfolding m
        using run task_step_refl [OF K] lowest_self_step [OF K run p surjective_pairing]
          lowest_other_step [OF K run p _ surjective_pairing] migrate_self_step(1) [OF K _ run]
          migrate_other_step [OF K run p _ _ surjective_pairing surjective_pairing]
        by (auto simp: Let_def split_beta)
    next
      case False
      then have r: "p_runtsk (pcb_of s q) \<noteq> Some t" for q using g nr by (simp add: mig_ok_def t_def)
      have w: "tm_place s t = None" if "TSTAT_DORMANT (tstat (tcb_of s t)) \<or> tm_callback s (TM_TSK t) = None"
        using that dormant_place [of "tcb_of s t"] by (auto simp: tm_place_def)
      show ?thesis
        unfolding m
        using False set_p_pcb_step [OF K r False w] move_event_step [OF K r _ _ p] g
        by (auto simp: mig_ok_def t_def)
    qed
  qed
qed

text \<open>
  A task in the transitional state, suspended by another processor while it runs with dispatching
  disabled, is moved away although it goes on running here.
\<close>

lemma mig_tsk_running:
  assumes r: "p_runtsk (pcb_of s me) = Some t" and p: "p_pcb (tcb_of s t) = me"
    and st: "tstat (tcb_of s t) = TS_SUSPENDED" and cb: "tm_callback s (TM_TSK t) = None"
    and c: "sense_tskctx_unl me s" "VALID_PRCID_INI C prcid"
    and m: "VALID_MIG (affinity_mask (tinib_table C t)) (act_prcid C t prcid)"
    and ne: "INDEX_PRC (act_prcid C t prcid) \<noteq> me"
    and eq: "mig_tsk C me TSK_SELF prcid s = (r, s')"
  shows "r = Ret E_OK" and "p_runtsk (pcb_of s' me) = Some t" and "p_pcb (tcb_of s' t) \<noteq> me"
    and "\<not> kinv C P Q s'"
proof -
  have t: "get_tcb_self me TSK_SELF s = t" using r by (simp add: get_tcb_self_def runtsk_def)
  have v: "VALID_TSKID_SELF C TSK_SELF" by (simp add: VALID_TSKID_SELF_def)
  have e: "r = Ret E_OK" "s' = set_p_pcb t (INDEX_PRC (act_prcid C t prcid)) s"
    using eq c m p st cb v by (auto simp: mig_tsk_def Let_def t)
  then show "r = Ret E_OK" "p_runtsk (pcb_of s' me) = Some t" "p_pcb (tcb_of s' t) \<noteq> me"
    using r ne by (simp_all add: set_p_pcb_def)
  then show "\<not> kinv C P Q s'" using kinv_running(1) by blast
qed

section \<open>Termination keeps the invariant\<close>

definition dormant_tcb :: "cfg \<Rightarrow> tskix \<Rightarrow> tcb \<Rightarrow> tcb" where
  "dormant_tcb C t b = b\<lparr>tstat := TS_DORMANT, priority := ipriority (tinib_table C t),
     wupque := False, enatex := False, texptn := 0, pend_relwai := False, pend_chgpri := False\<rparr>"

lemma make_dormant_upd: "make_dormant C t = upd_tcb t (dormant_tcb C t)"
  by (simp add: fun_eq_iff make_dormant_def dormant_tcb_def upd_tcb_def)

lemma dormant_tcb_sel [simp]:
  "tstat (dormant_tcb C t b) = TS_DORMANT" "p_pcb (dormant_tcb C t b) = p_pcb b"
  "actque (dormant_tcb C t b) = actque b" "actprc (dormant_tcb C t b) = actprc b"
  "winfo_obj (dormant_tcb C t b) = winfo_obj b" "place (dormant_tcb C t b) = None"
  "priority (dormant_tcb C t b) = ipriority (tinib_table C t)"
  by (simp_all add: dormant_tcb_def place_def)

lemma wf_dormant_tcb: "prc_ok C \<Longrightarrow> wf_tcb b \<Longrightarrow> wf_tcb (dormant_tcb C t b)"
  by (auto simp: wf_tcb_def dormant_tcb_def prc_ok_def)

lemma wf_restarted:
  assumes "wf_tcb tc" and "TSTAT_DORMANT (tstat tc)"
  shows "wf_tcb (tc\<lparr>actque := q, actprc := TPRC_NONE, tstat := TS_RUNNABLE\<rparr>)"
    and "wf_tcb (tc\<lparr>actque := q, actprc := TPRC_NONE, p_pcb := p, tstat := TS_RUNNABLE\<rparr>)"
    and "wf_tcb (tc\<lparr>p_pcb := p, actque := q, actprc := TPRC_NONE, tstat := TS_RUNNABLE\<rparr>)"
  using assms by (auto simp: wf_tcb_def tstat_macros tstat_consts wf_tstats_def TPRC_NONE_def)

lemma task_step_trans:
  assumes "kinv C {} Q1 s1" and "keeps {} Q s Q1 s1" and "objs s1 = objs s" and "task_step C Q1 s1 s2"
  shows "task_step C Q s s2"
  using assms keeps_trans unfolding task_step_def by metis

text \<open>A task that is in no queue and has no time event becomes dormant.\<close>

lemma retire_kinv:
  assumes q: "qinv {t} Q s" "\<not> queued Q t" and T: "tinv {t} s" "\<And>p. TM_TSK t \<notin> registered s p"
    and r: "dinv P s" "rinv s" "sinv C Q s" and nr: "\<And>p. p_runtsk (pcb_of s p) \<noteq> Some t"
    and f: "wf_tcb (f (tcb_of s t))" "place (f (tcb_of s t)) = None" "\<not> TSTAT_WAITING (tstat (f (tcb_of s t)))"
  shows "kinv C P Q (upd_tcb t f s)"
proof -
  let ?s = "upd_tcb t f s"
  have "qinv {t} Q ?s"
    by (rule qinv_upd_tcb_nr [OF q(1)]) (use q(2) f(1) in \<open>auto simp: queued_def wf_tcb_def\<close>)
  then have "qinv ({t} - {t}) Q ?s" by (rule qinv_arrive) (use f q(2) in \<open>auto simp: queued_def\<close>)
  moreover have "tinv {t} ?s" by (rule tinv_frame [OF T(1)]) (auto simp: tm_place_def cb_ok_def same_handlers_def)
  then have "tinv {} ?s"
    by (rule tinv_arrive) (use T(2) f(3) in \<open>simp_all add: tm_place_def cb_ok_def registered_def\<close>)
  moreover have "dinv P ?s" using r(1) by (simp add: dinv_def)
  moreover have "rinv ?s" by (rule rinv_not_running [OF r(2) nr]) simp_all
  moreover have "sinv C Q ?s"
    by (rule sinv_cong [OF r(3)]) (use q(2) in \<open>auto simp: queued_def\<close>)
  ultimately show ?thesis by (simp add: kinv_def)
qed

lemma unwait_kinv:
  assumes K: "kinv C {} Q s" and nr: "\<And>p. p_runtsk (pcb_of s p) \<noteq> Some t"
    and w: "TSTAT_WAITING (tstat (tcb_of s t))" and C: "prc_ok C"
  shows "kinv C {} (unlinked s t Q) (ter_unwait C t s)"
    and "tcb_of (ter_unwait C t s) = (tcb_of s)(t := dormant_tcb C t (tcb_of s t))"
    and "objs (ter_unwait C t s) = objs s" and "pcb_of (ter_unwait C t s) = pcb_of s"
proof -
  note D = kinvD [OF K]
  let ?s1 = "wait_dequeue_wobj t s"
  have nrun: "\<not> TSTAT_RUNNABLE (tstat (tcb_of s t))"
    using D(5) [of t] wf_waiting_not_runnable w by (auto simp: wf_tcb_def)
  have s1: "tcb_of ?s1 = tcb_of s" "pcb_of ?s1 = pcb_of s" "tevt_of ?s1 = tevt_of s" "tm_index ?s1 = tm_index s"
    "tm_callback ?s1 = tm_callback s" "ipi ?s1 = ipi s" "objs ?s1 = objs s"
    by (simp_all add: wait_dequeue_wobj_def on_kq_def)
  have q: "qinv {t} (unlinked s t Q) ?s1 \<and> \<not> queued (unlinked s t Q) t"
  proof (cases "TSTAT_WAIT_WOBJ (tstat (tcb_of s t))")
    case True
    then obtain h where h: "place (tcb_of s t) = Some h" and hn: "\<And>p i. h \<noteq> RDY p i"
      using w nrun by (auto simp: place_def)
    have "t \<in> set (Q h)" using D(6) h by blast
    from qinv_unlink [OF D(1) this hn] show ?thesis
      using True h by (simp add: unlinked_def wait_dequeue_wobj_def)
  next
    case False
    then have "place (tcb_of s t) = None" using nrun by (simp add: place_def)
    then show ?thesis
      using False D(6) [of t] qinv_weaken [OF D(1)] by (auto simp: unlinked_def wait_dequeue_wobj_def queued_def)
  qed
  have T1: "tinv {} ?s1" by (rule tinv_frame [OF D(2)]) (simp_all add: s1 tm_place_def cb_ok_def same_handlers_def)
  let ?s2 = "wait_dequeue_tmevtb t ?s1"
  have w1: "TSTAT_WAITING (tstat (tcb_of ?s1 t))" using w by (simp add: s1)
  note T = wait_dequeue_tmevtb_inv [OF T1 w1]
  obtain te ix where s2: "?s2 = ?s1\<lparr>tevt_of := te, tm_index := ix\<rparr>" using T(3) by blast
  have f: "tcb_of ?s2 = tcb_of s" "pcb_of ?s2 = pcb_of s" "kq ?s2 = kq ?s1" "ipi ?s2 = ipi s" "objs ?s2 = objs s"
    by (simp_all add: s2 s1)
  have e: "ter_unwait C t s = upd_tcb t (dormant_tcb C t) ?s2" by (simp add: ter_unwait_def make_dormant_upd)
  show "kinv C {} (unlinked s t Q) (ter_unwait C t s)"
    unfolding e
  proof (rule retire_kinv)
    show "qinv {t} (unlinked s t Q) ?s2" by (rule qinv_frame [OF conjunct1 [OF q]]) (simp_all add: f s1)
    show "tinv {t} ?s2" "TM_TSK t \<notin> registered ?s2 p" for p using T(1,2) by simp_all
    show "dinv {} ?s2" using D(3) by (simp add: dinv_def f)
    show "rinv ?s2" using D(8) by (simp add: rinv_def f)
    show "sinv C (unlinked s t Q) ?s2"
      using D(9) sinv_unlink [OF D(9)] by (auto simp: unlinked_def sinv_def f split: option.splits)
  qed (use q nr C wf_dormant_tcb D(5) in \<open>simp_all add: f\<close>)
  show "tcb_of (ter_unwait C t s) = (tcb_of s)(t := dormant_tcb C t (tcb_of s t))"
    "objs (ter_unwait C t s) = objs s" "pcb_of (ter_unwait C t s) = pcb_of s"
    by (simp_all add: e f)
qed

lemma ter_stop_kinv:
  assumes K: "kinv C {} Q s" and p: "p_runtsk (pcb_of s (p_pcb (tcb_of s t))) \<noteq> Some t" and C: "prc_ok C"
    and nw: "\<not> (TSTAT_WAITING (tstat (tcb_of s t)) \<and> TSTAT_WAIT_WOBJ (tstat (tcb_of s t)))"
  shows "(\<exists>Q'. kinv C {} Q' (ter_stop C t s) \<and> (\<forall>k. (\<forall>p i. k \<noteq> RDY p i) \<longrightarrow> Q' k = Q k)) \<and>
    tcb_of (ter_stop C t s) = (tcb_of s)(t := dormant_tcb C t (tcb_of s t)) \<and>
    objs (ter_stop C t s) = objs s"
proof -
  note D = kinvD [OF K]
  have nr: "p_runtsk (pcb_of s q) \<noteq> Some t" for q using kinv_running(1) [OF K, of q t] p by auto
  have K': "kparts C {} Q s" "rinv s" using K by (simp_all add: kinv_parts)
  have wf: "wf_tcb (dormant_tcb C t (tcb_of s t))" by (rule wf_dormant_tcb [OF C D(5)])
  let ?h = "RDY (p_pcb (tcb_of s t)) (priority (tcb_of s t))"
  show ?thesis
  proof (cases "TSTAT_RUNNABLE (tstat (tcb_of s t))")
    case True
    obtain b s1 where 1: "make_non_runnable t s = (b, s1)" by fastforce
    let ?s = "upd_tcb t (dormant_tcb C t) s1"
    have e: "ter_stop C t s = ?s" using True 1 by (simp add: ter_stop_def make_dormant_upd)
    note H = halt_kparts [OF K'(1) True 1, of "dormant_tcb C t"]
    have cf: "core_frame s ?s" using H(4) wf by simp
    have tc: "tcb_of ?s = (tcb_of s)(t := dormant_tcb C t (tcb_of s t))" using H(2) wf by simp
    have K1: "kparts C (if b then insert (p_pcb (tcb_of s t)) {} else {}) (Q(?h := remove1 t (Q ?h))) ?s"
      using H(1) wf by simp
    have b: "b \<Longrightarrow> p_schedtsk (pcb_of s (p_pcb (tcb_of s t))) = Some t \<and> dspflg (pcb_of s (p_pcb (tcb_of s t)))"
      by (rule make_non_runnable_request [OF 1])
    have "kparts C {} (Q(?h := remove1 t (Q ?h))) ?s" by (rule unrequested [OF K'(1) p b cf K1])
    then have "kinv C {} (Q(?h := remove1 t (Q ?h))) ?s"
      using rinv_not_running [OF K'(2) nr cf tc] by (simp add: kinv_parts)
    then show ?thesis using e tc core_frameD(2) [OF cf] by (auto intro!: exI [of _ "Q(?h := remove1 t (Q ?h))"])
  next
    case nrun: False
    have pl: "place (tcb_of s t) = None" using nrun nw by (auto simp: place_def)
    show ?thesis
    proof (cases "TSTAT_WAITING (tstat (tcb_of s t))")
      case True
      then have e: "ter_stop C t s = ter_unwait C t s"
        using nrun nw by (simp add: ter_stop_def ter_unwait_def wait_dequeue_wobj_def)
      show ?thesis using unwait_kinv [OF K nr True C] pl by (auto simp: e unlinked_def)
    next
      case False
      then have e: "ter_stop C t s = upd_tcb t (dormant_tcb C t) s" using nrun by (simp add: ter_stop_def make_dormant_upd)
      have "\<not> queued Q t" using D(6) [of t] pl by (auto simp: queued_def)
      moreover have "TM_TSK t \<notin> registered s q" for q using tinvD(3) [OF D(2), of t q] False by (simp add: tm_place_def)
      ultimately have "kinv C {} Q (ter_stop C t s)"
        unfolding e
        by (intro retire_kinv qinv_weaken [OF D(1)] tinv_weaken [OF D(2)] D nr wf) simp_all
      then show ?thesis by (auto simp: e)
    qed
  qed
qed

lemma request_other_t:
  assumes "p \<noteq> me"
  shows "request_other me p b s = t_dispatch_if me (fst (t_request me p b s)) (snd (t_request me p b s))"
  using assms by (simp add: request_other_def t_request_def t_dispatch_if_def dispatch_request_def)

lemma ter_restart_step:
  assumes K: "kinv C {} Q s" and d: "TSTAT_DORMANT (tstat (tcb_of s t))"
  shows "task_step C Q s (ter_restart me t s)"
proof (cases "actque (tcb_of s t)")
  case False
  then show ?thesis using task_step_refl [OF K]
    by (simp add: ter_restart_def reactivate_def Let_def t_request_def t_dispatch_if_def)
next
  case True
  let ?f = "\<lambda>b. b\<lparr>actque := False, actprc := TPRC_NONE, tstat := TS_RUNNABLE\<rparr>"
  obtain b s1 where 1: "make_runnable t (upd_tcb t ?f s) = (b, s1)" by fastforce
  obtain r s2 where 2: "t_request me (p_pcb (tcb_of s t)) b s1 = (r, s2)" by fastforce
  have e: "ter_restart me t s = t_dispatch_if me r s2"
    using True 1 2 by (simp add: ter_restart_def reactivate_def Let_def set_actque_def make_active_upd(1))
  show ?thesis
    unfolding e
    by (rule treq.start_step(1) [OF K d _ _ _ 1]) (use 2 wf_restarted(1) [OF kinvD(5) [OF K] d] in simp_all)
qed

lemma ter_migrate_step:
  assumes K: "kinv C {} Q s" and d: "TSTAT_DORMANT (tstat (tcb_of s t))" and p: "p \<noteq> me"
  shows "task_step C Q s (ter_migrate me t p s)"
proof -
  let ?f = "\<lambda>b. b\<lparr>actque := False, actprc := TPRC_NONE, p_pcb := p, tstat := TS_RUNNABLE\<rparr>"
  obtain b s1 where 1: "make_runnable t (upd_tcb t ?f s) = (b, s1)" by fastforce
  obtain r s2 where 2: "t_request me p b s1 = (r, s2)" by fastforce
  have e: "ter_migrate me t p s = t_dispatch_if me r s2"
    using 1 2 by (simp add: ter_migrate_def Let_def set_actque_def set_p_pcb_def make_active_upd(1)
        upd_tcb_upd request_other_t [OF p])
  show ?thesis
    unfolding e
    by (rule treq.start_step(1) [OF K d _ _ _ 1]) (use 2 wf_restarted(2) [OF kinvD(5) [OF K] d] in simp_all)
qed

lemma dormant_tcb_dormant [simp]: "TSTAT_DORMANT (tstat (dormant_tcb C t b))"
  by (simp add: TSTAT_DORMANT_def)

lemma wf_actprc: "wf_tcb tc \<Longrightarrow> 0 \<le> actprc tc \<and> actprc tc < 2 ^ 31"
  by (simp add: wf_tcb_def)

lemma ter_tsk_1_step:
  assumes K: "kinv C {} Q s" and C: "prc_ok C" and me: "me < 2 ^ 31 - 1"
  shows "task_step C Q s (snd (ter_tsk_1 C me tskid s))"
proof -
  define t where "t = get_tcb tskid"
  let ?tc = "tcb_of s t" and ?s = "ter_stop C t s"
  have main: "task_step C Q s (ter_restart me t ?s) \<and>
      (actprc ?tc \<noteq> TPRC_NONE \<longrightarrow> actprc ?tc \<noteq> ID_PRC me \<longrightarrow>
       task_step C Q s (ter_migrate me t (INDEX_PRC (actprc ?tc)) ?s))"
    if a: "p_runtsk (pcb_of s me) \<noteq> Some t" "p_pcb ?tc = me"
      "\<not> (TSTAT_WAITING (tstat ?tc) \<and> TSTAT_WAIT_WOBJ (tstat ?tc))"
  proof -
    have nr: "p_runtsk (pcb_of s (p_pcb ?tc)) \<noteq> Some t" using a by simp
    note S = ter_stop_kinv [OF K nr C a(3)]
    obtain Q1 where Q1: "kinv C {} Q1 ?s" "\<And>k. (\<And>p i. k \<noteq> RDY p i) \<Longrightarrow> Q1 k = Q k" using S by blast
    have tc: "tcb_of ?s = (tcb_of s)(t := dormant_tcb C t ?tc)" and o: "objs ?s = objs s" using S by auto
    have k: "keeps {} Q s Q1 ?s" by (rule keeps_ready [OF tc _ Q1(2)]) simp_all
    have d: "TSTAT_DORMANT (tstat (tcb_of ?s t))" by (simp add: tc)
    have ix: "INDEX_PRC (actprc ?tc) \<noteq> me" if "actprc ?tc \<noteq> ID_PRC me"
      using ID_PRC_INDEX [of "actprc ?tc" me] wf_actprc [OF kinvD(5) [OF K, of t]] me that by simp
    show ?thesis
      using task_step_trans [OF Q1(1) k o] ter_restart_step [OF Q1(1) d]
        ter_migrate_step [OF Q1(1) d ix] by blast
  qed
  show ?thesis
    using main task_step_refl [OF K] by (auto simp: ter_tsk_1_def Let_def t_def [symmetric])
qed

text \<open>
  The second step with a task that still waits for an object, does not run and is still on this
  processor: what the code has to make sure of after taking the locks again.
\<close>

definition ter_ok :: "prcix \<Rightarrow> tskix \<Rightarrow> kstate \<Rightarrow> bool" where
  "ter_ok me t s \<longleftrightarrow> TSTAT_WAITING (tstat (tcb_of s t)) \<and> TSTAT_WAIT_WOBJ (tstat (tcb_of s t)) \<and>
     (\<forall>p. p_runtsk (pcb_of s p) \<noteq> Some t)"

lemma ter_unwait_then:
  assumes K: "kinv C {} Q s" and g: "ter_ok me t s" and C: "prc_ok C"
  shows "task_step C Q s (ter_restart me t (ter_unwait C t s))"
    and "p \<noteq> me \<Longrightarrow> task_step C Q s (ter_migrate me t p (ter_unwait C t s))"
proof -
  let ?s = "ter_unwait C t s"
  have g': "TSTAT_WAITING (tstat (tcb_of s t))" "\<And>p. p_runtsk (pcb_of s p) \<noteq> Some t" using g by (auto simp: ter_ok_def)
  note U = unwait_kinv [OF K g'(2) g'(1) C]
  have d: "TSTAT_DORMANT (tstat (tcb_of ?s t))" by (simp add: U(2))
  have k: "keeps {} Q s (unlinked s t Q) ?s"
    by (rule keeps_removed) (auto simp: U(2) unlinked_def split: option.splits if_splits dest: set_remove1_subset [THEN subsetD])
  show "task_step C Q s (ter_restart me t ?s)" "p \<noteq> me \<Longrightarrow> task_step C Q s (ter_migrate me t p ?s)"
    using task_step_trans [OF U(1) k U(3)] ter_restart_step [OF U(1) d] ter_migrate_step [OF U(1) d] by blast+
qed

lemma ter_tsk_2_step:
  assumes K: "kinv C {} Q s" and C: "prc_ok C"
    and g: "\<And>r. n \<noteq> Ter_done r \<Longrightarrow> ter_ok me t s" and p: "\<And>w p. n = Ter_wobj_mig w p \<Longrightarrow> p \<noteq> me"
  shows "task_step C Q s (snd (ter_tsk_2 C me t n s))"
proof (cases n)
  case (Ter_done r)
  then show ?thesis using task_step_refl [OF K] by simp
next
  case (Ter_wobj w)
  then show ?thesis using task_step_refl [OF K] ter_unwait_then(1) [OF K g C] by simp
next
  case (Ter_wobj_mig w q)
  then show ?thesis using task_step_refl [OF K] ter_unwait_then(2) [OF K g C p] by simp
qed

text \<open>With nothing in between, the second step finds the task as the first one left it.\<close>

lemma ter_tsk_1_next:
  assumes K: "kinv C {} Q s" and me: "me < 2 ^ 31 - 1" and eq: "ter_tsk_1 C me tskid s = (n, s')"
    and n: "\<And>r. n \<noteq> Ter_done r"
  shows "s' = s" and "ter_ok me (get_tcb tskid) s" and "n = Ter_wobj_mig w p \<Longrightarrow> p \<noteq> me"
proof -
  define t where "t = get_tcb tskid"
  have 1: "s' = s \<and> Some t \<noteq> p_runtsk (pcb_of s me) \<and> p_pcb (tcb_of s t) = me \<and>
      TSTAT_WAITING (tstat (tcb_of s t)) \<and> TSTAT_WAIT_WOBJ (tstat (tcb_of s t)) \<and>
      (n = Ter_wobj_mig w p \<longrightarrow> p = INDEX_PRC (actprc (tcb_of s t)) \<and> actprc (tcb_of s t) \<noteq> ID_PRC me)"
    using eq n by (auto simp: ter_tsk_1_def Let_def t_def [symmetric] split: if_splits)
  then show "s' = s" by simp
  show "ter_ok me (get_tcb tskid) s"
    using 1 kinv_running(1) [OF K, of _ t] by (auto simp: ter_ok_def t_def [symmetric])
  show "n = Ter_wobj_mig w p \<Longrightarrow> p \<noteq> me"
    using 1 ID_PRC_INDEX [of "actprc (tcb_of s t)" me] wf_actprc [OF kinvD(5) [OF K, of t]] me by auto
qed

lemma ter_tsk_step:
  assumes K: "kinv C {} Q s" and C: "prc_ok C" and me: "me < 2 ^ 31 - 1"
  shows "task_step C Q s (snd (ter_tsk C me tskid s))"
proof -
  obtain n s1 where 1: "ter_tsk_1 C me tskid s = (n, s1)" by fastforce
  have e: "ter_tsk C me tskid s = ter_tsk_2 C me (get_tcb tskid) n s1" using 1 by (simp add: ter_tsk_def)
  show ?thesis
  proof (cases "\<exists>r. n = Ter_done r")
    case True
    then show ?thesis using ter_tsk_1_step [OF K C me, of tskid] 1 e by auto
  next
    case False
    then have nd: "\<And>r. n \<noteq> Ter_done r" by blast
    note N = ter_tsk_1_next [OF K me 1 nd]
    show ?thesis
      unfolding e N(1)
      by (rule ter_tsk_2_step [OF K C N(2)]) (rule N(3))
  qed
qed

text \<open>
  The check after the locks are taken again lets a task pass that was woken in between and is
  runnable now: its \<open>p_wobjcb\<close> still points to the object.  The task then becomes dormant and
  stays linked in its ready queue.
\<close>

lemma ter_tsk_2_woken:
  assumes K: "kinv C P Q s" and run: "tstat (tcb_of s t) = TS_RUNNABLE"
    and o: "p_wobjcb (tcb_of s t) = Some w" and na: "\<not> actque (tcb_of s t)"
    and eq: "ter_tsk_2 C me t (Ter_wobj w) s = (r, s')"
  shows "r = Ret E_OK" and "TSTAT_DORMANT (tstat (tcb_of s' t))" and "kq s' = kq s" and "\<not> kinv C P' Q' s'"
proof -
  have run': "TSTAT_RUNNABLE (tstat (tcb_of s t))" "\<not> TSTAT_WAITING (tstat (tcb_of s t))"
    "\<not> TSTAT_WAIT_WOBJ (tstat (tcb_of s t))"
    by (simp_all add: run tstat_macros tstat_consts)
  let ?s = "wait_dequeue_tmevtb t s"
  have f: "tcb_of ?s = tcb_of s" "kq ?s = kq s"
    by (simp_all add: wait_dequeue_tmevtb_def tmevtb_dequeue_def Let_def split_beta)
  have "s' = upd_tcb t (dormant_tcb C t) ?s" "r = Ret E_OK"
    using eq run' o na
    by (simp_all add: ter_unwait_def wait_dequeue_wobj_def make_dormant_upd
        ter_restart_def reactivate_def Let_def t_request_def t_dispatch_if_def f)
  then have e: "tcb_of s' t = dormant_tcb C t (tcb_of s t)" "kq s' = kq s" "r = Ret E_OK" by (simp_all add: f)
  then show "r = Ret E_OK" "TSTAT_DORMANT (tstat (tcb_of s' t))" "kq s' = kq s" by simp_all
  have l: "t \<in> set (Q (RDY (p_pcb (tcb_of s t)) (priority (tcb_of s t))))"
    using kinvD(6) [OF K, of t] run'(1) by (simp add: place_def)
  show "\<not> kinv C P' Q' s'"
  proof
    assume K': "kinv C P' Q' s'"
    have "qrep (kq s) Q'" using kinvD(4) [OF K'] by (simp add: e)
    then have "Q' = Q" by (rule qrep_unique [OF _ kinvD(4) [OF K]])
    moreover have "place (tcb_of s' t) = None" by (simp add: e)
    ultimately show False using kinvD(6) [OF K', of t] l by simp
  qed
qed

section \<open>Changing the priority keeps the invariant\<close>

lemma keeps_perm:
  assumes "perm_waits Q Q'" and "tcb_of s' = (tcb_of s)(t := x)" and "winfo_obj x = winfo_obj (tcb_of s t)"
  shows "keeps H Q s Q' s'"
proof (rule keeps_removed)
  show "set (Q' k) \<subseteq> set (Q k)" if "\<And>p i. k \<noteq> RDY p i" for k
    using assms(1) that mset_eq_setD [of "Q' k" "Q k"] by (auto simp: perm_waits_def)
qed (use assms in auto)

lemma INT_PRIORITY_valid: "VALID_TPRI p \<Longrightarrow> INT_PRIORITY p < 16"
  by (auto simp: VALID_TPRI_def INT_PRIORITY_def uint_cast_def TMIN_TPRI_def TMAX_TPRI_def)

lemma chg_pri_1_step:
  assumes K: "kinv C {} Q s" and C: "prc_ok C"
  shows "task_step C Q s (snd (chg_pri_1 C me tskid tskpri s))"
proof -
  define t where "t = get_tcb_self me tskid s"
  define new where "new = (if tskpri = TPRI_INI then ipriority (tinib_table C t) else INT_PRIORITY tskpri)"
  have 16: "new < 16" if "VALID_TPRI_INI tskpri"
    using that INT_PRIORITY_valid C by (auto simp: new_def VALID_TPRI_INI_def prc_ok_def)
  have ch: "task_step C Q s (t_dispatch_if me r s2)"
    if v: "VALID_TPRI_INI tskpri" and e: "change_priority C t new s = (b, s1)"
      "t_request me (p_pcb (tcb_of s t)) b s1 = (r, s2)" for b s1 r s2
  proof -
    note H = change_priority_kinv [OF K 16 [OF v] e(1)]
    obtain Q' where Q': "kinv C (if b then insert (p_pcb (tcb_of s t)) {} else {}) Q' s1" "perm_waits Q Q'"
      using H(1) by blast
    note R = treq.request_done [OF Q'(1) e(2)]
    have tc: "tcb_of (t_dispatch_if me r s2) = (tcb_of s)(t := (tcb_of s t)\<lparr>priority := new\<rparr>)" using R(2) H(3) by simp
    show ?thesis by (rule task_stepI [OF R(1) keeps_perm [OF Q'(2) tc]]) (use R(3) H(2) in simp_all)
  qed
  have pe: "task_step C Q s (upd_tcb t (\<lambda>b. b\<lparr>pend_chgpri := True, pend_newpri := new\<rparr>) s)"
    if v: "VALID_TPRI_INI tskpri" and w: "TSTAT_WAIT_WOBJ (tstat (tcb_of s t))"
  proof -
    have "wf_tcb ((tcb_of s t)\<lparr>pend_chgpri := True, pend_newpri := new\<rparr>)"
      using kinvD(5) [OF K, of t] w 16 [OF v] by (auto simp: wf_tcb_def split: option.splits)
    then show ?thesis by (intro task_step_upd_tcb [OF K]) simp_all
  qed
  show ?thesis
    using ch [OF _ surjective_pairing surjective_pairing] pe task_step_refl [OF K]
    by (simp add: chg_pri_1_def Let_def split_beta t_def [symmetric] new_def [symmetric])
qed

text \<open>
  The second step writes the pending priority first; \<open>change_priority\<close> overwrites it with the
  priority this call asked for, before the queue is searched.
\<close>

lemma change_priority_pending:
  assumes "\<not> TSTAT_RUNNABLE (tstat (tcb_of s t))"
  shows "change_priority C t new (upd_tcb t (\<lambda>b. b\<lparr>priority := g b, pend_chgpri := False\<rparr>) s) =
    change_priority C t new (upd_tcb t (\<lambda>b. b\<lparr>pend_chgpri := False\<rparr>) s)"
  using assms by (simp add: change_priority_def Let_def upd_tcb_upd)

lemma chg_pri_2_step:
  assumes K: "kinv C {} Q s" and new: "new < 16"
  shows "task_step C Q s (snd (chg_pri_2 C t new s))"
    and "pend_chgpri (tcb_of s t) \<Longrightarrow> tcb_of (snd (chg_pri_2 C t new s)) =
      (tcb_of s)(t := (tcb_of s t)\<lparr>pend_chgpri := False, priority := new\<rparr>)"
proof -
  let ?s = "upd_tcb t (\<lambda>b. b\<lparr>pend_chgpri := False\<rparr>) s"
  have wf: "wf_tcb (tcb_of s t)" by (rule kinvD(5) [OF K])
  have K1: "kinv C {} Q ?s"
    by (rule kinv_upd_tcb [OF K]) (use wf in \<open>auto simp: wf_tcb_def split: option.splits\<close>)
  have main: "task_step C Q s (snd (chg_pri_2 C t new s)) \<and> tcb_of (snd (chg_pri_2 C t new s)) =
      (tcb_of s)(t := (tcb_of s t)\<lparr>pend_chgpri := False, priority := new\<rparr>)" if p: "pend_chgpri (tcb_of s t)"
  proof -
    have nr: "\<not> TSTAT_RUNNABLE (tstat (tcb_of s t))"
      using wf p wf_runnable_pend [OF wf] by (auto simp: wf_tcb_def)
    obtain b s1 where e: "change_priority C t new ?s = (b, s1)" by fastforce
    have r: "snd (chg_pri_2 C t new s) = s1"
      using p e change_priority_pending [OF nr] by (simp add: chg_pri_2_def Let_def)
    note H = change_priority_kinv [OF K1 new e]
    have "\<not> b" by (rule change_priority_waiting(1) [OF kinvD(1) [OF K1] _ new e]) (use nr in simp)
    then obtain Q' where Q': "kinv C {} Q' s1" "perm_waits Q Q'" using H(1) by auto
    have tc: "tcb_of s1 = (tcb_of s)(t := (tcb_of s t)\<lparr>pend_chgpri := False, priority := new\<rparr>)" using H(3) by simp
    show ?thesis
      unfolding r
      by (intro conjI tc task_stepI [OF Q'(1) keeps_perm [OF Q'(2) tc]]) (use H(2) in simp_all)
  qed
  then show "task_step C Q s (snd (chg_pri_2 C t new s))"
    using task_step_refl [OF K] by (cases "pend_chgpri (tcb_of s t)") (simp_all add: chg_pri_2_def)
  show "pend_chgpri (tcb_of s t) \<Longrightarrow> tcb_of (snd (chg_pri_2 C t new s)) =
      (tcb_of s)(t := (tcb_of s t)\<lparr>pend_chgpri := False, priority := new\<rparr>)" using main by blast
qed

section \<open>The end of the calling task\<close>

definition ext_step :: "cfg \<Rightarrow> (qhdr \<Rightarrow> tskix list) \<Rightarrow> kstate \<Rightarrow> kstate \<Rightarrow> bool" where
  "ext_step C Q s s' \<longleftrightarrow> (\<exists>Q'. kinv C {} Q' s' \<and> keeps {} Q s Q' s' \<and> (\<exists>g. objs s' = (objs s)\<lparr>spncb_of := g\<rparr>))"

lemma force_unlock_spin_sel [simp]:
  "tcb_of (force_unlock_spin me s) = tcb_of s" "kq (force_unlock_spin me s) = kq s"
  "tevt_of (force_unlock_spin me s) = tevt_of s" "tm_index (force_unlock_spin me s) = tm_index s"
  "tm_callback (force_unlock_spin me s) = tm_callback s" "ipi (force_unlock_spin me s) = ipi s"
  by (simp_all add: force_unlock_spin_def upd_spn_def set_locspnid_def Let_def)

lemma force_unlock_spin_pcb:
  "pcb_of (force_unlock_spin me s) = (pcb_of s)(me := (pcb_of s me)\<lparr>locspnid := 0\<rparr>)"
proof -
  have "(pcb_of s me)\<lparr>locspnid := 0\<rparr> = pcb_of s me" if "locspnid (pcb_of s me) = 0"
    using that by simp
  then show ?thesis by (auto simp: force_unlock_spin_def Let_def fun_eq_iff)
qed

lemma force_unlock_spin_objs: "\<exists>g. objs (force_unlock_spin me s) = (objs s)\<lparr>spncb_of := g\<rparr>"
  by (auto simp: force_unlock_spin_def upd_spn_def set_locspnid_def Let_def)
     (metis kobjs.surjective kobjs.update_convs(10))

lemma ext_flags_sel:
  "tcb_of (ext_flags me s) = tcb_of s" "kq (ext_flags me s) = kq s"
  "tevt_of (ext_flags me s) = tevt_of s" "tm_index (ext_flags me s) = tm_index s"
  "tm_callback (ext_flags me s) = tm_callback s" "ipi (ext_flags me s) = ipi s"
  "pcb_of (ext_flags me s) = (pcb_of s)(me := (pcb_of s me)\<lparr>disdsp := False, ipmflg := True, dspflg := True,
     locspnid := 0\<rparr>)"
  "cyccb_of (objs (ext_flags me s)) = cyccb_of (objs s)" "almcb_of (objs (ext_flags me s)) = almcb_of (objs s)"
proof -
  have "cyccb_of (objs (force_unlock_spin me s')) = cyccb_of (objs s')"
    "almcb_of (objs (force_unlock_spin me s')) = almcb_of (objs s')" for s'
    by (simp_all add: force_unlock_spin_def upd_spn_def set_locspnid_def Let_def)
  then show "cyccb_of (objs (ext_flags me s)) = cyccb_of (objs s)" "almcb_of (objs (ext_flags me s)) = almcb_of (objs s)"
    by (simp_all add: ext_flags_def)
qed (simp_all add: ext_flags_def force_unlock_spin_pcb)

lemma ext_flags_kparts:
  assumes "kparts C P Q s"
  shows "kparts C (insert me P) Q (ext_flags me s)"
proof -
  note D = kpartsD [OF assms]
  note E = ext_flags_sel [of me s]
  have "qinv {} Q (ext_flags me s)" by (rule qinv_frame [OF D(1)]) (simp_all add: E)
  moreover have "tinv {} (ext_flags me s)" by (rule tinv_frame [OF D(2)]) (simp_all add: E tm_place_def cb_ok_def same_handlers_def)
  moreover have "dinv (insert me P) (ext_flags me s)" using D(3) by (auto simp: dinv_def E)
  moreover have "sinv C Q (ext_flags me s)" using D(8) by (simp add: sinv_def E)
  ultimately show ?thesis by (simp add: kparts_def)
qed

lemma ext_flags_rinv: "rinv s \<Longrightarrow> rinv (ext_flags me s)"
  by (auto simp: rinv_def ext_flags_sel split: if_splits)

text \<open>A dormant task is served its queued activation request, or stays dormant.\<close>

lemma reactivate_kparts:
  assumes K: "kparts C P Q s" and d: "TSTAT_DORMANT (tstat (tcb_of s t))" and me: "p_pcb (tcb_of s t) \<in> P"
    and eq: "reactivate t s = (b, s')"
  shows "\<exists>Q'. kparts C P Q' s' \<and> (\<forall>k. (\<forall>p i. k \<noteq> RDY p i) \<longrightarrow> Q' k = Q k)" and "core_frame s s'"
    and "\<exists>x. tcb_of s' = (tcb_of s)(t := x) \<and> winfo_obj x = winfo_obj (tcb_of s t)"
proof -
  let ?f = "\<lambda>b. b\<lparr>actque := False, actprc := TPRC_NONE, tstat := TS_RUNNABLE\<rparr>"
  have "(\<exists>Q'. kparts C P Q' s' \<and> (\<forall>k. (\<forall>p i. k \<noteq> RDY p i) \<longrightarrow> Q' k = Q k)) \<and> core_frame s s' \<and>
    (\<exists>x. tcb_of s' = (tcb_of s)(t := x) \<and> winfo_obj x = winfo_obj (tcb_of s t))"
  proof (cases "actque (tcb_of s t)")
    case False
    then have "s' = s" using eq by (simp add: reactivate_def)
    then show ?thesis using K by (auto simp: core_frame_def intro!: exI [of _ "tcb_of s t"])
  next
    case True
    then have e: "make_runnable t (upd_tcb t ?f s) = (b, s')"
      using eq by (simp add: reactivate_def set_actque_def make_active_upd(1))
    have pl: "place (tcb_of s t) = None" "\<not> TSTAT_WAITING (tstat (tcb_of s t))" using dormant_place [OF d] by auto
    have f: "TSTAT_RUNNABLE (tstat (?f (tcb_of s t)))" "wf_tcb (?f (tcb_of s t))"
      using wf_restarted(1) [OF kpartsD(5) [OF K] d] by (simp_all add: tstat_macros tstat_consts)
    note S = start_kparts [OF K pl f e]
    have "insert (p_pcb (tcb_of s t)) P = P" using me by blast
    then show ?thesis using S by (auto intro!: exI split: if_splits)
  qed
  then show "\<exists>Q'. kparts C P Q' s' \<and> (\<forall>k. (\<forall>p i. k \<noteq> RDY p i) \<longrightarrow> Q' k = Q k)" "core_frame s s'"
    "\<exists>x. tcb_of s' = (tcb_of s)(t := x) \<and> winfo_obj x = winfo_obj (tcb_of s t)" by blast+
qed


lemma core_frame_upd_tcb: "core_frame s (upd_tcb t f s)"
  by (simp add: core_frame_def)

text \<open>The first half, common to both ways out: the flags are reset and the caller is dormant.\<close>

lemma ext_halt:
  assumes K: "kinv C {} Q s" and C: "prc_ok C" and p: "p_runtsk (pcb_of s me) = Some t"
    and run: "TSTAT_RUNNABLE (tstat (tcb_of s t))"
    and eq: "make_non_runnable t (ext_flags me s) = (b, s1)"
  defines "s2 \<equiv> make_dormant C t s1" and "h \<equiv> RDY me (priority (tcb_of s t))"
  shows "kparts C {me} (Q(h := remove1 t (Q h))) s2" and "core_frame (ext_flags me s) s2"
    and "tcb_of s2 = (tcb_of s)(t := dormant_tcb C t (tcb_of s t))"
    and "\<exists>g. objs s2 = (objs s)\<lparr>spncb_of := g\<rparr>"
proof -
  have K': "kparts C {} Q s" "rinv s" using K by (simp_all add: kinv_parts)
  let ?s = "ext_flags me s"
  have t: "tcb_of ?s = tcb_of s" and me: "p_pcb (tcb_of s t) = me"
    using kinv_running(1) [OF K p] by (simp_all add: ext_flags_sel)
  have K1: "kparts C {me} Q ?s" using ext_flags_kparts [OF K'(1), of me] by simp
  have run': "TSTAT_RUNNABLE (tstat (tcb_of ?s t))" using run by (simp add: t)
  have wf: "wf_tcb (dormant_tcb C t (tcb_of s t))" by (rule wf_dormant_tcb [OF C kinvD(5) [OF K]])
  have f: "place (dormant_tcb C t (tcb_of ?s t)) = None" "wf_tcb (dormant_tcb C t (tcb_of ?s t))"
    "\<not> TSTAT_WAITING (tstat (dormant_tcb C t (tcb_of ?s t)))"
    using wf by (simp_all add: t)
  note H = halt_kparts [where f = "dormant_tcb C t", OF K1 run' eq f]
  have s2: "s2 = upd_tcb t (dormant_tcb C t) s1" by (simp add: s2_def make_dormant_upd)
  have ins: "(if b then insert me {me} else {me}) = {me}" by simp
  show "kparts C {me} (Q(h := remove1 t (Q h))) s2"
    using H(1) unfolding s2 t me ins h_def .
  show "core_frame ?s s2" unfolding s2 by (rule core_frame_trans [OF H(4) core_frame_upd_tcb])
  show "tcb_of s2 = (tcb_of s)(t := dormant_tcb C t (tcb_of s t))" by (simp add: s2 H(2) t)
  have o1: "objs ?s = objs (force_unlock_spin me (upd_pcb me (\<lambda>b. b\<lparr>disdsp := False, ipmflg := True, dspflg := True\<rparr>) s))"
    by (simp add: ext_flags_def)
  obtain g where g: "objs ?s = (objs s)\<lparr>spncb_of := g\<rparr>"
    using force_unlock_spin_objs [of me "upd_pcb me (\<lambda>b. b\<lparr>disdsp := False, ipmflg := True, dspflg := True\<rparr>) s"]
    unfolding o1 by auto
  have "objs s2 = objs ?s" using H(3) by (simp add: s2)
  then have "objs s2 = (objs s)\<lparr>spncb_of := g\<rparr>" using g by (rule trans)
  then show "\<exists>g. objs s2 = (objs s)\<lparr>spncb_of := g\<rparr>" by blast
qed

lemma ext_leave:
  assumes K: "kinv C {} Q s" and me: "p_pcb (tcb_of s t) = me"
    and K3: "kparts C {me} Q3 s3" and cf: "core_frame (ext_flags me s) s3"
    and tc: "tcb_of s3 = (tcb_of s)(t := x)" "winfo_obj x = winfo_obj (tcb_of s t)"
    and Q3: "\<And>k. (\<And>p i. k \<noteq> RDY p i) \<Longrightarrow> Q3 k = Q k" and o: "\<exists>g. objs s3 = (objs s)\<lparr>spncb_of := g\<rparr>"
  shows "ext_step C Q s (exit_and_dispatch me s3)"
proof -
  have r: "rinv (ext_flags me s)" by (rule ext_flags_rinv) (use K in \<open>simp add: kinv_parts\<close>)
  have e: "tcb_of (ext_flags me s) = tcb_of s" by (simp add: ext_flags_sel)
  have "rinv_but me s3" by (rule rinv_but_running [OF r, of t me s3 x]) (use me cf tc e in simp_all)
  then have "kinv C {} Q3 (exit_and_dispatch me s3)" using exit_and_dispatch_kinv [of C me "{}"] K3 by simp
  moreover have tc': "tcb_of (exit_and_dispatch me s3) = (tcb_of s)(t := x)" using tc by simp
  have "keeps {} Q s Q3 (exit_and_dispatch me s3)"
    by (rule keeps_ready [OF tc' _ Q3]) (use tc(2) in simp_all)
  ultimately show ?thesis unfolding ext_step_def using o by auto
qed

lemma ext_tsk_step:
  assumes K: "kinv C {} Q s" and C: "prc_ok C" and me: "me < 2 ^ 31 - 1"
    and run: "sense_context me s \<or> TSTAT_RUNNABLE (tstat (tcb_of s (runtsk me s)))"
  shows "ext_step C Q s (snd (ext_tsk C me s))"
proof (cases "sense_context me s")
  case True
  then show ?thesis using K by (auto simp: ext_tsk_def ext_step_def intro!: exI [of _ Q] exI [of _ "spncb_of (objs s)"])
next
  case False
  define t where "t = runtsk me s"
  have z: "excpt_nest_count (pcb_of s me) = 0" using False by (simp add: sense_context_def)
  have p: "p_runtsk (pcb_of s me) = Some t" using kinvD(8) [OF K] z by (auto simp: rinv_def t_def runtsk_def)
  have run': "TSTAT_RUNNABLE (tstat (tcb_of s t))" using run False by (simp add: t_def)
  have mp: "p_pcb (tcb_of s t) = me" by (rule kinv_running(1) [OF K p])
  let ?pr = "actprc (tcb_of s t)"
  obtain b s1 where 1: "make_non_runnable t (ext_flags me s) = (b, s1)" by fastforce
  let ?s2 = "make_dormant C t s1" and ?h = "RDY me (priority (tcb_of s t))"
  note H = ext_halt [OF K C p run' 1]
  have d: "TSTAT_DORMANT (tstat (tcb_of ?s2 t))" and m2: "p_pcb (tcb_of ?s2 t) = me"
    and w2: "winfo_obj (tcb_of ?s2 t) = winfo_obj (tcb_of s t)" using mp by (simp_all add: H(3))
  have rq: "Q3 k = Q k"
    if "\<forall>k. (\<forall>p i. k \<noteq> RDY p i) \<longrightarrow> Q3 k = (Q(?h := remove1 t (Q ?h))) k" "\<And>p i. k \<noteq> RDY p i" for Q3 k
    using that by simp
  show ?thesis
  proof (cases "?pr = TPRC_NONE \<or> ?pr = ID_PRC me")
    case True
    obtain b' s3 where 3: "reactivate t ?s2 = (b', s3)" by fastforce
    have e: "snd (ext_tsk C me s) = exit_and_dispatch me s3"
      using False True 1 3 by (simp add: ext_tsk_def Let_def t_def [symmetric] split_beta)
    note R = reactivate_kparts [OF H(1) d _ 3]
    obtain Q3 where Q3: "kparts C {me} Q3 s3" "\<forall>k. (\<forall>p i. k \<noteq> RDY p i) \<longrightarrow> Q3 k = (Q(?h := remove1 t (Q ?h))) k"
      using R(1) m2 by auto
    obtain x where x: "tcb_of s3 = (tcb_of ?s2)(t := x)" "winfo_obj x = winfo_obj (tcb_of ?s2 t)" using R(3) m2 by auto
    have tc: "tcb_of s3 = (tcb_of s)(t := x)" using x(1) by (simp add: H(3))
    have cf: "core_frame ?s2 s3" using R(2) m2 by simp
    have o: "objs s3 = objs ?s2" by (rule core_frameD(2) [OF cf])
    show ?thesis
      unfolding e
      by (rule ext_leave [OF K mp Q3(1) core_frame_trans [OF H(2) cf] tc])
        (use x(2) w2 rq [OF Q3(2)] H(4) o in simp_all)
  next
    case mig: False
    let ?p = "INDEX_PRC ?pr"
    have ne: "?p \<noteq> me" using mig ID_PRC_INDEX [of ?pr me] wf_actprc [OF kinvD(5) [OF K, of t]] me by simp
    let ?f = "\<lambda>b. b\<lparr>p_pcb := ?p, actque := False, actprc := TPRC_NONE, tstat := TS_RUNNABLE\<rparr>"
    obtain b2 s3 where 3: "make_runnable t (upd_tcb t ?f ?s2) = (b2, s3)" by fastforce
    have r: "runtsk me (ext_flags me s) = t" using p by (simp add: runtsk_def ext_flags_sel)
    have e: "snd (ext_tsk C me s) = exit_and_dispatch me (request_other me ?p b2 s3)"
      using False mig 1 3
      by (simp add: ext_tsk_def Let_def t_def [symmetric] exit_and_migrate_self_def r split_beta
          set_actque_def set_p_pcb_def make_active_upd(1) upd_tcb_upd)
    have pl: "place (tcb_of ?s2 t) = None" "\<not> TSTAT_WAITING (tstat (tcb_of ?s2 t))" using dormant_place [OF d] by auto
    have wf: "wf_tcb (?f (tcb_of ?s2 t))" by (rule wf_restarted(3) [OF kpartsD(5) [OF H(1)] d])
    have rn: "TSTAT_RUNNABLE (tstat (?f (tcb_of ?s2 t)))" by (simp add: tstat_macros tstat_consts)
    note S = start_kparts [OF H(1) pl rn wf 3]
    let ?Q1 = "Q(?h := remove1 t (Q ?h))"
    let ?Q2 = "?Q1(RDY ?p (priority (tcb_of ?s2 t)) := ?Q1 (RDY ?p (priority (tcb_of ?s2 t))) @ [t])"
    have pp: "p_pcb (?f (tcb_of ?s2 t)) = ?p" "priority (?f (tcb_of ?s2 t)) = priority (tcb_of ?s2 t)" by simp_all
    have K3: "kparts C (if b2 then insert ?p {me} else {me}) ?Q2 s3"
      using S(1) unfolding pp .
    note R = request_other_kparts [OF K3 ne]
    let ?s4 = "request_other me ?p b2 s3"
    have tc: "tcb_of ?s4 = (tcb_of s)(t := ?f (tcb_of ?s2 t))" unfolding R(2) using S(2) by (simp add: H(3))
    have c3: "core_frame (ext_flags me s) s3" by (rule core_frame_trans [OF H(2) S(4)])
    have c4: "rinv_but me ?s4"
      using rinv_but_running [OF ext_flags_rinv, of s me t me s3 "?f (tcb_of ?s2 t)"] c3 S(2) mp K
        rinv_cong(2) [OF R(4,2)] by (simp add: kinv_parts ext_flags_sel H(3))
    have "kinv C {} ?Q2 (exit_and_dispatch me ?s4)" using exit_and_dispatch_kinv [of C me "{}"] R(1) c4 by simp
    moreover have tc': "tcb_of (exit_and_dispatch me ?s4) = (tcb_of s)(t := ?f (tcb_of ?s2 t))" using tc by simp
    have "keeps {} Q s ?Q2 (exit_and_dispatch me ?s4)"
      by (rule keeps_ready [OF tc']) (use w2 in auto)
    moreover have "\<exists>g. objs (exit_and_dispatch me ?s4) = (objs s)\<lparr>spncb_of := g\<rparr>"
      using H(4) by (simp add: R(3) S(3))
    ultimately show ?thesis unfolding ext_step_def e by blast
  qed
qed

lemma make_runnable_tcb: "tcb_of (snd (make_runnable t s)) = tcb_of s"
  using sched_frameD(1) [OF make_runnable_frame [OF surjective_pairing]] .

lemma make_non_runnable_tcb: "tcb_of (snd (make_non_runnable t s)) = tcb_of s"
  using sched_frameD(1) [OF make_non_runnable_frame [OF surjective_pairing]] .

lemma request_other_tcb: "tcb_of (request_other me p b s) = tcb_of s"
  by (simp add: request_other_def dispatch_request_def target_ipi_raise_def)

lemma exit_and_dispatch_runs:
  "p_runtsk (pcb_of (exit_and_dispatch me s) me) = p_schedtsk (pcb_of (exit_and_dispatch me s) me)"
  by (simp add: exit_and_dispatch_def dispatch_def)

text \<open>The control block of the task that ended, and who runs next.\<close>

lemma ext_tsk_result:
  assumes "\<not> sense_context me s" and "t = runtsk me s"
  shows "fst (ext_tsk C me s) = Exits"
    and "tcb_of (snd (ext_tsk C me s)) = (tcb_of s)(t :=
      (let b = dormant_tcb C t (tcb_of s t) in
       if actprc b = TPRC_NONE \<or> actprc b = ID_PRC me then
         (if actque b then b\<lparr>actque := False, actprc := TPRC_NONE, tstat := TS_RUNNABLE\<rparr> else b)
       else b\<lparr>p_pcb := INDEX_PRC (actprc b), actque := False, actprc := TPRC_NONE, tstat := TS_RUNNABLE\<rparr>))"
    and "p_runtsk (pcb_of (snd (ext_tsk C me s)) me) = p_schedtsk (pcb_of (snd (ext_tsk C me s)) me)"
proof -
  have r: "runtsk me (ext_flags me s) = t" using assms(2) by (simp add: runtsk_def ext_flags_sel)
  show "fst (ext_tsk C me s) = Exits" using assms by (simp add: ext_tsk_def Let_def split_beta)
  show "p_runtsk (pcb_of (snd (ext_tsk C me s)) me) = p_schedtsk (pcb_of (snd (ext_tsk C me s)) me)"
    using assms by (simp add: ext_tsk_def Let_def split_beta exit_and_dispatch_runs exit_and_migrate_self_def)
  show "tcb_of (snd (ext_tsk C me s)) = (tcb_of s)(t :=
      (let b = dormant_tcb C t (tcb_of s t) in
       if actprc b = TPRC_NONE \<or> actprc b = ID_PRC me then
         (if actque b then b\<lparr>actque := False, actprc := TPRC_NONE, tstat := TS_RUNNABLE\<rparr> else b)
       else b\<lparr>p_pcb := INDEX_PRC (actprc b), actque := False, actprc := TPRC_NONE, tstat := TS_RUNNABLE\<rparr>))"
    using assms
    by (simp add: ext_tsk_def Let_def split_beta exit_and_migrate_self_def r reactivate_def make_dormant_upd
        set_actque_def set_p_pcb_def make_active_def make_runnable_tcb make_non_runnable_tcb request_other_tcb
        ext_flags_sel)
qed

text \<open>
  \<open>chg_pri\<close> with nothing in between: the task has the new priority, whether it waits for an object
  or not.
\<close>

lemma chg_pri_spec:
  assumes K: "kinv C {} Q s" and C: "prc_ok C" and c: "sense_tskctx_unl me s" and v: "VALID_TSKID_SELF C tskid"
    and p: "VALID_TPRI tskpri" and t: "t = get_tcb_self me tskid s" and eq: "chg_pri C me tskid tskpri s = (r, s')"
  shows "task_step C Q s s' \<and>
    (if TSTAT_DORMANT (tstat (tcb_of s t)) then r = Ret E_OBJ \<and> s' = s
     else r = Ret E_OK \<and> (\<exists>x. tcb_of s' = (tcb_of s)(t := x) \<and>
       x\<lparr>pend_chgpri := False, pend_newpri := 0\<rparr> =
         (tcb_of s t)\<lparr>priority := INT_PRIORITY tskpri, pend_chgpri := False, pend_newpri := 0\<rparr>))"
proof (cases "TSTAT_DORMANT (tstat (tcb_of s t))")
  case True
  then show ?thesis using eq c v p t task_step_refl [OF K]
    by (auto simp: chg_pri_def chg_pri_1_def VALID_TPRI_INI_def Let_def)
next
  case nd: False
  let ?new = "INT_PRIORITY tskpri"
  have pi: "tskpri \<noteq> TPRI_INI" "VALID_TPRI_INI tskpri"
    using p by (auto simp: VALID_TPRI_def VALID_TPRI_INI_def TPRI_INI_def TMIN_TPRI_def)
  have new: "?new < 16" by (rule INT_PRIORITY_valid [OF p])
  note S1 = chg_pri_1_step [OF K C, of me tskid tskpri]
  show ?thesis
  proof (cases "TSTAT_WAITING (tstat (tcb_of s t)) \<and> TSTAT_WAIT_WOBJ (tstat (tcb_of s t))")
    case False
    obtain b s1 where 1: "change_priority C t ?new s = (b, s1)" by fastforce
    obtain d s2 where 2: "t_request me (p_pcb (tcb_of s t)) b s1 = (d, s2)" by fastforce
    have e: "chg_pri_1 C me tskid tskpri s = (Inl (Ret E_OK), t_dispatch_if me d s2)"
      using nd False c v pi t 1 2 by (auto simp: chg_pri_1_def Let_def)
    then have r: "r = Ret E_OK" "s' = t_dispatch_if me d s2" using eq t by (simp_all add: chg_pri_def Let_def)
    have "tcb_of s' = (tcb_of s)(t := (tcb_of s t)\<lparr>priority := ?new\<rparr>)"
      using change_priority_kinv(3) [OF K new 1] treq.req_frame [OF 2] r(2) by simp
    then show ?thesis using S1 nd e r by (auto intro!: exI [of _ "(tcb_of s t)\<lparr>priority := ?new\<rparr>"])
  next
    case True
    let ?s = "upd_tcb t (\<lambda>b. b\<lparr>pend_chgpri := True, pend_newpri := ?new\<rparr>) s"
    have e: "chg_pri_1 C me tskid tskpri s = (Inr ?new, ?s)"
      using nd True c v pi t by (auto simp: chg_pri_1_def Let_def)
    have pe: "pend_chgpri (tcb_of ?s t)" by simp
    have e2: "chg_pri_2 C t ?new ?s = (r, s')" using eq e t by (simp add: chg_pri_def Let_def)
    obtain Q1 where Q1: "kinv C {} Q1 ?s" "keeps {} Q s Q1 ?s" "objs ?s = objs s"
      using S1 e by (auto simp: task_step_def)
    have S2: "task_step C Q1 ?s s'" and tc: "tcb_of s' = (tcb_of ?s)(t := (tcb_of ?s t)\<lparr>pend_chgpri := False, priority := ?new\<rparr>)"
      using chg_pri_2_step(1) [OF Q1(1) new, of t] chg_pri_2_step(2) [OF Q1(1) new pe] e2 by simp_all
    have r: "r = Ret E_OK" using e2 pe by (simp add: chg_pri_2_def Let_def)
    have "tcb_of s' = (tcb_of s)(t := (tcb_of s t)\<lparr>pend_newpri := ?new, pend_chgpri := False, priority := ?new\<rparr>)"
      unfolding tc by simp
    moreover have "task_step C Q s s'" by (rule task_step_trans [OF Q1 S2])
    ultimately show ?thesis using nd r by auto
  qed
qed

end
