(* ===== verification/Task_Properties.thy ===== *)
theory Task_Properties
  imports Task_Manage Semaphore Sample
begin

text \<open>
  The properties of task management, each with an instance on a concrete state.
\<close>

lemma task_step_kinv: "task_step C Q s s' \<Longrightarrow> \<exists>Q'. kinv C {} Q' s'"
  unfolding task_step_def by blast

lemma sample_prc_ok: "prc_ok sample_cfg"
  by (simp add: prc_ok_def sample_cfg_def VALID_PRCID_def)

section \<open>Activation\<close>

text \<open>
  C28: \<open>act_tsk\<close> makes a dormant task ready at its initial priority, remembers one request for a
  task that is not dormant and refuses a second one with \<open>E_QOVR\<close>; the kernel invariant is kept.
\<close>

theorem act_tsk_meets_spec:
  assumes "kinv C {} Q s" and "sense_tskctx_unl me s" and "VALID_TSKID_SELF C tskid"
    and "act_tsk C me tskid s = (r, s')" and "t = get_tcb_self me tskid s"
  shows "(\<exists>Q'. kinv C {} Q' s' \<and> keeps {} Q s Q' s' \<and> objs s' = objs s) \<and>
    (if TSTAT_DORMANT (tstat (tcb_of s t)) then
       r = Ret E_OK \<and> tcb_of s' = (tcb_of s)(t := (tcb_of s t)\<lparr>tstat := TS_RUNNABLE\<rparr>)
     else if \<not> actque (tcb_of s t) then r = Ret E_OK \<and> s' = upd_tcb t (\<lambda>b. b\<lparr>actque := True\<rparr>) s
     else r = Ret E_QOVR \<and> s' = s)"
  using act_tsk_spec [OF assms(1-4)] by (simp add: assms(5) task_step_def)

theorem act_tsk_meets_spec_witness:
  "\<exists>s'. act_tsk sample_cfg 0 5 sample_state = (Ret E_OK, s') \<and> tstat (tcb_of s' 4) = TS_RUNNABLE"
proof -
  obtain r s' where e: "act_tsk sample_cfg 0 5 sample_state = (r, s')" by fastforce
  have t: "get_tcb_self 0 5 sample_state = 4"
    by (simp add: get_tcb_self_def TSK_SELF_def get_tcb_def INDEX_TSK_def uint_cast_def)
  have v: "VALID_TSKID_SELF sample_cfg 5" by (simp add: VALID_TSKID_SELF_def VALID_TSKID_def sample_cfg_def)
  have "TSTAT_DORMANT (tstat sample_tcb)" by (simp add: sample_tcb_def tstat_macros)
  then show ?thesis
    using act_tsk_meets_spec [OF sample_kinv _ v e t [symmetric]] e by auto
qed

section \<open>Termination\<close>

text \<open>
  C29: \<open>ext_tsk\<close> ends the calling task and leaves a state with the kernel invariant: the task is
  dormant with its initial priority, or, if an activation was queued, ready again on the
  processor it was asked for; what runs next is the scheduled task.  Only the spin lock that the
  caller held changes among the objects.
\<close>

theorem ext_tsk_meets_spec:
  assumes "kinv C {} Q s" and "prc_ok C" and "me < 2 ^ 31 - 1" and "\<not> sense_context me s"
    and "TSTAT_RUNNABLE (tstat (tcb_of s t))" and "t = runtsk me s" and "ext_tsk C me s = (r, s')"
  shows "r = Exits \<and> (\<exists>Q' g. kinv C {} Q' s' \<and> keeps {} Q s Q' s' \<and> objs s' = (objs s)\<lparr>spncb_of := g\<rparr>) \<and>
    tcb_of s' = (tcb_of s)(t :=
      (let b = dormant_tcb C t (tcb_of s t) in
       if actprc b = TPRC_NONE \<or> actprc b = ID_PRC me then
         (if actque b then b\<lparr>actque := False, actprc := TPRC_NONE, tstat := TS_RUNNABLE\<rparr> else b)
       else b\<lparr>p_pcb := INDEX_PRC (actprc b), actque := False, actprc := TPRC_NONE, tstat := TS_RUNNABLE\<rparr>)) \<and>
    p_runtsk (pcb_of s' me) = p_schedtsk (pcb_of s' me)"
  using ext_tsk_step [OF assms(1-3)] ext_tsk_result [where C = C, OF assms(4)] assms(4-7)
  by (auto simp: ext_step_def Let_def)

theorem ext_tsk_meets_spec_witness:
  "\<exists>s' Q'. ext_tsk sample_cfg 0 sample_state = (Exits, s') \<and> kinv sample_cfg {} Q' s' \<and>
     tstat (tcb_of s' 0) = TS_DORMANT"
proof -
  obtain r s' where e: "ext_tsk sample_cfg 0 sample_state = (r, s')" by fastforce
  have c: "\<not> sense_context 0 sample_state" by (simp add: sense_context_def sample_state_def)
  have n: "\<not> actque (tcb_of sample_state 0)" "actprc (tcb_of sample_state 0) = TPRC_NONE"
    by (simp_all add: sample_tcb_def)
  show ?thesis
    using ext_tsk_meets_spec [OF sample_kinv sample_prc_ok _ c _ _ e, of 0] e n by auto
qed

text \<open>
  C30: \<open>ter_tsk\<close>, with no other processor acting between its two steps, keeps the kernel
  invariant whatever state the task is in: it is taken out of its queue and of the event queue
  before it becomes dormant, and starts again if an activation was queued.
\<close>

theorem ter_tsk_keeps_invariant:
  assumes "kinv C {} Q s" and "prc_ok C" and "me < 2 ^ 31 - 1"
  shows "\<exists>Q'. kinv C {} Q' (snd (ter_tsk C me tskid s)) \<and> keeps {} Q s Q' (snd (ter_tsk C me tskid s)) \<and>
    objs (snd (ter_tsk C me tskid s)) = objs s"
  using ter_tsk_step [OF assms] by (simp add: task_step_def)

theorem ter_tsk_keeps_invariant_witness:
  "\<exists>Q'. kinv sample_cfg {} Q' (snd (ter_tsk sample_cfg 0 2 sample_state))"
  using ter_tsk_keeps_invariant [OF sample_kinv sample_prc_ok, of 0 2] by auto

text \<open>
  C31: The check that \<open>ter_tsk\<close> makes after taking the locks again passes a task that was woken
  meanwhile: the call succeeds, the task is dormant and still linked in its ready queue, and no
  assignment of queues satisfies the kernel invariant.
\<close>

theorem ter_tsk_race_breaks_invariant:
  assumes "kinv C P Q s" and "tstat (tcb_of s t) = TS_RUNNABLE" and "p_wobjcb (tcb_of s t) = Some w"
    and "\<not> actque (tcb_of s t)" and "ter_tsk_2 C me t (Ter_wobj w) s = (r, s')"
  shows "r = Ret E_OK \<and> TSTAT_DORMANT (tstat (tcb_of s' t)) \<and> kq s' = kq s \<and> (\<nexists>P' Q'. kinv C P' Q' s')"
  using ter_tsk_2_woken [OF assms] by blast

theorem ter_tsk_race_breaks_invariant_witness:
  "\<exists>s1 s2. ter_tsk_1 sample_cfg 0 2 sample_state = (Ter_wobj (SEM 0), sample_state) \<and>
     isig_sem sample_cfg 1 1 sample_state = (Ret E_OK, s1) \<and>
     ter_tsk_2 sample_cfg 0 1 (Ter_wobj (SEM 0)) s1 = (Ret E_OK, s2) \<and> (\<nexists>P Q. kinv sample_cfg P Q s2)"
proof -
  obtain r1 s1 where e1: "isig_sem sample_cfg 1 1 sample_state = (r1, s1)" by fastforce
  have a: "asem sample_queues sample_state 0 = (0, [1])"
    by (simp add: asem_def sem_def sample_objs_def)
  obtain Q1 where Q1: "r1 = Ret E_OK" "kinv sample_cfg {} Q1 s1"
    "tcb_of s1 = (tcb_of sample_state)(1 := ended_tcb E_OK (tcb_of sample_state 1))"
    using isig_sem_refines [OF sample_kinv _ _ e1] that by (auto simp: a simp del: One_nat_def)
  have t1: "tstat (tcb_of s1 1) = TS_RUNNABLE" "p_wobjcb (tcb_of s1 1) = Some (SEM 0)" "\<not> actque (tcb_of s1 1)"
    by (simp_all add: Q1(3) ended_tcb_def released_tcb_def sample_tcb_def tstat_macros tstat_consts)
  obtain r2 s2 where e2: "ter_tsk_2 sample_cfg 0 1 (Ter_wobj (SEM 0)) s1 = (r2, s2)" by fastforce
  have g: "get_tcb 2 = 1" by (simp add: get_tcb_def INDEX_TSK_def uint_cast_def)
  have "ter_tsk_1 sample_cfg 0 2 sample_state = (Ter_wobj (SEM 0), sample_state)"
    by (simp add: ter_tsk_1_def g VALID_TSKID_def sample_tcb_def tstat_macros tstat_consts)
       (simp add: sample_cfg_def)
  then show ?thesis
    using ter_tsk_race_breaks_invariant [OF Q1(2) t1 e2] e1 e2 Q1(1) by auto
qed

section \<open>Migration\<close>

text \<open>
  C32: \<open>mig_tsk\<close> on the calling task in the transitional state (suspended by another processor
  while dispatching is disabled here) returns \<open>E_OK\<close> and gives the task to the other processor
  although it goes on running here; the kernel invariant is lost.
\<close>

theorem mig_tsk_strands_running_task:
  assumes "p_runtsk (pcb_of s me) = Some t" and "p_pcb (tcb_of s t) = me"
    and "tstat (tcb_of s t) = TS_SUSPENDED" and "tm_callback s (TM_TSK t) = None"
    and "sense_tskctx_unl me s" and "VALID_PRCID_INI C prcid"
    and "VALID_MIG (affinity_mask (tinib_table C t)) (act_prcid C t prcid)"
    and "INDEX_PRC (act_prcid C t prcid) \<noteq> me" and "mig_tsk C me TSK_SELF prcid s = (r, s')"
  shows "r = Ret E_OK \<and> p_runtsk (pcb_of s' me) = Some t \<and> p_pcb (tcb_of s' t) \<noteq> me \<and>
    (\<nexists>P Q. kinv C P Q s')"
  using mig_tsk_running [OF assms] by blast

theorem mig_tsk_strands_running_task_witness:
  "\<exists>s1 s2. sus_tsk sample_cfg 1 1 (upd_pcb 0 (\<lambda>b. b\<lparr>dspflg := False, disdsp := True\<rparr>)
       (upd_pcb 1 (\<lambda>b. b\<lparr>excpt_nest_count := 0\<rparr>) sample_state)) = (Ret E_OK, s1) \<and>
     mig_tsk sample_cfg 0 TSK_SELF 2 s1 = (Ret E_OK, s2) \<and> (\<nexists>P Q. kinv sample_cfg P Q s2)"
proof -
  define s where "s = upd_pcb 0 (\<lambda>b. b\<lparr>dspflg := False, disdsp := True\<rparr>)
       (upd_pcb 1 (\<lambda>b. b\<lparr>excpt_nest_count := 0\<rparr>) sample_state)"
  have g: "get_tcb_self 1 1 s = 0" by (simp add: get_tcb_self_def TSK_SELF_def get_tcb_def INDEX_TSK_def uint_cast_def)
  have c1: "sense_tskctx_unl 1 s"
    by (simp add: s_def sense_tskctx_unl_def sense_context_def sense_lock_def sample_state_def sample_pcb_def)
  obtain b s0 where n: "make_non_runnable 0 (set_tstat 0 TS_SUSPENDED s) = (b, s0)" by fastforce
  note F = sched_frameD [OF make_non_runnable_frame [OF n]]
  have d0: "dspflg (pcb_of s 0) = False" by (simp add: s_def)
  have p0: "p_pcb (tcb_of s 0) = 0" by (simp add: s_def sample_tcb_def)
  have nb: "\<not> b" using make_non_runnable_request [OF n] d0 p0 by (auto simp: set_tstat_def)
  have e1: "sus_tsk sample_cfg 1 1 s = (Ret E_OK, s0)"
    using c1 n nb g
    by (simp add: sus_tsk_def VALID_TSKID_SELF_def VALID_TSKID_def t_request_def t_dispatch_if_def Let_def)
       (simp add: s_def sample_cfg_def sample_tcb_def sample_state_def sample_pcb_def tstat_macros tstat_consts)
  have t0: "tcb_of s0 0 = sample_tcb\<lparr>tstat := TS_SUSPENDED\<rparr>" by (simp add: F(1) set_tstat_def s_def)
  have h: "p_runtsk (pcb_of s0 0) = Some 0" "p_pcb (tcb_of s0 0) = 0" "tstat (tcb_of s0 0) = TS_SUSPENDED"
    "tm_callback s0 (TM_TSK 0) = None" "sense_tskctx_unl 0 s0"
    by (simp_all add: F t0 set_tstat_def s_def sample_state_def sample_tcb_def sense_tskctx_unl_def
        sense_context_def sense_lock_def sample_pcb_def)
  have a: "VALID_PRCID_INI sample_cfg 2" "act_prcid sample_cfg 0 2 = 2" "INDEX_PRC 2 \<noteq> 0"
    "VALID_MIG (affinity_mask (tinib_table sample_cfg 0)) (act_prcid sample_cfg 0 2)"
    by (simp_all add: VALID_PRCID_INI_def VALID_PRCID_def act_prcid_def TPRC_INI_def sample_cfg_def
        INDEX_PRC_def uint_cast_def VALID_MIG_def)
  obtain r s2 where e2: "mig_tsk sample_cfg 0 TSK_SELF 2 s0 = (r, s2)" by fastforce
  show ?thesis
    using mig_tsk_strands_running_task [OF h a(1,4) _ e2] a(2,3) e1 e2 unfolding s_def by auto
qed

section \<open>Priority\<close>

text \<open>
  \<open>chg_pri\<close> gives a task that is not dormant the new priority, also while it waits for an
  object, and keeps the order of the queues; \<open>get_pri\<close> then returns that priority on any
  processor.
\<close>

lemma priority_round_trip:
  assumes "kinv C {} Q s" and "prc_ok C" and "sense_tskctx_unl me s" and "VALID_TSKID C tskid"
    and "VALID_TPRI tskpri" and "\<not> TSTAT_DORMANT (tstat (tcb_of s (get_tcb tskid)))"
    and "chg_pri C me tskid tskpri s = (r, s')" and "sense_tskctx_unl p s'"
  shows "r = Ret E_OK \<and> (\<exists>Q'. kinv C {} Q' s' \<and> keeps {} Q s Q' s') \<and>
    get_pri C p tskid s' = ((E_OK, Some tskpri), s')"
proof -
  have ns: "tskid \<noteq> TSK_SELF" using assms(4) by (auto simp: VALID_TSKID_def TSK_SELF_def)
  then have t: "get_tcb tskid = get_tcb_self me tskid s" "get_tcb tskid = get_tcb_self p tskid s'"
    by (simp_all add: get_tcb_self_def)
  have v: "VALID_TSKID_SELF C tskid" using assms(4) by (simp add: VALID_TSKID_SELF_def)
  note S = chg_pri_spec [OF assms(1-3) v assms(5) t(1) assms(7)]
  obtain x where x: "r = Ret E_OK" "tcb_of s' = (tcb_of s)(get_tcb tskid := x)"
    "x\<lparr>pend_chgpri := False, pend_newpri := 0\<rparr> =
       (tcb_of s (get_tcb tskid))\<lparr>priority := INT_PRIORITY tskpri, pend_chgpri := False, pend_newpri := 0\<rparr>"
    using S assms(6) by auto
  have p: "priority x = INT_PRIORITY tskpri" "tstat x = tstat (tcb_of s (get_tcb tskid))"
    using arg_cong [OF x(3), of priority] arg_cong [OF x(3), of tstat] by simp_all
  have i: "EXT_TSKPRI (INT_PRIORITY tskpri) = tskpri"
    using assms(5) by (auto simp: VALID_TPRI_def EXT_TSKPRI_def INT_PRIORITY_def uint_cast_def TMIN_TPRI_def TMAX_TPRI_def)
  have "get_pri C p tskid s' = ((E_OK, Some tskpri), s')"
    using assms(6,8) v p i by (simp add: get_pri_def Let_def t(2) [symmetric] x(2))
  then show ?thesis using S x(1) by (auto simp: task_step_def)
qed

lemma priority_round_trip_witness:
  "\<exists>s'. chg_pri sample_cfg 0 2 3 sample_state = (Ret E_OK, s') \<and>
     get_pri sample_cfg 0 2 s' = ((E_OK, Some 3), s')"
proof -
  obtain r s' where e: "chg_pri sample_cfg 0 2 3 sample_state = (r, s')" by fastforce
  have g: "get_tcb 2 = 1" "get_tcb_self 0 2 sample_state = 1"
    by (simp_all add: get_tcb_self_def TSK_SELF_def get_tcb_def INDEX_TSK_def uint_cast_def)
  have v: "VALID_TSKID sample_cfg 2" "VALID_TPRI 3"
    by (simp_all add: VALID_TSKID_def sample_cfg_def VALID_TPRI_def TMIN_TPRI_def TMAX_TPRI_def)
  have p: "INT_PRIORITY 3 = 2" "3 \<noteq> TPRI_INI"
    by (simp_all add: INT_PRIORITY_def uint_cast_def TMIN_TPRI_def TPRI_INI_def)
  have ts: "tstat (tcb_of sample_state 1) = TS_WAITING OR TS_WAIT_SEM" by simp
  have a: "\<not> TSTAT_DORMANT (TS_WAITING OR TS_WAIT_SEM)" "TSTAT_WAITING (TS_WAITING OR TS_WAIT_SEM)"
    "TSTAT_WAIT_WOBJ (TS_WAITING OR TS_WAIT_SEM)" "\<not> TSTAT_RUNNABLE (TS_WAITING OR TS_WAIT_SEM)"
    "wobjatr sample_cfg w = 0" for w
    by (simp_all add: tstat_macros tstat_consts sample_cfg_def)
  let ?s = "upd_tcb 1 (\<lambda>b. b\<lparr>pend_chgpri := True, pend_newpri := 2\<rparr>) sample_state"
  have "chg_pri_1 sample_cfg 0 2 3 sample_state = (Inr 2, ?s)"
    using v a p ts by (simp add: chg_pri_1_def g VALID_TSKID_SELF_def VALID_TPRI_INI_def Let_def del: One_nat_def)
  then have "pcb_of s' = pcb_of sample_state"
    using e g a ts
    by (simp add: chg_pri_def chg_pri_2_def change_priority_def wobj_change_priority_def Let_def del: One_nat_def)
       (auto simp: wobj_change_priority_def a simp del: One_nat_def)
  then have "sense_tskctx_unl 0 s'"
    by (simp add: sense_tskctx_unl_def sense_context_def sense_lock_def sample_state_def sample_pcb_def)
  then show ?thesis
    using priority_round_trip [OF sample_kinv sample_prc_ok _ v _ e, of 0] e
    by (auto simp: g sample_tcb_def tstat_macros tstat_consts)
qed

end
