(* ===== verification/Handler.thy ===== *)
theory Handler
  imports Task_Manage
begin

text \<open>
  Cyclic and alarm handlers (\<open>kernel/cyclic.c\<close>, \<open>kernel/alarm.c\<close>).  A handler that is started has
  its time event on the event queue of its processor; the two modules share this contract, which
  is the locale \<open>timed_handler\<close>.  The handler routines themselves belong to the application:
  \<open>call_cychdr\<close> and \<open>call_almhdr\<close> are the step before the routine runs (\<open>_1\<close>), and the step after
  it (\<open>_2\<close>).
\<close>

section \<open>Cyclic handlers\<close>

definition cyc :: "kstate \<Rightarrow> nat \<Rightarrow> cyccb" where "cyc s i = cyccb_of (objs s) i"

definition upd_cyc :: "nat \<Rightarrow> (cyccb \<Rightarrow> cyccb) \<Rightarrow> kstate \<Rightarrow> kstate" where
  "upd_cyc i f s = s\<lparr>objs := (objs s)\<lparr>cyccb_of := (cyccb_of (objs s))(i := f (cyccb_of (objs s) i))\<rparr>\<rparr>"

definition tnum_cyc :: "cfg \<Rightarrow> nat" where "tnum_cyc C = uint_cast (tmax_cycid C - 1 + 1)"

definition tmevtb_enqueue_cyc :: "nat \<Rightarrow> evttim \<Rightarrow> kstate \<Rightarrow> kstate" where
  "tmevtb_enqueue_cyc i tm s =
     (let s = tmevtb_enqueue_evttim (cyc_pcb (cyc s i)) (TM_CYC i) tm CB_call_cychdr s
      in upd_cyc i (\<lambda>b. b\<lparr>evttim := tm\<rparr>) s)"

fun init_cycs :: "cfg \<Rightarrow> prcix \<Rightarrow> nat \<Rightarrow> kstate \<Rightarrow> kstate" where
  "init_cycs C me 0 s = s"
| "init_cycs C me (Suc i) s =
     (let s = init_cycs C me i s in
      if cyc_iaffinity (cycinib_table C i) = ID_PRC me then
        (let s = upd_cyc i (\<lambda>b. b\<lparr>cyc_pcb := me\<rparr>) s in
         if cycatr (cycinib_table C i) AND TA_STA \<noteq> 0 then
           (let s = upd_cyc i (\<lambda>b. b\<lparr>cycsta := True\<rparr>) s
            in tmevtb_enqueue_cyc i (cycphs (cycinib_table C i)) s)
         else upd_cyc i (\<lambda>b. b\<lparr>cycsta := False\<rparr>) s)
      else s)"

definition initialize_cyclic :: "cfg \<Rightarrow> prcix \<Rightarrow> kstate \<Rightarrow> kstate" where
  "initialize_cyclic C me s = init_cycs C me (tnum_cyc C) s"

text \<open>
  \<open>if (cycsta) tmevtb_dequeue(..); else cycsta = true;\<close>, shared by the calls that start a handler.
\<close>

definition cyc_restart :: "nat \<Rightarrow> kstate \<Rightarrow> kstate" where
  "cyc_restart i s =
     (if cycsta (cyc s i) then snd (tmevtb_dequeue (cyc_pcb (cyc s i)) (TM_CYC i) s)
      else upd_cyc i (\<lambda>b. b\<lparr>cycsta := True\<rparr>) s)"

definition sta_cyc :: "cfg \<Rightarrow> prcix \<Rightarrow> ident \<Rightarrow> kstate \<Rightarrow> ercd svc \<times> kstate" where
  "sta_cyc C me cycid s =
     (if \<not> sense_tskctx_unl me s then (Ret E_CTX, s)
      else if \<not> VALID_CYCID C cycid then (Ret E_ID, s)
      else let i = INDEX_OBJ cycid;
               s = cyc_restart i s
           in (Ret E_OK, tmevtb_enqueue_cyc i
                (base_time (tevt_of s (cyc_pcb (cyc s i))) + cycphs (cycinib_table C i)) s))"

definition msta_cyc :: "cfg \<Rightarrow> prcix \<Rightarrow> ident \<Rightarrow> ident \<Rightarrow> kstate \<Rightarrow> ercd svc \<times> kstate" where
  "msta_cyc C me cycid prcid s =
     (if \<not> sense_tskctx_unl me s then (Ret E_CTX, s)
      else if \<not> VALID_CYCID C cycid then (Ret E_ID, s)
      else if \<not> VALID_PRCID_INI C prcid then (Ret E_ID, s)
      else let i = INDEX_OBJ cycid;
               prcid = (if prcid = TPRC_INI then cyc_iaffinity (cycinib_table C i) else prcid)
           in if \<not> VALID_MIG (cyc_affinity_mask (cycinib_table C i)) prcid then (Ret E_PAR, s)
              else let t_p_pcb = INDEX_PRC prcid;
                       s = cyc_restart i s;
                       s = upd_cyc i (\<lambda>b. b\<lparr>cyc_pcb := t_p_pcb\<rparr>) s
                   in (Ret E_OK, tmevtb_enqueue_cyc i
                        (base_time (tevt_of s t_p_pcb) + cycphs (cycinib_table C i)) s))"

definition stp_cyc :: "cfg \<Rightarrow> prcix \<Rightarrow> ident \<Rightarrow> kstate \<Rightarrow> ercd svc \<times> kstate" where
  "stp_cyc C me cycid s =
     (if \<not> sense_tskctx_unl me s then (Ret E_CTX, s)
      else if \<not> VALID_CYCID C cycid then (Ret E_ID, s)
      else let i = INDEX_OBJ cycid in
        if cycsta (cyc s i) then
          (let s = upd_cyc i (\<lambda>b. b\<lparr>cycsta := False\<rparr>) s
           in (Ret E_OK, snd (tmevtb_dequeue (cyc_pcb (cyc s i)) (TM_CYC i) s)))
        else (Ret E_OK, s))"

definition TCYC_STP :: nat where "TCYC_STP = 1"
definition TCYC_STA :: nat where "TCYC_STA = 2"

text \<open>\<open>lefttim\<close> is written for a started handler only.\<close>

record t_rcyc = cycstat :: nat  cyc_lefttim :: "reltim option"  cyc_prcid :: ident

definition ref_cyc :: "cfg \<Rightarrow> prcix \<Rightarrow> ident \<Rightarrow> kstate \<Rightarrow> (ercd \<times> t_rcyc option) \<times> kstate" where
  "ref_cyc C me cycid s =
     (if \<not> sense_tskctx_unl me s then ((E_CTX, None), s)
      else if \<not> VALID_CYCID C cycid then ((E_ID, None), s)
      else let i = INDEX_OBJ cycid; b = cyc s i in
        ((E_OK, Some
           (if cycsta b then
              \<lparr>cycstat = TCYC_STA,
               cyc_lefttim = Some (tmevt_lefttim (TM_CYC i) (tevt_of s (cyc_pcb b)) (tm_index s)),
               cyc_prcid = ID_PRC (cyc_pcb b)\<rparr>
            else \<lparr>cycstat = TCYC_STP, cyc_lefttim = None, cyc_prcid = ID_PRC (cyc_pcb b)\<rparr>)), s))"

definition call_cychdr_1 :: "cfg \<Rightarrow> nat \<Rightarrow> kstate \<Rightarrow> kstate" where
  "call_cychdr_1 C i s = tmevtb_enqueue_cyc i (evttim (cyc s i) + cyctim (cycinib_table C i)) s"

definition call_cychdr_2 :: "prcix \<Rightarrow> kstate \<Rightarrow> kstate" where
  "call_cychdr_2 me s = force_unlock_spin me s"

section \<open>Alarm handlers\<close>

definition alm :: "kstate \<Rightarrow> nat \<Rightarrow> almcb" where "alm s i = almcb_of (objs s) i"

definition upd_alm :: "nat \<Rightarrow> (almcb \<Rightarrow> almcb) \<Rightarrow> kstate \<Rightarrow> kstate" where
  "upd_alm i f s = s\<lparr>objs := (objs s)\<lparr>almcb_of := (almcb_of (objs s))(i := f (almcb_of (objs s) i))\<rparr>\<rparr>"

definition tnum_alm :: "cfg \<Rightarrow> nat" where "tnum_alm C = uint_cast (tmax_almid C - 1 + 1)"

fun init_alms :: "cfg \<Rightarrow> prcix \<Rightarrow> nat \<Rightarrow> kstate \<Rightarrow> kstate" where
  "init_alms C me 0 s = s"
| "init_alms C me (Suc i) s =
     (let s = init_alms C me i s in
      if alm_iaffinity (alminib_table C i) = ID_PRC me then
        upd_alm i (\<lambda>b. b\<lparr>almsta := False, alm_pcb := me\<rparr>) s
      else s)"

definition initialize_alarm :: "cfg \<Rightarrow> prcix \<Rightarrow> kstate \<Rightarrow> kstate" where
  "initialize_alarm C me s = init_alms C me (tnum_alm C) s"

definition alm_restart :: "nat \<Rightarrow> kstate \<Rightarrow> kstate" where
  "alm_restart i s =
     (if almsta (alm s i) then snd (tmevtb_dequeue (alm_pcb (alm s i)) (TM_ALM i) s)
      else upd_alm i (\<lambda>b. b\<lparr>almsta := True\<rparr>) s)"

text \<open>The bodies of \<open>sta_alm\<close> and \<open>ista_alm\<close>, and of \<open>msta_alm\<close> and \<open>imsta_alm\<close>, after the checks.\<close>

definition alm_start :: "nat \<Rightarrow> reltim \<Rightarrow> kstate \<Rightarrow> kstate" where
  "alm_start i almtim s =
     (let s = alm_restart i s
      in tmevtb_enqueue (alm_pcb (alm s i)) (TM_ALM i) almtim CB_call_almhdr s)"

definition alm_start_on :: "nat \<Rightarrow> reltim \<Rightarrow> prcix \<Rightarrow> kstate \<Rightarrow> kstate" where
  "alm_start_on i almtim t_p_pcb s =
     (let s = alm_restart i s;
          s = upd_alm i (\<lambda>b. b\<lparr>alm_pcb := t_p_pcb\<rparr>) s
      in tmevtb_enqueue (alm_pcb (alm s i)) (TM_ALM i) almtim CB_call_almhdr s)"

definition alm_stop :: "nat \<Rightarrow> kstate \<Rightarrow> kstate" where
  "alm_stop i s =
     (if almsta (alm s i) then
        (let s = upd_alm i (\<lambda>b. b\<lparr>almsta := False\<rparr>) s
         in snd (tmevtb_dequeue (alm_pcb (alm s i)) (TM_ALM i) s))
      else s)"

definition alm_prcid :: "cfg \<Rightarrow> nat \<Rightarrow> ident \<Rightarrow> ident" where
  "alm_prcid C i prcid = (if prcid = TPRC_INI then alm_iaffinity (alminib_table C i) else prcid)"

definition sta_alm :: "cfg \<Rightarrow> prcix \<Rightarrow> ident \<Rightarrow> reltim \<Rightarrow> kstate \<Rightarrow> ercd svc \<times> kstate" where
  "sta_alm C me almid almtim s =
     (if \<not> sense_tskctx_unl me s then (Ret E_CTX, s)
      else if \<not> VALID_ALMID C almid then (Ret E_ID, s)
      else if \<not> almtim \<le> TMAX_RELTIM then (Ret E_PAR, s)
      else (Ret E_OK, alm_start (INDEX_OBJ almid) almtim s))"

definition ista_alm :: "cfg \<Rightarrow> prcix \<Rightarrow> ident \<Rightarrow> reltim \<Rightarrow> kstate \<Rightarrow> ercd svc \<times> kstate" where
  "ista_alm C me almid almtim s =
     (if \<not> sense_intctx_unl me s then (Ret E_CTX, s)
      else if \<not> VALID_ALMID C almid then (Ret E_ID, s)
      else if \<not> almtim \<le> TMAX_RELTIM then (Ret E_PAR, s)
      else (Ret E_OK, alm_start (INDEX_OBJ almid) almtim s))"

definition msta_alm :: "cfg \<Rightarrow> prcix \<Rightarrow> ident \<Rightarrow> reltim \<Rightarrow> ident \<Rightarrow> kstate \<Rightarrow> ercd svc \<times> kstate" where
  "msta_alm C me almid almtim prcid s =
     (if \<not> sense_tskctx_unl me s then (Ret E_CTX, s)
      else if \<not> VALID_ALMID C almid then (Ret E_ID, s)
      else if \<not> almtim \<le> TMAX_RELTIM then (Ret E_PAR, s)
      else if \<not> VALID_PRCID_INI C prcid then (Ret E_ID, s)
      else let i = INDEX_OBJ almid; prcid = alm_prcid C i prcid
           in if \<not> VALID_MIG (alm_affinity_mask (alminib_table C i)) prcid then (Ret E_PAR, s)
              else (Ret E_OK, alm_start_on i almtim (INDEX_PRC prcid) s))"

definition imsta_alm :: "cfg \<Rightarrow> prcix \<Rightarrow> ident \<Rightarrow> reltim \<Rightarrow> ident \<Rightarrow> kstate \<Rightarrow> ercd svc \<times> kstate" where
  "imsta_alm C me almid almtim prcid s =
     (if \<not> sense_intctx_unl me s then (Ret E_CTX, s)
      else if \<not> VALID_ALMID C almid then (Ret E_ID, s)
      else if \<not> almtim \<le> TMAX_RELTIM then (Ret E_PAR, s)
      else if \<not> VALID_PRCID_INI C prcid then (Ret E_ID, s)
      else let i = INDEX_OBJ almid; prcid = alm_prcid C i prcid
           in if \<not> VALID_MIG (alm_affinity_mask (alminib_table C i)) prcid then (Ret E_PAR, s)
              else (Ret E_OK, alm_start_on i almtim (INDEX_PRC prcid) s))"

definition stp_alm :: "cfg \<Rightarrow> prcix \<Rightarrow> ident \<Rightarrow> kstate \<Rightarrow> ercd svc \<times> kstate" where
  "stp_alm C me almid s =
     (if \<not> sense_tskctx_unl me s then (Ret E_CTX, s)
      else if \<not> VALID_ALMID C almid then (Ret E_ID, s)
      else (Ret E_OK, alm_stop (INDEX_OBJ almid) s))"

definition istp_alm :: "cfg \<Rightarrow> prcix \<Rightarrow> ident \<Rightarrow> kstate \<Rightarrow> ercd svc \<times> kstate" where
  "istp_alm C me almid s =
     (if \<not> sense_intctx_unl me s then (Ret E_CTX, s)
      else if \<not> VALID_ALMID C almid then (Ret E_ID, s)
      else (Ret E_OK, alm_stop (INDEX_OBJ almid) s))"

definition TALM_STP :: nat where "TALM_STP = 1"
definition TALM_STA :: nat where "TALM_STA = 2"

record t_ralm = almstat :: nat  alm_lefttim :: "reltim option"  alm_prcid_of :: ident

definition ref_alm :: "cfg \<Rightarrow> prcix \<Rightarrow> ident \<Rightarrow> kstate \<Rightarrow> (ercd \<times> t_ralm option) \<times> kstate" where
  "ref_alm C me almid s =
     (if \<not> sense_tskctx_unl me s then ((E_CTX, None), s)
      else if \<not> VALID_ALMID C almid then ((E_ID, None), s)
      else let i = INDEX_OBJ almid; b = alm s i in
        ((E_OK, Some
           (if almsta b then
              \<lparr>almstat = TALM_STA,
               alm_lefttim = Some (tmevt_lefttim (TM_ALM i) (tevt_of s (alm_pcb b)) (tm_index s)),
               alm_prcid_of = ID_PRC (alm_pcb b)\<rparr>
            else \<lparr>almstat = TALM_STP, alm_lefttim = None, alm_prcid_of = ID_PRC (alm_pcb b)\<rparr>)), s))"

definition call_almhdr_1 :: "nat \<Rightarrow> kstate \<Rightarrow> kstate" where
  "call_almhdr_1 i s = upd_alm i (\<lambda>b. b\<lparr>almsta := False\<rparr>) s"

definition call_almhdr_2 :: "prcix \<Rightarrow> kstate \<Rightarrow> kstate" where
  "call_almhdr_2 me s = force_unlock_spin me s"

section \<open>The contract of a timed handler\<close>

text \<open>
  The clause of \<open>hinv\<close> about one block, the invariant of all blocks but one, and the states that
  differ in the control block of that handler only.
\<close>

definition hclause :: "kstate \<Rightarrow> tmevtb \<Rightarrow> bool" where
  "hclause s b = (case b of
     TM_TSK t \<Rightarrow> True
   | TM_CYC i \<Rightarrow> (\<forall>p. TM_CYC i \<in> registered s p \<longleftrightarrow> cycsta (cyc s i) \<and> cyc_pcb (cyc s i) = p) \<and>
       (cycsta (cyc s i) \<longrightarrow> tm_callback s (TM_CYC i) = Some CB_call_cychdr)
   | TM_ALM i \<Rightarrow> (\<forall>p. TM_ALM i \<in> registered s p \<longleftrightarrow> almsta (alm s i) \<and> alm_pcb (alm s i) = p) \<and>
       (almsta (alm s i) \<longrightarrow> tm_callback s (TM_ALM i) = Some CB_call_almhdr))"

lemma hinv_clauses: "hinv s \<longleftrightarrow> (\<forall>b. hclause s b)"
proof
  assume "hinv s"
  then show "\<forall>b. hclause s b" by (simp add: hinv_def hclause_def cyc_def alm_def split: tmevtb.split)
next
  assume "\<forall>b. hclause s b"
  then have "hclause s (TM_CYC i)" "hclause s (TM_ALM i)" for i by blast+
  then show "hinv s" by (simp add: hinv_def hclause_def cyc_def alm_def)
qed

definition hinv_but :: "tmevtb \<Rightarrow> kstate \<Rightarrow> bool" where
  "hinv_but b s \<longleftrightarrow> (\<forall>c. c \<noteq> b \<longrightarrow> hclause s c)"

lemma hinv_but: "hinv s \<longleftrightarrow> hinv_but b s \<and> hclause s b"
  by (auto simp: hinv_clauses hinv_but_def)

definition same_but :: "tmevtb \<Rightarrow> kstate \<Rightarrow> kstate \<Rightarrow> bool" where
  "same_but b s s' \<longleftrightarrow>
     (\<forall>i. TM_CYC i \<noteq> b \<longrightarrow> cyc s' i = cyc s i) \<and> (\<forall>i. TM_ALM i \<noteq> b \<longrightarrow> alm s' i = alm s i) \<and>
     (\<forall>c. c \<noteq> b \<longrightarrow> tm_callback s' c = tm_callback s c)"

lemma hinv_but_frame:
  assumes "hinv_but b s" and "same_but b s s'" and "\<And>c p. c \<noteq> b \<Longrightarrow> c \<in> registered s' p \<longleftrightarrow> c \<in> registered s p"
  shows "hinv_but b s'"
proof -
  have "hclause s' c" if c: "c \<noteq> b" for c
  proof -
    have "hclause s c" using assms(1) c by (simp add: hinv_but_def)
    then show ?thesis
      using assms(2) c assms(3) [OF c] by (cases c) (simp_all add: hclause_def same_but_def)
  qed
  then show ?thesis by (simp add: hinv_but_def)
qed

text \<open>What a step on a handler leaves alone.\<close>

definition timer_frame :: "kstate \<Rightarrow> kstate \<Rightarrow> bool" where
  "timer_frame s s' \<longleftrightarrow> tcb_of s' = tcb_of s \<and> pcb_of s' = pcb_of s \<and> kq s' = kq s \<and> ipi s' = ipi s \<and>
     (objs s')\<lparr>cyccb_of := cyccb_of (objs s), almcb_of := almcb_of (objs s)\<rparr> = objs s"

lemma timer_frame_trans: "timer_frame s s1 \<Longrightarrow> timer_frame s1 s2 \<Longrightarrow> timer_frame s s2"
  by (cases "objs s"; cases "objs s1"; cases "objs s2") (simp add: timer_frame_def)

lemma timer_frame_refl [simp]: "timer_frame s s"
  by (simp add: timer_frame_def)

lemma timer_kinv: "kinv C P Q s \<Longrightarrow> tinv {} s' \<Longrightarrow> timer_frame s s' \<Longrightarrow> kinv C P Q s'"
  using qinv_frame [of "{}" Q s s']
  by (auto simp: kinv_def timer_frame_def dinv_def rinv_def sinv_def)

text \<open>
  The provider of the contract names the block, the callback, whether the handler is started and
  where.  \<open>idle_block\<close>: the block is registered nowhere, and all else is in order.
\<close>

definition idle_block :: "tmevtb \<Rightarrow> kstate \<Rightarrow> bool" where
  "idle_block b s \<longleftrightarrow> tskinv {} s \<and> hinv_but b s \<and> (\<forall>p. b \<notin> registered s p)"

locale timed_handler =
  fixes blk :: "nat \<Rightarrow> tmevtb" and cb :: cback
    and started :: "kstate \<Rightarrow> nat \<Rightarrow> bool" and home :: "kstate \<Rightarrow> nat \<Rightarrow> prcix"
  assumes no_task: "blk i \<noteq> TM_TSK t"
    and clause: "hclause s (blk i) \<longleftrightarrow>
      (\<forall>p. blk i \<in> registered s p \<longleftrightarrow> started s i \<and> home s i = p) \<and>
      (started s i \<longrightarrow> tm_callback s (blk i) = Some cb)"
begin

lemma disarm:
  assumes T: "tinv {} s" and st: "started s i" and eq: "tmevtb_dequeue (home s i) (blk i) s = (l, s')"
  shows "idle_block (blk i) s'" and "timer_frame s s'" and "same_but (blk i) s s'"
proof -
  have c: "hclause s (blk i)" and hb: "hinv_but (blk i) s"
    using tinvD(6) [OF T] hinv_but [of s "blk i"] by auto
  have r: "blk i \<in> registered s (home s i)" using c st by (simp add: clause)
  note D = tskinv_dequeue [OF tinvD(5) [OF T] r eq, where Z = "{}"]
  have k: "tskinv {} s'" by (rule D(1)) (use no_task in auto)
  have rg: "registered s' q = registered s q - {blk i}" for q by (rule D(2)) (use no_task in auto)
  have "s' = s\<lparr>tevt_of := tevt_of s', tm_index := tm_index s'\<rparr>" by (rule D(3)) (use no_task in auto)
  then obtain te ix where s': "s' = s\<lparr>tevt_of := te, tm_index := ix\<rparr>" by blast
  show fr: "timer_frame s s'" using timer_frame_refl [of s] by (simp add: timer_frame_def s')
  show sb: "same_but (blk i) s s'" by (simp add: same_but_def cyc_def alm_def s')
  have "hinv_but (blk i) s'" by (rule hinv_but_frame [OF hb sb]) (simp add: rg)
  then show "idle_block (blk i) s'" using k rg by (simp add: idle_block_def)
qed

lemma stopped_idle:
  assumes T: "tinv {} s" and "\<not> started s i"
  shows "idle_block (blk i) s"
  using assms hinv_but [of s "blk i"] clause [of s i] by (auto simp: tinv_def idle_block_def)

lemma arm:
  assumes I: "idle_block (blk i) s" and eq: "s1 = tmevtb_enqueue_evttim p (blk i) tm cb s"
    and f: "timer_frame s1 s2" "same_but (blk i) s1 s2" "tevt_of s2 = tevt_of s1" "tm_index s2 = tm_index s1"
      "tm_callback s2 = tm_callback s1"
    and st: "started s2 i" "home s2 i = p"
  shows "tinv {} s2" and "timer_frame s s2"
proof -
  obtain te ix where 1: "tmevtb_insert (blk i) tm (tevt_of s p, tm_index s) = (te, ix)" by fastforce
  let ?cbs = "(tm_callback s)(blk i := Some cb)"
  have s1: "s1 = s\<lparr>tevt_of := (tevt_of s)(p := te), tm_index := ix, tm_callback := ?cbs\<rparr>"
    using eq 1 by (simp add: tmevtb_enqueue_evttim_def Let_def)
  have k: "tskinv {} s" "hinv_but (blk i) s" "\<And>q. blk i \<notin> registered s q" using I by (auto simp: idle_block_def)
  note E = tskinv_enqueue [OF k(1,3) 1 s1, where Z = "{}"]
  have t1: "tskinv {} s1" by (rule E(1)) (use no_task in auto)
  have r1: "registered s1 q = (if q = p then insert (blk i) (registered s p) else registered s q)" for q
    by (rule E(2)) (use no_task in auto)
  have sb: "same_but (blk i) s s1" by (simp add: same_but_def cyc_def alm_def s1)
  have h1: "hinv_but (blk i) s1" by (rule hinv_but_frame [OF k(2) sb]) (simp add: r1)
  have r2: "registered s2 = registered s1" by (simp add: fun_eq_iff registered_def f(3))
  have h2: "hinv_but (blk i) s2" by (rule hinv_but_frame [OF h1 f(2)]) (simp add: r2)
  have "tm_callback s2 (blk i) = Some cb" by (simp add: f(5) s1)
  then have "hclause s2 (blk i)" using st k(3) by (auto simp: clause r2 r1)
  then have "hinv s2" using h2 hinv_but by blast
  moreover have "tm_place s2 = tm_place s1" "cb_ok s2 = cb_ok s1"
    using f(1,5) by (auto simp: fun_eq_iff timer_frame_def tm_place_def cb_ok_def)
  then have "tskinv {} s2" using t1 by (simp add: tskinv_def r2 f(3,4))
  ultimately show "tinv {} s2" by (simp add: tinv_def)
  have "timer_frame s s1" using timer_frame_refl [of s] by (simp add: timer_frame_def s1)
  then show "timer_frame s s2" by (rule timer_frame_trans [OF _ f(1)])
qed

text \<open>A block that is registered nowhere stays in order when the handler is off.\<close>

lemma off:
  assumes I: "idle_block (blk i) s" and f: "timer_frame s s'" "same_but (blk i) s s'" "tevt_of s' = tevt_of s"
      "tm_index s' = tm_index s" "tm_callback s' = tm_callback s"
    and st: "\<not> started s' i"
  shows "tinv {} s'"
proof -
  have k: "tskinv {} s" "hinv_but (blk i) s" "\<And>q. blk i \<notin> registered s q" using I by (auto simp: idle_block_def)
  have r: "registered s' = registered s" by (simp add: fun_eq_iff registered_def f(3))
  have "hinv_but (blk i) s'" by (rule hinv_but_frame [OF k(2) f(2)]) (simp add: r)
  moreover have "hclause s' (blk i)" using st k(3) by (simp add: clause r)
  ultimately have "hinv s'" using hinv_but by blast
  moreover have "tm_place s' = tm_place s" "cb_ok s' = cb_ok s"
    using f(1,5) by (auto simp: fun_eq_iff timer_frame_def tm_place_def cb_ok_def)
  then have "tskinv {} s'" using k(1) by (simp add: tskinv_def r f(3,4))
  ultimately show ?thesis by (simp add: tinv_def)
qed

lemma idle_frame:
  assumes I: "idle_block (blk i) s" and f: "timer_frame s s'" "same_but (blk i) s s'" "tevt_of s' = tevt_of s"
      "tm_index s' = tm_index s" "tm_callback s' = tm_callback s"
  shows "idle_block (blk i) s'"
proof -
  have k: "tskinv {} s" "hinv_but (blk i) s" "\<And>q. blk i \<notin> registered s q" using I by (auto simp: idle_block_def)
  have r: "registered s' = registered s" by (simp add: fun_eq_iff registered_def f(3))
  have "hinv_but (blk i) s'" by (rule hinv_but_frame [OF k(2) f(2)]) (simp add: r)
  moreover have "tm_place s' = tm_place s" "cb_ok s' = cb_ok s"
    using f(1,5) by (auto simp: fun_eq_iff timer_frame_def tm_place_def cb_ok_def)
  then have "tskinv {} s'" using k(1) by (simp add: tskinv_def r f(3,4))
  ultimately show ?thesis using k(3) by (simp add: idle_block_def r)
qed

end

interpretation cych: timed_handler TM_CYC CB_call_cychdr "\<lambda>s i. cycsta (cyc s i)" "\<lambda>s i. cyc_pcb (cyc s i)"
  by unfold_locales (simp_all add: hclause_def)

interpretation almh: timed_handler TM_ALM CB_call_almhdr "\<lambda>s i. almsta (alm s i)" "\<lambda>s i. alm_pcb (alm s i)"
  by unfold_locales (simp_all add: hclause_def)

section \<open>The events after a start or a stop\<close>

text \<open>
  \<open>rescheduled b r s s'\<close>: the event of the block \<open>b\<close> is the one \<open>r\<close> says, and no other event and
  no clock has changed.
\<close>

definition rescheduled :: "tmevtb \<Rightarrow> (prcix \<times> evttim) option \<Rightarrow> kstate \<Rightarrow> kstate \<Rightarrow> bool" where
  "rescheduled b r s s' \<longleftrightarrow> (\<forall>q. same_times (tevt_of s q) (tevt_of s' q) \<and>
     evset (tevt_of s' q) = {x \<in> evset (tevt_of s q). fst x \<noteq> b} \<union>
       (case r of None \<Rightarrow> {} | Some (p, tm) \<Rightarrow> if q = p then {(b, tm)} else {}))"

lemma same_times_refl [simp]: "same_times te te"
  by (simp add: same_times_def)

lemma same_times_trans: "same_times a b \<Longrightarrow> same_times b c \<Longrightarrow> same_times a c"
  by (simp add: same_times_def)

lemma base_time_same: "same_times te te' \<Longrightarrow> base_time te' = base_time te"
  by (simp add: same_times_def base_time_def)

lemma rescheduled_none: "(\<And>q. b \<notin> registered s q) \<Longrightarrow> tevt_of s' = tevt_of s \<Longrightarrow> rescheduled b None s s'"
  by (force simp: rescheduled_def registered_def)

lemma rescheduled_trans:
  assumes "rescheduled b None s s1" and "rescheduled b r s1 s2"
  shows "rescheduled b r s s2"
proof -
  have *: "same_times (tevt_of s q) (tevt_of s1 q)" "same_times (tevt_of s1 q) (tevt_of s2 q)" for q
    using assms by (auto simp: rescheduled_def)
  have 1: "evset (tevt_of s1 q) = {x \<in> evset (tevt_of s q). fst x \<noteq> b}" for q
    using assms(1) by (simp add: rescheduled_def)
  have 2: "{x \<in> evset (tevt_of s1 q). fst x \<noteq> b} = {x \<in> evset (tevt_of s q). fst x \<noteq> b}" for q
    by (auto simp: 1)
  show ?thesis
    using assms(2) same_times_trans [OF *] by (simp add: rescheduled_def 2)
qed

lemma rescheduled_cong: "rescheduled b r s s1 \<Longrightarrow> tevt_of s' = tevt_of s1 \<Longrightarrow> rescheduled b r s s'"
  by (simp add: rescheduled_def)

lemma rescheduled_other:
  assumes "rescheduled b r s s'" and "c \<noteq> b"
  shows "(c, t) \<in> evset (tevt_of s' q) \<longleftrightarrow> (c, t) \<in> evset (tevt_of s q)"
  using assms by (cases r) (auto simp: rescheduled_def split: if_splits)

lemma removed_events:
  assumes T: "tskinv Y s" and t: "(b, t) \<in> evset (tevt_of s p)"
    and D: "evset te = evset (tevt_of s p) - {(b, t)}" "same_times (tevt_of s p) te"
    and s': "tevt_of s' = (tevt_of s)(p := te)"
  shows "rescheduled b None s s'"
proof -
  have b: "b \<in> registered s p" using t by (force simp: registered_def)
  have u: "t' = t" if "(b, t') \<in> evset (tevt_of s p)" for t'
    using heap_inv_evset [OF tskinvD(1) [OF T, of p], of b t]
      heap_inv_evset [OF tskinvD(1) [OF T, of p], of b t'] that t by simp
  have u': "x = (b, t)" if "x \<in> evset (tevt_of s p)" "fst x = b" for x using u that by (cases x) simp
  moreover have "fst (b, t) = b" by simp
  ultimately have e: "evset te = {x \<in> evset (tevt_of s p). fst x \<noteq> b}" using u' D(1) by blast
  have n: "fst x \<noteq> b" if "q \<noteq> p" "x \<in> evset (tevt_of s q)" for q x
  proof -
    have "b \<notin> fst ` evset (tevt_of s q)"
      using tskinvD(2) [OF T that(1)] b unfolding registered_def by blast
    then show ?thesis using that(2) by blast
  qed
  have "evset (tevt_of s' q) = {x \<in> evset (tevt_of s q). fst x \<noteq> b}" for q
  proof (cases "q = p")
    case False
    then have "{x \<in> evset (tevt_of s q). fst x \<noteq> b} = evset (tevt_of s q)" using n by blast
    then show ?thesis using False by (simp add: s')
  qed (simp add: e s')
  then show ?thesis using D(2) by (simp add: rescheduled_def s')
qed

lemma dequeue_events:
  assumes T: "tskinv Y s" and b: "b \<in> registered s p" and eq: "tmevtb_dequeue p b s = (l, s')"
  shows "rescheduled b None s s'"
proof -
  obtain t where t: "(b, t) \<in> evset (tevt_of s p)" using b by (auto simp: registered_def)
  obtain l' te ix where d: "tmevtb_delete b (tevt_of s p, tm_index s) = (l', te, ix)" by (metis prod_cases3)
  note D = tmevtb_delete_correct [OF tskinvD(1) [OF T] t d]
  have s': "tevt_of s' = (tevt_of s)(p := te)" using eq d by (auto simp: tmevtb_dequeue_def)
  show ?thesis by (rule removed_events [OF T t _ _ s']) (use D in simp_all)
qed

lemma enqueue_events:
  assumes T: "tskinv Y s" and b: "\<And>q. b \<notin> registered s q" and s': "s' = tmevtb_enqueue_evttim p b tm cb s"
  shows "rescheduled b (Some (p, tm)) s s'"
proof -
  obtain te ix where d: "tmevtb_insert b tm (tevt_of s p, tm_index s) = (te, ix)" by fastforce
  note D = tmevtb_insert_correct [OF tskinvD(1) [OF T] b [unfolded registered_def] d]
  have t': "tevt_of s' = (tevt_of s)(p := te)" using d by (simp add: s' tmevtb_enqueue_evttim_def Let_def)
  have "x \<notin> evset (tevt_of s q)" if "fst x = b" for q x using b [of q] that by (auto simp: registered_def)
  then have "{x \<in> evset (tevt_of s q). fst x \<noteq> b} = evset (tevt_of s q)" for q by blast
  then show ?thesis using D by (simp add: rescheduled_def t')
qed

lemma enqueue_evttim: "tmevtb_enqueue p b tm cb s = tmevtb_enqueue_evttim p b (base_time (tevt_of s p) + tm) cb s"
  by (simp add: tmevtb_enqueue_def tmevtb_enqueue_evttim_def Let_def)

lemma enqueue_sel [simp]:
  "objs (tmevtb_enqueue_evttim p b tm cb s) = objs s" "tcb_of (tmevtb_enqueue_evttim p b tm cb s) = tcb_of s"
  "tm_callback (tmevtb_enqueue_evttim p b tm cb s) = (tm_callback s)(b := Some cb)"
  by (simp_all add: tmevtb_enqueue_evttim_def Let_def split: prod.split)

lemma dequeue_sel [simp]:
  "objs (snd (tmevtb_dequeue p b s)) = objs s" "tcb_of (snd (tmevtb_dequeue p b s)) = tcb_of s"
  "tm_callback (snd (tmevtb_dequeue p b s)) = tm_callback s"
  by (simp_all add: tmevtb_dequeue_def split: prod.split)

lemma upd_cyc_sel [simp]:
  "cyc (upd_cyc i f s) j = (if j = i then f (cyc s i) else cyc s j)" "alm (upd_cyc i f s) j = alm s j"
  "tevt_of (upd_cyc i f s) = tevt_of s" "tm_index (upd_cyc i f s) = tm_index s"
  "tm_callback (upd_cyc i f s) = tm_callback s" "tcb_of (upd_cyc i f s) = tcb_of s"
  "pcb_of (upd_cyc i f s) = pcb_of s"
  by (simp_all add: upd_cyc_def cyc_def alm_def)

lemma upd_alm_sel [simp]:
  "alm (upd_alm i f s) j = (if j = i then f (alm s i) else alm s j)" "cyc (upd_alm i f s) j = cyc s j"
  "tevt_of (upd_alm i f s) = tevt_of s" "tm_index (upd_alm i f s) = tm_index s"
  "tm_callback (upd_alm i f s) = tm_callback s" "tcb_of (upd_alm i f s) = tcb_of s"
  "pcb_of (upd_alm i f s) = pcb_of s"
  by (simp_all add: upd_alm_def cyc_def alm_def)

lemma upd_handler_frame:
  "timer_frame s (upd_cyc i f s)" "same_but (TM_CYC i) s (upd_cyc i f s)"
  "timer_frame s (upd_alm i g s)" "same_but (TM_ALM i) s (upd_alm i g s)"
  by (simp_all add: timer_frame_def same_but_def) (simp_all add: upd_cyc_def upd_alm_def)

lemma dequeue_upd_cyc: "snd (tmevtb_dequeue p b (upd_cyc i f s)) = upd_cyc i f (snd (tmevtb_dequeue p b s))"
  by (simp add: tmevtb_dequeue_def upd_cyc_def split: prod.split)

lemma dequeue_upd_alm: "snd (tmevtb_dequeue p b (upd_alm i f s)) = upd_alm i f (snd (tmevtb_dequeue p b s))"
  by (simp add: tmevtb_dequeue_def upd_alm_def split: prod.split)

section \<open>Starting and stopping a handler\<close>

lemma idle_events:
  assumes "idle_block b s" and "s' = tmevtb_enqueue_evttim p b tm cb s"
  shows "rescheduled b (Some (p, tm)) s s'"
  using assms enqueue_events [of "{}" s b s' p tm cb] by (simp add: idle_block_def)

lemma cyc_restart_idle:
  assumes T: "tinv {} s"
  shows "idle_block (TM_CYC i) (cyc_restart i s)" and "timer_frame s (cyc_restart i s)"
    and "rescheduled (TM_CYC i) None s (cyc_restart i s)"
    and "cycsta (cyc (cyc_restart i s) i)" and "cyc_pcb (cyc (cyc_restart i s) i) = cyc_pcb (cyc s i)"
proof -
  have "idle_block (TM_CYC i) (cyc_restart i s) \<and> timer_frame s (cyc_restart i s) \<and>
    rescheduled (TM_CYC i) None s (cyc_restart i s)"
  proof (cases "cycsta (cyc s i)")
    case True
    obtain l s1 where d: "tmevtb_dequeue (cyc_pcb (cyc s i)) (TM_CYC i) s = (l, s1)" by fastforce
    have "TM_CYC i \<in> registered s (cyc_pcb (cyc s i))"
      using tinvD(6) [OF T] True by (simp add: hinv_def cyc_def)
    from dequeue_events [OF tinvD(5) [OF T] this d] cych.disarm [OF T True d] show ?thesis
      using True d by (simp add: cyc_restart_def)
  next
    case False
    note I = cych.stopped_idle [OF T False]
    let ?s = "upd_cyc i (\<lambda>b. b\<lparr>cycsta := True\<rparr>) s"
    have "idle_block (TM_CYC i) ?s" by (rule cych.idle_frame [OF I upd_handler_frame(1,2)]) simp_all
    moreover have "rescheduled (TM_CYC i) None s ?s"
      by (rule rescheduled_none) (use I in \<open>auto simp: idle_block_def\<close>)
    ultimately show ?thesis using False by (simp add: cyc_restart_def upd_handler_frame(1))
  qed
  then show "idle_block (TM_CYC i) (cyc_restart i s)" "timer_frame s (cyc_restart i s)"
    "rescheduled (TM_CYC i) None s (cyc_restart i s)" by simp_all
  show "cycsta (cyc (cyc_restart i s) i)" "cyc_pcb (cyc (cyc_restart i s) i) = cyc_pcb (cyc s i)"
    by (simp_all add: cyc_restart_def) (simp_all add: cyc_def)
qed

lemma alm_restart_idle:
  assumes T: "tinv {} s"
  shows "idle_block (TM_ALM i) (alm_restart i s)" and "timer_frame s (alm_restart i s)"
    and "rescheduled (TM_ALM i) None s (alm_restart i s)"
    and "almsta (alm (alm_restart i s) i)" and "alm_pcb (alm (alm_restart i s) i) = alm_pcb (alm s i)"
proof -
  have "idle_block (TM_ALM i) (alm_restart i s) \<and> timer_frame s (alm_restart i s) \<and>
    rescheduled (TM_ALM i) None s (alm_restart i s)"
  proof (cases "almsta (alm s i)")
    case True
    obtain l s1 where d: "tmevtb_dequeue (alm_pcb (alm s i)) (TM_ALM i) s = (l, s1)" by fastforce
    have "TM_ALM i \<in> registered s (alm_pcb (alm s i))"
      using tinvD(6) [OF T] True by (simp add: hinv_def alm_def)
    from dequeue_events [OF tinvD(5) [OF T] this d] almh.disarm [OF T True d] show ?thesis
      using True d by (simp add: alm_restart_def)
  next
    case False
    note I = almh.stopped_idle [OF T False]
    let ?s = "upd_alm i (\<lambda>b. b\<lparr>almsta := True\<rparr>) s"
    have "idle_block (TM_ALM i) ?s" by (rule almh.idle_frame [OF I upd_handler_frame(3,4)]) simp_all
    moreover have "rescheduled (TM_ALM i) None s ?s"
      by (rule rescheduled_none) (use I in \<open>auto simp: idle_block_def\<close>)
    ultimately show ?thesis using False by (simp add: alm_restart_def upd_handler_frame(3))
  qed
  then show "idle_block (TM_ALM i) (alm_restart i s)" "timer_frame s (alm_restart i s)"
    "rescheduled (TM_ALM i) None s (alm_restart i s)" by simp_all
  show "almsta (alm (alm_restart i s) i)" "alm_pcb (alm (alm_restart i s) i) = alm_pcb (alm s i)"
    by (simp_all add: alm_restart_def) (simp_all add: alm_def)
qed

lemma cyc_arm:
  assumes I: "idle_block (TM_CYC i) s" and on: "cycsta (cyc s i)" and s': "s' = tmevtb_enqueue_cyc i tm s"
  shows "tinv {} s'" and "timer_frame s s'" and "rescheduled (TM_CYC i) (Some (cyc_pcb (cyc s i), tm)) s s'"
    and "cyc s' i = (cyc s i)\<lparr>evttim := tm\<rparr>"
proof -
  let ?s1 = "tmevtb_enqueue_evttim (cyc_pcb (cyc s i)) (TM_CYC i) tm CB_call_cychdr s"
  have e: "s' = upd_cyc i (\<lambda>b. b\<lparr>evttim := tm\<rparr>) ?s1" by (simp add: s' tmevtb_enqueue_cyc_def)
  have c: "cyc ?s1 i = cyc s i" by (simp add: cyc_def)
  show "cyc s' i = (cyc s i)\<lparr>evttim := tm\<rparr>" by (simp add: e c)
  note A = cych.arm [OF I refl, where ?s2.0 = s' and p = "cyc_pcb (cyc s i)" and tm = tm]
  show "tinv {} s'" by (rule A(1)) (simp_all add: e upd_handler_frame c on)
  show "timer_frame s s'" by (rule A(2)) (simp_all add: e upd_handler_frame c on)
  show "rescheduled (TM_CYC i) (Some (cyc_pcb (cyc s i), tm)) s s'"
    by (rule rescheduled_cong [OF idle_events [OF I refl, where cb = CB_call_cychdr]]) (simp add: e)
qed

lemma alm_arm:
  assumes I: "idle_block (TM_ALM i) s" and on: "almsta (alm s i)"
    and s': "s' = tmevtb_enqueue (alm_pcb (alm s i)) (TM_ALM i) tm CB_call_almhdr s"
  shows "tinv {} s'" and "timer_frame s s'" and "alm s' i = alm s i"
    and "rescheduled (TM_ALM i) (Some (alm_pcb (alm s i), base_time (tevt_of s (alm_pcb (alm s i))) + tm)) s s'"
proof -
  have c: "alm s' i = alm s i" by (simp add: s' alm_def enqueue_evttim)
  then show "alm s' i = alm s i" .
  note A = almh.arm [OF I s' [unfolded enqueue_evttim] _ _ refl refl refl]
  show "tinv {} s'" by (rule A(1)) (simp_all add: same_but_def c on)
  show "timer_frame s s'" by (rule A(2)) (simp_all add: same_but_def c on)
  show "rescheduled (TM_ALM i) (Some (alm_pcb (alm s i), base_time (tevt_of s (alm_pcb (alm s i))) + tm)) s s'"
    by (rule idle_events [OF I s' [unfolded enqueue_evttim]])
qed

section \<open>The service calls\<close>

text \<open>\<open>handler_step\<close>: the kernel invariant holds afterwards, and only the event of \<open>b\<close> is changed.\<close>

definition handler_step ::
  "cfg \<Rightarrow> prcix set \<Rightarrow> (qhdr \<Rightarrow> tskix list) \<Rightarrow> tmevtb \<Rightarrow> (prcix \<times> evttim) option \<Rightarrow> kstate \<Rightarrow> kstate \<Rightarrow> bool" where
  "handler_step C P Q b r s s' \<longleftrightarrow> kinv C P Q s' \<and> timer_frame s s' \<and> rescheduled b r s s'"

lemma handler_stepI:
  assumes K: "kinv C P Q s" and 1: "timer_frame s s1" "rescheduled b None s s1"
    and 2: "tinv {} s2" "timer_frame s1 s2" "rescheduled b r s1 s2"
  shows "handler_step C P Q b r s s2"
  using timer_kinv [OF K 2(1) timer_frame_trans [OF 1(1) 2(2)]] timer_frame_trans [OF 1(1) 2(2)]
    rescheduled_trans [OF 1(2) 2(3)] by (simp add: handler_step_def)

lemma cyc_start_on:
  assumes K: "kinv C P Q s" and s1: "s1 = cyc_restart i s"
    and s2: "s2 = s1 \<or> s2 = upd_cyc i (\<lambda>b. b\<lparr>cyc_pcb := p\<rparr>) s1" and p: "cyc_pcb (cyc s2 i) = p"
  shows "handler_step C P Q (TM_CYC i) (Some (p, tm)) s (tmevtb_enqueue_cyc i tm s2) \<and>
    base_time (tevt_of s2 q) = base_time (tevt_of s q) \<and> cycsta (cyc (tmevtb_enqueue_cyc i tm s2) i) \<and>
    cyc_pcb (cyc (tmevtb_enqueue_cyc i tm s2) i) = p \<and> evttim (cyc (tmevtb_enqueue_cyc i tm s2) i) = tm"
proof -
  note R = cyc_restart_idle [OF kinvD(2) [OF K], of i, folded s1]
  have F: "timer_frame s1 s2" "tevt_of s2 = tevt_of s1" "cycsta (cyc s2 i)"
    using s2 R(4) upd_handler_frame(1) [of s1 i "\<lambda>b. b\<lparr>cyc_pcb := p\<rparr>"] by auto
  have "idle_block (TM_CYC i) (upd_cyc i (\<lambda>b. b\<lparr>cyc_pcb := p\<rparr>) s1)"
    by (rule cych.idle_frame [OF R(1) upd_handler_frame(1,2)]) simp_all
  then have I: "idle_block (TM_CYC i) s2" using s2 R(1) by auto
  note A = cyc_arm [OF I F(3) refl, of tm]
  have "rescheduled (TM_CYC i) None s s2" by (rule rescheduled_cong [OF R(3) F(2)])
  from handler_stepI [OF K timer_frame_trans [OF R(2) F(1)] this A(1,2) A(3)]
  have "handler_step C P Q (TM_CYC i) (Some (p, tm)) s (tmevtb_enqueue_cyc i tm s2)" by (simp add: p)
  moreover have "same_times (tevt_of s q) (tevt_of s2 q)" using R(3) F(2) by (simp add: rescheduled_def)
  ultimately show ?thesis using A(4) F(3) p by (simp add: base_time_same)
qed

lemma alm_start_step:
  assumes K: "kinv C P Q s" and s1: "s1 = alm_restart i s"
    and s2: "s2 = s1 \<or> s2 = upd_alm i (\<lambda>b. b\<lparr>alm_pcb := p\<rparr>) s1" and p: "alm_pcb (alm s2 i) = p"
    and s3: "s3 = tmevtb_enqueue (alm_pcb (alm s2 i)) (TM_ALM i) tm CB_call_almhdr s2"
  shows "handler_step C P Q (TM_ALM i) (Some (p, base_time (tevt_of s p) + tm)) s s3 \<and>
    almsta (alm s3 i) \<and> alm_pcb (alm s3 i) = p"
proof -
  note R = alm_restart_idle [OF kinvD(2) [OF K], of i, folded s1]
  have F: "timer_frame s1 s2" "tevt_of s2 = tevt_of s1" "almsta (alm s2 i)"
    using s2 R(4) upd_handler_frame(3) [of s1 i "\<lambda>b. b\<lparr>alm_pcb := p\<rparr>"] by auto
  have "idle_block (TM_ALM i) (upd_alm i (\<lambda>b. b\<lparr>alm_pcb := p\<rparr>) s1)"
    by (rule almh.idle_frame [OF R(1) upd_handler_frame(3,4)]) simp_all
  then have I: "idle_block (TM_ALM i) s2" using s2 R(1) by auto
  note A = alm_arm [OF I F(3) s3]
  have "rescheduled (TM_ALM i) None s s2" by (rule rescheduled_cong [OF R(3) F(2)])
  note H = handler_stepI [OF K timer_frame_trans [OF R(2) F(1)] this A(1,2) A(4)]
  have "same_times (tevt_of s p) (tevt_of s2 p)" using R(3) F(2) by (simp add: rescheduled_def)
  then show ?thesis using H A(3) F(3) p by (simp add: base_time_same)
qed

lemma cyc_stop_step:
  assumes K: "kinv C P Q s" and on: "cycsta (cyc s i)"
    and s': "s' = snd (tmevtb_dequeue (cyc_pcb (cyc s i)) (TM_CYC i) (upd_cyc i (\<lambda>b. b\<lparr>cycsta := False\<rparr>) s))"
  shows "handler_step C P Q (TM_CYC i) None s s' \<and> \<not> cycsta (cyc s' i)"
proof -
  obtain l s1 where d: "tmevtb_dequeue (cyc_pcb (cyc s i)) (TM_CYC i) s = (l, s1)" by fastforce
  have s1: "s' = upd_cyc i (\<lambda>b. b\<lparr>cycsta := False\<rparr>) s1" using d by (simp add: s' dequeue_upd_cyc)
  have r: "TM_CYC i \<in> registered s (cyc_pcb (cyc s i))"
    using tinvD(6) [OF kinvD(2) [OF K]] on by (simp add: hinv_def cyc_def)
  note D = cych.disarm [OF kinvD(2) [OF K] on d] dequeue_events [OF tinvD(5) [OF kinvD(2) [OF K]] r d]
  have "tinv {} s'" by (rule cych.off [OF D(1)]) (simp_all add: s1 upd_handler_frame)
  from timer_kinv [OF K this] timer_frame_trans [OF D(2) upd_handler_frame(1)] rescheduled_cong [OF D(4)]
  show ?thesis by (simp add: handler_step_def s1)
qed

lemma alm_stop_step:
  assumes K: "kinv C P Q s" and on: "almsta (alm s i)"
  shows "handler_step C P Q (TM_ALM i) None s (alm_stop i s) \<and> \<not> almsta (alm (alm_stop i s) i)"
proof -
  obtain l s1 where d: "tmevtb_dequeue (alm_pcb (alm s i)) (TM_ALM i) s = (l, s1)" by fastforce
  have s1: "alm_stop i s = upd_alm i (\<lambda>b. b\<lparr>almsta := False\<rparr>) s1"
    using d on by (simp add: alm_stop_def dequeue_upd_alm)
  have r: "TM_ALM i \<in> registered s (alm_pcb (alm s i))"
    using tinvD(6) [OF kinvD(2) [OF K]] on by (simp add: hinv_def alm_def)
  note D = almh.disarm [OF kinvD(2) [OF K] on d] dequeue_events [OF tinvD(5) [OF kinvD(2) [OF K]] r d]
  have "tinv {} (alm_stop i s)" by (rule almh.off [OF D(1)]) (simp_all add: s1 upd_handler_frame)
  from timer_kinv [OF K this] timer_frame_trans [OF D(2) upd_handler_frame(3)] rescheduled_cong [OF D(4)]
  show ?thesis by (simp add: handler_step_def s1)
qed

lemma sta_cyc_spec:
  assumes K: "kinv C P Q s" and eq: "sta_cyc C me cycid s = (r, s')"
  defines "i \<equiv> INDEX_OBJ cycid" and "p \<equiv> cyc_pcb (cyc s (INDEX_OBJ cycid))"
  defines "tm \<equiv> base_time (tevt_of s p) + cycphs (cycinib_table C i)"
  shows "if sense_tskctx_unl me s \<and> VALID_CYCID C cycid
    then r = Ret E_OK \<and> handler_step C P Q (TM_CYC i) (Some (p, tm)) s s' \<and>
      cycsta (cyc s' i) \<and> cyc_pcb (cyc s' i) = p \<and> evttim (cyc s' i) = tm
    else r \<in> {Ret E_CTX, Ret E_ID} \<and> s' = s"
proof (cases "sense_tskctx_unl me s \<and> VALID_CYCID C cycid")
  case True
  let ?s1 = "cyc_restart i s"
  have p: "cyc_pcb (cyc ?s1 i) = p"
    using cyc_restart_idle(5) [OF kinvD(2) [OF K]] by (simp add: i_def p_def)
  note S = cyc_start_on [OF K refl disjI1 [OF refl] p]
  have "s' = tmevtb_enqueue_cyc i tm ?s1" "r = Ret E_OK"
    using eq True S by (auto simp: sta_cyc_def Let_def p tm_def simp flip: i_def)
  then show ?thesis using S [of tm] True by simp
qed (use eq in \<open>auto simp: sta_cyc_def split: if_splits\<close>)

definition cyc_target :: "cfg \<Rightarrow> ident \<Rightarrow> ident \<Rightarrow> ident" where
  "cyc_target C cycid prcid =
     (if prcid = TPRC_INI then cyc_iaffinity (cycinib_table C (INDEX_OBJ cycid)) else prcid)"

lemma msta_cyc_spec:
  assumes K: "kinv C P Q s" and eq: "msta_cyc C me cycid prcid s = (r, s')"
  defines "i \<equiv> INDEX_OBJ cycid" and "p \<equiv> INDEX_PRC (cyc_target C cycid prcid)"
  defines "tm \<equiv> base_time (tevt_of s p) + cycphs (cycinib_table C i)"
  shows "if sense_tskctx_unl me s \<and> VALID_CYCID C cycid \<and> VALID_PRCID_INI C prcid \<and>
      VALID_MIG (cyc_affinity_mask (cycinib_table C i)) (cyc_target C cycid prcid)
    then r = Ret E_OK \<and> handler_step C P Q (TM_CYC i) (Some (p, tm)) s s' \<and>
      cycsta (cyc s' i) \<and> cyc_pcb (cyc s' i) = p \<and> evttim (cyc s' i) = tm
    else r \<in> {Ret E_CTX, Ret E_ID, Ret E_PAR} \<and> s' = s"
proof (cases "sense_tskctx_unl me s \<and> VALID_CYCID C cycid \<and> VALID_PRCID_INI C prcid \<and>
      VALID_MIG (cyc_affinity_mask (cycinib_table C i)) (cyc_target C cycid prcid)")
  case True
  let ?s2 = "upd_cyc i (\<lambda>b. b\<lparr>cyc_pcb := p\<rparr>) (cyc_restart i s)"
  have p: "cyc_pcb (cyc ?s2 i) = p" by simp
  note S = cyc_start_on [OF K refl disjI2 [OF refl] p]
  have t: "(if prcid = TPRC_INI then cyc_iaffinity (cycinib_table C i) else prcid) = cyc_target C cycid prcid"
    by (simp add: cyc_target_def i_def)
  have b: "base_time (tevt_of (cyc_restart i s) p) = base_time (tevt_of s p)" using S [of 0 p] by simp
  have "msta_cyc C me cycid prcid s = (Ret E_OK, tmevtb_enqueue_cyc i tm ?s2)"
    using True by (simp add: msta_cyc_def Let_def t b tm_def flip: i_def p_def)
  then have "s' = tmevtb_enqueue_cyc i tm ?s2" "r = Ret E_OK" using eq by auto
  then show ?thesis using S [of tm] True by simp
qed (use eq in \<open>auto simp: msta_cyc_def Let_def cyc_target_def i_def split: if_splits\<close>)

lemma stp_cyc_spec:
  assumes K: "kinv C P Q s" and eq: "stp_cyc C me cycid s = (r, s')"
  defines "i \<equiv> INDEX_OBJ cycid"
  shows "if sense_tskctx_unl me s \<and> VALID_CYCID C cycid
    then r = Ret E_OK \<and> handler_step C P Q (TM_CYC i) None s s' \<and> \<not> cycsta (cyc s' i)
    else r \<in> {Ret E_CTX, Ret E_ID} \<and> s' = s"
proof (cases "sense_tskctx_unl me s \<and> VALID_CYCID C cycid \<and> cycsta (cyc s i)")
  case True
  then have st: "s' = snd (tmevtb_dequeue (cyc_pcb (cyc s i)) (TM_CYC i) (upd_cyc i (\<lambda>b. b\<lparr>cycsta := False\<rparr>) s))"
    "r = Ret E_OK" using eq by (auto simp: stp_cyc_def Let_def simp flip: i_def)
  then show ?thesis using cyc_stop_step [OF K _ st(1)] True st(2) by simp
next
  case False
  have off: "handler_step C P Q (TM_CYC i) None s s" if "\<not> cycsta (cyc s i)"
    using that K tinvD(6) [OF kinvD(2) [OF K]] rescheduled_none [of "TM_CYC i" s s]
    by (simp add: handler_step_def hinv_def cyc_def)
  show ?thesis using False eq off
    by (auto simp: stp_cyc_def Let_def simp flip: i_def split: if_splits)
qed

lemma alm_start_spec:
  fixes i :: nat
  assumes K: "kinv C P Q s"
  defines "p \<equiv> alm_pcb (alm s i)"
  shows "handler_step C P Q (TM_ALM i) (Some (p, base_time (tevt_of s p) + tm)) s (alm_start i tm s) \<and>
    almsta (alm (alm_start i tm s) i) \<and> alm_pcb (alm (alm_start i tm s) i) = p"
proof -
  have p: "alm_pcb (alm (alm_restart i s) i) = p"
    using alm_restart_idle(5) [OF kinvD(2) [OF K]] by (simp add: p_def)
  show ?thesis using alm_start_step [OF K refl disjI1 [OF refl] p refl] by (simp add: alm_start_def Let_def)
qed

lemma alm_start_on_spec:
  assumes K: "kinv C P Q s"
  shows "handler_step C P Q (TM_ALM i) (Some (p, base_time (tevt_of s p) + tm)) s (alm_start_on i tm p s) \<and>
    almsta (alm (alm_start_on i tm p s) i) \<and> alm_pcb (alm (alm_start_on i tm p s) i) = p"
proof -
  have p: "alm_pcb (alm (upd_alm i (\<lambda>b. b\<lparr>alm_pcb := p\<rparr>) (alm_restart i s)) i) = p" by simp
  show ?thesis using alm_start_step [OF K refl disjI2 [OF refl] p refl] by (simp add: alm_start_on_def Let_def)
qed

lemma alm_stop_spec:
  assumes K: "kinv C P Q s"
  shows "handler_step C P Q (TM_ALM i) None s (alm_stop i s) \<and> \<not> almsta (alm (alm_stop i s) i)"
proof (cases "almsta (alm s i)")
  case False
  then show ?thesis
    using K tinvD(6) [OF kinvD(2) [OF K]] rescheduled_none [of "TM_ALM i" s s]
    by (simp add: alm_stop_def handler_step_def hinv_def alm_def)
qed (rule alm_stop_step [OF K])

text \<open>What every call of an alarm handler does: it starts it, stops it, or fails and changes nothing.\<close>

definition alm_effect ::
  "cfg \<Rightarrow> prcix set \<Rightarrow> (qhdr \<Rightarrow> tskix list) \<Rightarrow> nat \<Rightarrow> kstate \<Rightarrow> ercd svc \<Rightarrow> kstate \<Rightarrow> bool" where
  "alm_effect C P Q i s r s' \<longleftrightarrow>
     r = Ret E_OK \<and>
       (if almsta (alm s' i)
        then \<exists>tm \<le> TMAX_RELTIM. let p = alm_pcb (alm s' i)
          in handler_step C P Q (TM_ALM i) (Some (p, base_time (tevt_of s p) + tm)) s s'
        else handler_step C P Q (TM_ALM i) None s s') \<or>
     r \<in> {Ret E_CTX, Ret E_ID, Ret E_PAR} \<and> s' = s"

lemma alm_services:
  assumes K: "kinv C P Q s"
  shows "sta_alm C me a tm s = (r, s') \<Longrightarrow> alm_effect C P Q (INDEX_OBJ a) s r s'"
    and "ista_alm C me a tm s = (r, s') \<Longrightarrow> alm_effect C P Q (INDEX_OBJ a) s r s'"
    and "msta_alm C me a tm prc s = (r, s') \<Longrightarrow> alm_effect C P Q (INDEX_OBJ a) s r s'"
    and "imsta_alm C me a tm prc s = (r, s') \<Longrightarrow> alm_effect C P Q (INDEX_OBJ a) s r s'"
    and "stp_alm C me a s = (r, s') \<Longrightarrow> alm_effect C P Q (INDEX_OBJ a) s r s'"
    and "istp_alm C me a s = (r, s') \<Longrightarrow> alm_effect C P Q (INDEX_OBJ a) s r s'"
  using alm_start_spec [OF K, of "INDEX_OBJ a" tm] alm_start_on_spec [OF K, of "INDEX_OBJ a" _ tm]
    alm_stop_spec [OF K, of "INDEX_OBJ a"]
  by (auto simp: sta_alm_def ista_alm_def msta_alm_def imsta_alm_def stp_alm_def istp_alm_def alm_effect_def
      Let_def split: if_splits)

end
