(* ===== verification/Signal_Time.thy ===== *)
theory Signal_Time
  imports Handler
begin

text \<open>
  The supply of a time tick (\<open>signal_time\<close> of \<open>kernel/time_event.c\<close>): the clock of the processor
  advances, and the callback of every event that is due is called, earliest first.  The callbacks
  give up the locks in between; what the rest of the system does there, the application's
  cyclic and alarm handlers above all, is the parameter \<open>env\<close> of the definitions.
\<close>

section \<open>Operations\<close>

definition initialize_tmevt :: "prcix \<Rightarrow> kstate \<Rightarrow> kstate" where
  "initialize_tmevt me s = s\<lparr>tevt_of := (tevt_of s)(me := (tevt_of s me)\<lparr>
     min_time := 0, current_time := 0, next_time := 0 + 1, last_index := 0\<rparr>)\<rparr>"

definition get_my_current_time :: "prcix \<Rightarrow> kstate \<Rightarrow> evttim" where
  "get_my_current_time me s = current_time (tevt_of s me)"

definition upd_tevt :: "prcix \<Rightarrow> (tmevtb tevtcb \<Rightarrow> tmevtb tevtcb) \<Rightarrow> kstate \<Rightarrow> kstate" where
  "upd_tevt p f s = s\<lparr>tevt_of := (tevt_of s)(p := f (tevt_of s p))\<rparr>"

text \<open>
  The windows in which a callback has given up the locks: \<open>wait_tmout\<close> before it takes the object
  lock, \<open>wait_tmout\<close> and \<open>wait_tmout_ok\<close> at their end (to let interrupts in), and the handler
  routines.
\<close>

datatype window = Relock tskix | Preempt tskix | Cychdr nat | Almhdr nat

text \<open>\<open>(*(p_tmevtb->callback))(p_tmevtb->arg)\<close>: \<open>arg\<close> is the block's TCB, CYCCB or ALMCB.\<close>

definition callback ::
  "cfg \<Rightarrow> prcix \<Rightarrow> (window \<Rightarrow> kstate \<Rightarrow> kstate) \<Rightarrow> tmevtb \<Rightarrow> kstate \<Rightarrow> kstate" where
  "callback C me env b s =
     (case (b, tm_callback s b) of
        (TM_TSK t, Some CB_wait_tmout) \<Rightarrow>
          (case wait_tmout_1 me t s of
             (True, s) \<Rightarrow>
               (let s = env (Relock t) s in
                if \<not> pend_relwai (tcb_of s t) then s else env (Preempt t) (wait_tmout_2 me t s))
           | (False, s) \<Rightarrow> env (Preempt t) s)
      | (TM_TSK t, Some CB_wait_tmout_ok) \<Rightarrow> env (Preempt t) (wait_tmout_ok me t s)
      | (TM_CYC i, Some CB_call_cychdr) \<Rightarrow> call_cychdr_2 me (env (Cychdr i) (call_cychdr_1 C i s))
      | (TM_ALM i, Some CB_call_almhdr) \<Rightarrow> call_almhdr_2 me (env (Almhdr i) (call_almhdr_1 i s))
      | _ \<Rightarrow> s)"

definition top_due :: "'b tevtcb \<Rightarrow> bool" where
  "top_due te \<longleftrightarrow> 0 < last_index te \<and> EVTTIM_LE te (time (TMEVT_NODE te 1)) (current_time te)"

definition delete_top :: "prcix \<Rightarrow> kstate \<Rightarrow> kstate" where
  "delete_top p s =
     (let (te, ix) = tmevtb_delete_top (tevt_of s p, tm_index s)
      in s\<lparr>tevt_of := (tevt_of s)(p := te), tm_index := ix\<rparr>)"

definition fire :: "cfg \<Rightarrow> prcix \<Rightarrow> (window \<Rightarrow> kstate \<Rightarrow> kstate) \<Rightarrow> kstate \<Rightarrow> kstate" where
  "fire C me env s =
     (let b = p_tmevtb (TMEVT_NODE (tevt_of s me) 1);
          s = delete_top me s
      in callback C me env b s)"

partial_function (option) signal_loop ::
  "cfg \<Rightarrow> prcix \<Rightarrow> (window \<Rightarrow> kstate \<Rightarrow> kstate) \<Rightarrow> kstate \<Rightarrow> kstate option" where
  "signal_loop C me env s =
     (if top_due (tevt_of s me) then signal_loop C me env (fire C me env s) else Some s)"

definition advance :: "prcix \<Rightarrow> kstate \<Rightarrow> kstate" where
  "advance me = upd_tevt me (\<lambda>te.
     let te = te\<lparr>current_time := next_time te\<rparr> in te\<lparr>next_time := current_time te + 1\<rparr>)"

definition signal_time ::
  "cfg \<Rightarrow> prcix \<Rightarrow> (window \<Rightarrow> kstate \<Rightarrow> kstate) \<Rightarrow> kstate \<Rightarrow> kstate option" where
  "signal_time C me env s =
     map_option (upd_tevt me (\<lambda>te. te\<lparr>min_time := current_time te\<rparr>))
       (signal_loop C me env (advance me s))"

section \<open>The end of a timed wait\<close>

lemma set_callback_sel [simp]:
  "tcb_of (set_callback b c s) = tcb_of s" "pcb_of (set_callback b c s) = pcb_of s"
  "kq (set_callback b c s) = kq s" "tevt_of (set_callback b c s) = tevt_of s"
  "tm_index (set_callback b c s) = tm_index s" "ipi (set_callback b c s) = ipi s"
  "objs (set_callback b c s) = objs s" "tm_callback (set_callback b c s) = (tm_callback s)(b := c)"
  by (simp_all add: set_callback_def)

lemma make_runnable_callback:
  "make_runnable t (set_callback b c s) = map_prod id (set_callback b c) (make_runnable t s)"
  by (simp add: make_runnable_def Let_def set_callback_def primap_set_def set_schedtsk_def upd_pcb_def
      on_kq_def split: option.split)

lemma upd_tcb_callback: "upd_tcb t f (set_callback b c s) = set_callback b c (upd_tcb t f s)"
  by (simp add: upd_tcb_def set_callback_def)

lemma make_non_wait_callback:
  "make_non_wait t (set_callback b c s) = map_prod id (set_callback b c) (make_non_wait t s)"
  by (simp add: make_non_wait_def Let_def upd_tcb_callback make_runnable_callback)

lemma i_request_callback: "i_request me p d (set_callback b c s) = set_callback b c (i_request me p d s)"
  by (simp add: i_request_def dispatch_request_def target_ipi_raise_def set_reqflg_def set_callback_def
      upd_pcb_def)

lemma wait_dequeue_wobj_callback:
  "wait_dequeue_wobj t (set_callback b c s) = set_callback b c (wait_dequeue_wobj t s)"
  by (simp add: wait_dequeue_wobj_def set_callback_def on_kq_def)

lemma wait_tmout_end_eq:
  "wait_tmout_end me t e s =
     (let (b, s1) = make_non_wait t (set_wercd t e s) in i_request me (p_pcb (tcb_of s1 t)) b s1)"
  by (auto simp: wait_tmout_end_def i_request_def Let_def dispatch_request_def set_reqflg_def split: prod.split)

lemma kinv_callback:
  assumes K: "kinv C P Q s" and nw: "\<not> TSTAT_WAITING (tstat (tcb_of s t))"
  shows "kinv C P Q (set_callback (TM_TSK t) c s)"
proof -
  have "tinv {} (set_callback (TM_TSK t) c s)"
    by (rule tinv_frame [OF kinvD(2) [OF K]])
      (use nw in \<open>auto simp: tm_place_def cb_ok_def same_handlers_def\<close>)
  moreover have "qinv {} Q (set_callback (TM_TSK t) c s)"
    by (rule qinv_frame [OF kinvD(1) [OF K]]) simp_all
  ultimately show ?thesis
    using kinvD(3,8,9) [OF K] by (simp add: kinv_def dinv_def rinv_def sinv_def)
qed

lemma set_callback_set [simp]: "set_callback b c (set_callback b d s) = set_callback b c s"
  by (simp add: set_callback_def)

lemma set_callback_same [simp]: "set_callback b (tm_callback s b) s = s"
  by (simp add: set_callback_def)

lemma wait_dequeue_wobj_sel [simp]:
  "tcb_of (wait_dequeue_wobj t s) = tcb_of s" "tm_callback (wait_dequeue_wobj t s) = tm_callback s"
  "tevt_of (wait_dequeue_wobj t s) = tevt_of s" "objs (wait_dequeue_wobj t s) = objs s"
  by (simp_all add: wait_dequeue_wobj_def on_kq_def)

text \<open>
  The callback finds its block already off the heap.  Setting its callback to \<open>NULL\<close> gives a
  state in order, on which the end of the wait is the one of \<open>wait_release\<close>.
\<close>

lemma tmout_wake:
  assumes K: "kinv C P Q (set_callback (TM_TSK t) None s)" and w: "TSTAT_WAITING (tstat (tcb_of s t))"
    and s': "s' = wait_tmout_end me t e (wait_dequeue_wobj t s)"
  shows "kinv C P (ready_after s t (unlinked s t Q)) s'"
    and "tcb_of s' = (tcb_of s)(t := ended_tcb e (tcb_of s t))" and "objs s' = objs s"
proof -
  let ?s0 = "set_callback (TM_TSK t) None s"
  let ?sd = "wait_dequeue_wobj t s"
  have w0: "TSTAT_WAITING (tstat (tcb_of ?s0 t))" using w by simp
  obtain b s1 where m: "make_non_wait t (set_wercd t e ?sd) = (b, s1)" by fastforce
  have d0: "wait_dequeue_tmevtb t (set_callback (TM_TSK t) None x) = set_callback (TM_TSK t) None x" for x
    by (simp add: wait_dequeue_tmevtb_def)
  have E: "end_wait t e (wait_dequeue_wobj t ?s0) = (b, set_callback (TM_TSK t) None s1)"
    using m by (simp add: end_wait_def d0 wait_dequeue_wobj_callback set_wercd_def upd_tcb_callback
        make_non_wait_callback)
  note W = end_wait_wobj_kinv [OF K w0 E]
  have p: "p_pcb (tcb_of s1 t) = p_pcb (tcb_of s t)"
    using W(3) by (simp add: ended_tcb_def released_tcb_def)
  have e: "set_callback (TM_TSK t) None s' =
      i_request me (p_pcb (tcb_of s t)) b (set_callback (TM_TSK t) None s1)"
    using m p by (simp add: s' wait_tmout_end_eq Let_def i_request_callback)
  note I = i_request_kinv [OF W(1), of me, unfolded set_callback_sel, folded e]
  show tc: "tcb_of s' = (tcb_of s)(t := ended_tcb e (tcb_of s t))"
    using I(2) W(3) by simp
  show "objs s' = objs s" using I(3) W(2) by simp
  have nw: "\<not> TSTAT_WAITING (tstat (tcb_of (set_callback (TM_TSK t) None s') t))"
    by (simp add: tc ended_tcb_def released_tcb_def)
  have ra: "ready_after ?s0 t (unlinked ?s0 t Q) = ready_after s t (unlinked s t Q)"
    by (simp add: ready_after_def unlinked_def)
  show "kinv C P (ready_after s t (unlinked s t Q)) s'"
    using kinv_callback [OF I(1) nw, of "tm_callback s' (TM_TSK t)"] by (simp add: ra)
qed

lemma make_runnable_sel:
  "tevt_of (snd (make_runnable t s)) = tevt_of s" "tm_callback (snd (make_runnable t s)) = tm_callback s"
  "tm_index (snd (make_runnable t s)) = tm_index s"
  by (simp_all add: make_runnable_def Let_def primap_set_def set_schedtsk_def on_kq_def split: option.split)

lemma make_non_wait_sel:
  "tevt_of (snd (make_non_wait t s)) = tevt_of s" "tm_callback (snd (make_non_wait t s)) = tm_callback s"
  "tm_index (snd (make_non_wait t s)) = tm_index s"
  by (simp_all add: make_non_wait_def Let_def make_runnable_sel)

lemma i_request_sel:
  "tevt_of (i_request me p b s) = tevt_of s" "tm_callback (i_request me p b s) = tm_callback s"
  "tm_index (i_request me p b s) = tm_index s"
  by (simp_all add: i_request_def dispatch_request_def target_ipi_raise_def set_reqflg_def)

lemma wait_tmout_end_sel:
  "tevt_of (wait_tmout_end me t e s) = tevt_of s"
  by (simp add: wait_tmout_end_eq i_request_sel make_non_wait_sel set_wercd_def split_beta)

lemma wait_tmout_end_kinv:
  assumes K: "kinv C P Q (set_callback (TM_TSK t) None s)" and w: "TSTAT_WAITING (tstat (tcb_of s t))"
    and nw: "\<not> TSTAT_WAIT_WOBJ (tstat (tcb_of s t))"
  shows "kinv C P (ready_after s t (unlinked s t Q)) (wait_tmout_end me t e s)"
    and "tcb_of (wait_tmout_end me t e s) = (tcb_of s)(t := ended_tcb e (tcb_of s t))"
    and "objs (wait_tmout_end me t e s) = objs s"
  using tmout_wake [OF K w refl] nw by (simp_all add: wait_dequeue_wobj_def)

lemma wait_tmout_2_kinv:
  assumes K: "kinv C {} Q s" and c: "pend_relwai (tcb_of s t) \<Longrightarrow> tm_callback s (TM_TSK t) = None"
  shows "\<exists>Q'. kinv C {} Q' (wait_tmout_2 me t s)"
    and "tcb_of (wait_tmout_2 me t s) =
      (if pend_relwai (tcb_of s t) then (tcb_of s)(t := ended_tcb E_TMOUT (tcb_of s t)) else tcb_of s)"
    and "objs (wait_tmout_2 me t s) = objs s" and "tevt_of (wait_tmout_2 me t s) = tevt_of s"
proof -
  let ?s1 = "upd_tcb t (\<lambda>b. b\<lparr>pend_relwai := False\<rparr>) s"
  have "(\<exists>Q'. kinv C {} Q' (wait_tmout_2 me t s)) \<and>
    tcb_of (wait_tmout_2 me t s) = (tcb_of s)(t := ended_tcb E_TMOUT (tcb_of s t)) \<and>
    objs (wait_tmout_2 me t s) = objs s"
    if p: "pend_relwai (tcb_of s t)"
  proof -
    have s: "set_callback (TM_TSK t) None ?s1 = ?s1" using c [OF p] by (simp add: set_callback_def fun_upd_idem)
    have K1: "kinv C {} Q (set_callback (TM_TSK t) None ?s1)"
      unfolding s using pend_relwai_step(2) [OF K, of False t] by simp
    have "TSTAT_WAITING (tstat (tcb_of ?s1 t))" using pend_waiting(2) [OF K p] by simp
    note W = tmout_wake [OF K1 this refl, of me E_TMOUT]
    have "wait_tmout_2 me t s = wait_tmout_end me t E_TMOUT (wait_dequeue_wobj t ?s1)"
      using p by (simp add: wait_tmout_2_def)
    then show ?thesis using W by (auto simp: ended_tcb_pend)
  qed
  then show "\<exists>Q'. kinv C {} Q' (wait_tmout_2 me t s)"
    "tcb_of (wait_tmout_2 me t s) =
      (if pend_relwai (tcb_of s t) then (tcb_of s)(t := ended_tcb E_TMOUT (tcb_of s t)) else tcb_of s)"
    "objs (wait_tmout_2 me t s) = objs s"
    using K by (auto simp: wait_tmout_2_def)
  show "tevt_of (wait_tmout_2 me t s) = tevt_of s" by (simp add: wait_tmout_2_def Let_def wait_tmout_end_sel)
qed

section \<open>Taking the earliest event off the heap\<close>

text \<open>
  \<open>popped b s\<close>: the block \<open>b\<close> has just left the heap, and what depends on that is not yet done.
\<close>

definition popped :: "cfg \<Rightarrow> (qhdr \<Rightarrow> tskix list) \<Rightarrow> tmevtb \<Rightarrow> kstate \<Rightarrow> bool" where
  "popped C Q b s \<longleftrightarrow> qinv {} Q s \<and> dinv {} s \<and> rinv s \<and> sinv C Q s \<and>
     tskinv {t. b = TM_TSK t} s \<and> hinv_but b s \<and> (\<forall>q. b \<notin> registered s q)"

definition cause :: "kstate \<Rightarrow> tmevtb \<Rightarrow> bool" where
  "cause s b = (case b of
     TM_TSK t \<Rightarrow> TSTAT_WAITING (tstat (tcb_of s t)) \<and> tm_callback s b = Some (wait_cb (tstat (tcb_of s t)))
   | TM_CYC i \<Rightarrow> cycsta (cyc s i) \<and> tm_callback s b = Some CB_call_cychdr
   | TM_ALM i \<Rightarrow> almsta (alm s i) \<and> tm_callback s b = Some CB_call_almhdr)"

definition block_home :: "kstate \<Rightarrow> tmevtb \<Rightarrow> prcix" where
  "block_home s b = (case b of
     TM_TSK t \<Rightarrow> p_pcb (tcb_of s t) | TM_CYC i \<Rightarrow> cyc_pcb (cyc s i) | TM_ALM i \<Rightarrow> alm_pcb (alm s i))"

lemma registered_cause:
  assumes T: "tinv {} s" and b: "b \<in> registered s p"
  shows "cause s b" and "block_home s b = p"
proof -
  have "cause s b \<and> block_home s b = p"
  proof (cases b)
    case (TM_TSK t)
    then have "tm_place s t = Some p" "cb_ok s t" using tinvD(3,4) [OF T, of t] b by auto
    then show ?thesis
      using TM_TSK by (auto simp: tm_place_def cb_ok_def cause_def block_home_def split: if_splits)
  next
    case (TM_CYC i)
    then show ?thesis using tinvD(6) [OF T] b by (auto simp: hinv_def cyc_def cause_def block_home_def)
  next
    case (TM_ALM i)
    then show ?thesis using tinvD(6) [OF T] b by (auto simp: hinv_def alm_def cause_def block_home_def)
  qed
  then show "cause s b" "block_home s b = p" by auto
qed

lemma delete_top_popped:
  assumes K: "kinv C {} Q s" and n: "0 < last_index (tevt_of s p)" and e: "evnode (tevt_of s p) 1 = (b, tm)"
  defines "s' \<equiv> delete_top p s"
  shows "popped C Q b s'" and "rescheduled b None s s'" and "(b, tm) \<in> evset (tevt_of s p)"
    and "s' = s\<lparr>tevt_of := tevt_of s', tm_index := tm_index s'\<rparr>"
    and "cause s' b" and "block_home s' b = p"
proof -
  note T = kinvD(2) [OF K]
  obtain te ix where d: "tmevtb_delete_top (tevt_of s p, tm_index s) = (te, ix)" by fastforce
  have s': "s' = s\<lparr>tevt_of := (tevt_of s)(p := te), tm_index := ix\<rparr>"
    by (simp add: s'_def delete_top_def d)
  then show f: "s' = s\<lparr>tevt_of := tevt_of s', tm_index := tm_index s'\<rparr>" by simp
  have D: "heap_inv te ix" "evset te = evset (tevt_of s p) - {(b, tm)}"
    "heap_frame (evset (tevt_of s p)) (tm_index s) ix" "same_times (tevt_of s p) te"
    using tmevtb_delete_top_correct [OF tinvD(1) [OF T] n d] e by simp_all
  have "1 \<in> {1..last_index (tevt_of s p)}" using n by simp
  then show tm: "(b, tm) \<in> evset (tevt_of s p)" unfolding evset_def e [symmetric] by blast
  note R = tskinv_removed [OF tinvD(5) [OF T] tm D(1,2,3) s', of "{t. b = TM_TSK t}"]
  show ev: "rescheduled b None s s'"
    by (rule removed_events [OF tinvD(5) [OF T] tm D(2,4)]) (simp add: s')
  have rg: "registered s' q = registered s q - {b}" for q by (rule R(2)) simp_all
  have "hinv_but b s'"
    by (rule hinv_but_frame [of b s]) (use tinvD(6) [OF T] hinv_but [of s b] rg in
        \<open>auto simp: same_but_def s' cyc_def alm_def\<close>)
  moreover have "tskinv {t. b = TM_TSK t} s'" by (rule R(1)) simp_all
  moreover have "qinv {} Q s'" by (rule qinv_frame [OF kinvD(1) [OF K]]) (simp_all add: s')
  ultimately show "popped C Q b s'"
    using kinvD(3,8,9) [OF K] rg by (simp add: popped_def dinv_def rinv_def sinv_def s')
  have "b \<in> registered s p" using tm by (force simp: registered_def)
  from registered_cause [OF T this] show "cause s' b" "block_home s' b = p"
    by (cases b; simp add: cause_def block_home_def s' cyc_def alm_def)+
qed

text \<open>The three kinds of block: each callback brings its block back in order.\<close>

lemma popped_task:
  assumes "popped C Q (TM_TSK t) s"
  shows "kinv C {} Q (set_callback (TM_TSK t) None s)"
proof -
  have p: "tskinv {t} s" "hinv s" "\<And>q. TM_TSK t \<notin> registered s q"
    using assms hinv_but [of s "TM_TSK t"] by (simp_all add: popped_def hclause_def)
  let ?s = "set_callback (TM_TSK t) None s"
  have r: "registered ?s = registered s" by (simp add: registered_def fun_eq_iff)
  have pl: "tm_place ?s u = (if u = t then None else tm_place s u)" for u by (auto simp: tm_place_def)
  have cb: "cb_ok ?s u \<longleftrightarrow> u = t \<or> cb_ok s u" for u by (auto simp: cb_ok_def)
  have "TM_TSK u \<in> registered s q \<longleftrightarrow> tm_place ?s u = Some q" for u q
    using tskinvD(3) [OF p(1), of u q] p(3) [of q] by (auto simp: pl)
  moreover have "cb_ok ?s u" for u using tskinvD(4) [OF p(1), of u] by (simp add: cb) blast
  ultimately have "tskinv {} ?s"
    using tskinvD(1,2) [OF p(1)] unfolding tskinv_def r set_callback_sel by blast
  moreover have "hinv ?s" by (rule hinv_frame [OF p(2)]) (simp_all add: same_handlers_def r)
  moreover have "qinv {} Q ?s" by (rule qinv_frame [of _ _ s]) (use assms in \<open>simp_all add: popped_def\<close>)
  ultimately show ?thesis using assms by (simp add: popped_def kinv_def tinv_def dinv_def rinv_def sinv_def)
qed

lemma popped_kinv:
  assumes "popped C Q b s" and "tinv {} s'" and "timer_frame s s'"
  shows "kinv C {} Q s'"
  using assms qinv_frame [of "{}" Q s s']
  by (auto simp: popped_def kinv_def timer_frame_def dinv_def rinv_def sinv_def)

lemma popped_idle: "popped C Q b s \<Longrightarrow> (\<And>t. b \<noteq> TM_TSK t) \<Longrightarrow> idle_block b s"
  by (simp add: popped_def idle_block_def)

section \<open>Due events and the clock\<close>

definition due :: "'b tevtcb \<Rightarrow> evttim \<Rightarrow> bool" where
  "due te t \<longleftrightarrow> EVTTIM_LE te t (current_time te)"

definition due_events :: "'b tevtcb \<Rightarrow> ('b \<times> evttim) set" where
  "due_events te = {x \<in> evset te. due te (snd x)}"

text \<open>The event of a cyclic handler is at the time its control block has.\<close>

definition cyc_times :: "kstate \<Rightarrow> bool" where
  "cyc_times s \<longleftrightarrow> (\<forall>i p t. (TM_CYC i, t) \<in> evset (tevt_of s p) \<longrightarrow> t = evttim (cyc s i))"

text \<open>
  \<open>clock_in_tick\<close>: within \<open>signal_time\<close> the clock is at most one tick after \<open>min_time\<close>;
  \<open>clock_at_rest\<close>: between two ticks it is at \<open>min_time\<close>.
\<close>

definition clock_in_tick :: "'b tevtcb \<Rightarrow> bool" where
  "clock_in_tick te \<longleftrightarrow> current_time te - min_time te \<le> 1 \<and> next_time te = current_time te + 1"

definition clock_at_rest :: "'b tevtcb \<Rightarrow> bool" where
  "clock_at_rest te \<longleftrightarrow> current_time te = min_time te \<and> next_time te = current_time te + 1"

definition ticking :: "prcix \<Rightarrow> kstate \<Rightarrow> bool" where
  "ticking me s \<longleftrightarrow> clock_in_tick (tevt_of s me) \<and> cyc_times s"

text \<open>The measure of the loop: how many times an event can still fire in this tick.\<close>

definition work :: "'b tevtcb \<Rightarrow> nat" where
  "work te = (\<Sum>x \<in> due_events te. unat (current_time te - snd x) + 1)"

definition shrinks :: "'b tevtcb \<Rightarrow> 'b tevtcb \<Rightarrow> bool" where
  "shrinks te te' \<longleftrightarrow> same_times te te' \<and> due_events te' \<subseteq> due_events te"

lemma finite_due [simp]: "finite (due_events te)"
  by (simp add: due_events_def evset_def)

lemma due_same: "same_times te te' \<Longrightarrow> due te' t = due te t"
  by (simp add: due_def EVTTIM_LE_def same_times_def)

lemma in_tick_same: "same_times te te' \<Longrightarrow> clock_in_tick te' = clock_in_tick te"
  by (simp add: clock_in_tick_def same_times_def)

lemma shrinks_refl [simp]: "shrinks te te"
  by (simp add: shrinks_def)

lemma shrinks_trans: "shrinks a b \<Longrightarrow> shrinks b c \<Longrightarrow> shrinks a c"
  using same_times_trans by (auto simp: shrinks_def)

lemma shrinks_work:
  assumes "shrinks te te'"
  shows "work te' \<le> work te"
proof -
  have "current_time te' = current_time te" using assms by (simp add: shrinks_def same_times_def)
  then show ?thesis using assms by (auto simp: work_def shrinks_def intro!: sum_mono2)
qed

lemma next_firing:
  fixes c cur m t :: "32 word"
  assumes "cur - m \<le> 1" and "t - m \<le> cur - m" and "0 < c" "c \<le> TMAX_RELTIM" and "t + c - m \<le> cur - m"
  shows "cur - (t + c) < cur - t"
proof -
  let ?d = "cur - m" and ?a = "t - m"
  have a: "unat ?a \<le> 1" "unat ?d \<le> 1" "unat ?a \<le> unat ?d"
    using assms(1,2) by (simp_all add: word_le_nat_alt)
  have c: "0 < unat c" "unat c < 2 ^ 31"
    using assms(3,4) by (simp_all add: word_less_nat_alt word_le_nat_alt TMAX_RELTIM_def unat_gt_0)
  have u: "unat (?a + c) = unat ?a + unat c" using a c by (subst unat_plus_if') auto
  have e: "t + c - m = ?a + c" by simp
  have le: "unat ?a + unat c \<le> unat ?d" using assms(5) unfolding e word_le_nat_alt u .
  have e1: "cur - t = ?d - ?a" and e2: "cur - (t + c) = (?d - ?a) - c" by simp_all
  have da: "unat (?d - ?a) = unat ?d - unat ?a" by (rule unat_sub [OF assms(2)])
  have "c \<le> ?d - ?a" unfolding word_le_nat_alt da using le by linarith
  then have "unat ((?d - ?a) - c) = unat ?d - unat ?a - unat c" unfolding da [symmetric] by (rule unat_sub)
  then show ?thesis unfolding e1 e2 word_less_nat_alt da using c le by linarith
qed

text \<open>An event registered from \<open>base_time\<close> on is not due before the next tick.\<close>

lemma base_not_due:
  assumes "clock_in_tick te" and "tm \<le> TMAX_RELTIM"
  shows "\<not> due te (base_time te + tm)"
proof -
  let ?d = "current_time te - min_time te"
  have d: "unat ?d \<le> 1" using assms(1) by (simp add: clock_in_tick_def word_le_nat_alt)
  have t: "unat tm < 2 ^ 31" using assms(2) by (simp add: word_le_nat_alt TMAX_RELTIM_def)
  have b: "base_time te + tm - min_time te = ?d + (1 + tm)"
    using assms(1) by (simp add: base_time_def clock_in_tick_def)
  have u1: "unat (1 + tm) = 1 + unat tm" using t by (subst unat_plus_if') auto
  have "unat (?d + (1 + tm)) = unat ?d + unat (1 + tm)" using d t u1 by (subst unat_plus_if') auto
  then show ?thesis unfolding due_def EVTTIM_LE_def b word_le_nat_alt u1 by simp
qed

lemma rescheduled_due:
  assumes "rescheduled b r s s'"
  shows "due_events (tevt_of s' q) = {x \<in> due_events (tevt_of s q). fst x \<noteq> b} \<union>
    (case r of Some (p, tm) \<Rightarrow> if q = p \<and> due (tevt_of s q) tm then {(b, tm)} else {} | None \<Rightarrow> {})"
proof -
  have s: "same_times (tevt_of s q) (tevt_of s' q)" using assms by (simp add: rescheduled_def)
  show ?thesis using assms due_same [OF s]
    by (auto simp: rescheduled_def due_events_def split: option.splits if_splits)
qed

lemma rescheduled_shrinks:
  assumes "rescheduled b r s s'" and "\<And>p tm. r = Some (p, tm) \<Longrightarrow> p = q \<Longrightarrow> \<not> due (tevt_of s q) tm"
  shows "shrinks (tevt_of s q) (tevt_of s' q)"
  using rescheduled_due [OF assms(1), of q] assms
  by (auto simp: shrinks_def rescheduled_def split: option.splits if_splits)

section \<open>The loop of the tick\<close>

text \<open>
  What \<open>signal_time\<close> relies on while a callback has given up the locks.  The kernel invariant holds
  again at the end.  The processor does not handle another tick, so its clock stands, and services
  register events from \<open>base_time\<close> on, so none is added that is due.  A task of the processor does
  not run while its processor is in the handler, so that a wait that has run out is not followed by
  another.
\<close>

definition env_ok :: "cfg \<Rightarrow> prcix \<Rightarrow> (window \<Rightarrow> kstate \<Rightarrow> kstate) \<Rightarrow> bool" where
  "env_ok C me env \<longleftrightarrow> (\<forall>w Q s. kinv C {} Q s \<longrightarrow> ticking me s \<longrightarrow>
     (\<exists>Q'. kinv C {} Q' (env w s)) \<and> ticking me (env w s) \<and>
     shrinks (tevt_of s me) (tevt_of (env w s) me) \<and>
     (\<forall>t. w = Relock t \<longrightarrow> tm_callback s (TM_TSK t) = None \<longrightarrow>
        pend_relwai (tcb_of (env w s) t) \<longrightarrow> tm_callback (env w s) (TM_TSK t) = None))"

definition cyc_ok :: "cfg \<Rightarrow> bool" where
  "cyc_ok C \<longleftrightarrow> (\<forall>i. 0 < cyctim (cycinib_table C i) \<and> cyctim (cycinib_table C i) \<le> TMAX_RELTIM)"

text \<open>\<open>tick_state\<close>: the invariant of the loop.\<close>

definition tick_state :: "cfg \<Rightarrow> prcix \<Rightarrow> kstate \<Rightarrow> bool" where
  "tick_state C me s \<longleftrightarrow> (\<exists>Q. kinv C {} Q s) \<and> ticking me s"

lemma env_step:
  assumes "env_ok C me env" and "tick_state C me s"
  shows "tick_state C me (env w s)" and "shrinks (tevt_of s me) (tevt_of (env w s) me)"
    and "w = Relock t \<Longrightarrow> tm_callback s (TM_TSK t) = None \<Longrightarrow> pend_relwai (tcb_of (env w s) t) \<Longrightarrow>
      tm_callback (env w s) (TM_TSK t) = None"
proof -
  obtain Q where Q: "kinv C {} Q s" "ticking me s" using assms(2) by (auto simp: tick_state_def)
  note E = assms(1) [unfolded env_ok_def, rule_format, OF Q, of w]
  show "tick_state C me (env w s)" using E by (simp add: tick_state_def)
  show "shrinks (tevt_of s me) (tevt_of (env w s) me)" using E by simp
  show "tm_callback (env w s) (TM_TSK t) = None"
    if "w = Relock t" "tm_callback s (TM_TSK t) = None" "pend_relwai (tcb_of (env w s) t)"
    using E that by simp
qed

lemma ticking_cong:
  assumes "tevt_of s' = tevt_of s" and "cyccb_of (objs s') = cyccb_of (objs s)"
  shows "ticking me s' = ticking me s"
  using assms by (simp add: ticking_def cyc_times_def cyc_def)

lemma ticking_reduced:
  assumes "ticking me s" and "rescheduled b r s s'" and "\<And>i. cyc s' i = cyc s i \<or> b = TM_CYC i"
    and "\<And>i p tm. b = TM_CYC i \<Longrightarrow> r = Some (p, tm) \<Longrightarrow> evttim (cyc s' i) = tm"
  shows "ticking me s'"
proof -
  have "t = evttim (cyc s' i)" if x: "(TM_CYC i, t) \<in> evset (tevt_of s' p)" for i p t
  proof (cases "b = TM_CYC i")
    case True
    then show ?thesis using assms(2) x assms(4) [OF True]
      by (auto simp: rescheduled_def split: option.splits if_splits)
  next
    case False
    then have "(TM_CYC i, t) \<in> evset (tevt_of s p)"
      using assms(2) x by (auto simp: rescheduled_def split: option.splits if_splits)
    then have "t = evttim (cyc s i)" using assms(1) unfolding ticking_def cyc_times_def by blast
    then show ?thesis using assms(3) [of i] False by metis
  qed
  then have "cyc_times s'" by (simp add: cyc_times_def)
  moreover have "same_times (tevt_of s me) (tevt_of s' me)" using assms(2) by (simp add: rescheduled_def)
  ultimately show ?thesis using assms(1) in_tick_same [of "tevt_of s me" "tevt_of s' me"] by (simp add: ticking_def)
qed

lemma force_unlock_cyc [simp]: "cyccb_of (objs (force_unlock_spin me s)) = cyccb_of (objs s)"
  using force_unlock_spin_objs [of me s] by auto

lemma tick_state_unlock [simp]: "tick_state C me (force_unlock_spin me s) = tick_state C me s"
  by (simp add: tick_state_def ticking_cong [of "force_unlock_spin me s" s])

lemma wait_cb_wobj: "tstat tc AND TS_WAIT_MASK = TS_WAIT_DLY \<Longrightarrow> \<not> TSTAT_WAIT_WOBJ (tstat tc)"
  by (simp add: TSTAT_WAIT_WOBJ_def TS_WAIT_DLY_def TS_WAIT_RDTQ_def word_le_nat_alt)

text \<open>The states in which the callbacks give up the locks are in order.\<close>

definition relock :: "tskix \<Rightarrow> kstate \<Rightarrow> kstate" where
  "relock t s = set_callback (TM_TSK t) None (upd_tcb t (\<lambda>b. b\<lparr>pend_relwai := True\<rparr>) s)"

lemma tick_wait_end:
  assumes "popped C Q (TM_TSK t) s" and "cause s (TM_TSK t)" and "ticking me s"
    and nw: "\<not> TSTAT_WAIT_WOBJ (tstat (tcb_of s t))"
  shows "tick_state C me (wait_tmout_end me t e s)"
proof -
  have w: "TSTAT_WAITING (tstat (tcb_of s t))" using assms(2) by (simp add: cause_def)
  note W = wait_tmout_end_kinv [OF popped_task [OF assms(1)] w nw, of me e]
  show ?thesis
    using W(1) assms(3) ticking_cong [OF wait_tmout_end_sel, of me t e s] W(3) by (auto simp: tick_state_def)
qed

lemma tick_relock:
  assumes "popped C Q (TM_TSK t) s" and "ticking me s" and w: "TSTAT_WAIT_WOBJ (tstat (tcb_of s t))"
  shows "tick_state C me (relock t s)"
proof -
  have "kinv C {} Q (relock t s)"
    using pend_relwai_step(2) [OF popped_task [OF assms(1)], of True t] w by (simp add: relock_def upd_tcb_callback)
  then show ?thesis using assms(2) ticking_cong [of "relock t s" s] by (auto simp: tick_state_def relock_def)
qed

lemma tick_wait_tmout_2:
  assumes S: "tick_state C me s" and c: "pend_relwai (tcb_of s t) \<Longrightarrow> tm_callback s (TM_TSK t) = None"
  shows "tick_state C me (wait_tmout_2 me t s)"
proof -
  obtain Q where K: "kinv C {} Q s" "ticking me s" using S by (auto simp: tick_state_def)
  note W = wait_tmout_2_kinv [OF K(1) c, of me]
  then show ?thesis using K(2) ticking_cong [of "wait_tmout_2 me t s" s] by (simp add: tick_state_def)
qed

text \<open>The two ways a timed wait ends: at once, or after the object lock has been taken.\<close>

lemma callback_task:
  assumes c: "cause s (TM_TSK t)"
  shows "\<not> TSTAT_WAIT_WOBJ (tstat (tcb_of s t)) \<Longrightarrow> \<exists>e. callback C me env (TM_TSK t) s = env (Preempt t) (wait_tmout_end me t e s) \<and>
      e = (if tstat (tcb_of s t) AND TS_WAIT_MASK = TS_WAIT_DLY then E_OK else E_TMOUT)"
    and "TSTAT_WAIT_WOBJ (tstat (tcb_of s t)) \<Longrightarrow> callback C me env (TM_TSK t) s =
      (let s2 = env (Relock t) (relock t s)
       in if pend_relwai (tcb_of s2 t) then env (Preempt t) (wait_tmout_2 me t s2) else s2) \<and>
      tstat (tcb_of s t) AND TS_WAIT_MASK \<noteq> TS_WAIT_DLY"
  using c wait_cb_wobj
  by (auto simp: cause_def wait_cb_def callback_def wait_tmout_ok_def wait_tmout_1_def relock_def Let_def split: if_splits)

lemma fire_task:
  assumes p: "popped C Q (TM_TSK t) s" and c: "cause s (TM_TSK t)" and tk: "ticking me s"
    and env: "env_ok C me env"
  shows "tick_state C me (callback C me env (TM_TSK t) s) \<and>
    shrinks (tevt_of s me) (tevt_of (callback C me env (TM_TSK t) s) me)"
proof (cases "TSTAT_WAIT_WOBJ (tstat (tcb_of s t))")
  case False
  then obtain e where "callback C me env (TM_TSK t) s = env (Preempt t) (wait_tmout_end me t e s)"
    using callback_task(1) [OF c] by blast
  then show ?thesis
    using env_step(1,2) [OF env tick_wait_end [OF p c tk False]] by (simp add: wait_tmout_end_sel)
next
  case True
  let ?s2 = "env (Relock t) (relock t s)"
  note E = env_step [OF env tick_relock [OF p tk True], of "Relock t"]
  have n: "tm_callback (relock t s) (TM_TSK t) = None" by (simp add: relock_def)
  note W = tick_wait_tmout_2 [OF E(1) E(3) [OF refl n]]
  have "tevt_of (wait_tmout_2 me t ?s2) = tevt_of ?s2"
    by (simp add: wait_tmout_2_def Let_def wait_tmout_end_sel)
  then show ?thesis
    using env_step(1,2) [OF env W, of "Preempt t"] E(1,2) callback_task(2) [OF c True]
      shrinks_trans [of "tevt_of s me" "tevt_of ?s2 me"]
    by (auto simp: Let_def relock_def)
qed

lemma tick_almhdr:
  assumes p: "popped C Q (TM_ALM i) s" and tk: "ticking me s"
  shows "tick_state C me (call_almhdr_1 i s)"
proof -
  have I: "idle_block (TM_ALM i) s" using popped_idle [OF p] by simp
  have "tinv {} (call_almhdr_1 i s)" by (rule almh.off [OF I]) (simp_all add: call_almhdr_1_def upd_handler_frame)
  then have "kinv C {} Q (call_almhdr_1 i s)"
    using popped_kinv [OF p] by (simp add: call_almhdr_1_def upd_handler_frame)
  then show ?thesis using tk ticking_cong [of "call_almhdr_1 i s" s]
    by (auto simp: tick_state_def call_almhdr_1_def) (simp add: upd_alm_def)
qed

lemma fire_alm:
  assumes p: "popped C Q (TM_ALM i) s" and c: "cause s (TM_ALM i)" and tk: "ticking me s"
    and env: "env_ok C me env"
  shows "tick_state C me (callback C me env (TM_ALM i) s) \<and>
    shrinks (tevt_of s me) (tevt_of (callback C me env (TM_ALM i) s) me)"
proof -
  let ?s1 = "call_almhdr_1 i s"
  note E = env_step(1,2) [OF env tick_almhdr [OF p tk], of "Almhdr i"]
  have "callback C me env (TM_ALM i) s = force_unlock_spin me (env (Almhdr i) ?s1)"
    using c by (simp add: callback_def cause_def call_almhdr_2_def)
  then show ?thesis using E by (simp add: call_almhdr_1_def)
qed

lemma tick_cychdr:
  assumes p: "popped C Q (TM_CYC i) s" and c: "cause s (TM_CYC i)" and tk: "ticking me s"
  defines "tm \<equiv> evttim (cyc s i) + cyctim (cycinib_table C i)"
  shows "tick_state C me (call_cychdr_1 C i s)"
    and "rescheduled (TM_CYC i) (Some (block_home s (TM_CYC i), tm)) s (call_cychdr_1 C i s)"
    and "tcb_of (call_cychdr_1 C i s) = tcb_of s"
proof -
  have I: "idle_block (TM_CYC i) s" using popped_idle [OF p] by simp
  let ?s1 = "call_cychdr_1 C i s"
  have on: "cycsta (cyc s i)" using c by (simp add: cause_def)
  have e: "?s1 = tmevtb_enqueue_cyc i tm s" by (simp add: call_cychdr_1_def tm_def)
  note A = cyc_arm [OF I on e]
  show r: "rescheduled (TM_CYC i) (Some (block_home s (TM_CYC i), tm)) s ?s1"
    using A(3) by (simp add: block_home_def)
  have oc: "cyc ?s1 j = cyc s j \<or> TM_CYC i = TM_CYC j" for j
    by (simp add: e tmevtb_enqueue_cyc_def) (simp add: cyc_def)
  have et: "evttim (cyc ?s1 j) = x" if "TM_CYC i = TM_CYC j" "Some (block_home s (TM_CYC i), tm) = Some (p, x)" for j p x
    using that A(4) by auto
  have "ticking me ?s1" by (rule ticking_reduced [OF tk r oc et])
  then show "tick_state C me ?s1" using popped_kinv [OF p A(1,2)] by (auto simp: tick_state_def)
  show "tcb_of ?s1 = tcb_of s" using A(2) by (simp add: timer_frame_def)
qed

lemma fire_cyc:
  assumes p: "popped C Q (TM_CYC i) s" and c: "cause s (TM_CYC i)" and h: "block_home s (TM_CYC i) = me"
    and tk: "ticking me s" and env: "env_ok C me env"
  defines "tm \<equiv> evttim (cyc s i) + cyctim (cycinib_table C i)" and "te \<equiv> tevt_of s me"
    and "te' \<equiv> tevt_of (callback C me env (TM_CYC i) s) me"
  shows "tick_state C me (callback C me env (TM_CYC i) s) \<and> same_times te te' \<and>
    due_events te' \<subseteq> due_events te \<union> (if due te tm then {(TM_CYC i, tm)} else {})"
proof -
  let ?s1 = "call_cychdr_1 C i s"
  note T = tick_cychdr [OF p c tk]
  have r: "rescheduled (TM_CYC i) (Some (me, tm)) s ?s1" using T(2) h by (simp add: tm_def)
  note E = env_step(1,2) [OF env T(1), of "Cychdr i"]
  have cb: "callback C me env (TM_CYC i) s = force_unlock_spin me (env (Cychdr i) ?s1)"
    using c by (simp add: callback_def cause_def call_cychdr_2_def)
  have "shrinks (tevt_of ?s1 me) te'" using E(2) by (simp add: te'_def cb)
  moreover have "same_times te (tevt_of ?s1 me)" using r by (simp add: rescheduled_def te_def)
  moreover have "due_events (tevt_of ?s1 me) \<subseteq> due_events te \<union> (if due te tm then {(TM_CYC i, tm)} else {})"
    using rescheduled_due [OF r, of me] by (auto simp: te_def)
  ultimately show ?thesis using E(1) same_times_trans by (auto simp: shrinks_def cb)
qed

lemma work_insert_le:
  assumes "same_times te te'" and "due_events te' \<subseteq> due_events te \<union> (if due te tm then {(b, tm)} else {})"
  shows "work te' \<le> work te + (if due te tm then unat (current_time te - tm) + 1 else 0)"
proof -
  let ?f = "\<lambda>x. unat (current_time te - snd x) + 1"
  let ?A = "if due te tm then {(b, tm)} else {}"
  have "work te' = sum ?f (due_events te')" using assms(1) by (simp add: work_def same_times_def)
  also have "\<dots> \<le> sum ?f (due_events te \<union> ?A)" by (rule sum_mono2) (use assms(2) in auto)
  also have "\<dots> \<le> sum ?f (due_events te) + sum ?f ?A" by (rule sum_Un_nat [THEN eq_refl, THEN le_trans]) simp_all
  finally show ?thesis by (simp add: work_def split: if_splits)
qed

lemma work_pop:
  assumes "rescheduled b None s s1" and "(b, tm) \<in> evset (tevt_of s me)" and "due (tevt_of s me) tm"
  shows "work (tevt_of s1 me) + unat (current_time (tevt_of s me) - tm) + 1 \<le> work (tevt_of s me)"
proof -
  let ?te = "tevt_of s me" and ?f = "\<lambda>x. unat (current_time (tevt_of s me) - snd x) + 1"
  have d: "(b, tm) \<in> due_events ?te" using assms(2,3) by (simp add: due_events_def)
  have "due_events (tevt_of s1 me) \<subseteq> due_events ?te - {(b, tm)}"
    using rescheduled_due [OF assms(1), of me] by auto
  moreover have "work (tevt_of s1 me) = sum ?f (due_events (tevt_of s1 me))"
    using assms(1) by (simp add: work_def rescheduled_def same_times_def)
  ultimately have "work (tevt_of s1 me) \<le> sum ?f (due_events ?te - {(b, tm)})" by (auto intro: sum_mono2)
  moreover have "work ?te = ?f (b, tm) + sum ?f (due_events ?te - {(b, tm)})"
    using d by (simp add: work_def sum.remove)
  ultimately show ?thesis by simp
qed

lemma delete_top_objs: "objs (delete_top p s) = objs s"
  by (simp add: delete_top_def split_beta)

lemma delete_top_ticking: "ticking me s \<Longrightarrow> rescheduled b None s (delete_top p s) \<Longrightarrow> ticking me (delete_top p s)"
  by (erule ticking_reduced) (auto simp: cyc_def delete_top_objs)

text \<open>One round of the loop: everything is in order afterwards, and less is left to do.\<close>

lemma fire_step:
  assumes S: "tick_state C me s" and top: "top_due (tevt_of s me)" and env: "env_ok C me env" and C: "cyc_ok C"
  shows "tick_state C me (fire C me env s)"
    and "same_times (tevt_of s me) (tevt_of (fire C me env s) me)"
    and "work (tevt_of (fire C me env s) me) < work (tevt_of s me)"
proof -
  obtain Q where K: "kinv C {} Q s" and tk: "ticking me s" using S by (auto simp: tick_state_def)
  let ?te = "tevt_of s me"
  have n: "0 < last_index ?te" using top by (simp add: top_due_def)
  obtain b tm where e: "evnode ?te 1 = (b, tm)" by fastforce
  let ?s1 = "delete_top me s"
  note D = delete_top_popped [OF K n e]
  have cyc: "cyc ?s1 i = cyc s i" for i by (simp add: cyc_def delete_top_objs)
  have tk1: "ticking me ?s1" by (rule delete_top_ticking [OF tk D(2)])
  have st: "same_times ?te (tevt_of ?s1 me)" using D(2) by (simp add: rescheduled_def)
  have du: "due ?te tm" using top e by (auto simp: top_due_def due_def evnode_def)
  note P = work_pop [OF D(2,3) du]
  have f: "fire C me env s = callback C me env b ?s1" using e by (simp add: fire_def evnode_def)
  have "tick_state C me (fire C me env s) \<and> same_times ?te (tevt_of (fire C me env s) me) \<and>
    work (tevt_of (fire C me env s) me) < work ?te"
  proof (cases b)
    case (TM_CYC i)
    have tm: "tm = evttim (cyc s i)" using tk D(3) unfolding ticking_def cyc_times_def TM_CYC by blast
    let ?t = "tm + cyctim (cycinib_table C i)"
    note F = fire_cyc [OF D(1,5,6) [unfolded TM_CYC] tk1 env, folded TM_CYC, folded f]
    have t: "evttim (cyc ?s1 i) + cyctim (cycinib_table C i) = ?t" by (simp add: cyc tm)
    note F' = F [unfolded t due_same [OF st]]
    have ct: "current_time (tevt_of ?s1 me) = current_time ?te" using st by (simp add: same_times_def)
    have "work (tevt_of (fire C me env s) me) \<le>
        work (tevt_of ?s1 me) + (if due ?te ?t then unat (current_time ?te - ?t) + 1 else 0)"
      using work_insert_le [of "tevt_of ?s1 me" "tevt_of (fire C me env s) me" ?t b, unfolded due_same [OF st] ct] F'
      by blast
    moreover have "unat (current_time ?te - ?t) < unat (current_time ?te - tm)" if "due ?te ?t"
      using next_firing [of "current_time ?te" "min_time ?te" tm "cyctim (cycinib_table C i)"] tk du that C
      by (simp add: word_less_nat_alt due_def EVTTIM_LE_def ticking_def clock_in_tick_def cyc_ok_def)
    ultimately show ?thesis using P F' same_times_trans [OF st] by (auto split: if_splits)
  next
    case (TM_TSK t)
    note F = fire_task [OF D(1,5) [unfolded TM_TSK] tk1 env, folded TM_TSK, folded f]
    then show ?thesis using P shrinks_work [of "tevt_of ?s1 me" "tevt_of (fire C me env s) me"] same_times_trans [OF st]
      by (auto simp: shrinks_def)
  next
    case (TM_ALM i)
    note F = fire_alm [OF D(1,5) [unfolded TM_ALM] tk1 env, folded TM_ALM, folded f]
    then show ?thesis using P shrinks_work [of "tevt_of ?s1 me" "tevt_of (fire C me env s) me"] same_times_trans [OF st]
      by (auto simp: shrinks_def)
  qed
  then show "tick_state C me (fire C me env s)" "same_times ?te (tevt_of (fire C me env s) me)"
    "work (tevt_of (fire C me env s) me) < work ?te" by simp_all
qed

lemma none_due:
  assumes h: "heap_inv te ix" and n: "\<not> top_due te"
  shows "due_events te = {}"
proof -
  have False if x: "x \<in> due_events te" for x
  proof -
    have e: "(fst x, snd x) \<in> evset te" and d: "EVTTIM_LE te (snd x) (current_time te)"
      using x by (auto simp: due_events_def due_def)
    have "0 < last_index te" using e evset_nonempty [of te] by auto
    moreover have "EVTTIM_LE te (time (TMEVT_NODE te 1)) (current_time te)"
      using EVTTIM_LE_trans [OF heap_top_min [OF h e] d] .
    ultimately show False using n by (simp add: top_due_def)
  qed
  then show ?thesis by blast
qed

lemma signal_loop_rule:
  assumes env: "env_ok C me env" and C: "cyc_ok C"
    and step: "\<And>s. tick_state C me s \<Longrightarrow> top_due (tevt_of s me) \<Longrightarrow> I s \<Longrightarrow> I (fire C me env s)"
    and S: "tick_state C me s" and I: "I s"
  shows "\<exists>s'. signal_loop C me env s = Some s' \<and> tick_state C me s' \<and> I s' \<and>
    same_times (tevt_of s me) (tevt_of s' me) \<and> due_events (tevt_of s' me) = {}"
  using S I
proof (induction "work (tevt_of s me)" arbitrary: s rule: less_induct)
  case less
  show ?case
  proof (cases "top_due (tevt_of s me)")
    case True
    note F = fire_step [OF less.prems(1) True env C]
    obtain s' where s': "signal_loop C me env (fire C me env s) = Some s'" "tick_state C me s'" "I s'"
      "same_times (tevt_of (fire C me env s) me) (tevt_of s' me)" "due_events (tevt_of s' me) = {}"
      using less.hyps [OF F(3,1) step [OF less.prems(1) True less.prems(2)]] by blast
    then show ?thesis using True same_times_trans [OF F(2) s'(4)] by (subst signal_loop.simps) simp
  next
    case False
    obtain Q where "kinv C {} Q s" using less.prems(1) by (auto simp: tick_state_def)
    then have "due_events (tevt_of s me) = {}" using none_due [OF tinvD(1) [OF kinvD(2)] False] by blast
    then show ?thesis using less.prems False by (subst signal_loop.simps) simp
  qed
qed

lemma upd_tevt_kinv:
  assumes K: "kinv C P Q s" and h: "heap_inv (f (tevt_of s p)) (tm_index s)"
    and e: "evset (f (tevt_of s p)) = evset (tevt_of s p)"
  shows "kinv C P Q (upd_tevt p f s)"
proof -
  have r: "registered (upd_tevt p f s) q = registered s q" for q using e by (simp add: registered_def upd_tevt_def)
  have hi: "heap_inv (tevt_of (upd_tevt p f s) q) (tm_index s)" for q
    using h tinvD(1) [OF kinvD(2) [OF K], of q] by (simp add: upd_tevt_def)
  have pl: "tm_place (upd_tevt p f s) = tm_place s" "cb_ok (upd_tevt p f s) = cb_ok s"
    by (auto simp: fun_eq_iff tm_place_def cb_ok_def upd_tevt_def)
  have "tskinv {} s" using tinvD(5) [OF kinvD(2) [OF K]] .
  then have "tskinv {} (upd_tevt p f s)"
    using hi unfolding tskinv_def r pl by (simp add: upd_tevt_def)
  moreover have "hinv (upd_tevt p f s)"
    by (rule hinv_frame [OF tinvD(6) [OF kinvD(2) [OF K]]]) (simp add: same_handlers_def upd_tevt_def, simp add: r)
  moreover have "qinv {} Q (upd_tevt p f s)"
    by (rule qinv_frame [OF kinvD(1) [OF K]]) (simp_all add: upd_tevt_def)
  ultimately show ?thesis using kinvD(3,8,9) [OF K]
    by (simp add: kinv_def tinv_def dinv_def rinv_def sinv_def upd_tevt_def)
qed

lemma evset_clock [simp]:
  "evset (te\<lparr>min_time := m\<rparr>) = evset te" "evset (te\<lparr>current_time := c\<rparr>) = evset te"
  "evset (te\<lparr>next_time := n\<rparr>) = evset te"
  by (simp_all add: evset_def evnode_def TMEVT_NODE_def)

lemma heap_clock [simp]:
  "heap_inv (te\<lparr>current_time := c\<rparr>) ix = heap_inv te ix" "heap_inv (te\<lparr>next_time := n\<rparr>) ix = heap_inv te ix"
  by (simp_all add: heap_inv_def TMEVT_NODE_def EVTTIM_LE_def)

lemma upd_tevt_sel [simp]:
  "tevt_of (upd_tevt p f s) = (tevt_of s)(p := f (tevt_of s p))" "tcb_of (upd_tevt p f s) = tcb_of s"
  "objs (upd_tevt p f s) = objs s" "tm_callback (upd_tevt p f s) = tm_callback s"
  by (simp_all add: upd_tevt_def)

text \<open>Between two ticks: the clock is at rest and nothing registered is late.\<close>

definition rest_state :: "cfg \<Rightarrow> prcix \<Rightarrow> kstate \<Rightarrow> bool" where
  "rest_state C me s \<longleftrightarrow> (\<exists>Q. kinv C {} Q s) \<and> cyc_times s \<and> clock_at_rest (tevt_of s me)"

lemma advance_tick:
  assumes R: "rest_state C me s"
  shows "tick_state C me (advance me s)"
    and "current_time (tevt_of (advance me s) me) = current_time (tevt_of s me) + 1"
    and "min_time (tevt_of (advance me s) me) = current_time (tevt_of s me)"
    and "evset (tevt_of (advance me s) q) = evset (tevt_of s q)"
proof -
  obtain Q where K: "kinv C {} Q s" and cy: "cyc_times s" and ck: "clock_at_rest (tevt_of s me)"
    using R by (auto simp: rest_state_def)
  have ev: "evset (tevt_of (advance me s) q) = evset (tevt_of s q)" for q
    by (simp add: advance_def Let_def)
  then show "evset (tevt_of (advance me s) q) = evset (tevt_of s q)" .
  show c: "current_time (tevt_of (advance me s) me) = current_time (tevt_of s me) + 1"
    "min_time (tevt_of (advance me s) me) = current_time (tevt_of s me)"
    using ck by (simp_all add: advance_def Let_def clock_at_rest_def)
  have "kinv C {} Q (advance me s)" unfolding advance_def
    by (rule upd_tevt_kinv [OF K]) (simp_all add: Let_def tinvD(1) [OF kinvD(2) [OF K]])
  moreover have "cyc_times (advance me s)"
    using cy unfolding cyc_times_def ev by (simp add: cyc_def advance_def)
  moreover have "clock_in_tick (tevt_of (advance me s) me)"
    using c by (simp add: clock_in_tick_def) (simp add: advance_def Let_def)
  ultimately show "tick_state C me (advance me s)" by (auto simp: tick_state_def ticking_def)
qed

lemma tick_end:
  assumes S: "tick_state C me s" and n: "due_events (tevt_of s me) = {}"
  defines "s' \<equiv> upd_tevt me (\<lambda>te. te\<lparr>min_time := current_time te\<rparr>) s"
  shows "rest_state C me s'" and "(b, current_time (tevt_of s' me)) \<notin> evset (tevt_of s' me)"
proof -
  obtain Q where K: "kinv C {} Q s" and tk: "ticking me s" using S by (auto simp: tick_state_def)
  have nd: "\<not> EVTTIM_LE (tevt_of s me) t (current_time (tevt_of s me))" if "(b, t) \<in> evset (tevt_of s me)" for b t
    using n that by (auto simp: due_events_def due_def)
  have "heap_inv ((tevt_of s me)\<lparr>min_time := current_time (tevt_of s me)\<rparr>) (tm_index s)"
    by (rule heap_inv_shift [OF tinvD(1) [OF kinvD(2) [OF K]]])
      (use nd in \<open>auto simp: EVTTIM_LE_def not_le intro: less_imp_le\<close>)
  then have "kinv C {} Q s'" unfolding s'_def by (intro upd_tevt_kinv [OF K]) simp_all
  moreover have "cyc_times s'" using tk by (auto simp: ticking_def cyc_times_def s'_def cyc_def)
  moreover have "clock_at_rest (tevt_of s' me)"
    using tk by (simp add: ticking_def clock_in_tick_def clock_at_rest_def s'_def)
  ultimately show "rest_state C me s'" by (auto simp: rest_state_def)
  show "(b, current_time (tevt_of s' me)) \<notin> evset (tevt_of s' me)"
    using nd [of b "current_time (tevt_of s me)"] by (auto simp: s'_def EVTTIM_LE_def)
qed

text \<open>A whole tick, with an invariant \<open>I\<close> of the rounds.\<close>

lemma signal_time_rule:
  assumes R: "rest_state C me s" and env: "env_ok C me env" and C: "cyc_ok C"
    and step: "\<And>s. tick_state C me s \<Longrightarrow> top_due (tevt_of s me) \<Longrightarrow> I s \<Longrightarrow> I (fire C me env s)"
    and I: "I (advance me s)"
  shows "\<exists>s'. signal_time C me env s = Some (upd_tevt me (\<lambda>te. te\<lparr>min_time := current_time te\<rparr>) s') \<and>
    I s' \<and> tick_state C me s' \<and> due_events (tevt_of s' me) = {} \<and>
    same_times (tevt_of (advance me s) me) (tevt_of s' me)"
  using signal_loop_rule [of C me env I "advance me s", OF env C step advance_tick(1) [OF R] I]
  by (auto simp: signal_time_def)

section \<open>When a timed wait ends\<close>

lemma make_runnable_tcb' [simp]: "tcb_of (snd (make_runnable t s)) = tcb_of s"
  by (simp add: make_runnable_def Let_def primap_set_def set_schedtsk_def on_kq_def split: option.split)

lemma wait_tmout_end_tcb:
  "tcb_of (wait_tmout_end me t e s) = (tcb_of s)(t := ended_tcb e (tcb_of s t))"
  by (simp add: wait_tmout_end_eq split_beta make_non_wait_eq set_wercd_def ended_tcb_def)
    (simp add: i_request_def dispatch_request_def target_ipi_raise_def set_reqflg_def)

definition tmout_ercd :: "tcb \<Rightarrow> ercd" where
  "tmout_ercd tc = (if tstat tc AND TS_WAIT_MASK = TS_WAIT_DLY then E_OK else E_TMOUT)"

text \<open>
  \<open>env_keeps\<close>: nobody else wakes the task or touches its event.  \<open>awaits\<close>: the task is as it was
  when it began to wait as long as its event is registered, and released by the time-out after.
\<close>

definition env_keeps :: "cfg \<Rightarrow> prcix \<Rightarrow> tskix \<Rightarrow> (window \<Rightarrow> kstate \<Rightarrow> kstate) \<Rightarrow> bool" where
  "env_keeps C me t env \<longleftrightarrow> (\<forall>w s tm. tick_state C me s \<longrightarrow> tcb_of (env w s) t = tcb_of s t \<and>
     ((TM_TSK t, tm) \<in> evset (tevt_of (env w s) me) \<longleftrightarrow> (TM_TSK t, tm) \<in> evset (tevt_of s me)))"

definition awaits :: "prcix \<Rightarrow> tskix \<Rightarrow> evttim \<Rightarrow> tcb \<Rightarrow> kstate \<Rightarrow> bool" where
  "awaits me t tm tc s \<longleftrightarrow>
     tcb_of s t = (if (TM_TSK t, tm) \<in> evset (tevt_of s me) then tc else ended_tcb (tmout_ercd tc) tc)"

definition same_wait :: "prcix \<Rightarrow> tskix \<Rightarrow> evttim \<Rightarrow> kstate \<Rightarrow> kstate \<Rightarrow> bool" where
  "same_wait me t tm s s' \<longleftrightarrow> tcb_of s' t = tcb_of s t \<and>
     ((TM_TSK t, tm) \<in> evset (tevt_of s' me) \<longleftrightarrow> (TM_TSK t, tm) \<in> evset (tevt_of s me))"

lemma same_wait_trans: "same_wait me t tm a b \<Longrightarrow> same_wait me t tm b c \<Longrightarrow> same_wait me t tm a c"
  by (simp add: same_wait_def)

lemma env_same_wait: "env_keeps C me t env \<Longrightarrow> tick_state C me s \<Longrightarrow> same_wait me t tm s (env w s)"
  by (simp add: env_keeps_def same_wait_def)

lemma wait_tmout_2_sel: "tevt_of (wait_tmout_2 me u s) = tevt_of s"
  by (simp add: wait_tmout_2_def Let_def wait_tmout_end_sel)

lemma wait_tmout_2_tcb:
  "tcb_of (wait_tmout_2 me t s) =
    (if pend_relwai (tcb_of s t) then (tcb_of s)(t := ended_tcb E_TMOUT (tcb_of s t)) else tcb_of s)"
  by (simp add: wait_tmout_2_def Let_def wait_tmout_end_tcb ended_tcb_pend)

lemma callback_other:
  assumes k: "env_keeps C me t env" and env: "env_ok C me env" and p: "popped C Q b s" and c: "cause s b"
    and tk: "ticking me s" and b: "b \<noteq> TM_TSK t"
  shows "same_wait me t tm s (callback C me env b s)"
proof (cases b)
  case (TM_TSK u)
  have u: "u \<noteq> t" using TM_TSK b by simp
  note p' = p [unfolded TM_TSK] and c' = c [unfolded TM_TSK]
  show ?thesis
  proof (cases "TSTAT_WAIT_WOBJ (tstat (tcb_of s u))")
    case False
    then obtain e where e: "callback C me env b s = env (Preempt u) (wait_tmout_end me u e s)"
      using callback_task(1) [OF c'] TM_TSK by blast
    have "same_wait me t tm s (wait_tmout_end me u e s)"
      using u by (simp add: same_wait_def wait_tmout_end_tcb wait_tmout_end_sel)
    then show ?thesis unfolding e
      by (rule same_wait_trans [OF _ env_same_wait [OF k tick_wait_end [OF p' c' tk False]]])
  next
    case True
    let ?s2 = "env (Relock u) (relock u s)"
    note R = tick_relock [OF p' tk True]
    note E = env_step [OF env R, of "Relock u"]
    have n: "tm_callback (relock u s) (TM_TSK u) = None" by (simp add: relock_def)
    note W = tick_wait_tmout_2 [OF E(1) E(3) [OF refl n]]
    have "same_wait me t tm s (relock u s)" using u by (simp add: same_wait_def relock_def)
    from same_wait_trans [OF this env_same_wait [OF k R]] have 2: "same_wait me t tm s ?s2" .
    have "same_wait me t tm ?s2 (wait_tmout_2 me u ?s2)"
      using u by (simp add: same_wait_def wait_tmout_2_sel wait_tmout_2_tcb)
    from same_wait_trans [OF same_wait_trans [OF 2 this] env_same_wait [OF k W, where w = "Preempt u"]]
    show ?thesis using 2 callback_task(2) [OF c' True, of C me env] TM_TSK by (auto simp: Let_def)
  qed
next
  case (TM_CYC i)
  note T = tick_cychdr [OF p [unfolded TM_CYC] c [unfolded TM_CYC] tk]
  have "same_wait me t tm s (call_cychdr_1 C i s)" using T(2,3) by (auto simp: same_wait_def rescheduled_def)
  from same_wait_trans [OF this env_same_wait [OF k T(1), where w = "Cychdr i"]] show ?thesis
    using c TM_CYC by (simp add: callback_def cause_def call_cychdr_2_def same_wait_def)
next
  case (TM_ALM i)
  have "same_wait me t tm s (call_almhdr_1 i s)" by (simp add: same_wait_def call_almhdr_1_def)
  from same_wait_trans [OF this env_same_wait [OF k tick_almhdr [OF p [unfolded TM_ALM] tk], where w = "Almhdr i"]]
  show ?thesis using c TM_ALM by (simp add: callback_def cause_def call_almhdr_2_def same_wait_def)
qed

lemma callback_self:
  assumes k: "env_keeps C me t env" and env: "env_ok C me env" and p: "popped C Q (TM_TSK t) s"
    and c: "cause s (TM_TSK t)" and tk: "ticking me s"
  shows "tcb_of (callback C me env (TM_TSK t) s) t = ended_tcb (tmout_ercd (tcb_of s t)) (tcb_of s t)"
    and "(TM_TSK t, tm) \<in> evset (tevt_of (callback C me env (TM_TSK t) s) me) \<longleftrightarrow> (TM_TSK t, tm) \<in> evset (tevt_of s me)"
proof -
  have "tcb_of (callback C me env (TM_TSK t) s) t = ended_tcb (tmout_ercd (tcb_of s t)) (tcb_of s t) \<and>
    ((TM_TSK t, tm) \<in> evset (tevt_of (callback C me env (TM_TSK t) s) me) \<longleftrightarrow> (TM_TSK t, tm) \<in> evset (tevt_of s me))"
  proof (cases "TSTAT_WAIT_WOBJ (tstat (tcb_of s t))")
    case False
    obtain e where e: "callback C me env (TM_TSK t) s = env (Preempt t) (wait_tmout_end me t e s)"
      "e = tmout_ercd (tcb_of s t)"
      using callback_task(1) [OF c False] by (auto simp: tmout_ercd_def)
    from env_same_wait [OF k tick_wait_end [OF p c tk False, where e = e], where tm = tm and w = "Preempt t"] show ?thesis
      by (simp add: e same_wait_def wait_tmout_end_tcb wait_tmout_end_sel)
  next
    case True
    let ?s2 = "env (Relock t) (relock t s)"
    note R = tick_relock [OF p tk True]
    note E = env_step [OF env R, of "Relock t"]
    have n: "tm_callback (relock t s) (TM_TSK t) = None" by (simp add: relock_def)
    note W = tick_wait_tmout_2 [OF E(1) E(3) [OF refl n]]
    have 2: "tcb_of ?s2 t = (tcb_of s t)\<lparr>pend_relwai := True\<rparr>"
      "(TM_TSK t, tm) \<in> evset (tevt_of ?s2 me) \<longleftrightarrow> (TM_TSK t, tm) \<in> evset (tevt_of s me)"
      using env_same_wait [OF k R, of tm "Relock t"] by (simp_all add: same_wait_def relock_def)
    have r: "tmout_ercd (tcb_of s t) = E_TMOUT" using callback_task(2) [OF c True] by (simp add: tmout_ercd_def)
    from env_same_wait [OF k W, of tm "Preempt t"] show ?thesis
      using callback_task(2) [OF c True, of C me env] 2
      by (simp add: Let_def same_wait_def wait_tmout_2_sel wait_tmout_2_tcb r ended_tcb_pend)
  qed
  then show "tcb_of (callback C me env (TM_TSK t) s) t = ended_tcb (tmout_ercd (tcb_of s t)) (tcb_of s t)"
    "(TM_TSK t, tm) \<in> evset (tevt_of (callback C me env (TM_TSK t) s) me) \<longleftrightarrow> (TM_TSK t, tm) \<in> evset (tevt_of s me)"
    by blast+
qed

lemma fire_awaits:
  assumes S: "tick_state C me s" and top: "top_due (tevt_of s me)" and k: "env_keeps C me t env"
    and env: "env_ok C me env"
    and A: "awaits me t tm tc s" and nd: "\<not> due (tevt_of s me) tm \<longrightarrow> (TM_TSK t, tm) \<in> evset (tevt_of s me)"
  shows "awaits me t tm tc (fire C me env s)"
    and "\<not> due (tevt_of s me) tm \<longrightarrow> (TM_TSK t, tm) \<in> evset (tevt_of (fire C me env s) me)"
proof -
  obtain Q where K: "kinv C {} Q s" using S by (auto simp: tick_state_def)
  have n: "0 < last_index (tevt_of s me)" using top by (simp add: top_due_def)
  obtain b u where e: "evnode (tevt_of s me) 1 = (b, u)" by fastforce
  let ?s1 = "delete_top me s"
  note D = delete_top_popped [OF K n e]
  have f: "fire C me env s = callback C me env b ?s1" using e by (simp add: fire_def evnode_def)
  have tcb: "tcb_of ?s1 = tcb_of s" using D(4) by (metis kstate.select_convs(1) kstate.surjective kstate.update_convs(4,5))
  have du: "due (tevt_of s me) u" using top e by (auto simp: top_due_def due_def evnode_def)
  have tk1: "ticking me ?s1" using S D(2) delete_top_ticking by (auto simp: tick_state_def)
  have ev: "(TM_TSK t, tm) \<in> evset (tevt_of ?s1 me) \<longleftrightarrow> (TM_TSK t, tm) \<in> evset (tevt_of s me) \<and> b \<noteq> TM_TSK t"
    using D(2) by (auto simp: rescheduled_def)
  have "awaits me t tm tc (fire C me env s) \<and>
    (\<not> due (tevt_of s me) tm \<longrightarrow> (TM_TSK t, tm) \<in> evset (tevt_of (fire C me env s) me))"
  proof (cases "b = TM_TSK t")
    case True
    have w: "TSTAT_WAITING (tstat (tcb_of s t))" using D(5) True tcb by (simp add: cause_def)
    then have in_ev: "(TM_TSK t, tm) \<in> evset (tevt_of s me)"
      using A by (auto simp: awaits_def ended_tcb_def released_tcb_def split: if_splits)
    then have "tm = u"
      using evq.unique [of "(tevt_of s me, tm_index s)" b tm u] D(3) True tinvD(1) [OF kinvD(2) [OF K], of me] by simp
    then show ?thesis
      using callback_self(1) [OF k env D(1,5) [unfolded True] tk1]
        callback_self(2) [OF k env D(1,5) [unfolded True] tk1, where tm = tm] f True ev A in_ev du tcb by (simp add: awaits_def)
  next
    case False
    then show ?thesis using callback_other [OF k env D(1,5) tk1 False, of tm] f ev A nd tcb by (simp add: awaits_def same_wait_def)
  qed
  then show "awaits me t tm tc (fire C me env s)"
    "\<not> due (tevt_of s me) tm \<longrightarrow> (TM_TSK t, tm) \<in> evset (tevt_of (fire C me env s) me)" by blast+
qed

lemma signal_time_awaits:
  assumes R: "rest_state C me s" and env: "env_ok C me env" and C: "cyc_ok C" and k: "env_keeps C me t env"
    and ev: "(TM_TSK t, tm) \<in> evset (tevt_of s me)" and tc: "tcb_of s t = tc"
    and late: "tm \<noteq> current_time (tevt_of s me)"
  shows "\<exists>s'. signal_time C me env s = Some s' \<and> rest_state C me s' \<and>
    current_time (tevt_of s' me) = current_time (tevt_of s me) + 1 \<and> awaits me t tm tc s' \<and>
    ((TM_TSK t, tm) \<in> evset (tevt_of s' me) \<longleftrightarrow> tm \<noteq> current_time (tevt_of s me) + 1)"
proof -
  let ?s = "advance me s"
  note A = advance_tick [OF R]
  have "(TM_TSK t, tm) \<in> evset (tevt_of ?s me)" using A(4) ev by simp
  then have I: "awaits me t tm tc ?s \<and> same_times (tevt_of ?s me) (tevt_of ?s me) \<and>
      (\<not> due (tevt_of ?s me) tm \<longrightarrow> (TM_TSK t, tm) \<in> evset (tevt_of ?s me))"
    using tc by (simp add: awaits_def advance_def)
  have step: "awaits me t tm tc (fire C me env x) \<and> same_times (tevt_of ?s me) (tevt_of (fire C me env x) me) \<and>
      (\<not> due (tevt_of ?s me) tm \<longrightarrow> (TM_TSK t, tm) \<in> evset (tevt_of (fire C me env x) me))"
    if x: "tick_state C me x" "top_due (tevt_of x me)" "awaits me t tm tc x \<and>
        same_times (tevt_of ?s me) (tevt_of x me) \<and>
        (\<not> due (tevt_of ?s me) tm \<longrightarrow> (TM_TSK t, tm) \<in> evset (tevt_of x me))" for x
  proof -
    have d: "due (tevt_of x me) tm = due (tevt_of ?s me) tm" using x(3) by (simp add: due_same)
    note fire_awaits [OF x(1,2) k env, of tm tc, unfolded d]
    then show ?thesis using x(3) same_times_trans fire_step(2) [OF x(1,2) env C] by blast
  qed
  obtain s1 where s1: "signal_time C me env s = Some (upd_tevt me (\<lambda>te. te\<lparr>min_time := current_time te\<rparr>) s1)"
    "awaits me t tm tc s1" "\<not> due (tevt_of ?s me) tm \<longrightarrow> (TM_TSK t, tm) \<in> evset (tevt_of s1 me)"
    "tick_state C me s1" "due_events (tevt_of s1 me) = {}" "same_times (tevt_of ?s me) (tevt_of s1 me)"
    using signal_time_rule [OF R env C, of "\<lambda>x. awaits me t tm tc x \<and> same_times (tevt_of ?s me) (tevt_of x me) \<and>
        (\<not> due (tevt_of ?s me) tm \<longrightarrow> (TM_TSK t, tm) \<in> evset (tevt_of x me))", OF step I] by blast
  have d: "due (tevt_of ?s me) tm \<longleftrightarrow> tm = current_time (tevt_of s me) + 1"
  proof -
    let ?c = "current_time (tevt_of s me)"
    have "due (tevt_of ?s me) tm \<longleftrightarrow> tm - ?c \<le> 1" using A(2,3) by (simp add: due_def EVTTIM_LE_def)
    also have "\<dots> \<longleftrightarrow> tm - ?c = 0 \<or> tm - ?c = 1" by (auto simp: word_le_nat_alt word_unat_eq_iff)
    also have "\<dots> \<longleftrightarrow> tm = ?c + 1" using late by (auto simp: algebra_simps)
    finally show ?thesis .
  qed
  have d1: "due (tevt_of s1 me) tm = due (tevt_of ?s me) tm" by (rule due_same [OF s1(6)])
  have "(TM_TSK t, tm) \<in> evset (tevt_of s1 me) \<longleftrightarrow> tm \<noteq> current_time (tevt_of s me) + 1"
    using s1(3,5) d d1 by (auto simp: due_events_def)
  moreover have "current_time (tevt_of s1 me) = current_time (tevt_of s me) + 1"
    using s1(6) A(2) by (simp add: same_times_def)
  ultimately show ?thesis using s1(1,2) tick_end(1) [OF s1(4,5)] by (simp add: awaits_def)
qed

primrec ticks :: "cfg \<Rightarrow> prcix \<Rightarrow> (window \<Rightarrow> kstate \<Rightarrow> kstate) \<Rightarrow> nat \<Rightarrow> kstate \<Rightarrow> kstate option" where
  "ticks C me env 0 s = Some s"
| "ticks C me env (Suc n) s = Option.bind (ticks C me env n s) (signal_time C me env)"

lemma of_nat_neq: "j < k \<Longrightarrow> k < 2 ^ 32 \<Longrightarrow> (of_nat j :: 32 word) \<noteq> of_nat k"
proof
  assume a: "j < k" "k < 2 ^ 32" and e: "(of_nat j :: 32 word) = of_nat k"
  have "unat (of_nat x :: 32 word) = x" if "x < 2 ^ 32" for x using that by (simp add: unsigned_of_nat take_bit_nat_eq_self)
  from this [of j] this [of k] show False using a e by simp
qed

lemma ticks_awaits:
  assumes R: "rest_state C me s" and env: "env_ok C me env" and C: "cyc_ok C" and k: "env_keeps C me t env"
    and ev: "(TM_TSK t, current_time (tevt_of s me) + of_nat k) \<in> evset (tevt_of s me)"
    and kk: "0 < k" "k < 2 ^ 32" and n: "n \<le> k"
  shows "\<exists>s'. ticks C me env n s = Some s' \<and> rest_state C me s' \<and>
    current_time (tevt_of s' me) = current_time (tevt_of s me) + of_nat n \<and>
    ((TM_TSK t, current_time (tevt_of s me) + of_nat k) \<in> evset (tevt_of s' me) \<longleftrightarrow> n < k) \<and>
    tcb_of s' t = (if n < k then tcb_of s t else ended_tcb (tmout_ercd (tcb_of s t)) (tcb_of s t))"
  using n
proof (induction n)
  case 0
  then show ?case using R ev kk by simp
next
  case (Suc n)
  let ?c = "current_time (tevt_of s me)"
  obtain s1 where s1: "ticks C me env n s = Some s1" "rest_state C me s1"
    "current_time (tevt_of s1 me) = ?c + of_nat n" "(TM_TSK t, ?c + of_nat k) \<in> evset (tevt_of s1 me)"
    "tcb_of s1 t = tcb_of s t"
    using Suc by auto
  have "?c + of_nat k \<noteq> current_time (tevt_of s1 me)" using of_nat_neq [of n k] Suc.prems kk s1(3) by simp
  from signal_time_awaits [OF s1(2) env C k s1(4,5) this] obtain s2 where
    s2: "signal_time C me env s1 = Some s2" "rest_state C me s2"
      "current_time (tevt_of s2 me) = ?c + of_nat n + 1" "awaits me t (?c + of_nat k) (tcb_of s t) s2"
      "(TM_TSK t, ?c + of_nat k) \<in> evset (tevt_of s2 me) \<longleftrightarrow> ?c + of_nat k \<noteq> ?c + of_nat n + 1"
    using s1(3) by auto
  have "(?c + of_nat k = ?c + of_nat n + 1) \<longleftrightarrow> Suc n = k"
    using of_nat_neq [of "Suc n" k] Suc.prems kk(2)
    by (cases "Suc n = k") (auto simp: add.assoc add.commute)
  then show ?case using s1(1) s2 Suc.prems by (auto simp: awaits_def add.assoc add.commute)
qed

text \<open>\<open>dly_tsk\<close> registers the event one tick and the delay after the current time.\<close>

lemma make_non_runnable_sel:
  "tevt_of (snd (make_non_runnable t s)) = tevt_of s" "tm_index (snd (make_non_runnable t s)) = tm_index s"
  "tm_callback (snd (make_non_runnable t s)) = tm_callback s" "tcb_of (snd (make_non_runnable t s)) = tcb_of s"
  "objs (snd (make_non_runnable t s)) = objs s"
  by (simp_all add: make_non_runnable_def Let_def set_schedtsk_def primap_clear_def on_kq_def)

lemma dly_tsk_event:
  assumes R: "rest_state C me s" and eq: "dly_tsk me d s = (Blocks t, s')"
  shows "t = runtsk me s" and "rest_state C me s'" and "d \<le> TMAX_RELTIM"
    and "current_time (tevt_of s' me) = current_time (tevt_of s me)"
    and "(TM_TSK t, current_time (tevt_of s me) + 1 + d) \<in> evset (tevt_of s' me)"
    and "tcb_of s' t = (tcb_of s t)\<lparr>tstat := TS_WAITING OR TS_WAIT_DLY\<rparr>"
proof -
  obtain Q where K: "kinv C {} Q s" and cy: "cyc_times s" and ck: "clock_at_rest (tevt_of s me)"
    using R by (auto simp: rest_state_def)
  let ?t = "runtsk me s"
  let ?s0 = "snd (make_non_runnable ?t (set_tstat ?t (TS_WAITING OR TS_WAIT_DLY) s))"
  have g: "t = ?t" "TSTAT_RUNNABLE (tstat (tcb_of s ?t))" "d \<le> TMAX_RELTIM"
    "s' = dispatch me (tmevtb_enqueue me (TM_TSK ?t) d CB_wait_tmout_ok ?s0)"
    using eq by (auto simp: dly_tsk_def Let_def split_beta split: if_splits)
  then show "t = ?t" "d \<le> TMAX_RELTIM" by auto
  have s0: "tevt_of ?s0 = tevt_of s" "tm_index ?s0 = tm_index s" "objs ?s0 = objs s"
    "tcb_of ?s0 = (tcb_of s)(?t := (tcb_of s ?t)\<lparr>tstat := TS_WAITING OR TS_WAIT_DLY\<rparr>)"
    by (simp_all add: make_non_runnable_sel set_tstat_def)
  have "\<not> TSTAT_WAITING (tstat (tcb_of s ?t))"
    using g(2) wf_self [OF K, of ?t] by (auto simp: wf_tcb_def wf_tstats_def tstat_macros tstat_consts)
  then have nr: "TM_TSK ?t \<notin> fst ` evset (tevt_of s me)"
    using tinvD(3) [OF kinvD(2) [OF K], of ?t me] by (auto simp: tm_place_def registered_def)
  obtain te ix where i: "tmevtb_insert (TM_TSK ?t) (base_time (tevt_of s me) + d) (tevt_of s me, tm_index s) = (te, ix)"
    by fastforce
  note I = tmevtb_insert_correct [OF tinvD(1) [OF kinvD(2) [OF K]] nr i]
  have s': "tevt_of s' = (tevt_of s)(me := te)" "objs s' = objs s" "tcb_of s' = tcb_of ?s0"
    using i by (simp_all add: g(4) dispatch_def tmevtb_enqueue_def Let_def s0)
  have b: "base_time (tevt_of s me) = current_time (tevt_of s me) + 1"
    using ck by (simp add: clock_at_rest_def base_time_def)
  have st: "same_times (tevt_of s me) te" using I by simp
  show "current_time (tevt_of s' me) = current_time (tevt_of s me)" using st s'(1) by (simp add: same_times_def)
  show "(TM_TSK t, current_time (tevt_of s me) + 1 + d) \<in> evset (tevt_of s' me)" using I s'(1) b g(1) by simp
  show "tcb_of s' t = (tcb_of s t)\<lparr>tstat := TS_WAITING OR TS_WAIT_DLY\<rparr>" by (simp add: s'(3) s0(4) g(1))
  have "\<exists>Q'. kinv C {} Q' s'" using dly_tsk_step [OF K, of me d] eq by (auto simp: task_step_def)
  moreover have "clock_at_rest (tevt_of s' me)" using ck st s'(1) by (simp add: clock_at_rest_def same_times_def)
  moreover have "(TM_CYC j, u) \<in> evset (tevt_of s' q) \<longleftrightarrow> (TM_CYC j, u) \<in> evset (tevt_of s q)" for j u q
    using I by (simp add: s'(1))
  then have "cyc_times s'" using cy by (simp add: cyc_times_def cyc_def s'(2))
  ultimately show "rest_state C me s'" by (simp add: rest_state_def)
qed

text \<open>Application code that starts an alarm in a handler is an environment in order.\<close>

lemma alm_effect_env:
  assumes K: "kinv C {} Q s" and tk: "ticking me s" and A: "alm_effect C {} Q i s r s'"
    and cy: "cyccb_of (objs s') = cyccb_of (objs s)"
  shows "(\<exists>Q'. kinv C {} Q' s') \<and> ticking me s' \<and> shrinks (tevt_of s me) (tevt_of s' me)"
proof (cases "s' = s")
  case True
  then show ?thesis using K tk by auto
next
  case False
  then obtain r' where H: "handler_step C {} Q (TM_ALM i) r' s s'"
    and nd: "\<And>p tm. r' = Some (p, tm) \<Longrightarrow> p = me \<Longrightarrow> \<not> due (tevt_of s me) tm"
    using A base_not_due [of "tevt_of s me"] tk
    by (auto simp: alm_effect_def Let_def ticking_def split: if_splits)
  then have R: "rescheduled (TM_ALM i) r' s s'" by (simp add: handler_step_def)
  have "ticking me s'" by (rule ticking_reduced [OF tk R]) (use cy in \<open>simp_all add: cyc_def\<close>)
  then show ?thesis using rescheduled_shrinks [OF R nd] H by (auto simp: handler_step_def)
qed

text \<open>An event that has just been set is not nearer than the next tick, and its distance is exact.\<close>

lemma left_time_set:
  assumes "clock_in_tick te" and "tm \<le> TMAX_RELTIM"
  shows "(if EVTTIM_LE te (base_time te + tm) (next_time te) then 0 else base_time te + tm - base_time te) = tm"
proof -
  let ?d = "next_time te - min_time te"
  have e: "?d = current_time te - min_time te + 1" using assms(1) by (simp add: clock_in_tick_def)
  have d: "unat ?d \<le> 2" unfolding e
    using assms(1) by (subst unat_plus_if') (auto simp: clock_in_tick_def word_le_nat_alt)
  have t: "unat tm < 2 ^ 31" using assms(2) by (simp add: word_le_nat_alt TMAX_RELTIM_def)
  have b: "base_time te + tm - min_time te = ?d + tm" by (simp add: base_time_def)
  have u: "unat (?d + tm) = unat ?d + unat tm" using d t by (subst unat_plus_if') auto
  have "EVTTIM_LE te (base_time te + tm) (next_time te) \<longleftrightarrow> tm = 0"
    unfolding EVTTIM_LE_def b word_le_nat_alt u by (simp add: unat_eq_0)
  then show ?thesis by simp
qed

end
