(* ===== verification/Timer_Properties.thy ===== *)
theory Timer_Properties
  imports Signal_Time Sample
begin

text \<open>
  The properties of the time management: the tick, timed waits, cyclic and alarm handlers.
\<close>

section \<open>The tick\<close>

text \<open>
  C33: \<open>signal_time\<close> returns, whatever the handlers it calls do within the limits of \<open>env_ok\<close>,
  although a cyclic handler registers itself again while the loop runs.  It advances the clock by
  one tick, fires every event that is due, so that none is left behind, and leaves a state with
  the kernel invariant, with the clock at rest.
\<close>

theorem signal_time_supplies_tick:
  assumes "rest_state C me s" and "env_ok C me env" and "cyc_ok C"
  shows "\<exists>s'. signal_time C me env s = Some s' \<and> rest_state C me s' \<and>
    current_time (tevt_of s' me) = current_time (tevt_of s me) + 1 \<and>
    (\<forall>b. (b, current_time (tevt_of s' me)) \<notin> evset (tevt_of s' me))"
proof -
  obtain s1 where s1: "signal_time C me env s = Some (upd_tevt me (\<lambda>te. te\<lparr>min_time := current_time te\<rparr>) s1)"
    "tick_state C me s1" "due_events (tevt_of s1 me) = {}" "same_times (tevt_of (advance me s) me) (tevt_of s1 me)"
    using signal_time_rule [OF assms, of "\<lambda>_. True"] by auto
  have "current_time (tevt_of s1 me) = current_time (tevt_of s me) + 1"
    using s1(4) advance_tick(2) [OF assms(1)] by (simp add: same_times_def)
  then show ?thesis using s1(1) tick_end [OF s1(2,3)] by auto
qed

text \<open>An environment for the instances: every cyclic handler starts alarm 1 for 5 ticks.\<close>

definition sample_env :: "window \<Rightarrow> kstate \<Rightarrow> kstate" where
  "sample_env w s = (case w of Cychdr i \<Rightarrow> snd (ista_alm sample_cfg 0 1 5 s) | _ \<Rightarrow> s)"

lemma ista_alm_sel:
  "cyccb_of (objs (snd (ista_alm C me a tm s))) = cyccb_of (objs s)"
  "tcb_of (snd (ista_alm C me a tm s)) = tcb_of s"
  by (simp_all add: ista_alm_def alm_start_def alm_restart_def Let_def enqueue_evttim)
    (simp_all add: upd_alm_def)

lemma sample_env_ok: "env_ok sample_cfg 0 sample_env"
proof -
  have env: "(\<exists>Q'. kinv sample_cfg {} Q' (sample_env w s)) \<and> ticking 0 (sample_env w s) \<and>
     shrinks (tevt_of s 0) (tevt_of (sample_env w s) 0) \<and>
     (\<forall>t. w = Relock t \<longrightarrow> tm_callback s (TM_TSK t) = None \<longrightarrow>
        pend_relwai (tcb_of (sample_env w s) t) \<longrightarrow> tm_callback (sample_env w s) (TM_TSK t) = None)"
    if K: "kinv sample_cfg {} Q s" and tk: "ticking 0 s" for w Q s
  proof (cases "\<exists>i. w = Cychdr i")
    case True
    then obtain i where Cychdr: "w = Cychdr i" by blast
    obtain r s' where e: "ista_alm sample_cfg 0 1 5 s = (r, s')" by fastforce
    have "cyccb_of (objs s') = cyccb_of (objs s)" using ista_alm_sel(1) [of sample_cfg 0 1 5 s] e by simp
    from alm_effect_env [OF K tk alm_services(2) [OF K e] this] show ?thesis
      using Cychdr e by (simp add: sample_env_def)
  next
    case False
    then have e: "sample_env w s = s" by (simp add: sample_env_def split: window.split)
    from False have "sample_env (Relock t) x = x" for t x by (simp add: sample_env_def)
    with e show ?thesis using tk K by (intro conjI exI [of _ Q]) simp_all
  qed
  show ?thesis unfolding env_ok_def by (intro allI impI) (rule env)
qed

lemma sample_env_keeps: "env_keeps sample_cfg 0 t sample_env"
proof -
  have "tcb_of (sample_env w s) t = tcb_of s t \<and>
     ((TM_TSK t, tm) \<in> evset (tevt_of (sample_env w s) 0) \<longleftrightarrow> (TM_TSK t, tm) \<in> evset (tevt_of s 0))"
    if S: "tick_state sample_cfg 0 s" for w s tm
  proof (cases w)
    case (Cychdr i)
    obtain Q where K: "kinv sample_cfg {} Q s" using S by (auto simp: tick_state_def)
    obtain r s' where e: "ista_alm sample_cfg 0 1 5 s = (r, s')" by fastforce
    have "s' = s \<or> (\<exists>x. rescheduled (TM_ALM (INDEX_OBJ 1)) x s s')"
      using alm_services(2) [OF K e] by (auto simp: alm_effect_def Let_def handler_step_def split: if_splits)
    moreover have "tcb_of s' = tcb_of s" using ista_alm_sel(2) [of sample_cfg 0 1 5 s] e by simp
    moreover have "(TM_TSK t, tm) \<in> evset (tevt_of s' 0) \<longleftrightarrow> (TM_TSK t, tm) \<in> evset (tevt_of s 0)"
      if "rescheduled (TM_ALM (INDEX_OBJ 1)) x s s'" for x
      by (rule rescheduled_other [OF that]) simp
    ultimately show ?thesis using Cychdr e by (auto simp: sample_env_def)
  qed (simp_all add: sample_env_def)
  then show ?thesis unfolding env_keeps_def by blast
qed

lemma sample_cyc_ok: "cyc_ok sample_cfg"
  by (simp add: cyc_ok_def sample_cfg_def TMAX_RELTIM_def)

lemma sample_rest: "rest_state sample_cfg 0 sample_state"
  using sample_kinv by (auto simp: rest_state_def cyc_times_def clock_at_rest_def sample_state_def evset_def)

theorem signal_time_supplies_tick_witness:
  "\<exists>s1 s2. sta_cyc sample_cfg 0 1 sample_state = (Ret E_OK, s1) \<and>
     signal_time sample_cfg 0 sample_env s1 = Some s2 \<and> current_time (tevt_of s2 0) = 1"
proof -
  obtain r s1 where e: "sta_cyc sample_cfg 0 1 sample_state = (r, s1)" by fastforce
  have c: "sense_tskctx_unl 0 sample_state \<and> VALID_CYCID sample_cfg 1"
    by (simp add: VALID_CYCID_def) (simp add: sample_cfg_def)
  obtain p tm where S: "r = Ret E_OK" "handler_step sample_cfg {} sample_queues (TM_CYC 0) (Some (p, tm)) sample_state s1"
    "evttim (cyc s1 0) = tm"
    using sta_cyc_spec [OF sample_kinv e] c by auto
  have R: "rescheduled (TM_CYC 0) (Some (p, tm)) sample_state s1" using S(2) by (simp add: handler_step_def)
  have "evset (tevt_of sample_state q) = {}" for q by (simp add: sample_state_def evset_def)
  then have "cyc_times s1" using R S(3) by (auto simp: cyc_times_def rescheduled_def split: if_splits)
  moreover have "same_times (tevt_of sample_state 0) (tevt_of s1 0)" using R by (simp add: rescheduled_def)
  then have "clock_at_rest (tevt_of s1 0)" "current_time (tevt_of s1 0) = 0"
    by (simp_all add: same_times_def clock_at_rest_def) (simp_all add: sample_state_def)
  ultimately have "rest_state sample_cfg 0 s1" using S(2) by (auto simp: rest_state_def handler_step_def)
  from signal_time_supplies_tick [OF this sample_env_ok sample_cyc_ok] show ?thesis
    using e S(1) \<open>current_time (tevt_of s1 0) = 0\<close> by auto
qed

section \<open>Delays\<close>

text \<open>
  C34: A task that calls \<open>dly_tsk\<close> with \<open>d\<close> stays in the delayed state for \<open>d\<close> ticks and is made
  ready, with the result \<open>E_OK\<close>, by the next one, so that at least \<open>d\<close> milliseconds pass; nothing
  else is needed for it than that the ticks come and nobody else releases the task.
\<close>

theorem delayed_task_resumes:
  assumes "rest_state C me s" and "dly_tsk me d s = (Blocks t, s1)" and "env_ok C me env" and "cyc_ok C"
    and "env_keeps C me t env" and "n \<le> unat d + 1"
  shows "\<exists>s'. ticks C me env n s1 = Some s' \<and> rest_state C me s' \<and>
    (let tc = (tcb_of s t)\<lparr>tstat := TS_WAITING OR TS_WAIT_DLY\<rparr>
     in tcb_of s' t = (if n \<le> unat d then tc else ended_tcb E_OK tc))"
proof -
  note D = dly_tsk_event [OF assms(1,2)]
  let ?k = "unat d + 1"
  have k: "?k < 2 ^ 32" using D(3) by (simp add: word_le_nat_alt TMAX_RELTIM_def)
  have ev: "(TM_TSK t, current_time (tevt_of s1 me) + of_nat ?k) \<in> evset (tevt_of s1 me)"
    using D(4,5) by (simp add: add.assoc)
  have r: "tmout_ercd ((tcb_of s t)\<lparr>tstat := TS_WAITING OR TS_WAIT_DLY\<rparr>) = E_OK"
    by (simp add: tmout_ercd_def tstat_consts)
  from ticks_awaits [OF D(2) assms(3-5) ev _ k assms(6)] show ?thesis
    by (auto simp: D(6) r Let_def less_Suc_eq_le)
qed

theorem delayed_task_resumes_witness:
  "\<exists>s1 s2 s3. dly_tsk 0 1 sample_state = (Blocks 0, s1) \<and> ticks sample_cfg 0 sample_env 1 s1 = Some s2 \<and>
     TSTAT_WAITING (tstat (tcb_of s2 0)) \<and> ticks sample_cfg 0 sample_env 2 s1 = Some s3 \<and>
     tstat (tcb_of s3 0) = TS_RUNNABLE"
proof -
  obtain r s1 where e: "dly_tsk 0 1 sample_state = (r, s1)" by fastforce
  have "r = Blocks 0" using e by (auto simp: dly_tsk_def TMAX_RELTIM_def Let_def split_beta)
  then have e1: "dly_tsk 0 1 sample_state = (Blocks 0, s1)" using e by simp
  note D = delayed_task_resumes [OF sample_rest e1 sample_env_ok sample_cyc_ok sample_env_keeps]
  obtain s2 where "ticks sample_cfg 0 sample_env 1 s1 = Some s2" "TSTAT_WAITING (tstat (tcb_of s2 0))"
    using D [of 1] by (auto simp: Let_def tstat_macros tstat_consts)
  moreover obtain s3 where "ticks sample_cfg 0 sample_env 2 s1 = Some s3" "tstat (tcb_of s3 0) = TS_RUNNABLE"
    using D [of 2] by (auto simp: Let_def ended_tcb_def released_tcb_def tstat_macros tstat_consts)
  ultimately show ?thesis using e1 by blast
qed

section \<open>Cyclic and alarm handlers\<close>

text \<open>
  \<open>stp_cyc\<close> undoes \<open>sta_cyc\<close>: the handler is registered at its phase after the next tick by the
  one, and by the other its event is gone and every other event, of tasks and of handlers on all
  processors, is where it was; both keep the kernel invariant.
\<close>

lemma cyclic_start_stop_round_trip:
  assumes "kinv C {} Q s" and "sense_tskctx_unl me s" and "VALID_CYCID C cycid"
    and "sta_cyc C me cycid s = (r1, s1)" and "stp_cyc C me cycid s1 = (r2, s2)" and "i = INDEX_OBJ cycid"
  shows "r1 = Ret E_OK \<and> kinv C {} Q s1 \<and> cycsta (cyc s1 i) \<and>
    (let p = cyc_pcb (cyc s i) in
      (TM_CYC i, base_time (tevt_of s p) + cycphs (cycinib_table C i)) \<in> evset (tevt_of s1 p)) \<and>
    r2 = Ret E_OK \<and> kinv C {} Q s2 \<and> \<not> cycsta (cyc s2 i) \<and>
    (\<forall>q. evset (tevt_of s2 q) = {x \<in> evset (tevt_of s q). fst x \<noteq> TM_CYC i})"
proof -
  have S: "r1 = Ret E_OK" "handler_step C {} Q (TM_CYC i) (Some (cyc_pcb (cyc s i),
      base_time (tevt_of s (cyc_pcb (cyc s i))) + cycphs (cycinib_table C i))) s s1" "cycsta (cyc s1 i)"
    using sta_cyc_spec [OF assms(1,4)] assms(2,3) by (simp_all add: assms(6))
  then have K: "kinv C {} Q s1" "timer_frame s s1" by (simp_all add: handler_step_def)
  have "sense_tskctx_unl me s1"
    using K(2) assms(2) by (simp add: sense_tskctx_unl_def sense_context_def sense_lock_def timer_frame_def)
  then have T: "r2 = Ret E_OK" "handler_step C {} Q (TM_CYC i) None s1 s2" "\<not> cycsta (cyc s2 i)"
    using stp_cyc_spec [OF K(1) assms(5)] assms(3) by (simp_all add: assms(6))
  then have "evset (tevt_of s2 q) = {x \<in> evset (tevt_of s1 q). fst x \<noteq> TM_CYC i}" for q
    by (simp add: handler_step_def rescheduled_def)
  moreover have "{x \<in> evset (tevt_of s1 q). fst x \<noteq> TM_CYC i} = {x \<in> evset (tevt_of s q). fst x \<noteq> TM_CYC i}" for q
    using S(2) by (auto simp: handler_step_def rescheduled_def)
  ultimately show ?thesis using S T K(1) by (simp add: handler_step_def rescheduled_def)
qed

lemma cyclic_start_stop_round_trip_witness:
  "\<exists>s1 s2. sta_cyc sample_cfg 0 1 sample_state = (Ret E_OK, s1) \<and> cycsta (cyc s1 0) \<and>
     stp_cyc sample_cfg 0 1 s1 = (Ret E_OK, s2) \<and> \<not> cycsta (cyc s2 0)"
proof -
  obtain r1 s1 where e1: "sta_cyc sample_cfg 0 1 sample_state = (r1, s1)" by fastforce
  obtain r2 s2 where e2: "stp_cyc sample_cfg 0 1 s1 = (r2, s2)" by fastforce
  have "VALID_CYCID sample_cfg 1" by (simp add: VALID_CYCID_def sample_cfg_def)
  then show ?thesis using cyclic_start_stop_round_trip [OF sample_kinv _ _ e1 e2, of 0] e1 e2 by simp
qed

text \<open>
  What \<open>ref_alm\<close> reports of an alarm that has just been set with \<open>sta_alm\<close> is the time it was
  set to, on the processor of the alarm, also when the 32-bit clock wraps around in between.
\<close>

lemma alarm_set_and_refer:
  assumes "kinv C {} Q s" and "sense_tskctx_unl me s" and "VALID_ALMID C almid" and "almtim \<le> TMAX_RELTIM"
    and "sta_alm C me almid almtim s = (r, s')" and "p = alm_pcb (alm s (INDEX_OBJ almid))"
    and "clock_in_tick (tevt_of s p)"
  shows "r = Ret E_OK \<and> kinv C {} Q s' \<and> ref_alm C me almid s' =
    ((E_OK, Some \<lparr>almstat = TALM_STA, alm_lefttim = Some almtim, alm_prcid_of = ID_PRC p\<rparr>), s')"
proof -
  let ?i = "INDEX_OBJ almid" and ?te = "tevt_of s p"
  have e: "r = Ret E_OK" "s' = alm_start ?i almtim s" using assms(2-5) by (auto simp: sta_alm_def)
  have S: "handler_step C {} Q (TM_ALM ?i) (Some (p, base_time ?te + almtim)) s s'" "almsta (alm s' ?i)" "alm_pcb (alm s' ?i) = p"
    using alm_start_spec [OF assms(1), of ?i almtim] by (simp_all add: e(2) assms(6))
  have K: "kinv C {} Q s'" and F: "timer_frame s s'"
    and ev: "(TM_ALM ?i, base_time ?te + almtim) \<in> evset (tevt_of s' p)" and st: "same_times ?te (tevt_of s' p)"
    using S(1) by (simp_all add: handler_step_def rescheduled_def)
  have x: "sense_tskctx_unl me s'"
    using F assms(2) by (simp add: sense_tskctx_unl_def sense_context_def sense_lock_def timer_frame_def)
  have nd: "time (TMEVT_NODE (tevt_of s' p) (tm_index s' (TM_ALM ?i))) = base_time ?te + almtim"
    using heap_inv_evset [OF tinvD(1) [OF kinvD(2) [OF K], of p], of "TM_ALM ?i" "base_time ?te + almtim"] ev
    by (simp add: evnode_def)
  have "clock_in_tick (tevt_of s' p)" using assms(7) in_tick_same [OF st] by simp
  from left_time_set [OF this assms(4)]
  have "tmevt_lefttim (TM_ALM ?i) (tevt_of s' p) (tm_index s') = almtim"
    by (simp only: tmevt_lefttim_def nd Let_def base_time_same [OF st, symmetric])
  then show ?thesis using e(1) K x S(2,3) assms(3) by (simp add: ref_alm_def Let_def)
qed

lemma alarm_set_and_refer_witness:
  "\<exists>s'. sta_alm sample_cfg 0 1 7 sample_state = (Ret E_OK, s') \<and> ref_alm sample_cfg 0 1 s' =
     ((E_OK, Some \<lparr>almstat = TALM_STA, alm_lefttim = Some 7, alm_prcid_of = 1\<rparr>), s')"
proof -
  obtain r s' where e: "sta_alm sample_cfg 0 1 7 sample_state = (r, s')" by fastforce
  have v: "VALID_ALMID sample_cfg 1" "(7 :: 32 word) \<le> TMAX_RELTIM"
    by (simp_all add: VALID_ALMID_def sample_cfg_def TMAX_RELTIM_def)
  have p: "0 = alm_pcb (alm sample_state (INDEX_OBJ 1))" by (simp add: alm_def sample_objs_def)
  have "clock_in_tick (tevt_of sample_state 0)" by (simp add: clock_in_tick_def sample_state_def)
  then show ?thesis using alarm_set_and_refer [OF sample_kinv _ v e p] e by (auto simp: ID_PRC_def)
qed

end
