(* ===== verification/Sys_Manage.thy ===== *)
theory Sys_Manage
  imports Signal_Time
begin

text \<open>
  System state management (\<open>kernel/sys_manage.c\<close>), the interrupt mask (\<open>kernel/interrupt.c\<close>), task
  exceptions (\<open>kernel/task_except.c\<close>, \<open>call_texrtn\<close> of \<open>kernel/task.c\<close>), the reference of a task's
  state (\<open>kernel/task_refer.c\<close>) and the system time (\<open>kernel/time_manage.c\<close>).
\<close>

section \<open>Rotation of the ready queue\<close>

definition VALID_TPRI_SELF :: "pri \<Rightarrow> bool" where
  "VALID_TPRI_SELF p \<longleftrightarrow> VALID_TPRI p \<or> p = TPRI_SELF"

definition rot_pri :: "prcix \<Rightarrow> pri \<Rightarrow> kstate \<Rightarrow> nat" where
  "rot_pri me tskpri s = (if tskpri = TPRI_SELF then priority (tcb_of s (runtsk me s)) else INT_PRIORITY tskpri)"

definition rot_rdq :: "prcix \<Rightarrow> pri \<Rightarrow> kstate \<Rightarrow> ercd svc \<times> kstate" where
  "rot_rdq me tskpri s =
     (if \<not> sense_tskctx_unl me s then (Ret E_CTX, s)
      else if \<not> VALID_TPRI_SELF tskpri then (Ret E_PAR, s)
      else let pri = rot_pri me tskpri s;
               (dspreq, s) = rotate_ready_queue pri me s
           in (Ret E_OK, t_dispatch_if me dspreq s))"

definition irot_rdq :: "prcix \<Rightarrow> pri \<Rightarrow> kstate \<Rightarrow> ercd svc \<times> kstate" where
  "irot_rdq me tskpri s =
     (if \<not> sense_intctx_unl me s then (Ret E_CTX, s)
      else if \<not> VALID_TPRI tskpri then (Ret E_PAR, s)
      else let (b, s) = rotate_ready_queue (INT_PRIORITY tskpri) me s
           in (Ret E_OK, if b then set_reqflg me s else s))"

definition mrot_rdq :: "cfg \<Rightarrow> prcix \<Rightarrow> pri \<Rightarrow> ident \<Rightarrow> kstate \<Rightarrow> ercd svc \<times> kstate" where
  "mrot_rdq C me tskpri prcid s =
     (if \<not> sense_tskctx_unl me s then (Ret E_CTX, s)
      else if \<not> VALID_TPRI_SELF tskpri then (Ret E_PAR, s)
      else if \<not> VALID_PRCID C prcid then (Ret E_ID, s)
      else let p = INDEX_PRC prcid;
               pri = rot_pri me tskpri s;
               (b, s) = rotate_ready_queue pri p s;
               (dspreq, s) = t_request me p b s
           in (Ret E_OK, t_dispatch_if me dspreq s))"

definition imrot_rdq :: "cfg \<Rightarrow> prcix \<Rightarrow> pri \<Rightarrow> ident \<Rightarrow> kstate \<Rightarrow> ercd svc \<times> kstate" where
  "imrot_rdq C me tskpri prcid s =
     (if \<not> sense_intctx_unl me s then (Ret E_CTX, s)
      else if \<not> VALID_TPRI tskpri then (Ret E_PAR, s)
      else if \<not> VALID_PRCID C prcid then (Ret E_ID, s)
      else let p = INDEX_PRC prcid;
               (b, s) = rotate_ready_queue (INT_PRIORITY tskpri) p s
           in (Ret E_OK, i_request me p b s))"

section \<open>Identification, CPU lock and dispatching\<close>

definition get_tid :: "prcix \<Rightarrow> kstate \<Rightarrow> (ercd \<times> ident option) \<times> kstate" where
  "get_tid me s =
     (if \<not> sense_tskctx_unl me s then ((E_CTX, None), s)
      else ((E_OK, Some (TSKID (runtsk me s))), s))"

definition iget_tid :: "prcix \<Rightarrow> kstate \<Rightarrow> (ercd \<times> ident option) \<times> kstate" where
  "iget_tid me s =
     (if \<not> sense_intctx_unl me s then ((E_CTX, None), s)
      else ((E_OK, Some (case p_runtsk (pcb_of s me) of None \<Rightarrow> TSK_NONE | Some t \<Rightarrow> TSKID t)), s))"

definition get_pid :: "prcix \<Rightarrow> kstate \<Rightarrow> (ercd \<times> ident option) \<times> kstate" where
  "get_pid me s =
     (if \<not> sense_tskctx_unl me s then ((E_CTX, None), s) else ((E_OK, Some (ID_PRC me)), s))"

definition iget_pid :: "prcix \<Rightarrow> kstate \<Rightarrow> (ercd \<times> ident option) \<times> kstate" where
  "iget_pid me s =
     (if \<not> sense_intctx_unl me s then ((E_CTX, None), s) else ((E_OK, Some (ID_PRC me)), s))"

definition set_cpu_lock :: "prcix \<Rightarrow> bool \<Rightarrow> kstate \<Rightarrow> kstate" where
  "set_cpu_lock me x = upd_pcb me (\<lambda>b. b\<lparr>lock_flag := x\<rparr>)"

definition loc_cpu :: "prcix \<Rightarrow> kstate \<Rightarrow> ercd svc \<times> kstate" where
  "loc_cpu me s =
     (if sense_context me s then (Ret E_CTX, s)
      else (Ret E_OK, if \<not> sense_lock me s then set_cpu_lock me True s else s))"

definition iloc_cpu :: "prcix \<Rightarrow> kstate \<Rightarrow> ercd svc \<times> kstate" where
  "iloc_cpu me s =
     (if \<not> sense_context me s then (Ret E_CTX, s)
      else (Ret E_OK, if \<not> sense_lock me s then set_cpu_lock me True s else s))"

definition unl_cpu :: "prcix \<Rightarrow> kstate \<Rightarrow> ercd svc \<times> kstate" where
  "unl_cpu me s =
     (if sense_context me s then (Ret E_CTX, s)
      else (Ret E_OK, if sense_lock me s \<and> locspnid (pcb_of s me) = 0 then set_cpu_lock me False s else s))"

definition iunl_cpu :: "prcix \<Rightarrow> kstate \<Rightarrow> ercd svc \<times> kstate" where
  "iunl_cpu me s =
     (if \<not> sense_context me s then (Ret E_CTX, s)
      else (Ret E_OK, if sense_lock me s \<and> locspnid (pcb_of s me) = 0 then set_cpu_lock me False s else s))"

definition dis_dsp :: "prcix \<Rightarrow> kstate \<Rightarrow> ercd svc \<times> kstate" where
  "dis_dsp me s =
     (if \<not> sense_tskctx_unl me s then (Ret E_CTX, s)
      else (Ret E_OK, upd_pcb me (\<lambda>b. b\<lparr>disdsp := True, dspflg := False\<rparr>) s))"

definition ena_dsp :: "prcix \<Rightarrow> kstate \<Rightarrow> ercd svc \<times> kstate" where
  "ena_dsp me s =
     (if \<not> sense_tskctx_unl me s then (Ret E_CTX, s)
      else let s = upd_pcb me (\<lambda>b. b\<lparr>disdsp := False\<rparr>) s in
        if ipmflg (pcb_of s me) then
          (let s = upd_pcb me (\<lambda>b. b\<lparr>dspflg := True\<rparr>) s;
               dspreq = (p_runtsk (pcb_of s me) \<noteq> p_schedtsk (pcb_of s me))
           in (Ret E_OK, t_dispatch_if me dspreq s))
        else (Ret E_OK, s))"

definition sns_ctx :: "prcix \<Rightarrow> kstate \<Rightarrow> bool" where "sns_ctx me s = sense_context me s"
definition sns_loc :: "prcix \<Rightarrow> kstate \<Rightarrow> bool" where "sns_loc me s = sense_lock me s"
definition sns_dsp :: "prcix \<Rightarrow> kstate \<Rightarrow> bool" where "sns_dsp me s = disdsp (pcb_of s me)"
definition sns_dpn :: "prcix \<Rightarrow> kstate \<Rightarrow> bool" where
  "sns_dpn me s = (sense_context me s \<or> sense_lock me s \<or> \<not> dspflg (pcb_of s me))"
definition sns_ker :: "prcix \<Rightarrow> kstate \<Rightarrow> bool" where "sns_ker me s = (\<not> kerflg (pcb_of s me))"

text \<open>
  \<open>xsns_dpn\<close> and \<open>xsns_xpn\<close> in a CPU exception handler; \<open>intmask\<close> is \<open>exc_sense_intmask(p_excinf)\<close>
  of the target.
\<close>

definition xsns_dpn :: "bool \<Rightarrow> prcix \<Rightarrow> kstate \<Rightarrow> bool" where
  "xsns_dpn intmask me s = (\<not> (kerflg (pcb_of s me) \<and> intmask \<and> \<not> disdsp (pcb_of s me)))"
definition xsns_xpn :: "bool \<Rightarrow> prcix \<Rightarrow> kstate \<Rightarrow> bool" where
  "xsns_xpn intmask me s = (\<not> (kerflg (pcb_of s me) \<and> intmask \<and> enatex (tcb_of s (runtsk me s))))"

section \<open>Task exceptions\<close>

text \<open>
  \<open>call_texrtn\<close> gives up the locks while the task exception routine runs and while the task is
  preempted on the way back; what happens there is the parameter \<open>env\<close>.  The task may come back
  on another processor: \<open>get_my_p_pcb()\<close> is then that of the task.
\<close>

datatype tex_window = Tex_routine texptn | Tex_dispatch

definition texrtn_take :: "tskix \<Rightarrow> kstate \<Rightarrow> texptn \<times> kstate" where
  "texrtn_take t s = (texptn (tcb_of s t), upd_tcb t (\<lambda>b. b\<lparr>texptn := 0\<rparr>) s)"

text \<open>What the routine may have left changed is put back, and a dispatch put off is made good.\<close>

definition texrtn_return :: "prcix \<Rightarrow> tskix \<Rightarrow> bool \<Rightarrow> kstate \<Rightarrow> bool \<times> kstate" where
  "texrtn_return me t saved_disdsp s =
     (let s = (if \<not> ipmflg (pcb_of s me) then upd_pcb me (\<lambda>b. b\<lparr>ipmflg := True\<rparr>) s else s);
          s = upd_pcb me (\<lambda>b. b\<lparr>disdsp := saved_disdsp\<rparr>) s;
          s = upd_pcb me (\<lambda>b. b\<lparr>dspflg := \<not> disdsp b\<rparr>) s;
          s = upd_tcb t (\<lambda>b. b\<lparr>enatex := False\<rparr>) s;
          s = force_unlock_spin me s;
          d = (Some t \<noteq> p_schedtsk (pcb_of s me) \<and> dspflg (pcb_of s me))
      in (d, t_dispatch_if me d s))"

partial_function (option) texrtn_loop ::
  "(tex_window \<Rightarrow> kstate \<Rightarrow> kstate) \<Rightarrow> tskix \<Rightarrow> bool \<Rightarrow> kstate \<Rightarrow> kstate option" where
  "texrtn_loop env t saved_disdsp s =
     (let (ptn, s) = texrtn_take t s;
          s = env (Tex_routine ptn) s;
          (d, s) = texrtn_return (p_pcb (tcb_of s t)) t saved_disdsp s;
          s = (if d then env Tex_dispatch s else s)
      in if texptn (tcb_of s t) \<noteq> 0 then texrtn_loop env t saved_disdsp s
         else Some (upd_tcb t (\<lambda>b. b\<lparr>enatex := True\<rparr>) s))"

definition call_texrtn ::
  "(tex_window \<Rightarrow> kstate \<Rightarrow> kstate) \<Rightarrow> prcix \<Rightarrow> kstate \<Rightarrow> kstate option" where
  "call_texrtn env me s =
     (let saved_disdsp = disdsp (pcb_of s me);
          t = runtsk me s;
          s = upd_tcb t (\<lambda>b. b\<lparr>enatex := False\<rparr>) s
      in texrtn_loop env t saved_disdsp s)"

text \<open>\<open>calltex\<close>, and the end of \<open>dispatch\<close>: the pending exceptions of the task that resumes.\<close>

definition calltex ::
  "(tex_window \<Rightarrow> kstate \<Rightarrow> kstate) \<Rightarrow> prcix \<Rightarrow> kstate \<Rightarrow> kstate option" where
  "calltex env me s =
     (if enatex (tcb_of s (runtsk me s)) \<and> texptn (tcb_of s (runtsk me s)) \<noteq> 0 \<and> ipmflg (pcb_of s me)
      then call_texrtn env me s else Some s)"

definition no_texrtn :: "cfg \<Rightarrow> tskix \<Rightarrow> kstate \<Rightarrow> bool" where
  "no_texrtn C t s \<longleftrightarrow> TSTAT_DORMANT (tstat (tcb_of s t)) \<or> \<not> texrtn (tinib_table C t)"

text \<open>The part of \<open>ras_tex\<close> before \<open>call_texrtn\<close>; the flag says whether it is called.\<close>

definition ras_tex_1 :: "cfg \<Rightarrow> prcix \<Rightarrow> ident \<Rightarrow> texptn \<Rightarrow> kstate \<Rightarrow> (ercd svc \<times> bool) \<times> kstate" where
  "ras_tex_1 C me tskid rasptn s =
     (if \<not> sense_tskctx_unl me s then ((Ret E_CTX, False), s)
      else if \<not> VALID_TSKID_SELF C tskid then ((Ret E_ID, False), s)
      else if \<not> rasptn \<noteq> 0 then ((Ret E_PAR, False), s)
      else let t = get_tcb_self me tskid s; p = p_pcb (tcb_of s t) in
        if no_texrtn C t s then ((Ret E_OBJ, False), s)
        else
          (let s = upd_tcb t (\<lambda>b. b\<lparr>texptn := texptn b OR rasptn\<rparr>) s;
               (d, s) = dispatch_request me p s
           in ((Ret E_OK, d \<and> Some t = p_runtsk (pcb_of s p) \<and> enatex (tcb_of s t) \<and> ipmflg (pcb_of s p)), s)))"

definition ras_tex ::
  "cfg \<Rightarrow> (tex_window \<Rightarrow> kstate \<Rightarrow> kstate) \<Rightarrow> prcix \<Rightarrow> ident \<Rightarrow> texptn \<Rightarrow> kstate \<Rightarrow> (ercd svc \<times> kstate) option" where
  "ras_tex C env me tskid rasptn s =
     (let ((r, c), s) = ras_tex_1 C me tskid rasptn s
      in if c then map_option (Pair r) (call_texrtn env me s) else Some (r, s))"

definition iras_tex :: "cfg \<Rightarrow> prcix \<Rightarrow> ident \<Rightarrow> texptn \<Rightarrow> kstate \<Rightarrow> ercd svc \<times> kstate" where
  "iras_tex C me tskid rasptn s =
     (if \<not> sense_intctx_unl me s then (Ret E_CTX, s)
      else if \<not> VALID_TSKID C tskid then (Ret E_ID, s)
      else if \<not> rasptn \<noteq> 0 then (Ret E_PAR, s)
      else let t = get_tcb tskid; p = p_pcb (tcb_of s t) in
        if no_texrtn C t s then (Ret E_OBJ, s)
        else
          (let s = upd_tcb t (\<lambda>b. b\<lparr>texptn := texptn b OR rasptn\<rparr>) s;
               (d, s) = dispatch_request me p s
           in (Ret E_OK,
               if d \<and> Some t = p_runtsk (pcb_of s p) \<and> enatex (tcb_of s t) \<and> ipmflg (pcb_of s p)
               then set_reqflg p s else s)))"

definition dis_tex :: "cfg \<Rightarrow> prcix \<Rightarrow> kstate \<Rightarrow> ercd svc \<times> kstate" where
  "dis_tex C me s =
     (if \<not> sense_tskctx_unl me s then (Ret E_CTX, s)
      else let t = runtsk me s in
        if \<not> texrtn (tinib_table C t) then (Ret E_OBJ, s)
        else (Ret E_OK, upd_tcb t (\<lambda>b. b\<lparr>enatex := False\<rparr>) s))"

definition ena_tex_1 :: "cfg \<Rightarrow> prcix \<Rightarrow> kstate \<Rightarrow> (ercd svc \<times> bool) \<times> kstate" where
  "ena_tex_1 C me s =
     (if \<not> sense_tskctx_unl me s then ((Ret E_CTX, False), s)
      else let t = runtsk me s in
        if \<not> texrtn (tinib_table C t) then ((Ret E_OBJ, False), s)
        else
          (let s = upd_tcb t (\<lambda>b. b\<lparr>enatex := True\<rparr>) s
           in ((Ret E_OK, texptn (tcb_of s t) \<noteq> 0 \<and> ipmflg (pcb_of s me)), s)))"

definition ena_tex ::
  "cfg \<Rightarrow> (tex_window \<Rightarrow> kstate \<Rightarrow> kstate) \<Rightarrow> prcix \<Rightarrow> kstate \<Rightarrow> (ercd svc \<times> kstate) option" where
  "ena_tex C env me s =
     (let ((r, c), s) = ena_tex_1 C me s
      in if c then map_option (Pair r) (call_texrtn env me s) else Some (r, s))"

definition sns_tex :: "prcix \<Rightarrow> kstate \<Rightarrow> bool" where
  "sns_tex me s =
     (\<not> (p_runtsk (pcb_of s me) \<noteq> None \<and> enatex (tcb_of s (runtsk me s))))"

definition TTEX_ENA :: nat where "TTEX_ENA = 1"
definition TTEX_DIS :: nat where "TTEX_DIS = 2"

record t_rtex = texstat :: nat  pndptn :: texptn

definition ref_tex :: "cfg \<Rightarrow> prcix \<Rightarrow> ident \<Rightarrow> kstate \<Rightarrow> (ercd \<times> t_rtex option) \<times> kstate" where
  "ref_tex C me tskid s =
     (if \<not> sense_tskctx_unl me s then ((E_CTX, None), s)
      else if \<not> VALID_TSKID_SELF C tskid then ((E_ID, None), s)
      else let t = get_tcb_self me tskid s in
        if no_texrtn C t s then ((E_OBJ, None), s)
        else ((E_OK, Some \<lparr>texstat = (if enatex (tcb_of s t) then TTEX_ENA else TTEX_DIS),
                           pndptn = texptn (tcb_of s t)\<rparr>), s))"

section \<open>The interrupt mask\<close>

text \<open>
  \<open>chg_ipm\<close>; the interrupt controller is not represented, and the range \<open>CHECK_INTPRI_CHGIPM\<close> of
  the target is the parameter \<open>valid\<close>.  The flag says whether \<open>call_texrtn\<close> is called.
\<close>

definition TIPM_ENAALL :: pri where "TIPM_ENAALL = 0"

definition chg_ipm_1 :: "(pri \<Rightarrow> bool) \<Rightarrow> prcix \<Rightarrow> pri \<Rightarrow> kstate \<Rightarrow> (ercd svc \<times> bool) \<times> kstate" where
  "chg_ipm_1 valid me intpri s =
     (if \<not> sense_tskctx_unl me s then ((Ret E_CTX, False), s)
      else if \<not> valid intpri then ((Ret E_PAR, False), s)
      else if intpri = TIPM_ENAALL then
        (let s = upd_pcb me (\<lambda>b. b\<lparr>ipmflg := True\<rparr>) s;
             b = pcb_of s me;
             s = (if \<not> disdsp b then upd_pcb me (\<lambda>b. b\<lparr>dspflg := True\<rparr>) s else s);
             dspreq = (\<not> disdsp b \<and> p_runtsk b \<noteq> p_schedtsk b);
             t = runtsk me s
         in if enatex (tcb_of s t) \<and> texptn (tcb_of s t) \<noteq> 0 \<and> \<not> dspreq then ((Ret E_OK, True), s)
            else ((Ret E_OK, False), t_dispatch_if me dspreq s))
      else ((Ret E_OK, False), upd_pcb me (\<lambda>b. b\<lparr>ipmflg := False, dspflg := False\<rparr>) s))"

definition chg_ipm ::
  "(pri \<Rightarrow> bool) \<Rightarrow> (tex_window \<Rightarrow> kstate \<Rightarrow> kstate) \<Rightarrow> prcix \<Rightarrow> pri \<Rightarrow> kstate \<Rightarrow> (ercd svc \<times> kstate) option" where
  "chg_ipm valid env me intpri s =
     (let ((r, c), s) = chg_ipm_1 valid me intpri s
      in if c then map_option (Pair r) (call_texrtn env me s) else Some (r, s))"

section \<open>System time\<close>

definition get_tim :: "prcix \<Rightarrow> kstate \<Rightarrow> (ercd \<times> evttim option) \<times> kstate" where
  "get_tim me s =
     (if \<not> sense_tskctx_unl me s then ((E_CTX, None), s)
      else ((E_OK, Some (current_time (tevt_of s me))), s))"

text \<open>
  \<open>get_utm\<close>: the timer is read twice around the test for a pending timer interrupt; the readings
  (in microseconds for the first) and the test are parameters.
\<close>

definition get_utm :: "'c::linorder \<Rightarrow> bool \<Rightarrow> 'c \<Rightarrow> ('c \<Rightarrow> 32 word) \<Rightarrow> prcix \<Rightarrow> kstate \<Rightarrow> 32 word" where
  "get_utm clock1 ireq clock2 to_usec me s =
     (let utime = next_time (tevt_of s me) * 1000;
          utime = (if \<not> ireq \<or> clock1 > clock2 then utime - 1000 else utime)
      in utime + to_usec clock1)"

section \<open>The state of a task\<close>

definition TTS_RUN :: nat where "TTS_RUN = 0x01"
definition TTS_RDY :: nat where "TTS_RDY = 0x02"
definition TTS_WAI :: nat where "TTS_WAI = 0x04"
definition TTS_SUS :: nat where "TTS_SUS = 0x08"
definition TTS_WAS :: nat where "TTS_WAS = 0x0c"
definition TTS_DMT :: nat where "TTS_DMT = 0x10"
definition TTW_SLP :: nat where "TTW_SLP = 0x0001"
definition TTW_DLY :: nat where "TTW_DLY = 0x0002"
definition TTW_SEM :: nat where "TTW_SEM = 0x0004"
definition TTW_FLG :: nat where "TTW_FLG = 0x0008"
definition TTW_SDTQ :: nat where "TTW_SDTQ = 0x0010"
definition TTW_RDTQ :: nat where "TTW_RDTQ = 0x0020"
definition TTW_SPDQ :: nat where "TTW_SPDQ = 0x0100"
definition TTW_RPDQ :: nat where "TTW_RPDQ = 0x0200"
definition TTW_MBX :: nat where "TTW_MBX = 0x0040"
definition TTW_MPF :: nat where "TTW_MPF = 0x2000"

text \<open>A member that the call does not write in the state at hand is \<open>None\<close>.\<close>

record t_rtsk =
  tskstat :: nat
  tskpri :: "pri option"
  tskbpri :: "pri option"
  tskwait :: "nat option"
  wobjid :: "ident option"
  lefttmo :: "tmo option"
  actcnt :: nat
  wupcnt :: "nat option"
  rtsk_prcid :: ident
  rtsk_actprc :: ident

text \<open>\<open>SEMID\<close>, \<open>FLGID\<close> and so on: the identifier of a control block.\<close>

definition WOBJID :: "wobj \<Rightarrow> ident" where
  "WOBJID w = (case w of SEM i \<Rightarrow> int i + 1 | FLG i \<Rightarrow> int i + 1 | DTQ i \<Rightarrow> int i + 1
     | PDQ i \<Rightarrow> int i + 1 | MBX i \<Rightarrow> int i + 1 | MPF i \<Rightarrow> int i + 1)"

definition rtsk_status :: "tskix \<Rightarrow> kstate \<Rightarrow> nat" where
  "rtsk_status t s =
     (let ts = tstat (tcb_of s t) in
      if TSTAT_SUSPENDED ts then (if TSTAT_WAITING ts then TTS_WAS else TTS_SUS)
      else if TSTAT_WAITING ts then TTS_WAI
      else if Some t = p_runtsk (pcb_of s (p_pcb (tcb_of s t))) then TTS_RUN
      else TTS_RDY)"

text \<open>The \<open>switch\<close> over the cause of the wait.\<close>

definition rtsk_wait :: "tcb \<Rightarrow> nat option \<times> ident option" where
  "rtsk_wait tc =
     (let w = tstat tc AND TS_WAIT_MASK; ob = map_option WOBJID (p_wobjcb tc) in
      if w = TS_WAIT_SLP then (Some TTW_SLP, None)
      else if w = TS_WAIT_DLY then (Some TTW_DLY, None)
      else if w = TS_WAIT_SEM then (Some TTW_SEM, ob)
      else if w = TS_WAIT_FLG then (Some TTW_FLG, ob)
      else if w = TS_WAIT_SDTQ then (Some TTW_SDTQ, ob)
      else if w = TS_WAIT_RDTQ then (Some TTW_RDTQ, ob)
      else if w = TS_WAIT_SPDQ then (Some TTW_SPDQ, ob)
      else if w = TS_WAIT_RPDQ then (Some TTW_RPDQ, ob)
      else if w = TS_WAIT_MBX then (Some TTW_MBX, ob)
      else if w = TS_WAIT_MPF then (Some TTW_MPF, ob)
      else (None, None))"

definition rtsk_lefttmo :: "tskix \<Rightarrow> kstate \<Rightarrow> tmo" where
  "rtsk_lefttmo t s =
     (if tm_callback s (TM_TSK t) \<noteq> None
      then sint (tmevt_lefttim (TM_TSK t) (tevt_of s (p_pcb (tcb_of s t))) (tm_index s))
      else TMO_FEVR)"

definition ref_tsk :: "cfg \<Rightarrow> prcix \<Rightarrow> ident \<Rightarrow> kstate \<Rightarrow> (ercd \<times> t_rtsk option) \<times> kstate" where
  "ref_tsk C me tskid s =
     (if \<not> sense_tskctx_unl me s then ((E_CTX, None), s)
      else if \<not> VALID_TSKID_SELF C tskid then ((E_ID, None), s)
      else let t = get_tcb_self me tskid s; tc = tcb_of s t; w = TSTAT_WAITING (tstat tc) in
        ((E_OK, Some
           (if TSTAT_DORMANT (tstat tc) then
              \<lparr>tskstat = TTS_DMT, tskpri = None, tskbpri = None, tskwait = None, wobjid = None,
               lefttmo = None, actcnt = (if actque tc then 1 else 0), wupcnt = None,
               rtsk_prcid = ID_PRC (p_pcb tc), rtsk_actprc = actprc tc\<rparr>
            else
              \<lparr>tskstat = rtsk_status t s, tskpri = Some (EXT_TSKPRI (priority tc)),
               tskbpri = Some (EXT_TSKPRI (priority tc)),
               tskwait = (if w then fst (rtsk_wait tc) else None),
               wobjid = (if w then snd (rtsk_wait tc) else None),
               lefttmo = (if w then Some (rtsk_lefttmo t s) else None),
               actcnt = (if actque tc then 1 else 0), wupcnt = Some (if wupque tc then 1 else 0),
               rtsk_prcid = ID_PRC (p_pcb tc), rtsk_actprc = actprc tc\<rparr>)), s))"

section \<open>The kernel invariant\<close>

lemma kinv_set_pcb:
  assumes K: "kinv C P Q s"
    and f: "p_runtsk (f (pcb_of s p)) = p_runtsk (pcb_of s p)" "p_schedtsk (f (pcb_of s p)) = p_schedtsk (pcb_of s p)"
      "ready_primap (f (pcb_of s p)) = ready_primap (pcb_of s p)"
      "excpt_nest_count (f (pcb_of s p)) = excpt_nest_count (pcb_of s p)"
  shows "kinv C (insert p P) Q (upd_pcb p f s)"
    and "(dspflg (f (pcb_of s p)) \<Longrightarrow> dspflg (pcb_of s p)) \<Longrightarrow>
      (kerflg (f (pcb_of s p)) \<Longrightarrow> kerflg (pcb_of s p)) \<Longrightarrow> (reqflg (pcb_of s p) \<Longrightarrow> reqflg (f (pcb_of s p))) \<Longrightarrow>
      kinv C P Q (upd_pcb p f s)"
proof -
  let ?s = "upd_pcb p f s"
  have q: "qinv {} Q ?s" by (rule qinv_frame [OF kinvD(1) [OF K]]) (use f in auto)
  have t: "tinv {} ?s"
    by (rule tinv_frame [OF kinvD(2) [OF K]]) (auto simp: tm_place_def cb_ok_def same_handlers_def)
  have r: "rinv ?s" using kinvD(8) [OF K] f by (auto simp: rinv_def)
  have n: "sinv C Q ?s" using kinvD(9) [OF K] by (simp add: sinv_def)
  have "dinv (insert p P) ?s" using kinvD(3) [OF K] by (auto simp: dinv_def)
  then show "kinv C (insert p P) Q ?s" using q t r n by (simp add: kinv_def)
  have "dinv P ?s" if "dspflg (f (pcb_of s p)) \<Longrightarrow> dspflg (pcb_of s p)"
      "kerflg (f (pcb_of s p)) \<Longrightarrow> kerflg (pcb_of s p)" "reqflg (pcb_of s p) \<Longrightarrow> reqflg (f (pcb_of s p))"
    using kinvD(3) [OF K] that f(1,2) by (auto simp: dinv_def)
  then show "(dspflg (f (pcb_of s p)) \<Longrightarrow> dspflg (pcb_of s p)) \<Longrightarrow>
      (kerflg (f (pcb_of s p)) \<Longrightarrow> kerflg (pcb_of s p)) \<Longrightarrow> (reqflg (pcb_of s p) \<Longrightarrow> reqflg (f (pcb_of s p))) \<Longrightarrow>
      kinv C P Q ?s" using q t r n by (simp add: kinv_def)
qed

lemma keeps_pcb: "keeps H Q s Q (upd_pcb p f s)"
  by (simp add: keeps_def)

lemma task_step_upd_pcb:
  assumes K: "kinv C {} Q s"
    and f: "p_runtsk (f (pcb_of s p)) = p_runtsk (pcb_of s p)" "p_schedtsk (f (pcb_of s p)) = p_schedtsk (pcb_of s p)"
      "ready_primap (f (pcb_of s p)) = ready_primap (pcb_of s p)"
      "excpt_nest_count (f (pcb_of s p)) = excpt_nest_count (pcb_of s p)"
      "dspflg (f (pcb_of s p)) \<Longrightarrow> dspflg (pcb_of s p)" "kerflg (f (pcb_of s p)) \<Longrightarrow> kerflg (pcb_of s p)"
      "reqflg (pcb_of s p) \<Longrightarrow> reqflg (f (pcb_of s p))"
  shows "task_step C Q s (upd_pcb p f s)"
proof (rule task_stepI [OF _ keeps_pcb])
  show "kinv C {} Q (upd_pcb p f s)" by (rule kinv_set_pcb(2) [where f = f, OF K]) (use f in auto)
qed simp

text \<open>A dispatch that is made when it is needed makes good for flags that were set.\<close>

lemma dispatch_needed_kinv:
  assumes K: "kinv C (insert me P) Q s" and d: "\<not> d \<Longrightarrow> dspflg (pcb_of s me) \<Longrightarrow> p_runtsk (pcb_of s me) = p_schedtsk (pcb_of s me)"
  shows "kinv C P Q (t_dispatch_if me d s)"
proof (cases d)
  case True
  then show ?thesis using dispatch_kinv [OF K] by (simp add: t_dispatch_if_def)
next
  case False
  then have "p \<notin> P \<Longrightarrow> kerflg (pcb_of s p) \<Longrightarrow> dspflg (pcb_of s p) \<Longrightarrow> p_runtsk (pcb_of s p) \<noteq> p_schedtsk (pcb_of s p) \<Longrightarrow>
      reqflg (pcb_of s p) \<or> ipi s p" for p
    using kinvD(3) [OF K] d by (cases "p = me") (auto simp: dinv_def)
  then have "dinv P s" by (simp add: dinv_def)
  then show ?thesis using False K by (simp add: kinv_def t_dispatch_if_def)
qed

lemma rotate_kinv:
  assumes K: "kinv C P Q s" and i: "i < 16" and eq: "rotate_ready_queue i p s = (b, s')"
  shows "kinv C (if b then insert p P else P) (Q(RDY p i := rotate1 (Q (RDY p i)))) s'"
    and "keeps H Q s (Q(RDY p i := rotate1 (Q (RDY p i)))) s'" and "tcb_of s' = tcb_of s" "objs s' = objs s"
proof -
  note R = rotate_ready_queue_inv [OF kinvD(1) [OF K] i eq]
  note F = rotate_ready_queue_frame [OF eq]
  note cf = sched_core_frame [OF F]
  note D = sched_frameD [OF F]
  show "tcb_of s' = tcb_of s" "objs s' = objs s" using D by simp_all
  have "tinv {} s'"
    by (rule tinv_frame [OF kinvD(2) [OF K]]) (simp_all add: D tm_place_def cb_ok_def same_handlers_def)
  moreover have "dinv (if b then insert p P else P) s'" by (rule dinv_core_change [OF kinvD(3) [OF K] cf R(2)])
  moreover have "rinv s'" by (rule rinv_core [OF kinvD(8) [OF K] cf]) (simp_all add: D)
  moreover have "sinv C (Q(RDY p i := rotate1 (Q (RDY p i)))) s'"
    by (rule sinv_cong [OF kinvD(9) [OF K]]) (simp_all add: D)
  ultimately show "kinv C (if b then insert p P else P) (Q(RDY p i := rotate1 (Q (RDY p i)))) s'"
    using R(1) by (simp add: kinv_def)
  show "keeps H Q s (Q(RDY p i := rotate1 (Q (RDY p i)))) s'" by (auto simp: keeps_def D)
qed

section \<open>The services keep the invariant\<close>

lemma rot_pri_valid:
  "kinv C P Q s \<Longrightarrow> VALID_TPRI_SELF pri \<Longrightarrow> rot_pri me pri s < 16"
  using kinvD(5) [of C P Q s "runtsk me s"] INT_PRIORITY_valid [of pri]
  by (auto simp: rot_pri_def VALID_TPRI_SELF_def wf_tcb_def)

context wake_request begin

lemma rotate_step:
  assumes K: "kinv C {} Q s" and i: "i < 16"
    and eq: "rotate_ready_queue i p s = (b, s1)" "req me p b s1 = (d, s2)"
  shows "kinv C {} (Q(RDY p i := rotate1 (Q (RDY p i)))) (t_dispatch_if me d s2)"
    and "task_step C Q s (t_dispatch_if me d s2)"
proof -
  note R = rotate_kinv [OF K i eq(1)]
  note D = request_done [where P = "{}", OF R(1) eq(2)]
  show "kinv C {} (Q(RDY p i := rotate1 (Q (RDY p i)))) (t_dispatch_if me d s2)" by (rule D(1))
  then show "task_step C Q s (t_dispatch_if me d s2)"
    by (rule task_stepI) (use D R in \<open>simp_all add: keeps_same_tcb [OF D(2)]\<close>)
qed

end

lemma t_request_self: "t_request me me b s = (b, s)"
  by (simp add: t_request_def dispatch_request_def)

lemma rot_rdq_step:
  assumes K: "kinv C {} Q s"
  shows "task_step C Q s (snd (rot_rdq me pri s))"
proof (cases "sense_tskctx_unl me s \<and> VALID_TPRI_SELF pri")
  case True
  obtain b s1 where r: "rotate_ready_queue (rot_pri me pri s) me s = (b, s1)" by fastforce
  from treq.rotate_step(2) [OF K rot_pri_valid [OF K] r t_request_self] True r show ?thesis
    by (auto simp: rot_rdq_def Let_def)
next
  case False
  then show ?thesis using task_step_refl [OF K] by (auto simp: rot_rdq_def)
qed

lemma mrot_rdq_step:
  assumes K: "kinv C {} Q s"
  shows "task_step C Q s (snd (mrot_rdq C me pri prcid s))"
proof (cases "sense_tskctx_unl me s \<and> VALID_TPRI_SELF pri \<and> VALID_PRCID C prcid")
  case True
  obtain b s1 where r: "rotate_ready_queue (rot_pri me pri s) (INDEX_PRC prcid) s = (b, s1)" by fastforce
  obtain d s2 where d: "t_request me (INDEX_PRC prcid) b s1 = (d, s2)" by fastforce
  from treq.rotate_step(2) [OF K rot_pri_valid [OF K] r d] True r d show ?thesis
    by (auto simp: mrot_rdq_def Let_def)
next
  case False
  then show ?thesis using task_step_refl [OF K] by (auto simp: mrot_rdq_def)
qed

lemma i_req_done: "i_req me p b s = (False, i_request me p b s)"
  by (simp add: i_req_def)

lemma imrot_rdq_step:
  assumes K: "kinv C {} Q s"
  shows "task_step C Q s (snd (imrot_rdq C me pri prcid s))"
proof (cases "sense_intctx_unl me s \<and> VALID_TPRI pri \<and> VALID_PRCID C prcid")
  case True
  obtain b s1 where r: "rotate_ready_queue (INT_PRIORITY pri) (INDEX_PRC prcid) s = (b, s1)" by fastforce
  from ireq.rotate_step(2) [OF K INT_PRIORITY_valid r i_req_done] True r show ?thesis
    by (auto simp: imrot_rdq_def Let_def t_dispatch_if_def)
next
  case False
  then show ?thesis using task_step_refl [OF K] by (auto simp: imrot_rdq_def)
qed

lemma irot_rdq_step:
  assumes K: "kinv C {} Q s"
  shows "task_step C Q s (snd (irot_rdq me pri s))"
proof (cases "sense_intctx_unl me s \<and> VALID_TPRI pri")
  case True
  obtain b s1 where r: "rotate_ready_queue (INT_PRIORITY pri) me s = (b, s1)" by fastforce
  from ireq.rotate_step(2) [where me = me, OF K INT_PRIORITY_valid r i_req_done] True r show ?thesis
    by (auto simp: irot_rdq_def Let_def t_dispatch_if_def i_request_def dispatch_request_def)
next
  case False
  then show ?thesis using task_step_refl [OF K] by (auto simp: irot_rdq_def)
qed

lemma cpu_lock_step:
  assumes K: "kinv C {} Q s"
  shows "task_step C Q s (snd (loc_cpu me s))" and "task_step C Q s (snd (iloc_cpu me s))"
    and "task_step C Q s (snd (unl_cpu me s))" and "task_step C Q s (snd (iunl_cpu me s))"
proof -
  have "task_step C Q s (set_cpu_lock me x s)" for x
    unfolding set_cpu_lock_def by (rule task_step_upd_pcb [OF K]) simp_all
  then show "task_step C Q s (snd (loc_cpu me s))" and "task_step C Q s (snd (iloc_cpu me s))"
    and "task_step C Q s (snd (unl_cpu me s))" and "task_step C Q s (snd (iunl_cpu me s))"
    using task_step_refl [OF K] by (simp_all add: loc_cpu_def iloc_cpu_def unl_cpu_def iunl_cpu_def)
qed

lemma dis_dsp_step:
  assumes K: "kinv C {} Q s"
  shows "task_step C Q s (snd (dis_dsp me s))"
  using task_step_refl [OF K] task_step_upd_pcb [OF K, of "\<lambda>b. b\<lparr>disdsp := True, dspflg := False\<rparr>" me]
  by (simp add: dis_dsp_def)

text \<open>Enabling the dispatch: what was put off is made good.\<close>

lemma enable_kinv:
  assumes K: "kinv C {} Q s" and r: "p_runtsk (f (pcb_of s me)) = p_runtsk (pcb_of s me)"
      "p_schedtsk (f (pcb_of s me)) = p_schedtsk (pcb_of s me)"
      "ready_primap (f (pcb_of s me)) = ready_primap (pcb_of s me)"
      "excpt_nest_count (f (pcb_of s me)) = excpt_nest_count (pcb_of s me)"
    and d: "dspflg (f (pcb_of s me)) \<Longrightarrow> p_runtsk (pcb_of s me) \<noteq> p_schedtsk (pcb_of s me) \<Longrightarrow> d"
  shows "kinv C {} Q (t_dispatch_if me d (upd_pcb me f s))"
proof -
  have "kinv C (insert me {}) Q (upd_pcb me f s)" by (rule kinv_set_pcb(1) [where f = f, OF K]) (use r in auto)
  then show ?thesis by (rule dispatch_needed_kinv) (use r d in auto)
qed

lemma enable_step:
  assumes "kinv C {} Q (t_dispatch_if me d (upd_pcb me f s))"
  shows "task_step C Q s (t_dispatch_if me d (upd_pcb me f s))"
  by (rule task_stepI [OF assms]) (simp_all add: keeps_def)

lemma ena_dsp_step:
  assumes K: "kinv C {} Q s"
  shows "task_step C Q s (snd (ena_dsp me s))"
proof (cases "sense_tskctx_unl me s")
  case True
  have u: "upd_pcb me f (upd_pcb me g s) = upd_pcb me (\<lambda>b. f (g b)) s" for f g
    by (simp add: upd_pcb_def)
  show ?thesis
  proof (cases "ipmflg (pcb_of s me)")
    case i: True
    have "kinv C {} Q (t_dispatch_if me (p_runtsk (pcb_of s me) \<noteq> p_schedtsk (pcb_of s me))
       (upd_pcb me (\<lambda>b. b\<lparr>disdsp := False, dspflg := True\<rparr>) s))"
      by (rule enable_kinv [OF K]) auto
    from enable_step [OF this] show ?thesis using i True by (simp add: ena_dsp_def Let_def u)
  next
    case False
    then show ?thesis using True task_step_upd_pcb [OF K, of "\<lambda>b. b\<lparr>disdsp := False\<rparr>" me]
      by (simp add: ena_dsp_def Let_def)
  qed
next
  case False
  then show ?thesis using task_step_refl [OF K] by (simp add: ena_dsp_def)
qed


lemma task_step_enatex:
  assumes K: "kinv C {} Q s"
  shows "task_step C Q s (upd_tcb t (\<lambda>b. b\<lparr>enatex := x\<rparr>) s)"
    and "task_step C Q s (upd_tcb t (\<lambda>b. b\<lparr>texptn := f (texptn b)\<rparr>) s)"
    and "kinv C {} Q (upd_tcb t (\<lambda>b. b\<lparr>enatex := x\<rparr>) s)"
    and "kinv C {} Q (upd_tcb t (\<lambda>b. b\<lparr>texptn := f (texptn b)\<rparr>) s)"
proof -
  note wf = kinvD(5) [OF K, of t]
  show "task_step C Q s (upd_tcb t (\<lambda>b. b\<lparr>enatex := x\<rparr>) s)"
    by (rule task_step_upd_tcb [OF K]) (simp_all add: wf)
  show "task_step C Q s (upd_tcb t (\<lambda>b. b\<lparr>texptn := f (texptn b)\<rparr>) s)"
    by (rule task_step_upd_tcb [OF K]) (simp_all add: wf)
  show "kinv C {} Q (upd_tcb t (\<lambda>b. b\<lparr>enatex := x\<rparr>) s)"
    by (rule kinv_upd_tcb [OF K]) (simp_all add: wf)
  show "kinv C {} Q (upd_tcb t (\<lambda>b. b\<lparr>texptn := f (texptn b)\<rparr>) s)"
    by (rule kinv_upd_tcb [OF K]) (simp_all add: wf)
qed

lemma dis_tex_step: "kinv C {} Q s \<Longrightarrow> task_step C Q s (snd (dis_tex C me s))"
  by (simp add: dis_tex_def Let_def task_step_refl task_step_enatex)

lemma ena_tex_1_step: "kinv C {} Q s \<Longrightarrow> task_step C Q s (snd (ena_tex_1 C me s))"
  by (simp add: ena_tex_1_def Let_def task_step_refl task_step_enatex)

text \<open>An exception raised for a task of this processor or, by an interrupt, for another.\<close>

lemma dispatch_request_step:
  assumes K: "kinv C {} Q s" and eq: "dispatch_request me p s = (d, s')"
  shows "kinv C {} Q s'" and "keeps {} Q s0 Q s \<Longrightarrow> keeps {} Q s0 Q s'" and "objs s' = objs s"
    and "pcb_of s' = pcb_of s" and "tcb_of s' = tcb_of s" and "d \<longleftrightarrow> p = me"
proof -
  have "kinv C {} Q (target_ipi_raise p s)" 
    using dispatch_request_kinv(1) [of C p "{}" Q s "Suc p" False "target_ipi_raise p s"] kinv_weaken [OF K, of "{p}"]
    by (simp add: dispatch_request_def)
  then show "kinv C {} Q s'" using K eq by (auto simp: dispatch_request_def split: if_splits)
  show "objs s' = objs s" "pcb_of s' = pcb_of s" "d \<longleftrightarrow> p = me" and tc: "tcb_of s' = tcb_of s"
    using eq by (auto simp: dispatch_request_def target_ipi_raise_def split: if_splits)
  show "keeps {} Q s0 Q s \<Longrightarrow> keeps {} Q s0 Q s'" by (simp add: keeps_same_tcb [OF tc])
qed

lemma ras_tex_1_step:
  assumes K: "kinv C {} Q s"
  shows "task_step C Q s (snd (ras_tex_1 C me tskid ptn s))"
proof (cases "\<not> sense_tskctx_unl me s \<or> \<not> VALID_TSKID_SELF C tskid \<or> ptn = 0 \<or> no_texrtn C (get_tcb_self me tskid s) s")
  case True
  then show ?thesis using task_step_refl [OF K] by (auto simp: ras_tex_1_def Let_def)
next
  case False
  let ?t = "get_tcb_self me tskid s"
  let ?s = "upd_tcb ?t (\<lambda>b. b\<lparr>texptn := texptn b OR ptn\<rparr>) s"
  obtain d s' where d: "dispatch_request me (p_pcb (tcb_of s ?t)) ?s = (d, s')" by fastforce
  note R = dispatch_request_step [OF task_step_enatex(4) [OF K] d]
  have "task_step C Q s s'" by (rule task_stepI [OF R(1) R(2)]) (auto simp: keeps_def R(3))
  then show ?thesis using False d by (simp add: ras_tex_1_def Let_def)
qed

lemma set_reqflg_step:
  assumes K: "kinv C {} Q s" and k: "keeps {} Q s0 Q s" "objs s = objs s0"
  shows "task_step C Q s0 (set_reqflg p s)"
  by (rule task_stepI [OF set_reqflg_kinv [OF kinv_weaken [OF K]]]) (use k in \<open>auto simp: set_reqflg_def keeps_def\<close>)

lemma iras_tex_step:
  assumes K: "kinv C {} Q s"
  shows "task_step C Q s (snd (iras_tex C me tskid ptn s))"
proof (cases "\<not> sense_intctx_unl me s \<or> \<not> VALID_TSKID C tskid \<or> ptn = 0 \<or> no_texrtn C (get_tcb tskid) s")
  case True
  then show ?thesis using task_step_refl [OF K] by (auto simp: iras_tex_def Let_def)
next
  case False
  let ?t = "get_tcb tskid"
  let ?s = "upd_tcb ?t (\<lambda>b. b\<lparr>texptn := texptn b OR ptn\<rparr>) s"
  obtain d s' where d: "dispatch_request me (p_pcb (tcb_of s ?t)) ?s = (d, s')" by fastforce
  note R = dispatch_request_step [OF task_step_enatex(4) [OF K] d]
  have k: "keeps {} Q s Q s'" "objs s' = objs s" by (rule R(2)) (simp_all add: R(3) keeps_def)
  show ?thesis using False d task_stepI [OF R(1) k] set_reqflg_step [OF R(1) k]
    by (simp add: iras_tex_def Let_def)
qed

lemma chg_ipm_1_step:
  assumes K: "kinv C {} Q s"
  shows "task_step C Q s (snd (chg_ipm_1 valid me intpri s))"
proof -
  have u: "upd_pcb me f (upd_pcb me g s) = upd_pcb me (\<lambda>b. f (g b)) s" for f g
    by (simp add: upd_pcb_def)
  let ?d = "p_runtsk (pcb_of s me) \<noteq> p_schedtsk (pcb_of s me)"
  have a: "kinv C {} Q (t_dispatch_if me ?d (upd_pcb me (\<lambda>b. b\<lparr>ipmflg := True, dspflg := True\<rparr>) s))"
    by (rule enable_kinv [OF K]) auto
  have b: "task_step C Q s (upd_pcb me (\<lambda>b. b\<lparr>ipmflg := False, dspflg := False\<rparr>) s)"
    "task_step C Q s (upd_pcb me (\<lambda>b. b\<lparr>ipmflg := True\<rparr>) s)"
    by (rule task_step_upd_pcb [OF K]; simp)+
  show ?thesis
    using task_step_refl [OF K] enable_step [OF a] b
    by (auto simp: chg_ipm_1_def Let_def u t_dispatch_if_def)
qed


section \<open>The task exception routine\<close>

definition running :: "tskix \<Rightarrow> kstate \<Rightarrow> bool" where
  "running t s \<longleftrightarrow> p_runtsk (pcb_of s (p_pcb (tcb_of s t))) = Some t"

text \<open>
  What is assumed of the rest of the system while \<open>call_texrtn\<close> has given up the locks: it keeps
  the invariant, and when the task is back it runs.
\<close>

definition tex_env_ok :: "cfg \<Rightarrow> tskix \<Rightarrow> (tex_window \<Rightarrow> kstate \<Rightarrow> kstate) \<Rightarrow> bool" where
  "tex_env_ok C t env \<longleftrightarrow> (\<forall>w Q s. kinv C {} Q s \<longrightarrow> w = Tex_dispatch \<or> running t s \<longrightarrow>
     (\<exists>Q'. kinv C {} Q' (env w s)) \<and> running t (env w s))"

definition tex_state :: "cfg \<Rightarrow> tskix \<Rightarrow> kstate \<Rightarrow> bool" where
  "tex_state C t s \<longleftrightarrow> (\<exists>Q. kinv C {} Q s) \<and> running t s"

definition texrtn_round :: "(tex_window \<Rightarrow> kstate \<Rightarrow> kstate) \<Rightarrow> tskix \<Rightarrow> bool \<Rightarrow> kstate \<Rightarrow> kstate" where
  "texrtn_round env t saved s =
     (let (ptn, s) = texrtn_take t s;
          s = env (Tex_routine ptn) s;
          (d, s) = texrtn_return (p_pcb (tcb_of s t)) t saved s
      in if d then env Tex_dispatch s else s)"

lemma texrtn_loop_round:
  "texrtn_loop env t saved s =
     (let s = texrtn_round env t saved s
      in if texptn (tcb_of s t) \<noteq> 0 then texrtn_loop env t saved s
         else Some (upd_tcb t (\<lambda>b. b\<lparr>enatex := True\<rparr>) s))"
  by (subst texrtn_loop.simps) (simp add: texrtn_round_def Let_def split: prod.split)

lemma texrtn_loop_rounds:
  assumes "texptn (tcb_of ((texrtn_round env t saved ^^ Suc n) s) t) = 0"
  shows "\<exists>k \<le> n. texrtn_loop env t saved s =
      Some (upd_tcb t (\<lambda>b. b\<lparr>enatex := True\<rparr>) ((texrtn_round env t saved ^^ Suc k) s)) \<and>
    texptn (tcb_of ((texrtn_round env t saved ^^ Suc k) s) t) = 0"
  using assms
proof (induction n arbitrary: s)
  case 0
  then show ?case by (subst texrtn_loop_round) simp
next
  case (Suc n)
  let ?r = "texrtn_round env t saved"
  show ?case
  proof (cases "texptn (tcb_of (?r s) t) = 0")
    case True
    then show ?thesis by (subst texrtn_loop_round) (auto intro!: exI [of _ 0])
  next
    case False
    have "texptn (tcb_of ((?r ^^ Suc n) (?r s)) t) = 0"
      using Suc.prems by (simp only: funpow_Suc_right o_apply)
    then obtain k where k: "k \<le> n" "texrtn_loop env t saved (?r s) =
        Some (upd_tcb t (\<lambda>b. b\<lparr>enatex := True\<rparr>) ((?r ^^ Suc k) (?r s)))"
      "texptn (tcb_of ((?r ^^ Suc k) (?r s)) t) = 0" using Suc.IH by blast
    have f: "(?r ^^ Suc k) (?r s) = (?r ^^ Suc (Suc k)) s" by (simp only: funpow_Suc_right o_apply)
    from k(1) show ?thesis
      by (intro exI [of _ "Suc k"] conjI, simp)
         (use False k(2,3) in \<open>simp_all only: f texrtn_loop_round [of env t saved s] Let_def simp_thms if_True\<close>)
  qed
qed

lemma texrtn_loop_ends:
  "texrtn_loop env t saved s = Some s' \<Longrightarrow>
    \<exists>n. texptn (tcb_of ((texrtn_round env t saved ^^ Suc n) s) t) = 0"
proof (induction rule: texrtn_loop.raw_induct [rotated 1, consumes 1])
  case (1 loop env t saved s s')
  let ?r = "texrtn_round env t saved"
  have e: "(if texptn (tcb_of (?r s) t) \<noteq> 0 then loop env t saved (?r s)
      else Some (upd_tcb t (\<lambda>b. b\<lparr>enatex := True\<rparr>) (?r s))) = Some s'"
    using 1(2) unfolding texrtn_round_def Let_def case_prod_unfold by assumption
  show ?case
  proof (cases "texptn (tcb_of (?r s) t) = 0")
    case True
    then show ?thesis by (intro exI [of _ 0]) simp
  next
    case False
    then have "loop env t saved (?r s) = Some s'" using e by simp
    from 1(1) [OF this] obtain n where "texptn (tcb_of ((?r ^^ Suc n) (?r s)) t) = 0" by blast
    then have "texptn (tcb_of ((?r ^^ Suc (Suc n)) s) t) = 0" by (simp only: funpow_Suc_right o_apply)
    then show ?thesis by blast
  qed
qed


text \<open>After the routine: the flags are set back, and a dispatch that was put off is made good.\<close>

lemma texrtn_return_kinv:
  assumes K: "kinv C {} Q s" and r: "p_runtsk (pcb_of s me) = Some t"
    and eq: "texrtn_return me t saved s = (d, s')"
  shows "kinv C {} Q s'" and "tcb_of s' = (tcb_of s)(t := (tcb_of s t)\<lparr>enatex := False\<rparr>)"
    and "\<not> d \<Longrightarrow> p_runtsk (pcb_of s' p) = p_runtsk (pcb_of s p)"
    and "\<exists>g. objs s' = (objs s)\<lparr>spncb_of := g\<rparr>"
proof -
  define s3 where "s3 = force_unlock_spin me (upd_tcb t (\<lambda>b. b\<lparr>enatex := False\<rparr>)
    (upd_pcb me (\<lambda>b. b\<lparr>ipmflg := True, disdsp := saved, dspflg := \<not> saved\<rparr>) s))"
  have u: "upd_pcb me f (upd_pcb me g s) = upd_pcb me (\<lambda>b. f (g b)) s" for f g s
    by (simp add: upd_pcb_def)
  have i: "upd_pcb me (\<lambda>b. b\<lparr>disdsp := saved, dspflg := \<not> saved\<rparr>) s =
    upd_pcb me (\<lambda>b. b\<lparr>ipmflg := True, disdsp := saved, dspflg := \<not> saved\<rparr>) s" if "ipmflg (pcb_of s me)"
  proof -
    have "(pcb_of s me)\<lparr>ipmflg := True\<rparr> = pcb_of s me" using that by (cases "pcb_of s me") simp
    then have "(pcb_of s me)\<lparr>ipmflg := True, disdsp := saved, dspflg := \<not> saved\<rparr> =
      (pcb_of s me)\<lparr>disdsp := saved, dspflg := \<not> saved\<rparr>" by simp
    then show ?thesis by (simp add: upd_pcb_def)
  qed
  have fl: "p_schedtsk (pcb_of s3 me) = p_schedtsk (pcb_of s me)" "dspflg (pcb_of s3 me) = (\<not> saved)"
    "p_runtsk (pcb_of s3 p) = p_runtsk (pcb_of s p)" for p
    by (simp_all add: s3_def force_unlock_spin_pcb)
  define x where "x \<longleftrightarrow> Some t \<noteq> p_schedtsk (pcb_of s me) \<and> \<not> saved"
  have "texrtn_return me t saved s = (x, t_dispatch_if me x s3)"
    using fl(1,2) by (simp add: texrtn_return_def Let_def u i s3_def x_def)
  then have e: "d = x" "s' = t_dispatch_if me x s3" using eq by simp_all
  have "kinv C (insert me {}) Q
    (upd_tcb t (\<lambda>b. b\<lparr>enatex := False\<rparr>) (upd_pcb me (\<lambda>b. b\<lparr>ipmflg := True, disdsp := saved, dspflg := \<not> saved\<rparr>) s))"
    by (rule kinv_upd_tcb [OF kinv_set_pcb(1) [OF K]]) (simp_all add: kinvD(5) [OF K, of t])
  then have "kinv C (insert me {}) Q s3" by (simp add: s3_def)
  then show "kinv C {} Q s'" unfolding e(2)
    by (rule dispatch_needed_kinv) (use r fl in \<open>auto simp: x_def\<close>)
  show "tcb_of s' = (tcb_of s)(t := (tcb_of s t)\<lparr>enatex := False\<rparr>)" by (simp add: e(2) s3_def)
  show "p_runtsk (pcb_of s' p) = p_runtsk (pcb_of s p)" if "\<not> d" using that fl(3) by (simp add: e t_dispatch_if_def)
  show "\<exists>g. objs s' = (objs s)\<lparr>spncb_of := g\<rparr>"
    using force_unlock_spin_objs [of me "upd_tcb t (\<lambda>b. b\<lparr>enatex := False\<rparr>)
      (upd_pcb me (\<lambda>b. b\<lparr>ipmflg := True, disdsp := saved, dspflg := \<not> saved\<rparr>) s)"]
    by (auto simp: e(2) s3_def)
qed

lemma texrtn_round_keeps:
  assumes S: "tex_state C t s" and env: "tex_env_ok C t env"
  shows "tex_state C t (texrtn_round env t saved s)"
proof -
  let ?s1 = "upd_tcb t (\<lambda>b. b\<lparr>texptn := 0\<rparr>) s"
  obtain Q where "kinv C {} Q s" and r: "running t s" using S by (auto simp: tex_state_def)
  then have K1: "kinv C {} Q ?s1" and r1: "running t ?s1"
    using task_step_enatex(4) [of C Q s t "\<lambda>_. 0"] by (simp_all add: running_def)
  define s2 where "s2 = env (Tex_routine (texptn (tcb_of s t))) ?s1"
  obtain Q2 where K2: "kinv C {} Q2 s2" and r2: "running t s2"
    using env K1 r1 unfolding tex_env_ok_def s2_def by blast
  obtain d s4 where eq: "texrtn_return (p_pcb (tcb_of s2 t)) t saved s2 = (d, s4)" by fastforce
  note R = texrtn_return_kinv [OF K2 r2 [unfolded running_def] eq]
  have e: "texrtn_round env t saved s = (if d then env Tex_dispatch s4 else s4)"
    by (simp add: texrtn_round_def texrtn_take_def Let_def eq flip: s2_def)
  show ?thesis
  proof (cases d)
    case True
    then show ?thesis using env R(1) unfolding tex_env_ok_def tex_state_def e by simp
  next
    case False
    then show ?thesis using R(1,2) R(3) [OF False] r2 unfolding tex_state_def e by (auto simp: running_def)
  qed
qed


lemma texrtn_rounds_keep:
  "tex_state C t s \<Longrightarrow> tex_env_ok C t env \<Longrightarrow> tex_state C t ((texrtn_round env t saved ^^ n) s)"
  by (induction n) (simp_all add: texrtn_round_keeps)

lemma tex_state_enatex: "tex_state C t s \<Longrightarrow> tex_state C t (upd_tcb t (\<lambda>b. b\<lparr>enatex := x\<rparr>) s)"
  using task_step_enatex(3) unfolding tex_state_def running_def by fastforce

text \<open>
  \<open>call_texrtn\<close> returns exactly when the exceptions raised while it works run out; none is then
  pending, and the task runs with its exceptions enabled.
\<close>

lemma call_texrtn_ends:
  defines "start me s \<equiv> upd_tcb (runtsk me s) (\<lambda>b. b\<lparr>enatex := False\<rparr>) s"
    and "round env me s \<equiv> texrtn_round env (runtsk me s) (disdsp (pcb_of s me))"
  shows "(\<exists>s'. call_texrtn env me s = Some s') \<longleftrightarrow>
      (\<exists>n. texptn (tcb_of ((round env me s ^^ Suc n) (start me s)) (runtsk me s)) = 0)"
    and "tex_state C (runtsk me s) s \<Longrightarrow> tex_env_ok C (runtsk me s) env \<Longrightarrow> call_texrtn env me s = Some s' \<Longrightarrow>
      tex_state C (runtsk me s) s' \<and> texptn (tcb_of s' (runtsk me s)) = 0 \<and> enatex (tcb_of s' (runtsk me s))"
proof -
  let ?l = "texrtn_loop env (runtsk me s) (disdsp (pcb_of s me)) (start me s)"
  have e: "call_texrtn env me s = ?l" by (simp add: call_texrtn_def start_def Let_def)
  have "\<exists>n. texptn (tcb_of ((round env me s ^^ Suc n) (start me s)) (runtsk me s)) = 0"
    if "call_texrtn env me s = Some s'" for s'
    using texrtn_loop_ends [of env "runtsk me s" "disdsp (pcb_of s me)" "start me s" s'] that
    unfolding e round_def by simp
  moreover have L: "\<exists>k. call_texrtn env me s = Some (upd_tcb (runtsk me s) (\<lambda>b. b\<lparr>enatex := True\<rparr>)
      ((round env me s ^^ Suc k) (start me s))) \<and>
      texptn (tcb_of ((round env me s ^^ Suc k) (start me s)) (runtsk me s)) = 0"
    if "texptn (tcb_of ((round env me s ^^ Suc n) (start me s)) (runtsk me s)) = 0" for n
    using texrtn_loop_rounds [OF that [unfolded round_def]] unfolding e round_def by blast
  ultimately show "(\<exists>s'. call_texrtn env me s = Some s') \<longleftrightarrow>
      (\<exists>n. texptn (tcb_of ((round env me s ^^ Suc n) (start me s)) (runtsk me s)) = 0)" by blast
  assume S: "tex_state C (runtsk me s) s" and env: "tex_env_ok C (runtsk me s) env"
    and r: "call_texrtn env me s = Some s'"
  then obtain n where "texptn (tcb_of ((round env me s ^^ Suc n) (start me s)) (runtsk me s)) = 0"
    using texrtn_loop_ends [of env "runtsk me s" "disdsp (pcb_of s me)" "start me s" s'] unfolding e round_def by blast
  from L [OF this] obtain k where k: "s' = upd_tcb (runtsk me s) (\<lambda>b. b\<lparr>enatex := True\<rparr>)
      ((round env me s ^^ Suc k) (start me s))"
      "texptn (tcb_of ((round env me s ^^ Suc k) (start me s)) (runtsk me s)) = 0"
    unfolding r option.inject by blast
  have "tex_state C (runtsk me s) ((round env me s ^^ Suc k) (start me s))"
    unfolding round_def by (rule texrtn_rounds_keep [OF _ env]) (simp add: start_def tex_state_enatex S)
  then show "tex_state C (runtsk me s) s' \<and> texptn (tcb_of s' (runtsk me s)) = 0 \<and> enatex (tcb_of s' (runtsk me s))"
    using tex_state_enatex k by simp
qed

section \<open>What the services do\<close>

text \<open>\<open>dspflg\<close> summarizes the two reasons for which dispatching is put off.\<close>

definition dsp_ok :: "kstate \<Rightarrow> bool" where
  "dsp_ok s \<longleftrightarrow> (\<forall>p. dspflg (pcb_of s p) = (\<not> disdsp (pcb_of s p) \<and> ipmflg (pcb_of s p)))"

lemma t_dispatch_if_flags [simp]:
  "dspflg (pcb_of (t_dispatch_if me d s) p) = dspflg (pcb_of s p)"
  "disdsp (pcb_of (t_dispatch_if me d s) p) = disdsp (pcb_of s p)"
  "ipmflg (pcb_of (t_dispatch_if me d s) p) = ipmflg (pcb_of s p)"
  by (simp_all add: t_dispatch_if_def dispatch_def)

lemma dsp_ok_dispatch [simp]: "dsp_ok (t_dispatch_if me d s) = dsp_ok s"
  by (simp add: dsp_ok_def)

lemma dsp_ok_tcb [simp]: "dsp_ok (upd_tcb t f s) = dsp_ok s"
  by (simp add: dsp_ok_def)

lemma dsp_ok_services:
  assumes "dsp_ok s"
  shows "dsp_ok (snd (dis_dsp me s))" and "dsp_ok (snd (ena_dsp me s))"
    and "dsp_ok (snd (chg_ipm_1 valid me intpri s))"
    and "dsp_ok (snd (texrtn_return me t saved s))"
  using assms
  by (auto simp: dis_dsp_def ena_dsp_def chg_ipm_1_def texrtn_return_def Let_def dsp_ok_def force_unlock_spin_pcb)

lemma ena_dsp_spec:
  assumes K: "kinv C {} Q s" and c: "sense_tskctx_unl me s" and eq: "ena_dsp me s = (r, s')"
  shows "r = Ret E_OK \<and> task_step C Q s s' \<and> \<not> disdsp (pcb_of s' me) \<and>
    (if ipmflg (pcb_of s me) then dspflg (pcb_of s' me) \<and> p_runtsk (pcb_of s' me) = top_task Q me
     else p_runtsk (pcb_of s' me) = p_runtsk (pcb_of s me))"
proof -
  have "task_step C Q s s'" using ena_dsp_step [OF K, of me] eq by simp
  then show ?thesis
    using eq c kinvD(7) [OF K, of me]
    by (auto simp: ena_dsp_def Let_def t_dispatch_if_def dispatch_def split: if_splits)
qed

lemma rot_rdq_spec:
  assumes K: "kinv C {} Q s" and c: "sense_tskctx_unl me s" and v: "VALID_TPRI_SELF pri"
    and eq: "rot_rdq me pri s = (r, s')"
    and q: "q = RDY me (rot_pri me pri s)" and Q': "Q' = Q(q := rotate1 (Q q))"
  shows "r = Ret E_OK \<and> kinv C {} Q' s' \<and> tcb_of s' = tcb_of s \<and> objs s' = objs s \<and>
    (dspflg (pcb_of s me) \<longrightarrow> p_runtsk (pcb_of s me) = p_schedtsk (pcb_of s me) \<longrightarrow>
      p_runtsk (pcb_of s' me) = top_task Q' me) \<and>
    (\<not> dspflg (pcb_of s me) \<longrightarrow> p_runtsk (pcb_of s' me) = p_runtsk (pcb_of s me))"
proof -
  obtain b s1 where r: "rotate_ready_queue (rot_pri me pri s) me s = (b, s1)" by fastforce
  note S = treq.rotate_step [OF K rot_pri_valid [OF K v] r t_request_self]
  note R = rotate_kinv [OF K rot_pri_valid [OF K v] r]
  have ch: "sched_change me b s s1" by (rule rotate_ready_queue_inv(2) [OF kinvD(1) [OF K] rot_pri_valid [OF K v] r])
  note F = sched_frameD [OF rotate_ready_queue_frame [OF r]]
  have e: "r = Ret E_OK" "s' = t_dispatch_if me b s1" using eq c v r by (auto simp: rot_rdq_def Let_def)
  have K': "kinv C {} Q' s'" using S(1) by (simp add: e q Q')
  have t: "tcb_of s' = tcb_of s" "objs s' = objs s" using R(3,4) by (simp_all add: e)
  have sch: "p_schedtsk (pcb_of s1 me) = top_task Q' me" using kinvD(7) [OF R(1), of me] by (simp add: q Q')
  show ?thesis
  proof (cases b)
    case True
    then have "dspflg (pcb_of s me)" using ch by (simp add: sched_change_def)
    then show ?thesis using K' t e(1) sch True by (simp add: e(2) t_dispatch_if_def dispatch_def)
  next
    case False
    then have "dspflg (pcb_of s me) \<Longrightarrow> p_schedtsk (pcb_of s1 me) = p_schedtsk (pcb_of s me)"
      using ch by (simp add: sched_change_def)
    then show ?thesis using K' t e(1) sch False by (auto simp: e(2) t_dispatch_if_def F)
  qed
qed

text \<open>What \<open>ref_tsk\<close> returns is within the ranges of the types of the interface.\<close>

definition rtsk_valid :: "cfg \<Rightarrow> t_rtsk \<Rightarrow> bool" where
  "rtsk_valid C r \<longleftrightarrow>
     tskstat r \<in> {TTS_RUN, TTS_RDY, TTS_WAI, TTS_SUS, TTS_WAS, TTS_DMT} \<and>
     (\<forall>p. tskpri r = Some p \<longrightarrow> VALID_TPRI p) \<and> tskbpri r = tskpri r \<and>
     (tskwait r \<noteq> None \<longleftrightarrow> tskstat r \<in> {TTS_WAI, TTS_WAS}) \<and>
     (lefttmo r \<noteq> None \<longleftrightarrow> tskstat r \<in> {TTS_WAI, TTS_WAS}) \<and>
     (wobjid r \<noteq> None \<longleftrightarrow> tskwait r \<notin> {None, Some TTW_SLP, Some TTW_DLY}) \<and>
     (\<forall>i. wobjid r = Some i \<longrightarrow> 1 \<le> i) \<and> (tskpri r = None \<longleftrightarrow> tskstat r = TTS_DMT) \<and>
     actcnt r \<le> 1 \<and> (\<forall>n. wupcnt r = Some n \<longrightarrow> n \<le> 1) \<and> 1 \<le> rtsk_prcid r"

lemma tskpri_valid: "wf_tcb tc \<Longrightarrow> VALID_TPRI (EXT_TSKPRI (priority tc))"
  by (simp add: wf_tcb_def VALID_TPRI_def EXT_TSKPRI_def TMIN_TPRI_def TMAX_TPRI_def)

lemma WOBJID_pos: "1 \<le> WOBJID w"
  by (cases w) (simp_all add: WOBJID_def)

lemma rtsk_wait_valid:
  assumes wf: "wf_tcb tc" and w: "TSTAT_WAITING (tstat tc)"
  shows "fst (rtsk_wait tc) \<noteq> None"
    and "snd (rtsk_wait tc) \<noteq> None \<longleftrightarrow> fst (rtsk_wait tc) \<notin> {None, Some TTW_SLP, Some TTW_DLY}"
    and "snd (rtsk_wait tc) = Some i \<Longrightarrow> 1 \<le> i"
proof -
  show "snd (rtsk_wait tc) = Some i \<Longrightarrow> 1 \<le> i"
    using WOBJID_pos by (auto simp: rtsk_wait_def Let_def split: if_splits)
  have "tstat tc \<in> set wf_tstats" and o: "TSTAT_WAIT_WOBJ (tstat tc) \<Longrightarrow> p_wobjcb tc \<noteq> None"
    using wf by (auto simp: wf_tcb_def split: option.splits)
  then show "fst (rtsk_wait tc) \<noteq> None"
    and "snd (rtsk_wait tc) \<noteq> None \<longleftrightarrow> fst (rtsk_wait tc) \<notin> {None, Some TTW_SLP, Some TTW_DLY}"
    using w
    by (auto simp: wf_tstats_def rtsk_wait_def tstat_macros tstat_consts TTW_SLP_def TTW_DLY_def TTW_SEM_def TTW_FLG_def
       TTW_SDTQ_def TTW_RDTQ_def TTW_SPDQ_def TTW_RPDQ_def TTW_MBX_def TTW_MPF_def)
qed


lemma ref_tsk_valid:
  assumes K: "kinv C P Q s" and eq: "ref_tsk C me tskid s = ((r, Some x), s')"
  shows "r = E_OK \<and> s' = s \<and> rtsk_valid C x"
proof -
  define t where "t = get_tcb_self me tskid s"
  have wf: "wf_tcb (tcb_of s t)" by (rule kinvD(5) [OF K])
  have nd: "TSTAT_DORMANT (tstat (tcb_of s t)) \<Longrightarrow> \<not> TSTAT_WAITING (tstat (tcb_of s t))"
    by (auto simp: tstat_macros tstat_consts)
  have st: "rtsk_status t s \<in> {TTS_RUN, TTS_RDY, TTS_WAI, TTS_SUS, TTS_WAS}"
    "rtsk_status t s \<in> {TTS_WAI, TTS_WAS} \<longleftrightarrow> TSTAT_WAITING (tstat (tcb_of s t))" "rtsk_status t s \<noteq> TTS_DMT"
    by (auto simp: rtsk_status_def Let_def TTS_RUN_def TTS_RDY_def TTS_WAI_def TTS_SUS_def TTS_WAS_def TTS_DMT_def)
  note W = rtsk_wait_valid [OF wf]
  have p: "1 \<le> ID_PRC p" for p by (simp add: ID_PRC_def)
  have ok: "r = E_OK" "s' = s" using eq by (simp_all add: ref_tsk_def Let_def split: if_splits)
  show ?thesis
  proof (cases "TSTAT_DORMANT (tstat (tcb_of s t))")
    case True
    then have x: "x = \<lparr>tskstat = TTS_DMT, tskpri = None, tskbpri = None, tskwait = None, wobjid = None,
      lefttmo = None, actcnt = (if actque (tcb_of s t) then 1 else 0), wupcnt = None,
      rtsk_prcid = ID_PRC (p_pcb (tcb_of s t)), rtsk_actprc = actprc (tcb_of s t)\<rparr>"
      using eq by (auto simp: ref_tsk_def Let_def simp flip: t_def split: if_splits)
    have "rtsk_valid C x" unfolding x rtsk_valid_def
      by (simp add: p TTS_WAI_def TTS_WAS_def TTS_DMT_def)
    then show ?thesis using ok by simp
  next
    case nd: False
    let ?w = "TSTAT_WAITING (tstat (tcb_of s t))"
    have x: "x = \<lparr>tskstat = rtsk_status t s, tskpri = Some (EXT_TSKPRI (priority (tcb_of s t))),
      tskbpri = Some (EXT_TSKPRI (priority (tcb_of s t))), tskwait = (if ?w then fst (rtsk_wait (tcb_of s t)) else None),
      wobjid = (if ?w then snd (rtsk_wait (tcb_of s t)) else None),
      lefttmo = (if ?w then Some (rtsk_lefttmo t s) else None), actcnt = (if actque (tcb_of s t) then 1 else 0),
      wupcnt = Some (if wupque (tcb_of s t) then 1 else 0),
      rtsk_prcid = ID_PRC (p_pcb (tcb_of s t)), rtsk_actprc = actprc (tcb_of s t)\<rparr>"
      using eq nd by (auto simp: ref_tsk_def Let_def simp flip: t_def split: if_splits)
    have "rtsk_valid C x"
    proof (cases ?w)
      case True
      show ?thesis unfolding x rtsk_valid_def t_rtsk.simps st(2)
        using st(1,3) True W [OF True] tskpri_valid [OF wf] p by (intro conjI; simp)
    next
      case False
      show ?thesis unfolding x rtsk_valid_def t_rtsk.simps st(2)
        using st(1,3) False tskpri_valid [OF wf] p by (intro conjI; simp)
    qed
    then show ?thesis using ok by simp
  qed
qed

end
