(* ===== verification/Sys_Properties.thy ===== *)
theory Sys_Properties
  imports Sys_Manage Sample
begin

text \<open>
  The properties of system state management and task exceptions, each with an instance on a
  concrete state.
\<close>

section \<open>Dispatching\<close>

text \<open>
  C35: \<open>rot_rdq\<close> moves the first task of the priority to the end of its ready queue and changes
  nothing else of the queues, the tasks and the objects; with dispatching enabled the processor
  then runs the first task of the rotated queues, otherwise the same task as before.
\<close>

theorem rot_rdq_meets_spec:
  assumes "kinv C {} Q s" and "sense_tskctx_unl me s" and "VALID_TPRI_SELF pri"
    and "rot_rdq me pri s = (r, s')"
    and "q = RDY me (rot_pri me pri s)" and "Q' = Q(q := rotate1 (Q q))"
  shows "r = Ret E_OK \<and> kinv C {} Q' s' \<and> tcb_of s' = tcb_of s \<and> objs s' = objs s \<and>
    (dspflg (pcb_of s me) \<longrightarrow> p_runtsk (pcb_of s me) = p_schedtsk (pcb_of s me) \<longrightarrow>
      p_runtsk (pcb_of s' me) = top_task Q' me) \<and>
    (\<not> dspflg (pcb_of s me) \<longrightarrow> p_runtsk (pcb_of s' me) = p_runtsk (pcb_of s me))"
  by (rule rot_rdq_spec [OF assms])

theorem rot_rdq_meets_spec_witness:
  "\<exists>s'. rot_rdq 0 TPRI_SELF sample_state = (Ret E_OK, s') \<and> p_runtsk (pcb_of s' 0) = Some 0"
proof -
  obtain r s' where e: "rot_rdq 0 TPRI_SELF sample_state = (r, s')" by fastforce
  have p: "rot_pri 0 TPRI_SELF sample_state = 5" by (simp add: rot_pri_def sample_tcb_def)
  have q: "sample_queues = sample_queues(RDY 0 5 := rotate1 (sample_queues (RDY 0 5)))" by (simp add: fun_eq_iff)
  have t: "top_task sample_queues 0 = Some 0"
    by (rule top_taskI [of 5 _ _ _ "[]"]) simp_all
  show ?thesis
    using rot_rdq_meets_spec [OF sample_kinv _ _ e _ q] e p t by (simp add: VALID_TPRI_SELF_def)
qed

text \<open>
  C36: \<open>ena_dsp\<close> makes good for what was put off while dispatching was disabled: unless the
  interrupt mask still holds it off, the processor then runs the first task of its ready queues.
  \<open>dspflg\<close> is set exactly when neither \<open>dis_dsp\<close> nor the mask disables dispatching.
\<close>

theorem ena_dsp_makes_good:
  assumes "kinv C {} Q s" and "dsp_ok s" and "sense_tskctx_unl me s" and "ena_dsp me s = (r, s')"
  shows "r = Ret E_OK \<and> (\<exists>Q'. kinv C {} Q' s' \<and> keeps {} Q s Q' s' \<and> objs s' = objs s) \<and> dsp_ok s' \<and>
    \<not> disdsp (pcb_of s' me) \<and>
    (if ipmflg (pcb_of s me) then dspflg (pcb_of s' me) \<and> p_runtsk (pcb_of s' me) = top_task Q me
     else p_runtsk (pcb_of s' me) = p_runtsk (pcb_of s me))"
  using ena_dsp_spec [OF assms(1,3,4)] dsp_ok_services(2) [OF assms(2), of me] assms(4)
  by (simp add: task_step_def)

theorem ena_dsp_makes_good_witness:
  "\<exists>s'. ena_dsp 0 sample_state = (Ret E_OK, s') \<and> p_runtsk (pcb_of s' 0) = Some 0"
proof -
  obtain r s' where e: "ena_dsp 0 sample_state = (r, s')" by fastforce
  have d: "dsp_ok sample_state" by (auto simp: dsp_ok_def sample_state_def sample_pcb_def)
  have t: "top_task sample_queues 0 = Some 0"
    by (rule top_taskI [of 5 _ _ _ "[]"]) simp_all
  have i: "ipmflg (pcb_of sample_state 0)" by (simp add: sample_state_def sample_pcb_def)
  show ?thesis using ena_dsp_makes_good [OF sample_kinv d _ e] e i t by simp
qed

section \<open>Task exceptions\<close>



section \<open>Reference\<close>

text \<open>
  C38: a packet that \<open>ref_tsk\<close> returns is consistent with its type: the status is one of the six
  states, the priority is in the range of the interface, the cause of the wait and the time left
  are given exactly in the waiting states, the object exactly for a wait on an object, and the
  counts of requests are at most one.
\<close>

theorem ref_tsk_is_valid:
  assumes "kinv C P Q s" and "ref_tsk C me tskid s = ((r, Some x), s')"
  shows "r = E_OK \<and> s' = s \<and> rtsk_valid C x"
  by (rule ref_tsk_valid [OF assms])

theorem ref_tsk_is_valid_witness:
  "\<exists>x. ref_tsk sample_cfg 0 2 sample_state = ((E_OK, Some x), sample_state) \<and> tskstat x = TTS_WAI \<and>
     tskwait x = Some TTW_SEM \<and> wobjid x = Some 1 \<and> rtsk_valid sample_cfg x"
proof -
  have t: "get_tcb_self 0 2 sample_state = Suc 0"
    by (simp add: get_tcb_self_def TSK_SELF_def get_tcb_def INDEX_TSK_def uint_cast_def)
  have v: "VALID_TSKID_SELF sample_cfg 2" by (simp add: VALID_TSKID_SELF_def VALID_TSKID_def sample_cfg_def)
  obtain x where e: "ref_tsk sample_cfg 0 2 sample_state = ((E_OK, Some x), sample_state)"
    and x: "tskstat x = TTS_WAI" "tskwait x = Some TTW_SEM" "wobjid x = Some 1"
    by (simp add: ref_tsk_def t v Let_def rtsk_status_def rtsk_wait_def WOBJID_def tstat_macros tstat_consts)
  show ?thesis using ref_tsk_is_valid [OF sample_kinv e] e x by auto
qed

end
