(* ===== verification/Interrupt.thy ===== *)
theory Interrupt
  imports Sys_Manage
begin

text \<open>
  Entering and leaving a handler, the idle loop (\<open>arch/arm_gcc/common/core_support.S\<close>), the
  interprocessor interrupt (\<open>kernel/mp.c\<close>) and the end of the kernel (\<open>ext_ker\<close> of
  \<open>kernel/startup.c\<close>).
\<close>

section \<open>Handlers\<close>

definition int_enter :: "prcix \<Rightarrow> kstate \<Rightarrow> kstate" where
  "int_enter me s = upd_pcb me (\<lambda>b. b\<lparr>excpt_nest_count := excpt_nest_count b + 1\<rparr>) s"

text \<open>
  From the label \<open>ret_int_1\<close> to the check for task exceptions, which is \<open>calltex\<close>: a return to a
  handler, or to the idle loop, only counts the nesting down.
\<close>

definition ret_int_1 :: "prcix \<Rightarrow> kstate \<Rightarrow> kstate" where
  "ret_int_1 me s =
     (let s = upd_pcb me (\<lambda>b. b\<lparr>excpt_nest_count := excpt_nest_count b - 1\<rparr>) s in
      if excpt_nest_count (pcb_of s me) \<noteq> 0 then s
      else if \<not> reqflg (pcb_of s me) then s
      else let s = upd_pcb me (\<lambda>b. b\<lparr>reqflg := False\<rparr>) s
           in t_dispatch_if me
                (dspflg (pcb_of s me) \<and> p_runtsk (pcb_of s me) \<noteq> p_schedtsk (pcb_of s me)) s)"

text \<open>The interrupted context had the CPU unlocked, and has it unlocked again.\<close>

definition ret_int :: "prcix \<Rightarrow> kstate \<Rightarrow> kstate" where
  "ret_int me s = set_cpu_lock me False (ret_int_1 me (force_unlock_spin me s))"

text \<open>
  A CPU exception may hit a context that holds a spin lock, \<open>spnid\<close>, which it keeps; the CPU lock
  of the interrupted context, \<open>locked\<close>, is restored with the saved status register.
\<close>

definition ret_exc :: "ident \<Rightarrow> bool \<Rightarrow> prcix \<Rightarrow> kstate \<Rightarrow> kstate" where
  "ret_exc spnid locked me s =
     set_cpu_lock me locked (ret_int_1 me (if spnid = 0 then force_unlock_spin me s else s))"

text \<open>One round of the idle loop, with \<open>p_runtsk\<close> empty and the nesting count 1.\<close>

definition idle_loop :: "prcix \<Rightarrow> kstate \<Rightarrow> kstate" where
  "idle_loop me s =
     (if \<not> reqflg (pcb_of s me) then s
      else dispatch me (upd_pcb me (\<lambda>b. b\<lparr>reqflg := False, excpt_nest_count := 0\<rparr>) s))"

section \<open>The interprocessor interrupt and the end of the kernel\<close>

definition target_ipi_clear :: "prcix \<Rightarrow> kstate \<Rightarrow> kstate" where
  "target_ipi_clear me s = s\<lparr>ipi := (ipi s)(me := False)\<rparr>"

fun ext_ker_ipis :: "prcix \<Rightarrow> nat \<Rightarrow> kstate \<Rightarrow> kstate" where
  "ext_ker_ipis me 0 s = s"
| "ext_ker_ipis me (Suc p) s =
     (let s = ext_ker_ipis me p s in if ID_PRC p \<noteq> ID_PRC me then target_ipi_raise p s else s)"

definition ext_ker_request :: "cfg \<Rightarrow> prcix \<Rightarrow> kstate \<Rightarrow> kstate" where
  "ext_ker_request C me s =
     (if ext_ker_reqflg s then s
      else ext_ker_ipis me (tnum_prcid C) (s\<lparr>ext_ker_reqflg := True\<rparr>))"

definition ext_ker :: "cfg \<Rightarrow> prcix \<Rightarrow> kstate \<Rightarrow> ercd svc \<times> kstate" where
  "ext_ker C me s =
     (let s = force_unlock_spin me s;
          s = upd_pcb me (\<lambda>b. b\<lparr>kerflg := False\<rparr>) s
      in (Exits, ext_ker_request C me s))"

definition ipi_handler :: "cfg \<Rightarrow> prcix \<Rightarrow> kstate \<Rightarrow> ercd svc \<times> kstate" where
  "ipi_handler C me s =
     (let s = target_ipi_clear me s in
      if ext_ker_reqflg s then ext_ker C me s else (Ret E_OK, set_reqflg me s))"

text \<open>
  Where \<open>USE_IPI_DIS_HANDER_BYPASS\<close> is set, \<open>irq_handler\<close> (\<open>mpcore/chip_support.S\<close>) takes the
  interrupt that asks for a dispatch straight to \<open>ret_int_ipi_dispatch\<close>.
\<close>

definition ret_int_ipi_dispatch :: "prcix \<Rightarrow> kstate \<Rightarrow> kstate" where
  "ret_int_ipi_dispatch me s =
     (if excpt_nest_count (pcb_of s me) = 0
      then t_dispatch_if me (dspflg (pcb_of s me) \<and> p_runtsk (pcb_of s me) \<noteq> p_schedtsk (pcb_of s me)) s
      else set_reqflg me s)"

definition irq_ipi :: "prcix \<Rightarrow> kstate \<Rightarrow> kstate" where
  "irq_ipi me s = ret_int_ipi_dispatch me (target_ipi_clear me s)"

section \<open>Handlers keep the kernel invariant\<close>

text \<open>\<open>in_handler\<close>: a handler runs, on top of a task, of another handler or of the idle loop.\<close>

definition in_handler :: "prcix \<Rightarrow> kstate \<Rightarrow> bool" where
  "in_handler me s \<longleftrightarrow>
     (if p_runtsk (pcb_of s me) = None then 1 else 0) < excpt_nest_count (pcb_of s me)"

lemma kinv_nest:
  assumes K: "kinv C P Q s" and n: "n = 0 \<Longrightarrow> p_runtsk (pcb_of s p) \<noteq> None"
  shows "kinv C P Q (upd_pcb p (\<lambda>b. b\<lparr>excpt_nest_count := n\<rparr>) s)"
proof -
  let ?s = "upd_pcb p (\<lambda>b. b\<lparr>excpt_nest_count := n\<rparr>) s"
  have "qinv {} Q ?s" by (rule qinv_frame [OF kinvD(1) [OF K]]) auto
  moreover have "tinv {} ?s"
    by (rule tinv_frame [OF kinvD(2) [OF K]]) (auto simp: tm_place_def cb_ok_def same_handlers_def)
  moreover have "dinv P ?s" using kinvD(3) [OF K] by (simp add: dinv_def)
  moreover have "rinv ?s" using kinvD(8) [OF K] n by (auto simp: rinv_def)
  moreover have "sinv C Q ?s" using kinvD(9) [OF K] by (simp add: sinv_def)
  ultimately show ?thesis by (simp add: kinv_def)
qed

lemma upd_pcb_at: "f (pcb_of s p) = g (pcb_of s p) \<Longrightarrow> upd_pcb p f s = upd_pcb p g s"
  by (simp add: upd_pcb_def)

lemma int_enter_kinv:
  assumes "kinv C P Q s"
  shows "kinv C P Q (int_enter me s)" and "in_handler me (int_enter me s)"
proof -
  have "int_enter me s = upd_pcb me (\<lambda>b. b\<lparr>excpt_nest_count := excpt_nest_count (pcb_of s me) + 1\<rparr>) s"
    unfolding int_enter_def by (rule upd_pcb_at) simp
  then show "kinv C P Q (int_enter me s)" using kinv_nest [OF assms] by simp
  have "excpt_nest_count (pcb_of s me) = 0 \<Longrightarrow> p_runtsk (pcb_of s me) \<noteq> None"
    using kinvD(8) [OF assms] by (simp add: rinv_def)
  then show "in_handler me (int_enter me s)" by (cases "excpt_nest_count (pcb_of s me)") (auto simp: in_handler_def int_enter_def)
qed

lemma ret_int_1_kinv:
  assumes K: "kinv C {} Q s" and h: "in_handler me s"
  shows "kinv C {} Q (ret_int_1 me s)" and "tcb_of (ret_int_1 me s) = tcb_of s"
    and "objs (ret_int_1 me s) = objs s"
proof -
  let ?n = "excpt_nest_count (pcb_of s me) - 1"
  define s1 where "s1 = upd_pcb me (\<lambda>b. b\<lparr>excpt_nest_count := excpt_nest_count b - 1\<rparr>) s"
  define s2 where "s2 = upd_pcb me (\<lambda>b. b\<lparr>reqflg := False\<rparr>) s1"
  define d where "d = (dspflg (pcb_of s2 me) \<and> p_runtsk (pcb_of s2 me) \<noteq> p_schedtsk (pcb_of s2 me))"
  have e: "ret_int_1 me s = (if excpt_nest_count (pcb_of s1 me) \<noteq> 0 \<or> \<not> reqflg (pcb_of s1 me) then s1
      else t_dispatch_if me d s2)"
    by (simp add: ret_int_1_def Let_def s1_def s2_def d_def)
  have "s1 = upd_pcb me (\<lambda>b. b\<lparr>excpt_nest_count := ?n\<rparr>) s"
    unfolding s1_def by (rule upd_pcb_at) simp
  then have K1: "kinv C {} Q s1"
    using kinv_nest [OF K, of ?n me] h by (auto simp: in_handler_def split: if_splits)
  have "kinv C (insert me {}) Q s2"
    unfolding s2_def by (rule kinv_set_pcb(1) [OF K1]) simp_all
  then have "kinv C {} Q (t_dispatch_if me d s2)" by (rule dispatch_needed_kinv) (simp add: d_def)
  then show "kinv C {} Q (ret_int_1 me s)" using K1 e by simp
  show "tcb_of (ret_int_1 me s) = tcb_of s" "objs (ret_int_1 me s) = objs s"
    by (simp_all add: e) (simp_all add: s1_def s2_def)
qed

lemma set_cpu_lock_kinv [simp]: "kinv C P Q (set_cpu_lock me x s) = kinv C P Q s"
  by (simp add: set_cpu_lock_def kinv_upd_pcb)

lemma force_unlock_in_handler [simp]: "in_handler me (force_unlock_spin me s) = in_handler me s"
  by (simp add: in_handler_def force_unlock_spin_pcb)

lemma ret_int_kinv:
  assumes "kinv C {} Q s" and "in_handler me s"
  shows "kinv C {} Q (ret_int me s)" and "kinv C {} Q (ret_exc spnid locked me s)"
  using ret_int_1_kinv(1) [of C Q s me] ret_int_1_kinv(1) [of C Q "force_unlock_spin me s" me] assms
  by (simp_all add: ret_int_def ret_exc_def)

lemma idle_loop_kinv:
  assumes K: "kinv C {} Q s"
  shows "kinv C {} Q (idle_loop me s)"
proof -
  have e: "dispatch me (upd_pcb me (\<lambda>b. b\<lparr>reqflg := False, excpt_nest_count := 0\<rparr>) s) =
      dispatch me (upd_pcb me (\<lambda>b. b\<lparr>reqflg := False\<rparr>) s)"
    by (simp add: dispatch_def upd_pcb_def)
  have "kinv C (insert me {}) Q (upd_pcb me (\<lambda>b. b\<lparr>reqflg := False\<rparr>) s)"
    by (rule kinv_set_pcb(1) [OF K]) simp_all
  from dispatch_kinv [OF this] show ?thesis using K by (simp add: idle_loop_def e)
qed

lemma target_ipi_clear_kinv:
  assumes K: "kinv C P Q s"
  shows "kinv C (insert me P) Q (target_ipi_clear me s)"
proof -
  have "qinv {} Q (target_ipi_clear me s)"
    by (rule qinv_frame [OF kinvD(1) [OF K]]) (simp_all add: target_ipi_clear_def)
  moreover have "tinv {} (target_ipi_clear me s)"
    by (rule tinv_frame [OF kinvD(2) [OF K]])
       (simp_all add: target_ipi_clear_def tm_place_def cb_ok_def same_handlers_def)
  moreover have "dinv (insert me P) (target_ipi_clear me s)"
    using kinvD(3) [OF K] by (auto simp: dinv_def target_ipi_clear_def)
  moreover have "rinv (target_ipi_clear me s)" using kinvD(8) [OF K] by (simp add: rinv_def target_ipi_clear_def)
  moreover have "sinv C Q (target_ipi_clear me s)" using kinvD(9) [OF K] by (simp add: sinv_def target_ipi_clear_def)
  ultimately show ?thesis by (simp add: kinv_def)
qed

lemma ipi_handler_kinv:
  assumes K: "kinv C {} Q s" and n: "\<not> ext_ker_reqflg s"
  shows "kinv C {} Q (snd (ipi_handler C me s))"
  using set_reqflg_kinv [OF target_ipi_clear_kinv [OF K]] n
  by (simp add: ipi_handler_def Let_def target_ipi_clear_def)

lemma irq_ipi_kinv:
  assumes K: "kinv C {} Q s"
  shows "kinv C {} Q (irq_ipi me s)" and "tcb_of (irq_ipi me s) = tcb_of s" and "objs (irq_ipi me s) = objs s"
proof -
  let ?s = "target_ipi_clear me s"
  let ?d = "dspflg (pcb_of ?s me) \<and> p_runtsk (pcb_of ?s me) \<noteq> p_schedtsk (pcb_of ?s me)"
  note K1 = target_ipi_clear_kinv [OF K, of me]
  have "kinv C {} Q (t_dispatch_if me ?d ?s)" by (rule dispatch_needed_kinv [OF K1]) blast
  then show "kinv C {} Q (irq_ipi me s)"
    using set_reqflg_kinv [OF K1] by (simp add: irq_ipi_def ret_int_ipi_dispatch_def)
  show "tcb_of (irq_ipi me s) = tcb_of s" "objs (irq_ipi me s) = objs s"
    by (simp_all add: irq_ipi_def ret_int_ipi_dispatch_def target_ipi_clear_def set_reqflg_def)
qed

text \<open>
  When the outermost handler has returned to the task context, no dispatch is outstanding but for
  an interprocessor interrupt that is still pending.
\<close>

lemma ret_int_dispatched:
  assumes K: "kinv C {} Q s" and h: "in_handler me s" and n: "excpt_nest_count (pcb_of s me) = 1"
    and i: "\<not> ipi s me" and d: "dspflg (pcb_of s me)" and k: "kerflg (pcb_of s me)"
  shows "p_runtsk (pcb_of (ret_int_1 me s) me) = top_task Q me" and "\<not> reqflg (pcb_of (ret_int_1 me s) me)"
    and "dspflg (pcb_of (ret_int_1 me s) me)" and "ipi (ret_int_1 me s) = ipi s"
proof -
  have r: "reqflg (pcb_of s me) \<or> p_runtsk (pcb_of s me) = p_schedtsk (pcb_of s me)"
    using kinvD(3) [OF K] d i k by (auto simp: dinv_def)
  show "p_runtsk (pcb_of (ret_int_1 me s) me) = top_task Q me" "\<not> reqflg (pcb_of (ret_int_1 me s) me)"
    "dspflg (pcb_of (ret_int_1 me s) me)" "ipi (ret_int_1 me s) = ipi s"
    using r n d kinvD(7) [OF K, of me]
    by (auto simp: ret_int_1_def Let_def t_dispatch_if_def dispatch_def)
qed

text \<open>An idle processor starts the first task as soon as it is interrupted.\<close>

lemma idle_loop_runs:
  assumes "kinv C {} Q s" and "reqflg (pcb_of s me)"
  shows "p_runtsk (pcb_of (idle_loop me s) me) = top_task Q me"
  using assms(2) kinvD(7) [OF assms(1), of me] by (simp add: idle_loop_def dispatch_def)

section \<open>The end of the kernel\<close>

lemma ext_ker_ipis_sel [simp]:
  "pcb_of (ext_ker_ipis me n s) = pcb_of s" "ext_ker_reqflg (ext_ker_ipis me n s) = ext_ker_reqflg s"
  "ipi (ext_ker_ipis me n s) = (\<lambda>p. ipi s p \<or> p < n \<and> p \<noteq> me)"
  by (induction n) (auto simp: Let_def target_ipi_raise_def ID_PRC_def fun_eq_iff less_Suc_eq)

lemma force_unlock_reqflg [simp]: "ext_ker_reqflg (force_unlock_spin me s) = ext_ker_reqflg s"
  by (simp add: force_unlock_spin_def Let_def upd_spn_def set_locspnid_def)

text \<open>
  \<open>ending C s\<close>: once the end is requested, every processor of the system has left the kernel or
  has the interrupt pending in which it will.
\<close>

definition ending :: "cfg \<Rightarrow> kstate \<Rightarrow> bool" where
  "ending C s \<longleftrightarrow> (ext_ker_reqflg s \<longrightarrow>
     (\<forall>p < tnum_prcid C. kerflg (pcb_of s p) \<longrightarrow> ipi s p))"

lemma ext_ker_ending:
  assumes "ending C s"
  shows "ending C (snd (ext_ker C me s))" and "ext_ker_reqflg (snd (ext_ker C me s))"
    and "\<not> kerflg (pcb_of (snd (ext_ker C me s)) me)"
    and "p \<noteq> me \<Longrightarrow> kerflg (pcb_of (snd (ext_ker C me s)) p) = kerflg (pcb_of s p)"
  using assms
  by (auto simp: ending_def ext_ker_def ext_ker_request_def Let_def force_unlock_spin_pcb)

lemma ipi_handler_ending:
  assumes "ending C s"
  shows "ending C (snd (ipi_handler C me s))"
proof (cases "ext_ker_reqflg s")
  case True
  then show ?thesis
    using assms
    by (auto simp: ending_def ipi_handler_def target_ipi_clear_def ext_ker_def ext_ker_request_def Let_def
        force_unlock_spin_pcb)
next
  case False
  then show ?thesis by (simp add: ending_def ipi_handler_def target_ipi_clear_def set_reqflg_def Let_def)
qed

end
