(* ===== verification/Startup.thy ===== *)
theory Startup
  imports Interrupt Semaphore Eventflag Dataqueue Pridataq Mailbox Mempfix
begin

text \<open>
  The start of the kernel (\<open>sta_ker\<close> of \<open>kernel/startup.c\<close>, \<open>initialize_pcb\<close> of \<open>kernel/mp.c\<close>,
  \<open>initialize_task\<close> of \<open>kernel/task.c\<close>, the generated \<open>initialize_object\<close>).  Every processor
  initializes its own part, the master also the objects; what one initializes no other touches
  before the barriers, so the model runs the processors one after the other, in any order.
\<close>

section \<open>Operations\<close>

fun init_ready_queues :: "prcix \<Rightarrow> nat \<Rightarrow> kstate \<Rightarrow> kstate" where
  "init_ready_queues me 0 s = s"
| "init_ready_queues me (Suc i) s =
     on_kq (queue_initialize (Hdr (RDY me i))) (init_ready_queues me i s)"

definition initialize_pcb :: "bool \<Rightarrow> prcix \<Rightarrow> kstate \<Rightarrow> kstate" where
  "initialize_pcb x_sense_mprc me s =
     (let s = upd_pcb me (\<lambda>b. b\<lparr>p_runtsk := None, p_schedtsk := None, reqflg := False,
                              ipmflg := True, disdsp := False, dspflg := True\<rparr>) s;
          s = init_ready_queues me TNUM_TPRI s;
          s = upd_pcb me (\<lambda>b. b\<lparr>ready_primap := 0, locspnid := 0\<rparr>) s
      in if x_sense_mprc then s\<lparr>ext_ker_reqflg := False\<rparr> else s)"

fun init_tsks :: "cfg \<Rightarrow> prcix \<Rightarrow> nat \<Rightarrow> kstate \<Rightarrow> kstate" where
  "init_tsks C me 0 s = s"
| "init_tsks C me (Suc i) s =
     (let s = init_tsks C me i s;
          j = INDEX_TSK (torder_table C ! i)
      in if iaffinity (tinib_table C j) = ID_PRC me then
           (let s = upd_tcb j (\<lambda>b. b\<lparr>actque := False, actprc := TPRC_NONE, p_pcb := me\<rparr>) s;
                s = make_dormant C j s
            in if tskatr (tinib_table C j) AND TA_ACT \<noteq> 0 then snd (make_active j s) else s)
         else s)"

definition initialize_task :: "cfg \<Rightarrow> prcix \<Rightarrow> kstate \<Rightarrow> kstate" where
  "initialize_task C me s = init_tsks C me (tnum_tsk C) s"

definition initialize_object :: "cfg \<Rightarrow> bool \<Rightarrow> prcix \<Rightarrow> kstate \<Rightarrow> kstate" where
  "initialize_object C x_sense_mprc me s =
     (let s = initialize_task C me s;
          s = initialize_semaphore C x_sense_mprc s;
          s = initialize_eventflag C x_sense_mprc s;
          s = initialize_dataqueue C x_sense_mprc s;
          s = initialize_pridataq C x_sense_mprc s;
          s = initialize_mailbox C x_sense_mprc s;
          s = initialize_mempfix C x_sense_mprc s;
          s = initialize_cyclic C me s;
          s = initialize_alarm C me s
      in initialize_spin_lock C x_sense_mprc me s)"

text \<open>\<open>sta_ker\<close> up to the first barrier, and after the last one.\<close>

definition sta_ker_1 :: "cfg \<Rightarrow> bool \<Rightarrow> prcix \<Rightarrow> kstate \<Rightarrow> kstate" where
  "sta_ker_1 C x_sense_mprc me s =
     (let s = initialize_pcb x_sense_mprc me s;
          s = initialize_tmevt me s
      in initialize_object C x_sense_mprc me s)"

definition start_dispatch :: "prcix \<Rightarrow> kstate \<Rightarrow> kstate" where
  "start_dispatch me s =
     dispatch me (upd_pcb me (\<lambda>b. b\<lparr>excpt_nest_count := 0, lock_flag := False\<rparr>) s)"

definition sta_ker_2 :: "prcix \<Rightarrow> kstate \<Rightarrow> kstate" where
  "sta_ker_2 me s = start_dispatch me (upd_pcb me (\<lambda>b. b\<lparr>kerflg := True\<rparr>) s)"

definition startup :: "cfg \<Rightarrow> prcix \<Rightarrow> prcix list \<Rightarrow> kstate \<Rightarrow> kstate" where
  "startup C mprc order s = fold (\<lambda>p. sta_ker_1 C (p = mprc) p) order s"

section \<open>The memory before the start\<close>

text \<open>
  The kernel's memory is cleared by the start-up code of the target, which then sets the nesting
  count to 1 and has the CPU locked.  The pointers of the queue headers, \<open>q\<close>, are not yet set.
\<close>

definition boot_tcb :: tcb where
  "boot_tcb = \<lparr>tstat = 0, priority = 0, actque = False, wupque = False, enatex = False, texptn = 0,
     p_pcb = 0, actprc = 0, pend_relwai = False, pend_chgpri = False, pend_newpri = 0, wercd = E_OK,
     p_wobjcb = None, winfo_obj = W_NONE\<rparr>"

definition boot_pcb :: pcb where
  "boot_pcb = \<lparr>p_runtsk = None, p_schedtsk = None, reqflg = False, dspflg = False, locspnid = 0,
     ready_primap = 0, kerflg = False, ipmflg = False, disdsp = False, excpt_nest_count = 1,
     lock_flag = True\<rparr>"

definition boot_objs :: kobjs where
  "boot_objs = \<lparr>semcb_of = (\<lambda>_. \<lparr>semcnt = 0\<rparr>), flgcb_of = (\<lambda>_. \<lparr>flgptn = 0\<rparr>),
     dtqcb_of = (\<lambda>_. \<lparr>dtq_count = 0, head = 0, tail = 0, dtqmb = (\<lambda>_. 0)\<rparr>),
     pdqcb_of = (\<lambda>_. \<lparr>pdq_count = 0, p_head = None, pdq_unused = 0, p_freelist = None,
       pdqmb_of = (\<lambda>_. \<lparr>pdqmb_next = None, pdqmb_data = 0, pdqmb_datapri = 0\<rparr>)\<rparr>),
     mbxcb_of = (\<lambda>_. \<lparr>pk_head = None, pk_last = None\<rparr>), msg_of = (\<lambda>_. \<lparr>pk_next = None, msgpri = 0\<rparr>),
     mpfcb_of = (\<lambda>_. \<lparr>fblkcnt = 0, mpf_unused = 0, freelist = 0, mpfmb_next = (\<lambda>_. 0)\<rparr>),
     cyccb_of = (\<lambda>_. \<lparr>cycsta = False, evttim = 0, cyc_pcb = 0\<rparr>),
     almcb_of = (\<lambda>_. \<lparr>almsta = False, alm_pcb = 0\<rparr>),
     spncb_of = (\<lambda>_. \<lparr>spn_lock = False, lock_flg = False\<rparr>)\<rparr>"

definition boot_state :: "kqueue \<Rightarrow> kstate" where
  "boot_state q = \<lparr>tcb_of = (\<lambda>_. boot_tcb), pcb_of = (\<lambda>_. boot_pcb), kq = q,
     tevt_of = (\<lambda>_. \<lparr>current_time = 0, min_time = 0, next_time = 0, last_index = 0,
       tmevt_heap = (\<lambda>_. \<lparr>time = 0, p_tmevtb = TM_TSK 0\<rparr>)\<rparr>),
     tm_index = (\<lambda>_. 0), tm_callback = (\<lambda>_. None), ipi = (\<lambda>_. False), ext_ker_reqflg = False,
     objs = boot_objs\<rparr>"

text \<open>The headers that the configuration has; the model's other headers stand for nothing.\<close>

fun hdr_exists :: "cfg \<Rightarrow> qhdr \<Rightarrow> bool" where
  "hdr_exists C (RDY p i) \<longleftrightarrow> p < tnum_prcid C \<and> i < TNUM_TPRI"
| "hdr_exists C (WAITQ (SEM i)) \<longleftrightarrow> i < tnum_sem C"
| "hdr_exists C (WAITQ (FLG i)) \<longleftrightarrow> i < tnum_flg C"
| "hdr_exists C (WAITQ (DTQ i)) \<longleftrightarrow> i < tnum_dtq C"
| "hdr_exists C (WAITQ (PDQ i)) \<longleftrightarrow> i < tnum_pdq C"
| "hdr_exists C (WAITQ (MBX i)) \<longleftrightarrow> i < tnum_mbx C"
| "hdr_exists C (WAITQ (MPF i)) \<longleftrightarrow> i < tnum_mpf C"
| "hdr_exists C (RWAITQ (DTQ i)) \<longleftrightarrow> i < tnum_dtq C"
| "hdr_exists C (RWAITQ (PDQ i)) \<longleftrightarrow> i < tnum_pdq C"
| "hdr_exists C (RWAITQ w) \<longleftrightarrow> False"

definition boot_queues :: "cfg \<Rightarrow> kqueue \<Rightarrow> bool" where
  "boot_queues C q \<longleftrightarrow> (\<forall>h. \<not> hdr_exists C h \<longrightarrow> p_next q (Hdr h) = Hdr h \<and> p_prev q (Hdr h) = Hdr h)"

text \<open>What the configurator guarantees of the task tables.\<close>

definition task_cfg_ok :: "cfg \<Rightarrow> bool" where
  "task_cfg_ok C \<longleftrightarrow> length (torder_table C) = tnum_tsk C \<and>
     distinct (map INDEX_TSK (torder_table C)) \<and> (\<forall>t. ipriority (tinib_table C t) < 16)"

section \<open>Headers that are not yet initialized\<close>

text \<open>
  \<open>as_if U s\<close>: the state in which the headers in \<open>U\<close> are empty rings.  Initializing a header in
  \<open>U\<close> takes it out of \<open>U\<close> and leaves this state as it is.
\<close>

definition fixq :: "qhdr set \<Rightarrow> kqueue \<Rightarrow> kqueue" where
  "fixq U q = \<lparr>p_next = (\<lambda>n. if n \<in> Hdr ` U then n else p_next q n),
     p_prev = (\<lambda>n. if n \<in> Hdr ` U then n else p_prev q n)\<rparr>"

definition as_if :: "qhdr set \<Rightarrow> kstate \<Rightarrow> kstate" where
  "as_if U s = on_kq (fixq U) s"

lemma as_if_sel [simp]:
  "tcb_of (as_if U s) = tcb_of s" "pcb_of (as_if U s) = pcb_of s" "tevt_of (as_if U s) = tevt_of s"
  "tm_index (as_if U s) = tm_index s" "tm_callback (as_if U s) = tm_callback s" "ipi (as_if U s) = ipi s"
  "objs (as_if U s) = objs s" "ext_ker_reqflg (as_if U s) = ext_ker_reqflg s" "kq (as_if U s) = fixq U (kq s)"
  by (simp_all add: as_if_def on_kq_def)

lemma as_if_empty [simp]: "as_if {} s = s"
  by (simp add: as_if_def on_kq_def fixq_def)

lemma fixq_sel [simp]:
  "p_next (fixq U q) n = (if n \<in> Hdr ` U then n else p_next q n)"
  "p_prev (fixq U q) n = (if n \<in> Hdr ` U then n else p_prev q n)"
  by (simp_all add: fixq_def)

lemma qstore_eqI: "(\<And>n. p_next q n = p_next r n) \<Longrightarrow> (\<And>n. p_prev q n = p_prev r n) \<Longrightarrow> q = (r :: kqueue)"
  by (simp add: fun_eq_iff)

lemma fixq_initialize: "h \<in> U \<Longrightarrow> fixq (U - {h}) (queue_initialize (Hdr h) q) = fixq U q"
  by (rule qstore_eqI) (auto simp: queue_initialize_def Let_def)

lemma as_if_initialize: "h \<in> U \<Longrightarrow> as_if (U - {h}) (on_kq (queue_initialize (Hdr h)) s) = as_if U s"
  by (simp add: as_if_def on_kq_def fixq_initialize)

lemma fixq_insert:
  "h \<notin> U \<Longrightarrow> p_prev q (Hdr h) \<notin> Hdr ` U \<Longrightarrow>
   fixq U (queue_insert_prev (Hdr h) (Ent e) q) = queue_insert_prev (Hdr h) (Ent e) (fixq U q)"
  by (rule qstore_eqI) (auto simp: queue_insert_prev_def Let_def image_iff)

lemma as_if_upd [simp]:
  "as_if U (upd_tcb t f s) = upd_tcb t f (as_if U s)" "as_if U (upd_pcb p g s) = upd_pcb p g (as_if U s)"
  by (simp_all add: as_if_def on_kq_def upd_tcb_def upd_pcb_def)

lemma as_if_make_runnable:
  assumes R: "qrep (kq (as_if U s)) Q" and h: "RDY (p_pcb (tcb_of s t)) (priority (tcb_of s t)) \<notin> U"
    and eq: "make_runnable t s = (b, s')"
  shows "make_runnable t (as_if U s) = (b, as_if U s')"
proof -
  let ?h = "RDY (p_pcb (tcb_of s t)) (priority (tcb_of s t))"
  have "p_prev (fixq U (kq s)) (Hdr ?h) = p_prev (kq s) (Hdr ?h)" using h by (auto simp: fixq_def)
  moreover have "p_prev (fixq U (kq s)) (Hdr ?h) \<notin> Hdr ` U"
    using qrep_prev_hdr [OF R, of ?h] h by (auto split: if_splits)
  ultimately have e: "fixq U (queue_insert_prev (Hdr ?h) (Ent t) (kq s)) =
      queue_insert_prev (Hdr ?h) (Ent t) (fixq U (kq s))"
    using fixq_insert [OF h] by simp
  have 1: "on_kq (queue_insert_prev (Hdr ?h) (Ent t)) (as_if U s) =
      as_if U (on_kq (queue_insert_prev (Hdr ?h) (Ent t)) s)"
    by (simp add: as_if_def on_kq_def e)
  have 2: "primap_set p i (as_if U x) = as_if U (primap_set p i x)"
    "set_schedtsk p v (as_if U x) = as_if U (set_schedtsk p v x)" for p i v x
    by (simp_all add: primap_set_def set_schedtsk_def)
  show ?thesis
    using eq by (auto simp: make_runnable_def Let_def 1 2 split: option.splits if_splits)
qed

section \<open>What holds while the processors initialize\<close>

text \<open>
  \<open>cold C D s\<close>: the processors in \<open>D\<close> are initialized, and no kernel runs yet.  A task is dormant
  or, on a processor in \<open>D\<close>, ready; no handler runs and no alarm is set.
\<close>

definition cold :: "cfg \<Rightarrow> prcix set \<Rightarrow> kstate \<Rightarrow> bool" where
  "cold C D s \<longleftrightarrow>
     (\<forall>t. tstat (tcb_of s t) = TS_DORMANT \<or> tstat (tcb_of s t) = TS_RUNNABLE \<and>
        p_pcb (tcb_of s t) \<in> D \<and> iaffinity (tinib_table C t) = ID_PRC (p_pcb (tcb_of s t))) \<and>
     (\<forall>i. cycsta (cyc s i) \<longrightarrow> cyc_iaffinity (cycinib_table C i) \<in> ID_PRC ` D) \<and>
     (\<forall>i. \<not> almsta (alm s i)) \<and>
     (\<forall>p. p \<notin> D \<longrightarrow> last_index (tevt_of s p) = 0) \<and>
     (\<forall>p. \<not> kerflg (pcb_of s p) \<and> p_runtsk (pcb_of s p) = None \<and> excpt_nest_count (pcb_of s p) = 1 \<and>
        \<not> reqflg (pcb_of s p) \<and> \<not> ipi s p \<and> locspnid (pcb_of s p) = 0) \<and> \<not> ext_ker_reqflg s \<and>
     (\<forall>i. spncb_of (objs s) i = \<lparr>spn_lock = False, lock_flg = False\<rparr>)"

lemma coldD:
  assumes "cold C D s"
  shows "tstat (tcb_of s t) = TS_DORMANT \<or> tstat (tcb_of s t) = TS_RUNNABLE \<and>
      p_pcb (tcb_of s t) \<in> D \<and> iaffinity (tinib_table C t) = ID_PRC (p_pcb (tcb_of s t))"
    and "cycsta (cyc s i) \<Longrightarrow> cyc_iaffinity (cycinib_table C i) \<in> ID_PRC ` D" and "\<not> almsta (alm s i)"
    and "p \<notin> D \<Longrightarrow> last_index (tevt_of s p) = 0" and "\<not> kerflg (pcb_of s p)"
    and "p_runtsk (pcb_of s p) = None" and "excpt_nest_count (pcb_of s p) = 1" and "\<not> reqflg (pcb_of s p)"
    and "\<not> ipi s p" and "\<not> ext_ker_reqflg s" and "locspnid (pcb_of s p) = 0"
    and "spncb_of (objs s) i = \<lparr>spn_lock = False, lock_flg = False\<rparr>"
  using assms unfolding cold_def by blast+

lemma cold_place:
  assumes "cold C D s"
  shows "place (tcb_of s t) = (if tstat (tcb_of s t) = TS_RUNNABLE
      then Some (RDY (p_pcb (tcb_of s t)) (priority (tcb_of s t))) else None)"
  using coldD(1) [OF assms, of t] by (auto simp: place_def tstat_macros tstat_consts)

text \<open>Only ready queues of initialized processors are occupied.\<close>

lemma cold_queues:
  assumes K: "kinv C {} Q s" and c: "cold C D s" and "\<And>p i. h = RDY p i \<Longrightarrow> p \<notin> D"
  shows "Q h = []"
proof (rule ccontr)
  assume "Q h \<noteq> []"
  then obtain t where "t \<in> set (Q h)" by (cases "Q h") auto
  then have "place (tcb_of s t) = Some h" using kinvD(6) [OF K] by simp
  then show False
    using cold_place [OF c, of t] coldD(1) [OF c, of t] assms(3) by (auto simp: tstat_consts split: if_splits)
qed

lemma cold_sched:
  assumes K: "kinv C {} Q s" and c: "cold C D s" and p: "p \<notin> D"
  shows "p_schedtsk (pcb_of s p) = None"
proof -
  have "top_task Q p = None" using cold_queues [OF K c] p by (auto simp: top_task_None)
  then show ?thesis using kinvD(7) [OF K] by simp
qed

lemma cold_as_if [simp]: "cold C D (as_if U s) = cold C D s"
  by (simp add: cold_def cyc_def alm_def)

text \<open>The start: the memory as the start-up code leaves it.\<close>

lemma boot_kinv:
  assumes "boot_queues C q"
  shows "kinv C {} (\<lambda>_. []) (as_if {h. hdr_exists C h} (boot_state q))" and "cold C {} (boot_state q)"
proof -
  let ?s = "as_if {h. hdr_exists C h} (boot_state q)"
  have "p_next (fixq {h. hdr_exists C h} q) (Hdr h) = Hdr h \<and> p_prev (fixq {h. hdr_exists C h} q) (Hdr h) = Hdr h" for h
    using assms by (auto simp: boot_queues_def image_iff)
  then have "qrep (kq ?s) (\<lambda>_. [])" by (simp add: qrep_def boot_state_def)
  moreover have "wf_tcb boot_tcb" "place boot_tcb = None"
    by (auto simp: wf_tcb_def boot_tcb_def wf_tstats_def place_def tstat_macros tstat_consts)
  moreover have "top_task (\<lambda>_. []) p = None" for p by (simp add: top_task_None)
  ultimately have "qinv {} (\<lambda>_. []) ?s"
    by (simp add: qinv_def boot_state_def boot_pcb_def) (simp add: boot_tcb_def)
  moreover have "tinv {} ?s"
    by (auto simp: tinv_def tskinv_def hinv_def cb_ok_def heap_inv_def registered_def evset_def tm_place_def
        boot_state_def boot_objs_def)
  moreover have "dinv {} ?s" by (simp add: dinv_def boot_state_def boot_pcb_def)
  moreover have "rinv ?s" by (simp add: rinv_def boot_state_def boot_pcb_def)
  moreover have "sinv C (\<lambda>_. []) ?s" by (simp add: sinv_def)
  ultimately show "kinv C {} (\<lambda>_. []) ?s" by (simp add: kinv_def)
  show "cold C {} (boot_state q)"
    by (simp add: cold_def boot_state_def boot_tcb_def boot_pcb_def boot_objs_def cyc_def alm_def TS_DORMANT_def)
qed

section \<open>One processor\<close>

definition rdy_hdrs :: "prcix \<Rightarrow> nat \<Rightarrow> qhdr set" where "rdy_hdrs me n = RDY me ` {..<n}"

lemma init_ready_queues_as_if:
  "rdy_hdrs me n \<subseteq> U \<Longrightarrow> as_if (U - rdy_hdrs me n) (init_ready_queues me n s) = as_if U s"
proof (induction n)
  case 0
  then show ?case by (simp add: rdy_hdrs_def)
next
  case (Suc n)
  have e: "U - rdy_hdrs me (Suc n) = U - rdy_hdrs me n - {RDY me n}"
    by (auto simp: rdy_hdrs_def lessThan_Suc)
  have "RDY me n \<in> U - rdy_hdrs me n" using Suc.prems by (auto simp: rdy_hdrs_def)
  moreover have "rdy_hdrs me n \<subseteq> U" using Suc.prems by (auto simp: rdy_hdrs_def)
  ultimately show ?case using Suc.IH by (simp only: init_ready_queues.simps e as_if_initialize)
qed

definition pcb_reset :: "pcb \<Rightarrow> pcb" where
  "pcb_reset b = b\<lparr>p_runtsk := None, p_schedtsk := None, reqflg := False, ipmflg := True, disdsp := False,
     dspflg := True, ready_primap := 0, locspnid := 0\<rparr>"

lemma initialize_pcb_as_if:
  assumes "rdy_hdrs me 16 \<subseteq> U" and "\<not> ext_ker_reqflg s"
  shows "as_if (U - rdy_hdrs me 16) (initialize_pcb m me s) = upd_pcb me pcb_reset (as_if U s)"
proof -
  have r: "ext_ker_reqflg (init_ready_queues me n x) = ext_ker_reqflg x" for n x
    by (induction n) (simp_all add: on_kq_def)
  have "initialize_pcb m me s = upd_pcb me (\<lambda>b. b\<lparr>ready_primap := 0, locspnid := 0\<rparr>)
    (init_ready_queues me 16 (upd_pcb me (\<lambda>b. b\<lparr>p_runtsk := None, p_schedtsk := None, reqflg := False,
                              ipmflg := True, disdsp := False, dspflg := True\<rparr>) s))" (is "_ = ?r")
  proof -
    have "\<not> ext_ker_reqflg ?r" using assms(2) by (simp add: r)
    then have "?r\<lparr>ext_ker_reqflg := False\<rparr> = ?r" by simp
    then show ?thesis unfolding initialize_pcb_def Let_def TNUM_TPRI_eq by (simp only: if_cancel)
  qed
  then show ?thesis
    by (simp add: init_ready_queues_as_if [OF assms(1)]) (simp add: upd_pcb_def pcb_reset_def)
qed

lemma pcb_reset_kinv:
  assumes K: "kinv C {} Q s" and c: "cold C D s" and me: "me \<notin> D"
  shows "kinv C {} Q (upd_pcb me pcb_reset s)" and "cold C D (upd_pcb me pcb_reset s)"
proof -
  let ?s = "upd_pcb me pcb_reset s"
  have q: "Q (RDY me i) = []" for i using cold_queues [OF K c] me by auto
  have sc: "p_schedtsk (pcb_of ?s p) = p_schedtsk (pcb_of s p)" for p
    using cold_sched [OF K c me] by (simp add: pcb_reset_def)
  have "qinv {} Q ?s"
    unfolding qinv_def sc upd_pcb_sel(2,3)
    using kinvD(1) [OF K, unfolded qinv_def] q by (simp add: pcb_reset_def)
  moreover have "tinv {} ?s"
    by (rule tinv_frame [OF kinvD(2) [OF K]]) (auto simp: tm_place_def cb_ok_def same_handlers_def)
  moreover have "dinv {} ?s" using coldD(5) [OF c] by (auto simp: dinv_def pcb_reset_def)
  moreover have "rinv ?s" using kinvD(8) [OF K] coldD(7) [OF c] by (auto simp: rinv_def pcb_reset_def)
  moreover have "sinv C Q ?s" using kinvD(9) [OF K] by (simp add: sinv_def)
  ultimately show "kinv C {} Q ?s" by (simp add: kinv_def)
  show "cold C D ?s" using c by (auto simp: cold_def pcb_reset_def cyc_def alm_def)
qed

lemma initialize_tmevt_kinv:
  assumes K: "kinv C {} Q s" and c: "cold C D s" and me: "me \<notin> D"
  shows "kinv C {} Q (initialize_tmevt me s)" and "cold C D (initialize_tmevt me s)"
proof -
  let ?s = "initialize_tmevt me s"
  have l: "last_index (tevt_of s me) = 0" using coldD(4) [OF c me] .
  have r: "registered ?s = registered s"
    using l by (auto simp: fun_eq_iff registered_def evset_def initialize_tmevt_def)
  have h: "heap_inv (tevt_of ?s p) (tm_index ?s)" for p
    using tskinvD(1) [OF tinvD(5) [OF kinvD(2) [OF K]]] by (simp add: initialize_tmevt_def heap_inv_def)
  have "tm_place ?s = tm_place s" "cb_ok ?s = cb_ok s"
    by (simp_all add: fun_eq_iff tm_place_def cb_ok_def initialize_tmevt_def)
  then have "tskinv {} ?s" using tinvD(5) [OF kinvD(2) [OF K]] h by (simp add: tskinv_def r)
  moreover have "hinv ?s" using tinvD(6) [OF kinvD(2) [OF K]] by (simp add: hinv_def r) (simp add: initialize_tmevt_def)
  ultimately have "tinv {} ?s" by (simp add: tinv_def)
  moreover have "qinv {} Q ?s" by (rule qinv_frame [OF kinvD(1) [OF K]]) (simp_all add: initialize_tmevt_def)
  ultimately show "kinv C {} Q ?s"
    using kinvD(3,8,9) [OF K] by (simp add: kinv_def dinv_def rinv_def sinv_def initialize_tmevt_def)
  show "cold C D ?s" using c by (auto simp: cold_def cyc_def alm_def initialize_tmevt_def)
qed

section \<open>The tasks\<close>

definition tcb_reset :: "cfg \<Rightarrow> tskix \<Rightarrow> prcix \<Rightarrow> tcb \<Rightarrow> tcb" where
  "tcb_reset C t me b = b\<lparr>actque := False, actprc := TPRC_NONE, p_pcb := me, tstat := TS_DORMANT,
     priority := ipriority (tinib_table C t), wupque := False, enatex := False, texptn := 0,
     pend_relwai := False, pend_chgpri := False\<rparr>"

lemma tcb_reset_dormant:
  "ipriority (tinib_table C t) < 16 \<Longrightarrow> wf_tcb (tcb_reset C t me b)" "place (tcb_reset C t me b) = None"
  "\<not> TSTAT_WAITING (tstat (tcb_reset C t me b))"
  by (auto simp: tcb_reset_def wf_tcb_def wf_tstats_def place_def tstat_macros tstat_consts TPRC_NONE_def)

lemma tcb_reset_kinv:
  assumes K: "kinv C {} Q s" and c: "cold C D s" and d: "tstat (tcb_of s t) = TS_DORMANT"
    and ip: "ipriority (tinib_table C t) < 16"
  shows "kinv C {} Q (upd_tcb t (tcb_reset C t me) s)" and "cold C D (upd_tcb t (tcb_reset C t me) s)"
proof -
  have pl: "place (tcb_of s t) = None" using cold_place [OF c, of t] d by (simp add: tstat_consts)
  show "kinv C {} Q (upd_tcb t (tcb_reset C t me) s)"
  proof (rule retire_kinv)
    show "qinv {t} Q s" by (rule qinv_weaken [OF kinvD(1) [OF K]]) simp
    show "\<not> queued Q t" using kinvD(6) [OF K, of t] pl by (auto simp: queued_def)
    show "tinv {t} s" by (rule tinv_weaken [OF kinvD(2) [OF K]]) simp
    show "TM_TSK t \<notin> registered s p" for p
      using tskinvD(3) [OF tinvD(5) [OF kinvD(2) [OF K]], of t p] d
      by (simp add: tm_place_def tstat_macros tstat_consts)
    show "p_runtsk (pcb_of s p) \<noteq> Some t" for p using coldD(6) [OF c] by simp
  qed (use kinvD(3,8,9) [OF K] tcb_reset_dormant ip in auto)
  show "cold C D (upd_tcb t (tcb_reset C t me) s)"
    using c by (auto simp: cold_def cyc_def alm_def) (simp_all add: tcb_reset_def)
qed

lemma activate_kinv:
  assumes K: "kinv C {} Q (as_if U s)" and c: "cold C D s" and d: "tstat (tcb_of s t) = TS_DORMANT"
    and p: "p_pcb (tcb_of s t) = me" "me \<in> D" "\<And>i. RDY me i \<notin> U" and a: "iaffinity (tinib_table C t) = ID_PRC me"
  shows "\<exists>Q'. kinv C {} Q' (as_if U (snd (make_active t s)))" and "cold C D (snd (make_active t s))"
    and "tcb_of (snd (make_active t s)) = (tcb_of s)(t := (tcb_of s t)\<lparr>tstat := TS_RUNNABLE\<rparr>)"
    and "objs (snd (make_active t s)) = objs s" and "tevt_of (snd (make_active t s)) = tevt_of s"
proof -
  let ?f = "\<lambda>b. b\<lparr>tstat := TS_RUNNABLE\<rparr>"
  obtain b s' where m: "make_active t s = (b, s')" by fastforce
  have r: "make_runnable t (upd_tcb t ?f s) = (b, s')" using m by (simp add: make_active_def)
  have R: "qrep (kq (as_if U (upd_tcb t ?f s))) Q" using kinvD(4) [OF K] by simp
  have h: "RDY (p_pcb (tcb_of (upd_tcb t ?f s) t)) (priority (tcb_of (upd_tcb t ?f s) t)) \<notin> U"
    using p by simp
  have r': "make_runnable t (upd_tcb t ?f (as_if U s)) = (b, as_if U s')"
    using as_if_make_runnable [OF R h r] by simp
  have pl: "place (tcb_of s t) = None" using cold_place [OF c, of t] d by (simp add: tstat_consts)
  have wf: "wf_tcb (?f (tcb_of s t))"
    using kinvD(5) [OF K, of t] d by (auto simp: wf_tcb_def wf_tstats_def tstat_macros tstat_consts)
  have nw: "\<not> TSTAT_WAITING (tstat (tcb_of s t))" using d by (simp add: tstat_macros tstat_consts)
  have b: "\<not> b \<or> True" by simp
  note S = start_kinv [where f = ?f, OF K _ _ _ _ _ r']
  let ?P = "if b then insert (p_pcb (?f (tcb_of (as_if U s) t))) {} else {}"
  let ?Q = "Q(RDY me (priority (tcb_of s t)) := Q (RDY me (priority (tcb_of s t))) @ [t])"
  have S1: "kinv C ?P ?Q (as_if U s')"
    and S2: "tcb_of (as_if U s') = (tcb_of (as_if U s))(t := ?f (tcb_of (as_if U s) t))"
    and S3: "objs (as_if U s') = objs (as_if U s)" and S4: "core_frame (as_if U s) (as_if U s')"
    using S pl nw wf p by (simp_all add: TSTAT_RUNNABLE_def TS_RUNNABLE_def)
  have fr: "core_frame s s'" using S4 by (simp add: core_frame_def)
  have k: "\<not> kerflg (pcb_of s' q)" for q using coldD(5) [OF c] core_frameD(8) [OF fr] by simp
  have "dinv {} (as_if U s')" using k by (simp add: dinv_def)
  then have "kinv C {} ?Q (as_if U s')" using S1 by (simp add: kinv_def)
  then show "\<exists>Q'. kinv C {} Q' (as_if U (snd (make_active t s)))" using m by auto
  have F: "sched_frame (upd_tcb t ?f s) s'" by (rule make_runnable_frame [OF r])
  note FD = sched_frameD [OF F]
  have x: "ext_ker_reqflg s' = ext_ker_reqflg s"
    using F unfolding sched_frame_def by (auto dest!: arg_cong [where f = ext_ker_reqflg])
  have l: "locspnid (pcb_of s' q) = locspnid (pcb_of s q)" for q
  proof -
    have "(pcb_of s' q)\<lparr>ready_primap := 0, p_schedtsk := None\<rparr> = (pcb_of s q)\<lparr>ready_primap := 0, p_schedtsk := None\<rparr>"
      using F by (simp add: sched_frame_def)
    from arg_cong [OF this, of locspnid] show ?thesis by simp
  qed
  show "tcb_of (snd (make_active t s)) = (tcb_of s)(t := (tcb_of s t)\<lparr>tstat := TS_RUNNABLE\<rparr>)"
    "objs (snd (make_active t s)) = objs s" "tevt_of (snd (make_active t s)) = tevt_of s"
    using m FD by simp_all
  show "cold C D (snd (make_active t s))"
    using c p a x l by (auto simp: cold_def m FD cyc_def alm_def)
qed

text \<open>The loop: the tasks of the processor, in the order of \<open>torder_table\<close>.\<close>

lemma init_tsks_kinv:
  assumes K: "kinv C {} Q (as_if U s)" and c: "cold C D s" and me: "me \<in> D" "\<And>i. RDY me i \<notin> U"
    and cfg: "task_cfg_ok C" and n: "n \<le> length (torder_table C)"
    and d: "\<And>t. iaffinity (tinib_table C t) = ID_PRC me \<Longrightarrow> tstat (tcb_of s t) = TS_DORMANT"
  shows "(\<exists>Q'. kinv C {} Q' (as_if U (init_tsks C me n s))) \<and> cold C D (init_tsks C me n s) \<and>
    objs (init_tsks C me n s) = objs s \<and> tevt_of (init_tsks C me n s) = tevt_of s \<and>
    (\<forall>t. iaffinity (tinib_table C t) = ID_PRC me \<longrightarrow> t \<notin> set (map INDEX_TSK (take n (torder_table C))) \<longrightarrow>
       tstat (tcb_of (init_tsks C me n s) t) = TS_DORMANT)"
  using n
proof (induction n)
  case 0
  then show ?case using K c d by auto
next
  case (Suc n)
  let ?j = "INDEX_TSK (torder_table C ! n)" and ?s = "init_tsks C me n s"
  obtain Q1 where I: "kinv C {} Q1 (as_if U ?s)" "cold C D ?s" "objs ?s = objs s" "tevt_of ?s = tevt_of s"
    and J: "\<And>t. iaffinity (tinib_table C t) = ID_PRC me \<Longrightarrow> t \<notin> set (map INDEX_TSK (take n (torder_table C))) \<Longrightarrow>
       tstat (tcb_of ?s t) = TS_DORMANT"
    using Suc by auto
  have tk: "take (Suc n) (torder_table C) = take n (torder_table C) @ [torder_table C ! n]"
    using Suc.prems by (simp add: take_Suc_conv_app_nth)
  have "distinct (map INDEX_TSK (take (Suc n) (torder_table C)))"
    using cfg distinct_take [of "map INDEX_TSK (torder_table C)" "Suc n"] by (simp add: task_cfg_ok_def take_map)
  then have nj: "?j \<notin> set (map INDEX_TSK (take n (torder_table C)))" by (simp add: tk)
  show ?case
  proof (cases "iaffinity (tinib_table C ?j) = ID_PRC me")
    case False
    then show ?thesis using I J by (auto simp: tk Let_def)
  next
    case True
    let ?s1 = "upd_tcb ?j (tcb_reset C ?j me) ?s"
    have e: "init_tsks C me (Suc n) s =
        (if tskatr (tinib_table C ?j) AND TA_ACT \<noteq> 0 then snd (make_active ?j ?s1) else ?s1)"
    proof -
      have "make_dormant C ?j (upd_tcb ?j (\<lambda>b. b\<lparr>actque := False, actprc := TPRC_NONE, p_pcb := me\<rparr>) ?s) = ?s1"
        by (simp add: make_dormant_def upd_tcb_def tcb_reset_def)
      then show ?thesis using True by (simp add: Let_def)
    qed
    have ip: "ipriority (tinib_table C ?j) < 16" using cfg by (simp add: task_cfg_ok_def)
    have c0: "cold C D (as_if U ?s)" using I(2) by simp
    have dj: "tstat (tcb_of (as_if U ?s) ?j) = TS_DORMANT" using J [OF True nj] by simp
    have K1: "kinv C {} Q1 (as_if U ?s1)" using tcb_reset_kinv(1) [OF I(1) c0 dj ip] by simp
    have dj': "tstat (tcb_of ?s ?j) = TS_DORMANT" using dj by simp
    have c1: "cold C D ?s1" using tcb_reset_kinv(2) [OF I(1) c0 dj ip, of me] unfolding as_if_upd(1) [symmetric] cold_as_if .
    have d1: "tstat (tcb_of ?s1 ?j) = TS_DORMANT" "p_pcb (tcb_of ?s1 ?j) = me" by (simp_all add: tcb_reset_def)
    note A = activate_kinv [OF K1 c1 d1 me True]
    show ?thesis
      using A(1,2,3,4,5) K1 c1 I(3,4) J unfolding e by (auto simp: tk)
  qed
qed

section \<open>The objects\<close>

text \<open>The loops over the object tables have one shape: headers \<open>H i\<close> and a control block \<open>F i\<close>.\<close>

fun obj_loop :: "(nat \<Rightarrow> qhdr list) \<Rightarrow> (nat \<Rightarrow> kobjs \<Rightarrow> kobjs) \<Rightarrow> nat \<Rightarrow> kstate \<Rightarrow> kstate" where
  "obj_loop H F 0 s = s"
| "obj_loop H F (Suc i) s =
     (let s = fold (\<lambda>h. on_kq (queue_initialize (Hdr h))) (H i) (obj_loop H F i s)
      in s\<lparr>objs := F i (objs s)\<rparr>)"

definition sem_ini :: "cfg \<Rightarrow> nat \<Rightarrow> kobjs \<Rightarrow> kobjs" where
  "sem_ini C i x = x\<lparr>semcb_of := (semcb_of x)(i := (semcb_of x i)\<lparr>semcnt := isemcnt (seminib_table C i)\<rparr>)\<rparr>"
definition flg_ini :: "cfg \<Rightarrow> nat \<Rightarrow> kobjs \<Rightarrow> kobjs" where
  "flg_ini C i x = x\<lparr>flgcb_of := (flgcb_of x)(i := (flgcb_of x i)\<lparr>flgptn := iflgptn (flginib_table C i)\<rparr>)\<rparr>"
definition dtq_ini :: "nat \<Rightarrow> kobjs \<Rightarrow> kobjs" where
  "dtq_ini i x = x\<lparr>dtqcb_of := (dtqcb_of x)(i := dtq_reset (dtqcb_of x i))\<rparr>"
definition pdq_ini :: "nat \<Rightarrow> kobjs \<Rightarrow> kobjs" where
  "pdq_ini i x = x\<lparr>pdqcb_of := (pdqcb_of x)(i := pdq_reset (pdqcb_of x i))\<rparr>"
definition mbx_ini :: "nat \<Rightarrow> kobjs \<Rightarrow> kobjs" where
  "mbx_ini i x = x\<lparr>mbxcb_of := (mbxcb_of x)(i := (mbxcb_of x i)\<lparr>pk_head := None\<rparr>)\<rparr>"
definition mpf_ini :: "cfg \<Rightarrow> nat \<Rightarrow> kobjs \<Rightarrow> kobjs" where
  "mpf_ini C i x = x\<lparr>mpfcb_of := (mpfcb_of x)(i := mpf_reset C i (mpfcb_of x i))\<rparr>"

lemmas ini_defs = sem_ini_def flg_ini_def dtq_ini_def pdq_ini_def mbx_ini_def mpf_ini_def

lemma init_loops:
  "init_sems C n s = obj_loop (\<lambda>i. [WAITQ (SEM i)]) (sem_ini C) n s"
  "init_flgs C n s = obj_loop (\<lambda>i. [WAITQ (FLG i)]) (flg_ini C) n s"
  "init_dtqs C n s = obj_loop (\<lambda>i. [WAITQ (DTQ i), RWAITQ (DTQ i)]) dtq_ini n s"
  "init_pdqs C n s = obj_loop (\<lambda>i. [WAITQ (PDQ i), RWAITQ (PDQ i)]) pdq_ini n s"
  "init_mbxs C n s = obj_loop (\<lambda>i. [WAITQ (MBX i)]) mbx_ini n s"
  "init_mpfs C n s = obj_loop (\<lambda>i. [WAITQ (MPF i)]) (mpf_ini C) n s"
  by (induction n; simp add: Let_def upd_sem_def sem_ini_def upd_flg_def flg_ini_def upd_dtq_def dtq_ini_def
      upd_pdq_def pdq_ini_def upd_mbx_def mbx_ini_def upd_mpf_def mpf_ini_def on_kq_def)+

definition loop_hdrs :: "(nat \<Rightarrow> qhdr list) \<Rightarrow> nat \<Rightarrow> qhdr set" where
  "loop_hdrs H n = (\<Union>i<n. set (H i))"

lemma fold_initialize_as_if:
  "set hs \<subseteq> U \<Longrightarrow> distinct hs \<Longrightarrow>
   as_if (U - set hs) (fold (\<lambda>h. on_kq (queue_initialize (Hdr h))) hs s) = as_if U s"
proof (induction hs arbitrary: U s)
  case (Cons h hs)
  have e: "U - set (h # hs) = U - {h} - set hs" by auto
  have "as_if (U - set (h # hs)) (fold (\<lambda>h. on_kq (queue_initialize (Hdr h))) (h # hs) s) =
      as_if (U - {h}) (on_kq (queue_initialize (Hdr h)) s)"
    unfolding e using Cons.IH [of "U - {h}"] Cons.prems by auto
  then show ?case using as_if_initialize [of h U] Cons.prems by simp
qed simp

lemma as_if_set_objs: "as_if U (s\<lparr>objs := x\<rparr>) = (as_if U s)\<lparr>objs := x\<rparr>"
  by (simp add: as_if_def on_kq_def)

lemma fold_initialize_objs: "objs (fold (\<lambda>h. on_kq (queue_initialize (Hdr h))) hs s) = objs s"
  by (induction hs arbitrary: s) (simp_all add: on_kq_def)

lemma obj_loop_as_if:
  assumes "loop_hdrs H n \<subseteq> U" and "\<And>i. distinct (H i)" and "\<And>i j. i \<noteq> j \<Longrightarrow> set (H i) \<inter> set (H j) = {}"
  shows "as_if (U - loop_hdrs H n) (obj_loop H F n s) = (as_if U s)\<lparr>objs := fold F [0..<n] (objs s)\<rparr>"
  using assms(1)
proof (induction n)
  case 0
  then show ?case by (simp add: loop_hdrs_def)
next
  case (Suc n)
  have IH: "as_if (U - loop_hdrs H n) (obj_loop H F n s) = (as_if U s)\<lparr>objs := fold F [0..<n] (objs s)\<rparr>"
    using Suc by (auto simp: loop_hdrs_def lessThan_Suc)
  have e: "U - loop_hdrs H (Suc n) = U - loop_hdrs H n - set (H n)" by (auto simp: loop_hdrs_def lessThan_Suc)
  have sub: "set (H n) \<subseteq> U - loop_hdrs H n"
  proof
    fix h assume h: "h \<in> set (H n)"
    then have "h \<in> U" using Suc.prems unfolding loop_hdrs_def by auto
    moreover have "h \<notin> set (H i)" if "i < n" for i using assms(3) [of n i] h that by blast
    ultimately show "h \<in> U - loop_hdrs H n" by (auto simp: loop_hdrs_def)
  qed
  have o: "objs (obj_loop H F n s) = fold F [0..<n] (objs s)" using arg_cong [OF IH, of objs] by simp
  have f: "as_if (U - loop_hdrs H (Suc n)) (fold (\<lambda>h. on_kq (queue_initialize (Hdr h))) (H n) (obj_loop H F n s)) =
      (as_if U s)\<lparr>objs := fold F [0..<n] (objs s)\<rparr>"
    using fold_initialize_as_if [OF sub assms(2)] by (simp add: e IH)
  show ?case by (simp add: Let_def as_if_set_objs f fold_initialize_objs o)
qed

text \<open>What the loops leave in the control blocks.\<close>

definition below :: "nat \<Rightarrow> (nat \<Rightarrow> 'a \<Rightarrow> 'a) \<Rightarrow> (nat \<Rightarrow> 'a) \<Rightarrow> nat \<Rightarrow> 'a" where
  "below n f g i = (if i < n then f i (g i) else g i)"

lemma below_0 [simp]: "below 0 f g = g"
  by (simp add: below_def fun_eq_iff)

lemma below_Suc: "(below n f g)(n := f n (below n f g n)) = below (Suc n) f g"
  by (auto simp: below_def fun_eq_iff)

lemma fold_ini:
  "fold (sem_ini C) [0..<n] x = x\<lparr>semcb_of := below n (\<lambda>i b. b\<lparr>semcnt := isemcnt (seminib_table C i)\<rparr>) (semcb_of x)\<rparr>"
  "fold (flg_ini C) [0..<n] x = x\<lparr>flgcb_of := below n (\<lambda>i b. b\<lparr>flgptn := iflgptn (flginib_table C i)\<rparr>) (flgcb_of x)\<rparr>"
  "fold dtq_ini [0..<n] x = x\<lparr>dtqcb_of := below n (\<lambda>i. dtq_reset) (dtqcb_of x)\<rparr>"
  "fold pdq_ini [0..<n] x = x\<lparr>pdqcb_of := below n (\<lambda>i. pdq_reset) (pdqcb_of x)\<rparr>"
  "fold mbx_ini [0..<n] x = x\<lparr>mbxcb_of := below n (\<lambda>i b. b\<lparr>pk_head := None\<rparr>) (mbxcb_of x)\<rparr>"
  "fold (mpf_ini C) [0..<n] x = x\<lparr>mpfcb_of := below n (mpf_reset C) (mpfcb_of x)\<rparr>"
proof (induction n)
  case (Suc n)
  {
    case 1
    show ?case using Suc(1) below_Suc [of n "\<lambda>i b. b\<lparr>semcnt := isemcnt (seminib_table C i)\<rparr>" "semcb_of x"]
      by (simp add: sem_ini_def)
  next
    case 2
    show ?case using Suc(2) below_Suc [of n "\<lambda>i b. b\<lparr>flgptn := iflgptn (flginib_table C i)\<rparr>" "flgcb_of x"]
      by (simp add: flg_ini_def)
  next
    case 3
    show ?case using Suc(3) below_Suc [of n "\<lambda>i. dtq_reset" "dtqcb_of x"] by (simp add: dtq_ini_def)
  next
    case 4
    show ?case using Suc(4) below_Suc [of n "\<lambda>i. pdq_reset" "pdqcb_of x"] by (simp add: pdq_ini_def)
  next
    case 5
    show ?case using Suc(5) below_Suc [of n "\<lambda>i b. b\<lparr>pk_head := None\<rparr>" "mbxcb_of x"] by (simp add: mbx_ini_def)
  next
    case 6
    show ?case using Suc(6) below_Suc [of n "mpf_reset C" "mpfcb_of x"] by (simp add: mpf_ini_def)
  }
qed simp_all

section \<open>The handlers\<close>

definition cyc_init :: "cfg \<Rightarrow> prcix \<Rightarrow> nat \<Rightarrow> kstate \<Rightarrow> kstate" where
  "cyc_init C me i s =
     (if cycatr (cycinib_table C i) AND TA_STA \<noteq> 0
      then tmevtb_enqueue_cyc i (cycphs (cycinib_table C i)) (upd_cyc i (\<lambda>b. b\<lparr>cyc_pcb := me, cycsta := True\<rparr>) s)
      else upd_cyc i (\<lambda>b. b\<lparr>cyc_pcb := me, cycsta := False\<rparr>) s)"

lemma init_cycs_step:
  "init_cycs C me (Suc i) s =
     (let s = init_cycs C me i s in if cyc_iaffinity (cycinib_table C i) = ID_PRC me then cyc_init C me i s else s)"
proof -
  have u: "upd_cyc i f (upd_cyc i g s) = upd_cyc i (\<lambda>b. f (g b)) s" for f g s
    by (simp add: upd_cyc_def)
  show ?thesis by (simp add: cyc_init_def Let_def u)
qed

lemma as_if_handlers [simp]:
  "as_if U (upd_cyc i f s) = upd_cyc i f (as_if U s)" "as_if U (upd_alm i g s) = upd_alm i g (as_if U s)"
  "as_if U (tmevtb_enqueue_evttim p b tm cb s) = tmevtb_enqueue_evttim p b tm cb (as_if U s)"
  "cyc (as_if U s) = cyc s" "alm (as_if U s) = alm s"
  by (simp_all add: as_if_def on_kq_def upd_cyc_def upd_alm_def tmevtb_enqueue_evttim_def Let_def fun_eq_iff
      cyc_def alm_def split: prod.split)

lemma as_if_init_cycs: "as_if U (init_cycs C me n s) = init_cycs C me n (as_if U s)"
proof (induction n)
  case (Suc n)
  show ?case by (simp only: init_cycs_step Let_def if_distrib [of "as_if U"])
    (simp add: Suc.IH cyc_init_def tmevtb_enqueue_cyc_def)
qed simp

lemma as_if_init_alms: "as_if U (init_alms C me n s) = init_alms C me n (as_if U s)"
  by (induction n) (simp_all add: Let_def)

lemma cold_timer:
  assumes c: "cold C D s" and f: "timer_frame s s'" "ext_ker_reqflg s' = ext_ker_reqflg s"
    and st: "\<And>i. cycsta (cyc s' i) \<Longrightarrow> cyc_iaffinity (cycinib_table C i) \<in> ID_PRC ` D" "\<And>i. \<not> almsta (alm s' i)"
    and e: "\<And>p. p \<notin> D \<Longrightarrow> last_index (tevt_of s' p) = 0"
  shows "cold C D s'"
proof -
  have "spncb_of (objs s') = spncb_of (objs s)"
    using f(1) by (auto simp: timer_frame_def dest!: arg_cong [where f = spncb_of])
  then show ?thesis using c f st e by (simp add: cold_def timer_frame_def)
qed

lemma cyc_init_kinv:
  assumes K: "kinv C {} Q s" and c: "cold C D s" and me: "me \<in> D"
    and a: "cyc_iaffinity (cycinib_table C i) = ID_PRC me" and n: "\<not> cycsta (cyc s i)"
  shows "kinv C {} Q (cyc_init C me i s)" and "cold C D (cyc_init C me i s)"
    and "j \<noteq> i \<Longrightarrow> cyc (cyc_init C me i s) j = cyc s j" and "timer_frame s (cyc_init C me i s)"
proof -
  let ?s = "cyc_init C me i s"
  show j: "cyc ?s j = cyc s j" if "j \<noteq> i" for j
    using that by (simp add: cyc_init_def tmevtb_enqueue_cyc_def) (simp add: cyc_def upd_cyc_def)
  have al: "alm ?s = alm s"
    by (auto simp: fun_eq_iff cyc_init_def tmevtb_enqueue_cyc_def) (simp_all add: alm_def upd_cyc_def)
  have x: "ext_ker_reqflg ?s = ext_ker_reqflg s"
    by (simp add: cyc_init_def tmevtb_enqueue_cyc_def upd_cyc_def tmevtb_enqueue_evttim_def Let_def split: prod.split)
  have R: "kinv C {} Q ?s \<and> timer_frame s ?s \<and> (\<forall>p. p \<notin> D \<longrightarrow> last_index (tevt_of ?s p) = 0)"
  proof (cases "cycatr (cycinib_table C i) AND TA_STA \<noteq> 0")
    case True
    let ?s1 = "cyc_restart i s"
    let ?s2 = "upd_cyc i (\<lambda>b. b\<lparr>cyc_pcb := me\<rparr>) ?s1"
    have cm: "b\<lparr>cyc_pcb := me, cycsta := True\<rparr> = b\<lparr>cycsta := True, cyc_pcb := me\<rparr>" for b :: cyccb by (cases b) simp
    have e: "?s = tmevtb_enqueue_cyc i (cycphs (cycinib_table C i)) ?s2"
      using True n by (simp add: cyc_init_def cyc_restart_def) (simp add: upd_cyc_def cm)
    have H: "handler_step C {} Q (TM_CYC i) (Some (me, cycphs (cycinib_table C i))) s ?s"
      unfolding e using cyc_start_on [OF K refl, of ?s2 i me] by simp
    have "last_index (tevt_of ?s p) = 0" if p: "p \<notin> D" for p
    proof -
      have "evset (tevt_of s p) = {}" using coldD(4) [OF c p] by (simp add: evset_def)
      then have "evset (tevt_of ?s p) = {}" using H p me by (auto simp: handler_step_def rescheduled_def)
      then show ?thesis using evset_nonempty [of "tevt_of ?s p"] by simp
    qed
    then show ?thesis using H by (simp add: handler_step_def)
  next
    case False
    then have e: "?s = upd_cyc i (\<lambda>b. b\<lparr>cyc_pcb := me, cycsta := False\<rparr>) s" by (simp add: cyc_init_def)
    have "tinv {} ?s"
      unfolding e by (rule cych.off [OF cych.stopped_idle [OF kinvD(2) [OF K] n]]) (simp_all add: upd_handler_frame)
    then have "kinv C {} Q ?s" by (rule timer_kinv [OF K]) (simp add: e upd_handler_frame)
    then show ?thesis using coldD(4) [OF c] by (simp add: e upd_handler_frame)
  qed
  from R show "kinv C {} Q ?s" and t: "timer_frame s ?s" by simp_all
  have l: "last_index (tevt_of ?s p) = 0" if "p \<notin> D" for p using R that by simp
  show "cold C D ?s"
  proof (rule cold_timer [OF c t x])
    fix k assume "cycsta (cyc ?s k)"
    then show "cyc_iaffinity (cycinib_table C k) \<in> ID_PRC ` D"
      using j [of k] coldD(2) [OF c, of k] a me by (cases "k = i") auto
  qed (use al coldD(3) [OF c] l in auto)
qed

lemma init_cycs_kinv:
  assumes K: "kinv C {} Q s" and c: "cold C D s" and me: "me \<in> D"
    and n: "\<And>i. cyc_iaffinity (cycinib_table C i) = ID_PRC me \<Longrightarrow> \<not> cycsta (cyc s i)"
  shows "kinv C {} Q (init_cycs C me m s) \<and> cold C D (init_cycs C me m s) \<and> timer_frame s (init_cycs C me m s) \<and>
    (\<forall>i \<ge> m. cyc_iaffinity (cycinib_table C i) = ID_PRC me \<longrightarrow> \<not> cycsta (cyc (init_cycs C me m s) i))"
proof (induction m)
  case 0
  then show ?case using K c n by simp
next
  case (Suc m)
  let ?s = "init_cycs C me m s"
  have I: "kinv C {} Q ?s" "cold C D ?s" "timer_frame s ?s" using Suc by simp_all
  show ?case
  proof (cases "cyc_iaffinity (cycinib_table C m) = ID_PRC me")
    case True
    then have nm: "\<not> cycsta (cyc ?s m)" using Suc by simp
    note S = cyc_init_kinv [OF I(1,2) me True nm]
    have e: "init_cycs C me (Suc m) s = cyc_init C me m ?s" unfolding init_cycs_step Let_def using True by simp
    show ?thesis unfolding e using S(1,2) timer_frame_trans [OF I(3) S(4)] S(3) Suc by auto
  next
    case False
    then have e: "init_cycs C me (Suc m) s = ?s" unfolding init_cycs_step Let_def by simp
    show ?thesis unfolding e using Suc by simp
  qed
qed

lemma init_alms_kinv:
  assumes K: "kinv C {} Q s" and c: "cold C D s"
  shows "kinv C {} Q (init_alms C me m s) \<and> cold C D (init_alms C me m s) \<and> timer_frame s (init_alms C me m s)"
proof (induction m)
  case 0
  then show ?case using K c by simp
next
  case (Suc m)
  let ?s = "init_alms C me m s"
  let ?u = "upd_alm m (\<lambda>b. b\<lparr>almsta := False, alm_pcb := me\<rparr>) ?s"
  have I: "kinv C {} Q ?s" "cold C D ?s" "timer_frame s ?s" using Suc by simp_all
  have "tinv {} ?u"
    by (rule almh.off [OF almh.stopped_idle [OF kinvD(2) [OF I(1)], of m]])
       (simp_all add: coldD(3) [OF I(2)] upd_handler_frame)
  then have "kinv C {} Q ?u" by (rule timer_kinv [OF I(1)]) (simp add: upd_handler_frame)
  moreover have "cold C D ?u"
    by (rule cold_timer [OF I(2) upd_handler_frame(3)])
       (use coldD [OF I(2)] in \<open>auto simp: upd_alm_def cyc_def alm_def\<close>)
  moreover have "timer_frame s ?u" by (rule timer_frame_trans [OF I(3) upd_handler_frame(3)])
  ultimately show ?case using I by (simp add: Let_def)
qed

section \<open>All of a processor's initialization\<close>

text \<open>\<open>unset C D m\<close>: the headers still to be initialized when the processors in \<open>D\<close> are done, among
  them the master if \<open>m\<close>.\<close>

definition unset :: "cfg \<Rightarrow> prcix set \<Rightarrow> bool \<Rightarrow> qhdr set" where
  "unset C D m = {h. hdr_exists C h \<and> (case h of RDY p i \<Rightarrow> p \<notin> D | _ \<Rightarrow> \<not> m)}"

definition obj_hdrs :: "cfg \<Rightarrow> qhdr set" where
  "obj_hdrs C = {h. hdr_exists C h \<and> (\<forall>p i. h \<noteq> RDY p i)}"

definition objs_at :: "cfg \<Rightarrow> kobjs \<Rightarrow> bool" where
  "objs_at C x \<longleftrightarrow>
     (\<forall>i < tnum_sem C. semcnt (semcb_of x i) = isemcnt (seminib_table C i)) \<and>
     (\<forall>i < tnum_flg C. flgptn (flgcb_of x i) = iflgptn (flginib_table C i)) \<and>
     (\<forall>i < tnum_dtq C. dtqcb_of x i = dtq_reset (dtqcb_of x i)) \<and>
     (\<forall>i < tnum_pdq C. pdqcb_of x i = pdq_reset (pdqcb_of x i)) \<and>
     (\<forall>i < tnum_mpf C. mpfcb_of x i = mpf_reset C i (mpfcb_of x i))"

text \<open>Control blocks beyond the tables, which the code does not have, stay as they were at boot.\<close>

definition objs_cold :: "cfg \<Rightarrow> kobjs \<Rightarrow> bool" where
  "objs_cold C x \<longleftrightarrow> (\<forall>i. (semcnt (semcb_of x i) = 0 \<or> semcnt (semcb_of x i) = isemcnt (seminib_table C i)) \<and>
     dtqcb_of x i = dtq_reset (dtqcb_of x i) \<and> pdqcb_of x i = pdq_reset (pdqcb_of x i) \<and>
     pk_head (mbxcb_of x i) = None)"

definition master_init :: "cfg \<Rightarrow> kstate \<Rightarrow> kstate" where
  "master_init C s =
     init_mpfs C (tnum_mpf C) (init_mbxs C (tnum_mbx C) (init_pdqs C (tnum_pdq C)
       (init_dtqs C (tnum_dtq C) (init_flgs C (tnum_flg C) (init_sems C (tnum_sem C) s)))))"

lemma initialize_object_eq:
  "initialize_object C x me s =
     initialize_spin_lock C x me (initialize_alarm C me (initialize_cyclic C me
       (if x then master_init C (initialize_task C me s) else initialize_task C me s)))"
  by (simp add: initialize_object_def master_init_def Let_def initialize_semaphore_def initialize_eventflag_def
      initialize_dataqueue_def initialize_pridataq_def initialize_mailbox_def initialize_mempfix_def)

abbreviation hdrs1 :: "(nat \<Rightarrow> wobj) \<Rightarrow> nat \<Rightarrow> qhdr list" where
  "hdrs1 w i \<equiv> [WAITQ (w i)]"
abbreviation hdrs2 :: "(nat \<Rightarrow> wobj) \<Rightarrow> nat \<Rightarrow> qhdr list" where
  "hdrs2 w i \<equiv> [WAITQ (w i), RWAITQ (w i)]"

lemma obj_hdrs_loops:
  "obj_hdrs C = loop_hdrs (hdrs1 SEM) (tnum_sem C) \<union> loop_hdrs (hdrs1 FLG) (tnum_flg C) \<union>
     loop_hdrs (hdrs2 DTQ) (tnum_dtq C) \<union> loop_hdrs (hdrs2 PDQ) (tnum_pdq C) \<union>
     loop_hdrs (hdrs1 MBX) (tnum_mbx C) \<union> loop_hdrs (hdrs1 MPF) (tnum_mpf C)" (is "_ = ?R")
proof (rule set_eqI)
  fix h
  show "h \<in> obj_hdrs C \<longleftrightarrow> h \<in> ?R"
  proof (cases h)
    case (WAITQ w) then show ?thesis by (cases w) (auto simp: obj_hdrs_def loop_hdrs_def)
  next
    case (RWAITQ w) then show ?thesis by (cases w) (auto simp: obj_hdrs_def loop_hdrs_def)
  qed (auto simp: obj_hdrs_def loop_hdrs_def)
qed

lemma loop_as_if:
  assumes "as_if U s = (as_if V r)\<lparr>objs := x\<rparr>" and "loop_hdrs H n \<subseteq> U" and "\<And>i. distinct (H i)"
    and "\<And>i j. i \<noteq> j \<Longrightarrow> set (H i) \<inter> set (H j) = {}"
  shows "as_if (U - loop_hdrs H n) (obj_loop H F n s) = (as_if V r)\<lparr>objs := fold F [0..<n] x\<rparr>"
proof -
  have "objs s = x" using arg_cong [OF assms(1), of objs] by simp
  then show ?thesis using obj_loop_as_if [OF assms(2-4), where F = F and s = s] assms(1) by simp
qed

lemma master_init_as_if:
  assumes "obj_hdrs C \<subseteq> U"
  shows "\<exists>x. as_if (U - obj_hdrs C) (master_init C s) = (as_if U s)\<lparr>objs := x\<rparr> \<and> objs_at C x \<and>
    cyccb_of x = cyccb_of (objs s) \<and> almcb_of x = almcb_of (objs s) \<and> spncb_of x = spncb_of (objs s) \<and>
    (objs_cold C (objs s) \<longrightarrow> objs_cold C x)"
proof -
  note H = assms [unfolded obj_hdrs_loops]
  have 0: "as_if U s = (as_if U s)\<lparr>objs := objs s\<rparr>" by (simp add: as_if_set_objs [symmetric])
  have 1: "loop_hdrs (hdrs1 SEM) (tnum_sem C) \<subseteq> U"
    "loop_hdrs (hdrs1 FLG) (tnum_flg C) \<subseteq> U - loop_hdrs (hdrs1 SEM) (tnum_sem C)"
    "loop_hdrs (hdrs2 DTQ) (tnum_dtq C) \<subseteq> U - loop_hdrs (hdrs1 SEM) (tnum_sem C) - loop_hdrs (hdrs1 FLG) (tnum_flg C)"
    "loop_hdrs (hdrs2 PDQ) (tnum_pdq C) \<subseteq> U - loop_hdrs (hdrs1 SEM) (tnum_sem C) - loop_hdrs (hdrs1 FLG) (tnum_flg C)
      - loop_hdrs (hdrs2 DTQ) (tnum_dtq C)"
    "loop_hdrs (hdrs1 MBX) (tnum_mbx C) \<subseteq> U - loop_hdrs (hdrs1 SEM) (tnum_sem C) - loop_hdrs (hdrs1 FLG) (tnum_flg C)
      - loop_hdrs (hdrs2 DTQ) (tnum_dtq C) - loop_hdrs (hdrs2 PDQ) (tnum_pdq C)"
    "loop_hdrs (hdrs1 MPF) (tnum_mpf C) \<subseteq> U - loop_hdrs (hdrs1 SEM) (tnum_sem C) - loop_hdrs (hdrs1 FLG) (tnum_flg C)
      - loop_hdrs (hdrs2 DTQ) (tnum_dtq C) - loop_hdrs (hdrs2 PDQ) (tnum_pdq C) - loop_hdrs (hdrs1 MBX) (tnum_mbx C)"
    using H by (auto simp: loop_hdrs_def)
  note L1 = loop_as_if [where F = "sem_ini C", OF 0 1(1)]
  note L2 = loop_as_if [where F = "flg_ini C", OF L1 1(2)]
  note L3 = loop_as_if [where F = dtq_ini, OF L2 1(3)]
  note L4 = loop_as_if [where F = pdq_ini, OF L3 1(4)]
  note L5 = loop_as_if [where F = mbx_ini, OF L4 1(5)]
  note L6 = loop_as_if [where F = "mpf_ini C", OF L5 1(6)]
  let ?x = "fold (mpf_ini C) [0..<tnum_mpf C] (fold mbx_ini [0..<tnum_mbx C] (fold pdq_ini [0..<tnum_pdq C]
    (fold dtq_ini [0..<tnum_dtq C] (fold (flg_ini C) [0..<tnum_flg C] (fold (sem_ini C) [0..<tnum_sem C] (objs s))))))"
  have U: "U - obj_hdrs C = U - loop_hdrs (hdrs1 SEM) (tnum_sem C) - loop_hdrs (hdrs1 FLG) (tnum_flg C)
      - loop_hdrs (hdrs2 DTQ) (tnum_dtq C) - loop_hdrs (hdrs2 PDQ) (tnum_pdq C) - loop_hdrs (hdrs1 MBX) (tnum_mbx C)
      - loop_hdrs (hdrs1 MPF) (tnum_mpf C)"
    unfolding obj_hdrs_loops by blast
  have "as_if (U - obj_hdrs C) (master_init C s) = (as_if U s)\<lparr>objs := ?x\<rparr>"
    unfolding master_init_def init_loops U by (rule L6) auto
  moreover have "objs_at C ?x"
    by (simp add: objs_at_def fold_ini below_def dtq_reset_def pdq_reset_def mpf_reset_def)
  moreover have "cyccb_of ?x = cyccb_of (objs s)" "almcb_of ?x = almcb_of (objs s)" "spncb_of ?x = spncb_of (objs s)"
    by (simp_all add: fold_ini)
  moreover have "objs_cold C (objs s) \<longrightarrow> objs_cold C ?x"
    by (auto simp: objs_cold_def fold_ini below_def)
  ultimately show ?thesis by (intro exI [of _ ?x]) simp
qed

lemma cold_mono: "cold C D s \<Longrightarrow> D \<subseteq> D' \<Longrightarrow> cold C D' s"
  unfolding cold_def by blast

lemma cold_set_objs:
  assumes "cold C D s" and "cyccb_of x = cyccb_of (objs s)" "almcb_of x = almcb_of (objs s)"
    "spncb_of x = spncb_of (objs s)"
  shows "cold C D (s\<lparr>objs := x\<rparr>)"
  using assms by (simp add: cold_def cyc_def alm_def)

lemma init_spns_sel [simp]:
  "tcb_of (init_spns n s) = tcb_of s" "pcb_of (init_spns n s) = pcb_of s" "ipi (init_spns n s) = ipi s"
  "tevt_of (init_spns n s) = tevt_of s" "ext_ker_reqflg (init_spns n s) = ext_ker_reqflg s"
  "cyc (init_spns n s) = cyc s" "alm (init_spns n s) = alm s"
  "spncb_of (objs s) = (\<lambda>_. \<lparr>spn_lock = False, lock_flg = False\<rparr>) \<Longrightarrow>
   spncb_of (objs (init_spns n s)) = (\<lambda>_. \<lparr>spn_lock = False, lock_flg = False\<rparr>)"
  "(objs (init_spns n s))\<lparr>spncb_of := g\<rparr> = (objs s)\<lparr>spncb_of := g\<rparr>"
  by (induction n) (auto simp: upd_spn_def fun_eq_iff cyc_def alm_def)

lemma initialize_spin_lock_kinv:
  assumes K: "kinv C {} Q (as_if U s)" and c: "cold C D s"
  shows "kinv C {} Q (as_if U (initialize_spin_lock C x me s))" and "cold C D (initialize_spin_lock C x me s)"
    and "(objs (initialize_spin_lock C x me s))\<lparr>spncb_of := g\<rparr> = (objs s)\<lparr>spncb_of := g\<rparr>"
proof -
  have "as_if U (upd_spn i f r) = upd_spn i f (as_if U r)" for i f r
    by (simp add: upd_spn_def as_if_set_objs)
  then have a: "as_if U (init_spns n r) = init_spns n (as_if U r)" for n r by (induction n) simp_all
  have k: "kinv C {} Q (init_spns n r) = kinv C {} Q r" for n r by (induction n) simp_all
  have l: "as_if U (set_locspnid me i r) = set_locspnid me i (as_if U r)" for i r
    by (simp add: set_locspnid_def)
  show "kinv C {} Q (as_if U (initialize_spin_lock C x me s))"
    using K by (simp add: initialize_spin_lock_def Let_def a k l)
  have sp: "spncb_of (objs s) = (\<lambda>_. \<lparr>spn_lock = False, lock_flg = False\<rparr>)"
    using coldD(12) [OF c] by (simp add: fun_eq_iff)
  have "cold C D (set_locspnid me 0 s)" using c by (auto simp: cold_def set_locspnid_def cyc_def alm_def)
  moreover have "cold C D (init_spns n r)" if "cold C D r" "spncb_of (objs r) = (\<lambda>_. \<lparr>spn_lock = False, lock_flg = False\<rparr>)" for n r
    using that by (simp add: cold_def)
  ultimately show "cold C D (initialize_spin_lock C x me s)"
    using sp by (simp add: initialize_spin_lock_def Let_def set_locspnid_def)
  show "(objs (initialize_spin_lock C x me s))\<lparr>spncb_of := g\<rparr> = (objs s)\<lparr>spncb_of := g\<rparr>"
    by (simp add: initialize_spin_lock_def Let_def set_locspnid_def)
qed

text \<open>The control blocks of the objects that have wait queues.\<close>

definition wobjs :: "kobjs \<Rightarrow> kobjs" where
  "wobjs x = x\<lparr>cyccb_of := (\<lambda>_. undefined), almcb_of := (\<lambda>_. undefined), spncb_of := (\<lambda>_. undefined)\<rparr>"

lemma wobjs_sel:
  assumes "wobjs x = wobjs y"
  shows "objs_at C x = objs_at C y" and "objs_cold C x = objs_cold C y"
proof -
  have "semcb_of x = semcb_of y" "flgcb_of x = flgcb_of y" "dtqcb_of x = dtqcb_of y" "pdqcb_of x = pdqcb_of y"
    "mpfcb_of x = mpfcb_of y" and m: "mbxcb_of x = mbxcb_of y"
    using assms by (auto simp: wobjs_def dest: arg_cong [where f = semcb_of] arg_cong [where f = flgcb_of]
      arg_cong [where f = dtqcb_of] arg_cong [where f = pdqcb_of] arg_cong [where f = mpfcb_of] arg_cong [where f = mbxcb_of])
  then show "objs_at C x = objs_at C y" "objs_cold C x = objs_cold C y" by (simp_all add: objs_at_def objs_cold_def)
qed

lemma timer_frame_wobjs:
  assumes "timer_frame s s'"
  shows "wobjs (objs s') = wobjs (objs s)"
proof -
  have e: "(objs s')\<lparr>cyccb_of := cyccb_of (objs s), almcb_of := almcb_of (objs s)\<rparr> = objs s"
    using assms by (simp add: timer_frame_def)
  have "wobjs (objs s') = wobjs ((objs s')\<lparr>cyccb_of := cyccb_of (objs s), almcb_of := almcb_of (objs s)\<rparr>)"
    by (simp add: wobjs_def)
  then show ?thesis by (simp only: e)
qed

definition started :: "cfg \<Rightarrow> prcix set \<Rightarrow> bool \<Rightarrow> kstate \<Rightarrow> bool" where
  "started C D m s \<longleftrightarrow> (\<exists>Q. kinv C {} Q (as_if (unset C D m) s)) \<and> cold C D s \<and>
     (m \<longrightarrow> objs_at C (objs s)) \<and> objs_cold C (objs s)"

lemma unset_steps:
  assumes "me \<notin> D" and "me < tnum_prcid C"
  shows "rdy_hdrs me 16 \<subseteq> unset C D m" and "unset C D m - rdy_hdrs me 16 = unset C (insert me D) m"
    and "RDY p i \<notin> unset C (insert p D) m"
proof -
  show "rdy_hdrs me 16 \<subseteq> unset C D m" "RDY p i \<notin> unset C (insert p D) m"
    using assms by (auto simp: unset_def rdy_hdrs_def)
  have "h \<in> unset C D m - rdy_hdrs me 16 \<longleftrightarrow> h \<in> unset C (insert me D) m" for h
    using assms by (cases h) (auto simp: unset_def rdy_hdrs_def)
  then show "unset C D m - rdy_hdrs me 16 = unset C (insert me D) m" by blast
qed

lemma unset_objects:
  shows "obj_hdrs C \<subseteq> unset C D False" and "unset C D False - obj_hdrs C = unset C D True"
proof -
  have o: "h \<in> obj_hdrs C \<longleftrightarrow> h \<in> unset C D False \<and> h \<notin> unset C D True" for h
    by (cases h) (auto simp: unset_def obj_hdrs_def)
  have "h \<in> unset C D True \<Longrightarrow> h \<in> unset C D False" for h by (cases h) (auto simp: unset_def)
  with o show "obj_hdrs C \<subseteq> unset C D False" "unset C D False - obj_hdrs C = unset C D True" by blast+
qed

lemma sta_ker_1_started:
  assumes S: "started C D m s" and me: "me \<notin> D" "me < tnum_prcid C" and cfg: "task_cfg_ok C" and x: "\<not> (x \<and> m)"
  shows "started C (insert me D) (m \<or> x) (sta_ker_1 C x me s)"
proof -
  obtain Q where K: "kinv C {} Q (as_if (unset C D m) s)" and c: "cold C D s"
    and o: "m \<longrightarrow> objs_at C (objs s)" "objs_cold C (objs s)"
    using S by (auto simp: started_def)
  note U = unset_steps [OF me]
  let ?U = "unset C (insert me D) m" and ?D = "insert me D"
  define s2 where "s2 = initialize_tmevt me (initialize_pcb x me s)"
  have p: "as_if ?U (initialize_pcb x me s) = upd_pcb me pcb_reset (as_if (unset C D m) s)"
    using initialize_pcb_as_if [where U = "unset C D m" and s = s and m = x and me = me, OF U(1)] coldD(10) [OF c] by (simp add: U(2))
  have a2: "as_if ?U s2 = initialize_tmevt me (upd_pcb me pcb_reset (as_if (unset C D m) s))"
    by (simp add: s2_def p [symmetric]) (simp add: as_if_def on_kq_def initialize_tmevt_def)
  have c0: "cold C D (as_if (unset C D m) s)" using c by simp
  note R = pcb_reset_kinv [OF K c0 me(1)]
  note T = initialize_tmevt_kinv [OF R me(1)]
  have K2: "kinv C {} Q (as_if ?U s2)" using T(1) by (simp add: a2)
  have "cold C D (as_if ?U s2)" using T(2) by (simp add: a2)
  then have c2: "cold C D s2" by simp
  have o2: "objs s2 = objs s" using arg_cong [OF a2, of objs] by (simp add: initialize_tmevt_def)
  have dt: "tstat (tcb_of s2 t) = TS_DORMANT" if "iaffinity (tinib_table C t) = ID_PRC me" for t
    using coldD(1) [OF c2, of t] me(1) that by (auto simp: ID_PRC_def)
  have n: "tnum_tsk C \<le> length (torder_table C)" using cfg by (simp add: task_cfg_ok_def)
  have cD: "cold C ?D s2" by (rule cold_mono [OF c2]) auto
  define s3 where "s3 = initialize_task C me s2"
  obtain Q3 where K3: "kinv C {} Q3 (as_if ?U s3)" and c3: "cold C ?D s3" and o3: "objs s3 = objs s"
    using init_tsks_kinv [OF K2 cD _ U(3) cfg n dt] o2 by (auto simp: s3_def initialize_task_def)
  define s4 where "s4 = (if x then master_init C s3 else s3)"
  let ?V = "unset C ?D (m \<or> x)"
  have K4: "kinv C {} Q3 (as_if ?V s4)" and c4: "cold C ?D s4" and o4: "m \<or> x \<longrightarrow> objs_at C (objs s4)"
    "objs_cold C (objs s4)" and cy4: "cyc s4 = cyc s3"
  proof -
    have "kinv C {} Q3 (as_if ?V s4) \<and> cold C ?D s4 \<and> (m \<or> x \<longrightarrow> objs_at C (objs s4)) \<and>
      objs_cold C (objs s4) \<and> cyc s4 = cyc s3"
    proof (cases x)
      case True
      then have m: "\<not> m" using assms(5) by simp
      have sub: "obj_hdrs C \<subseteq> ?U" and V: "?U - obj_hdrs C = ?V" using unset_objects m True by simp_all
      obtain y where y: "as_if ?V s4 = (as_if ?U s3)\<lparr>objs := y\<rparr>" "objs_at C y" "cyccb_of y = cyccb_of (objs s3)"
        "almcb_of y = almcb_of (objs s3)" "spncb_of y = spncb_of (objs s3)"
        "objs_cold C (objs s3) \<longrightarrow> objs_cold C y"
        using master_init_as_if [OF sub, of s3] True unfolding V s4_def by auto
      have oy: "objs s4 = y" using arg_cong [OF y(1), of objs] by simp
      have "cold C ?D (as_if ?V s4)" unfolding y(1) by (rule cold_set_objs) (use c3 y in simp_all)
      moreover have "kinv C {} Q3 (as_if ?V s4)" unfolding y(1) using K3 y by simp
      moreover have "objs_cold C y" using y(6) o(2) o3 by simp
      ultimately show ?thesis using y(2,3) oy by (simp add: cyc_def fun_eq_iff)
    qed (use K3 c3 o o3 in \<open>simp add: s4_def\<close>)
    then show "kinv C {} Q3 (as_if ?V s4)" "cold C ?D s4" "m \<or> x \<longrightarrow> objs_at C (objs s4)"
      "objs_cold C (objs s4)" "cyc s4 = cyc s3" by blast+
  qed
  have nc: "\<not> cycsta (cyc (as_if ?V s4) i)" if "cyc_iaffinity (cycinib_table C i) = ID_PRC me" for i
  proof -
    have "cyc s4 = cyc s2" using cy4 o3 o2 by (simp add: cyc_def fun_eq_iff)
    then show ?thesis using coldD(2) [OF c2, of i] that me(1) by (auto simp: ID_PRC_def)
  qed
  have c4': "cold C ?D (as_if ?V s4)" using c4 by simp
  note C = init_cycs_kinv [where me = me and m = "tnum_cyc C", OF K4 c4' insertI1 nc]
  define s5 where "s5 = initialize_cyclic C me s4"
  have K5: "kinv C {} Q3 (as_if ?V s5)" and "cold C ?D (as_if ?V s5)" and f5: "timer_frame (as_if ?V s4) (as_if ?V s5)"
    using C by (simp_all add: s5_def initialize_cyclic_def as_if_init_cycs)
  then have c5: "cold C ?D (as_if ?V s5)" by simp
  note A = init_alms_kinv [OF K5 c5, of me "tnum_alm C"]
  define s6 where "s6 = initialize_alarm C me s5"
  have K6: "kinv C {} Q3 (as_if ?V s6)" and "cold C ?D (as_if ?V s6)" and f6: "timer_frame (as_if ?V s5) (as_if ?V s6)"
    using A by (simp_all add: s6_def initialize_alarm_def as_if_init_alms)
  then have c6: "cold C ?D s6" by simp
  note L = initialize_spin_lock_kinv [where x = x and me = me, OF K6 c6]
  have e: "sta_ker_1 C x me s = initialize_spin_lock C x me s6"
    by (simp add: sta_ker_1_def initialize_object_eq Let_def s2_def s3_def s4_def s5_def s6_def)
  have "wobjs (objs (sta_ker_1 C x me s)) = wobjs (objs s6)"
  proof -
    have u: "wobjs y = wobjs (y\<lparr>spncb_of := undefined\<rparr>)" for y by (simp add: wobjs_def)
    show ?thesis unfolding e u [of "objs s6"] L(3) [of undefined, symmetric] by (rule u)
  qed
  also have "\<dots> = wobjs (objs s4)" using timer_frame_wobjs [OF f6] timer_frame_wobjs [OF f5] by simp
  finally have w: "wobjs (objs (sta_ker_1 C x me s)) = wobjs (objs s4)" .
  show ?thesis using L(1,2) o4 wobjs_sel [OF w] by (auto simp: started_def e)
qed


section \<open>The start of the system\<close>

lemma startup_started:
  assumes "started C D m s" and "distinct order" and "set order \<inter> D = {}" and "set order \<subseteq> {..<tnum_prcid C}"
    and cfg: "task_cfg_ok C" and "mprc \<in> set order \<Longrightarrow> \<not> m"
  shows "started C (set order \<union> D) (m \<or> mprc \<in> set order) (startup C mprc order s)"
  using assms(1-4,6)
proof (induction order arbitrary: D m s)
  case Nil
  then show ?case by (simp add: startup_def)
next
  case (Cons p ps)
  have "started C (insert p D) (m \<or> p = mprc) (sta_ker_1 C (p = mprc) p s)"
    by (rule sta_ker_1_started [OF Cons.prems(1) _ _ cfg]) (use Cons.prems in auto)
  from Cons.IH [OF this] have "started C (set ps \<union> insert p D) ((m \<or> p = mprc) \<or> mprc \<in> set ps)
      (startup C mprc ps (sta_ker_1 C (p = mprc) p s))"
    using Cons.prems by auto
  moreover have "set ps \<union> insert p D = set (p # ps) \<union> D" "(m \<or> p = mprc) \<or> mprc \<in> set ps \<longleftrightarrow> m \<or> mprc \<in> set (p # ps)"
    by auto
  ultimately show ?case by (simp add: startup_def)
qed

definition inited :: "cfg \<Rightarrow> kstate \<Rightarrow> bool" where
  "inited C s \<longleftrightarrow> (\<exists>Q. kinv C {} Q s) \<and> cold C {..<tnum_prcid C} s \<and> objs_at C (objs s) \<and>
     objs_cold C (objs s)"

lemma startup_inited:
  assumes q: "boot_queues C q" and cfg: "task_cfg_ok C"
    and o: "distinct order" "set order = {..<tnum_prcid C}" "mprc < tnum_prcid C"
  shows "inited C (startup C mprc order (boot_state q))"
proof -
  have "h \<in> unset C {} False \<longleftrightarrow> hdr_exists C h" for h by (cases h) (auto simp: unset_def)
  then have u: "unset C {} False = {h. hdr_exists C h}" by blast
  have "started C {} False (boot_state q)"
    using boot_kinv [OF q] unfolding started_def u by (auto simp: boot_state_def boot_objs_def objs_cold_def dtq_reset_def pdq_reset_def)
  from startup_started [OF this o(1) _ _ cfg, of mprc]
  have s: "started C {..<tnum_prcid C} True (startup C mprc order (boot_state q))" using o by auto
  have "h \<notin> unset C {..<tnum_prcid C} True" for h by (cases h) (auto simp: unset_def)
  then have "unset C {..<tnum_prcid C} True = {}" by blast
  then show ?thesis using s by (simp add: started_def inited_def)
qed

text \<open>The last step: the kernel runs on the processor, and with it the first task of its ready queues.\<close>

lemma sta_ker_2_kinv:
  assumes K: "kinv C {} Q s"
  shows "kinv C {} Q (sta_ker_2 me s)" and "p_runtsk (pcb_of (sta_ker_2 me s) me) = top_task Q me"
    and "kerflg (pcb_of (sta_ker_2 me s) me)" and "tcb_of (sta_ker_2 me s) = tcb_of s"
    and "objs (sta_ker_2 me s) = objs s"
proof -
  let ?u = "upd_pcb me (\<lambda>b. b\<lparr>kerflg := True, lock_flag := False\<rparr>) s"
  have e: "sta_ker_2 me s = dispatch me ?u"
    by (simp add: sta_ker_2_def start_dispatch_def dispatch_def upd_pcb_def)
  have "kinv C (insert me {}) Q ?u" by (rule kinv_set_pcb(1) [OF K]) simp_all
  from dispatch_kinv [OF this] show "kinv C {} Q (sta_ker_2 me s)" by (simp add: e)
  show "p_runtsk (pcb_of (sta_ker_2 me s) me) = top_task Q me" "kerflg (pcb_of (sta_ker_2 me s) me)"
    "tcb_of (sta_ker_2 me s) = tcb_of s" "objs (sta_ker_2 me s) = objs s"
    using kinvD(7) [OF K] by (simp_all add: e dispatch_def)
qed

section \<open>What the start leaves in the control blocks of tasks and processors\<close>

lemma make_runnable_dspflg: "dspflg (pcb_of (snd (make_runnable t s)) p) = dspflg (pcb_of s p)"
proof -
  obtain b s' where m: "make_runnable t s = (b, s')" by fastforce
  have "(pcb_of s' p)\<lparr>ready_primap := 0, p_schedtsk := None\<rparr> = (pcb_of s p)\<lparr>ready_primap := 0, p_schedtsk := None\<rparr>"
    using make_runnable_frame [OF m] by (simp add: sched_frame_def)
  from arg_cong [OF this, of dspflg] show ?thesis using m by simp
qed

text \<open>The control block of a task after \<open>initialize_task\<close> on its processor \<open>p\<close>.\<close>

definition started_tcb :: "cfg \<Rightarrow> tskix \<Rightarrow> prcix \<Rightarrow> tcb \<Rightarrow> tcb" where
  "started_tcb C t p b =
     (if tskatr (tinib_table C t) AND TA_ACT \<noteq> 0 then (tcb_reset C t p b)\<lparr>tstat := TS_RUNNABLE\<rparr>
      else tcb_reset C t p b)"

lemma init_tsks_tcb:
  assumes "distinct (map INDEX_TSK (torder_table C))" and "n \<le> length (torder_table C)"
  shows "tcb_of (init_tsks C me n s) t =
    (if t \<in> set (map INDEX_TSK (take n (torder_table C))) \<and> iaffinity (tinib_table C t) = ID_PRC me
     then started_tcb C t me (tcb_of s t) else tcb_of s t)"
  using assms(2)
proof (induction n)
  case (Suc n)
  let ?j = "INDEX_TSK (torder_table C ! n)" and ?s = "init_tsks C me n s"
  have tk: "take (Suc n) (torder_table C) = take n (torder_table C) @ [torder_table C ! n]"
    using Suc.prems by (simp add: take_Suc_conv_app_nth)
  have "distinct (map INDEX_TSK (take (Suc n) (torder_table C)))"
    using assms(1) distinct_take [of "map INDEX_TSK (torder_table C)" "Suc n"] by (simp add: take_map)
  then have nj: "?j \<notin> set (map INDEX_TSK (take n (torder_table C)))" by (simp add: tk)
  have e: "tcb_of (init_tsks C me (Suc n) s) =
    (if iaffinity (tinib_table C ?j) = ID_PRC me then (tcb_of ?s)(?j := started_tcb C ?j me (tcb_of ?s ?j))
     else tcb_of ?s)"
    by (simp add: Let_def make_active_def make_runnable_tcb make_dormant_def started_tcb_def tcb_reset_def
        TS_DORMANT_def)
  show ?case unfolding e using Suc nj by (auto simp: tk)
qed simp

lemma init_tsks_dspflg: "dspflg (pcb_of (init_tsks C me n s) p) = dspflg (pcb_of s p)"
  by (induction n) (simp_all add: Let_def make_active_def make_runnable_dspflg make_dormant_def)

lemma init_ready_queues_sel:
  "tcb_of (init_ready_queues me n s) = tcb_of s" "pcb_of (init_ready_queues me n s) = pcb_of s"
  by (induction n) (simp_all add: on_kq_def)

lemma initialize_pcb_sel:
  "tcb_of (initialize_pcb x me s) = tcb_of s"
  "dspflg (pcb_of (initialize_pcb x me s) p) = (p = me \<or> dspflg (pcb_of s p))"
  by (simp_all add: initialize_pcb_def Let_def init_ready_queues_sel)

lemma fold_initialize_sel:
  "tcb_of (fold (\<lambda>h. on_kq (queue_initialize (Hdr h))) hs s) = tcb_of s"
  "pcb_of (fold (\<lambda>h. on_kq (queue_initialize (Hdr h))) hs s) = pcb_of s"
  by (induction hs arbitrary: s) (simp_all add: on_kq_def)

lemma obj_loop_sel:
  "tcb_of (obj_loop H F n s) = tcb_of s" "pcb_of (obj_loop H F n s) = pcb_of s"
  by (induction n) (simp_all add: Let_def fold_initialize_sel)

lemma init_handlers_sel:
  "tcb_of (init_cycs C me n s) = tcb_of s" "pcb_of (init_cycs C me n s) = pcb_of s"
  "tcb_of (init_alms C me m s) = tcb_of s" "pcb_of (init_alms C me m s) = pcb_of s"
proof -
  have "tcb_of (init_cycs C me n s) = tcb_of s \<and> pcb_of (init_cycs C me n s) = pcb_of s"
    by (induction n) (simp_all only: init_cycs_step, simp_all add: Let_def cyc_init_def tmevtb_enqueue_cyc_def
        tmevtb_enqueue_evttim_def upd_cyc_def split: prod.split)
  then show "tcb_of (init_cycs C me n s) = tcb_of s" "pcb_of (init_cycs C me n s) = pcb_of s" by blast+
  show "tcb_of (init_alms C me m s) = tcb_of s" "pcb_of (init_alms C me m s) = pcb_of s"
    by (induction m) (simp_all add: Let_def upd_alm_def)
qed

lemma sta_ker_1_tcb:
  assumes "task_cfg_ok C"
  shows "tcb_of (sta_ker_1 C x me s) t =
    (if t \<in> set (map INDEX_TSK (torder_table C)) \<and> iaffinity (tinib_table C t) = ID_PRC me
     then started_tcb C t me (tcb_of s t) else tcb_of s t)"
    and "dspflg (pcb_of (sta_ker_1 C x me s) p) = (p = me \<or> dspflg (pcb_of s p))"
proof -
  have n: "tnum_tsk C = length (torder_table C)" and d: "distinct (map INDEX_TSK (torder_table C))"
    using assms by (simp_all add: task_cfg_ok_def)
  note simps = sta_ker_1_def initialize_object_eq Let_def master_init_def init_loops obj_loop_sel
    init_handlers_sel initialize_alarm_def initialize_cyclic_def initialize_spin_lock_def
    initialize_tmevt_def initialize_pcb_sel initialize_task_def set_locspnid_def
  show "tcb_of (sta_ker_1 C x me s) t =
    (if t \<in> set (map INDEX_TSK (torder_table C)) \<and> iaffinity (tinib_table C t) = ID_PRC me
     then started_tcb C t me (tcb_of s t) else tcb_of s t)"
    using init_tsks_tcb [OF d, where n = "tnum_tsk C"] by (simp add: simps n)
  show "dspflg (pcb_of (sta_ker_1 C x me s) p) = (p = me \<or> dspflg (pcb_of s p))"
    by (simp add: simps init_tsks_dspflg)
qed

lemma startup_tcb:
  assumes "task_cfg_ok C" and "distinct order" and "t \<in> set (map INDEX_TSK (torder_table C))"
    and "p \<in> set order" and "iaffinity (tinib_table C t) = ID_PRC p"
  shows "\<exists>b. tcb_of (startup C mprc order s) t = started_tcb C t p b"
  using assms(2,4)
proof (induction order arbitrary: s)
  case (Cons q qs)
  let ?s = "sta_ker_1 C (q = mprc) q s"
  have e: "startup C mprc (q # qs) s = startup C mprc qs ?s" by (simp add: startup_def)
  show ?case
  proof (cases "p = q")
    case True
    have other: "tcb_of (startup C mprc rs r) t = tcb_of r t" if "p \<notin> set rs" for rs r
      using that
    proof (induction rs arbitrary: r)
      case (Cons u us)
      then show ?case using assms(5) by (simp add: startup_def sta_ker_1_tcb(1) [OF assms(1)] ID_PRC_def)
    qed (simp add: startup_def)
    have "p \<notin> set qs" using Cons.prems True by simp
    then show ?thesis unfolding e using other [of qs ?s] assms(3,5) True by (auto simp: sta_ker_1_tcb(1) [OF assms(1)])
  next
    case False
    then show ?thesis unfolding e using Cons by simp
  qed
qed simp

lemma startup_dspflg:
  assumes "task_cfg_ok C" and "p \<in> set order"
  shows "dspflg (pcb_of (startup C mprc order s) p)"
proof -
  have "dspflg (pcb_of (startup C mprc rs r) p) = (p \<in> set rs \<or> dspflg (pcb_of r p))" for rs r
    by (induction rs arbitrary: r) (auto simp: startup_def sta_ker_1_tcb(2) [OF assms(1)])
  then show ?thesis using assms(2) by simp
qed

end
