(* ===== verification/System.thy ===== *)
theory System
  imports Startup
begin

text \<open>
  The kernel as a whole: the invariant of all components together, the steps that the services, the
  handlers and the clock of each processor make, and the states that the system can reach from its
  start.  A service is one step, or, where it gives up its locks in between, one step for each
  critical section; the steps of all processors interleave.
\<close>

section \<open>The invariant of the system\<close>

text \<open>
  The kernel invariant and the invariants of all objects together.  \<open>M\<close> lists the messages that are
  linked in each mailbox.
\<close>

definition objinv :: "cfg \<Rightarrow> (nat \<Rightarrow> nat list) \<Rightarrow> (qhdr \<Rightarrow> tskix list) \<Rightarrow> kstate \<Rightarrow> bool" where
  "objinv C M Q s \<longleftrightarrow> (\<forall>i. sem_inv C Q s i) \<and> (\<forall>i. flg_inv C Q s i) \<and> (\<forall>i. dtq_inv C Q s i) \<and>
     (\<forall>i. pdq_inv C Q s i) \<and> (\<forall>i < tnum_mpf C. mpf_inv C Q s i) \<and> mbx_inv C M Q s"

definition sysinv :: "cfg \<Rightarrow> kstate \<Rightarrow> bool" where
  "sysinv C s \<longleftrightarrow> (\<exists>Q M. kinv C {} Q s \<and> objinv C M Q s)"

lemma objinvD:
  assumes "objinv C M Q s"
  shows "sem_inv C Q s i" and "flg_inv C Q s i" and "dtq_inv C Q s i" and "pdq_inv C Q s i"
    and "i < tnum_mpf C \<Longrightarrow> mpf_inv C Q s i" and "mbx_inv C M Q s"
  using assms by (simp_all add: objinv_def)

text \<open>A step keeps the invariant of each object whose wait queues and control block it leaves alone.\<close>

lemma objinv_frame:
  assumes I: "objinv C M Q s" and K: "kinv C {} Q' s'" and k: "keeps H Q s Q' s'"
    and sem: "\<And>i. sem_inv C Q' s' i \<or> WAITQ (SEM i) \<notin> H \<and> semcb_of (objs s') i = semcb_of (objs s) i"
    and flg: "\<And>i. flg_inv C Q' s' i \<or> WAITQ (FLG i) \<notin> H \<and> flgcb_of (objs s') i = flgcb_of (objs s) i"
    and dtq: "\<And>i. dtq_inv C Q' s' i \<or>
      WAITQ (DTQ i) \<notin> H \<and> RWAITQ (DTQ i) \<notin> H \<and> dtqcb_of (objs s') i = dtqcb_of (objs s) i"
    and pdq: "\<And>i. pdq_inv C Q' s' i \<or>
      WAITQ (PDQ i) \<notin> H \<and> RWAITQ (PDQ i) \<notin> H \<and> pdqcb_of (objs s') i = pdqcb_of (objs s) i"
    and mpf: "\<And>i. i < tnum_mpf C \<Longrightarrow>
      mpf_inv C Q' s' i \<or> WAITQ (MPF i) \<notin> H \<and> mpfcb_of (objs s') i = mpfcb_of (objs s) i"
    and mbx: "mbx_inv C M' Q' s' \<or> M' = M \<and> (\<forall>i. WAITQ (MBX i) \<notin> H) \<and>
      mbxcb_of (objs s') = mbxcb_of (objs s) \<and> msg_of (objs s') = msg_of (objs s)"
  shows "objinv C M' Q' s'"
proof -
  have "sem_inv C Q' s' i" for i using sem [of i] sem_inv_keeps [OF objinvD(1) [OF I] k, of i] by blast
  moreover have "flg_inv C Q' s' i" for i
    using flg [of i] flg_inv_keeps [OF objinvD(2) [OF I] k, of i] qrep_distinct [OF kinvD(4) [OF K]] by blast
  moreover have "dtq_inv C Q' s' i" for i using dtq [of i] dtq_inv_keeps [OF objinvD(3) [OF I] k, of i] by blast
  moreover have "pdq_inv C Q' s' i" for i using pdq [of i] pdq_inv_keeps [OF objinvD(4) [OF I] k, of i] by blast
  moreover have "mpf_inv C Q' s' i" if "i < tnum_mpf C" for i
    using mpf [OF that] mpf_inv_keeps [OF objinvD(5) [OF I that] k] by blast
  moreover have "mbx_inv C M' Q' s'" using mbx mbx_inv_keeps [OF objinvD(6) [OF I] k] by blast
  ultimately show ?thesis by (simp add: objinv_def)
qed

text \<open>One instance for each kind of step of the component theories.\<close>

lemma objinv_none:
  assumes I: "objinv C M Q s" and K: "kinv C {} Q' s'" and k: "keeps {} Q s Q' s'"
    and o: "wobjs (objs s') = wobjs (objs s)" "msg_of (objs s') = msg_of (objs s)"
  shows "objinv C M Q' s'"
proof -
  have "semcb_of (objs s') = semcb_of (objs s)" "flgcb_of (objs s') = flgcb_of (objs s)"
    "dtqcb_of (objs s') = dtqcb_of (objs s)" "pdqcb_of (objs s') = pdqcb_of (objs s)"
    "mpfcb_of (objs s') = mpfcb_of (objs s)" "mbxcb_of (objs s') = mbxcb_of (objs s)"
    using o(1) by (auto simp: wobjs_def dest: arg_cong [where f = semcb_of] arg_cong [where f = flgcb_of]
      arg_cong [where f = dtqcb_of] arg_cong [where f = pdqcb_of] arg_cong [where f = mpfcb_of] arg_cong [where f = mbxcb_of])
  then show ?thesis using o(2) by (intro objinv_frame [OF I K k]) simp_all
qed

lemma sysinvI: "kinv C {} Q s \<Longrightarrow> objinv C M Q s \<Longrightarrow> sysinv C s"
  by (auto simp: sysinv_def)

lemma task_step_sysinv:
  assumes "objinv C M Q s" and "task_step C Q s s'"
  shows "sysinv C s'"
proof -
  obtain Q' where S: "kinv C {} Q' s'" "keeps {} Q s Q' s'" "objs s' = objs s"
    using assms(2) by (auto simp: task_step_def)
  have "objinv C M Q' s'" by (rule objinv_none [OF assms(1) S(1,2)]) (simp_all add: S(3))
  then show ?thesis using S(1) by (rule sysinvI [rotated])
qed

lemma ext_step_sysinv:
  assumes "objinv C M Q s" and "ext_step C Q s s'"
  shows "sysinv C s'"
proof -
  obtain Q' g where S: "kinv C {} Q' s'" "keeps {} Q s Q' s'" "objs s' = (objs s)\<lparr>spncb_of := g\<rparr>"
    using assms(2) by (auto simp: ext_step_def)
  have "objinv C M Q' s'" by (rule objinv_none [OF assms(1) S(1,2)]) (simp_all add: S(3) wobjs_def)
  then show ?thesis using S(1) by (rule sysinvI [rotated])
qed

lemma timer_sysinv:
  assumes I: "objinv C M Q s" and K: "kinv C {} Q s'" and f: "timer_frame s s'"
  shows "sysinv C s'"
proof -
  have o: "(objs s')\<lparr>cyccb_of := cyccb_of (objs s), almcb_of := almcb_of (objs s)\<rparr> = objs s"
    using f by (simp add: timer_frame_def)
  have m: "msg_of (objs s') = msg_of (objs s)" using arg_cong [OF o, of msg_of] by simp
  have "tcb_of s' = tcb_of s" using f by (simp add: timer_frame_def)
  then have "keeps {} Q s Q s'" by (simp only: keeps_same_tcb keeps_refl)
  from objinv_none [OF I K this timer_frame_wobjs [OF f] m] K show ?thesis by (rule sysinvI [rotated])
qed

lemma same_sysinv:
  assumes I: "objinv C M Q s" and K: "kinv C {} Q s'" and "tcb_of s' = tcb_of s" and "objs s' = objs s"
  shows "sysinv C s'"
proof (rule task_step_sysinv [OF I task_stepI [OF K _ assms(4)]])
  show "keeps {} Q s Q s'" by (simp only: keeps_same_tcb [OF assms(3)] keeps_refl)
qed

lemma objs_but:
  shows  "x\<lparr>semcb_of := semcb_of y\<rparr> = y \<Longrightarrow> flgcb_of x = flgcb_of y \<and>
      dtqcb_of x = dtqcb_of y \<and> pdqcb_of x = pdqcb_of y \<and> mpfcb_of x = mpfcb_of y \<and> mbxcb_of x = mbxcb_of y \<and> msg_of x = msg_of y"
   and  "x\<lparr>flgcb_of := flgcb_of y\<rparr> = y \<Longrightarrow> semcb_of x = semcb_of y \<and>
      dtqcb_of x = dtqcb_of y \<and> pdqcb_of x = pdqcb_of y \<and> mpfcb_of x = mpfcb_of y \<and> mbxcb_of x = mbxcb_of y \<and> msg_of x = msg_of y"
   and  "x\<lparr>dtqcb_of := dtqcb_of y\<rparr> = y \<Longrightarrow> semcb_of x = semcb_of y \<and>
      flgcb_of x = flgcb_of y \<and> pdqcb_of x = pdqcb_of y \<and> mpfcb_of x = mpfcb_of y \<and> mbxcb_of x = mbxcb_of y \<and> msg_of x = msg_of y"
   and  "x\<lparr>pdqcb_of := pdqcb_of y\<rparr> = y \<Longrightarrow> semcb_of x = semcb_of y \<and>
      flgcb_of x = flgcb_of y \<and> dtqcb_of x = dtqcb_of y \<and> mpfcb_of x = mpfcb_of y \<and> mbxcb_of x = mbxcb_of y \<and> msg_of x = msg_of y"
   and  "x\<lparr>mpfcb_of := mpfcb_of y\<rparr> = y \<Longrightarrow> semcb_of x = semcb_of y \<and>
      flgcb_of x = flgcb_of y \<and> dtqcb_of x = dtqcb_of y \<and> pdqcb_of x = pdqcb_of y \<and> mbxcb_of x = mbxcb_of y \<and> msg_of x = msg_of y"
   and  "x\<lparr>mbxcb_of := mbxcb_of y, msg_of := msg_of y\<rparr> = y \<Longrightarrow> semcb_of x = semcb_of y \<and>
      flgcb_of x = flgcb_of y \<and> dtqcb_of x = dtqcb_of y \<and> pdqcb_of x = pdqcb_of y \<and> mpfcb_of x = mpfcb_of y"
  by (cases x; cases y; simp)+

lemma sem_step_sysinv:
  assumes I: "objinv C M Q s" and S: "sem_step C i Q s s'"
    and c: "isemcnt (seminib_table C i) \<le> maxsem (seminib_table C i)"
  shows "sysinv C s'"
proof -
  obtain Q' where K: "kinv C {} Q' s'" and F: "sem_frame i Q s Q' s'" and v: "sem_inv C Q' s' i"
    using S c objinvD(1) [OF I, of i] by (auto simp: sem_step_def)
  have k: "keeps {WAITQ (SEM i)} Q s Q' s'" and j: "semcb_of (objs s') j = semcb_of (objs s) j \<or> j = i"
    and o: "(objs s')\<lparr>semcb_of := semcb_of (objs s)\<rparr> = objs s" for j
    using F by (auto simp: sem_frame_def sem_def)
  have "objinv C M Q' s'"
    by (rule objinv_frame [OF I K k]) (use v j objs_but(1) [OF o] in auto)
  then show ?thesis by (rule sysinvI [OF K])
qed

lemma flg_step_sysinv:
  assumes I: "objinv C M Q s" and S: "flg_step C i Q s s'"
  shows "sysinv C s'"
proof -
  obtain Q' where K: "kinv C {} Q' s'" and F: "flg_frame i Q s Q' s'" and v: "flg_inv C Q' s' i"
    using S by (auto simp: flg_step_def)
  have k: "keeps {WAITQ (FLG i)} Q s Q' s'" and j: "flgcb_of (objs s') j = flgcb_of (objs s) j \<or> j = i"
    and o: "(objs s')\<lparr>flgcb_of := flgcb_of (objs s)\<rparr> = objs s" for j
    using F by (auto simp: flg_frame_def flg_def)
  have "objinv C M Q' s'"
    by (rule objinv_frame [OF I K k]) (use v j objs_but(2) [OF o] in auto)
  then show ?thesis by (rule sysinvI [OF K])
qed

lemma dtq_step_sysinv:
  assumes I: "objinv C M Q s" and S: "dtq_keep C i Q s s'"
  shows "sysinv C s'"
proof -
  obtain Q' where K: "kinv C {} Q' s'" and F: "dtq_frame i Q s Q' s'" and v: "dtq_inv C Q' s' i"
    using S by (auto simp: dtq_keep_def dtq_step_def)
  have k: "keeps {WAITQ (DTQ i), RWAITQ (DTQ i)} Q s Q' s'" and j: "dtqcb_of (objs s') j = dtqcb_of (objs s) j \<or> j = i"
    and o: "(objs s')\<lparr>dtqcb_of := dtqcb_of (objs s)\<rparr> = objs s" for j
    using F by (auto simp: dtq_frame_def dtq_def)
  have "objinv C M Q' s'"
    by (rule objinv_frame [OF I K k]) (use v j objs_but(3) [OF o] in auto)
  then show ?thesis by (rule sysinvI [OF K])
qed

lemma pdq_step_sysinv:
  assumes I: "objinv C M Q s" and S: "pdq_keep C i Q s s'"
  shows "sysinv C s'"
proof -
  obtain Q' where K: "kinv C {} Q' s'" and F: "pdq_frame i Q s Q' s'" and v: "pdq_inv C Q' s' i"
    using S by (auto simp: pdq_keep_def pdq_step_def)
  have k: "keeps {WAITQ (PDQ i), RWAITQ (PDQ i)} Q s Q' s'" and j: "pdqcb_of (objs s') j = pdqcb_of (objs s) j \<or> j = i"
    and o: "(objs s')\<lparr>pdqcb_of := pdqcb_of (objs s)\<rparr> = objs s" for j
    using F by (auto simp: pdq_frame_def pdq_def)
  have "objinv C M Q' s'"
    by (rule objinv_frame [OF I K k]) (use v j objs_but(4) [OF o] in auto)
  then show ?thesis by (rule sysinvI [OF K])
qed

lemma mpf_step_sysinv:
  assumes I: "objinv C M Q s" and S: "mpf_step C i Q s s'"
    and c: "blkcnt (mpfinib_table C i) \<le> INDEX_ALLOC"
  shows "sysinv C s'"
proof -
  obtain Q' where K: "kinv C {} Q' s'" and F: "mpf_frame i Q s Q' s'" and v: "i < tnum_mpf C \<longrightarrow> mpf_inv C Q' s' i"
    using S c objinvD(5) [OF I, of i] by (auto simp: mpf_step_def)
  have k: "keeps {WAITQ (MPF i)} Q s Q' s'" and j: "mpfcb_of (objs s') j = mpfcb_of (objs s) j \<or> j = i"
    and o: "(objs s')\<lparr>mpfcb_of := mpfcb_of (objs s)\<rparr> = objs s" for j
    using F by (auto simp: mpf_frame_def mpf_def)
  have "objinv C M Q' s'"
    by (rule objinv_frame [OF I K k]) (use v j objs_but(5) [OF o] in auto)
  then show ?thesis by (rule sysinvI [OF K])
qed

lemma mbx_step_sysinv:
  assumes I: "objinv C M Q s" and S: "mbx_keep C i M Q s s'"
  shows "sysinv C s'"
proof -
  obtain Q' M' where K: "kinv C {} Q' s'" and F: "mbx_frame i Q s Q' s'" and v: "mbx_inv C M' Q' s'"
    using S by (auto simp: mbx_keep_def mbx_step_def)
  have k: "keeps {WAITQ (MBX i)} Q s Q' s'"
    and o: "(objs s')\<lparr>mbxcb_of := mbxcb_of (objs s), msg_of := msg_of (objs s)\<rparr> = objs s"
    using F by (auto simp: mbx_frame_def)
  have "objinv C M' Q' s'"
    by (rule objinv_frame [OF I K k]) (use v objs_but(6) [OF o] in auto)
  then show ?thesis by (rule sysinvI [OF K])
qed

section \<open>The steps\<close>

text \<open>The calls of the services, one rule each.\<close>

inductive sem_call :: "cfg \<Rightarrow> prcix \<Rightarrow> ident \<Rightarrow> kstate \<Rightarrow> kstate \<Rightarrow> bool" 
  for C me i where
sig_sem: "sem_call C me i s (snd (sig_sem C me i s))"
| isig_sem: "sem_call C me i s (snd (isig_sem C me i s))"
| wai_sem: "sem_call C me i s (snd (wai_sem C me i s))"
| pol_sem: "sem_call C me i s (snd (pol_sem C me i s))"
| twai_sem: "sem_call C me i s (snd (twai_sem C me i tmout s))"
| ini_sem: "sem_call C me i s (snd (ini_sem C me i s))"

inductive flg_call :: "cfg \<Rightarrow> prcix \<Rightarrow> ident \<Rightarrow> kstate \<Rightarrow> kstate \<Rightarrow> bool" 
  for C me i where
set_flg: "flg_call C me i s (snd (set_flg C me i ptn s))"
| iset_flg: "flg_call C me i s (snd (iset_flg C me i ptn s))"
| clr_flg: "flg_call C me i s (snd (clr_flg C me i ptn s))"
| wai_flg: "flg_call C me i s (snd (wai_flg C me i wp wm s))"
| pol_flg: "flg_call C me i s (snd (pol_flg C me i wp wm s))"
| twai_flg: "flg_call C me i s (snd (twai_flg C me i wp wm tmout s))"
| ini_flg: "flg_call C me i s (snd (ini_flg C me i s))"

inductive dtq_call :: "cfg \<Rightarrow> prcix \<Rightarrow> ident \<Rightarrow> kstate \<Rightarrow> kstate \<Rightarrow> bool" 
  for C me i where
snd_dtq: "dtq_call C me i s (snd (snd_dtq C me i x s))"
| psnd_dtq: "dtq_call C me i s (snd (psnd_dtq C me i x s))"
| ipsnd_dtq: "dtq_call C me i s (snd (ipsnd_dtq C me i x s))"
| tsnd_dtq: "dtq_call C me i s (snd (tsnd_dtq C me i x tmout s))"
| fsnd_dtq: "dtq_call C me i s (snd (fsnd_dtq C me i x s))"
| ifsnd_dtq: "dtq_call C me i s (snd (ifsnd_dtq C me i x s))"
| rcv_dtq: "dtq_call C me i s (snd (rcv_dtq C me i s))"
| prcv_dtq: "dtq_call C me i s (snd (prcv_dtq C me i s))"
| trcv_dtq: "dtq_call C me i s (snd (trcv_dtq C me i tmout s))"
| ini_dtq: "dtq_call C me i s (snd (ini_dtq C me i s))"

inductive pdq_call :: "cfg \<Rightarrow> prcix \<Rightarrow> ident \<Rightarrow> kstate \<Rightarrow> kstate \<Rightarrow> bool" 
  for C me i where
snd_pdq: "pdq_call C me i s (snd (snd_pdq C me i x pr s))"
| psnd_pdq: "pdq_call C me i s (snd (psnd_pdq C me i x pr s))"
| ipsnd_pdq: "pdq_call C me i s (snd (ipsnd_pdq C me i x pr s))"
| tsnd_pdq: "pdq_call C me i s (snd (tsnd_pdq C me i x pr tmout s))"
| rcv_pdq: "pdq_call C me i s (snd (rcv_pdq C me i s))"
| prcv_pdq: "pdq_call C me i s (snd (prcv_pdq C me i s))"
| trcv_pdq: "pdq_call C me i s (snd (trcv_pdq C me i tmout s))"
| ini_pdq: "pdq_call C me i s (snd (ini_pdq C me i s))"

text \<open>A message may be sent if it is not linked in a mailbox.\<close>

definition msg_free :: "kstate \<Rightarrow> nat \<Rightarrow> bool" where
  "msg_free s m \<longleftrightarrow> (\<forall>i xs. mseg (msg_of (objs s)) (pk_head (mbx s i)) xs None \<longrightarrow> m \<notin> set xs)"

inductive mbx_call :: "cfg \<Rightarrow> prcix \<Rightarrow> ident \<Rightarrow> kstate \<Rightarrow> kstate \<Rightarrow> bool" 
  for C me i where
snd_mbx: "msg_free s m \<Longrightarrow> mbx_call C me i s (snd (snd_mbx C me i m True s))"
| rcv_mbx: "mbx_call C me i s (snd (rcv_mbx C me i s))"
| prcv_mbx: "mbx_call C me i s (snd (prcv_mbx C me i s))"
| trcv_mbx: "mbx_call C me i s (snd (trcv_mbx C me i tmout s))"
| ini_mbx: "mbx_call C me i s (snd (ini_mbx C me i s))"

inductive mpf_call :: "cfg \<Rightarrow> prcix \<Rightarrow> ident \<Rightarrow> kstate \<Rightarrow> kstate \<Rightarrow> bool" 
  for C me i where
get_mpf: "mpf_call C me i s (snd (get_mpf C me i s))"
| pget_mpf: "mpf_call C me i s (snd (pget_mpf C me i s))"
| tget_mpf: "mpf_call C me i s (snd (tget_mpf C me i tmout s))"
| rel_mpf: "mpf_call C me i s (snd (rel_mpf C me i blk s))"
| ini_mpf: "mpf_call C me i s (snd (ini_mpf C me i s))"

inductive sync_call :: "cfg \<Rightarrow> prcix \<Rightarrow> kstate \<Rightarrow> kstate \<Rightarrow> bool" for C me where
slp_tsk: "sync_call C me s (snd (slp_tsk me s))"
| tslp_tsk: "sync_call C me s (snd (tslp_tsk me tmout s))"
| dly_tsk: "sync_call C me s (snd (dly_tsk me tm s))"
| wup_tsk: "sync_call C me s (snd (wup_tsk C me i s))"
| iwup_tsk: "sync_call C me s (snd (iwup_tsk C me i s))"
| can_wup: "sync_call C me s (snd (can_wup C me i s))"
| rel_wai_1: "sync_call C me s (snd (rel_wai_1 C me i s))"
| rel_wai_2: "sync_call C me s (snd (rel_wai_2 me t s))"
| irel_wai_1: "sync_call C me s (snd (irel_wai_1 C me i s))"
| irel_wai_2: "sync_call C me s (snd (irel_wai_2 me t s))"
| sus_tsk: "sync_call C me s (snd (sus_tsk C me i s))"
| rsm_tsk: "sync_call C me s (snd (rsm_tsk C me i s))"

text \<open>
  The guards are the conditions under which the code keeps the invariant: they exclude the states in
  which \<open>mig_tsk\<close>, \<open>ter_tsk\<close> and \<open>ext_tsk\<close> do not check what has become of the task (see the
  theorems on their races).
\<close>

inductive manage_call :: "cfg \<Rightarrow> prcix \<Rightarrow> kstate \<Rightarrow> kstate \<Rightarrow> bool" for C me where
act_tsk: "manage_call C me s (snd (act_tsk C me i s))"
| iact_tsk: "manage_call C me s (snd (iact_tsk C me i s))"
| mact_tsk: "manage_call C me s (snd (mact_tsk C me i prc s))"
| imact_tsk: "manage_call C me s (snd (imact_tsk C me i prc s))"
| can_act: "manage_call C me s (snd (can_act C me i s))"
| mig_tsk: "mig_ok me (get_tcb_self me i s) s \<Longrightarrow> manage_call C me s (snd (mig_tsk C me i prc s))"
| ext_tsk: "sense_context me s \<or> TSTAT_RUNNABLE (tstat (tcb_of s (runtsk me s))) \<Longrightarrow>
    manage_call C me s (snd (ext_tsk C me s))"
| ter_tsk_1: "manage_call C me s (snd (ter_tsk_1 C me i s))"
| ter_tsk_2: "ter_ok me t s \<Longrightarrow> (\<forall>w p. n = Ter_wobj_mig w p \<longrightarrow> p \<noteq> me) \<Longrightarrow>
    manage_call C me s (snd (ter_tsk_2 C me t n s))"
| chg_pri_1: "manage_call C me s (snd (chg_pri_1 C me i pr s))"
| chg_pri_2: "new < 16 \<Longrightarrow> manage_call C me s (snd (chg_pri_2 C t new s))"

inductive sys_call :: "cfg \<Rightarrow> prcix \<Rightarrow> kstate \<Rightarrow> kstate \<Rightarrow> bool" for C me where
rot_rdq: "sys_call C me s (snd (rot_rdq me pr s))"
| irot_rdq: "sys_call C me s (snd (irot_rdq me pr s))"
| mrot_rdq: "sys_call C me s (snd (mrot_rdq C me pr prc s))"
| imrot_rdq: "sys_call C me s (snd (imrot_rdq C me pr prc s))"
| loc_cpu: "sys_call C me s (snd (loc_cpu me s))"
| iloc_cpu: "sys_call C me s (snd (iloc_cpu me s))"
| unl_cpu: "sys_call C me s (snd (unl_cpu me s))"
| iunl_cpu: "sys_call C me s (snd (iunl_cpu me s))"
| dis_dsp: "sys_call C me s (snd (dis_dsp me s))"
| ena_dsp: "sys_call C me s (snd (ena_dsp me s))"
| chg_ipm_1: "sys_call C me s (snd (chg_ipm_1 valid me pr s))"
| dis_tex: "sys_call C me s (snd (dis_tex C me s))"
| ena_tex_1: "sys_call C me s (snd (ena_tex_1 C me s))"
| ras_tex_1: "sys_call C me s (snd (ras_tex_1 C me i ptn s))"
| iras_tex: "sys_call C me s (snd (iras_tex C me i ptn s))"
| texrtn_take: "sys_call C me s (snd (texrtn_take t s))"
| texrtn_return: "p_runtsk (pcb_of s me) = Some t \<Longrightarrow> sys_call C me s (snd (texrtn_return me t saved s))"
| set_enatex: "sys_call C me s (upd_tcb t (\<lambda>b. b\<lparr>enatex := x\<rparr>) s)"
| loc_spn: "sys_call C me s (snd (loc_spn C me i s))"
| iloc_spn: "sys_call C me s (snd (iloc_spn C me i s))"
| try_spn: "sys_call C me s (snd (try_spn C me i s))"
| itry_spn: "sys_call C me s (snd (itry_spn C me i s))"
| unl_spn: "sys_call C me s (snd (unl_spn C me i s))"
| iunl_spn: "sys_call C me s (snd (iunl_spn C me i s))"

text \<open>
  The time events: the services on handlers, and the tick of the processor cut at the points where
  \<open>signal_time\<close> or a callback gives up the locks.  \<open>callback_1\<close> is a callback up to the first of them.
\<close>

definition callback_1 :: "cfg \<Rightarrow> prcix \<Rightarrow> tmevtb \<Rightarrow> kstate \<Rightarrow> kstate" where
  "callback_1 C me b s =
     (case (b, tm_callback s b) of
        (TM_TSK t, Some CB_wait_tmout) \<Rightarrow> snd (wait_tmout_1 me t s)
      | (TM_TSK t, Some CB_wait_tmout_ok) \<Rightarrow> wait_tmout_ok me t s
      | (TM_CYC i, Some CB_call_cychdr) \<Rightarrow> call_cychdr_1 C i s
      | (TM_ALM i, Some CB_call_almhdr) \<Rightarrow> call_almhdr_1 i s
      | _ \<Rightarrow> s)"

definition fire_1 :: "cfg \<Rightarrow> prcix \<Rightarrow> kstate \<Rightarrow> kstate" where
  "fire_1 C me s =
     (let b = p_tmevtb (TMEVT_NODE (tevt_of s me) 1) in callback_1 C me b (delete_top me s))"

definition tick_done :: "prcix \<Rightarrow> kstate \<Rightarrow> kstate" where
  "tick_done me = upd_tevt me (\<lambda>te. te\<lparr>min_time := current_time te\<rparr>)"

inductive time_call :: "cfg \<Rightarrow> prcix \<Rightarrow> kstate \<Rightarrow> kstate \<Rightarrow> bool" for C me where
sta_cyc: "time_call C me s (snd (sta_cyc C me i s))"
| msta_cyc: "time_call C me s (snd (msta_cyc C me i prc s))"
| stp_cyc: "time_call C me s (snd (stp_cyc C me i s))"
| sta_alm: "time_call C me s (snd (sta_alm C me i tm s))"
| ista_alm: "time_call C me s (snd (ista_alm C me i tm s))"
| msta_alm: "time_call C me s (snd (msta_alm C me i tm prc s))"
| imsta_alm: "time_call C me s (snd (imsta_alm C me i tm prc s))"
| stp_alm: "time_call C me s (snd (stp_alm C me i s))"
| istp_alm: "time_call C me s (snd (istp_alm C me i s))"
| advance: "time_call C me s (advance me s)"
| fire: "top_due (tevt_of s me) \<Longrightarrow> time_call C me s (fire_1 C me s)"
| wait_tmout_2: "(pend_relwai (tcb_of s t) \<longrightarrow> tm_callback s (TM_TSK t) = None) \<Longrightarrow>
    time_call C me s (wait_tmout_2 me t s)"
| call_cychdr_2: "time_call C me s (call_cychdr_2 me s)"
| call_almhdr_2: "time_call C me s (call_almhdr_2 me s)"
| tick_done: "\<not> top_due (tevt_of s me) \<Longrightarrow> time_call C me s (tick_done me s)"

inductive int_step :: "cfg \<Rightarrow> prcix \<Rightarrow> kstate \<Rightarrow> kstate \<Rightarrow> bool" for C me where
int_enter: "\<not> lock_flag (pcb_of s me) \<Longrightarrow> int_step C me s (int_enter me s)"
| ret_int: "in_handler me s \<Longrightarrow> int_step C me s (ret_int me s)"
| ret_exc: "in_handler me s \<Longrightarrow> int_step C me s (ret_exc spnid locked me s)"
| idle_loop: "p_runtsk (pcb_of s me) = None \<Longrightarrow> excpt_nest_count (pcb_of s me) = 1 \<Longrightarrow>
    int_step C me s (idle_loop me s)"
| ipi_handler: "ipi s me \<Longrightarrow> in_handler me s \<Longrightarrow> int_step C me s (snd (ipi_handler C me s))"
| irq_ipi: "ipi s me \<Longrightarrow> \<not> ext_ker_reqflg s \<Longrightarrow> \<not> lock_flag (pcb_of s me) \<Longrightarrow> int_step C me s (irq_ipi me s)"
| ext_ker: "int_step C me s (snd (ext_ker C me s))"

text \<open>
  A step of the system: one atomic section of one processor on which the kernel runs, or the end of
  the start of a processor.
\<close>

inductive sys_step :: "cfg \<Rightarrow> kstate \<Rightarrow> kstate \<Rightarrow> bool" for C where
  start: "me < tnum_prcid C \<Longrightarrow> \<not> kerflg (pcb_of s me) \<Longrightarrow> \<not> ext_ker_reqflg s \<Longrightarrow> sys_step C s (sta_ker_2 me s)"
| sem_call: "me < tnum_prcid C \<Longrightarrow> kerflg (pcb_of s me) \<Longrightarrow> sem_call C me i s s' \<Longrightarrow> sys_step C s s'"
| flg_call: "me < tnum_prcid C \<Longrightarrow> kerflg (pcb_of s me) \<Longrightarrow> flg_call C me i s s' \<Longrightarrow> sys_step C s s'"
| dtq_call: "me < tnum_prcid C \<Longrightarrow> kerflg (pcb_of s me) \<Longrightarrow> dtq_call C me i s s' \<Longrightarrow> sys_step C s s'"
| pdq_call: "me < tnum_prcid C \<Longrightarrow> kerflg (pcb_of s me) \<Longrightarrow> pdq_call C me i s s' \<Longrightarrow> sys_step C s s'"
| mbx_call: "me < tnum_prcid C \<Longrightarrow> kerflg (pcb_of s me) \<Longrightarrow> mbx_call C me i s s' \<Longrightarrow> sys_step C s s'"
| mpf_call: "me < tnum_prcid C \<Longrightarrow> kerflg (pcb_of s me) \<Longrightarrow> mpf_call C me i s s' \<Longrightarrow> sys_step C s s'"
| sync_call: "me < tnum_prcid C \<Longrightarrow> kerflg (pcb_of s me) \<Longrightarrow> sync_call C me s s' \<Longrightarrow> sys_step C s s'"
| manage_call: "me < tnum_prcid C \<Longrightarrow> kerflg (pcb_of s me) \<Longrightarrow> manage_call C me s s' \<Longrightarrow> sys_step C s s'"
| sys_call: "me < tnum_prcid C \<Longrightarrow> kerflg (pcb_of s me) \<Longrightarrow> sys_call C me s s' \<Longrightarrow> sys_step C s s'"
| time_call: "me < tnum_prcid C \<Longrightarrow> kerflg (pcb_of s me) \<Longrightarrow> time_call C me s s' \<Longrightarrow> sys_step C s s'"
| int_step: "me < tnum_prcid C \<Longrightarrow> kerflg (pcb_of s me) \<Longrightarrow> int_step C me s s' \<Longrightarrow> sys_step C s s'"

inductive reachable :: "cfg \<Rightarrow> kstate \<Rightarrow> bool" for C where
  boot: "boot_queues C q \<Longrightarrow> distinct order \<Longrightarrow> set order = {..<tnum_prcid C} \<Longrightarrow> mprc < tnum_prcid C \<Longrightarrow>
    reachable C (startup C mprc order (boot_state q))"
| step: "reachable C s \<Longrightarrow> sys_step C s s' \<Longrightarrow> reachable C s'"

section \<open>Every step keeps the invariant\<close>

text \<open>What the configurator guarantees of the tables.\<close>

definition sys_cfg :: "cfg \<Rightarrow> bool" where
  "sys_cfg C \<longleftrightarrow> prc_ok C \<and> task_cfg_ok C \<and>
     (\<forall>i. isemcnt (seminib_table C i) \<le> maxsem (seminib_table C i)) \<and>
     (\<forall>i. blkcnt (mpfinib_table C i) \<le> INDEX_ALLOC \<and> 0 < blksz (mpfinib_table C i)) \<and> tmax_mpfid C < 2 ^ 32"

lemma sys_cfgD:
  assumes "sys_cfg C"
  shows "prc_ok C" and "task_cfg_ok C" and "isemcnt (seminib_table C i) \<le> maxsem (seminib_table C i)"
    and "blkcnt (mpfinib_table C i) \<le> INDEX_ALLOC" and "0 < blksz (mpfinib_table C i)"
    and "VALID_MPFID C j \<Longrightarrow> INDEX_OBJ j < tnum_mpf C" and "me < tnum_prcid C \<Longrightarrow> me < 2 ^ 31 - 1"
  using assms by (auto simp: sys_cfg_def VALID_MPFID_def INDEX_OBJ_def tnum_mpf_def uint_cast_def prc_ok_def)

lemma sem_call_sysinv:
  assumes K: "kinv C {} Q s" and I: "objinv C M Q s" and C: "sys_cfg C" and c: "sem_call C me i s s'"
  shows "sysinv C s'"
proof (rule sem_step_sysinv [OF I])
  show "sem_step C (INDEX_OBJ i) Q s s'"
    using c by cases (simp_all only: sig_sem_step [OF K] isig_sem_step [OF K] wai_sem_step [OF K]
      twai_sem_step [OF K] pol_sem_step [OF K] ini_sem_step [OF K])
qed (rule sys_cfgD(3) [OF C])

lemma flg_call_sysinv:
  assumes K: "kinv C {} Q s" and I: "objinv C M Q s" and c: "flg_call C me i s s'"
  shows "sysinv C s'"
proof (rule flg_step_sysinv [OF I])
  note f = objinvD(2) [OF I, of "INDEX_OBJ i"]
  show "flg_step C (INDEX_OBJ i) Q s s'"
    using c by cases (simp_all only: set_flg_step [OF K f] iset_flg_step [OF K f] clr_flg_step [OF K f]
      wai_flg_step [OF K f] twai_flg_step [OF K f] pol_flg_step [OF K f] ini_flg_step [OF K f])
qed

lemma dtq_call_sysinv:
  assumes K: "kinv C {} Q s" and I: "objinv C M Q s" and c: "dtq_call C me i s s'"
  shows "sysinv C s'"
proof (rule dtq_step_sysinv [OF I])
  note d = objinvD(3) [OF I, of "INDEX_OBJ i"]
  show "dtq_keep C (INDEX_OBJ i) Q s s'"
    using c by cases (simp_all only: dtq_services_keep [OF K d] ini_dtq_keep [OF K d])
qed

lemma pdq_call_sysinv:
  assumes K: "kinv C {} Q s" and I: "objinv C M Q s" and c: "pdq_call C me i s s'"
  shows "sysinv C s'"
proof (rule pdq_step_sysinv [OF I])
  note d = objinvD(4) [OF I, of "INDEX_OBJ i"]
  show "pdq_keep C (INDEX_OBJ i) Q s s'"
    using c by cases (simp_all only: pdq_services_keep [OF K d] ini_pdq_keep [OF K d])
qed

lemma msg_free_unlinked: "msg_free s m \<Longrightarrow> mbx_inv C M Q s \<Longrightarrow> m \<notin> set (M j)"
  by (auto simp: msg_free_def mbx_inv_def mbx_rep_def)

lemma mbx_call_sysinv:
  assumes K: "kinv C {} Q s" and I: "objinv C M Q s" and c: "mbx_call C me i s s'"
  shows "sysinv C s'"
proof (rule mbx_step_sysinv [OF I])
  note m = objinvD(6) [OF I]
  show "mbx_keep C (INDEX_OBJ i) M Q s s'"
    using c by cases (simp_all only: mbx_recv_keep [OF K m] ini_mbx_keep [OF K m]
      snd_mbx_keep [OF K m msg_free_unlinked [OF _ m]])
qed

lemma rel_mpf_sysinv:
  assumes K: "kinv C {} Q s" and I: "objinv C M Q s" and C: "sys_cfg C"
  shows "sysinv C (snd (rel_mpf C me i blk s))"
proof (cases "VALID_MPFID C i")
  case True
  note R = rel_mpf_step [OF K objinvD(5) [OF I sys_cfgD(6) [OF C True]] sys_cfgD(5) [OF C]]
  show ?thesis by (rule mpf_step_sysinv [OF I R sys_cfgD(4) [OF C]])
next
  case False
  then have "snd (rel_mpf C me i blk s) = s" by (simp add: rel_mpf_def rel_mpf_1_def)
  then show ?thesis using sysinvI [OF K I] by simp
qed

lemma mpf_call_sysinv:
  assumes K: "kinv C {} Q s" and I: "objinv C M Q s" and C: "sys_cfg C" and c: "mpf_call C me i s s'"
  shows "sysinv C s'"
  using c
proof cases
  case (rel_mpf blk)
  then show ?thesis using rel_mpf_sysinv [OF K I C] by simp
qed (simp_all only: mpf_services_step [OF K, THEN mpf_step_sysinv [OF I _ sys_cfgD(4) [OF C]]]
    ini_mpf_step [OF K, THEN mpf_step_sysinv [OF I _ sys_cfgD(4) [OF C]]])

lemma sync_call_sysinv:
  assumes K: "kinv C {} Q s" and I: "objinv C M Q s" and c: "sync_call C me s s'"
  shows "sysinv C s'"
proof (rule task_step_sysinv [OF I])
  show "task_step C Q s s'"
    using c by cases (simp_all only: slp_tsk_step [OF K] tslp_tsk_step [OF K] dly_tsk_step [OF K] wup_tsk_step [OF K]
      iwup_tsk_step [OF K] can_wup_step [OF K] rel_wai_1_step [OF K] rel_wai_2_step [OF K] irel_wai_1_step [OF K]
      irel_wai_2_step [OF K] sus_tsk_step [OF K] rsm_tsk_step [OF K])
qed

lemma manage_call_sysinv:
  assumes K: "kinv C {} Q s" and I: "objinv C M Q s" and C: "sys_cfg C" and me: "me < tnum_prcid C"
    and c: "manage_call C me s s'"
  shows "sysinv C s'"
proof -
  note P = sys_cfgD(1) [OF C] and m = sys_cfgD(7) [OF C me]
  note T = task_step_sysinv [OF I]
  from c show ?thesis
  proof cases
    case (ter_tsk_2 t n)
    then show ?thesis using T [OF ter_tsk_2_step [OF K P, of n me t]] by simp
  next
    case (mig_tsk i prc)
    then show ?thesis using T [OF mig_tsk_step [OF K]] by simp
  next
    case ext_tsk
    then show ?thesis using ext_step_sysinv [OF I ext_tsk_step [OF K P m]] by simp
  next
    case (chg_pri_2 new t)
    then show ?thesis using T [OF chg_pri_2_step(1) [OF K]] by simp
  qed (simp_all only: act_tsk_step [OF K, THEN T] iact_tsk_step [OF K, THEN T] mact_tsk_step [OF K P, THEN T]
      imact_tsk_step [OF K P, THEN T] can_act_step [OF K, THEN T] ter_tsk_1_step [OF K P m, THEN T]
      chg_pri_1_step [OF K P, THEN T])
qed

lemma texrtn_return_sysinv:
  assumes K: "kinv C {} Q s" and I: "objinv C M Q s" and r: "p_runtsk (pcb_of s me) = Some t"
  shows "sysinv C (snd (texrtn_return me t saved s))"
proof (rule ext_step_sysinv [OF I])
  obtain d s' where eq: "texrtn_return me t saved s = (d, s')" by fastforce
  note R = texrtn_return_kinv [OF K r eq]
  have "keeps {} Q s Q s'" by (simp add: keeps_def R(2))
  then show "ext_step C Q s (snd (texrtn_return me t saved s))" using R(1,4) by (auto simp: ext_step_def eq)
qed

lemma spn_call_sysinv:
  assumes K: "kinv C {} Q s" and I: "objinv C M Q s"
    and k: "kinv C {} Q s'" and t: "tcb_of s' = tcb_of s" and o: "\<exists>g. objs s' = (objs s)\<lparr>spncb_of := g\<rparr>"
  shows "sysinv C s'"
proof (rule ext_step_sysinv [OF I])
  have "keeps {} Q s Q s'" by (simp only: keeps_same_tcb [OF t] keeps_refl)
  then show "ext_step C Q s s'" using k o by (auto simp: ext_step_def)
qed

lemma spn_objsI: "x\<lparr>spncb_of := h\<rparr> = y\<lparr>spncb_of := h\<rparr> \<Longrightarrow> \<exists>g. x = y\<lparr>spncb_of := g\<rparr>"
  by (rule exI [of _ "spncb_of x"]) (cases x; cases y; simp)

lemmas spn_services_defs = loc_spn_def iloc_spn_def try_spn_def itry_spn_def unl_spn_def iunl_spn_def
  spn_take_def set_lock_flag_def set_locspnid_def upd_spn_def Let_def

lemma spn_services_frame:
  shows "tcb_of (snd (loc_spn C me i s)) = tcb_of s" and "tcb_of (snd (iloc_spn C me i s)) = tcb_of s"
    and "tcb_of (snd (try_spn C me i s)) = tcb_of s" and "tcb_of (snd (itry_spn C me i s)) = tcb_of s"
    and "tcb_of (snd (unl_spn C me i s)) = tcb_of s" and "tcb_of (snd (iunl_spn C me i s)) = tcb_of s"
    and "\<exists>g. objs (snd (loc_spn C me i s)) = (objs s)\<lparr>spncb_of := g\<rparr>"
    and "\<exists>g. objs (snd (iloc_spn C me i s)) = (objs s)\<lparr>spncb_of := g\<rparr>"
    and "\<exists>g. objs (snd (try_spn C me i s)) = (objs s)\<lparr>spncb_of := g\<rparr>"
    and "\<exists>g. objs (snd (itry_spn C me i s)) = (objs s)\<lparr>spncb_of := g\<rparr>"
    and "\<exists>g. objs (snd (unl_spn C me i s)) = (objs s)\<lparr>spncb_of := g\<rparr>"
    and "\<exists>g. objs (snd (iunl_spn C me i s)) = (objs s)\<lparr>spncb_of := g\<rparr>"
  by ((rule spn_objsI)?, simp add: spn_services_defs)+

lemma sys_call_sysinv:
  assumes K: "kinv C {} Q s" and I: "objinv C M Q s" and c: "sys_call C me s s'"
  shows "sysinv C s'"
proof -
  note T = task_step_sysinv [OF I]
  note S = spn_call_sysinv [OF K I]
  note k = spn_services_kinv [OF K] and f = spn_services_frame
  from c show ?thesis
  proof cases
    case (texrtn_return t saved)
    then show ?thesis using texrtn_return_sysinv [OF K I] by simp
  next
    case (texrtn_take t)
    then show ?thesis using T [OF task_step_enatex(2) [OF K, of t "\<lambda>_. 0"]] by (simp add: texrtn_take_def)
  qed (simp_all only: rot_rdq_step [OF K, THEN T] irot_rdq_step [OF K, THEN T] mrot_rdq_step [OF K, THEN T]
      imrot_rdq_step [OF K, THEN T] cpu_lock_step [OF K, THEN T] dis_dsp_step [OF K, THEN T]
      ena_dsp_step [OF K, THEN T] chg_ipm_1_step [OF K, THEN T] dis_tex_step [OF K, THEN T]
      ena_tex_1_step [OF K, THEN T] ras_tex_1_step [OF K, THEN T] iras_tex_step [OF K, THEN T]
      task_step_enatex(1) [OF K, THEN T] S [OF k(1) f(1,7)] S [OF k(2) f(2,8)] S [OF k(3) f(3,9)]
      S [OF k(4) f(4,10)] S [OF k(5) f(5,11)] S [OF k(6) f(6,12)])
qed

section \<open>Time events and interrupts\<close>

lemma handler_step_sysinv:
  assumes I: "objinv C M Q s" and "handler_step C {} Q b r s s'"
  shows "sysinv C s'"
  using timer_sysinv [OF I] assms(2) by (simp add: handler_step_def)

lemma handler_services_sysinv:
  assumes K: "kinv C {} Q s" and I: "objinv C M Q s"
  shows "sysinv C (snd (sta_cyc C me i s))" and "sysinv C (snd (msta_cyc C me i prc s))"
    and "sysinv C (snd (stp_cyc C me i s))"
    and "sysinv C (snd (sta_alm C me i tm s))" and "sysinv C (snd (ista_alm C me i tm s))"
    and "sysinv C (snd (msta_alm C me i tm prc s))" and "sysinv C (snd (imsta_alm C me i tm prc s))"
    and "sysinv C (snd (stp_alm C me i s))" and "sysinv C (snd (istp_alm C me i s))"
proof -
  note H = handler_step_sysinv [OF I] and S = sysinvI [OF K I]
  note p = surjective_pairing
  have A: "sysinv C s'" if "alm_effect C {} Q j s r s'" for j r s'
    using that H S by (auto simp: alm_effect_def Let_def split: if_splits)
  show "sysinv C (snd (sta_cyc C me i s))"
    using sta_cyc_spec [OF K p, of me i] H S by (auto split: if_splits)
  show "sysinv C (snd (msta_cyc C me i prc s))"
    using msta_cyc_spec [OF K p, of me i prc] H S by (auto split: if_splits)
  show "sysinv C (snd (stp_cyc C me i s))"
    using stp_cyc_spec [OF K p, of me i] H S by (auto split: if_splits)
  show "sysinv C (snd (sta_alm C me i tm s))" "sysinv C (snd (ista_alm C me i tm s))"
    "sysinv C (snd (msta_alm C me i tm prc s))" "sysinv C (snd (imsta_alm C me i tm prc s))"
    "sysinv C (snd (stp_alm C me i s))" "sysinv C (snd (istp_alm C me i s))"
    by (rule A, rule alm_services [OF K], rule p)+
qed

lemma wait_end_sysinv:
  assumes I: "objinv C M Q s0" and t0: "tcb_of s0 = tcb_of s" "objs s0 = objs s"
    and K: "kinv C {} (ready_after s1 t (unlinked s2 t Q)) s'"
    and t: "tcb_of s' = (tcb_of s)(t := ended_tcb e (tcb_of s t))" and o: "objs s' = objs s"
  shows "sysinv C s'"
proof (rule task_step_sysinv [OF I task_stepI [OF K]])
  show "keeps {} Q s0 (ready_after s1 t (unlinked s2 t Q)) s'"
    by (rule keeps_release [where e = e]) (simp add: t t0)
qed (simp add: o t0)

lemma wait_tmout_2_sysinv:
  assumes K: "kinv C {} Q s" and I: "objinv C M Q s"
    and c: "pend_relwai (tcb_of s t) \<longrightarrow> tm_callback s (TM_TSK t) = None"
  shows "sysinv C (wait_tmout_2 me t s)"
proof (cases "pend_relwai (tcb_of s t)")
  case True
  let ?s1 = "upd_tcb t (\<lambda>b. b\<lparr>pend_relwai := False\<rparr>) s"
  have "set_callback (TM_TSK t) None ?s1 = ?s1" using c True by (simp add: set_callback_def fun_upd_idem)
  then have K1: "kinv C {} Q (set_callback (TM_TSK t) None ?s1)"
    using pend_relwai_step(2) [OF K, of False t] by simp
  have "TSTAT_WAITING (tstat (tcb_of ?s1 t))" using pend_waiting(2) [OF K True] by simp
  note W = tmout_wake [OF K1 this refl, of me E_TMOUT]
  have e: "wait_tmout_2 me t s = wait_tmout_end me t E_TMOUT (wait_dequeue_wobj t ?s1)"
    using True by (simp add: wait_tmout_2_def)
  show ?thesis unfolding e
    by (rule wait_end_sysinv [OF I refl refl W(1)]) (simp_all add: W(2,3) ended_tcb_pend)
next
  case False
  then show ?thesis using sysinvI [OF K I] by (simp add: wait_tmout_2_def)
qed

text \<open>The event that fires: the block has left the heap, and its callback makes up for that.\<close>

lemma fire_task_sysinv:
  assumes p: "popped C Q (TM_TSK t) s1" and c: "cause s1 (TM_TSK t)" and I: "objinv C M Q s"
    and t: "tcb_of s1 = tcb_of s" and o: "objs s1 = objs s"
  shows "sysinv C (callback_1 C me (TM_TSK t) s1)"
proof (cases "TSTAT_WAIT_WOBJ (tstat (tcb_of s1 t))")
  case True
  let ?r = "relock t s1"
  have e: "callback_1 C me (TM_TSK t) s1 = ?r"
    using c True wait_cb_wobj by (auto simp: callback_1_def cause_def wait_cb_def wait_tmout_1_def relock_def Let_def)
  have K: "kinv C {} Q ?r"
    using pend_relwai_step(2) [OF popped_task [OF p], of True t] True by (simp add: relock_def upd_tcb_callback)
  have "keeps {} Q s Q ?r" by (simp add: keeps_def relock_def t)
  then show ?thesis unfolding e by (intro task_step_sysinv [OF I task_stepI [OF K]]) (simp_all add: relock_def o)
next
  case False
  have w: "TSTAT_WAITING (tstat (tcb_of s1 t))" using c by (simp add: cause_def)
  define r where "r = (if tstat (tcb_of s1 t) AND TS_WAIT_MASK = TS_WAIT_DLY then E_OK else E_TMOUT)"
  have e: "callback_1 C me (TM_TSK t) s1 = wait_tmout_end me t r s1"
    using c False by (simp add: callback_1_def cause_def wait_cb_def wait_tmout_1_def wait_tmout_ok_def r_def)
  note W = wait_tmout_end_kinv [OF popped_task [OF p] w False, of me r]
  show ?thesis unfolding e by (rule wait_end_sysinv [OF I _ _ W(1)]) (simp_all add: W(2,3) t o)
qed

lemma fire_handler_sysinv:
  assumes p: "popped C Q b s1" and c: "cause s1 b" and nt: "\<And>t. b \<noteq> TM_TSK t"
    and I: "objinv C M Q s" and f: "timer_frame s s1"
  shows "sysinv C (callback_1 C me b s1)"
proof -
  have id: "idle_block b s1" by (rule popped_idle [OF p nt])
  have "tinv {} (callback_1 C me b s1) \<and> timer_frame s1 (callback_1 C me b s1)"
  proof (cases b)
    case (TM_CYC i)
    let ?tm = "evttim (cyc s1 i) + cyctim (cycinib_table C i)"
    have e: "callback_1 C me b s1 = tmevtb_enqueue_cyc i ?tm s1"
      using c by (simp add: TM_CYC callback_1_def cause_def call_cychdr_1_def)
    have "cycsta (cyc s1 i)" using c by (simp add: TM_CYC cause_def)
    from cyc_arm [OF id [unfolded TM_CYC] this e] show ?thesis by simp
  next
    case (TM_ALM i)
    have e: "callback_1 C me b s1 = call_almhdr_1 i s1"
      using c by (simp add: TM_ALM callback_1_def cause_def)
    have "tinv {} (call_almhdr_1 i s1)"
      by (rule almh.off [OF id [unfolded TM_ALM]]) (simp_all add: call_almhdr_1_def upd_handler_frame)
    then show ?thesis by (simp add: e call_almhdr_1_def upd_handler_frame)
  qed (use nt in simp)
  then have K: "kinv C {} Q (callback_1 C me b s1)" and f2: "timer_frame s (callback_1 C me b s1)"
    using popped_kinv [OF p] timer_frame_trans [OF f] by blast+
  show ?thesis by (rule timer_sysinv [OF I K f2])
qed

lemma fire_1_sysinv:
  assumes K: "kinv C {} Q s" and I: "objinv C M Q s" and top: "top_due (tevt_of s me)"
  shows "sysinv C (fire_1 C me s)"
proof -
  have n: "0 < last_index (tevt_of s me)" using top by (simp add: top_due_def)
  obtain b u where e: "evnode (tevt_of s me) 1 = (b, u)" by fastforce
  define s1 where "s1 = delete_top me s"
  note D = delete_top_popped [OF K n e, folded s1_def]
  obtain te ix where s1: "s1 = s\<lparr>tevt_of := te, tm_index := ix\<rparr>" using D(4) by blast
  have f: "fire_1 C me s = callback_1 C me b s1" using e by (simp add: fire_1_def evnode_def s1_def)
  have tf: "timer_frame s s1" using timer_frame_refl [of s] by (simp add: timer_frame_def s1)
  show ?thesis unfolding f
  proof (cases "\<exists>t. b = TM_TSK t")
    case True
    then show "sysinv C (callback_1 C me b s1)" using fire_task_sysinv [OF _ _ I] D(1,5) s1 by auto
  next
    case False
    then show "sysinv C (callback_1 C me b s1)" using fire_handler_sysinv [OF D(1,5) _ I tf] by simp
  qed
qed

lemma clock_sysinv:
  assumes K: "kinv C {} Q s" and I: "objinv C M Q s" and h: "heap_inv (f (tevt_of s me)) (tm_index s)"
    and e: "evset (f (tevt_of s me)) = evset (tevt_of s me)"
  shows "sysinv C (upd_tevt me f s)"
  by (rule same_sysinv [OF I upd_tevt_kinv [where f = f and p = me, OF K h e]]) simp_all

lemma tick_done_sysinv:
  assumes K: "kinv C {} Q s" and I: "objinv C M Q s" and n: "\<not> top_due (tevt_of s me)"
  shows "sysinv C (tick_done me s)"
proof -
  note h = tinvD(1) [OF kinvD(2) [OF K], of me]
  have nd: "\<not> EVTTIM_LE (tevt_of s me) t (current_time (tevt_of s me))" if "(b, t) \<in> evset (tevt_of s me)" for b t
    using none_due [OF h n] that by (auto simp: due_events_def due_def)
  have "heap_inv ((tevt_of s me)\<lparr>min_time := current_time (tevt_of s me)\<rparr>) (tm_index s)"
    by (rule heap_inv_shift [OF h]) (use nd in \<open>auto simp: EVTTIM_LE_def not_le intro: less_imp_le\<close>)
  then show ?thesis unfolding tick_done_def by (intro clock_sysinv [OF K I]) simp_all
qed

lemma unlock_sysinv:
  assumes K: "kinv C {} Q s" and I: "objinv C M Q s"
  shows "sysinv C (force_unlock_spin me s)"
proof -
  have "tcb_of (force_unlock_spin me s) = tcb_of s"
    by (simp add: force_unlock_spin_def Let_def upd_spn_def set_locspnid_def)
  then show ?thesis using spn_call_sysinv [OF K I, of "force_unlock_spin me s"] K force_unlock_spin_objs by simp
qed

lemma time_call_sysinv:
  assumes K: "kinv C {} Q s" and I: "objinv C M Q s" and c: "time_call C me s s'"
  shows "sysinv C s'"
  using c
proof cases
  case advance
  then show ?thesis
    using clock_sysinv [OF K I] tinvD(1) [OF kinvD(2) [OF K], of me] by (simp add: advance_def Let_def)
next
  case fire
  then show ?thesis using fire_1_sysinv [OF K I] by simp
next
  case (wait_tmout_2 t)
  then show ?thesis using wait_tmout_2_sysinv [OF K I] by simp
next
  case tick_done
  then show ?thesis using tick_done_sysinv [OF K I] by simp
qed (simp_all only: handler_services_sysinv [OF K I] call_cychdr_2_def call_almhdr_2_def unlock_sysinv [OF K I])

lemma kinv_ipi:
  assumes K: "kinv C P Q s" and i: "\<And>p. ipi s p \<Longrightarrow> i p"
  shows "kinv C P Q (s\<lparr>ipi := i, ext_ker_reqflg := x\<rparr>)"
proof -
  let ?s = "s\<lparr>ipi := i, ext_ker_reqflg := x\<rparr>"
  have "qinv {} Q ?s" by (rule qinv_frame [OF kinvD(1) [OF K]]) simp_all
  moreover have "tinv {} ?s"
    by (rule tinv_frame [OF kinvD(2) [OF K]]) (simp_all add: tm_place_def cb_ok_def same_handlers_def)
  moreover have "dinv P ?s" using kinvD(3) [OF K] i unfolding dinv_def by simp blast
  ultimately show ?thesis using kinvD(8,9) [OF K] by (simp add: kinv_def rinv_def sinv_def)
qed

text \<open>A processor that has left the kernel has no dispatch outstanding.\<close>

lemma kinv_stopped: "kinv C (insert me P) Q s \<Longrightarrow> \<not> kerflg (pcb_of s me) \<Longrightarrow> kinv C P Q s"
  by (auto simp: kinv_def dinv_def)

lemma ext_ker_ipis_eq: "ext_ker_ipis me n s = s\<lparr>ipi := ipi (ext_ker_ipis me n s)\<rparr>"
  by (induction n) (auto simp: Let_def target_ipi_raise_def)

lemma ext_ker_kinv:
  assumes K: "kinv C (insert me {}) Q s"
  shows "kinv C {} Q (snd (ext_ker C me s))" and "tcb_of (snd (ext_ker C me s)) = tcb_of s"
    and "objs (snd (ext_ker C me s)) = objs (force_unlock_spin me s)"
proof -
  let ?u = "upd_pcb me (\<lambda>b. b\<lparr>kerflg := False\<rparr>) (force_unlock_spin me s)"
  have n: "\<not> kerflg (pcb_of ?u me)" by simp
  have "kinv C (insert me (insert me {})) Q ?u" by (rule kinv_set_pcb(1)) (simp_all add: K)
  from kinv_stopped [OF kinv_stopped [OF this n] n] have Ku: "kinv C {} Q ?u" .
  let ?i = "ipi (ext_ker_ipis me (tnum_prcid C) (?u\<lparr>ext_ker_reqflg := True\<rparr>))"
  have e: "snd (ext_ker C me s) = (if ext_ker_reqflg ?u then ?u else ?u\<lparr>ipi := ?i, ext_ker_reqflg := True\<rparr>)"
    by (simp add: ext_ker_def ext_ker_request_def Let_def) (subst ext_ker_ipis_eq, simp)
  show "kinv C {} Q (snd (ext_ker C me s))" unfolding e using Ku kinv_ipi [OF Ku, of ?i True] by simp
  show "tcb_of (snd (ext_ker C me s)) = tcb_of s" "objs (snd (ext_ker C me s)) = objs (force_unlock_spin me s)"
    unfolding e by (simp_all add: force_unlock_spin_def Let_def upd_spn_def set_locspnid_def)
qed

lemma ext_ker_sysinv:
  assumes K: "kinv C (insert me {}) Q s" and I: "objinv C M Q s0" and t: "tcb_of s = tcb_of s0" and o: "objs s = objs s0"
  shows "sysinv C (snd (ext_ker C me s))"
proof -
  note E = ext_ker_kinv [OF K]
  obtain g where "objs (force_unlock_spin me s) = (objs s)\<lparr>spncb_of := g\<rparr>" using force_unlock_spin_objs by blast
  then have "objs (snd (ext_ker C me s)) = (objs s0)\<lparr>spncb_of := g\<rparr>" using E(3) o by simp
  moreover have "keeps {} Q s0 Q (snd (ext_ker C me s))" by (simp add: keeps_def E(2) t)
  ultimately show ?thesis using ext_step_sysinv [OF I] E(1) unfolding ext_step_def by blast
qed

lemma ret_int_sysinv:
  assumes K: "kinv C {} Q s" and I: "objinv C M Q s" and h: "in_handler me s"
  shows "sysinv C (ret_int me s)" and "sysinv C (ret_exc spnid locked me s)"
proof -
  let ?f = "force_unlock_spin me s"
  have Kf: "kinv C {} Q ?f" and hf: "in_handler me ?f" using K h by simp_all
  note R = ret_int_1_kinv [OF Kf hf] and R0 = ret_int_1_kinv [OF K h]
  have t: "tcb_of ?f = tcb_of s"
    by (simp add: force_unlock_spin_def Let_def upd_spn_def set_locspnid_def)
  have c: "tcb_of (set_cpu_lock me x r) = tcb_of r" "objs (set_cpu_lock me x r) = objs r" for x r
    by (simp_all add: set_cpu_lock_def)
  have "sysinv C (set_cpu_lock me x (ret_int_1 me ?f))" for x
    by (rule spn_call_sysinv [OF K I]) (simp_all add: R c t force_unlock_spin_objs)
  moreover have "sysinv C (set_cpu_lock me x (ret_int_1 me s))" for x
    by (rule same_sysinv [OF I]) (simp_all add: R0 c)
  ultimately show "sysinv C (ret_int me s)" "sysinv C (ret_exc spnid locked me s)"
    by (simp_all add: ret_int_def ret_exc_def)
qed

lemma int_step_sysinv:
  assumes K: "kinv C {} Q s" and I: "objinv C M Q s" and c: "int_step C me s s'"
  shows "sysinv C s'"
  using c
proof cases
  case int_enter
  then show ?thesis using same_sysinv [OF I int_enter_kinv(1) [OF K], of me] by (simp add: int_enter_def)
next
  case ret_int
  then show ?thesis using ret_int_sysinv(1) [OF K I] by simp
next
  case (ret_exc spnid locked)
  then show ?thesis using ret_int_sysinv(2) [OF K I] by simp
next
  case idle_loop
  have "tcb_of (idle_loop me s) = tcb_of s" "objs (idle_loop me s) = objs s"
    by (simp_all add: idle_loop_def dispatch_def)
  then show ?thesis using same_sysinv [OF I idle_loop_kinv [OF K, of me]] idle_loop by simp
next
  case ipi_handler
  let ?c = "target_ipi_clear me s"
  have t: "tcb_of ?c = tcb_of s" "objs ?c = objs s" "ext_ker_reqflg ?c = ext_ker_reqflg s"
    by (simp_all add: target_ipi_clear_def)
  show ?thesis
  proof (cases "ext_ker_reqflg s")
    case True
    then have "s' = snd (ext_ker C me ?c)" using ipi_handler by (simp add: ipi_handler_def Let_def t)
    then show ?thesis using ext_ker_sysinv [OF target_ipi_clear_kinv [OF K] I t(1,2)] by simp
  next
    case False
    have "s' = set_reqflg me ?c" using ipi_handler False by (simp add: ipi_handler_def Let_def t)
    then show ?thesis
      using same_sysinv [OF I ipi_handler_kinv [OF K False], of me] ipi_handler(1) t by (simp add: set_reqflg_def)
  qed
next
  case irq_ipi
  then show ?thesis using same_sysinv [OF I irq_ipi_kinv [OF K, of me]] by simp
next
  case ext_ker
  have "kinv C (insert me {}) Q s" using kinv_set_pcb(1) [OF K, of "\<lambda>b. b" me] by (simp add: upd_pcb_def)
  then show ?thesis using ext_ker_sysinv [OF _ I refl refl] ext_ker by simp
qed

section \<open>The reachable states\<close>

lemma sys_step_sysinv:
  assumes S: "sysinv C s" and C: "sys_cfg C" and c: "sys_step C s s'"
  shows "sysinv C s'"
proof -
  obtain Q M where K: "kinv C {} Q s" and I: "objinv C M Q s" using S by (auto simp: sysinv_def)
  from c show ?thesis
  proof cases
    case (start me)
    note T = sta_ker_2_kinv [OF K, of me]
    show ?thesis using same_sysinv [OF I T(1,4,5)] start by simp
  next
    case (manage_call me)
    then show ?thesis using manage_call_sysinv [OF K I C] by simp
  qed (erule sem_call_sysinv [OF K I C] flg_call_sysinv [OF K I] dtq_call_sysinv [OF K I] pdq_call_sysinv [OF K I]
      mbx_call_sysinv [OF K I] mpf_call_sysinv [OF K I C] sync_call_sysinv [OF K I] sys_call_sysinv [OF K I]
      time_call_sysinv [OF K I] int_step_sysinv [OF K I])+
qed

lemma cold_no_waiter:
  assumes K: "kinv C {} Q s" and c: "cold C D s" and h: "\<And>p i. h \<noteq> RDY p i"
  shows "Q h = []"
proof (rule ccontr)
  assume "Q h \<noteq> []"
  then obtain t where "t \<in> set (Q h)" by (cases "Q h") auto
  then have "place (tcb_of s t) = Some h" using kinvD(6) [OF K] by blast
  then show False using h by (auto simp: cold_place [OF c] split: if_splits)
qed

lemma inited_sysinv:
  assumes S: "inited C s" and C: "sys_cfg C"
  shows "sysinv C s"
proof -
  obtain Q where K: "kinv C {} Q s" and c: "cold C {..<tnum_prcid C} s" and a: "objs_at C (objs s)"
    and o: "objs_cold C (objs s)"
    using S by (auto simp: inited_def)
  note z = cold_no_waiter [OF K c]
  have q: "Q (WAITQ w) = []" "Q (RWAITQ w) = []" for w by (simp_all add: z)
  have "sem_inv C Q s i" for i
    using o sys_cfgD(3) [OF C, of i] by (auto simp: sem_inv_def q objs_cold_def sem_def dest: spec [of _ i])
  moreover have "flg_inv C Q s i" for i by (simp add: flg_inv_def q)
  moreover have "dtq_inv C Q s i" for i
  proof -
    have "dtq s i = dtq_reset (dtq s i)" using o by (simp add: objs_cold_def dtq_def)
    then show ?thesis using ring_reset(1) [of "dtqcnt (dtqinib_table C i)" "dtq s i"] by (simp add: dtq_inv_def q)
  qed
  moreover have "pdq_inv C Q s i" for i
  proof -
    have "pdq s i = pdq_reset (pdq s i)" using o by (simp add: objs_cold_def pdq_def)
    then show ?thesis using pdq_reset(1) [of "pdqcnt (pdqinib_table C i)" "pdq s i"] by (simp add: pdq_inv_def q)
  qed
  moreover have "mpf_inv C Q s i" if "i < tnum_mpf C" for i
  proof -
    have "mpf s i = mpf_reset C i (mpf s i)" using a that by (simp add: objs_at_def mpf_def)
    then show ?thesis using mpf_reset_wf [OF sys_cfgD(4) [OF C, of i], of "mpf s i"] by (simp add: mpf_inv_def q)
  qed
  moreover have "mbx_inv C (\<lambda>_. []) Q s"
    using o by (simp add: mbx_inv_def q mbx_rep_def mbx_def objs_cold_def)
  ultimately have "objinv C (\<lambda>_. []) Q s" by (simp add: objinv_def)
  then show ?thesis by (rule sysinvI [OF K])
qed

lemma reachable_sysinv:
  assumes "reachable C s" and "sys_cfg C"
  shows "sysinv C s"
  using assms
proof induction
  case (boot q order mprc)
  show ?case by (rule inited_sysinv [OF startup_inited [OF boot(1) _ boot(2,3,4)]]) (use boot sys_cfgD in blast)+
next
  case (step s s')
  then show ?case using sys_step_sysinv by blast
qed

end
