(* ===== verification/System_Properties.thy ===== *)
theory System_Properties
  imports System Sample
begin

text \<open>
  The properties of the kernel as a whole: its start, and what holds of every state it can reach,
  whatever services, handlers and ticks the processors make.
\<close>

section \<open>The start\<close>








section \<open>Every reachable state\<close>











section \<open>Handlers\<close>

text \<open>
  C4: when the outermost handler of a processor returns to the task context (\<open>ret_int\<close>), with
  dispatching enabled and no interprocessor interrupt pending, every dispatch that was requested
  meanwhile has been done: the processor runs the first task of its ready queues, with the CPU
  unlocked and no spin lock held.
\<close>

theorem outermost_handler_dispatches:
  assumes "kinv C {} Q s" and "in_handler me s" and "excpt_nest_count (pcb_of s me) = 1" and "\<not> ipi s me"
    and "dspflg (pcb_of s me)" and "kerflg (pcb_of s me)"
  shows "kinv C {} Q (ret_int me s) \<and> p_runtsk (pcb_of (ret_int me s) me) = top_task Q me \<and>
    \<not> reqflg (pcb_of (ret_int me s) me) \<and> \<not> lock_flag (pcb_of (ret_int me s) me) \<and>
    locspnid (pcb_of (ret_int me s) me) = 0 \<and> tcb_of (ret_int me s) = tcb_of s"
proof -
  let ?f = "force_unlock_spin me s"
  have K: "kinv C {} Q ?f" and h: "in_handler me ?f" using assms(1,2) by simp_all
  have p: "excpt_nest_count (pcb_of ?f me) = 1" "dspflg (pcb_of ?f me)" "kerflg (pcb_of ?f me)"
    using assms(3,5,6) by (simp_all add: force_unlock_spin_pcb)
  have i: "\<not> ipi ?f me" and t: "tcb_of ?f = tcb_of s"
    using assms(4) by (simp_all add: force_unlock_spin_def Let_def upd_spn_def set_locspnid_def)
  note D = ret_int_dispatched [OF K h p(1) i p(2,3)]
  have l: "locspnid (pcb_of (ret_int_1 me ?f) me) = 0"
    by (simp add: ret_int_1_def Let_def t_dispatch_if_def dispatch_def force_unlock_spin_pcb)
  show ?thesis
    using ret_int_kinv(1) [OF assms(1,2)] D l ret_int_1_kinv(2) [OF K h] t by (simp add: ret_int_def set_cpu_lock_def)
qed

theorem outermost_handler_dispatches_witness:
  "\<exists>s. in_handler 0 s \<and> p_runtsk (pcb_of (ret_int 0 s) 0) = Some 0"
proof -
  let ?s = "int_enter 0 sample_state"
  note E = int_enter_kinv [OF sample_kinv, of 0]
  have t: "top_task sample_queues 0 = Some 0" by (rule top_taskI [of 5 _ _ _ "[]"]) simp_all
  have f: "excpt_nest_count (pcb_of ?s 0) = 1" "\<not> ipi ?s 0" "dspflg (pcb_of ?s 0)" "kerflg (pcb_of ?s 0)"
    by (simp_all add: int_enter_def sample_state_def sample_pcb_def)
  show ?thesis
    using outermost_handler_dispatches [OF E(1,2) f] t E(2) by (intro exI [of _ ?s]) simp
qed

end
