(* ===== verification/Klock.thy ===== *)
theory Klock
  imports Kernel_Data
begin

text \<open>
  The locks of the kernel with one task lock and one object lock for each processor
  (\<open>TTYPE_KLOCK == P_KLOCK\<close>): the acquisition functions of \<open>kernel/mp.c\<close>, the lock words and the
  polling loops of \<open>arch/arm_gcc/mpcore/chip_config_tool.h\<close>, and the entry of the interrupt handler
  (\<open>arch/arm_gcc/mpcore/chip_support.S\<close>), which takes away the locks that a processor holds while it
  waits for another one.
\<close>

section \<open>Locks and the interrupt entry\<close>

datatype lock = OBJ prcix | TSK prcix

text \<open>
  What a processor does: nothing with locks; it is about to test the first lock of the second list,
  with the locks of the first list taken; the test has failed and interrupts are let in; or it has
  all the locks it asked for.
\<close>

datatype activity = Idle | Try "lock list" "lock list" | Window "lock list" "lock list" | Critical "lock list"

record lkstate =
  lock_word :: "lock \<Rightarrow> bool"
  p_firstlock :: "prcix \<Rightarrow> lock option"
  p_secondlock :: "prcix \<Rightarrow> lock option"
  cur :: "prcix \<Rightarrow> activity"
  susp :: "prcix \<Rightarrow> (lock list \<times> lock list) list"

definition x_release_lock :: "lock \<Rightarrow> lkstate \<Rightarrow> lkstate" where
  "x_release_lock l s = s\<lparr>lock_word := (lock_word s)(l := False)\<rparr>"

definition set_firstlock :: "prcix \<Rightarrow> lock option \<Rightarrow> lkstate \<Rightarrow> lkstate" where
  "set_firstlock p x s = s\<lparr>p_firstlock := (p_firstlock s)(p := x)\<rparr>"

definition set_secondlock :: "prcix \<Rightarrow> lock option \<Rightarrow> lkstate \<Rightarrow> lkstate" where
  "set_secondlock p x s = s\<lparr>p_secondlock := (p_secondlock s)(p := x)\<rparr>"

text \<open>
  \<open>release_lock\<close> of the interrupt entry.  The MPCore version stores the second \<open>NULL\<close> in
  \<open>p_firstlock\<close> again; the one of the target \<open>at91skyeye_gcc\<close> stores it in \<open>p_secondlock\<close>.
\<close>

definition release_lock_mpcore :: "prcix \<Rightarrow> lkstate \<Rightarrow> lkstate" where
  "release_lock_mpcore p s =
     (case p_firstlock s p of
        None \<Rightarrow> s
      | Some l1 \<Rightarrow>
          (let s = set_firstlock p None (x_release_lock l1 s)
           in case p_secondlock s p of
                None \<Rightarrow> s
              | Some l2 \<Rightarrow> set_firstlock p None (x_release_lock l2 s)))"

definition release_lock_at91 :: "prcix \<Rightarrow> lkstate \<Rightarrow> lkstate" where
  "release_lock_at91 p s =
     (case p_firstlock s p of
        None \<Rightarrow> s
      | Some l1 \<Rightarrow>
          (let s = set_firstlock p None (x_release_lock l1 s)
           in case p_secondlock s p of
                None \<Rightarrow> s
              | Some l2 \<Rightarrow> set_secondlock p None (x_release_lock l2 s)))"

section \<open>The acquisition functions\<close>

text \<open>
  The order in which \<open>t_acquire_dual_tsk_lock\<close>, its variants for handlers and
  \<open>t_acquire_nested_dual_tsk_lock\<close> take the task locks of two processors.
\<close>

definition dual_order :: "prcix \<Rightarrow> prcix \<Rightarrow> lock list" where
  "dual_order src dst =
     (if ID_PRC dst < ID_PRC src then [TSK dst, TSK src]
      else if ID_PRC src < ID_PRC dst then [TSK src, TSK dst]
      else [TSK src])"

text \<open>
  \<open>taken\<close>: the test has succeeded.  \<open>p_firstlock\<close> and \<open>p_secondlock\<close> point to the locks taken while
  there is still one to take; an acquisition in two stages sets \<open>p_firstlock\<close> back to \<open>NULL\<close> at its
  end, one in three stages \<open>p_secondlock\<close> too, and one in a single stage touches neither.
\<close>

definition taken :: "prcix \<Rightarrow> lock list \<Rightarrow> lock \<Rightarrow> lock list \<Rightarrow> lkstate \<Rightarrow> lkstate" where
  "taken p got l todo s =
     (let s = s\<lparr>lock_word := (lock_word s)(l := True)\<rparr> in
      if todo = [] then
        (let s = (if length got = 2 then set_secondlock p None s else s);
             s = (if got = [] then s else set_firstlock p None s)
         in s\<lparr>cur := (cur s)(p := Critical (got @ [l]))\<rparr>)
      else
        (let s = (if got = [] then set_firstlock p (Some l) s else set_secondlock p (Some l) s)
         in s\<lparr>cur := (cur s)(p := Try (got @ [l]) todo)\<rparr>))"

text \<open>After the window \<open>x_acquire_nested_lock\<close> finds out whether an interrupt has taken its locks.\<close>

definition checked :: "prcix \<Rightarrow> lock list \<Rightarrow> lock list \<Rightarrow> lkstate \<Rightarrow> lkstate" where
  "checked p got todo s =
     s\<lparr>cur := (cur s)(p := (if got \<noteq> [] \<and> p_firstlock s p = None then Idle else Try got todo))\<rparr>"

text \<open>
  The steps of one processor.  \<open>R\<close> is the release code of the interrupt entry; \<open>deep\<close> says whether
  the acquisition in three stages occurs, which only \<open>ter_tsk\<close> makes.  In an interrupt the current
  activity is put aside; handlers and other tasks run before it goes on, on the same processor or,
  when the task has migrated meanwhile, on another one.
\<close>

inductive lk_step :: "(prcix \<Rightarrow> lkstate \<Rightarrow> lkstate) \<Rightarrow> bool \<Rightarrow> lkstate \<Rightarrow> lkstate \<Rightarrow> bool" for R deep where
  acquire: "cur s p = Idle \<Longrightarrow> plan = [OBJ q] \<or> plan = [TSK q] \<or> plan = dual_order q r \<Longrightarrow>
    lk_step R deep s (s\<lparr>cur := (cur s)(p := Try [] plan)\<rparr>)"
| nest: "cur s p = Critical [OBJ q] \<Longrightarrow> plan = [TSK r] \<or> deep \<and> plan = dual_order r r' \<Longrightarrow>
    lk_step R deep s (set_firstlock p (Some (OBJ q)) (s\<lparr>cur := (cur s)(p := Try [OBJ q] plan)\<rparr>))"
| take: "cur s p = Try got (l # todo) \<Longrightarrow> \<not> lock_word s l \<Longrightarrow> lk_step R deep s (taken p got l todo s)"
| busy: "cur s p = Try got (l # todo) \<Longrightarrow> lock_word s l \<Longrightarrow>
    lk_step R deep s (s\<lparr>cur := (cur s)(p := Window got (l # todo))\<rparr>)"
| irq_idle: "cur s p = Idle \<Longrightarrow> lk_step R deep s (R p s)"
| irq_window: "cur s p = Window got todo \<Longrightarrow>
    lk_step R deep s ((R p s)\<lparr>cur := (cur s)(p := Idle), susp := (susp s)(p := (got, todo) # susp s p)\<rparr>)"
| resume: "cur s p = Idle \<Longrightarrow> susp s p = xs @ (got, todo) # ys \<Longrightarrow>
    lk_step R deep s (s\<lparr>cur := (cur s)(p := Window got todo), susp := (susp s)(p := xs @ ys)\<rparr>)"
| migrate: "susp s p = xs @ e # ys \<Longrightarrow> q \<noteq> p \<Longrightarrow>
    lk_step R deep s (s\<lparr>susp := (susp s)(p := xs @ ys, q := e # susp s q)\<rparr>)"
| check: "cur s p = Window got todo \<Longrightarrow> lk_step R deep s (checked p got todo s)"
| release: "cur s p = Critical (xs @ l # ys) \<Longrightarrow>
    lk_step R deep s ((x_release_lock l s)\<lparr>cur := (cur s)(p := (if xs @ ys = [] then Idle else Critical (xs @ ys)))\<rparr>)"

definition lk_init :: lkstate where
  "lk_init = \<lparr>lock_word = (\<lambda>_. False), p_firstlock = (\<lambda>_. None), p_secondlock = (\<lambda>_. None),
     cur = (\<lambda>_. Idle), susp = (\<lambda>_. [])\<rparr>"

inductive lk_reach :: "(prcix \<Rightarrow> lkstate \<Rightarrow> lkstate) \<Rightarrow> bool \<Rightarrow> lkstate \<Rightarrow> bool" for R deep where
  init: "lk_reach R deep lk_init"
| step: "lk_reach R deep s \<Longrightarrow> lk_step R deep s s' \<Longrightarrow> lk_reach R deep s'"

section \<open>Mutual exclusion\<close>

text \<open>The locks a processor holds: an interrupt in the window may have taken them away.\<close>

definition holds :: "lkstate \<Rightarrow> prcix \<Rightarrow> lock set" where
  "holds s p = (case cur s p of
     Idle \<Rightarrow> {} | Try got _ \<Rightarrow> set got
   | Window got _ \<Rightarrow> if p_firstlock s p = None then {} else set got | Critical ls \<Rightarrow> set ls)"

fun lk_rank :: "lock \<Rightarrow> nat" where
  "lk_rank (OBJ p) = 0" | "lk_rank (TSK p) = Suc p"

definition rising :: "lock list \<Rightarrow> bool" where
  "rising ls \<longleftrightarrow> sorted_wrt (\<lambda>a b. lk_rank a < lk_rank b) ls"

fun nth_lock :: "nat \<Rightarrow> lock list \<Rightarrow> lock option" where
  "nth_lock n ls = (if n < length ls then Some (ls ! n) else None)"

definition pointers :: "lkstate \<Rightarrow> prcix \<Rightarrow> lock list \<Rightarrow> bool" where
  "pointers s p got \<longleftrightarrow> p_firstlock s p = nth_lock 0 got \<and> p_secondlock s p = nth_lock 1 got"

definition act_ok :: "bool \<Rightarrow> lkstate \<Rightarrow> prcix \<Rightarrow> bool" where
  "act_ok deep s p = (case cur s p of
     Idle \<Rightarrow> pointers s p []
   | Try got todo \<Rightarrow> todo \<noteq> [] \<and> rising (got @ todo) \<and> pointers s p got \<and>
       length got + length todo \<le> (if deep then 3 else 2)
   | Window got todo \<Rightarrow> todo \<noteq> [] \<and> rising (got @ todo) \<and> (pointers s p got \<or> pointers s p []) \<and>
       length got + length todo \<le> (if deep then 3 else 2)
   | Critical ls \<Rightarrow> pointers s p [] \<and> ls \<noteq> [] \<and> rising ls)"

definition lk_inv :: "bool \<Rightarrow> lkstate \<Rightarrow> bool" where
  "lk_inv deep s \<longleftrightarrow> (\<forall>p. act_ok deep s p) \<and>
     (\<forall>p. \<forall>(got, todo) \<in> set (susp s p). todo \<noteq> [] \<and> rising (got @ todo) \<and>
        length got + length todo \<le> (if deep then 3 else 2)) \<and>
     (\<forall>p. \<forall>l \<in> holds s p. lock_word s l) \<and>
     (\<forall>p q. p \<noteq> q \<longrightarrow> holds s p \<inter> holds s q = {})"

lemma lk_invI:
  assumes "\<And>p. act_ok deep s p" and "\<And>p got todo. (got, todo) \<in> set (susp s p) \<Longrightarrow> todo \<noteq> [] \<and> rising (got @ todo) \<and>
      length got + length todo \<le> (if deep then 3 else 2)"
    and "\<And>p l. l \<in> holds s p \<Longrightarrow> lock_word s l" and "\<And>p q. p \<noteq> q \<Longrightarrow> holds s p \<inter> holds s q = {}"
  shows "lk_inv deep s"
  using assms unfolding lk_inv_def by blast

lemma lk_invD:
  assumes "lk_inv deep s"
  shows "act_ok deep s p" and "(got, todo) \<in> set (susp s p) \<Longrightarrow> todo \<noteq> [] \<and> rising (got @ todo) \<and>
      length got + length todo \<le> (if deep then 3 else 2)"
    and "l \<in> holds s p \<Longrightarrow> lock_word s l" and "p \<noteq> q \<Longrightarrow> holds s p \<inter> holds s q = {}"
  using assms unfolding lk_inv_def by blast+

text \<open>A step of the processor \<open>p\<close> has to account for \<open>p\<close> and for the lock words.\<close>

lemma lk_inv_local:
  assumes I: "lk_inv deep s"
    and other: "\<And>q. q \<noteq> p \<Longrightarrow> cur s' q = cur s q \<and> susp s' q = susp s q \<and> p_firstlock s' q = p_firstlock s q \<and>
      p_secondlock s' q = p_secondlock s q"
    and self: "act_ok deep s' p"
    and susp: "\<And>got todo. (got, todo) \<in> set (susp s' p) \<Longrightarrow> todo \<noteq> [] \<and> rising (got @ todo) \<and>
      length got + length todo \<le> (if deep then 3 else 2)"
    and word: "\<And>l. l \<in> holds s' p \<Longrightarrow> lock_word s' l"
      "\<And>q l. q \<noteq> p \<Longrightarrow> l \<in> holds s q \<Longrightarrow> lock_word s' l \<and> l \<notin> holds s' p"
  shows "lk_inv deep s'"
proof -
  have h: "holds s' q = holds s q" if "q \<noteq> p" for q using other [OF that] by (cases "cur s q") (simp_all add: holds_def)
  have "act_ok deep s' q" for q
  proof (cases "q = p")
    case False
    then show ?thesis using other [OF False] lk_invD(1) [OF I, of q]
      by (cases "cur s q") (simp_all add: act_ok_def pointers_def)
  qed (use self in simp)
  moreover have "todo \<noteq> [] \<and> rising (got @ todo) \<and> length got + length todo \<le> (if deep then 3 else 2)"
    if "(got, todo) \<in> set (susp s' q)" for q got todo
    using that other [of q] susp lk_invD(2) [OF I, of got todo q] by (cases "q = p") auto
  moreover have "lock_word s' l" if "l \<in> holds s' q" for q l
    using that h [of q] word(1) [of l] word(2) [of q l] by (cases "q = p") auto
  moreover have "holds s' a \<inter> holds s' b = {}" if "a \<noteq> b" for a b
    using that h [of a] h [of b] word(2) lk_invD(4) [OF I that] by (cases "a = p"; cases "b = p") auto
  ultimately show ?thesis by (intro lk_invI) blast+
qed

lemma lk_updates [simp]:
  "lock_word (x_release_lock l s) = (lock_word s)(l := False)" "cur (x_release_lock l s) = cur s"
  "susp (x_release_lock l s) = susp s" "p_firstlock (x_release_lock l s) = p_firstlock s"
  "p_secondlock (x_release_lock l s) = p_secondlock s"
  "lock_word (set_firstlock p x s) = lock_word s" "cur (set_firstlock p x s) = cur s"
  "susp (set_firstlock p x s) = susp s" "p_firstlock (set_firstlock p x s) = (p_firstlock s)(p := x)"
  "p_secondlock (set_firstlock p x s) = p_secondlock s"
  "lock_word (set_secondlock p x s) = lock_word s" "cur (set_secondlock p x s) = cur s"
  "susp (set_secondlock p x s) = susp s" "p_firstlock (set_secondlock p x s) = p_firstlock s"
  "p_secondlock (set_secondlock p x s) = (p_secondlock s)(p := x)"
  by (simp_all add: x_release_lock_def set_firstlock_def set_secondlock_def)

text \<open>The release codes that work: the right one, and the other where no second lock is ever noted.\<close>

definition sound_release :: "(prcix \<Rightarrow> lkstate \<Rightarrow> lkstate) \<Rightarrow> bool \<Rightarrow> bool" where
  "sound_release R deep \<longleftrightarrow> R = release_lock_at91 \<or> \<not> deep \<and> R = release_lock_mpcore"

lemma sound_release:
  assumes R: "sound_release R deep" and p: "pointers s p got" and n: "length got \<le> (if deep then 2 else 1)"
  shows "p_firstlock (R p s) = (p_firstlock s)(p := None)" and "p_secondlock (R p s) = (p_secondlock s)(p := None)"
    and "lock_word (R p s) l = (lock_word s l \<and> l \<notin> set got)"
    and "cur (R p s) = cur s" and "susp (R p s) = susp s"
proof -
  have e: "R p s = release_lock_at91 p s"
    using R p n by (auto simp: sound_release_def release_lock_at91_def release_lock_mpcore_def pointers_def
        split: option.splits if_splits)
  consider "got = []" | a where "got = [a]" | a b where "got = [a, b]"
  proof (cases got)
    case (Cons a as)
    then show ?thesis using that n by (cases as) (auto split: if_splits)
  qed (use that in simp)
  then have "p_firstlock (R p s) = (p_firstlock s)(p := None) \<and> p_secondlock (R p s) = (p_secondlock s)(p := None) \<and>
      lock_word (R p s) l = (lock_word s l \<and> l \<notin> set got) \<and> cur (R p s) = cur s \<and> susp (R p s) = susp s"
    unfolding e by cases (use p in \<open>auto simp: release_lock_at91_def pointers_def fun_upd_idem\<close>)
  then show "p_firstlock (R p s) = (p_firstlock s)(p := None)" "p_secondlock (R p s) = (p_secondlock s)(p := None)"
    "lock_word (R p s) l = (lock_word s l \<and> l \<notin> set got)" "cur (R p s) = cur s" "susp (R p s) = susp s"
    by blast+
qed

lemma rising_plans: "rising [OBJ q]" "rising [TSK q]" "rising (dual_order q r)" "rising (OBJ o' # [TSK q])"
  "rising (OBJ o' # dual_order q r)" "dual_order q r \<noteq> []" "length (dual_order q r) \<le> 2"
  by (auto simp: rising_def dual_order_def ID_PRC_def)

lemma lk_step_inv:
  assumes I: "lk_inv deep s" and R: "sound_release R deep" and c: "lk_step R deep s s'"
  shows "lk_inv deep s'"
proof -
  note A = lk_invD(1) [OF I] and S = lk_invD(2) [OF I] and W = lk_invD(3) [OF I] and D = lk_invD(4) [OF I]
  from c show ?thesis
  proof cases
    case (acquire p plan q r)
    have pl: "plan \<noteq> []" "rising plan" "length plan \<le> 2" using acquire(3) by (elim disjE; simp add: rising_plans)+
    show ?thesis
      by (rule lk_inv_local [OF I, of p])
        (use acquire(1,2) A [of p] S W pl in \<open>auto simp: act_ok_def pointers_def holds_def\<close>)
  next
    case (nest p q plan r r')
    have pl: "plan \<noteq> []" "rising (OBJ q # plan)" "length plan \<le> (if deep then 2 else 1)"
      using nest(3) by (elim disjE; simp add: rising_plans)+
    have h: "holds s p = {OBJ q}" using nest(2) by (simp add: holds_def)
    have h': "holds s' p = {OBJ q}" using nest(1) by (simp add: holds_def)
    show ?thesis
    proof (rule lk_inv_local [OF I, of p])
      show "act_ok deep s' p" using nest(1,2) A [of p] pl by (auto simp: act_ok_def pointers_def)
      show "lock_word s' l \<and> l \<notin> holds s' p" if "q' \<noteq> p" "l \<in> holds s q'" for q' l
        using W [OF that(2)] D [OF that(1)] that(2) h h' nest(1) by auto
      show "lock_word s' l" if "l \<in> holds s' p" for l using W [of l p] that h h' nest(1) by simp
    qed (use nest(1) S in auto)
  next
    case (take p got l todo)
    have a: "rising (got @ l # todo)" "pointers s p got" "length got + length (l # todo) \<le> (if deep then 3 else 2)"
      using A [of p] take(2) by (simp_all add: act_ok_def)
    have h: "holds s p = set got" using take(2) by (simp add: holds_def)
    have h': "holds s' p = insert l (set got)" using take(1) by (simp add: taken_def Let_def holds_def)
    have w: "lock_word s' = (lock_word s)(l := True)" "susp s' = susp s" using take(1) by (simp_all add: taken_def Let_def)
    have o: "cur s' q = cur s q \<and> p_firstlock s' q = p_firstlock s q \<and> p_secondlock s' q = p_secondlock s q" if "q \<noteq> p" for q
      using take(1) that by (simp add: taken_def Let_def)
    show ?thesis
    proof (rule lk_inv_local [OF I, of p])
      show "act_ok deep s' p"
        using take(1) a by (cases got; cases "tl got") (auto simp: act_ok_def taken_def Let_def pointers_def nth_append split: if_splits)
      show "lock_word s' k \<and> k \<notin> holds s' p" if "q \<noteq> p" "k \<in> holds s q" for q k
        using W [OF that(2)] D [OF that(1)] that(2) h h' w take(3) by auto
      show "lock_word s' k" if "k \<in> holds s' p" for k using W [of k p] that h h' w by auto
    qed (use w(2) o S in auto)
  next
    case (busy p got l todo)
    have h: "holds s p = set got" using busy(2) by (simp add: holds_def)
    have h': "holds s' p \<subseteq> set got" using busy(1) by (auto simp: holds_def)
    show ?thesis
    proof (rule lk_inv_local [OF I, of p])
      show "act_ok deep s' p" using busy(1,2) A [of p] by (auto simp: act_ok_def pointers_def)
      show "lock_word s' k \<and> k \<notin> holds s' p" if "q \<noteq> p" "k \<in> holds s q" for q k
        using W [OF that(2)] D [OF that(1)] that(2) h h' busy(1) by auto
      show "lock_word s' k" if "k \<in> holds s' p" for k using W [of k p] that h h' busy(1) by auto
    qed (use busy(1) S in auto)
  next
    case (irq_idle p)
    have a: "pointers s p []" using A [of p] irq_idle(2) by (simp add: act_ok_def)
    note r = sound_release [OF R a, simplified]
    show ?thesis
    proof (rule lk_inv_local [OF I, of p])
      show "act_ok deep s' p" using irq_idle r by (simp add: act_ok_def pointers_def)
      show "lock_word s' k \<and> k \<notin> holds s' p" if "q \<noteq> p" "k \<in> holds s q" for q k
        using W [OF that(2)] irq_idle r by (simp add: holds_def)
      show "lock_word s' k" if "k \<in> holds s' p" for k using that irq_idle r by (simp add: holds_def)
    qed (use irq_idle S r in auto)
  next
    case (irq_window p got todo)
    have a: "todo \<noteq> []" "rising (got @ todo)" "length got + length todo \<le> (if deep then 3 else 2)"
      "pointers s p got \<or> pointers s p []"
      using A [of p] irq_window(2) by (simp_all add: act_ok_def)
    have n: "length got \<le> (if deep then 2 else 1)" using a(1,3) by (cases todo) (auto split: if_splits)
    define g where "g = (if pointers s p got then got else [])"
    have pg: "pointers s p g" "length g \<le> (if deep then 2 else 1)" using a(4) n by (auto simp: g_def)
    note r = sound_release [OF R pg]
    have hp: "holds s p = set g"
      using irq_window(2) a(4) by (cases got) (auto simp: holds_def g_def pointers_def)
    have h': "holds s' p = {}" using irq_window(1) by (simp add: holds_def)
    show ?thesis
    proof (rule lk_inv_local [OF I, of p])
      show "act_ok deep s' p" using irq_window(1) r by (simp add: act_ok_def pointers_def)
      show "lock_word s' k \<and> k \<notin> holds s' p" if "q \<noteq> p" "k \<in> holds s q" for q k
        using W [OF that(2)] D [OF that(1)] that(2) hp h' irq_window(1) r(3) [of k] by auto
      show "lock_word s' k" if "k \<in> holds s' p" for k using that h' by simp
      show "todo' \<noteq> [] \<and> rising (got' @ todo') \<and> length got' + length todo' \<le> (if deep then 3 else 2)"
        if "(got', todo') \<in> set (susp s' p)" for got' todo'
        using that irq_window(1) S [of got' todo' p] a(1-3) r(5) by auto
    qed (use irq_window(1) r in auto)
  next
    case (resume p xs got todo ys)
    have a: "todo \<noteq> []" "rising (got @ todo)" "length got + length todo \<le> (if deep then 3 else 2)"
      using S [of got todo p] resume(3) by simp_all
    have n: "pointers s p []" using A [of p] resume(2) by (simp add: act_ok_def)
    have h': "holds s' p = {}" using resume(1) n by (simp add: holds_def pointers_def)
    show ?thesis
    proof (rule lk_inv_local [OF I, of p])
      show "act_ok deep s' p" using resume(1) a n by (simp add: act_ok_def pointers_def)
      show "lock_word s' k \<and> k \<notin> holds s' p" if "q \<noteq> p" "k \<in> holds s q" for q k
        using W [OF that(2)] h' resume(1) by simp
      show "lock_word s' k" if "k \<in> holds s' p" for k using that h' by simp
      show "todo' \<noteq> [] \<and> rising (got' @ todo') \<and> length got' + length todo' \<le> (if deep then 3 else 2)"
        if "(got', todo') \<in> set (susp s' p)" for got' todo'
        using that resume S [of got' todo' p] by auto
    qed (use resume(1) in auto)
  next
    case (migrate p xs e ys q)
    have h: "holds s' x = holds s x" "act_ok deep s' x = act_ok deep s x" for x
      using migrate(1) by (cases "cur s x"; simp add: holds_def act_ok_def pointers_def)+
    have mem: "(got, todo) \<in> set (susp s p) \<or> (got, todo) \<in> set (susp s x)" if "(got, todo) \<in> set (susp s' x)" for x got todo
      using that migrate(1,2) by (cases "x = p"; cases "x = q") auto
    show ?thesis
    proof (rule lk_invI)
      show "act_ok deep s' x" for x using h A by simp
      show "lock_word s' l" if "l \<in> holds s' x" for x l using W [of l x] that h migrate(1) by simp
      show "holds s' x \<inter> holds s' y = {}" if "x \<noteq> y" for x y unfolding h by (rule D [OF that])
      show "todo \<noteq> [] \<and> rising (got @ todo) \<and> length got + length todo \<le> (if deep then 3 else 2)"
        if "(got, todo) \<in> set (susp s' x)" for x got todo
        using mem [OF that] by (rule disjE) (rule S, assumption)+
    qed
  next
    case (check p got todo)
    have a: "todo \<noteq> []" "rising (got @ todo)" "length got + length todo \<le> (if deep then 3 else 2)"
      "pointers s p got \<or> pointers s p []"
      using A [of p] check(2) by (simp_all add: act_ok_def)
    have c: "cur s' p = (if got \<noteq> [] \<and> p_firstlock s p = None then Idle else Try got todo)"
      "p_firstlock s' = p_firstlock s" "p_secondlock s' = p_secondlock s" "lock_word s' = lock_word s" "susp s' = susp s"
      using check(1) by (simp_all add: checked_def)
    have h: "holds s' p = holds s p"
      using check(2) c a(4) by (cases got) (auto simp: holds_def pointers_def)
    show ?thesis
    proof (rule lk_inv_local [OF I, of p])
      show "act_ok deep s' p" using c a by (cases got) (auto simp: act_ok_def pointers_def split: if_splits)
      show "lock_word s' k \<and> k \<notin> holds s' p" if "q \<noteq> p" "k \<in> holds s q" for q k
        using W [OF that(2)] D [OF that(1)] that(2) h c(4) by auto
      show "lock_word s' k" if "k \<in> holds s' p" for k using W [of k p] that h c(4) by simp
    qed (use check(1) c S in \<open>auto simp: checked_def\<close>)
  next
    case (release p xs l ys)
    have a: "rising (xs @ l # ys)" "pointers s p []" using A [of p] release(2) by (simp_all add: act_ok_def)
    have l: "l \<notin> set xs" "l \<notin> set ys" "rising (xs @ ys)"
      using a(1) by (auto simp: rising_def sorted_wrt_append)
    have h: "holds s p = insert l (set xs \<union> set ys)" using release(2) by (auto simp: holds_def)
    have h': "holds s' p = set xs \<union> set ys" using release(1) by (auto simp: holds_def)
    show ?thesis
    proof (rule lk_inv_local [OF I, of p])
      show "act_ok deep s' p" using release(1) a(2) l(3) by (auto simp: act_ok_def pointers_def)
      show "lock_word s' k \<and> k \<notin> holds s' p" if "q \<noteq> p" "k \<in> holds s q" for q k
        using W [OF that(2)] D [OF that(1)] that(2) h h' release(1) by auto
      show "lock_word s' k" if "k \<in> holds s' p" for k using W [of k p] that h h' l release(1) by auto
    qed (use release(1) S in auto)
  qed
qed

lemma lk_reach_inv:
  assumes "lk_reach R deep s" and R: "sound_release R deep"
  shows "lk_inv deep s"
  using assms(1)
proof induction
  case init
  then show ?case by (simp add: lk_inv_def lk_init_def act_ok_def pointers_def holds_def)
next
  case (step s s')
  then show ?case using lk_step_inv R by blast
qed

section \<open>Lock order\<close>

text \<open>Among processors that wait for locks there is always one whose lock none of them holds.\<close>

definition wants :: "lkstate \<Rightarrow> prcix \<Rightarrow> lock option" where
  "wants s p = (case cur s p of
     Try _ (l # _) \<Rightarrow> Some l | Window _ (l # _) \<Rightarrow> Some l | _ \<Rightarrow> None)"

lemma wants_above:
  assumes "act_ok deep s p" and "wants s p = Some l" and "k \<in> holds s p"
  shows "lk_rank k < lk_rank l"
  using assms
  by (auto simp: act_ok_def wants_def holds_def rising_def sorted_wrt_append split: activity.splits list.splits if_splits)

lemma no_circular_wait:
  assumes I: "lk_inv deep s" and W: "finite W" "W \<noteq> {}" and w: "\<And>p. p \<in> W \<Longrightarrow> wants s p \<noteq> None"
  shows "\<exists>p \<in> W. \<forall>q \<in> W. the (wants s p) \<notin> holds s q"
proof (rule ccontr)
  assume n: "\<not> ?thesis"
  let ?r = "\<lambda>p. lk_rank (the (wants s p))"
  obtain p where p: "p \<in> W" "\<And>q. q \<in> W \<Longrightarrow> ?r q \<le> ?r p"
    using finite_has_maximal [of "?r ` W"] W by auto (metis imageI le_cases)
  obtain q where q: "q \<in> W" "the (wants s p) \<in> holds s q" using n p(1) by blast
  have "lk_rank (the (wants s p)) < ?r q"
    using wants_above [OF lk_invD(1) [OF I] _ q(2)] w [OF q(1)] by auto
  then show False using p(2) [OF q(1)] by simp
qed

section \<open>The stale pointer\<close>

text \<open>
  What one has to know of a state to follow a schedule of the processors 0 and 1 in which 0 is the
  one that is interrupted: the activities, the pointers of 0 and the lock words involved.
\<close>

definition snap :: "(prcix \<Rightarrow> lkstate \<Rightarrow> lkstate) \<Rightarrow> activity \<Rightarrow> activity \<Rightarrow> lock option \<Rightarrow> lock option \<Rightarrow> bool \<Rightarrow> bool \<Rightarrow> bool \<Rightarrow> lkstate \<Rightarrow> bool" where
  "snap R c0 c1 f g o0 t0 t1 s \<longleftrightarrow> lk_reach R True s \<and> cur s 0 = c0 \<and> cur s (Suc 0) = c1 \<and>
     p_firstlock s 0 = f \<and> p_secondlock s 0 = g \<and>
     lock_word s (OBJ 0) = o0 \<and> lock_word s (TSK 0) = t0 \<and> lock_word s (TSK (Suc 0)) = t1"

lemma snap_next:
  assumes "snap R c0 c1 f g o0 t0 t1 s" and "lk_step R True s s'"
    and "cur s' 0 = c0'" and "cur s' (Suc 0) = c1'" and "p_firstlock s' 0 = f'" and "p_secondlock s' 0 = g'"
    and "lock_word s' (OBJ 0) = o0'" and "lock_word s' (TSK 0) = t0'" and "lock_word s' (TSK (Suc 0)) = t1'"
  shows "snap R c0' c1' f' g' o0' t0' t1' s'"
  using assms lk_reach.step by (auto simp: snap_def)

lemmas snap_facts = snap_def taken_def Let_def dual_order_def ID_PRC_def release_lock_mpcore_def

text \<open>Processor 0 is in the last stage of an acquisition in three stages, for a lock of processor 1.\<close>

lemma lock_conflict: "\<exists>s. snap R (Window [OBJ 0, TSK 0] [TSK (Suc 0)]) (Critical [TSK (Suc 0)]) (Some (OBJ 0)) (Some (TSK 0)) True True True s"
proof -
  have "snap R Idle Idle None None False False False lk_init" by (simp add: snap_def lk_reach.init) (simp add: lk_init_def)
  then obtain s where s: "snap R Idle Idle None None False False False s" by blast
  obtain s where s: "snap R Idle (Try [] [TSK (Suc 0)]) None None False False False s"
    by (rule that, rule snap_next [OF s, OF lk_step.acquire [where p = "Suc 0" and plan = "[TSK (Suc 0)]" and q = "Suc 0" and r = 0]]) (use s in \<open>simp_all add: snap_facts\<close>)
  obtain s where s: "snap R Idle (Critical [TSK (Suc 0)]) None None False False True s"
    by (rule that, rule snap_next [OF s, OF lk_step.take [where p = "Suc 0" and got = "[]" and l = "TSK (Suc 0)" and todo = "[]"]]) (use s in \<open>simp_all add: snap_facts\<close>)
  obtain s where s: "snap R (Try [] [OBJ 0]) (Critical [TSK (Suc 0)]) None None False False True s"
    by (rule that, rule snap_next [OF s, OF lk_step.acquire [where p = 0 and plan = "[OBJ 0]" and q = 0 and r = 0]]) (use s in \<open>simp_all add: snap_facts\<close>)
  obtain s where s: "snap R (Critical [OBJ 0]) (Critical [TSK (Suc 0)]) None None True False True s"
    by (rule that, rule snap_next [OF s, OF lk_step.take [where p = 0 and got = "[]" and l = "OBJ 0" and todo = "[]"]]) (use s in \<open>simp_all add: snap_facts\<close>)
  obtain s where s: "snap R (Try [OBJ 0] [TSK 0, TSK (Suc 0)]) (Critical [TSK (Suc 0)]) (Some (OBJ 0)) None True False True s"
    by (rule that, rule snap_next [OF s, OF lk_step.nest [where p = 0 and q = 0 and plan = "[TSK 0, TSK (Suc 0)]" and r = 0 and r' = "Suc 0"]]) (use s in \<open>simp_all add: snap_facts\<close>)
  obtain s where s: "snap R (Try [OBJ 0, TSK 0] [TSK (Suc 0)]) (Critical [TSK (Suc 0)]) (Some (OBJ 0)) (Some (TSK 0)) True True True s"
    by (rule that, rule snap_next [OF s, OF lk_step.take [where p = 0 and got = "[OBJ 0]" and l = "TSK 0" and todo = "[TSK (Suc 0)]"]]) (use s in \<open>simp_all add: snap_facts\<close>)
  obtain s where s: "snap R (Window [OBJ 0, TSK 0] [TSK (Suc 0)]) (Critical [TSK (Suc 0)]) (Some (OBJ 0)) (Some (TSK 0)) True True True s"
    by (rule that, rule snap_next [OF s, OF lk_step.busy [where p = 0 and got = "[OBJ 0, TSK 0]" and l = "TSK (Suc 0)" and todo = "[]"]]) (use s in \<open>simp_all add: snap_facts\<close>)
  show ?thesis using s by blast
qed

text \<open>There it is interrupted.\<close>

lemma stale_pointer_left: "\<exists>s. snap release_lock_mpcore Idle (Critical [TSK (Suc 0)]) None (Some (TSK 0)) False False True s"
proof -
  obtain s where s: "snap release_lock_mpcore (Window [OBJ 0, TSK 0] [TSK (Suc 0)]) (Critical [TSK (Suc 0)]) (Some (OBJ 0)) (Some (TSK 0)) True True True s" using lock_conflict by blast
  obtain s where s: "snap release_lock_mpcore Idle (Critical [TSK (Suc 0)]) None (Some (TSK 0)) False False True s"
    by (rule that, rule snap_next [OF s, OF lk_step.irq_window [where p = 0 and got = "[OBJ 0, TSK 0]" and todo = "[TSK (Suc 0)]"]]) (use s in \<open>simp_all add: snap_facts\<close>)
  show ?thesis using s by blast
qed

text \<open>Processor 1 acquires the other lock; the next interrupt of processor 0 in a window releases it.\<close>

lemma stale_pointer_released: "\<exists>s. snap release_lock_mpcore (Critical [TSK 0]) (Critical [TSK 0]) None (Some (TSK 0)) False True False s"
proof -
  obtain s where s: "snap release_lock_mpcore Idle (Critical [TSK (Suc 0)]) None (Some (TSK 0)) False False True s" using stale_pointer_left by blast
  obtain s where s: "snap release_lock_mpcore Idle Idle None (Some (TSK 0)) False False False s"
    by (rule that, rule snap_next [OF s, OF lk_step.release [where p = "Suc 0" and xs = "[]" and l = "TSK (Suc 0)" and ys = "[]"]]) (use s in \<open>simp_all add: snap_facts\<close>)
  obtain s where s: "snap release_lock_mpcore Idle (Try [] [TSK 0]) None (Some (TSK 0)) False False False s"
    by (rule that, rule snap_next [OF s, OF lk_step.acquire [where p = "Suc 0" and plan = "[TSK 0]" and q = 0 and r = 0]]) (use s in \<open>simp_all add: snap_facts\<close>)
  obtain s where s: "snap release_lock_mpcore Idle (Critical [TSK 0]) None (Some (TSK 0)) False True False s"
    by (rule that, rule snap_next [OF s, OF lk_step.take [where p = "Suc 0" and got = "[]" and l = "TSK 0" and todo = "[]"]]) (use s in \<open>simp_all add: snap_facts\<close>)
  obtain s where s: "snap release_lock_mpcore (Try [] [OBJ 0]) (Critical [TSK 0]) None (Some (TSK 0)) False True False s"
    by (rule that, rule snap_next [OF s, OF lk_step.acquire [where p = 0 and plan = "[OBJ 0]" and q = 0 and r = 0]]) (use s in \<open>simp_all add: snap_facts\<close>)
  obtain s where s: "snap release_lock_mpcore (Critical [OBJ 0]) (Critical [TSK 0]) None (Some (TSK 0)) True True False s"
    by (rule that, rule snap_next [OF s, OF lk_step.take [where p = 0 and got = "[]" and l = "OBJ 0" and todo = "[]"]]) (use s in \<open>simp_all add: snap_facts\<close>)
  obtain s where s: "snap release_lock_mpcore (Try [OBJ 0] [TSK 0]) (Critical [TSK 0]) (Some (OBJ 0)) (Some (TSK 0)) True True False s"
    by (rule that, rule snap_next [OF s, OF lk_step.nest [where p = 0 and q = 0 and plan = "[TSK 0]" and r = 0 and r' = 0]]) (use s in \<open>simp_all add: snap_facts\<close>)
  obtain s where s: "snap release_lock_mpcore (Window [OBJ 0] [TSK 0]) (Critical [TSK 0]) (Some (OBJ 0)) (Some (TSK 0)) True True False s"
    by (rule that, rule snap_next [OF s, OF lk_step.busy [where p = 0 and got = "[OBJ 0]" and l = "TSK 0" and todo = "[]"]]) (use s in \<open>simp_all add: snap_facts\<close>)
  obtain s where s: "snap release_lock_mpcore Idle (Critical [TSK 0]) None (Some (TSK 0)) False False False s"
    by (rule that, rule snap_next [OF s, OF lk_step.irq_window [where p = 0 and got = "[OBJ 0]" and todo = "[TSK 0]"]]) (use s in \<open>simp_all add: snap_facts\<close>)
  obtain s where s: "snap release_lock_mpcore (Try [] [TSK 0]) (Critical [TSK 0]) None (Some (TSK 0)) False False False s"
    by (rule that, rule snap_next [OF s, OF lk_step.acquire [where p = 0 and plan = "[TSK 0]" and q = 0 and r = 0]]) (use s in \<open>simp_all add: snap_facts\<close>)
  obtain s where s: "snap release_lock_mpcore (Critical [TSK 0]) (Critical [TSK 0]) None (Some (TSK 0)) False True False s"
    by (rule that, rule snap_next [OF s, OF lk_step.take [where p = 0 and got = "[]" and l = "TSK 0" and todo = "[]"]]) (use s in \<open>simp_all add: snap_facts\<close>)
  show ?thesis using s by blast
qed

end
