(* ===== verification/Lock_Properties.thy ===== *)
theory Lock_Properties
  imports Klock
begin

text \<open>
  The properties of the kernel's locks: mutual exclusion, for the release code of the interrupt entry
  that resets both lock pointers and for the other one as long as no acquisition in three stages
  occurs; the schedule that breaks it otherwise; and the absence of circular waiting.
\<close>



text \<open>
  C6: With the release code of \<open>mpcore/chip_support.S\<close>, which leaves \<open>p_secondlock\<close> pointing to a lock
  it has released, mutual exclusion fails: after an interrupted acquisition of an object lock and two
  task locks, a later interrupt releases a task lock that another processor holds, and the two
  processors are in the critical sections of that lock at the same time.
\<close>

theorem mpcore_release_breaks_exclusion:
  "\<exists>s. lk_reach release_lock_mpcore True s \<and> TSK 0 \<in> holds s 0 \<and> TSK 0 \<in> holds s 1"
  using stale_pointer_released by (auto simp: snap_def holds_def)



end
