(* ===== verification/Log_Output.thy ===== *)
theory Log_Output
  imports Prelude
begin

text \<open>
  Formatted output of the system log: \<open>library/log_output.c\<close> (\<open>convert\<close>, \<open>syslog_printf\<close>,
  \<open>syslog_print\<close>, \<open>syslog_lostmsg\<close>) and the collection of the arguments by \<open>syslog\<close> in
  \<open>library/vasyslog.c\<close>, for the 32-bit machine, on which \<open>int\<close>, \<open>long\<close> and pointers have the
  width of \<open>intptr_t\<close>.  The characters handed to \<open>putc\<close> are the value of the functions, in order.
\<close>

section \<open>Conversion of a number\<close>

text \<open>\<open>(sizeof(uintptr_t) * CHAR_BIT + 2) / 3\<close>\<close>

definition CONVERT_BUFLEN :: nat where "CONVERT_BUFLEN = (4 * 8 + 2) div 3"

definition raddec :: string where "raddec = ''0123456789''"
definition radhex :: string where "radhex = ''0123456789abcdef''"
definition radHEX :: string where "radHEX = ''0123456789ABCDEF''"

text \<open>The loop that fills \<open>buf\<close>, the lowest digit first.\<close>

function convert_digits :: "32 word \<Rightarrow> string \<Rightarrow> 32 word \<Rightarrow> string \<Rightarrow> string" where
  "convert_digits radix radchar val buf =
     (let buf = buf @ [radchar ! unat (val mod radix)];
          val = val div radix
      in if length buf < CONVERT_BUFLEN \<and> val \<noteq> 0 then convert_digits radix radchar val buf else buf)"
  by pat_completeness auto
termination by (relation "measure (\<lambda>(_, _, _, buf). CONVERT_BUFLEN - length buf)") auto

declare convert_digits.simps [simp del]

definition convert :: "32 word \<Rightarrow> 32 word \<Rightarrow> string \<Rightarrow> 32 word \<Rightarrow> bool \<Rightarrow> bool \<Rightarrow> string" where
  "convert val radix radchar width neg padzero =
     (let buf = convert_digits radix radchar val [];
          width = (if neg \<and> 0 < width then width - 1 else width)
      in (if neg \<and> padzero then ''-'' else []) @
         replicate (unat width - length buf) (if padzero then CHR ''0'' else CHR '' '') @
         (if neg \<and> \<not> padzero then ''-'' else []) @ rev buf)"

section \<open>The format string\<close>

text \<open>
  A C string is the list of its characters before the terminating \<open>NUL\<close>; \<open>fetch\<close> is the
  character under the pointer.
\<close>

definition fetch :: "string \<Rightarrow> char" where
  "fetch f = (case f of [] \<Rightarrow> CHR 0x00 | c # _ \<Rightarrow> c)"

definition is_digit :: "char \<Rightarrow> bool" where
  "is_digit c \<longleftrightarrow> 48 \<le> (of_char c :: nat) \<and> (of_char c :: nat) \<le> 57"

fun scan_width :: "32 word \<Rightarrow> string \<Rightarrow> 32 word \<times> string" where
  "scan_width width [] = (width, [])"
| "scan_width width (c # f) =
     (if is_digit c then scan_width (width * 10 + of_char c - 48) f else (width, c # f))"

text \<open>The flag, the width and the conversion character after a \<open>%\<close>; a \<open>NUL\<close> is not consumed.\<close>

definition scan_conv :: "string \<Rightarrow> bool \<times> 32 word \<times> char \<times> string" where
  "scan_conv f =
     (let (padzero, f) = (if fetch f = CHR ''0'' then (True, tl f) else (False, f));
          (width, f) = scan_width 0 f;
          f = (if fetch f = CHR ''l'' then tl f else f)
      in (padzero, width, fetch f, tl f))"

definition takes_arg :: "char \<Rightarrow> bool" where
  "takes_arg c \<longleftrightarrow> c \<in> set ''duxpXcs''"

text \<open>The cases of the \<open>switch\<close> that take an argument; \<open>str\<close> gives the string at an address.\<close>

definition conv_arg :: "(32 word \<Rightarrow> string) \<Rightarrow> char \<Rightarrow> bool \<Rightarrow> 32 word \<Rightarrow> 32 word \<Rightarrow> string" where
  "conv_arg str c padzero width val =
     (if c = CHR ''d'' then
        (if 0 \<le>s val then convert val 10 raddec width False padzero
         else convert (- val) 10 raddec width True padzero)
      else if c = CHR ''u'' then convert val 10 raddec width False padzero
      else if c = CHR ''x'' \<or> c = CHR ''p'' then convert val 16 radhex width False padzero
      else if c = CHR ''X'' then convert val 16 radHEX width False padzero
      else if c = CHR ''c'' then [char_of (unat val)]
      else str val)"

lemma scan_width_shorter: "length (snd (scan_width w f)) \<le> length f"
  by (induction w f rule: scan_width.induct) auto

lemma scan_conv_shorter: "scan_conv f = (p, w, c, f') \<Longrightarrow> length f' \<le> length f"
  using scan_width_shorter [of 0 f] scan_width_shorter [of 0 "tl f"]
  by (auto simp: scan_conv_def Let_def split: prod.splits if_splits)

text \<open>
  \<open>None\<close>: the format asks for an argument beyond the end of the array \<open>p_args\<close>.
\<close>

function syslog_printf :: "(32 word \<Rightarrow> string) \<Rightarrow> string \<Rightarrow> 32 word list \<Rightarrow> string option" where
  "syslog_printf str [] args = Some []"
| "syslog_printf str (c # f) args =
     (if c \<noteq> CHR ''%'' then map_option ((#) c) (syslog_printf str f args)
      else (let (padzero, width, c, f) = scan_conv f in
        if takes_arg c then
          (case args of
             [] \<Rightarrow> None
           | val # args \<Rightarrow> map_option ((@) (conv_arg str c padzero width val)) (syslog_printf str f args))
        else if c = CHR ''%'' then map_option ((#) (CHR ''%'')) (syslog_printf str f args)
        else syslog_printf str f args))"
  by pat_completeness auto
termination
  by (relation "measure (\<lambda>(_, f, _). length f)") (auto dest!: scan_conv_shorter [OF sym])

section \<open>The digits\<close>

text \<open>The digits of a number in base \<open>b\<close>, the lowest first, and the number they stand for.\<close>

function digits :: "nat \<Rightarrow> nat \<Rightarrow> nat list" where
  "digits b n = n mod b # (if b \<le> 1 \<or> n < b then [] else digits b (n div b))"
  by pat_completeness auto
termination by (relation "measure snd") (auto simp: div_less_dividend)

declare digits.simps [simp del]

definition digits_val :: "nat \<Rightarrow> nat list \<Rightarrow> nat" where
  "digits_val b ds = foldr (\<lambda>d a. d + b * a) ds 0"

lemma digits_val: "1 < b \<Longrightarrow> digits_val b (digits b n) = n"
  by (induction b n rule: digits.induct) (subst digits.simps, auto simp: digits_val_def)

lemma digits_bound: "1 < b \<Longrightarrow> d \<in> set (digits b n) \<Longrightarrow> d < b"
  by (induction b n rule: digits.induct) (subst (asm) (2) digits.simps, auto split: if_splits)

lemma digits_length: "1 < b \<Longrightarrow> n < b ^ Suc k \<Longrightarrow> length (digits b n) \<le> Suc k"
proof (induction k arbitrary: n)
  case 0 then show ?case by (subst digits.simps) simp
next
  case (Suc k)
  have "n div b < b ^ Suc k" using Suc.prems by (simp add: div_less_iff_less_mult mult.commute)
  then show ?case using Suc.IH [OF Suc.prems(1)] by (subst digits.simps) simp
qed

lemma digits_nonempty [simp]: "digits b n \<noteq> []" by (subst digits.simps) simp

lemma digits_no_zero: "1 < b \<Longrightarrow> 0 < n \<Longrightarrow> last (digits b n) \<noteq> 0"
proof (induction b n rule: digits.induct)
  case (1 b n)
  then show ?case by (subst digits.simps) (auto simp: div_greater_zero_iff)
qed

text \<open>The buffer is long enough, so \<open>convert\<close> computes all of them.\<close>

lemma convert_digits_eq:
  assumes "1 < unat radix" and "length buf + length (digits (unat radix) (unat val)) \<le> CONVERT_BUFLEN"
  shows "convert_digits radix radchar val buf = buf @ map (\<lambda>d. radchar ! d) (digits (unat radix) (unat val))"
  using assms
proof (induction radix radchar val buf rule: convert_digits.induct)
  case (1 radix radchar val buf)
  have z: "val div radix = 0 \<longleftrightarrow> unat val < unat radix"
    using 1(2) by (metis div_eq_0_iff unat_div unat_eq_zero not_less_zero)
  show ?case
  proof (cases "unat val < unat radix")
    case True
    then show ?thesis using z by (simp add: convert_digits.simps [of radix radchar val] digits.simps [of "unat radix"] unat_mod)
  next
    case False
    have d: "digits (unat radix) (unat val) = unat val mod unat radix # digits (unat radix) (unat (val div radix))"
      using False 1(2) by (subst digits.simps) (simp add: unat_div)
    have "1 \<le> length (digits (unat radix) (unat (val div radix)))" by (simp add: Suc_le_eq)
    then have l: "length buf + 1 < CONVERT_BUFLEN" using 1(3) d by simp
    show ?thesis
      using 1(1) [OF refl refl] 1(2,3) l False z d
      by (subst convert_digits.simps) (simp add: unat_mod)
  qed
qed

lemma convert_digits_all:
  assumes r: "radix = 10 \<or> radix = 16"
  shows "convert_digits radix radchar val [] = map (\<lambda>d. radchar ! d) (digits (unat radix) (unat val))"
proof (rule convert_digits_eq [of radix "[]", simplified])
  show "Suc 0 < unat radix" using r by auto
  have "unat val < 2 ^ 32" using unsigned_less [of val] by simp
  then have "unat val < unat radix ^ Suc 9" using r by auto
  then show "length (digits (unat radix) (unat val)) \<le> CONVERT_BUFLEN"
    using digits_length [of "unat radix" "unat val" 9] r by (auto simp: CONVERT_BUFLEN_def)
qed

section \<open>Reading a number back\<close>

definition digit_value :: "char \<Rightarrow> nat" where
  "digit_value c = (let n = of_char c in if n \<le> 57 then n - 48 else if n \<le> 70 then n - 55 else n - 87)"

definition read_digits :: "nat \<Rightarrow> string \<Rightarrow> nat" where
  "read_digits b s = foldl (\<lambda>a c. a * b + digit_value c) 0 s"

text \<open>Leading blanks are skipped, then there may be a sign.\<close>

definition read_number :: "nat \<Rightarrow> string \<Rightarrow> int" where
  "read_number b s =
     (let s = dropWhile (\<lambda>c. c = CHR '' '') s
      in if fetch s = CHR ''-'' then - int (read_digits b (tl s)) else int (read_digits b s))"

definition radix_chars :: "32 word \<Rightarrow> string \<Rightarrow> bool" where
  "radix_chars radix radchar \<longleftrightarrow> radix = 10 \<and> radchar = raddec \<or> radix = 16 \<and> radchar \<in> {radhex, radHEX}"

lemma radix_chars:
  assumes r: "radix_chars radix radchar" and d: "d < unat radix"
  shows "digit_value (radchar ! d) = d \<and> radchar ! d \<noteq> CHR '' '' \<and> radchar ! d \<noteq> CHR ''-''"
proof -
  have "\<forall>d \<in> set [0..<10]. digit_value (raddec ! d) = d \<and> raddec ! d \<noteq> CHR '' '' \<and> raddec ! d \<noteq> CHR ''-''"
    "\<forall>d \<in> set [0..<16]. digit_value (radhex ! d) = d \<and> radhex ! d \<noteq> CHR '' '' \<and> radhex ! d \<noteq> CHR ''-''"
    "\<forall>d \<in> set [0..<16]. digit_value (radHEX ! d) = d \<and> radHEX ! d \<noteq> CHR '' '' \<and> radHEX ! d \<noteq> CHR ''-''"
    by code_simp+
  then show ?thesis using r d by (auto simp: radix_chars_def)
qed

lemma read_digits_zeros: "read_digits b (replicate k (CHR ''0'') @ s) = read_digits b s"
  by (induction k) (auto simp: read_digits_def digit_value_def Let_def)

lemma read_digits_rev:
  assumes "\<And>d. d \<in> set ds \<Longrightarrow> digit_value (f d) = d"
  shows "read_digits b (rev (map f ds)) = digits_val b ds"
  using assms by (induction ds) (auto simp: read_digits_def digits_val_def mult.commute)

lemma fetch_append [simp]: "fetch (c # s) = c" by (simp add: fetch_def)

lemma convert_read:
  assumes r: "radix_chars radix radchar"
  shows "read_number (unat radix) (convert val radix radchar width neg padzero) = (if neg then - uint val else uint val)"
proof -
  define ds where "ds = digits (unat radix) (unat val)"
  define s where "s = rev (map (\<lambda>d. radchar ! d) ds)"
  have r2: "radix = 10 \<or> radix = 16" "1 < unat radix" using r by (auto simp: radix_chars_def)
  have D: "d < unat radix" if "d \<in> set ds" for d using that digits_bound r2(2) by (simp add: ds_def)
  have v: "read_digits (unat radix) s = unat val"
    using read_digits_rev [of ds "\<lambda>d. radchar ! d"] radix_chars [OF r] D digits_val [OF r2(2)] by (simp add: s_def ds_def)
  obtain c t where ct: "s = c # t" by (cases s) (simp_all add: s_def ds_def)
  have "c \<in> set s" by (simp add: ct)
  then have c: "c \<noteq> CHR '' ''" "c \<noteq> CHR ''-''" using radix_chars [OF r] D by (auto simp: s_def)
  have b: "convert_digits radix radchar val [] = map (\<lambda>d. radchar ! d) ds"
    unfolding ds_def by (rule convert_digits_all [OF r2(1)])
  have u: "int (unat val) = uint val" by simp
  have z: "dropWhile (\<lambda>c. c = CHR '' '') (replicate k (CHR '' '') @ x) = dropWhile (\<lambda>c. c = CHR '' '') x" for k x
    by (induction k) auto
  have f: "dropWhile (\<lambda>c. c = CHR '' '') (replicate k (CHR ''0'') @ s) = replicate k (CHR ''0'') @ s \<and>
      fetch (replicate k (CHR ''0'') @ s) \<noteq> CHR ''-''" for k
    using c by (cases k) (simp_all add: ct)
  show ?thesis
    using f c v u by (cases padzero; cases neg)
      (simp_all add: convert_def Let_def b s_def [symmetric] read_number_def z read_digits_zeros, simp_all add: ct)
qed

lemma convert_length:
  assumes r: "radix = 10 \<or> radix = 16"
  shows "length (convert val radix radchar width neg padzero) =
    max (unat width) ((if neg then 1 else 0) + length (digits (unat radix) (unat val)))"
proof -
  have w: "unat (width - 1) = unat width - 1" if "0 < width" using that by (simp add: unat_minus_one)
  have z: "width = 0" if "\<not> 0 < width" using that by (simp add: word_neq_0_conv [symmetric])
  show ?thesis
    using w z by (cases "0 < width") (auto simp: convert_def Let_def convert_digits_all [OF r] max_def)
qed

section \<open>Records of the log\<close>

definition TMAX_LOGINFO :: nat where "TMAX_LOGINFO = 6"
definition LOG_TYPE_COMMENT :: "32 word" where "LOG_TYPE_COMMENT = 1"
definition LOG_TYPE_ASSERT :: "32 word" where "LOG_TYPE_ASSERT = 2"

text \<open>\<open>loginfo\<close> holds the entries that have been set.\<close>

record syslog =
  logtype :: "32 word"
  logtim :: "32 word"
  logprc :: ident
  loginfo :: "intptr list"

definition syslog_print :: "(32 word \<Rightarrow> string) \<Rightarrow> syslog \<Rightarrow> string option" where
  "syslog_print str r =
     (if logtype r = LOG_TYPE_COMMENT then
        (case loginfo r of [] \<Rightarrow> None | format # args \<Rightarrow> syslog_printf str (str format) args)
      else if logtype r = LOG_TYPE_ASSERT then
        syslog_printf str (''%s:%u: Assertion `%s'' @ [CHR 0x27] @ '' failed.'') (loginfo r)
      else Some [])"

definition syslog_lostmsg :: "(32 word \<Rightarrow> string) \<Rightarrow> 32 word \<Rightarrow> string option" where
  "syslog_lostmsg str lostlog =
     map_option (\<lambda>s. s @ [CHR 0x0A]) (syslog_printf str ''%d messages are lost.'' [lostlog])"

section \<open>Collecting the arguments\<close>

fun skip_digits :: "string \<Rightarrow> string" where
  "skip_digits [] = []"
| "skip_digits (c # f) = (if is_digit c then skip_digits f else c # f)"

text \<open>
  Whether there is an \<open>l\<close> decides between \<open>int\<close> and \<open>long\<close>, which have the same width here.
\<close>

definition scan_arg :: "string \<Rightarrow> char \<times> string" where
  "scan_arg f =
     (let f = skip_digits f;
          f = (if fetch f = CHR ''l'' then tl f else f)
      in (fetch f, tl f))"

lemma scan_width_skip: "snd (scan_width w f) = skip_digits f"
  by (induction w f rule: scan_width.induct) auto

lemma scan_arg_conv: "scan_conv f = (p, w, c, f') \<Longrightarrow> scan_arg f = (c, f')"
proof -
  assume a: "scan_conv f = (p, w, c, f')"
  have z: "skip_digits (tl f) = skip_digits f" if "fetch f = CHR ''0''"
    using that by (cases f) (auto simp: fetch_def is_digit_def)
  show ?thesis
    using a z scan_width_skip [of 0 f] scan_width_skip [of 0 "tl f"]
    by (auto simp: scan_conv_def scan_arg_def Let_def split: prod.splits if_splits)
qed

lemma scan_arg_shorter: "scan_arg f = (c, f') \<Longrightarrow> length f' \<le> length f"
  using scan_conv_shorter scan_arg_conv by (metis prod_cases4 prod.inject)

text \<open>
  The loop of \<open>syslog\<close>: \<open>i\<close> is the entry of \<open>loginfo\<close> to fill next; \<open>None\<close>: there are fewer
  arguments than the format asks for.
\<close>

function syslog_args :: "nat \<Rightarrow> string \<Rightarrow> intptr list \<Rightarrow> intptr list option" where
  "syslog_args i [] ap = Some []"
| "syslog_args i (c # f) ap =
     (if \<not> i < TMAX_LOGINFO then Some []
      else if c \<noteq> CHR ''%'' then syslog_args i f ap
      else (let (c, f) = scan_arg f in
        if c \<in> set ''duxXpcs'' then
          (case ap of [] \<Rightarrow> None | v # ap \<Rightarrow> map_option ((#) v) (syslog_args (i + 1) f ap))
        else syslog_args i f ap))"
  by pat_completeness auto
termination
  by (relation "measure (\<lambda>(_, f, _). length f)") (auto dest!: scan_arg_shorter [OF sym])

definition syslog :: "32 word \<Rightarrow> string \<Rightarrow> intptr list \<Rightarrow> syslog option" where
  "syslog address format ap =
     map_option (\<lambda>args. \<lparr>logtype = LOG_TYPE_COMMENT, logtim = 0, logprc = 0, loginfo = address # args\<rparr>)
       (syslog_args 1 format ap)"

text \<open>How many arguments a format asks for.\<close>

function arg_count :: "string \<Rightarrow> nat" where
  "arg_count [] = 0"
| "arg_count (c # f) =
     (if c \<noteq> CHR ''%'' then arg_count f
      else (let (c, f) = scan_arg f in (if takes_arg c then 1 else 0) + arg_count f))"
  by pat_completeness auto
termination by (relation "measure length") (auto dest!: scan_arg_shorter [OF sym])

text \<open>Formats, one character or conversion after the other.\<close>

lemma format_induct [case_names Nil Char Conv]:
  assumes "P []" and "\<And>c f. c \<noteq> CHR ''%'' \<Longrightarrow> P f \<Longrightarrow> P (c # f)"
    and "\<And>f p w d g. scan_conv f = (p, w, d, g) \<Longrightarrow> P g \<Longrightarrow> P (CHR ''%'' # f)"
  shows "P f"
proof (induction f rule: length_induct)
  case (1 f)
  show ?case
  proof (cases f)
    case (Cons c t)
    obtain p w d g where s: "scan_conv t = (p, w, d, g)" by (metis prod_cases4)
    have "P t" "P g" using 1 Cons scan_conv_shorter [OF s] by simp_all
    then show ?thesis using assms(2,3) s Cons by (cases "c = CHR ''%''") auto
  qed (use assms(1) in simp)
qed

lemma format_char:
  assumes "c \<noteq> CHR ''%''"
  shows "syslog_printf str (c # f) args = map_option ((#) c) (syslog_printf str f args)"
    and "arg_count (c # f) = arg_count f"
    and "syslog_args i (c # f) ap = (if \<not> i < TMAX_LOGINFO then Some [] else syslog_args i f ap)"
  using assms by simp_all

lemma format_conv:
  assumes "scan_conv f = (p, w, d, g)"
  shows "syslog_printf str (CHR ''%'' # f) args =
      (if takes_arg d then
         (case args of [] \<Rightarrow> None | val # args \<Rightarrow> map_option ((@) (conv_arg str d p w val)) (syslog_printf str g args))
       else if d = CHR ''%'' then map_option ((#) (CHR ''%'')) (syslog_printf str g args) else syslog_printf str g args)"
    and "arg_count (CHR ''%'' # f) = (if takes_arg d then 1 else 0) + arg_count g"
    and "syslog_args i (CHR ''%'' # f) ap =
      (if \<not> i < TMAX_LOGINFO then Some []
       else if takes_arg d then (case ap of [] \<Rightarrow> None | v # ap \<Rightarrow> map_option ((#) v) (syslog_args (i + 1) g ap))
       else syslog_args i g ap)"
  using assms scan_arg_conv [OF assms] by (auto simp: takes_arg_def split: list.split)

declare syslog_printf.simps(2) [simp del] arg_count.simps(2) [simp del] syslog_args.simps(2) [simp del]

lemma printf_overrun: "syslog_printf str f args = None \<longleftrightarrow> length args < arg_count f"
  by (induction f arbitrary: args rule: format_induct) (auto simp: format_char format_conv split: list.split)

lemma printf_take: "arg_count f \<le> n \<Longrightarrow> syslog_printf str f (take n args) = syslog_printf str f args"
proof (induction f arbitrary: n args rule: format_induct)
  case (Conv f p w d g)
  show ?case
  proof (cases "takes_arg d")
    case True
    then show ?thesis using Conv by (cases args; cases n) (auto simp: format_conv)
  next
    case False
    then have "arg_count g \<le> n" using Conv.prems by (simp add: format_conv [OF Conv(1)])
    then show ?thesis using False Conv(2) by (simp add: format_conv [OF Conv(1)])
  qed
qed (simp_all add: format_char)

lemma syslog_args_eq: "syslog_args i f ap =
    (if min (TMAX_LOGINFO - i) (arg_count f) \<le> length ap then Some (take (min (TMAX_LOGINFO - i) (arg_count f)) ap) else None)"
proof (induction f arbitrary: i ap rule: format_induct)
  case (Conv f p w d g)
  have m: "min (TMAX_LOGINFO - i) (Suc n) = Suc (min (TMAX_LOGINFO - Suc i) n)" if "i < TMAX_LOGINFO" for n
    using that by simp
  show ?case
    by (cases "i < TMAX_LOGINFO"; cases ap) (auto simp: format_conv [OF Conv(1)] Conv(2) m)
qed (auto simp: format_char)

end
