(* ===== verification/Ring.thy ===== *)
theory Ring
  imports Prelude
begin

text \<open>
  Ring buffers as the system services keep them (\<open>syssvc/syslog.c\<close>, \<open>syssvc/serial.c\<close>): an array,
  the index of the first entry, the index of the next free one, and the number of entries.
\<close>

text \<open>\<open>INC_PTR\<close> of \<open>serial.c\<close>.\<close>

definition INC_PTR :: "nat \<Rightarrow> nat \<Rightarrow> nat" where
  "INC_PTR ptr bufsz = (if ptr + 1 = bufsz then 0 else ptr + 1)"

definition slots :: "nat \<Rightarrow> (nat \<Rightarrow> 'a) \<Rightarrow> nat \<Rightarrow> nat \<Rightarrow> 'a list" where
  "slots n buf rd cnt = map (\<lambda>k. buf ((rd + k) mod n)) [0..<cnt]"

definition ring_ok :: "nat \<Rightarrow> nat \<Rightarrow> nat \<Rightarrow> nat \<Rightarrow> bool" where
  "ring_ok n rd wr cnt \<longleftrightarrow> 0 < n \<and> rd < n \<and> cnt \<le> n \<and> wr = (rd + cnt) mod n"

lemma INC_PTR_mod: "p < n \<Longrightarrow> INC_PTR p n = Suc p mod n"
  by (auto simp: INC_PTR_def mod_Suc)

lemma length_slots [simp]: "length (slots n buf rd cnt) = cnt"
  by (simp add: slots_def)

lemma ring_empty: "0 < n \<Longrightarrow> ring_ok n 0 0 0" "slots n buf rd 0 = []"
  by (simp_all add: ring_ok_def slots_def)

lemma ring_okD: "ring_ok n rd wr cnt \<Longrightarrow> rd < n \<and> wr < n \<and> cnt \<le> n"
  by (auto simp: ring_ok_def)

lemma ring_distinct:
  assumes "rd < n" and "k < cnt" and "cnt < (n::nat)"
  shows "(rd + k) mod n \<noteq> (rd + cnt) mod n"
proof -
  have "\<not> n dvd cnt - k" using assms by (simp add: nat_dvd_not_less)
  then show ?thesis using assms mod_eq_dvd_iff_nat [of "rd + k" "rd + cnt" n]
    by (metis add_diff_cancel_left add_le_cancel_left less_imp_le_nat)
qed

text \<open>Putting an entry in, taking the first one out, and overwriting the first one when full.\<close>

lemma ring_put:
  assumes r: "ring_ok n rd wr cnt" and c: "cnt < n"
  shows "ring_ok n rd (INC_PTR wr n) (Suc cnt)"
    and "slots n (buf(wr := x)) rd (Suc cnt) = slots n buf rd cnt @ [x]"
proof -
  have w: "wr < n" "wr = (rd + cnt) mod n" and rd: "rd < n" using r by (auto simp: ring_ok_def)
  show "ring_ok n rd (INC_PTR wr n) (Suc cnt)"
    using r c w by (simp add: ring_ok_def INC_PTR_mod mod_simps)
  have "(buf(wr := x)) ((rd + k) mod n) = buf ((rd + k) mod n)" if "k < cnt" for k
    using ring_distinct [OF rd that c] w(2) by simp
  then show "slots n (buf(wr := x)) rd (Suc cnt) = slots n buf rd cnt @ [x]"
    using w(2) by (simp add: slots_def)
qed

lemma ring_get:
  assumes r: "ring_ok n rd wr cnt" and c: "0 < cnt"
  shows "ring_ok n (INC_PTR rd n) wr (cnt - 1)"
    and "slots n buf rd cnt = buf rd # slots n buf (INC_PTR rd n) (cnt - 1)"
proof -
  obtain m where m: "cnt = Suc m" using c by (cases cnt) auto
  have rd: "rd < n" using r by (simp add: ring_ok_def)
  show "ring_ok n (INC_PTR rd n) wr (cnt - 1)"
    using r rd by (auto simp: ring_ok_def INC_PTR_mod mod_simps m)
  have "map (\<lambda>k. buf ((rd + k) mod n)) [0..<Suc m] = buf rd # map (\<lambda>k. buf (Suc (rd + k) mod n)) [0..<m]"
    using rd by (simp add: upt_conv_Cons map_Suc_upt [symmetric] comp_def del: upt_Suc)
  then show "slots n buf rd cnt = buf rd # slots n buf (INC_PTR rd n) (cnt - 1)"
    using rd by (simp add: slots_def INC_PTR_mod mod_simps m del: upt_Suc)
qed

lemma ring_overwrite:
  assumes r: "ring_ok n rd wr n"
  shows "ring_ok n (INC_PTR wr n) (INC_PTR wr n) n"
    and "slots n (buf(wr := x)) (INC_PTR wr n) n = tl (slots n buf rd n) @ [x]"
proof -
  have w: "wr = rd" "rd < n" "0 < n" using r by (auto simp: ring_ok_def)
  show "ring_ok n (INC_PTR wr n) (INC_PTR wr n) n" using w by (simp add: ring_ok_def INC_PTR_mod)
  have g: "ring_ok n (INC_PTR rd n) wr (n - 1)" "slots n buf rd n = buf rd # slots n buf (INC_PTR rd n) (n - 1)"
    using ring_get [OF r w(3)] by auto
  show "slots n (buf(wr := x)) (INC_PTR wr n) n = tl (slots n buf rd n) @ [x]"
    using ring_put(2) [OF g(1), of buf x] w g(2) by simp
qed

end
