(* ===== verification/Syslog.thy ===== *)
theory Syslog
  imports Log_Output Ring
begin

text \<open>
  The system log (\<open>syssvc/syslog.c\<close>) with one log buffer for all processors (\<open>G_SYSLOG\<close>, as the
  target \<open>zynq_gcc\<close> is built).  Each function runs under the spin lock of the system interface
  layer, so it is one atomic step on the control block.
\<close>

section \<open>The control block and the services\<close>

definition TCNT_SYSLOG_BUFFER :: nat where "TCNT_SYSLOG_BUFFER = 32"

record syslogcb =
  syslog_buffer :: "nat \<Rightarrow> syslog"
  syslog_count :: nat
  syslog_head :: nat
  syslog_tail :: nat
  syslog_lost :: "32 word"
  syslog_logmask :: "32 word"
  syslog_lowmask_not :: "32 word"

definition LOG_MASK :: "32 word \<Rightarrow> 32 word" where "LOG_MASK prio = push_bit (unat prio) 1"
definition LOG_UPTO :: "32 word \<Rightarrow> 32 word" where "LOG_UPTO prio = push_bit (unat prio + 1) 1 - 1"

definition syslog_initialize :: "syslogcb \<Rightarrow> syslogcb" where
  "syslog_initialize cb =
     cb\<lparr>syslog_count := 0, syslog_head := 0, syslog_tail := 0, syslog_lost := 0,
        syslog_logmask := 0, syslog_lowmask_not := 0\<rparr>"

text \<open>
  \<open>syslog_wri_log\<close> also returns what goes to the low-level output; \<open>now\<close> is the time and \<open>pid\<close> the
  processor that it puts into the record.
\<close>

definition log_record :: "syslog \<Rightarrow> syslogcb \<Rightarrow> syslogcb" where
  "log_record r cb =
     (let cb = cb\<lparr>syslog_buffer := (syslog_buffer cb)(syslog_tail cb := r), syslog_tail := syslog_tail cb + 1\<rparr>;
          cb = (if TCNT_SYSLOG_BUFFER \<le> syslog_tail cb then cb\<lparr>syslog_tail := 0\<rparr> else cb)
      in if syslog_count cb < TCNT_SYSLOG_BUFFER then cb\<lparr>syslog_count := syslog_count cb + 1\<rparr>
         else cb\<lparr>syslog_head := syslog_tail cb, syslog_lost := syslog_lost cb + 1\<rparr>)"

definition syslog_wri_log :: "(32 word \<Rightarrow> string) \<Rightarrow> 32 word \<Rightarrow> ident \<Rightarrow> 32 word \<Rightarrow> syslog \<Rightarrow> syslogcb \<Rightarrow>
    ercd \<times> string option \<times> syslogcb" where
  "syslog_wri_log str now pid prio r cb =
     (let r = r\<lparr>logtim := now, logprc := pid\<rparr>;
          cb = (if syslog_logmask cb AND LOG_MASK prio \<noteq> 0 then log_record r cb else cb);
          out = (if NOT (syslog_lowmask_not cb) AND LOG_MASK prio \<noteq> 0 then
                   map_option (\<lambda>s. s @ [CHR 0x0A]) (syslog_print str r)
                 else Some [])
      in (E_OK, out, cb))"

text \<open>
  An \<open>ER_UINT\<close> is negative for an error; \<open>syslog_rea_log\<close> returns the number of lost records cast to it.
\<close>

definition ER_OBJ :: int where "ER_OBJ = - 41"

definition syslog_rea_log :: "syslogcb \<Rightarrow> int \<times> syslog option \<times> syslogcb" where
  "syslog_rea_log cb =
     (if 0 < syslog_count cb then
        (let r = syslog_buffer cb (syslog_head cb);
             cb = cb\<lparr>syslog_count := syslog_count cb - 1, syslog_head := syslog_head cb + 1\<rparr>;
             cb = (if TCNT_SYSLOG_BUFFER \<le> syslog_head cb then cb\<lparr>syslog_head := 0\<rparr> else cb)
         in (sint (syslog_lost cb), Some r, cb\<lparr>syslog_lost := 0\<rparr>))
      else (ER_OBJ, None, cb))"

definition syslog_msk_log :: "32 word \<Rightarrow> 32 word \<Rightarrow> syslogcb \<Rightarrow> ercd \<times> syslogcb" where
  "syslog_msk_log logmask lowmask cb =
     (E_OK, cb\<lparr>syslog_logmask := logmask, syslog_lowmask_not := NOT lowmask\<rparr>)"

record t_syslog_rlog =
  rlog_count :: nat
  rlog_lost :: "32 word"
  rlog_logmask :: "32 word"
  rlog_lowmask :: "32 word"

definition syslog_ref_log :: "syslogcb \<Rightarrow> ercd \<times> t_syslog_rlog" where
  "syslog_ref_log cb =
     (E_OK, \<lparr>rlog_count = syslog_count cb, rlog_lost = syslog_lost cb,
        rlog_logmask = syslog_logmask cb, rlog_lowmask = NOT (syslog_lowmask_not cb)\<rparr>)"

section \<open>The log as a list\<close>

definition log_ok :: "syslogcb \<Rightarrow> bool" where
  "log_ok cb \<longleftrightarrow> ring_ok TCNT_SYSLOG_BUFFER (syslog_head cb) (syslog_tail cb) (syslog_count cb)"

definition log_list :: "syslogcb \<Rightarrow> syslog list" where
  "log_list cb = slots TCNT_SYSLOG_BUFFER (syslog_buffer cb) (syslog_head cb) (syslog_count cb)"

lemma syslog_initialize: "log_ok (syslog_initialize cb)" "log_list (syslog_initialize cb) = []"
  by (simp_all add: log_ok_def log_list_def syslog_initialize_def ring_empty TCNT_SYSLOG_BUFFER_def)

lemma log_record:
  assumes "log_ok cb"
  shows "log_ok (log_record r cb)"
    and "log_list (log_record r cb) =
      (if syslog_count cb < TCNT_SYSLOG_BUFFER then log_list cb @ [r] else tl (log_list cb) @ [r])"
    and "syslog_lost (log_record r cb) =
      (if syslog_count cb < TCNT_SYSLOG_BUFFER then syslog_lost cb else syslog_lost cb + 1)"
    and "syslog_logmask (log_record r cb) = syslog_logmask cb"
    and "syslog_lowmask_not (log_record r cb) = syslog_lowmask_not cb"
proof -
  have R: "ring_ok TCNT_SYSLOG_BUFFER (syslog_head cb) (syslog_tail cb) (syslog_count cb)"
    using assms by (simp add: log_ok_def)
  have t: "syslog_tail cb < TCNT_SYSLOG_BUFFER" and c: "syslog_count cb \<le> TCNT_SYSLOG_BUFFER"
    using ring_okD [OF R] by auto
  have e: "log_record r cb =
      (if syslog_count cb < TCNT_SYSLOG_BUFFER then
         cb\<lparr>syslog_buffer := (syslog_buffer cb)(syslog_tail cb := r), syslog_count := Suc (syslog_count cb),
            syslog_tail := INC_PTR (syslog_tail cb) TCNT_SYSLOG_BUFFER\<rparr>
       else cb\<lparr>syslog_buffer := (syslog_buffer cb)(syslog_tail cb := r),
            syslog_head := INC_PTR (syslog_tail cb) TCNT_SYSLOG_BUFFER,
            syslog_tail := INC_PTR (syslog_tail cb) TCNT_SYSLOG_BUFFER, syslog_lost := syslog_lost cb + 1\<rparr>)"
    using t by (auto simp: log_record_def Let_def INC_PTR_def)
  show "log_ok (log_record r cb)"
    "log_list (log_record r cb) =
      (if syslog_count cb < TCNT_SYSLOG_BUFFER then log_list cb @ [r] else tl (log_list cb) @ [r])"
    using ring_put [OF R] ring_overwrite(1) [of TCNT_SYSLOG_BUFFER "syslog_head cb" "syslog_tail cb"]
      ring_overwrite(2) [of TCNT_SYSLOG_BUFFER "syslog_head cb" "syslog_tail cb" "syslog_buffer cb" r] R c
    by (auto simp: e log_ok_def log_list_def)
  show "syslog_lost (log_record r cb) =
      (if syslog_count cb < TCNT_SYSLOG_BUFFER then syslog_lost cb else syslog_lost cb + 1)"
    "syslog_logmask (log_record r cb) = syslog_logmask cb"
    "syslog_lowmask_not (log_record r cb) = syslog_lowmask_not cb"
    by (simp_all add: e)
qed

lemma syslog_rea_log:
  assumes "log_ok cb" and "syslog_rea_log cb = (e, ro, cb')"
  shows "log_ok cb'" and "syslog_logmask cb' = syslog_logmask cb"
    and "log_list cb = (case ro of None \<Rightarrow> [] | Some r \<Rightarrow> r # log_list cb')"
    and "case ro of None \<Rightarrow> e = ER_OBJ \<and> cb' = cb | Some r \<Rightarrow> e = sint (syslog_lost cb) \<and> syslog_lost cb' = 0"
proof -
  have R: "ring_ok TCNT_SYSLOG_BUFFER (syslog_head cb) (syslog_tail cb) (syslog_count cb)"
    using assms(1) by (simp add: log_ok_def)
  have e: "syslog_rea_log cb =
     (if 0 < syslog_count cb then
        (sint (syslog_lost cb), Some (syslog_buffer cb (syslog_head cb)),
         cb\<lparr>syslog_count := syslog_count cb - 1, syslog_head := INC_PTR (syslog_head cb) TCNT_SYSLOG_BUFFER, syslog_lost := 0\<rparr>)
      else (ER_OBJ, None, cb))"
    using ring_okD [OF R] by (auto simp: syslog_rea_log_def Let_def INC_PTR_def)
  show "log_ok cb'" "syslog_logmask cb' = syslog_logmask cb"
    "log_list cb = (case ro of None \<Rightarrow> [] | Some r \<Rightarrow> r # log_list cb')"
    "case ro of None \<Rightarrow> e = ER_OBJ \<and> cb' = cb | Some r \<Rightarrow> e = sint (syslog_lost cb) \<and> syslog_lost cb' = 0"
    using assms(2) R ring_get [OF R] by (auto simp: e log_ok_def log_list_def slots_def split: if_splits)
qed

section \<open>Histories\<close>

text \<open>
  A sequence of calls from any processors.  \<open>log_run\<close> collects the records that pass the mask, in the
  order of the calls, and what the successful reads return.
\<close>

datatype log_call = Write "32 word" ident "32 word" syslog | Read | Set_mask "32 word" "32 word"

fun log_run :: "(32 word \<Rightarrow> string) \<Rightarrow> log_call list \<Rightarrow> syslogcb \<Rightarrow> syslog list \<times> (int \<times> syslog) list \<times> syslogcb" where
  "log_run str [] cb = ([], [], cb)"
| "log_run str (Write now pid prio r # cs) cb =
     (let (_, _, cb') = syslog_wri_log str now pid prio r cb;
          (ws, rs, cb') = log_run str cs cb'
      in (if syslog_logmask cb AND LOG_MASK prio \<noteq> 0 then r\<lparr>logtim := now, logprc := pid\<rparr> # ws else ws, rs, cb'))"
| "log_run str (Read # cs) cb =
     (let (e, ro, cb) = syslog_rea_log cb;
          (ws, rs, cb) = log_run str cs cb
      in (ws, case ro of None \<Rightarrow> rs | Some r \<Rightarrow> (e, r) # rs, cb))"
| "log_run str (Set_mask a b # cs) cb = log_run str cs (snd (syslog_msk_log a b cb))"

text \<open>
  \<open>log_account gone ws rs cb\<close>: the records \<open>ws\<close> are, one after the other, \<open>gaps\<close> of overwritten records
  each followed by a record that was read, the records overwritten since the last reading, and those
  in the buffer; each reading returned the length of its gap.  \<open>gone\<close> are overwritten records that
  precede \<open>ws\<close>.
\<close>

definition log_account :: "syslog list \<Rightarrow> syslog list \<Rightarrow> (int \<times> syslog) list \<Rightarrow> syslogcb \<Rightarrow> bool" where
  "log_account gone ws rs cb \<longleftrightarrow>
     (\<exists>gaps now. gone @ ws = concat (map2 (\<lambda>g r. g @ [snd r]) gaps rs) @ now @ log_list cb \<and>
        length gaps = length rs \<and> syslog_lost cb = of_nat (length now) \<and>
        list_all2 (\<lambda>g r. fst r = sint (of_nat (length g) :: 32 word)) gaps rs)"

text \<open>One record more in front of a history that continues from \<open>cb\<close>.\<close>

lemma log_run_account:
  assumes "log_ok cb" and "syslog_lost cb = of_nat (length gone)" and "log_run str cs cb = (ws, rs, cb')"
  shows "log_ok cb' \<and> log_account (gone @ log_list cb) ws rs cb'"
  using assms
proof (induction cs arbitrary: cb gone ws rs)
  case Nil
  then show ?case by (auto simp: log_account_def)
next
  case (Cons c cs)
  show ?case
  proof (cases c)
    case (Write now pid prio r)
    let ?r = "r\<lparr>logtim := now, logprc := pid\<rparr>"
    define cb1 where "cb1 = snd (snd (syslog_wri_log str now pid prio r cb))"
    obtain ws1 where run: "log_run str cs cb1 = (ws1, rs, cb')"
      and ws: "ws = (if syslog_logmask cb AND LOG_MASK prio \<noteq> 0 then ?r # ws1 else ws1)"
      using Cons.prems(3) Write by (auto simp: cb1_def Let_def split: prod.splits)
    have cb1: "cb1 = (if syslog_logmask cb AND LOG_MASK prio \<noteq> 0 then log_record ?r cb else cb)"
      by (simp add: cb1_def syslog_wri_log_def Let_def)
    show ?thesis
    proof (cases "syslog_logmask cb AND LOG_MASK prio \<noteq> 0")
      case True
      note L = log_record [OF Cons.prems(1), of ?r]
      show ?thesis
      proof (cases "syslog_count cb < TCNT_SYSLOG_BUFFER")
        case f: True
        then show ?thesis using Cons.IH [of cb1 gone ws1 rs] L True cb1 run ws Cons.prems(2)
          by (simp add: log_account_def)
      next
        case f: False
        then have "0 < length (log_list cb)" by (simp add: log_list_def TCNT_SYSLOG_BUFFER_def)
        then obtain a as where a: "log_list cb = a # as" by (cases "log_list cb") auto
        show ?thesis using Cons.IH [of cb1 "gone @ [a]" ws1 rs] L True cb1 run ws Cons.prems(2) f a
          by (simp add: log_account_def add.commute)
      qed
    next
      case False
      then show ?thesis using Cons.IH [of cb1 gone ws1 rs] Cons.prems(1,2) cb1 run ws by simp
    qed
  next
    case Read
    obtain e ro cb1 where rd: "syslog_rea_log cb = (e, ro, cb1)" by (cases "syslog_rea_log cb") auto
    note L = syslog_rea_log [OF Cons.prems(1) rd]
    obtain rs1 where run: "log_run str cs cb1 = (ws, rs1, cb')" and rs: "rs = (case ro of None \<Rightarrow> rs1 | Some r \<Rightarrow> (e, r) # rs1)"
      using Cons.prems(3) Read rd by (auto simp: Let_def split: prod.splits)
    show ?thesis
    proof (cases ro)
      case None
      then show ?thesis using Cons.IH [of cb gone ws rs1] L run rs Cons.prems(1,2) by simp
    next
      case (Some r)
      have l: "log_list cb = r # log_list cb1" "e = sint (of_nat (length gone) :: 32 word)" "syslog_lost cb1 = 0"
        using L(3,4) Some Cons.prems(2) by simp_all
      have "log_ok cb' \<and> log_account (log_list cb1) ws rs1 cb'"
        using Cons.IH [of cb1 "[]" ws rs1] L(1) l(3) run by simp
      then obtain gaps now where g: "log_ok cb'" "log_list cb1 @ ws = concat (map2 (\<lambda>g r. g @ [snd r]) gaps rs1) @ now @ log_list cb'"
        "length gaps = length rs1" "syslog_lost cb' = of_nat (length now)"
        "list_all2 (\<lambda>g r. fst r = sint (of_nat (length g) :: 32 word)) gaps rs1"
        by (auto simp: log_account_def)
      show ?thesis
        unfolding log_account_def
        by (intro conjI exI [of _ "gone # gaps"] exI [of _ now]) (use g l rs Some in simp_all)
    qed
  next
    case (Set_mask a b)
    have "log_ok (snd (syslog_msk_log a b cb)) = log_ok cb" "log_list (snd (syslog_msk_log a b cb)) = log_list cb"
      "syslog_lost (snd (syslog_msk_log a b cb)) = syslog_lost cb"
      by (simp_all add: syslog_msk_log_def log_ok_def log_list_def)
    then show ?thesis using Cons.IH [of "snd (syslog_msk_log a b cb)" gone ws rs] Cons.prems Set_mask by simp
  qed
qed

end
