(* ===== verification/Serial.thy ===== *)
theory Serial
  imports Semaphore Ring
begin

text \<open>
  The serial interface driver (\<open>syssvc/serial.c\<close>), for one port.  The state of the port is its control
  block, its two buffers and its two semaphores; of the latter what \<open>sig_sem\<close> and \<open>wai_sem\<close> refine,
  the count with the queue of waiting tasks.  The sections under \<open>loc_cpu\<close> and the callbacks of the
  device are functions on this state.  They return the characters handed to the device; whether the
  device takes one (\<open>xuartps_putready\<close> of \<open>target/zynq_gcc/target_serial.c\<close>) is the argument \<open>rdy\<close>.
  The port is used by tasks of the processor that takes its interrupts.
\<close>

section \<open>The control block\<close>

definition FC_STOP :: char where "FC_STOP = CHR 0x13"
definition FC_START :: char where "FC_START = CHR 0x11"
definition BUFCNT_STOP :: "nat \<Rightarrow> nat" where "BUFCNT_STOP bufsz = bufsz * 3 div 4"
definition BUFCNT_START :: "nat \<Rightarrow> nat" where "BUFCNT_START bufsz = bufsz div 2"

definition IOCTL_ECHO :: "32 word" where "IOCTL_ECHO = 0x0001"
definition IOCTL_CRLF :: "32 word" where "IOCTL_CRLF = 0x0010"
definition IOCTL_FCSND :: "32 word" where "IOCTL_FCSND = 0x0100"
definition IOCTL_FCANY :: "32 word" where "IOCTL_FCANY = 0x0200"
definition IOCTL_FCRCV :: "32 word" where "IOCTL_FCRCV = 0x0400"

record spinib =
  rcv_bufsz :: nat
  snd_bufsz :: nat

record spcb =
  openflag :: bool
  errorflag :: bool
  ioctl :: "32 word"
  rcv_read_ptr :: nat
  rcv_write_ptr :: nat
  rcv_count :: nat
  rcv_fc_chr :: char
  rcv_stopped :: bool
  snd_read_ptr :: nat
  snd_write_ptr :: nat
  snd_count :: nat
  snd_stopped :: bool
  rcv_buffer :: "nat \<Rightarrow> char"
  snd_buffer :: "nat \<Rightarrow> char"
  rcv_sem :: asem
  snd_sem :: asem
  cbr_snd :: bool
  cbr_rcv :: bool

text \<open>\<open>--\<close> on a \<open>uint_t\<close>\<close>

definition dec_uint :: "nat \<Rightarrow> nat" where
  "dec_uint n = (if n = 0 then 2 ^ 32 - 1 else n - 1)"

text \<open>The semaphores are created with the maximum 1; the initial counts are 0 and 1 (\<open>serial.cfg\<close>).\<close>

definition isig_snd :: "spcb \<Rightarrow> spcb" where
  "isig_snd s =
     (let (e, a) = asem_signal 1 (snd_sem s); s = s\<lparr>snd_sem := a\<rparr>
      in if e \<noteq> E_OK then s\<lparr>errorflag := True\<rparr> else s)"

definition isig_rcv :: "spcb \<Rightarrow> spcb" where
  "isig_rcv s =
     (let (e, a) = asem_signal 1 (rcv_sem s); s = s\<lparr>rcv_sem := a\<rparr>
      in if e \<noteq> E_OK then s\<lparr>errorflag := True\<rparr> else s)"

section \<open>Opening and closing\<close>

text \<open>The bodies of the services, for a port that is closed and one that is open.\<close>

definition serial_initialize :: "spcb \<Rightarrow> spcb" where
  "serial_initialize s = s\<lparr>openflag := False\<rparr>"

definition serial_opn :: "spcb \<Rightarrow> spcb" where
  "serial_opn s =
     s\<lparr>ioctl := IOCTL_ECHO OR IOCTL_CRLF OR IOCTL_FCSND OR IOCTL_FCRCV,
       rcv_read_ptr := 0, rcv_write_ptr := 0, rcv_count := 0, rcv_fc_chr := CHR 0x00, rcv_stopped := False,
       snd_read_ptr := 0, snd_write_ptr := 0, snd_count := 0, snd_stopped := False,
       cbr_rcv := True, openflag := True, errorflag := False\<rparr>"

definition serial_cls :: "spcb \<Rightarrow> spcb" where
  "serial_cls s =
     s\<lparr>cbr_snd := False, cbr_rcv := False, openflag := False, snd_sem := (1, []), rcv_sem := (0, [])\<rparr>"

text \<open>The checks at the beginning of the services; \<open>dpn\<close> is the value of \<open>sns_dpn\<close>.\<close>

definition serial_opn_por :: "nat \<Rightarrow> bool \<Rightarrow> ident \<Rightarrow> (ident \<Rightarrow> spcb) \<Rightarrow> ercd \<times> (ident \<Rightarrow> spcb)" where
  "serial_opn_por tnum_port dpn portid T =
     (if dpn then (E_CTX, T)
      else if \<not> (1 \<le> portid \<and> portid \<le> int tnum_port) then (E_ID, T)
      else if openflag (T portid) then (E_OBJ, T)
      else (E_OK, T(portid := serial_opn (T portid))))"

definition serial_cls_por :: "nat \<Rightarrow> bool \<Rightarrow> ident \<Rightarrow> (ident \<Rightarrow> spcb) \<Rightarrow> ercd \<times> (ident \<Rightarrow> spcb)" where
  "serial_cls_por tnum_port dpn portid T =
     (if dpn then (E_CTX, T)
      else if \<not> (1 \<le> portid \<and> portid \<le> int tnum_port) then (E_ID, T)
      else if \<not> openflag (T portid) then (E_OBJ, T)
      else (E_OK, T(portid := serial_cls (T portid))))"

text \<open>What \<open>serial_wri_dat\<close>, \<open>serial_rea_dat\<close>, \<open>serial_ctl_por\<close> and \<open>serial_ref_por\<close> check.\<close>

definition serial_check :: "nat \<Rightarrow> bool \<Rightarrow> ident \<Rightarrow> (ident \<Rightarrow> spcb) \<Rightarrow> ercd" where
  "serial_check tnum_port dpn portid T =
     (if dpn then E_CTX
      else if \<not> (1 \<le> portid \<and> portid \<le> int tnum_port) then E_ID
      else if \<not> openflag (T portid) then E_OBJ
      else if errorflag (T portid) then E_SYS
      else E_OK)"

definition serial_ctl_por :: "nat \<Rightarrow> bool \<Rightarrow> ident \<Rightarrow> 32 word \<Rightarrow> (ident \<Rightarrow> spcb) \<Rightarrow> ercd \<times> (ident \<Rightarrow> spcb)" where
  "serial_ctl_por tnum_port dpn portid ioc T =
     (let e = serial_check tnum_port dpn portid T
      in (e, if e = E_OK then T(portid := (T portid)\<lparr>ioctl := ioc\<rparr>) else T))"

definition serial_ref_por :: "nat \<Rightarrow> bool \<Rightarrow> ident \<Rightarrow> (ident \<Rightarrow> spcb) \<Rightarrow> ercd \<times> (nat \<times> nat) option" where
  "serial_ref_por tnum_port dpn portid T =
     (let e = serial_check tnum_port dpn portid T
      in (e, if e = E_OK then Some (rcv_count (T portid), snd_count (T portid)) else None))"

section \<open>Characters\<close>

definition sio_snd_chr :: "bool \<Rightarrow> char \<Rightarrow> bool \<times> string" where
  "sio_snd_chr rdy c = (if \<not> rdy then (False, []) else (True, [c]))"

definition serial_snd_chr :: "bool \<Rightarrow> char \<Rightarrow> spcb \<Rightarrow> bool \<times> string \<times> spcb" where
  "serial_snd_chr rdy c s =
     (let (ok, out) = sio_snd_chr rdy c
      in if ok then (True, out, s) else (False, out, s\<lparr>cbr_snd := True\<rparr>))"

text \<open>The section of \<open>serial_wri_chr\<close>: the result says whether the buffer is full now.\<close>

definition serial_put :: "spinib \<Rightarrow> bool \<Rightarrow> char \<Rightarrow> spcb \<Rightarrow> bool \<times> string \<times> spcb" where
  "serial_put P rdy c s =
     (let (ok, out, s) =
            (if snd_count s = 0 \<and> \<not> snd_stopped s then serial_snd_chr rdy c s else (False, [], s))
      in if ok then (False, out, s)
         else
           (let s = s\<lparr>snd_buffer := (snd_buffer s)(snd_write_ptr s := c),
                      snd_write_ptr := INC_PTR (snd_write_ptr s) (snd_bufsz P),
                      snd_count := snd_count s + 1\<rparr>
            in (snd_count s = snd_bufsz P, out, s)))"

text \<open>\<open>serial_rea_chr\<close>: the character, whether the buffer is empty now, and the output.\<close>

definition serial_rea_chr :: "spinib \<Rightarrow> bool \<Rightarrow> spcb \<Rightarrow> char \<times> bool \<times> string \<times> spcb" where
  "serial_rea_chr P rdy s =
     (let c = rcv_buffer s (rcv_read_ptr s);
          s = s\<lparr>rcv_read_ptr := INC_PTR (rcv_read_ptr s) (rcv_bufsz P), rcv_count := dec_uint (rcv_count s)\<rparr>;
          buffer_empty = (rcv_count s = 0)
      in if rcv_stopped s \<and> rcv_count s \<le> BUFCNT_START (rcv_bufsz P) then
           (let (ok, out, s) = serial_snd_chr rdy FC_START s;
                s = (if \<not> ok then s\<lparr>rcv_fc_chr := FC_START\<rparr> else s)
            in (c, buffer_empty, out, s\<lparr>rcv_stopped := False\<rparr>))
         else (c, buffer_empty, [], s))"

text \<open>The characters taken out of the send buffer by a callback.\<close>

definition snd_advance :: "spinib \<Rightarrow> spcb \<Rightarrow> spcb" where
  "snd_advance P s =
     (let s = s\<lparr>snd_read_ptr := INC_PTR (snd_read_ptr s) (snd_bufsz P)\<rparr>;
          s = (if snd_count s = snd_bufsz P then isig_snd s else s)
      in s\<lparr>snd_count := dec_uint (snd_count s)\<rparr>)"

definition sio_irdy_snd :: "spinib \<Rightarrow> bool \<Rightarrow> spcb \<Rightarrow> string \<times> spcb" where
  "sio_irdy_snd P rdy s =
     (if rcv_fc_chr s \<noteq> CHR 0x00 then
        (snd (sio_snd_chr rdy (rcv_fc_chr s)), s\<lparr>rcv_fc_chr := CHR 0x00\<rparr>)
      else if \<not> snd_stopped s \<and> 0 < snd_count s then
        (snd (sio_snd_chr rdy (snd_buffer s (snd_read_ptr s))), snd_advance P s)
      else ([], s\<lparr>cbr_snd := False\<rparr>))"

definition sio_irdy_rcv :: "spinib \<Rightarrow> bool \<Rightarrow> char \<Rightarrow> spcb \<Rightarrow> string \<times> spcb" where
  "sio_irdy_rcv P rdy c s =
     (if ioctl s AND IOCTL_FCSND \<noteq> 0 \<and> c = FC_STOP then ([], s\<lparr>snd_stopped := True\<rparr>)
      else if snd_stopped s \<and> (c = FC_START \<or> ioctl s AND IOCTL_FCANY \<noteq> 0) then
        (let s = s\<lparr>snd_stopped := False\<rparr> in
         if 0 < snd_count s then
           (let (ok, out, s) = serial_snd_chr rdy (snd_buffer s (snd_read_ptr s)) s
            in (out, if ok then snd_advance P s else s))
         else ([], s))
      else if ioctl s AND IOCTL_FCSND \<noteq> 0 \<and> c = FC_START then ([], s)
      else if rcv_count s = rcv_bufsz P then ([], s)
      else
        (let s = s\<lparr>rcv_buffer := (rcv_buffer s)(rcv_write_ptr s := c),
                   rcv_write_ptr := INC_PTR (rcv_write_ptr s) (rcv_bufsz P)\<rparr>;
             s = (if rcv_count s = 0 then isig_rcv s else s);
             s = s\<lparr>rcv_count := rcv_count s + 1\<rparr>
         in if ioctl s AND IOCTL_FCRCV \<noteq> 0 \<and> \<not> rcv_stopped s \<and> BUFCNT_STOP (rcv_bufsz P) \<le> rcv_count s then
              (let (ok, out, s) = serial_snd_chr rdy FC_STOP s;
                   s = (if \<not> ok then s\<lparr>rcv_fc_chr := FC_STOP\<rparr> else s)
               in (out, s\<lparr>rcv_stopped := True\<rparr>))
            else ([], s)))"

text \<open>The interrupt service routine of the device: \<open>got\<close> is a received character, if there is one.\<close>

definition sio_isr :: "spinib \<Rightarrow> bool \<Rightarrow> char option \<Rightarrow> bool \<Rightarrow> spcb \<Rightarrow> string \<times> spcb" where
  "sio_isr P putready got rdy s =
     (let (out1, s) = (if putready then sio_irdy_snd P True s else ([], s));
          (out2, s) = (case got of None \<Rightarrow> ([], s) | Some c \<Rightarrow> sio_irdy_rcv P rdy c s)
      in (out1 @ out2, s))"

text \<open>For the end of the system: characters that have not been sent.\<close>

definition serial_get_chr :: "nat \<Rightarrow> spinib \<Rightarrow> ident \<Rightarrow> (ident \<Rightarrow> spcb) \<Rightarrow> char option \<times> (ident \<Rightarrow> spcb)" where
  "serial_get_chr tnum_port P portid T =
     (if 1 \<le> portid \<and> portid \<le> int tnum_port \<and> openflag (T portid) \<and> 0 < snd_count (T portid) then
        (let s = T portid
         in (Some (snd_buffer s (snd_read_ptr s)),
             T(portid := s\<lparr>snd_read_ptr := INC_PTR (snd_read_ptr s) (snd_bufsz P), snd_count := snd_count s - 1\<rparr>)))
      else (None, T))"

section \<open>The buffers as lists\<close>

definition rcv_list :: "spinib \<Rightarrow> spcb \<Rightarrow> string" where
  "rcv_list P s = slots (rcv_bufsz P) (rcv_buffer s) (rcv_read_ptr s) (rcv_count s)"

definition snd_list :: "spinib \<Rightarrow> spcb \<Rightarrow> string" where
  "snd_list P s = slots (snd_bufsz P) (snd_buffer s) (snd_read_ptr s) (snd_count s)"

definition bufs_ok :: "spinib \<Rightarrow> spcb \<Rightarrow> bool" where
  "bufs_ok P s \<longleftrightarrow> ring_ok (rcv_bufsz P) (rcv_read_ptr s) (rcv_write_ptr s) (rcv_count s) \<and>
     ring_ok (snd_bufsz P) (snd_read_ptr s) (snd_write_ptr s) (snd_count s)"

definition same_rcv :: "spcb \<Rightarrow> spcb \<Rightarrow> bool" where
  "same_rcv s s' \<longleftrightarrow> rcv_read_ptr s' = rcv_read_ptr s \<and> rcv_write_ptr s' = rcv_write_ptr s \<and>
     rcv_count s' = rcv_count s \<and> rcv_buffer s' = rcv_buffer s \<and> rcv_sem s' = rcv_sem s"

definition same_snd :: "spcb \<Rightarrow> spcb \<Rightarrow> bool" where
  "same_snd s s' \<longleftrightarrow> snd_read_ptr s' = snd_read_ptr s \<and> snd_write_ptr s' = snd_write_ptr s \<and>
     snd_count s' = snd_count s \<and> snd_buffer s' = snd_buffer s \<and> snd_sem s' = snd_sem s"

definition same_mode :: "spcb \<Rightarrow> spcb \<Rightarrow> bool" where
  "same_mode s s' \<longleftrightarrow> openflag s' = openflag s \<and> errorflag s' = errorflag s"

lemma same_rcv: "same_rcv s s' \<Longrightarrow> rcv_list P s' = rcv_list P s" by (simp add: same_rcv_def rcv_list_def)
lemma same_snd: "same_snd s s' \<Longrightarrow> snd_list P s' = snd_list P s" by (simp add: same_snd_def snd_list_def)

lemma same_frame: "same_rcv s s' \<Longrightarrow> rcv_count s' = rcv_count s \<and> rcv_sem s' = rcv_sem s"
  "same_snd s s' \<Longrightarrow> snd_count s' = snd_count s \<and> snd_sem s' = snd_sem s"
  "same_mode s s' \<Longrightarrow> openflag s' = openflag s \<and> errorflag s' = errorflag s"
  by (simp_all add: same_rcv_def same_snd_def same_mode_def)

lemmas same_defs = same_rcv_def same_snd_def same_mode_def

lemma serial_snd_chr:
  assumes "serial_snd_chr rdy c s = (ok, out, s')"
  shows "out = (if ok then [c] else [])" and "same_rcv s s'" and "same_snd s s'" and "same_mode s s'"
    and "ioctl s' = ioctl s" and "snd_stopped s' = snd_stopped s" and "rcv_stopped s' = rcv_stopped s"
  using assms by (auto simp: serial_snd_chr_def sio_snd_chr_def same_defs split: if_splits)

text \<open>A character written goes out at once or to the end of the buffer.\<close>

lemma serial_put:
  assumes B: "bufs_ok P s" and n: "snd_count s < snd_bufsz P" and e: "serial_put P rdy c s = (full, out, s')"
  shows "bufs_ok P s'" and "out @ snd_list P s' = snd_list P s @ [c]" and "full \<longleftrightarrow> snd_count s' = snd_bufsz P"
    and "same_rcv s s'" and "same_mode s s'" and "snd_sem s' = snd_sem s"
proof -
  have R: "ring_ok (snd_bufsz P) (snd_read_ptr s) (snd_write_ptr s) (snd_count s)" using B by (simp add: bufs_ok_def)
  note put = ring_put [OF R n]
  obtain ok o1 s1 where s1: "(if snd_count s = 0 \<and> \<not> snd_stopped s then serial_snd_chr rdy c s else (False, [], s)) = (ok, o1, s1)"
    by (metis prod_cases3)
  have F: "o1 = (if ok then [c] else [])" "same_rcv s s1" "same_snd s s1" "same_mode s s1" "ok \<Longrightarrow> snd_count s = 0"
    using s1 serial_snd_chr [of rdy c s ok o1 s1] by (auto simp: same_defs split: if_splits)
  let ?s = "s1\<lparr>snd_buffer := (snd_buffer s1)(snd_write_ptr s1 := c), snd_write_ptr := INC_PTR (snd_write_ptr s1) (snd_bufsz P),
    snd_count := snd_count s1 + 1\<rparr>"
  have s': "s' = (if ok then s1 else ?s)" "out = o1" "full = (\<not> ok \<and> snd_count s1 + 1 = snd_bufsz P)"
    using e by (auto simp: serial_put_def s1 Let_def split: if_splits)
  show "bufs_ok P s'" using B F s'(1) put(1) by (auto simp: bufs_ok_def same_defs)
  show "out @ snd_list P s' = snd_list P s @ [c]"
    using F s' put(2) [of "snd_buffer s" c] by (cases ok) (simp_all add: snd_list_def same_defs ring_empty)
  show "full \<longleftrightarrow> snd_count s' = snd_bufsz P" using F s' n by (auto simp: same_defs)
  show "same_rcv s s'" "same_mode s s'" "snd_sem s' = snd_sem s" using F s'(1) by (simp_all add: same_defs)
qed

lemma serial_rea_chr:
  assumes B: "bufs_ok P s" and n: "0 < rcv_count s" and e: "serial_rea_chr P rdy s = (c, emp, out, s')"
  shows "bufs_ok P s'" and "rcv_list P s = c # rcv_list P s'" and "emp \<longleftrightarrow> rcv_count s' = 0"
    and "same_snd s s'" and "same_mode s s'" and "rcv_sem s' = rcv_sem s" and "ioctl s' = ioctl s"
proof -
  have R: "ring_ok (rcv_bufsz P) (rcv_read_ptr s) (rcv_write_ptr s) (rcv_count s)" using B by (simp add: bufs_ok_def)
  note get = ring_get [OF R n]
  have d: "dec_uint (rcv_count s) = rcv_count s - 1" using n by (simp add: dec_uint_def)
  let ?s = "s\<lparr>rcv_read_ptr := INC_PTR (rcv_read_ptr s) (rcv_bufsz P), rcv_count := dec_uint (rcv_count s)\<rparr>"
  have F: "same_rcv ?s s' \<and> same_snd s s' \<and> same_mode s s' \<and> ioctl s' = ioctl s \<and>
      c = rcv_buffer s (rcv_read_ptr s) \<and> emp = (rcv_count s - 1 = 0)"
    using e unfolding serial_rea_chr_def Let_def
    by (auto simp: same_defs d serial_snd_chr_def sio_snd_chr_def split: if_splits prod.splits)
  show "bufs_ok P s'" "rcv_list P s = c # rcv_list P s'" "emp \<longleftrightarrow> rcv_count s' = 0"
    "same_snd s s'" "same_mode s s'" "rcv_sem s' = rcv_sem s" "ioctl s' = ioctl s"
    using F B get d by (auto simp: bufs_ok_def rcv_list_def same_defs)
qed

text \<open>The callbacks.  A signal goes out when a full send or an empty receive buffer ceases to be so.\<close>

definition sig :: "bool \<Rightarrow> asem \<Rightarrow> asem" where
  "sig b a = (if b then snd (asem_signal 1 a) else a)"

lemma isig:
  "fst (asem_signal 1 (snd_sem s)) = E_OK \<Longrightarrow> isig_snd s = s\<lparr>snd_sem := sig True (snd_sem s)\<rparr>"
  "fst (asem_signal 1 (rcv_sem s)) = E_OK \<Longrightarrow> isig_rcv s = s\<lparr>rcv_sem := sig True (rcv_sem s)\<rparr>"
  by (auto simp: isig_snd_def isig_rcv_def sig_def Let_def split: prod.splits)

lemma snd_advance:
  assumes B: "bufs_ok P s" and n: "0 < snd_count s"
    and q: "snd_count s = snd_bufsz P \<Longrightarrow> fst (asem_signal 1 (snd_sem s)) = E_OK"
  shows "bufs_ok P (snd_advance P s)" and "snd_list P s = snd_buffer s (snd_read_ptr s) # snd_list P (snd_advance P s)"
    and "snd_sem (snd_advance P s) = sig (snd_count s = snd_bufsz P) (snd_sem s)"
    and "same_rcv s (snd_advance P s)" and "same_mode s (snd_advance P s)"
    and "snd_count (snd_advance P s) = snd_count s - 1" and "rcv_stopped (snd_advance P s) = rcv_stopped s"
proof -
  have R: "ring_ok (snd_bufsz P) (snd_read_ptr s) (snd_write_ptr s) (snd_count s)" using B by (simp add: bufs_ok_def)
  have d: "dec_uint (snd_count s) = snd_count s - 1" using n by (simp add: dec_uint_def)
  have d': "dec_uint (snd_bufsz P) = snd_bufsz P - 1" if "snd_count s = snd_bufsz P" using d that by simp
  have e: "snd_advance P s = s\<lparr>snd_read_ptr := INC_PTR (snd_read_ptr s) (snd_bufsz P),
      snd_sem := sig (snd_count s = snd_bufsz P) (snd_sem s), snd_count := snd_count s - 1\<rparr>"
    using q by (auto simp: snd_advance_def Let_def isig d d' sig_def)
  show "bufs_ok P (snd_advance P s)" "snd_list P s = snd_buffer s (snd_read_ptr s) # snd_list P (snd_advance P s)"
    "snd_sem (snd_advance P s) = sig (snd_count s = snd_bufsz P) (snd_sem s)"
    "same_rcv s (snd_advance P s)" "same_mode s (snd_advance P s)"
    "snd_count (snd_advance P s) = snd_count s - 1" "rcv_stopped (snd_advance P s) = rcv_stopped s"
    using B ring_get [OF R n] by (simp_all add: e bufs_ok_def snd_list_def same_defs)
qed

text \<open>Of what a callback hands to the device, the characters from the send buffer.\<close>

definition data_snd :: "spcb \<Rightarrow> string \<Rightarrow> string" where
  "data_snd s out = (if rcv_fc_chr s \<noteq> CHR 0x00 then [] else out)"

definition data_rcv :: "spcb \<Rightarrow> spcb \<Rightarrow> string \<Rightarrow> string" where
  "data_rcv s s' out = (if rcv_stopped s' \<noteq> rcv_stopped s then [] else out)"

lemma sio_irdy_snd:
  assumes B: "bufs_ok P s" and q: "snd_count s = snd_bufsz P \<Longrightarrow> fst (asem_signal 1 (snd_sem s)) = E_OK"
    and e: "sio_irdy_snd P True s = (out, s')"
  shows "bufs_ok P s'" and "data_snd s out @ snd_list P s' = snd_list P s" and "same_rcv s s'" and "same_mode s s'"
    and "snd_sem s' = sig (snd_count s = snd_bufsz P \<and> snd_count s' \<noteq> snd_bufsz P) (snd_sem s)"
    and "snd_count s' \<le> snd_count s"
proof -
  have "bufs_ok P s' \<and> data_snd s out @ snd_list P s' = snd_list P s \<and> same_rcv s s' \<and> same_mode s s' \<and>
    snd_sem s' = sig (snd_count s = snd_bufsz P \<and> snd_count s' \<noteq> snd_bufsz P) (snd_sem s) \<and> snd_count s' \<le> snd_count s"
  proof (cases "rcv_fc_chr s = CHR 0x00 \<and> \<not> snd_stopped s \<and> 0 < snd_count s")
    case True
    then have s': "s' = snd_advance P s" "out = [snd_buffer s (snd_read_ptr s)]"
      using e by (auto simp: sio_irdy_snd_def sio_snd_chr_def)
    have n: "0 < snd_count s" using True by simp
    have "snd_count s - 1 \<noteq> snd_bufsz P" using B n by (auto simp: bufs_ok_def ring_ok_def)
    then show ?thesis using snd_advance [OF B n q] True s' by (simp add: data_snd_def)
  next
    case False
    then have "s' = (if rcv_fc_chr s \<noteq> CHR 0x00 then s\<lparr>rcv_fc_chr := CHR 0x00\<rparr> else s\<lparr>cbr_snd := False\<rparr>)"
        "rcv_fc_chr s = CHR 0x00 \<Longrightarrow> out = []"
      using e by (auto simp: sio_irdy_snd_def split: if_splits)
    then show ?thesis using B by (auto simp: bufs_ok_def same_defs snd_list_def data_snd_def sig_def)
  qed
  then show "bufs_ok P s'" "data_snd s out @ snd_list P s' = snd_list P s" "same_rcv s s'" "same_mode s s'"
    "snd_sem s' = sig (snd_count s = snd_bufsz P \<and> snd_count s' \<noteq> snd_bufsz P) (snd_sem s)" "snd_count s' \<le> snd_count s"
    by blast+
qed

text \<open>A character that has been received: stored, or a control character or dropped.\<close>

lemma sio_irdy_rcv:
  assumes B: "bufs_ok P s" and q: "snd_count s = snd_bufsz P \<Longrightarrow> fst (asem_signal 1 (snd_sem s)) = E_OK"
    "rcv_count s = 0 \<Longrightarrow> fst (asem_signal 1 (rcv_sem s)) = E_OK"
    and e: "sio_irdy_rcv P rdy c s = (out, s')"
  shows "bufs_ok P s'" and "data_rcv s s' out @ snd_list P s' = snd_list P s" and "same_mode s s'"
    and "rcv_list P s' = rcv_list P s @ (if rcv_count s' = rcv_count s then [] else [c])"
    and "snd_sem s' = sig (snd_count s = snd_bufsz P \<and> snd_count s' \<noteq> snd_bufsz P) (snd_sem s)"
    and "rcv_sem s' = sig (rcv_count s = 0 \<and> rcv_count s' \<noteq> 0) (rcv_sem s)"
    and "snd_count s' \<le> snd_count s" and "rcv_count s \<le> rcv_count s'"
proof -
  let ?goal = "bufs_ok P s' \<and> data_rcv s s' out @ snd_list P s' = snd_list P s \<and> same_mode s s' \<and>
    rcv_list P s' = rcv_list P s @ (if rcv_count s' = rcv_count s then [] else [c]) \<and>
    snd_sem s' = sig (snd_count s = snd_bufsz P \<and> snd_count s' \<noteq> snd_bufsz P) (snd_sem s) \<and>
    rcv_sem s' = sig (rcv_count s = 0 \<and> rcv_count s' \<noteq> 0) (rcv_sem s) \<and>
    snd_count s' \<le> snd_count s \<and> rcv_count s \<le> rcv_count s'"
  have keep: ?goal if "same_rcv s s'" "same_snd s s'" "same_mode s s'" "out = []"
    using that B same_rcv [OF that(1)] same_snd [OF that(2)]
    by (auto simp: bufs_ok_def same_rcv_def same_snd_def data_rcv_def sig_def)
  consider (stop) "ioctl s AND IOCTL_FCSND \<noteq> 0 \<and> c = FC_STOP"
    | (start) "\<not> (ioctl s AND IOCTL_FCSND \<noteq> 0 \<and> c = FC_STOP)" "snd_stopped s \<and> (c = FC_START \<or> ioctl s AND IOCTL_FCANY \<noteq> 0)"
    | (drop) "\<not> (ioctl s AND IOCTL_FCSND \<noteq> 0 \<and> c = FC_STOP)" "\<not> (snd_stopped s \<and> (c = FC_START \<or> ioctl s AND IOCTL_FCANY \<noteq> 0))"
       "ioctl s AND IOCTL_FCSND \<noteq> 0 \<and> c = FC_START \<or> rcv_count s = rcv_bufsz P"
    | (store) "\<not> (ioctl s AND IOCTL_FCSND \<noteq> 0 \<and> c = FC_STOP)" "\<not> (snd_stopped s \<and> (c = FC_START \<or> ioctl s AND IOCTL_FCANY \<noteq> 0))"
       "\<not> (ioctl s AND IOCTL_FCSND \<noteq> 0 \<and> c = FC_START)" "rcv_count s \<noteq> rcv_bufsz P"
    by blast
  then have ?goal
  proof cases
    case stop
    then show ?thesis using e by (intro keep) (auto simp: sio_irdy_rcv_def same_defs)
  next
    case drop
    then show ?thesis using e by (intro keep) (auto simp: sio_irdy_rcv_def same_defs split: if_splits)
  next
    case start
    let ?s = "s\<lparr>snd_stopped := False\<rparr>"
    have Bs: "bufs_ok P ?s" "snd_count ?s = snd_bufsz P \<Longrightarrow> fst (asem_signal 1 (snd_sem ?s)) = E_OK"
      using B q(1) by (simp_all add: bufs_ok_def)
    obtain ok o1 s1 where s1: "serial_snd_chr rdy (snd_buffer s (snd_read_ptr s)) ?s = (ok, o1, s1)" by (metis prod_cases3)
    note F = serial_snd_chr [OF s1]
    have os: "(out, s') = (if 0 < snd_count s then (o1, if ok then snd_advance P s1 else s1) else ([], ?s))"
      unfolding e [symmetric] sio_irdy_rcv_def if_not_P [OF start(1)] if_P [OF start(2)] Let_def using s1 by simp
    show ?thesis
    proof (cases "0 < snd_count s \<and> ok")
      case True
      then have s1s: "s1 = ?s" using s1 by (auto simp: serial_snd_chr_def sio_snd_chr_def split: if_splits)
      have s': "s' = snd_advance P ?s" "out = [snd_buffer s (snd_read_ptr s)]"
        using os True F(1) s1s by simp_all
      have "snd_count s - 1 \<noteq> snd_bufsz P" using B True by (auto simp: bufs_ok_def ring_ok_def)
      then show ?thesis using snd_advance [OF Bs(1) _ Bs(2)] True s' B
        by (auto simp: same_defs snd_list_def rcv_list_def data_rcv_def sig_def)
    next
      case False
      then have "same_rcv s s' \<and> same_snd s s' \<and> same_mode s s' \<and> out = []"
        using os F by (auto simp: same_defs split: if_splits)
      then show ?thesis using keep by blast
    qed
  next
    case store
    have R: "ring_ok (rcv_bufsz P) (rcv_read_ptr s) (rcv_write_ptr s) (rcv_count s)" and n: "rcv_count s < rcv_bufsz P"
      using B store(4) by (auto simp: bufs_ok_def ring_ok_def)
    let ?s = "s\<lparr>rcv_buffer := (rcv_buffer s)(rcv_write_ptr s := c), rcv_write_ptr := INC_PTR (rcv_write_ptr s) (rcv_bufsz P),
      rcv_sem := sig (rcv_count s = 0) (rcv_sem s), rcv_count := rcv_count s + 1\<rparr>"
    obtain ok o1 s1 where s1: "serial_snd_chr rdy FC_STOP ?s = (ok, o1, s1)" by (metis prod_cases3)
    have f: "\<not> (ioctl s AND IOCTL_FCSND \<noteq> 0 \<and> c = FC_START)" "\<not> rcv_count s = rcv_bufsz P" using store(3,4) by blast+
    have i: "(let s = s\<lparr>rcv_buffer := (rcv_buffer s)(rcv_write_ptr s := c), rcv_write_ptr := INC_PTR (rcv_write_ptr s) (rcv_bufsz P)\<rparr>;
        s = (if rcv_count s = 0 then isig_rcv s else s) in s\<lparr>rcv_count := rcv_count s + 1\<rparr>) = ?s"
      using q(2) by (simp add: Let_def isig sig_def)
    have os: "(out, s') = (if ioctl ?s AND IOCTL_FCRCV \<noteq> 0 \<and> \<not> rcv_stopped ?s \<and> BUFCNT_STOP (rcv_bufsz P) \<le> rcv_count ?s
        then (o1, (if \<not> ok then s1\<lparr>rcv_fc_chr := FC_STOP\<rparr> else s1)\<lparr>rcv_stopped := True\<rparr>) else ([], ?s))"
      unfolding e [symmetric] sio_irdy_rcv_def if_not_P [OF store(1)] if_not_P [OF store(2)] if_not_P [OF f(1)] if_not_P [OF f(2)]
      using i s1 by (simp only: Let_def prod.case)
    have F: "same_rcv ?s s' \<and> same_snd s s' \<and> same_mode s s' \<and> (out \<noteq> [] \<longrightarrow> rcv_stopped s' \<noteq> rcv_stopped s)"
      using os serial_snd_chr [OF s1] by (simp add: same_defs split: if_splits)
    have rs: "rcv_list P s' = rcv_list P s @ [c]"
      using F ring_put(2) [OF R n, of "rcv_buffer s" c] by (auto simp: same_rcv_def rcv_list_def)
    have so: "snd_list P s' = snd_list P s" "data_rcv s s' out = []"
      using F same_snd [of s s' P] by (auto simp: data_rcv_def)
    show ?thesis
      using F B ring_put(1) [OF R n] rs so by (auto simp: bufs_ok_def same_rcv_def same_snd_def sig_def)
  qed
  then show "bufs_ok P s'" "data_rcv s s' out @ snd_list P s' = snd_list P s" "same_mode s s'"
    "rcv_list P s' = rcv_list P s @ (if rcv_count s' = rcv_count s then [] else [c])"
    "snd_sem s' = sig (snd_count s = snd_bufsz P \<and> snd_count s' \<noteq> snd_bufsz P) (snd_sem s)"
    "rcv_sem s' = sig (rcv_count s = 0 \<and> rcv_count s' \<noteq> 0) (rcv_sem s)"
    "snd_count s' \<le> snd_count s" "rcv_count s \<le> rcv_count s'"
    by blast+
qed

end
