(* ===== verification/Serial_Run.thy ===== *)
theory Serial_Run
  imports Serial
begin

text \<open>
  The tasks that use a serial port, and its interrupts, as interleaved steps.  A step of a task is one
  section under \<open>loc_cpu\<close> or one call of a semaphore service.  \<open>serial_wri_dat\<close>, \<open>serial_wri_chr\<close> and
  \<open>serial_rea_dat\<close> of \<open>syssvc/serial.c\<close> are spelt out as the places between their steps.
\<close>

section \<open>Places\<close>

text \<open>
  What follows when a character has been written: \<open>Writing rest n\<close>, the rest of the string and the number of
  characters written before this one (\<open>wricnt\<close>); \<open>Echo i m e\<close>, the characters read (\<open>reacnt\<close>), those still to
  read, and \<open>buffer_empty\<close>.
\<close>

datatype cont = Writing string nat | Echo nat nat bool

text \<open>
  \<open>Snd_call b c k\<close>: before \<open>wai_sem(snd_semid)\<close>, at the beginning of \<open>serial_wri_chr\<close> for \<open>c\<close> (\<open>b\<close>) or after it
  has sent the CR; \<open>Snd_wait\<close>: asleep there.  \<open>Enter\<close>, \<open>Put\<close>: before the first and the second section of
  \<open>serial_wri_chr\<close>.  \<open>Snd_sig\<close>, \<open>Rcv_sig\<close>: before \<open>sig_sem\<close>.  \<open>Take\<close>: before the section of \<open>serial_rea_chr\<close>.
\<close>

datatype place = Out
  | Snd_call bool char cont | Snd_wait bool char cont | Enter char cont | Put char cont | Snd_sig cont
  | Rcv_call nat nat | Rcv_wait nat nat | Take nat nat | Rcv_sig nat

definition next_read :: "nat \<Rightarrow> nat \<Rightarrow> bool \<Rightarrow> place" where
  "next_read i m e =
     (if m = 0 then (if e then Out else Rcv_sig i)
      else if e then Rcv_call i m else Take i m)"

fun after_chr :: "bool \<Rightarrow> cont \<Rightarrow> place" where
  "after_chr full (Writing [] n) = (if full then Out else Snd_sig (Writing [] (n + 1)))"
| "after_chr full (Writing (c # cs) n) = (if full then Snd_call True c (Writing cs (n + 1)) else Enter c (Writing cs (n + 1)))"
| "after_chr full (Echo i m e) = (if full then next_read i m e else Snd_sig (Echo i m e))"

fun after_sig :: "cont \<Rightarrow> place" where
  "after_sig (Writing cs n) = Out"
| "after_sig (Echo i m e) = next_read i m e"

fun resumed :: "place \<Rightarrow> place" where
  "resumed (Snd_wait b c k) = (if b then Enter c k else Put c k)"
| "resumed (Rcv_wait i m) = Take i m"
| "resumed p = p"

section \<open>Steps\<close>

text \<open>
  Besides the port and the places of the tasks, the state records the characters given to the send buffer,
  those of them handed to the device, the characters stored in the receive buffer and those of them read.
\<close>

record srun =
  port :: spcb
  at :: "tskix \<Rightarrow> place"
  given :: string
  sent :: string
  arrived :: string
  taken_chr :: string

text \<open>The tasks that a signal has taken out of the wait queues go on.\<close>

definition woken :: "asem \<Rightarrow> asem \<Rightarrow> tskix set" where
  "woken a a' = set (snd a) - set (snd a')"

definition wake :: "spcb \<Rightarrow> spcb \<Rightarrow> (tskix \<Rightarrow> place) \<Rightarrow> tskix \<Rightarrow> place" where
  "wake s s' f = (\<lambda>t. if t \<in> woken (snd_sem s) (snd_sem s') \<union> woken (rcv_sem s) (rcv_sem s') then resumed (f t) else f t)"

definition asleep_snd :: "place \<Rightarrow> bool" where
  "asleep_snd p = (case p of Snd_wait _ _ _ \<Rightarrow> True | _ \<Rightarrow> False)"

definition asleep_rcv :: "place \<Rightarrow> bool" where
  "asleep_rcv p = (case p of Rcv_wait _ _ \<Rightarrow> True | _ \<Rightarrow> False)"

text \<open>A place at which the task has acquired \<open>snd_semid\<close>, or \<open>rcv_semid\<close>, and has not given it back.\<close>

definition holds_snd :: "place \<Rightarrow> bool" where
  "holds_snd p = (case p of Enter _ _ \<Rightarrow> True | Put _ _ \<Rightarrow> True | Snd_sig _ \<Rightarrow> True | _ \<Rightarrow> False)"

fun echo_holds :: "cont \<Rightarrow> bool" where
  "echo_holds (Writing cs n) = False" | "echo_holds (Echo i m e) = (\<not> e)"

definition holds_rcv :: "place \<Rightarrow> bool" where
  "holds_rcv p = (case p of Take _ _ \<Rightarrow> True | Rcv_sig _ \<Rightarrow> True
     | Snd_call _ _ k \<Rightarrow> echo_holds k | Snd_wait _ _ k \<Rightarrow> echo_holds k
     | Enter _ k \<Rightarrow> echo_holds k | Put _ k \<Rightarrow> echo_holds k | Snd_sig k \<Rightarrow> echo_holds k | _ \<Rightarrow> False)"

text \<open>
  \<open>ins\<close> is the order of the wait queues.  \<open>lossy\<close> says whether \<open>rel_wai\<close> may hit a task that waits to echo
  a character while it has to give back \<open>rcv_semid\<close>.
\<close>

inductive serial_step :: "spinib \<Rightarrow> (tskix \<Rightarrow> tskix list \<Rightarrow> tskix list) \<Rightarrow> bool \<Rightarrow> srun \<Rightarrow> srun \<Rightarrow> bool" for P ins lossy where
  opn: "\<not> openflag (port S) \<Longrightarrow>
    serial_step P ins lossy S (S\<lparr>port := serial_opn (port S), given := [], sent := [], arrived := [], taken_chr := []\<rparr>)"
| cls: "openflag (port S) \<Longrightarrow> \<forall>t. at S t = Out \<or> (asleep_snd (at S t) \<or> asleep_rcv (at S t)) \<and> \<not> holds_rcv (at S t) \<Longrightarrow>
    serial_step P ins lossy S (S\<lparr>port := serial_cls (port S), at := (\<lambda>t. Out)\<rparr>)"
| ctl: "openflag (port S) \<Longrightarrow> \<not> errorflag (port S) \<Longrightarrow> serial_step P ins lossy S (S\<lparr>port := (port S)\<lparr>ioctl := ioc\<rparr>\<rparr>)"
| wri_dat: "at S t = Out \<Longrightarrow> openflag (port S) \<Longrightarrow> \<not> errorflag (port S) \<Longrightarrow>
    serial_step P ins lossy S (S\<lparr>at := (at S)(t := Snd_call True c (Writing cs 0))\<rparr>)"
| rea_dat: "at S t = Out \<Longrightarrow> openflag (port S) \<Longrightarrow> \<not> errorflag (port S) \<Longrightarrow> 0 < m \<Longrightarrow>
    serial_step P ins lossy S (S\<lparr>at := (at S)(t := Rcv_call 0 m)\<rparr>)"
| snd_wait: "at S t = Snd_call b c k \<Longrightarrow> asem_wait (ins t) (snd_sem (port S)) = (ok, a) \<Longrightarrow>
    serial_step P ins lossy S (S\<lparr>port := (port S)\<lparr>snd_sem := a\<rparr>,
      at := (at S)(t := if ok then resumed (Snd_wait b c k) else Snd_wait b c k)\<rparr>)"
| rcv_wait: "at S t = Rcv_call i m \<Longrightarrow> asem_wait (ins t) (rcv_sem (port S)) = (ok, a) \<Longrightarrow>
    serial_step P ins lossy S (S\<lparr>port := (port S)\<lparr>rcv_sem := a\<rparr>,
      at := (at S)(t := if ok then Take i m else Rcv_wait i m)\<rparr>)"
| cr: "at S t = Enter (CHR 0x0A) k \<Longrightarrow> ioctl (port S) AND IOCTL_CRLF \<noteq> 0 \<Longrightarrow>
    serial_put P rdy (CHR 0x0D) (port S) = (full, out, s) \<Longrightarrow>
    serial_step P ins lossy S (S\<lparr>port := s, at := (at S)(t := if full then Snd_call False (CHR 0x0A) k else Put (CHR 0x0A) k),
      given := given S @ [CHR 0x0D], sent := sent S @ out\<rparr>)"
| chr: "at S t = Put c k \<or> at S t = Enter c k \<and> \<not> (c = CHR 0x0A \<and> ioctl (port S) AND IOCTL_CRLF \<noteq> 0) \<Longrightarrow>
    serial_put P rdy c (port S) = (full, out, s) \<Longrightarrow>
    serial_step P ins lossy S (S\<lparr>port := s, at := (at S)(t := after_chr full k),
      given := given S @ [c], sent := sent S @ out\<rparr>)"
| snd_sig: "at S t = Snd_sig k \<Longrightarrow> s = isig_snd (port S) \<Longrightarrow>
    serial_step P ins lossy S (S\<lparr>port := s, at := wake (port S) s ((at S)(t := after_sig k))\<rparr>)"
| rea_chr: "at S t = Take i m \<Longrightarrow> serial_rea_chr P rdy (port S) = (c, e, out, s) \<Longrightarrow>
    serial_step P ins lossy S (S\<lparr>port := s, at := (at S)(t :=
        if ioctl s AND IOCTL_ECHO \<noteq> 0 then Snd_call True c (Echo (i + 1) (m - 1) e) else next_read (i + 1) (m - 1) e),
      taken_chr := taken_chr S @ [c]\<rparr>)"
| rcv_sig: "at S t = Rcv_sig i \<Longrightarrow> s = isig_rcv (port S) \<Longrightarrow>
    serial_step P ins lossy S (S\<lparr>port := s, at := wake (port S) s ((at S)(t := Out))\<rparr>)"
| irdy_snd: "openflag (port S) \<Longrightarrow> sio_irdy_snd P True (port S) = (out, s) \<Longrightarrow>
    serial_step P ins lossy S (S\<lparr>port := s, at := wake (port S) s (at S), sent := sent S @ data_snd (port S) out\<rparr>)"
| irdy_rcv: "openflag (port S) \<Longrightarrow> sio_irdy_rcv P rdy c (port S) = (out, s) \<Longrightarrow>
    serial_step P ins lossy S (S\<lparr>port := s, at := wake (port S) s (at S), sent := sent S @ data_rcv (port S) s out,
      arrived := arrived S @ (if rcv_count s = rcv_count (port S) then [] else [c])\<rparr>)"
| rel_snd: "asleep_snd (at S t) \<Longrightarrow> lossy \<or> \<not> holds_rcv (at S t) \<Longrightarrow>
    serial_step P ins lossy S (S\<lparr>port := (port S)\<lparr>snd_sem := (fst (snd_sem (port S)), remove1 t (snd (snd_sem (port S))))\<rparr>,
      at := (at S)(t := Out)\<rparr>)"
| rel_rcv: "asleep_rcv (at S t) \<Longrightarrow>
    serial_step P ins lossy S (S\<lparr>port := (port S)\<lparr>rcv_sem := (fst (rcv_sem (port S)), remove1 t (snd (rcv_sem (port S))))\<rparr>,
      at := (at S)(t := Out)\<rparr>)"

definition serial_start :: "srun \<Rightarrow> bool" where
  "serial_start S \<longleftrightarrow> \<not> openflag (port S) \<and> snd_sem (port S) = (1, []) \<and> rcv_sem (port S) = (0, []) \<and> (\<forall>t. at S t = Out)"

inductive serial_reach :: "spinib \<Rightarrow> (tskix \<Rightarrow> tskix list \<Rightarrow> tskix list) \<Rightarrow> bool \<Rightarrow> srun \<Rightarrow> bool" for P ins lossy where
  start: "serial_start S \<Longrightarrow> serial_reach P ins lossy S"
| step: "serial_reach P ins lossy S \<Longrightarrow> serial_step P ins lossy S S' \<Longrightarrow> serial_reach P ins lossy S'"

section \<open>A binary semaphore as a token\<close>

text \<open>
  The unit of a semaphore is in exactly one place: the semaphore itself, a task, or (\<open>full\<close>) with the
  interrupt handler that will signal; the wait queue holds the sleeping tasks, once each, and only while
  the semaphore has no unit.
\<close>

definition token :: "asem \<Rightarrow> (tskix \<Rightarrow> bool) \<Rightarrow> (tskix \<Rightarrow> bool) \<Rightarrow> bool \<Rightarrow> bool" where
  "token a H A full \<longleftrightarrow>
     (fst a = 1 \<and> (\<forall>t. \<not> H t) \<and> \<not> full \<or> fst a = 0 \<and> (\<exists>t. H = (\<lambda>u. u = t)) \<and> \<not> full \<or> fst a = 0 \<and> (\<forall>t. \<not> H t) \<and> full) \<and>
     (snd a \<noteq> [] \<longrightarrow> fst a = 0) \<and> distinct (snd a) \<and> (\<forall>t. A t \<longleftrightarrow> t \<in> set (snd a))"

lemma asem_signal_0: "asem_signal (Suc 0) (0, ts) = (E_OK, if ts = [] then 1 else 0, tl ts)"
  by (cases ts) auto

lemma token_signal:
  assumes T: "token a H A full" and h: "full \<or> H t"
  shows "fst (asem_signal 1 a) = E_OK"
    and "token (sig True a) (\<lambda>u. u \<in> woken a (sig True a) \<or> (full \<or> u \<noteq> t) \<and> H u) (\<lambda>u. A u \<and> u \<notin> woken a (sig True a)) False"
    and "u \<in> woken a (sig True a) \<Longrightarrow> A u"
proof -
  obtain ts where a: "a = (0, ts)" using T h by (cases a) (auto simp: token_def)
  show "fst (asem_signal 1 a) = E_OK" by (simp add: a asem_signal_0)
  have w: "woken a (sig True a) = set ts - set (tl ts)" by (simp add: a woken_def sig_def asem_signal_0)
  show "u \<in> woken a (sig True a) \<Longrightarrow> A u" using T by (auto simp: woken_def a token_def)
  have H: "(full \<or> u \<noteq> t) \<and> H u \<longleftrightarrow> False" for u using T h by (auto simp: token_def fun_eq_iff)
  show "token (sig True a) (\<lambda>u. u \<in> woken a (sig True a) \<or> (full \<or> u \<noteq> t) \<and> H u) (\<lambda>u. A u \<and> u \<notin> woken a (sig True a)) False"
  proof (cases ts)
    case Nil
    then show ?thesis using T unfolding H w by (simp add: token_def a sig_def asem_signal_0)
  next
    case (Cons x xs)
    then have "x \<notin> set xs" "set ts - set (tl ts) = {x}" using T by (auto simp: token_def a)
    then show ?thesis using T Cons unfolding H w by (auto simp: token_def a sig_def asem_signal_0)
  qed
qed

lemma token_task:
  assumes T: "token a H A full" and h: "H t"
  shows "\<not> full" and "token a (H(t := False)) A True"
  using assms by (auto simp: token_def fun_eq_iff)

lemma token_wait:
  assumes T: "token a H A full" and n: "\<not> A t" and e: "asem_wait (ins t) a = (ok, a')"
    and ins: "mset (ins t (snd a)) = add_mset t (mset (snd a))"
  shows "token a' (if ok then H(t := True) else H) (if ok then A else A(t := True)) full"
proof -
  have m: "set (ins t (snd a)) = insert t (set (snd a))" "distinct (ins t (snd a)) \<longleftrightarrow> t \<notin> set (snd a) \<and> distinct (snd a)"
    using mset_eq_setD [of "ins t (snd a)" "t # snd a"] mset_eq_imp_distinct_iff [of "ins t (snd a)" "t # snd a"] ins by auto
  show ?thesis
  proof (cases "1 \<le> fst a")
    case True
    then have "ok" "a' = (0, snd a)" "\<And>u. \<not> H u" "\<not> full" "snd a = []" using T e by (cases a; auto simp: token_def)+
    then show ?thesis using T by (auto simp: token_def fun_eq_iff)
  next
    case False
    then have "\<not> ok" "a' = (fst a, ins t (snd a))" "fst a = 0" using e by (cases a; auto)+
    then show ?thesis using T n m by (auto simp: token_def)
  qed
qed

lemma token_release:
  "token a H A full \<Longrightarrow> token (fst a, remove1 t (snd a)) H (A(t := False)) full"
  by (auto simp: token_def)

section \<open>The invariant\<close>

definition serial_inv :: "spinib \<Rightarrow> srun \<Rightarrow> bool" where
  "serial_inv P S \<longleftrightarrow>
     (if openflag (port S) then
        bufs_ok P (port S) \<and> \<not> errorflag (port S) \<and>
        token (snd_sem (port S)) (\<lambda>t. holds_snd (at S t)) (\<lambda>t. asleep_snd (at S t)) (snd_count (port S) = snd_bufsz P) \<and>
        token (rcv_sem (port S)) (\<lambda>t. holds_rcv (at S t)) (\<lambda>t. asleep_rcv (at S t)) (rcv_count (port S) = 0) \<and>
        given S = sent S @ snd_list P (port S) \<and> arrived S = taken_chr S @ rcv_list P (port S)
      else snd_sem (port S) = (1, []) \<and> rcv_sem (port S) = (0, []) \<and> (\<forall>t. at S t = Out))"

lemma serial_invD:
  assumes "serial_inv P S" and "openflag (port S)"
  shows "bufs_ok P (port S)" and "\<not> errorflag (port S)"
    and "token (snd_sem (port S)) (\<lambda>t. holds_snd (at S t)) (\<lambda>t. asleep_snd (at S t)) (snd_count (port S) = snd_bufsz P)"
    and "token (rcv_sem (port S)) (\<lambda>t. holds_rcv (at S t)) (\<lambda>t. asleep_rcv (at S t)) (rcv_count (port S) = 0)"
    and "given S = sent S @ snd_list P (port S)" and "arrived S = taken_chr S @ rcv_list P (port S)"
  using assms by (simp_all add: serial_inv_def)

lemma serial_invI:
  assumes "openflag (port S)" and "bufs_ok P (port S)" and "\<not> errorflag (port S)"
    and "token (snd_sem (port S)) (\<lambda>t. holds_snd (at S t)) (\<lambda>t. asleep_snd (at S t)) (snd_count (port S) = snd_bufsz P)"
    and "token (rcv_sem (port S)) (\<lambda>t. holds_rcv (at S t)) (\<lambda>t. asleep_rcv (at S t)) (rcv_count (port S) = 0)"
    and "given S = sent S @ snd_list P (port S)" and "arrived S = taken_chr S @ rcv_list P (port S)"
  shows "serial_inv P S"
  using assms by (simp add: serial_inv_def)

lemma open_out: "serial_inv P S \<Longrightarrow> at S t \<noteq> Out \<Longrightarrow> openflag (port S)"
  by (auto simp: serial_inv_def split: if_splits)

lemma places [simp]:
  "holds_snd (next_read i m e) = False" "asleep_snd (next_read i m e) = False" "asleep_rcv (next_read i m e) = False"
  "holds_rcv (next_read i m e) = (\<not> e)"
  "holds_snd (after_chr full k) = (\<not> full)" "holds_rcv (after_chr full k) = echo_holds k"
  "asleep_snd (after_chr full k) = False" "asleep_rcv (after_chr full k) = False"
  "holds_snd (after_sig k) = False" "holds_rcv (after_sig k) = echo_holds k"
  "asleep_snd (after_sig k) = False" "asleep_rcv (after_sig k) = False"
proof -
  show n: "holds_snd (next_read i m e) = False" "asleep_snd (next_read i m e) = False"
    "asleep_rcv (next_read i m e) = False" "holds_rcv (next_read i m e) = (\<not> e)" for i m e
    by (simp_all add: next_read_def holds_snd_def asleep_snd_def asleep_rcv_def holds_rcv_def)
  note d = holds_snd_def asleep_snd_def asleep_rcv_def holds_rcv_def
  show "holds_snd (after_chr full k) = (\<not> full)" "holds_rcv (after_chr full k) = echo_holds k"
    "asleep_snd (after_chr full k) = False" "asleep_rcv (after_chr full k) = False"
    by (cases "(full, k)" rule: after_chr.cases; use n in \<open>auto simp: d\<close>)+
  show "holds_snd (after_sig k) = False" "holds_rcv (after_sig k) = echo_holds k"
    "asleep_snd (after_sig k) = False" "asleep_rcv (after_sig k) = False"
    by (cases k; use n in \<open>auto simp: d\<close>)+
qed

lemma woken_same [simp]: "woken a a = {}" by (simp add: woken_def)

lemma wake_places:
  assumes "\<And>t. t \<in> woken (snd_sem s) (snd_sem s') \<Longrightarrow> asleep_snd (f t)"
    and "\<And>t. t \<in> woken (rcv_sem s) (rcv_sem s') \<Longrightarrow> asleep_rcv (f t)"
  shows "holds_snd (wake s s' f t) = (t \<in> woken (snd_sem s) (snd_sem s') \<or> holds_snd (f t))"
    and "asleep_snd (wake s s' f t) = (asleep_snd (f t) \<and> t \<notin> woken (snd_sem s) (snd_sem s'))"
    and "holds_rcv (wake s s' f t) = (t \<in> woken (rcv_sem s) (rcv_sem s') \<or> holds_rcv (f t))"
    and "asleep_rcv (wake s s' f t) = (asleep_rcv (f t) \<and> t \<notin> woken (rcv_sem s) (rcv_sem s'))"
  using assms [of t]
  by (cases "f t"; auto simp: wake_def holds_snd_def asleep_snd_def asleep_rcv_def holds_rcv_def)+

lemmas place_defs = holds_snd_def asleep_snd_def asleep_rcv_def holds_rcv_def

text \<open>A step of the task \<open>t\<close> that wakes no other.\<close>

lemma at_upd:
  "(\<lambda>u. F ((f(t := x)) u)) = (\<lambda>u. F (f u))(t := F x)" for F :: "place \<Rightarrow> bool"
  by auto

lemma resumed_places [simp]:
  "holds_snd (resumed (Snd_wait b c k))" "\<not> asleep_snd (resumed (Snd_wait b c k))"
  "\<not> asleep_rcv (resumed (Snd_wait b c k))" "holds_rcv (resumed (Snd_wait b c k)) = echo_holds k"
  by (simp_all add: place_defs)

lemma upd_same: "F t = x \<Longrightarrow> F(t := x) = F" by auto

lemma task_step:
  assumes I: "serial_inv P S" and o: "openflag (port S)"
    and a: "at S' = (at S)(t := x)" and p: "bufs_ok P (port S')" "same_mode (port S) (port S')"
    and snd: "token (snd_sem (port S')) ((\<lambda>u. holds_snd (at S u))(t := holds_snd x))
      ((\<lambda>u. asleep_snd (at S u))(t := asleep_snd x)) (snd_count (port S') = snd_bufsz P)"
    and rcv: "token (rcv_sem (port S')) ((\<lambda>u. holds_rcv (at S u))(t := holds_rcv x))
      ((\<lambda>u. asleep_rcv (at S u))(t := asleep_rcv x)) (rcv_count (port S') = 0)"
    and hist: "given S' = sent S' @ snd_list P (port S')" "arrived S' = taken_chr S' @ rcv_list P (port S')"
  shows "serial_inv P S'"
proof (rule serial_invI)
  show "openflag (port S')" "\<not> errorflag (port S')"
    using o p(2) serial_invD(2) [OF I o] by (simp_all add: same_mode_def)
  show "token (snd_sem (port S')) (\<lambda>t. holds_snd (at S' t)) (\<lambda>t. asleep_snd (at S' t)) (snd_count (port S') = snd_bufsz P)"
    using snd unfolding a at_upd .
  show "token (rcv_sem (port S')) (\<lambda>t. holds_rcv (at S' t)) (\<lambda>t. asleep_rcv (at S' t)) (rcv_count (port S') = 0)"
    using rcv unfolding a at_upd .
qed (use p(1) hist in simp_all)

text \<open>The token of the send buffer goes with the character that fills it.\<close>

lemma put_step:
  assumes I: "serial_inv P S" and o: "openflag (port S)" and h: "holds_snd (at S t)" "\<not> asleep_rcv (at S t)"
    and e: "serial_put P rdy c (port S) = (full, out, s)"
    and x: "holds_snd x = (\<not> full)" "holds_rcv x = holds_rcv (at S t)" "\<not> asleep_snd x" "\<not> asleep_rcv x"
  shows "serial_inv P (S\<lparr>port := s, at := (at S)(t := x), given := given S @ [c], sent := sent S @ out\<rparr>)"
proof -
  note B = serial_invD(1) [OF I o] and T = serial_invD(3) [OF I o] and R = serial_invD(4) [OF I o]
  have f: "snd_count (port S) \<noteq> snd_bufsz P" "\<not> asleep_snd (at S t)"
    using token_task(1) [OF T] h(1) by (auto simp: place_defs split: place.splits)
  have n: "snd_count (port S) < snd_bufsz P" using f(1) B by (auto simp: bufs_ok_def ring_ok_def)
  note E = serial_put [OF B n e]
  have "token (snd_sem s) ((\<lambda>u. holds_snd (at S u))(t := holds_snd x)) ((\<lambda>u. asleep_snd (at S u))(t := asleep_snd x))
      (snd_count s = snd_bufsz P)"
    using token_task(2) [OF T, of t] T h(1) f E(3,6) x(1,3) by (cases full) (simp_all add: upd_same)
  moreover have "token (rcv_sem s) ((\<lambda>u. holds_rcv (at S u))(t := holds_rcv x)) ((\<lambda>u. asleep_rcv (at S u))(t := asleep_rcv x))
      (rcv_count s = 0)"
    using R x(2,4) h(2) same_frame(1) [OF E(4)] by (simp add: upd_same)
  ultimately show ?thesis
    using E(1,2,5) serial_invD(5,6) [OF I o] same_rcv [OF E(4), of P]
    by (intro task_step [OF I o, of _ t x]) simp_all
qed

lemma wait_step:
  assumes I: "serial_inv P S" and ins: "\<And>t ts. mset (ins t ts) = add_mset t (mset ts)"
    and a: "at S t = Snd_call b c k" and e: "asem_wait (ins t) (snd_sem (port S)) = (ok, a')"
  shows "serial_inv P (S\<lparr>port := (port S)\<lparr>snd_sem := a'\<rparr>,
      at := (at S)(t := if ok then resumed (Snd_wait b c k) else Snd_wait b c k)\<rparr>)"
proof -
  have o: "openflag (port S)" using open_out [OF I, of t] a by simp
  have "token a' (if ok then (\<lambda>u. holds_snd (at S u))(t := True) else (\<lambda>u. holds_snd (at S u)))
      (if ok then (\<lambda>u. asleep_snd (at S u)) else (\<lambda>u. asleep_snd (at S u))(t := True)) (snd_count (port S) = snd_bufsz P)"
    by (rule token_wait [where ins = ins and t = t, OF serial_invD(3) [OF I o] _ e ins]) (simp add: a place_defs)
  moreover define x where "x = (if ok then resumed (Snd_wait b c k) else Snd_wait b c k)"
  have "holds_snd x = ok" "asleep_snd x = (\<not> ok)" "holds_rcv x = echo_holds k" "\<not> asleep_rcv x"
    by (simp_all add: x_def place_defs)
  moreover have "\<not> holds_snd (at S t)" "\<not> asleep_snd (at S t)" "\<not> asleep_rcv (at S t)" "holds_rcv (at S t) = echo_holds k"
    by (simp_all add: a place_defs)
  ultimately have "serial_inv P (S\<lparr>port := (port S)\<lparr>snd_sem := a'\<rparr>, at := (at S)(t := x)\<rparr>)"
    using serial_invD [OF I o]
    by (intro task_step [OF I o, of _ t x]; cases ok)
      (simp_all add: upd_same bufs_ok_def same_mode_def snd_list_def rcv_list_def)
  then show ?thesis by (simp only: x_def)
qed

lemma rcv_wait_step:
  assumes I: "serial_inv P S" and ins: "\<And>t ts. mset (ins t ts) = add_mset t (mset ts)"
    and a: "at S t = Rcv_call i m" and e: "asem_wait (ins t) (rcv_sem (port S)) = (ok, a')"
  shows "serial_inv P (S\<lparr>port := (port S)\<lparr>rcv_sem := a'\<rparr>, at := (at S)(t := if ok then Take i m else Rcv_wait i m)\<rparr>)"
proof -
  have o: "openflag (port S)" using open_out [OF I, of t] a by simp
  have "token a' (if ok then (\<lambda>u. holds_rcv (at S u))(t := True) else (\<lambda>u. holds_rcv (at S u)))
      (if ok then (\<lambda>u. asleep_rcv (at S u)) else (\<lambda>u. asleep_rcv (at S u))(t := True)) (rcv_count (port S) = 0)"
    by (rule token_wait [where ins = ins and t = t, OF serial_invD(4) [OF I o] _ e ins]) (simp add: a place_defs)
  moreover define x where "x = (if ok then Take i m else Rcv_wait i m)"
  have "holds_rcv x = ok" "asleep_rcv x = (\<not> ok)" "\<not> holds_snd x" "\<not> asleep_snd x"
    by (simp_all add: x_def place_defs)
  moreover have "\<not> holds_snd (at S t)" "\<not> asleep_snd (at S t)" "\<not> asleep_rcv (at S t)" "\<not> holds_rcv (at S t)"
    by (simp_all add: a place_defs)
  ultimately have "serial_inv P (S\<lparr>port := (port S)\<lparr>rcv_sem := a'\<rparr>, at := (at S)(t := x)\<rparr>)"
    using serial_invD [OF I o]
    by (intro task_step [OF I o, of _ t x]; cases ok)
      (simp_all add: upd_same bufs_ok_def same_mode_def snd_list_def rcv_list_def)
  then show ?thesis by (simp only: x_def)
qed

lemma snd_sig_step:
  assumes I: "serial_inv P S" and a: "at S t = Snd_sig k" and s: "s = isig_snd (port S)"
  shows "serial_inv P (S\<lparr>port := s, at := wake (port S) s ((at S)(t := after_sig k))\<rparr>)"
proof -
  have o: "openflag (port S)" using open_out [OF I, of t] a by simp
  note T = serial_invD(3) [OF I o] and R = serial_invD(4) [OF I o]
  have ht: "holds_snd (at S t)" by (simp add: a place_defs)
  note G = token_signal [OF T disjI2, of t, OF ht]
  have nf: "snd_count (port S) \<noteq> snd_bufsz P" using token_task(1) [OF T] ht by blast
  have s': "s = (port S)\<lparr>snd_sem := sig True (snd_sem (port S))\<rparr>" unfolding s by (rule isig(1) [OF G(1)])
  let ?w = "woken (snd_sem (port S)) (sig True (snd_sem (port S)))" and ?f = "(at S)(t := after_sig k)"
  have "\<not> asleep_snd (at S t)" by (simp add: a place_defs)
  then have w: "asleep_snd (?f u)" if "u \<in> ?w" for u using G(3) [OF that] by auto
  have "at S t = Snd_sig k \<Longrightarrow> holds_rcv (at S t) = echo_holds k \<and> \<not> asleep_rcv (at S t) \<and> \<not> asleep_snd (at S t)"
    by (simp add: place_defs)
  note q = this [OF a]
  have W: "holds_snd (wake (port S) s ?f u) = (u \<in> ?w \<or> u \<noteq> t \<and> holds_snd (at S u))"
    "asleep_snd (wake (port S) s ?f u) = (asleep_snd (at S u) \<and> u \<notin> ?w)"
    "holds_rcv (wake (port S) s ?f u) = holds_rcv (at S u)" "asleep_rcv (wake (port S) s ?f u) = asleep_rcv (at S u)" for u
    using wake_places [of "port S" s ?f u] w q by (auto simp: s')
  show ?thesis
    by (rule serial_invI)
      (use G(2) R nf W serial_invD [OF I o] o in \<open>simp_all add: s' bufs_ok_def snd_list_def rcv_list_def\<close>)
qed

lemma rcv_sig_step:
  assumes I: "serial_inv P S" and a: "at S t = Rcv_sig i" and s: "s = isig_rcv (port S)"
  shows "serial_inv P (S\<lparr>port := s, at := wake (port S) s ((at S)(t := Out))\<rparr>)"
proof -
  have o: "openflag (port S)" using open_out [OF I, of t] a by simp
  note T = serial_invD(3) [OF I o] and R = serial_invD(4) [OF I o]
  have ht: "holds_rcv (at S t)" by (simp add: a place_defs)
  note G = token_signal [OF R disjI2, of t, OF ht]
  have nf: "rcv_count (port S) \<noteq> 0" using token_task(1) [OF R] ht by blast
  have s': "s = (port S)\<lparr>rcv_sem := sig True (rcv_sem (port S))\<rparr>" unfolding s by (rule isig(2) [OF G(1)])
  let ?w = "woken (rcv_sem (port S)) (sig True (rcv_sem (port S)))" and ?f = "(at S)(t := Out)"
  have q: "\<not> holds_snd (at S t)" "\<not> asleep_rcv (at S t)" "\<not> asleep_snd (at S t)" by (simp_all add: a place_defs)
  then have w: "asleep_rcv (?f u)" if "u \<in> ?w" for u using G(3) [OF that] by auto
  have W: "holds_rcv (wake (port S) s ?f u) = (u \<in> ?w \<or> u \<noteq> t \<and> holds_rcv (at S u))"
    "asleep_rcv (wake (port S) s ?f u) = (asleep_rcv (at S u) \<and> u \<notin> ?w)"
    "holds_snd (wake (port S) s ?f u) = holds_snd (at S u)" "asleep_snd (wake (port S) s ?f u) = asleep_snd (at S u)" for u
    using wake_places [of "port S" s ?f u] w q by (auto simp: s' place_defs)
  show ?thesis
    by (rule serial_invI)
      (use G(2) T nf W serial_invD [OF I o] o in \<open>simp_all add: s' bufs_ok_def snd_list_def rcv_list_def\<close>)
qed

text \<open>A callback: a buffer may cease to be full, or empty, with the signal for it.\<close>

lemma callback_token:
  assumes T: "token a H A full" and f: "full' \<Longrightarrow> full" and A: "\<And>u. A u \<Longrightarrow> \<not> H u"
  shows "token (sig (full \<and> \<not> full') a) (\<lambda>u. u \<in> woken a (sig (full \<and> \<not> full') a) \<or> H u)
      (\<lambda>u. A u \<and> u \<notin> woken a (sig (full \<and> \<not> full') a)) full'"
    and "u \<in> woken a (sig (full \<and> \<not> full') a) \<Longrightarrow> A u"
    and "full \<Longrightarrow> fst (asem_signal 1 a) = E_OK"
proof -
  have "token (sig (full \<and> \<not> full') a) (\<lambda>u. u \<in> woken a (sig (full \<and> \<not> full') a) \<or> H u)
      (\<lambda>u. A u \<and> u \<notin> woken a (sig (full \<and> \<not> full') a)) full' \<and> (u \<in> woken a (sig (full \<and> \<not> full') a) \<longrightarrow> A u)"
  proof (cases "full \<and> \<not> full'")
    case True
    then show ?thesis using token_signal(2) [OF T disjI1, of undefined] token_signal(3) [OF T disjI1, of u] by simp
  next
    case False
    then have "full' = full" using f by blast
    then show ?thesis using T by (simp add: sig_def)
  qed
  then show "token (sig (full \<and> \<not> full') a) (\<lambda>u. u \<in> woken a (sig (full \<and> \<not> full') a) \<or> H u)
      (\<lambda>u. A u \<and> u \<notin> woken a (sig (full \<and> \<not> full') a)) full'"
    "u \<in> woken a (sig (full \<and> \<not> full') a) \<Longrightarrow> A u" by blast+
  show "full \<Longrightarrow> fst (asem_signal 1 a) = E_OK" using token_signal(1) [OF T disjI1] by blast
qed

lemma asleep_not_holds: "asleep_snd p \<Longrightarrow> \<not> holds_snd p" "asleep_rcv p \<Longrightarrow> \<not> holds_rcv p"
  by (cases p; simp add: place_defs)+

lemma callback_step:
  assumes I: "serial_inv P S" and o: "openflag (port S)" and B: "bufs_ok P s" and m: "same_mode (port S) s"
    and snd: "snd_sem s = sig (snd_count (port S) = snd_bufsz P \<and> snd_count s \<noteq> snd_bufsz P) (snd_sem (port S))"
      "snd_count s \<le> snd_count (port S)"
    and rcv: "rcv_sem s = sig (rcv_count (port S) = 0 \<and> rcv_count s \<noteq> 0) (rcv_sem (port S))"
      "rcv_count (port S) \<le> rcv_count s"
    and d: "d @ snd_list P s = snd_list P (port S)" "rcv_list P s = rcv_list P (port S) @ r"
  shows "serial_inv P (S\<lparr>port := s, at := wake (port S) s (at S), sent := sent S @ d, arrived := arrived S @ r\<rparr>)"
proof -
  have "snd_count (port S) \<le> snd_bufsz P" using serial_invD(1) [OF I o] by (simp add: bufs_ok_def ring_ok_def)
  then have f: "snd_count s = snd_bufsz P \<Longrightarrow> snd_count (port S) = snd_bufsz P" "rcv_count s = 0 \<Longrightarrow> rcv_count (port S) = 0"
    using snd(2) rcv(2) by auto
  note T = callback_token [where full' = "snd_count s = snd_bufsz P",
      OF serial_invD(3) [OF I o] f(1) asleep_not_holds(1), folded snd(1), simplified]
    and R = callback_token [where full' = "rcv_count s = 0",
      OF serial_invD(4) [OF I o] f(2) asleep_not_holds(2), folded rcv(1), simplified]
  have "openflag s" "\<not> errorflag s" using m serial_invD(2) [OF I o] o by (simp_all add: same_mode_def)
  moreover note W = wake_places [of "port S" s "at S", OF T(2) R(2)]
  moreover have "given S = (sent S @ d) @ snd_list P s" "arrived S @ r = taken_chr S @ rcv_list P s"
    using serial_invD(5,6) [OF I o] d by simp_all
  ultimately show ?thesis
    by (intro serial_invI) (use T(1) R(1) B W in simp_all)
qed

lemma rea_chr_step:
  assumes I: "serial_inv P S" and a: "at S t = Take i m" and e: "serial_rea_chr P rdy (port S) = (c, emp, out, s)"
    and x: "\<not> holds_snd x" "holds_rcv x = (\<not> emp)" "\<not> asleep_snd x" "\<not> asleep_rcv x"
  shows "serial_inv P (S\<lparr>port := s, at := (at S)(t := x), taken_chr := taken_chr S @ [c]\<rparr>)"
proof -
  have o: "openflag (port S)" using open_out [OF I, of t] a by simp
  note T = serial_invD(3) [OF I o] and R = serial_invD(4) [OF I o]
  have h: "holds_rcv (at S t)" "\<not> holds_snd (at S t)" "\<not> asleep_snd (at S t)" "\<not> asleep_rcv (at S t)"
    by (simp_all add: a place_defs)
  have n: "0 < rcv_count (port S)" using token_task(1) [OF R, of t] h(1) by simp
  note E = serial_rea_chr [OF serial_invD(1) [OF I o] n e]
  have "token (rcv_sem s) ((\<lambda>u. holds_rcv (at S u))(t := holds_rcv x)) ((\<lambda>u. asleep_rcv (at S u))(t := asleep_rcv x)) (rcv_count s = 0)"
    using token_task(2) [OF R, of t] R h E(3,6) n x(2,4) by (cases emp) (simp_all add: upd_same)
  moreover have "token (snd_sem s) ((\<lambda>u. holds_snd (at S u))(t := holds_snd x)) ((\<lambda>u. asleep_snd (at S u))(t := asleep_snd x))
      (snd_count s = snd_bufsz P)"
    using T x(1,3) h same_frame(2) [OF E(4)] by (simp add: upd_same)
  ultimately show ?thesis
    using E(1,2,5) serial_invD(5,6) [OF I o] same_snd [OF E(4), of P]
    by (intro task_step [OF I o, of _ t x]) simp_all
qed

lemma sleep_release_step:
  assumes I: "serial_inv P S"
  shows "asleep_snd (at S t) \<Longrightarrow> \<not> holds_rcv (at S t) \<Longrightarrow>
      serial_inv P (S\<lparr>port := (port S)\<lparr>snd_sem := (fst (snd_sem (port S)), remove1 t (snd (snd_sem (port S))))\<rparr>, at := (at S)(t := Out)\<rparr>)"
    and "asleep_rcv (at S t) \<Longrightarrow>
      serial_inv P (S\<lparr>port := (port S)\<lparr>rcv_sem := (fst (rcv_sem (port S)), remove1 t (snd (rcv_sem (port S))))\<rparr>, at := (at S)(t := Out)\<rparr>)"
proof -
  have x: "\<not> holds_snd Out" "\<not> holds_rcv Out" "\<not> asleep_snd Out" "\<not> asleep_rcv Out" by (simp_all add: place_defs)
  have sep: "asleep_snd p \<Longrightarrow> \<not> asleep_rcv p \<and> \<not> holds_snd p" "asleep_rcv p \<Longrightarrow> \<not> asleep_snd p \<and> \<not> holds_rcv p \<and> \<not> holds_snd p" for p
    by (cases p; simp add: place_defs)+
  have o: "asleep_snd (at S t) \<or> asleep_rcv (at S t) \<Longrightarrow> openflag (port S)"
    using open_out [OF I, of t] by (cases "at S t") (simp_all add: place_defs)
  show "asleep_snd (at S t) \<Longrightarrow> \<not> holds_rcv (at S t) \<Longrightarrow>
      serial_inv P (S\<lparr>port := (port S)\<lparr>snd_sem := (fst (snd_sem (port S)), remove1 t (snd (snd_sem (port S))))\<rparr>, at := (at S)(t := Out)\<rparr>)"
    using serial_invD [OF I o] token_release [OF serial_invD(3) [OF I o], of t] x sep(1) [of "at S t"]
    by (intro task_step [OF I o, of _ t Out])
      (simp_all add: upd_same bufs_ok_def same_mode_def snd_list_def rcv_list_def)
  show "asleep_rcv (at S t) \<Longrightarrow>
      serial_inv P (S\<lparr>port := (port S)\<lparr>rcv_sem := (fst (rcv_sem (port S)), remove1 t (snd (rcv_sem (port S))))\<rparr>, at := (at S)(t := Out)\<rparr>)"
    using serial_invD [OF I o] token_release [OF serial_invD(4) [OF I o], of t] x sep(2) [of "at S t"]
    by (intro task_step [OF I o, of _ t Out])
      (simp_all add: upd_same bufs_ok_def same_mode_def snd_list_def rcv_list_def)
qed

lemma call_start_step:
  assumes I: "serial_inv P S" and a: "at S t = Out" "openflag (port S)"
    and x: "\<not> holds_snd x" "\<not> holds_rcv x" "\<not> asleep_snd x" "\<not> asleep_rcv x"
  shows "serial_inv P (S\<lparr>at := (at S)(t := x)\<rparr>)"
proof -
  have "\<not> holds_snd Out" "\<not> holds_rcv Out" "\<not> asleep_snd Out" "\<not> asleep_rcv Out" by (simp_all add: place_defs)
  then show ?thesis using serial_invD [OF I a(2)] x a(1)
    by (intro task_step [OF I a(2), of _ t x]) (simp_all add: upd_same same_mode_def)
qed

lemma serial_step_inv:
  assumes I: "serial_inv P S" and c: "serial_step P ins False S S'"
    and ins: "\<And>t ts. mset (ins t ts) = add_mset t (mset ts)" and P: "0 < rcv_bufsz P" "0 < snd_bufsz P"
  shows "serial_inv P S'"
  using c
proof cases
  case opn
  then have "snd_sem (port S) = (1, [])" "rcv_sem (port S) = (0, [])" "\<And>t. at S t = Out" using I by (auto simp: serial_inv_def)
  then show ?thesis using opn P
    by (intro serial_invI)
      (auto simp: serial_opn_def bufs_ok_def ring_empty snd_list_def rcv_list_def token_def place_defs)
next
  case cls
  then show ?thesis by (simp add: serial_inv_def serial_cls_def)
next
  case (ctl ioc)
  then show ?thesis using serial_invD [OF I]
    by (intro serial_invI) (simp_all add: bufs_ok_def snd_list_def rcv_list_def)
next
  case (wri_dat t c cs)
  then show ?thesis using call_start_step [OF I, of t "Snd_call True c (Writing cs 0)"] by (simp add: place_defs)
next
  case (rea_dat t m)
  then show ?thesis using call_start_step [OF I, of t "Rcv_call 0 m"] by (simp add: place_defs)
next
  case (snd_wait t b c k ok a)
  show ?thesis unfolding snd_wait(1) by (rule wait_step [OF I ins snd_wait(2,3)])
next
  case (rcv_wait t i m ok a)
  show ?thesis unfolding rcv_wait(1) by (rule rcv_wait_step [OF I ins rcv_wait(2,3)])
next
  case (cr t k rdy full out s)
  have o: "openflag (port S)" using open_out [OF I, of t] cr(2) by simp
  show ?thesis unfolding cr(1)
    by (rule put_step [OF I o _ _ cr(4)]) (simp_all add: cr(2) place_defs)
next
  case (chr t c k rdy full out s)
  have h: "holds_snd (at S t)" "\<not> asleep_rcv (at S t)" "holds_rcv (at S t) = echo_holds k" and o: "openflag (port S)"
    using chr(2) open_out [OF I, of t] by (auto simp: place_defs)
  show ?thesis unfolding chr(1) by (rule put_step [OF I o h(1,2) chr(3)]) (simp_all add: h(3))
next
  case (snd_sig t k s)
  show ?thesis unfolding snd_sig(1) by (rule snd_sig_step [OF I snd_sig(2,3)])
next
  case (rea_chr t i m rdy c e out s)
  show ?thesis unfolding rea_chr(1) by (rule rea_chr_step [OF I rea_chr(2,3)]) (simp_all, simp_all add: place_defs)
next
  case (rcv_sig t i s)
  show ?thesis unfolding rcv_sig(1) by (rule rcv_sig_step [OF I rcv_sig(2,3)])
next
  case (irdy_snd out s)
  note q = callback_token(3) [OF serial_invD(3) [OF I irdy_snd(2)] _ asleep_not_holds(1)]
  note E = sio_irdy_snd [OF serial_invD(1) [OF I irdy_snd(2)] q irdy_snd(3)]
  have "serial_inv P (S\<lparr>port := s, at := wake (port S) s (at S), sent := sent S @ data_snd (port S) out, arrived := arrived S @ []\<rparr>)"
    by (rule callback_step [OF I irdy_snd(2) E(1) E(4) E(5,6)]) (use E same_rcv [OF E(3)] in \<open>auto simp: same_rcv_def sig_def\<close>)
  then show ?thesis using irdy_snd(1) by simp
next
  case (irdy_rcv rdy c out s)
  note q = callback_token(3) [OF serial_invD(3) [OF I irdy_rcv(2)] _ asleep_not_holds(1)]
    callback_token(3) [OF serial_invD(4) [OF I irdy_rcv(2)] _ asleep_not_holds(2)]
  note E = sio_irdy_rcv [OF serial_invD(1) [OF I irdy_rcv(2)] q irdy_rcv(3)]
  show ?thesis unfolding irdy_rcv(1)
    by (rule callback_step [OF I irdy_rcv(2) E(1,3,5,7,6,8,2,4)])
next
  case (rel_snd t)
  then show ?thesis using sleep_release_step(1) [OF I] by simp
next
  case (rel_rcv t)
  then show ?thesis using sleep_release_step(2) [OF I] by simp
qed

lemma serial_reach_inv:
  assumes "serial_reach P ins False S"
    and "\<And>t ts. mset (ins t ts) = add_mset t (mset ts)" and "0 < rcv_bufsz P" and "0 < snd_bufsz P"
  shows "serial_inv P S"
  using assms(1)
proof induction
  case (start S)
  then show ?case by (simp add: serial_start_def serial_inv_def)
next
  case (step S S')
  then show ?case using serial_step_inv assms(2-4) by blast
qed

section \<open>Input that nobody can read\<close>

text \<open>
  A state in which characters are waiting, but the semaphore has no unit, no task will give it back,
  and the callback will not signal, because the buffer is not empty.
\<close>

definition snd_queue_ok :: "srun \<Rightarrow> bool" where
  "snd_queue_ok S \<longleftrightarrow> distinct (snd (snd_sem (port S))) \<and> (\<forall>t. asleep_snd (at S t) \<longleftrightarrow> t \<in> set (snd (snd_sem (port S))))"

definition stranded :: "srun \<Rightarrow> bool" where
  "stranded S \<longleftrightarrow> openflag (port S) \<and> fst (rcv_sem (port S)) = 0 \<and> 0 < rcv_count (port S) \<and>
     (\<forall>t. \<not> holds_rcv (at S t)) \<and> snd_queue_ok S"

lemma put_frame: "serial_put P rdy c s = (full, out, s') \<Longrightarrow>
    rcv_sem s' = rcv_sem s \<and> rcv_count s' = rcv_count s \<and> snd_sem s' = snd_sem s \<and> openflag s' = openflag s"
  by (auto simp: serial_put_def serial_snd_chr_def sio_snd_chr_def Let_def split: if_splits)

lemma signal_queue: "asem_signal n a = (e, a') \<Longrightarrow> snd a' = tl (snd a)"
  by (cases "(n, a)" rule: asem_signal.cases) (auto split: if_splits)

lemma isig_frame: "snd (snd_sem (isig_snd s)) = tl (snd (snd_sem s))" "rcv_sem (isig_snd s) = rcv_sem s"
  "rcv_count (isig_snd s) = rcv_count s" "openflag (isig_snd s) = openflag s"
  by (auto simp: isig_snd_def Let_def dest!: signal_queue split: prod.splits)

lemma advance_frame: "snd (snd_sem (snd_advance P s)) \<in> {snd (snd_sem s), tl (snd (snd_sem s))}"
  "rcv_sem (snd_advance P s) = rcv_sem s" "rcv_count (snd_advance P s) = rcv_count s" "openflag (snd_advance P s) = openflag s"
  by (simp_all add: snd_advance_def Let_def isig_frame)

lemma irdy_snd_frame: "sio_irdy_snd P rdy s = (out, s') \<Longrightarrow>
    snd (snd_sem s') \<in> {snd (snd_sem s), tl (snd (snd_sem s))} \<and> rcv_sem s' = rcv_sem s \<and> rcv_count s' = rcv_count s \<and>
    openflag s' = openflag s"
  using advance_frame [of P s] by (auto simp: sio_irdy_snd_def split: if_splits)

lemma snd_chr_frame: "serial_snd_chr rdy c s = (ok, out, s') \<Longrightarrow> snd_sem s' = snd_sem s \<and> rcv_sem s' = rcv_sem s \<and>
    rcv_count s' = rcv_count s \<and> openflag s' = openflag s"
  by (auto simp: serial_snd_chr_def sio_snd_chr_def split: if_splits)

lemma irdy_rcv_frame:
  assumes e: "sio_irdy_rcv P rdy c s = (out, s')" and n: "0 < rcv_count s"
  shows "snd (snd_sem s') \<in> {snd (snd_sem s), tl (snd (snd_sem s))} \<and> rcv_sem s' = rcv_sem s \<and> 0 < rcv_count s' \<and>
    openflag s' = openflag s"
proof -
  let ?s = "s\<lparr>snd_stopped := False\<rparr>"
  let ?t = "s\<lparr>rcv_buffer := (rcv_buffer s)(rcv_write_ptr s := c), rcv_write_ptr := INC_PTR (rcv_write_ptr s) (rcv_bufsz P),
    rcv_count := rcv_count s + 1\<rparr>"
  obtain ok o1 s1 where s1: "serial_snd_chr rdy (snd_buffer s (snd_read_ptr s)) ?s = (ok, o1, s1)" by (metis prod_cases3)
  obtain ok2 o2 s2 where s2: "serial_snd_chr rdy FC_STOP ?t = (ok2, o2, s2)" by (metis prod_cases3)
  have "s' \<in> {s, s\<lparr>snd_stopped := True\<rparr>, ?s, s1, snd_advance P s1, ?t, s2\<lparr>rcv_stopped := True\<rparr>,
      s2\<lparr>rcv_fc_chr := FC_STOP, rcv_stopped := True\<rparr>}"
    using e n s1 s2 by (simp add: sio_irdy_rcv_def Let_def split: if_split_asm)
  then show ?thesis
    using snd_chr_frame [OF s1] snd_chr_frame [OF s2] advance_frame [of P s1] n by auto
qed

text \<open>Whatever the tasks, the callbacks and \<open>rel_wai\<close> do, only closing the port ends it.\<close>

lemma stranded_wake:
  assumes q: "stranded S" and s: "snd (snd_sem s) \<in> {snd (snd_sem (port S)), tl (snd (snd_sem (port S)))}"
    "rcv_sem s = rcv_sem (port S)" "0 < rcv_count s" "openflag s"
    and f: "\<And>u. holds_rcv (f u) = holds_rcv (at S u)" "\<And>u. asleep_snd (f u) = asleep_snd (at S u)"
    and S': "port S' = s" "at S' = wake (port S) s f"
  shows "stranded S'"
proof -
  have sub: "set (snd (snd_sem s)) \<subseteq> set (snd (snd_sem (port S)))" "distinct (snd (snd_sem s))"
    using s(1) q by (cases "snd (snd_sem (port S))"; auto simp: stranded_def snd_queue_ok_def)+
  have w: "wake (port S) s f u = (if u \<in> woken (snd_sem (port S)) (snd_sem s) then resumed (f u) else f u)" for u
    by (simp add: wake_def s(2))
  have wa: "u \<in> woken (snd_sem (port S)) (snd_sem s) \<Longrightarrow> asleep_snd (f u)" for u
    using q f(2) by (simp add: woken_def stranded_def snd_queue_ok_def)
  have "holds_rcv (resumed p) = holds_rcv p \<and> \<not> asleep_snd (resumed p)" if "asleep_snd p" for p
    using that by (cases p) (simp_all add: place_defs)
  then have r: "holds_rcv (wake (port S) s f u) = holds_rcv (f u)"
    "asleep_snd (wake (port S) s f u) = (asleep_snd (f u) \<and> u \<notin> woken (snd_sem (port S)) (snd_sem s))" for u
    unfolding w using wa by auto
  then have "asleep_snd (wake (port S) s f u) \<longleftrightarrow> u \<in> set (snd (snd_sem s))" for u
    using q f(2) sub(1) by (auto simp: woken_def stranded_def snd_queue_ok_def)
  then show ?thesis using q s r f sub(2) S' by (simp add: stranded_def snd_queue_ok_def)
qed

lemma stranded_task:
  assumes q: "stranded S" and o: "\<not> asleep_snd (at S t)" and x: "\<not> holds_rcv x" "\<not> asleep_snd x"
    and s: "snd_sem s = snd_sem (port S)" "rcv_count s = rcv_count (port S)" "fst (rcv_sem s) = fst (rcv_sem (port S))" "openflag s"
    and S': "port S' = s" "at S' = (at S)(t := x)"
  shows "stranded S'"
  using assms by (auto simp: stranded_def snd_queue_ok_def)

lemma stranded_step:
  assumes q: "stranded S" and c: "serial_step P ins lossy S S'" and o: "openflag (port S')"
    and ins: "\<And>t ts. mset (ins t ts) = add_mset t (mset ts)"
  shows "stranded S'"
proof -
  have Q: "fst (rcv_sem (port S)) = 0" "0 < rcv_count (port S)" "\<And>t. \<not> holds_rcv (at S t)" "openflag (port S)"
    using q by (auto simp: stranded_def)
  from c show ?thesis
  proof cases
    case opn
    then show ?thesis using Q(4) by simp
  next
    case cls
    then show ?thesis using o by (simp add: serial_cls_def)
  next
    case (ctl ioc)
    then show ?thesis using q by (simp add: stranded_def snd_queue_ok_def)
  next
    case (wri_dat t c cs)
    show ?thesis by (rule stranded_task [OF q, of t "Snd_call True c (Writing cs 0)" "port S"]) (use wri_dat in \<open>simp_all add: place_defs\<close>)
  next
    case (rea_dat t m)
    show ?thesis by (rule stranded_task [OF q, of t "Rcv_call 0 m" "port S"]) (use rea_dat in \<open>simp_all add: place_defs\<close>)
  next
    case (snd_wait t b c k ok a)
    have k: "\<not> echo_holds k" "\<not> asleep_snd (at S t)" using Q(3) [of t] snd_wait(2) by (simp_all add: place_defs)
    have m: "set (ins t ts) = insert t (set ts)" "distinct (ins t ts) \<longleftrightarrow> t \<notin> set ts \<and> distinct ts" for ts
      using mset_eq_setD [of "ins t ts" "t # ts"] mset_eq_imp_distinct_iff [of "ins t ts" "t # ts"] ins [of t ts] by auto
    have w: "holds_rcv (Snd_wait b c k) = echo_holds k" "asleep_snd (Snd_wait b c k)" by (simp_all add: place_defs)
    show ?thesis
    proof (cases ok)
      case True
      then have "snd a = snd (snd_sem (port S))" using snd_wait(3) by (cases "snd_sem (port S)") (auto split: if_splits)
      then show ?thesis using q k True snd_wait(1) by (auto simp: stranded_def snd_queue_ok_def simp del: resumed.simps)
    next
      case False
      then have "snd a = ins t (snd (snd_sem (port S)))" using snd_wait(3) by (cases "snd_sem (port S)") (auto split: if_splits)
      then show ?thesis using q k False w m snd_wait(1) by (auto simp: stranded_def snd_queue_ok_def)
    qed
  next
    case (rcv_wait t i m ok a)
    have "\<not> ok" "fst a = 0" using rcv_wait(3) Q(1) by (cases "rcv_sem (port S)"; auto)+
    then show ?thesis using rcv_wait(1,2) Q
      by (intro stranded_task [OF q, of t "Rcv_wait i m" "(port S)\<lparr>rcv_sem := a\<rparr>"]) (simp_all add: place_defs)
  next
    case (cr t k rdy full out s)
    have "\<not> echo_holds k" using Q(3) [of t] cr(2) by (simp add: place_defs)
    then show ?thesis using cr put_frame [OF cr(4)] Q(4)
      by (intro stranded_task [OF q, of t "if full then Snd_call False (CHR 0x0A) k else Put (CHR 0x0A) k" s]) (simp_all add: place_defs)
  next
    case (chr t c k rdy full out s)
    have "\<not> echo_holds k" "\<not> asleep_snd (at S t)" using Q(3) [of t] chr(2) by (auto simp: place_defs)
    then show ?thesis using chr(1) put_frame [OF chr(3)] Q(4)
      by (intro stranded_task [OF q, of t "after_chr full k" s]) simp_all
  next
    case (snd_sig t k s)
    have "\<not> echo_holds k" "\<not> asleep_snd (at S t)" using Q(3) [of t] snd_sig(2) by (simp_all add: place_defs)
    then show ?thesis using snd_sig(1,3) isig_frame [of "port S"] Q
      by (intro stranded_wake [OF q, of s "(at S)(t := after_sig k)"]) simp_all
  next
    case (rea_chr t i m rdy c e out s)
    then show ?thesis using Q(3) [of t] by (simp add: place_defs)
  next
    case (rcv_sig t i s)
    then show ?thesis using Q(3) [of t] by (simp add: place_defs)
  next
    case (irdy_snd out s)
    show ?thesis using irdy_snd(1) irdy_snd_frame [OF irdy_snd(3)] Q by (intro stranded_wake [OF q, of s "at S"]) simp_all
  next
    case (irdy_rcv rdy c out s)
    show ?thesis using irdy_rcv(1) irdy_rcv_frame [OF irdy_rcv(3) Q(2)] Q by (intro stranded_wake [OF q, of s "at S"]) simp_all
  next
    case (rel_snd t)
    then show ?thesis using q by (auto simp: stranded_def snd_queue_ok_def place_defs split: place.splits)
  next
    case (rel_rcv t)
    then show ?thesis using Q(4) by (intro stranded_task [OF q, of t Out "port S'"]) (auto simp: place_defs split: place.splits)
  qed
qed

text \<open>For one task and another, with the rest of the port as after opening.\<close>

definition sview :: "spinib \<Rightarrow> (tskix \<Rightarrow> tskix list \<Rightarrow> tskix list) \<Rightarrow> place \<Rightarrow> place \<Rightarrow> nat \<Rightarrow> nat \<Rightarrow> asem \<Rightarrow> srun \<Rightarrow> bool" where
  "sview P ins a b rc rs ss S \<longleftrightarrow> serial_reach P ins True S \<and> at S 0 = a \<and> at S (Suc 0) = b \<and> (\<forall>t > 1. at S t = Out) \<and>
     openflag (port S) \<and> \<not> errorflag (port S) \<and> ioctl (port S) = 0x511 \<and> rcv_count (port S) = rc \<and>
     rcv_sem (port S) = (rs, []) \<and> snd_sem (port S) = ss \<and> snd_count (port S) = 0 \<and> \<not> snd_stopped (port S) \<and>
     \<not> rcv_stopped (port S)"

lemma sview_next:
  assumes "sview P ins a b rc rs ss S" and "serial_step P ins True S S'"
    and "serial_step P ins True S S' \<Longrightarrow> at S' 0 = a' \<and> at S' (Suc 0) = b' \<and> (\<forall>t > 1. at S' t = Out) \<and>
     openflag (port S') \<and> \<not> errorflag (port S') \<and> ioctl (port S') = 0x511 \<and> rcv_count (port S') = rc' \<and>
     rcv_sem (port S') = (rs', []) \<and> snd_sem (port S') = ss' \<and> snd_count (port S') = 0 \<and> \<not> snd_stopped (port S') \<and>
     \<not> rcv_stopped (port S')"
  shows "sview P ins a' b' rc' rs' ss' S'"
  using assms serial_reach.step [of P ins True S S'] by (simp add: sview_def)

lemmas sview_facts = sview_def wake_def woken_def Let_def isig_snd_def isig_rcv_def IOCTL_ECHO_def IOCTL_CRLF_def
  IOCTL_FCSND_def IOCTL_FCANY_def IOCTL_FCRCV_def FC_STOP_def FC_START_def BUFCNT_STOP_def asem_signal_0

definition port_cfg :: spinib where "port_cfg = \<lparr>rcv_bufsz = 4, snd_bufsz = 4\<rparr>"
definition fifo_order :: "tskix \<Rightarrow> tskix list \<Rightarrow> tskix list" where "fifo_order t ts = ts @ [t]"

definition closed_port :: spcb where
  "closed_port = \<lparr>openflag = False, errorflag = False, ioctl = 0, rcv_read_ptr = 0, rcv_write_ptr = 0, rcv_count = 0,
     rcv_fc_chr = CHR 0x00, rcv_stopped = False, snd_read_ptr = 0, snd_write_ptr = 0, snd_count = 0, snd_stopped = False,
     rcv_buffer = (\<lambda>_. CHR 0x00), snd_buffer = (\<lambda>_. CHR 0x00), rcv_sem = (0, []), snd_sem = (1, []),
     cbr_snd = False, cbr_rcv = False\<rparr>"

definition closed_run :: srun where
  "closed_run = \<lparr>port = closed_port, at = (\<lambda>_. Out), given = [], sent = [], arrived = [], taken_chr = []\<rparr>"

lemma closed_run_reach: "serial_reach P ins lossy closed_run"
  by (rule serial_reach.start) (simp add: serial_start_def closed_run_def closed_port_def)

text \<open>
  A reader is about to echo the first of two characters, while a writer holds the token of the send buffer.
\<close>

lemma echo_blocked: "\<exists>S c. sview port_cfg fifo_order (Snd_call True c (Echo 1 1 False)) (Enter (CHR ''x'') (Writing [] 0)) 1 0 (0, []) S"
proof -
  have r: "serial_reach port_cfg fifo_order True (closed_run\<lparr>port := serial_opn closed_port, given := [], sent := [],
      arrived := [], taken_chr := []\<rparr>)"
    using serial_reach.step [OF closed_run_reach serial_step.opn] by (simp add: closed_run_def closed_port_def)
  have "sview port_cfg fifo_order Out Out 0 0 (1, []) (closed_run\<lparr>port := serial_opn closed_port, given := [], sent := [],
      arrived := [], taken_chr := []\<rparr>)"
    using r by (simp add: sview_facts) (simp add: closed_run_def serial_opn_def closed_port_def sview_facts)
  then obtain S where S: "sview port_cfg fifo_order Out Out 0 0 (1, []) S" by blast
  obtain S where S: "sview port_cfg fifo_order (Rcv_call 0 2) Out 0 0 (1, []) S"
    by (rule that, rule sview_next [OF S, OF serial_step.rea_dat [where t = 0 and m = 2]]) (use S in \<open>simp_all add: sview_facts\<close>)
  obtain S where S: "sview port_cfg fifo_order (Rcv_call 0 2) Out 1 1 (1, []) S"
    by (rule that, rule sview_next [OF S, OF serial_step.irdy_rcv [where c = "CHR ''a''" and rdy = True, OF _ surjective_pairing]]) (use S in \<open>simp_all add: sview_facts sio_irdy_rcv_def port_cfg_def\<close>)
  obtain S where S: "sview port_cfg fifo_order (Rcv_call 0 2) Out 2 1 (1, []) S"
    by (rule that, rule sview_next [OF S, OF serial_step.irdy_rcv [where c = "CHR ''b''" and rdy = True, OF _ surjective_pairing]]) (use S in \<open>simp_all add: sview_facts sio_irdy_rcv_def port_cfg_def\<close>)
  obtain S where S: "sview port_cfg fifo_order (Take 0 2) Out 2 0 (1, []) S"
    by (rule that, rule sview_next [OF S, OF serial_step.rcv_wait [where t = 0 and i = 0 and m = 2 and ok = True and a = "(0, [])"]]) (use S in \<open>simp_all add: sview_facts fifo_order_def\<close>)
  obtain S where S: "sview port_cfg fifo_order (Take 0 2) (Snd_call True (CHR ''x'') (Writing [] 0)) 2 0 (1, []) S"
    by (rule that, rule sview_next [OF S, OF serial_step.wri_dat [where t = "Suc 0" and c = "CHR ''x''" and cs = "[]"]]) (use S in \<open>simp_all add: sview_facts\<close>)
  obtain S where S: "sview port_cfg fifo_order (Take 0 2) (Enter (CHR ''x'') (Writing [] 0)) 2 0 (0, []) S"
    by (rule that, rule sview_next [OF S, OF serial_step.snd_wait [where t = "Suc 0" and b = True and c = "CHR ''x''" and k = "Writing [] 0" and ok = True and a = "(0, [])"]]) (use S in \<open>simp_all add: sview_facts fifo_order_def\<close>)
  obtain c e out s where rc: "serial_rea_chr port_cfg True (port S) = (c, e, out, s)" by (metis prod_cases4)
  have e: "\<not> e" "rcv_count s = 1" "ioctl s = 0x511" "rcv_sem s = (0, [])" "snd_sem s = (0, [])" "openflag s" "\<not> errorflag s"
    "snd_count s = 0" "\<not> snd_stopped s" "\<not> rcv_stopped s"
    using rc S by (auto simp: serial_rea_chr_def sview_facts dec_uint_def split: if_splits)
  obtain S where S: "sview port_cfg fifo_order (Snd_call True c (Echo 1 1 False)) (Enter (CHR ''x'') (Writing [] 0)) 1 0 (0, []) S"
    by (rule that, rule sview_next [OF S, OF serial_step.rea_chr [where t = 0 and i = 0 and m = 2, OF _ rc]]) (use S in \<open>simp_all add: sview_facts e\<close>)
  show ?thesis using S by blast
qed

text \<open>The reader is released from its wait, and the writer goes on.\<close>

lemma input_stranded: "\<exists>S. sview port_cfg fifo_order Out Out 1 0 (1, []) S"
proof -
  obtain S c where S: "sview port_cfg fifo_order (Snd_call True c (Echo 1 1 False)) (Enter (CHR ''x'') (Writing [] 0)) 1 0 (0, []) S"
    using echo_blocked by blast
  obtain S where S: "sview port_cfg fifo_order (Snd_wait True c (Echo 1 1 False)) (Enter (CHR ''x'') (Writing [] 0)) 1 0 (0, [0]) S"
    by (rule that, rule sview_next [OF S, OF serial_step.snd_wait [where t = 0 and b = True and c = c and k = "Echo 1 1 False" and ok = False and a = "(0, [0])"]]) (use S in \<open>simp_all add: sview_facts fifo_order_def\<close>)
  obtain S where S: "sview port_cfg fifo_order Out (Enter (CHR ''x'') (Writing [] 0)) 1 0 (0, []) S"
    by (rule that, rule sview_next [OF S, OF serial_step.rel_snd [where t = 0]]) (use S in \<open>simp_all add: sview_facts asleep_snd_def\<close>)
  obtain full out s where p: "serial_put port_cfg True (CHR ''x'') (port S) = (full, out, s)" by (metis prod_cases3)
  have e: "\<not> full" "rcv_count s = 1" "ioctl s = 0x511" "rcv_sem s = (0, [])" "snd_sem s = (0, [])" "openflag s" "\<not> errorflag s"
    "snd_count s = 0" "\<not> snd_stopped s" "\<not> rcv_stopped s"
    using p S by (auto simp: serial_put_def serial_snd_chr_def sio_snd_chr_def sview_facts)
  obtain S where S: "sview port_cfg fifo_order Out (Snd_sig (Writing [] 1)) 1 0 (0, []) S"
    by (rule that, rule sview_next [OF S, OF serial_step.chr [where t = "Suc 0" and k = "Writing [] 0", OF _ p]]) (use S in \<open>simp_all add: sview_facts e\<close>)
  obtain S where S: "sview port_cfg fifo_order Out Out 1 0 (1, []) S"
    by (rule that, rule sview_next [OF S, OF serial_step.snd_sig [where t = "Suc 0" and k = "Writing [] 1", OF _ refl]]) (use S in \<open>simp_all add: sview_facts\<close>)
  show ?thesis using S by blast
qed

end
