(* ===== verification/Logtask.thy ===== *)
theory Logtask
  imports Syslog Serial_Run
begin

text \<open>
  The system log task (\<open>syssvc/logtask.c\<close>): one round of its main loop, one look of \<open>logtask_flush\<close> at the
  buffers, and the output of what is left when the system ends.  \<open>None\<close> stands for a record whose
  format asks for more arguments than it has (see \<open>Log_Output\<close>).
\<close>

section \<open>Output of a record\<close>

definition append_out :: "string option \<Rightarrow> string option \<Rightarrow> string option" where
  "append_out a b = (case a of None \<Rightarrow> None | Some x \<Rightarrow> map_option ((@) x) b)"

lemma append_out [simp]: "append_out (Some []) b = b" "append_out None b = None" "append_out a (Some []) = a"
  "append_out (append_out a b) c = append_out a (append_out b c)"
  by (cases a; cases b; cases c; simp add: append_out_def option.map_ident)+

text \<open>The message about lost records and the record itself, if it is a message.\<close>

definition log_lines :: "(32 word \<Rightarrow> string) \<Rightarrow> 32 word \<Rightarrow> syslog \<Rightarrow> string option" where
  "log_lines str lostlog r =
     append_out (if 0 < lostlog then syslog_lostmsg str lostlog else Some [])
       (if LOG_TYPE_COMMENT \<le> logtype r then map_option (\<lambda>s. s @ [CHR 0x0A]) (syslog_print str r) else Some [])"

section \<open>The main loop\<close>

text \<open>
  What the task writes for the records it finds, with the number of lost records to report; it reports them
  with the next message, or at the end.
\<close>

function logtask_round :: "(32 word \<Rightarrow> string) \<Rightarrow> 32 word \<Rightarrow> syslogcb \<Rightarrow> string option \<times> syslogcb" where
  "logtask_round str lostlog cb =
     (let (rercd, ro, cb') = syslog_rea_log cb in
      if 0 \<le> rercd then
        (let lostlog = lostlog + of_int rercd; r = the ro in
         if LOG_TYPE_COMMENT \<le> logtype r then
           (let (out, cb'') = logtask_round str 0 cb' in (append_out (log_lines str lostlog r) out, cb''))
         else logtask_round str lostlog cb')
      else (if 0 < lostlog then syslog_lostmsg str lostlog else Some [], cb'))"
  by pat_completeness auto
termination
  by (relation "measure (\<lambda>(_, _, cb). syslog_count cb)")
    (auto simp: syslog_rea_log_def Let_def ER_OBJ_def split: if_splits)

declare logtask_round.simps [simp del]

text \<open>
  \<open>logtask_flush\<close> looks at the log and the send buffer: it returns, or delays and looks again (\<open>None\<close>).
\<close>

definition logtask_flush_look :: "nat \<Rightarrow> ercd \<times> t_syslog_rlog \<Rightarrow> ercd \<times> (nat \<times> nat) option \<Rightarrow> ercd option" where
  "logtask_flush_look cnt rlog rpor =
     (if fst rlog \<noteq> E_OK then Some E_SYS
      else if rlog_count (snd rlog) \<le> cnt then
        (if cnt = 0 then
           (case rpor of (e, p) \<Rightarrow>
              if e \<noteq> E_OK then Some E_SYS
              else if snd (the p) = 0 then Some E_OK else None)
         else Some E_OK)
      else None)"

section \<open>The end of the system\<close>

function unsent :: "nat \<Rightarrow> spinib \<Rightarrow> ident \<Rightarrow> (ident \<Rightarrow> spcb) \<Rightarrow> string \<times> (ident \<Rightarrow> spcb)" where
  "unsent n P portid T =
     (case serial_get_chr n P portid T of
        (None, T) \<Rightarrow> ([], T)
      | (Some c, T) \<Rightarrow> (let (out, T) = unsent n P portid T in (c # out, T)))"
  by pat_completeness auto
termination
  by (relation "measure (\<lambda>(_, _, portid, T). snd_count (T portid))")
    (auto simp: serial_get_chr_def Let_def split: if_splits)

declare unsent.simps [simp del]

function unread :: "(32 word \<Rightarrow> string) \<Rightarrow> bool \<Rightarrow> syslogcb \<Rightarrow> string option \<times> syslogcb" where
  "unread str msgflg cb =
     (let (rercd, ro, cb') = syslog_rea_log cb in
      if 0 \<le> rercd then
        (let hdr = (if \<not> msgflg then syslog_printf str (''-- buffered messages --'' @ [CHR 0x0A]) [] else Some []);
             (out, cb'') = unread str True cb'
         in (append_out hdr (append_out (log_lines str (of_int rercd) (the ro)) out), cb''))
      else (Some [], cb'))"
  by pat_completeness auto
termination
  by (relation "measure (\<lambda>(_, _, cb). syslog_count cb)")
    (auto simp: syslog_rea_log_def Let_def ER_OBJ_def split: if_splits)

declare unread.simps [simp del]

definition logtask_terminate :: "(32 word \<Rightarrow> string) \<Rightarrow> nat \<Rightarrow> spinib \<Rightarrow> ident \<Rightarrow> (ident \<Rightarrow> spcb) \<Rightarrow> syslogcb \<Rightarrow>
    string option \<times> (ident \<Rightarrow> spcb) \<times> syslogcb" where
  "logtask_terminate str n P portid T cb =
     (let (out1, T) = unsent n P portid T;
          (out2, cb) = unread str False cb
      in (append_out (Some out1) out2, T, cb))"

text \<open>Nothing is left behind, and everything comes out in order.\<close>

lemma unsent_all:
  assumes "bufs_ok P (T portid)" and "openflag (T portid)" and "1 \<le> portid" and "portid \<le> int n"
  shows "fst (unsent n P portid T) = snd_list P (T portid)" and "snd_count (snd (unsent n P portid T) portid) = 0"
proof -
  have "fst (unsent n P portid T) = snd_list P (T portid) \<and> snd_count (snd (unsent n P portid T) portid) = 0"
    using assms
  proof (induction n P portid T rule: unsent.induct)
    case (1 n P portid T)
    show ?case
    proof (cases "0 < snd_count (T portid)")
      case True
      let ?T = "T(portid := (T portid)\<lparr>snd_read_ptr := INC_PTR (snd_read_ptr (T portid)) (snd_bufsz P),
        snd_count := snd_count (T portid) - 1\<rparr>)"
      have g: "serial_get_chr n P portid T = (Some (snd_buffer (T portid) (snd_read_ptr (T portid))), ?T)"
        using 1(3-5) True by (simp add: serial_get_chr_def Let_def)
      have R: "ring_ok (snd_bufsz P) (snd_read_ptr (T portid)) (snd_write_ptr (T portid)) (snd_count (T portid))"
        using 1(2) by (simp add: bufs_ok_def)
      have p: "bufs_ok P (?T portid)" "openflag (?T portid)" using ring_get(1) [OF R True] 1(2,3) by (simp_all add: bufs_ok_def)
      have "fst (unsent n P portid ?T) = snd_list P (?T portid) \<and> snd_count (snd (unsent n P portid ?T) portid) = 0"
        by (rule 1(1) [OF g [symmetric] refl p 1(4,5)])
      moreover obtain out T1 where "unsent n P portid ?T = (out, T1)" by fastforce
      ultimately show ?thesis
        using ring_get(2) [OF R True, of "snd_buffer (T portid)"]
        by (simp add: unsent.simps [of n P portid T] g snd_list_def)
    next
      case False
      then have "serial_get_chr n P portid T = (None, T)" by (simp add: serial_get_chr_def)
      then show ?thesis using False by (simp add: unsent.simps [of n P portid T] snd_list_def slots_def)
    qed
  qed
  then show "fst (unsent n P portid T) = snd_list P (T portid)" "snd_count (snd (unsent n P portid T) portid) = 0" by blast+
qed

fun print_all :: "(32 word \<Rightarrow> string) \<Rightarrow> 32 word \<Rightarrow> syslog list \<Rightarrow> string option" where
  "print_all str lost [] = Some []"
| "print_all str lost (r # rs) = append_out (log_lines str lost r) (print_all str 0 rs)"

lemma sint_small: "unat w < 2 ^ 31 \<Longrightarrow> 0 \<le> sint w" for w :: "32 word"
proof -
  assume a: "unat w < 2 ^ 31"
  have "int (unat w) < 2 ^ 31" using a by (metis of_nat_less_iff of_nat_numeral of_nat_power)
  then have u: "uint w < 2 ^ 31" by simp
  have "sint w = signed_take_bit 31 (uint w)" by (simp add: sint_uint)
  also have "\<dots> = uint w" using u by (intro signed_take_bit_int_eq_self) (simp_all add: order_trans [of _ 0])
  finally show ?thesis by simp
qed

lemma unread_all:
  assumes "log_ok cb" and "unat (syslog_lost cb) < 2 ^ 31"
  shows "fst (unread str msgflg cb) = append_out
      (if log_list cb = [] \<or> msgflg then Some [] else syslog_printf str (''-- buffered messages --'' @ [CHR 0x0A]) [])
      (print_all str (syslog_lost cb) (log_list cb))"
    and "log_list (snd (unread str msgflg cb)) = []"
proof -
  have "fst (unread str msgflg cb) = append_out
      (if log_list cb = [] \<or> msgflg then Some [] else syslog_printf str (''-- buffered messages --'' @ [CHR 0x0A]) [])
      (print_all str (syslog_lost cb) (log_list cb)) \<and> log_list (snd (unread str msgflg cb)) = []"
    using assms
  proof (induction str msgflg cb rule: unread.induct)
    case (1 str msgflg cb)
    obtain e ro cb' where rd: "syslog_rea_log cb = (e, ro, cb')" by (cases "syslog_rea_log cb") auto
    note L = syslog_rea_log [OF 1(2) rd]
    show ?case
    proof (cases ro)
      case None
      then show ?thesis using L by (simp add: unread.simps [of str msgflg cb] rd ER_OBJ_def)
    next
      case (Some r)
      have l: "log_list cb = r # log_list cb'" "e = sint (syslog_lost cb)" "syslog_lost cb' = 0" using L(3,4) Some by simp_all
      have s: "0 \<le> e" "of_int e = syslog_lost cb" using sint_small [OF 1(3)] by (simp_all add: l(2))
      have "fst (unread str True cb') = print_all str 0 (log_list cb') \<and> log_list (snd (unread str True cb')) = []"
        using 1(1) [OF rd [symmetric] refl refl s(1) refl] L(1) l(3) by simp
      moreover obtain out cb1 where "unread str True cb' = (out, cb1)" by fastforce
      ultimately show ?thesis
        using s Some l by (simp add: unread.simps [of str msgflg cb] rd Let_def)
    qed
  qed
  then show "fst (unread str msgflg cb) = append_out
      (if log_list cb = [] \<or> msgflg then Some [] else syslog_printf str (''-- buffered messages --'' @ [CHR 0x0A]) [])
      (print_all str (syslog_lost cb) (log_list cb))" "log_list (snd (unread str msgflg cb)) = []" by blast+
qed

end
