(* ===== verification/Barrier.thy ===== *)
theory Barrier
  imports Prelude
begin

text \<open>
  The barrier between the phases of the start and the end of the kernel (\<open>barrier_sync\<close> in \<open>kernel/mp.c\<close>,
  called by \<open>sta_ker\<close> and \<open>exit_kernel\<close> of \<open>kernel/startup.c\<close>).  Every access to the shared variables is one
  step: the master's loop reads \<open>prc_init\<close> one processor after the other while the others go on.
\<close>

section \<open>The code\<close>

text \<open>
  \<open>Run k\<close>: the processor has left the barrier \<open>k\<close> and has not called the next one; \<open>At k\<close>: it has
  entered \<open>prc_init\<close> for barrier \<open>k\<close>; \<open>Scan k i flag\<close>: the master in its \<open>for\<close> loop.
\<close>

datatype bplace = Run nat | At nat | Scan nat nat nat

record barrier =
  prc_init :: "prcix \<Rightarrow> nat"
  sys_start :: nat
  where_is :: "prcix \<Rightarrow> bplace"

text \<open>Processor 0 is the master of the \<open>n\<close> processors.\<close>

definition is_mprc :: "prcix \<Rightarrow> bool" where "is_mprc p \<longleftrightarrow> p = 0"

inductive barrier_step :: "nat \<Rightarrow> barrier \<Rightarrow> barrier \<Rightarrow> bool" for n where
  enter: "p < n \<Longrightarrow> where_is s p = Run k \<Longrightarrow>
    barrier_step n s (s\<lparr>prc_init := (prc_init s)(p := k + 1), where_is := (where_is s)(p := At (k + 1))\<rparr>)"
| begin_scan: "p < n \<Longrightarrow> is_mprc p \<Longrightarrow> where_is s p = At k \<Longrightarrow>
    barrier_step n s (s\<lparr>where_is := (where_is s)(p := Scan k 0 0)\<rparr>)"
| scan: "p < n \<Longrightarrow> where_is s p = Scan k i flag \<Longrightarrow> i < n \<Longrightarrow>
    barrier_step n s (s\<lparr>where_is := (where_is s)(p := Scan k (i + 1) (if prc_init s i = k then flag + 1 else flag))\<rparr>)"
| scan_again: "p < n \<Longrightarrow> where_is s p = Scan k i flag \<Longrightarrow> \<not> i < n \<Longrightarrow> flag < n \<Longrightarrow>
    barrier_step n s (s\<lparr>where_is := (where_is s)(p := Scan k 0 0)\<rparr>)"
| release: "p < n \<Longrightarrow> where_is s p = Scan k i flag \<Longrightarrow> \<not> i < n \<Longrightarrow> \<not> flag < n \<Longrightarrow>
    barrier_step n s (s\<lparr>sys_start := k, where_is := (where_is s)(p := Run k)\<rparr>)"
| poll: "p < n \<Longrightarrow> \<not> is_mprc p \<Longrightarrow> where_is s p = At k \<Longrightarrow> \<not> sys_start s \<noteq> k \<Longrightarrow>
    barrier_step n s (s\<lparr>where_is := (where_is s)(p := Run k)\<rparr>)"

text \<open>The variables are static; a processor starts before the first barrier.\<close>

definition barrier_init :: barrier where
  "barrier_init = \<lparr>prc_init = (\<lambda>_. 0), sys_start = 0, where_is = (\<lambda>_. Run 0)\<rparr>"

inductive barrier_reach :: "nat \<Rightarrow> barrier \<Rightarrow> bool" for n where
  init: "barrier_reach n barrier_init"
| step: "barrier_reach n s \<Longrightarrow> barrier_step n s s' \<Longrightarrow> barrier_reach n s'"

section \<open>Invariant\<close>

text \<open>The last barrier a processor has called, and the last one it has left.\<close>

fun called :: "bplace \<Rightarrow> nat" where
  "called (Run k) = k" | "called (At k) = k" | "called (Scan k i flag) = k"

fun passed :: "bplace \<Rightarrow> nat" where
  "passed (Run k) = k" | "passed (At k) = k - 1" | "passed (Scan k i flag) = k - 1"

definition place_ok :: "nat \<Rightarrow> barrier \<Rightarrow> prcix \<Rightarrow> bool" where
  "place_ok n s p = (case where_is s p of
     Run k \<Rightarrow> True | At k \<Rightarrow> 0 < k
   | Scan k i flag \<Rightarrow> is_mprc p \<and> 0 < k \<and> i \<le> n \<and> flag \<le> card {j. j < i \<and> called (where_is s j) = k})"

definition barrier_inv :: "nat \<Rightarrow> barrier \<Rightarrow> bool" where
  "barrier_inv n s \<longleftrightarrow>
     (\<forall>p < n. prc_init s p = called (where_is s p) \<and> place_ok n s p \<and>
        passed (where_is s p) \<le> sys_start s \<and> sys_start s \<le> called (where_is s p)) \<and>
     (0 < n \<longrightarrow> passed (where_is s 0) = sys_start s)"

lemma barrier_invD:
  assumes "barrier_inv n s" and "p < n"
  shows "prc_init s p = called (where_is s p)" and "place_ok n s p"
    and "passed (where_is s p) \<le> sys_start s" and "sys_start s \<le> called (where_is s p)"
    and "passed (where_is s 0) = sys_start s"
  using assms by (simp_all add: barrier_inv_def)

lemma called_passed: "place_ok n s p \<Longrightarrow> called (where_is s p) \<le> Suc (passed (where_is s p))"
  by (cases "where_is s p") (simp_all add: place_ok_def)

text \<open>A processor that moves on without calling a barrier does not change what the master has counted.\<close>

lemma place_ok_frame:
  assumes "place_ok n s q" and "where_is s' q = where_is s q"
    and "\<And>j k i f. is_mprc q \<Longrightarrow> where_is s q = Scan k i f \<Longrightarrow> 0 < k \<Longrightarrow> called (where_is s j) = k \<Longrightarrow> called (where_is s' j) = k"
  shows "place_ok n s' q"
proof (cases "where_is s q")
  case (Scan k i flag)
  have "{j. j < i \<and> called (where_is s j) = k} \<subseteq> {j. j < i \<and> called (where_is s' j) = k}"
    using assms Scan by (auto simp: place_ok_def)
  then have "card {j. j < i \<and> called (where_is s j) = k} \<le> card {j. j < i \<and> called (where_is s' j) = k}"
    by (intro card_mono) auto
  then show ?thesis using assms(1,2) Scan by (auto simp: place_ok_def)
qed (use assms in \<open>auto simp: place_ok_def\<close>)

lemma barrier_step_inv:
  assumes I: "barrier_inv n s" and c: "barrier_step n s s'"
  shows "barrier_inv n s'"
proof -
  note D = barrier_invD [OF I]
  have move: "barrier_inv n s'"
    if p: "p < n" and w: "where_is s' = (where_is s)(p := x)" and i: "prc_init s' = (prc_init s)(p := called x)"
      and ss: "sys_start s \<le> sys_start s'" "sys_start s' = sys_start s \<or> is_mprc p"
      and x: "place_ok n s' p" "passed x \<le> sys_start s'" "sys_start s' \<le> called x" "is_mprc p \<Longrightarrow> passed x = sys_start s'"
      and all: "\<And>q. q < n \<Longrightarrow> q \<noteq> p \<Longrightarrow> sys_start s' \<le> called (where_is s q)"
      and keep: "\<And>k i f. where_is s 0 = Scan k i f \<Longrightarrow> 0 < k \<Longrightarrow> called (where_is s p) = k \<Longrightarrow> \<not> is_mprc p \<Longrightarrow> called x = k" for p x
  proof -
    have "place_ok n s' q" if "q < n" "q \<noteq> p" for q
      by (rule place_ok_frame [OF D(2) [OF that(1)]]) (use that w keep in \<open>auto simp: is_mprc_def\<close>)
    moreover have "passed (where_is s q) \<le> sys_start s'" if "q < n" for q using D(3) [OF that] ss(1) by simp
    moreover have "passed (where_is s' 0) = sys_start s'" if "0 < n"
      using D(5) [OF p] w x(4) ss(2) by (auto simp: is_mprc_def)
    ultimately show ?thesis
      unfolding barrier_inv_def using D(1) w i x(1-3) all by auto
  qed
  from c show ?thesis
  proof cases
    case (enter p k)
    have k: "k = sys_start s" using D(3,4) [OF enter(2)] enter(3) by simp
    show ?thesis
      by (rule move [OF enter(2), of "At (k + 1)"])
        (use enter k D(4) D(5) [OF enter(2)] in \<open>auto simp: place_ok_def is_mprc_def\<close>)
  next
    case (begin_scan p k)
    show ?thesis
      by (rule move [OF begin_scan(2), of "Scan k 0 0"])
        (use begin_scan D(1-5) [OF begin_scan(2)] D(4) in \<open>auto simp: place_ok_def is_mprc_def\<close>)
  next
    case (scan p k i flag)
    have m: "is_mprc p" "0 < k" "flag \<le> card {j. j < i \<and> called (where_is s j) = k}" 
      using D(2) [OF scan(2)] scan(3) by (auto simp: place_ok_def)
    have "{j. j < Suc i \<and> called (where_is s j) = k} =
        (if called (where_is s i) = k then insert i {j. j < i \<and> called (where_is s j) = k} else {j. j < i \<and> called (where_is s j) = k})"
      by (auto simp: less_Suc_eq)
    then have "(if prc_init s i = k then flag + 1 else flag) \<le> card {j. j < Suc i \<and> called (where_is s j) = k}"
      using m(3) D(1) [OF scan(4)] by simp
    moreover have "called (where_is s' j) = called (where_is s j)" for j using scan(1,3) by simp
    ultimately have "place_ok n s' p" using scan m(1,2) by (simp add: place_ok_def)
    then show ?thesis
      by (intro move [OF scan(2), of "Scan k (i + 1) (if prc_init s i = k then flag + 1 else flag)"])
        (use scan m D(1-5) [OF scan(2)] D(4) in \<open>auto simp: is_mprc_def\<close>)
  next
    case (scan_again p k i flag)
    show ?thesis
      by (rule move [OF scan_again(2), of "Scan k 0 0"])
        (use scan_again D(1-5) [OF scan_again(2)] D(4) in \<open>auto simp: place_ok_def is_mprc_def\<close>)
  next
    case (release p k i flag)
    have m: "is_mprc p" "0 < k" "i = n" "n \<le> card {j. j < n \<and> called (where_is s j) = k}"
      using D(2) [OF release(2)] release(3-5) by (auto simp: place_ok_def)
    have "{j. j < n \<and> called (where_is s j) = k} = {..<n}"
      by (rule card_subset_eq) (use m(4) card_mono [of "{..<n}" "{j. j < n \<and> called (where_is s j) = k}"] in \<open>auto intro: le_antisym\<close>)
    then have a: "called (where_is s q) = k" if "q < n" for q using that by blast
    have "sys_start s = k - 1" using D(5) [OF release(2)] release(3) m(1) by (simp add: is_mprc_def)
    then show ?thesis
      by (intro move [OF release(2), of "Run k"])
        (use release m a D(1) in \<open>auto simp: place_ok_def\<close>)
  next
    case (poll p k)
    show ?thesis
      by (rule move [OF poll(2), of "Run k"])
        (use poll D(1-5) [OF poll(2)] D(4) in \<open>auto simp: place_ok_def\<close>)
  qed
qed

lemma barrier_reach_inv: "barrier_reach n s \<Longrightarrow> barrier_inv n s"
proof (induction rule: barrier_reach.induct)
  case init
  then show ?case by (simp add: barrier_inv_def barrier_init_def place_ok_def)
next
  case (step s s')
  then show ?case using barrier_step_inv by blast
qed

section \<open>The barrier opens\<close>

abbreviation barrier_steps :: "nat \<Rightarrow> barrier \<Rightarrow> barrier \<Rightarrow> bool" where
  "barrier_steps n \<equiv> rtranclp (barrier_step n)"

text \<open>The master's loop with everybody there counts the rest.\<close>

lemma scan_rest:
  assumes "0 < n" and "\<And>p. p < n \<Longrightarrow> prc_init s p = k" and "where_is s 0 = Scan k i flag" and "i \<le> n"
  shows "barrier_steps n s (s\<lparr>where_is := (where_is s)(0 := Scan k n (flag + (n - i)))\<rparr>)"
  using assms
proof (induction "n - i" arbitrary: s i flag)
  case 0
  then have e: "s\<lparr>where_is := (where_is s)(0 := Scan k n (flag + (n - i)))\<rparr> = s" by (simp add: fun_upd_idem)
  show ?case unfolding e by (rule rtranclp.rtrancl_refl)
next
  case (Suc m)
  let ?s = "s\<lparr>where_is := (where_is s)(0 := Scan k (i + 1) (flag + 1))\<rparr>"
  have i: "i < n" using Suc.hyps(2) by simp
  then have "barrier_step n s ?s" using barrier_step.scan [OF Suc.prems(1,3) i] Suc.prems(2) [OF i] by simp
  moreover have "barrier_steps n ?s (?s\<lparr>where_is := (where_is ?s)(0 := Scan k n (flag + 1 + (n - (i + 1))))\<rparr>)"
    by (rule Suc.hyps(1)) (use Suc i in simp_all)
  moreover have "?s\<lparr>where_is := (where_is ?s)(0 := Scan k n (flag + 1 + (n - (i + 1))))\<rparr> =
      s\<lparr>where_is := (where_is s)(0 := Scan k n (flag + (n - i)))\<rparr>" using i by (simp add: Suc_diff_Suc)
  ultimately show ?case by (metis converse_rtranclp_into_rtranclp)
qed

lemma master_opens:
  assumes "0 < n" and "\<And>p. p < n \<Longrightarrow> prc_init s p = k" and "called (where_is s 0) = k" and "place_ok n s 0"
    and "\<And>j. where_is s 0 = Run j \<Longrightarrow> sys_start s = k"
  shows "\<exists>s'. barrier_steps n s s' \<and> where_is s' = (where_is s)(0 := Run k) \<and> sys_start s' = k"
proof -
  have open_it: "\<exists>s'. barrier_steps n s s' \<and> where_is s' = (where_is s)(0 := Run k) \<and> sys_start s' = k"
    if w: "where_is s 0 = Scan k 0 0" and pi: "\<And>p. p < n \<Longrightarrow> prc_init s p = k" for s
  proof -
    let ?s = "s\<lparr>where_is := (where_is s)(0 := Scan k n (0 + (n - 0)))\<rparr>"
    let ?t = "?s\<lparr>sys_start := k, where_is := (where_is ?s)(0 := Run k)\<rparr>"
    have "barrier_steps n s ?s" by (rule scan_rest [OF assms(1)]) (use pi w in simp_all)
    moreover have "barrier_step n ?s ?t"
      by (rule barrier_step.release [where k = k and i = n and flag = n, OF assms(1)]) simp_all
    ultimately have "barrier_steps n s ?t" by (rule rtranclp.rtrancl_into_rtrancl)
    then show ?thesis by (intro exI [of _ ?t]) simp
  qed
  show ?thesis
  proof (cases "where_is s 0")
    case (Run j)
    then have "(where_is s)(0 := Run k) = where_is s" using assms(3) by (simp add: fun_upd_idem)
    then show ?thesis using assms(5) Run by (intro exI [of _ s]) simp
  next
    case (At j)
    let ?s = "s\<lparr>where_is := (where_is s)(0 := Scan k 0 0)\<rparr>"
    have "barrier_step n s ?s" using barrier_step.begin_scan [OF assms(1), of s j] At assms(3) by (simp add: is_mprc_def)
    moreover obtain s' where "barrier_steps n ?s s'" "where_is s' = (where_is ?s)(0 := Run k)" "sys_start s' = k"
      using open_it [of ?s] assms(2) by auto
    ultimately show ?thesis by (intro exI [of _ s']) (auto intro: converse_rtranclp_into_rtranclp)
  next
    case (Scan j i flag)
    then have j: "where_is s 0 = Scan k i flag" "i \<le> n" using assms(3,4) by (simp_all add: place_ok_def)
    let ?s = "s\<lparr>where_is := (where_is s)(0 := Scan k n (flag + (n - i)))\<rparr>"
    have r: "barrier_steps n s ?s" by (rule scan_rest [OF assms(1)]) (use assms(2) j in simp_all)
    show ?thesis
    proof (cases "flag + (n - i) < n")
      case True
      let ?t = "?s\<lparr>where_is := (where_is ?s)(0 := Scan k 0 0)\<rparr>"
      have "barrier_step n ?s ?t" by (rule barrier_step.scan_again [where i = n and flag = "flag + (n - i)", OF assms(1)]) (use True in simp_all)
      then have "barrier_steps n s ?t" using r by simp
      moreover obtain s' where "barrier_steps n ?t s'" "where_is s' = (where_is ?t)(0 := Run k)" "sys_start s' = k"
        using open_it [of ?t] assms(2) by auto
      ultimately show ?thesis by (intro exI [of _ s']) (auto intro: rtranclp_trans)
    next
      case False
      let ?t = "?s\<lparr>sys_start := k, where_is := (where_is ?s)(0 := Run k)\<rparr>"
      have "barrier_step n ?s ?t" by (rule barrier_step.release [where i = n and flag = "flag + (n - i)", OF assms(1)]) (use False in simp_all)
      then show ?thesis using r by (intro exI [of _ ?t]) simp
    qed
  qed
qed

lemma slaves_leave:
  assumes "finite W" and "\<And>p. p \<in> W \<Longrightarrow> p < n \<and> p \<noteq> 0 \<and> where_is s p = At k" and "sys_start s = k"
  shows "\<exists>s'. barrier_steps n s s' \<and> where_is s' = (\<lambda>p. if p \<in> W then Run k else where_is s p)"
  using assms
proof (induction W arbitrary: s rule: finite_induct)
  case empty
  then show ?case by (intro exI [of _ s]) simp
next
  case (insert p W)
  let ?s = "s\<lparr>where_is := (where_is s)(p := Run k)\<rparr>"
  have "barrier_step n s ?s" by (rule barrier_step.poll) (use insert.prems in \<open>simp_all add: is_mprc_def\<close>)
  moreover have "q < n \<and> q \<noteq> 0 \<and> where_is ?s q = At k" if "q \<in> W" for q using that insert.prems(1) [of q] insert.hyps(2) by auto
  then obtain s' where "barrier_steps n ?s s'" "where_is s' = (\<lambda>q. if q \<in> W then Run k else where_is ?s q)"
    using insert.IH [of ?s] insert.prems(2) by auto
  ultimately show ?case
    by (intro exI [of _ s']) (auto intro: converse_rtranclp_into_rtranclp)
qed

lemma barrier_opens:
  assumes R: "barrier_reach n s" and n: "0 < n" and k: "\<And>p. p < n \<Longrightarrow> called (where_is s p) = k"
  shows "\<exists>s'. barrier_steps n s s' \<and> (\<forall>p < n. where_is s' p = Run k)"
proof -
  note D = barrier_invD [OF barrier_reach_inv [OF R]]
  have i: "\<And>p. p < n \<Longrightarrow> prc_init s p = k" using D(1) k by simp
  have r: "\<And>j. where_is s 0 = Run j \<Longrightarrow> sys_start s = k" using D(5) [OF n] k [OF n] by simp
  obtain s1 where s1: "barrier_steps n s s1" "where_is s1 = (where_is s)(0 := Run k)" "sys_start s1 = k"
    by (rule exE [OF master_opens [OF n i k [OF n] D(2) [OF n] r]]) (simp_all, blast)
  let ?W = "{p. p < n \<and> p \<noteq> 0 \<and> where_is s p = At k}"
  have w: "finite ?W" "\<And>p. p \<in> ?W \<Longrightarrow> p < n \<and> p \<noteq> 0 \<and> where_is s1 p = At k" using s1(2) by simp_all
  obtain s2 where s2: "barrier_steps n s1 s2" "where_is s2 = (\<lambda>p. if p \<in> ?W then Run k else where_is s1 p)"
    using slaves_leave [of ?W n s1 k, OF w s1(3)] by blast
  have "where_is s2 p = Run k" if p: "p < n" for p
  proof (cases "p = 0 \<or> p \<in> ?W")
    case False
    then have "p \<noteq> 0" "where_is s p \<noteq> At k" using p by auto
    then obtain j where "where_is s p = Run j" using k [OF p] D(2) [OF p]
      by (cases "where_is s p") (simp_all add: place_ok_def is_mprc_def)
    then show ?thesis using False k [OF p] by (simp add: s1(2) s2(2))
  qed (auto simp: s1(2) s2(2))
  then show ?thesis using s1(1) s2(1) by (meson rtranclp_trans)
qed

end
