(* ===== verification/Service_Properties.thy ===== *)
theory Service_Properties
  imports Logtask Barrier
begin

text \<open>
  Properties of the system services (log, serial driver, log task) and of the barrier.
\<close>

section \<open>Formatted output\<close>

lemma uint_word_32: "uint (word_of_int k :: 32 word) = k mod 2 ^ 32"
  by (simp add: uint_word_of_int)

lemma uint_abs_sint: "v <s 0 \<Longrightarrow> uint (- v) = - sint v" "\<not> v <s 0 \<Longrightarrow> uint v = sint v" for v :: "32 word"
proof -
  have s: "- (2 ^ 31) \<le> sint v" "sint v < 2 ^ 31" using sint_ge [of v] sint_lt [of v] by simp_all
  have "(word_of_int (- sint v) :: 32 word) = - v" by (simp flip: wi_hom_neg)
  then show "v <s 0 \<Longrightarrow> uint (- v) = - sint v"
    using uint_word_32 [of "- sint v"] s by (simp add: word_sless_alt)
  show "\<not> v <s 0 \<Longrightarrow> uint v = sint v"
    using uint_word_32 [of "sint v"] s by (simp add: word_sless_alt)
qed

text \<open>
  C18: what the conversions \<open>%d\<close>, \<open>%u\<close>, \<open>%x\<close> and \<open>%X\<close> print can be read back and gives the argument, the
  most negative number included; the width is a minimum, and nothing is padded beyond it.
\<close>

theorem number_output_round_trip:
  "read_number 10 (conv_arg str (CHR ''d'') z w v) = sint v \<and>
   read_number 10 (conv_arg str (CHR ''u'') z w v) = uint v \<and>
   read_number 16 (conv_arg str (CHR ''x'') z w v) = uint v \<and>
   read_number 16 (conv_arg str (CHR ''X'') z w v) = uint v \<and>
   length (conv_arg str (CHR ''u'') z w v) = max (unat w) (length (digits 10 (unat v))) \<and>
   length (conv_arg str (CHR ''x'') z w v) = max (unat w) (length (digits 16 (unat v))) \<and>
   length (conv_arg str (CHR ''d'') z w v) =
     max (unat w) ((if v <s 0 then 1 else 0) + length (digits 10 (nat \<bar>sint v\<bar>)))"
proof -
  have r: "radix_chars 10 raddec" "radix_chars 16 radhex" "radix_chars 16 radHEX" by (simp_all add: radix_chars_def)
  note R = convert_read [OF r(1)] convert_read [OF r(2)] convert_read [OF r(3)]
  have L: "length (convert v' 10 raddec w neg z) = max (unat w) ((if neg then 1 else 0) + length (digits 10 (unat v')))"
    "length (convert v' 16 c w neg z) = max (unat w) ((if neg then 1 else 0) + length (digits 16 (unat v')))" for v' neg c
    using convert_length [of 10 v' raddec w neg z] convert_length [of 16 v' c w neg z] by simp_all
  have s: "0 \<le>s v \<longleftrightarrow> \<not> v <s 0" by (simp add: word_sless_alt word_sle_eq not_less)
  have n: "nat \<bar>sint v\<bar> = unat (if v <s 0 then - v else v)"
    using uint_abs_sint [of v] uint_nonnegative [of v] uint_nonnegative [of "- v"]
    by (cases "v <s 0") (simp_all flip: nat_uint_eq)
  show ?thesis
    using R uint_abs_sint [of v] L n s by (cases "v <s 0") (simp_all add: conv_arg_def)
qed

text \<open>
  C17: \<open>syslog\<close> keeps the arguments and the log task formats them later.  With at most five arguments the
  result is that of formatting at once; with more, \<open>syslog\<close> keeps only five and \<open>syslog_printf\<close> reads
  beyond the record.
\<close>

theorem deferred_formatting:
  assumes "arg_count (str a) \<le> length ap"
  shows "\<exists>r. syslog a (str a) ap = Some r \<and> syslog_printf str (str a) ap \<noteq> None \<and>
    syslog_print str r = (if arg_count (str a) \<le> 5 then syslog_printf str (str a) ap else None)"
proof -
  let ?n = "min (TMAX_LOGINFO - 1) (arg_count (str a))"
  have "?n \<le> length ap" using assms by simp
  then have "syslog a (str a) ap =
      Some \<lparr>logtype = LOG_TYPE_COMMENT, logtim = 0, logprc = 0, loginfo = a # take ?n ap\<rparr>"
    by (simp add: syslog_def syslog_args_eq)
  moreover have "syslog_printf str (str a) (take ?n ap) =
      (if arg_count (str a) \<le> 5 then syslog_printf str (str a) ap else None)"
    using printf_take [of "str a" ?n str ap] by (auto simp: printf_overrun TMAX_LOGINFO_def)
  ultimately show ?thesis using assms by (simp add: syslog_print_def printf_overrun)
qed

definition six_args :: "32 word \<Rightarrow> string" where "six_args _ = ''%d%d%d%d%d%d''"

theorem deferred_formatting_witness:
  "\<exists>r. syslog 0 ''%d%d%d%d%d%d'' [1, 2, 3, 4, 5, 6] = Some r \<and> syslog_print six_args r = None"
proof -
  have "arg_count ''%d%d%d%d%d%d'' = 6" by code_simp
  then show ?thesis
    using deferred_formatting [of six_args 0 "[1, 2, 3, 4, 5, 6]"] by (auto simp: six_args_def)
qed

section \<open>The log\<close>

text \<open>
  C10: after \<open>syslog_initialize\<close> and whatever calls follow, from all processors, no record is reordered,
  duplicated or invented: the records that passed the mask are, in their order, those that were read, those
  in the buffer, and gaps of overwritten ones, and each reading returned the length of the gap before it.
\<close>

theorem log_accounts_for_records:
  assumes "log_run str cs (syslog_initialize cb) = (ws, rs, cb')"
  shows "log_ok cb' \<and>
    (\<exists>gaps new. ws = concat (map2 (\<lambda>g r. g @ [snd r]) gaps rs) @ new @ log_list cb' \<and>
       length gaps = length rs \<and> syslog_lost cb' = of_nat (length new) \<and>
       list_all2 (\<lambda>g r. fst r = sint (of_nat (length g) :: 32 word)) gaps rs)"
  using log_run_account [where gone = "[]", OF syslog_initialize(1) _ assms] syslog_initialize(2) [of cb]
  by (simp add: syslog_initialize_def log_account_def)

definition sample_record :: syslog where
  "sample_record = \<lparr>logtype = LOG_TYPE_COMMENT, logtim = 0, logprc = 0, loginfo = [0]\<rparr>"

definition sample_log :: syslogcb where
  "sample_log = \<lparr>syslog_buffer = (\<lambda>_. sample_record), syslog_count = 5, syslog_head = 9, syslog_tail = 9, syslog_lost = 1,
     syslog_logmask = 0, syslog_lowmask_not = 0\<rparr>"

theorem log_accounts_for_records_witness:
  "\<exists>cb'. log_run (\<lambda>_. []) [Set_mask 1 0, Write 7 1 0 sample_record, Write 8 2 1 sample_record, Read, Read]
       (syslog_initialize sample_log) =
     ([sample_record\<lparr>logtim := 7, logprc := 1\<rparr>], [(0, sample_record\<lparr>logtim := 7, logprc := 1\<rparr>)], cb') \<and>
     log_ok cb' \<and> log_list cb' = []"
proof -
  let ?r = "sample_record\<lparr>logtim := 7, logprc := 1\<rparr>"
  define run where "run = log_run (\<lambda>_. []) [Set_mask 1 0, Write 7 1 0 sample_record, Write 8 2 1 sample_record, Read, Read]
    (syslog_initialize sample_log)"
  have "fst run = [?r]" "fst (snd run) = [(0, ?r)]"
    by (simp_all add: run_def syslog_initialize_def syslog_msk_log_def syslog_wri_log_def syslog_rea_log_def LOG_MASK_def
        log_record_def TCNT_SYSLOG_BUFFER_def Let_def)
  then obtain cb' where r: "run = ([?r], [(0, ?r)], cb')" by (metis prod.collapse)
  note A = log_accounts_for_records [OF r [unfolded run_def]]
  then have "length (log_list cb') = 0" by (auto simp: Cons_eq_append_conv list_all2_Cons2)
  then show ?thesis using r A by (simp add: run_def)
qed

section \<open>The serial driver\<close>







text \<open>A step after which the port is open, with any task released from any wait.\<close>

definition open_step :: "srun \<Rightarrow> srun \<Rightarrow> bool" where
  "open_step S S' \<longleftrightarrow> serial_step port_cfg fifo_order True S S' \<and> openflag (port S')"

text \<open>
  C19: the error exit of \<open>serial_rea_dat\<close> after \<open>serial_wri_chr\<close> (the echo) does not give back \<open>rcv_semid\<close>:
  when \<open>rel_wai\<close> releases a reader there, characters stay in the buffer, and from then on no task ever gets to
  the point where it takes one, unless the port is closed.
\<close>

theorem released_echo_strands_input:
  "\<exists>S. serial_reach port_cfg fifo_order True S \<and>
     Collect (rtranclp open_step S) \<subseteq> {S'. 0 < rcv_count (port S') \<and> (\<forall>t i m. at S' t \<noteq> Take i m)}"
proof -
  obtain S where S: "sview port_cfg fifo_order Out Out 1 0 (1, []) S" using input_stranded by blast
  have a: "at S t = Out" for t using S by (cases "t = 0 \<or> t = 1") (auto simp: sview_def)
  have q: "stranded S" using S by (simp add: stranded_def snd_queue_ok_def a sview_def place_defs)
  have "stranded S'" if "rtranclp open_step S S'" for S'
    using that q
  proof induction
    case (step S1 S2)
    then show ?case using stranded_step [of S1 port_cfg fifo_order True S2] by (simp add: open_step_def fifo_order_def)
  qed
  moreover have holds: "holds_rcv (Take i m)" for i m by (simp add: holds_rcv_def)
  have "0 < rcv_count (port S') \<and> (\<forall>t i m. at S' t \<noteq> Take i m)" if "stranded S'" for S'
    using that holds unfolding stranded_def by metis
  ultimately show ?thesis using S by (auto simp: sview_def)
qed

section \<open>The end of the system\<close>

text \<open>
  C20: \<open>logtask_terminate\<close> puts out, in this order, the characters left in the send buffer of its port, a header if
  there are records, and every record left in the log with the messages about lost ones; it leaves both empty.
\<close>

theorem logtask_terminate_complete:
  assumes "bufs_ok P (T portid)" and "openflag (T portid)" and "1 \<le> portid" and "portid \<le> int n"
    and "log_ok cb" and "unat (syslog_lost cb) < 2 ^ 31" and "logtask_terminate str n P portid T cb = (out, T', cb')"
  shows "out = append_out (Some (snd_list P (T portid)))
      (append_out (if log_list cb = [] then Some [] else syslog_printf str (''-- buffered messages --'' @ [CHR 0x0A]) [])
        (print_all str (syslog_lost cb) (log_list cb))) \<and>
    snd_count (T' portid) = 0 \<and> log_list cb' = []"
  using assms(7) unsent_all [of P T portid n, OF assms(1-4)] unread_all [OF assms(5,6), of str False]
  by (auto simp: logtask_terminate_def Let_def split: prod.splits)

definition left_over :: spcb where
  "left_over = (serial_opn closed_port)\<lparr>snd_buffer := (\<lambda>_. CHR ''x''), snd_count := 2, snd_write_ptr := 2\<rparr>"

theorem logtask_terminate_complete_witness:
  "\<exists>T' cb'. logtask_terminate (\<lambda>_. ''hello'') 1 port_cfg 1 (\<lambda>_. left_over) (log_record sample_record (syslog_initialize sample_log)) =
     (Some (''xx-- buffered messages --'' @ [CHR 0x0A] @ ''hello'' @ [CHR 0x0A]), T', cb') \<and> log_list cb' = []"
proof -
  let ?cb = "log_record sample_record (syslog_initialize sample_log)"
  obtain out T' cb' where e: "logtask_terminate (\<lambda>_. ''hello'') 1 port_cfg 1 (\<lambda>_. left_over) ?cb = (out, T', cb')"
    by (metis prod_cases3)
  note L = log_record [OF syslog_initialize(1) [of sample_log], of sample_record]
  have z: "syslog_count (syslog_initialize sample_log) = 0" "syslog_lost (syslog_initialize sample_log) = 0"
    by (simp_all add: syslog_initialize_def)
  have l: "log_list ?cb = [sample_record]" "syslog_lost ?cb = 0"
    using L(2,3) by (simp_all add: z syslog_initialize(2) TCNT_SYSLOG_BUFFER_def)
  have b: "bufs_ok port_cfg left_over" "openflag left_over" "snd_list port_cfg left_over = ''xx''"
    by (simp_all add: bufs_ok_def ring_ok_def left_over_def serial_opn_def port_cfg_def snd_list_def slots_def upt_rec)
  have p: "syslog_printf str (''-- buffered messages --'' @ [CHR 0x0A]) [] = Some (''-- buffered messages --'' @ [CHR 0x0A])"
    "log_lines (\<lambda>_. ''hello'') 0 sample_record = Some (''hello'' @ [CHR 0x0A])" for str
    by (simp_all add: syslog_printf.simps log_lines_def sample_record_def LOG_TYPE_COMMENT_def syslog_print_def)
  show ?thesis
    using logtask_terminate_complete [OF _ _ _ _ L(1) _ e] e
    by (simp add: l b p [simplified] append_out_def)
qed

section \<open>The barrier\<close>

text \<open>
  C16: \<open>barrier_sync\<close> separates the phases: no processor leaves a barrier that another one has not called, nor
  misses a release (while it waits, \<open>sys_start\<close> is the barrier it waits for or the one before); and once all
  processors have called a barrier, they can all leave it.
\<close>

theorem barrier_separates_phases:
  assumes "barrier_reach n s" and "p < n" and "q < n"
  shows "passed (where_is s p) \<le> called (where_is s q) \<and>
    (where_is s p = At k \<longrightarrow> sys_start s = k - 1 \<or> sys_start s = k) \<and>
    ((\<forall>p < n. called (where_is s p) = k) \<longrightarrow> (\<exists>s'. barrier_steps n s s' \<and> (\<forall>p < n. where_is s' p = Run k)))"
proof -
  note D = barrier_invD [OF barrier_reach_inv [OF assms(1)]]
  have "passed (where_is s p) \<le> called (where_is s q)" using D(3) [OF assms(2)] D(4) [OF assms(3)] by simp
  moreover have "where_is s p = At k \<longrightarrow> sys_start s = k - 1 \<or> sys_start s = k"
    using D(3,4) [OF assms(2)] by auto
  ultimately show ?thesis using barrier_opens [OF assms(1), of k] assms(2) by simp
qed

definition both_called :: barrier where
  "both_called = \<lparr>prc_init = (\<lambda>_. 0)(1 := 1, 0 := 1), sys_start = 0, where_is = (\<lambda>_. Run 0)(1 := At 1, 0 := At 1)\<rparr>"

theorem barrier_separates_phases_witness:
  "barrier_reach 2 both_called \<and> (\<exists>s'. barrier_steps 2 both_called s' \<and> (\<forall>p < 2. where_is s' p = Run 1))"
proof -
  let ?s = "barrier_init\<lparr>prc_init := (prc_init barrier_init)(1 := 0 + 1), where_is := (where_is barrier_init)(1 := At (0 + 1))\<rparr>"
  have "barrier_step 2 barrier_init ?s" by (rule barrier_step.enter) (simp_all add: barrier_init_def)
  then have r: "barrier_reach 2 ?s" by (rule barrier_reach.step [OF barrier_reach.init])
  have "barrier_step 2 ?s (?s\<lparr>prc_init := (prc_init ?s)(0 := 0 + 1), where_is := (where_is ?s)(0 := At (0 + 1))\<rparr>)"
    by (rule barrier_step.enter) (simp_all add: barrier_init_def)
  then have "barrier_step 2 ?s both_called" by (simp add: both_called_def barrier_init_def)
  then have "barrier_reach 2 both_called" by (rule barrier_reach.step [OF r])
  then show ?thesis
    using barrier_separates_phases [of 2 both_called 0 1 1] by (simp add: both_called_def)
qed

end
