(* ===== verification/Spec2Isabelle.thy ===== *)
theory Spec2Isabelle
  imports Core_Properties Object_Properties Task_Properties Timer_Properties Sys_Properties System_Properties
    Lock_Properties Service_Properties
begin

text \<open>
  The TOPPERS/FMP kernel: a multiprocessor real-time kernel in the ITRON tradition, found under
  \<open>src/DeviceCode/Targets/OS/Toppers/fmp\<close> (all paths below are relative to it).  It is the operating
  system on which the managed runtime of this repository is ported to multicore ARM boards; it is written in
  C with an assembly entry, and it is the part of the repository modelled here.

  \<^bold>\<open>Configuration.\<close>  The model is the kernel as \<open>target/zynq_gcc\<close> builds it: one task lock and one
  object lock for each processor (\<open>P_KLOCK\<close>), native spin locks, a clock for each processor
  (\<open>TOPPERS_SYSTIM_LOCAL\<close>) with ticks of one millisecond, one log buffer for all processors (\<open>G_SYSLOG\<close>).  The
  numbers of processors, tasks and objects, their attributes and the tables that the configurator generates
  (\<open>kernel_cfg.c\<close>) are the record \<open>cfg\<close>, a parameter; \<open>sys_cfg\<close> states what the configurator checks of them.  The
  bodies of tasks, handlers and exception routines are parameters or arbitrary steps.

  \<^bold>\<open>State.\<close>  \<open>kstate\<close> has the control blocks of the tasks (\<open>tcb\<close>, \<open>task.h\<close>) and processors (\<open>pcb\<close>,
  \<open>pcb.h\<close>), the store of all queue cells, the event heaps of the processors, the control blocks of the objects
  and the pending interprocessor interrupts.  A task or an object is its index, a list cell an element of \<open>qnode\<close>.
  The doubly linked lists of \<open>queue.h\<close> are next and previous pointers in one store; a message or a
  memory block is linked by its address or index.  Task status words, bitmaps, flag patterns and event times are
  machine words, and event times wrap around.

  \<^bold>\<open>Steps.\<close>  A service is a function from the state to a result and a state.  \<open>Ret e\<close> is a return to the caller,
  \<open>Blocks t\<close> a caller that sleeps, \<open>Again\<close> an attempt to get a spin lock that fails.  What a service does while it
  holds its locks is one step.  A service that has to give its locks up and take them again
  (\<open>rel_wai\<close>, \<open>ter_tsk\<close>, \<open>chg_pri\<close>, \<open>rel_mpf\<close>, the callbacks of time events) is two functions, \<open>f_1\<close> and
  \<open>f_2\<close>, between which any other step may come.  A retry of the
  whole service because a lock was not obtained is a step that changes nothing; that this is so, is what the
  comments of the code ask for, and \<open>snd_mbx\<close> is the exception.  \<open>System\<close> composes the steps of all processors.

  \<^bold>\<open>Theories of the kernel.\<close>
  \<^item> \<open>Prelude\<close>: scalar types, constants and error codes (\<open>include/kernel.h\<close>, \<open>t_stddef.h\<close>), results, shared lemmas.
  \<^item> \<open>Queue\<close> (\<open>include/queue.h\<close>): the rings; the locale \<open>ring_queue\<close> gives the list view of a queue.
  \<^item> \<open>Kernel_Data\<close> (\<open>task.h\<close>, \<open>pcb.h\<close>, \<open>winfo.h\<close>, \<open>check.h\<close>): control blocks, checks of identifiers and contexts.
  \<^item> \<open>Time_Event\<close> (\<open>time_event.c\<close>): the heap of time events as an array with back pointers; locale \<open>event_queue\<close>.
  \<^item> \<open>Task\<close> (\<open>task.c\<close>): ready queues, bitmap search, state transitions, \<open>p_schedtsk\<close>.
  \<^item> \<open>Wait\<close>, \<open>Wait_Inv\<close> (\<open>wait.c\<close>, \<open>wait.h\<close>): entering and ending a wait, and the kernel invariant \<open>kinv\<close>;
    locale \<open>wake_request\<close> for the ways in which a service asks for a dispatch.
  \<^item> \<open>Semaphore\<close>, \<open>Eventflag\<close>, \<open>Dataqueue\<close>, \<open>Pridataq\<close>, \<open>Mailbox\<close>, \<open>Mempfix\<close>: the objects, each with its
    services, invariant and frame; \<open>Buffer_Queue\<close> is the bounded buffer with sleeping senders and receivers that
    the two kinds of data queues implement (locale \<open>buffer_queue\<close>).
  \<^item> \<open>Task_Step\<close>, \<open>Task_Sync\<close> (\<open>task_sync.c\<close>), \<open>Task_Manage\<close> (\<open>task_manage.c\<close>): services on tasks.
  \<^item> \<open>Handler\<close> (\<open>cyclic.c\<close>, \<open>alarm.c\<close>; locale \<open>timed_handler\<close>), \<open>Signal_Time\<close> (\<open>signal_time\<close>): handlers and the tick.
  \<^item> \<open>Spin_Lock\<close> (\<open>spin_lock.c\<close>), \<open>Sys_Manage\<close> (\<open>sys_manage.c\<close>, \<open>interrupt.c\<close>, \<open>task_except.c\<close>, \<open>task_refer.c\<close>).
  \<^item> \<open>Interrupt\<close> (\<open>arch/arm_gcc/common/core_support.S\<close>, \<open>mp.c\<close>): entry and return of handlers, idle loop, interprocessor
    interrupts.  \<open>Startup\<close> (\<open>startup.c\<close>, \<open>mp.c\<close>, \<open>kernel.tf\<close>): initialization.
  \<^item> \<open>System\<close>: the invariant \<open>sysinv\<close> of all components, the step relation and the reachable states.
  \<^item> \<open>Klock\<close> (\<open>mp.c\<close>, \<open>chip_config_tool.h\<close>, the release code of the interrupt entry of two targets): below the atomic
    steps, how processors get the task and object locks, and lose them to an interrupt while they wait for another.
  \<^item> \<open>Barrier\<close> (\<open>barrier_sync\<close> in \<open>mp.c\<close>): every access to the shared variables is a step.

  \<^bold>\<open>Theories of the system services.\<close>
  \<^item> \<open>Ring\<close>: array buffers with a read and a write index.
  \<^item> \<open>Log_Output\<close> (\<open>library/log_output.c\<close>, \<open>vasyslog.c\<close>): formatting, collection of arguments.
  \<^item> \<open>Syslog\<close> (\<open>syssvc/syslog.c\<close>): the log buffer; \<open>log_run\<close> is a history of calls.
  \<^item> \<open>Serial\<close> (\<open>syssvc/serial.c\<close>, \<open>target_serial.c\<close>): ports, flow control, callbacks; \<open>Serial_Run\<close>: the loops of
    \<open>serial_wri_dat\<close> and \<open>serial_rea_dat\<close> as places, interleaved with the interrupts.  The semaphores are the abstract
    ones that \<open>Semaphore\<close> proves the kernel to implement.
  \<^item> \<open>Logtask\<close> (\<open>syssvc/logtask.c\<close>): the log task and the output at the end of the system.

  \<^bold>\<open>What is proved.\<close>  The theories \<open>Core_Properties\<close>, \<open>Object_Properties\<close>, \<open>Task_Properties\<close>,
  \<open>Timer_Properties\<close>, \<open>Sys_Properties\<close>, \<open>System_Properties\<close>, \<open>Lock_Properties\<close>, \<open>Service_Properties\<close> and this one
  state the properties, each with an instance on a concrete state (\<open>Sample\<close>).  In groups:
  \<^item> Every service keeps the kernel invariant \<open>kinv\<close> (queues are well linked and agree with the states of the tasks; time
    events and timeouts agree; \<open>p_schedtsk\<close> is the first task of the highest priority; a dispatch that is due is
    performed, requested or put off) and the invariants of the objects, on every branch, and changes no other object.
  \<^item> Services refine abstract objects: \<open>asem\<close> for semaphores, \<open>abuf\<close> for data queues, lists for mailboxes, sets of blocks for
    memory pools; an error is a result of the abstract operation too.
  \<^item> The loops end: the heap searches by measures, the scan of a wait queue on every well-formed ring, the tick for every
    behaviour of the handlers within stated limits, \<open>call_texrtn\<close> exactly when a round leaves no exception
    pending.  Loops that need not end are \<open>partial_function (option)\<close>, with \<open>None\<close> for a loop that does not end; the lemmas
    prove when there is a result.
  \<^item> In every reachable state the invariants hold, and no dispatch is lost.
  \<^item> Two processors never hold the same kernel lock, with the release code of one target; nobody waits in a circle; the barrier
    separates the phases and opens.
  \<^item> The log loses no record without counting it, the serial driver keeps the order of the characters and loses no wakeup,
    and formatting reads back.

  \<^bold>\<open>Races that the system excludes.\<close>  Some services break the invariant when other steps come between theirs.  Properties show
  most of these runs, and the step relations leave them out by their guards or by taking the steps of the call together: \<open>snd_mbx\<close> when the lock of the receiver is not
  obtained at once; \<open>rel_mpf\<close> called twice for the same block; \<open>ter_tsk\<close> when the task becomes runnable or
  suspended between the two steps (\<open>ter_ok\<close>); \<open>mig_tsk\<close> on a task that is suspended but still registered (\<open>mig_ok\<close>);
  \<open>ext_tsk\<close> by a task that another processor has suspended; the second half of a timeout (\<open>wait_tmout_2\<close>)
  for a task that already waits with a new timeout; \<open>rel_wai\<close> on a reader of a serial port that waits to echo (\<open>lossy\<close>).  A message is sent only while it is in no mailbox (\<open>msg_free\<close>), as the interface requires.

  \<^bold>\<open>Bounds.\<close>  Identifiers are integers and are checked as in the code; counts that the code keeps in \<open>uint_t\<close> and bounds by a
  maximum of the configuration are natural numbers; where they can wrap they are words.  A tick is one millisecond, so a
  timeout is registered relative to \<open>base_time\<close> and compared modulo 2 to the 32; the longest one is \<open>TMAX_RELTIM\<close>.
  A number has at most 11 characters in \<open>convert\<close>, which suffices for 32 bits.

  \<^bold>\<open>Not modelled.\<close>  Registers, stacks and the switch of the context; memory barriers and caches (accesses to shared
  variables are sequentially consistent); the interrupt controller, timers and UART, of which the results are parameters; the routines that
  start and end the board; the configurator; trace output.  A serial port is used by tasks of the processor that takes its
  interrupts.  Of the rest of the repository (the managed runtime and its drivers in C++, bundled network, cryptography, image
  and interpreter libraries, ports to other boards) nothing is modelled.
\<close>

text \<open>
  The table lookup of \<open>bitmap_search\<close> gives, for every non-zero bitmap, the number of the
  lowest bit that is set, so that \<open>search_schedtsk\<close> reads the ready queue of the highest priority.
\<close>

lemma bitmap_search_finds_lowest:
  assumes "w \<noteq> 0"
  shows "bitmap_search w = (LEAST i. bit w i) \<and> bitmap_search w < 16"
proof -
  have L: "bitmap_search w < 16" "bit w (bitmap_search w)" "\<And>j. j < bitmap_search w \<Longrightarrow> \<not> bit w j"
    using bitmap_search_lowest [OF assms] by (simp_all add: lowest_bit_def)
  have "(LEAST i. bit w i) = bitmap_search w"
    by (rule Least_equality) (use L(2,3) in \<open>auto simp: not_less [symmetric]\<close>)
  then show ?thesis using L(1) by simp
qed

lemma bitmap_search_finds_lowest_witness: "bitmap_search 0x5000 = 12 \<and> bitmap_search 0x5000 < 16"
  using bitmap_search_finds_lowest [of "0x5000"] by (simp add: bitmap_search_def bitmap_search_table_def)

text \<open>
  C7: \<open>sig_sem\<close> gives the unit to the task at the head of the wait queue, which becomes ready
  with \<open>E_OK\<close>; with no task waiting it adds one to the count, up to \<open>maxsem\<close> (\<open>E_QOVR\<close>
  beyond).  The kernel invariant is kept and no other semaphore changes.
\<close>

theorem sig_sem_meets_spec:
  assumes "kinv C {} Q s" and "sense_tskctx_unl me s" and "VALID_SEMID C semid"
    and "sig_sem C me semid s = (r, s')"
  shows "\<exists>Q' e. r = Ret e \<and> kinv C {} Q' s' \<and> sem_frame (INDEX_OBJ semid) Q s Q' s' \<and>
    asem_signal (maxsem (seminib_table C (INDEX_OBJ semid))) (asem Q s (INDEX_OBJ semid)) =
      (e, asem Q' s' (INDEX_OBJ semid)) \<and>
    (\<forall>t ts. Q (WAITQ (SEM (INDEX_OBJ semid))) = t # ts \<longrightarrow>
       tcb_of s' = (tcb_of s)(t := ended_tcb E_OK (tcb_of s t)))"
  using sig_sem_refines [OF assms] by simp

theorem sig_sem_meets_spec_witness:
  "\<exists>s'. sig_sem sample_cfg 0 1 sample_state = (Ret E_OK, s') \<and> TSTAT_RUNNABLE (tstat (tcb_of s' 1))"
proof -
  obtain r s' where e: "sig_sem sample_cfg 0 1 sample_state = (r, s')" by fastforce
  have a: "asem sample_queues sample_state 0 = (0, [1])"
    by (simp add: asem_def sem_def sample_objs_def)
  show ?thesis
    using sig_sem_meets_spec [OF sample_kinv _ _ e] e
    by (auto simp: a ended_tcb_def released_tcb_def sample_tcb_def tstat_macros tstat_consts)
qed

text \<open>
  C8: \<open>wai_sem\<close> takes a unit if there is one; otherwise the caller sleeps, queued in the order
  of arrival or of priority as the semaphore's attribute says.
\<close>

theorem wai_sem_meets_spec:
  assumes "kinv C {} Q s" and "sense_tskctx_unl me s" and "VALID_SEMID C semid"
    and "dspflg (pcb_of s me)" and "TSTAT_RUNNABLE (tstat (tcb_of s (runtsk me s)))"
    and "wai_sem C me semid s = (r, s')"
  shows "\<exists>Q' ok. kinv C {} Q' s' \<and> sem_frame (INDEX_OBJ semid) Q s Q' s' \<and>
    asem_wait (wait_insert C (\<lambda>u. priority (tcb_of s u)) (SEM (INDEX_OBJ semid)) (runtsk me s))
      (asem Q s (INDEX_OBJ semid)) = (ok, asem Q' s' (INDEX_OBJ semid)) \<and>
    r = (if ok then Ret E_OK else Blocks (runtsk me s))"
  using wai_sem_refines [OF assms] by simp

theorem wai_sem_meets_spec_witness:
  "\<exists>s' Q'. wai_sem sample_cfg 0 1 sample_state = (Blocks 0, s') \<and> kinv sample_cfg {} Q' s' \<and>
     Q' (WAITQ (SEM 0)) = [1, 0]"
proof -
  obtain r s' where e: "wai_sem sample_cfg 0 1 sample_state = (r, s')" by fastforce
  have a: "asem sample_queues sample_state 0 = (0, [1])"
    by (simp add: asem_def sem_def sample_objs_def)
  obtain Q' ok where Q': "kinv sample_cfg {} Q' s'" "(False, 0, [1, 0]) = (ok, asem Q' s' 0)"
    "r = (if ok then Ret E_OK else Blocks 0)"
    using wai_sem_meets_spec [OF sample_kinv _ _ _ _ e] by (auto simp: a)
  then have "Q' (WAITQ (SEM 0)) = [1, 0]" by (simp add: asem_def)
  then show ?thesis using Q' e by auto
qed

end
